(* ===== verification/Prelude.thy ===== *)
theory Prelude
  imports Main "HOL-Library.Word" "HOL-Library.Product_Lexorder"
begin

text \<open>
  The prelude of the LeanAT development: the machine integer types of the C++ runtime, the
  fact collections that the component proofs use, and generic lemmas on words, lists and
  sums that several components share. Nothing in this theory models a particular source
  file.
\<close>

unbundle bit_operations_syntax

section \<open>Integer types\<close>

text \<open>
  Values of type \<open>std::uint8_t\<close>, \<open>std::uint32_t\<close> and \<open>std::uint64_t\<close> are words
  of that width, so that \<open>+\<close> and \<open>-\<close> wrap as in C++. A \<open>std::size_t\<close> that counts the
  elements of a container or the bytes of an account is a \<open>nat\<close>; where the source
  subtracts two such counts, an invariant of the component shows that the difference does
  not go below zero.
\<close>

type_synonym u8 = "8 word"
type_synonym u32 = "32 word"
type_synonym u64 = "64 word"

abbreviation UINT64_MAX :: u64 where
  "UINT64_MAX \<equiv> - 1"

abbreviation SIZE_MAX :: nat where
  "SIZE_MAX \<equiv> 18446744073709551615"

abbreviation UINT32_MAX :: nat where
  "UINT32_MAX \<equiv> 4294967295"

section \<open>Fact collections\<close>

named_theorems ops
  \<open>unfolding equations of the operations of a component\<close>

named_theorems inv_defs
  \<open>definitions of the invariants\<close>

section \<open>Words\<close>

lemma unat_Suc_not_max: "(x :: 'a::len word) \<noteq> - 1 \<Longrightarrow> unat (x + 1) = Suc (unat x)"
  by (metis add.commute add_eq_0_iff unatSuc)

lemma not_max_lessI: "(x :: 'a::len word) \<noteq> - 1 \<Longrightarrow> x < x + 1"
  by (simp add: word_less_nat_alt unat_Suc_not_max)

lemma word_less_add1_iff:
  "(y :: 'a::len word) \<noteq> - 1 \<Longrightarrow> x < y + 1 \<longleftrightarrow> x \<le> y"
  by (simp add: word_less_nat_alt word_le_nat_alt unat_Suc_not_max less_Suc_eq_le)

lemma word_le_minus_iff_no_overflow:
  fixes a b :: u64
  shows "b > UINT64_MAX - a \<longleftrightarrow> 2 ^ 64 \<le> unat a + unat b"
proof -
  have "unat (UINT64_MAX - a) = 2 ^ 64 - 1 - unat a"
    by (subst unat_sub) (simp_all add: unsigned_minus_1_eq_mask mask_eq_exp_minus_1)
  moreover have "unat a < 2 ^ 64" using unsigned_less [of a] by simp
  ultimately show ?thesis
    by (simp add: word_less_nat_alt) linarith
qed

lemma unat_add_no_overflow:
  fixes a b :: u64
  assumes "unat a + unat b < 2 ^ 64"
  shows "unat (a + b) = unat a + unat b"
  using assms by (simp add: unat_add_lem [THEN iffD1])

lemma succ_le: "(g :: u64) \<noteq> UINT64_MAX \<Longrightarrow> g \<le> g + 1"
  by (simp add: less_imp_le not_max_lessI)

section \<open>Lists\<close>

lemma nth_update_total:
  "xs[i := x] ! j = (if i = j \<and> j < length xs then x else xs ! j)"
  by (cases "i < length xs") (auto simp: nth_list_update list_update_beyond)

lemma case_sum_Inr_iff:
  "(case r of Inl e \<Rightarrow> Inl e | Inr x \<Rightarrow> f x) = Inr y \<longleftrightarrow> (\<exists>x. r = Inr x \<and> f x = Inr y)"
  by (cases r) auto

lemma find_SomeD: "find P xs = Some x \<Longrightarrow> x \<in> set xs \<and> P x"
  by (induction xs) (auto split: if_splits)

end
