(* ===== verification/Common.thy ===== *)
theory Common
  imports Prelude
begin

text \<open>
  The vocabulary of the runtime, from \<open>runtime/include/leanat/common.hpp\<close>: error codes,
  generation-checked handles, owning values, ready keys, payload and transport records, the
  checked arithmetic of ticks, and the byte accounting of values and payloads.
\<close>

section \<open>Errors and results\<close>

datatype error_code =
    InvalidArgument | Overflow | Capacity | StaleHandle | WrongOwner | WrongDomain
  | AlreadyReleased | NotReady | InvalidState | ProtocolViolation | TimeRegression
  | Unsupported | FuelExhausted | ZenoDetected | NotStarted | Duplicate | Integrity
  | Schema | Io | ExternalFailure | Cancelled | TypeMismatch

record error =
  code :: error_code
  message :: string

text \<open>
  \<open>Expected<T>\<close> is a sum: \<open>Inl\<close> the error, \<open>Inr\<close> the value; \<open>Expected<void>\<close> holds
  the unit value.
\<close>

type_synonym 'a expected = "error + 'a"

definition fail :: "error_code \<Rightarrow> string \<Rightarrow> 'a expected" where
  "fail c m = Inl \<lparr>code = c, message = m\<rparr>"

lemma fail_simps [simp]:
  "fail c m \<noteq> Inr x" "Inr x \<noteq> fail c m"
  "fail c m = Inl e \<longleftrightarrow> e = \<lparr>code = c, message = m\<rparr>"
  "(fail c m :: 'a expected) = fail c' m' \<longleftrightarrow> c = c' \<and> m = m'"
  "isl (fail c m)"
  by (auto simp: fail_def)

lemma case_fail [simp]:
  "(case fail c m of Inl e \<Rightarrow> f e | Inr x \<Rightarrow> g x) = f \<lparr>code = c, message = m\<rparr>"
  by (simp add: fail_def)

section \<open>Identifiers\<close>

type_synonym tick = u64
type_synonym duration = u64
type_synonym domain_id = u32
type_synonym instance_id = u32
type_synonym connection_id = u32
type_synonym port_id = u32
type_synonym field_id = u32
type_synonym phase_id = u32
type_synonym call_id = u64
type_synonym transport_id = u64
type_synonym batch_id = u64

section \<open>Checked arithmetic\<close>

definition checked_add :: "u64 \<Rightarrow> u64 \<Rightarrow> u64 expected" where
  "checked_add a b =
     (if b > UINT64_MAX - a then fail Overflow ''addition overflow'' else Inr (a + b))"

definition checked_mul :: "u64 \<Rightarrow> u64 \<Rightarrow> u64 expected" where
  "checked_mul a b =
     (if a \<noteq> 0 \<and> b > UINT64_MAX div a then fail Overflow ''multiplication overflow''
      else Inr (a * b))"

definition add_time :: "tick \<Rightarrow> duration \<Rightarrow> tick expected" where
  "add_time a b =
     (case checked_add a b of
        Inl e \<Rightarrow> Inl e
      | Inr n \<Rightarrow> Inr n)"

section \<open>Handles\<close>

datatype handle_kind =
    HK_Transaction | HK_Hop | HK_Event | HK_Process | HK_Wait | HK_Result | HK_Consumer
  | HK_Scope | HK_Task | HK_Access | HK_Lease | HK_ResourceTicket | HK_SpawnTicket
  | HK_Drain | HK_GateTicket

record handle =
  h_kind :: handle_kind
  h_domain :: domain_id
  h_store :: u32
  h_slot :: u32
  h_generation :: u64
  h_owner :: u64

definition default_handle :: handle where
  "default_handle = \<lparr>h_kind = HK_Transaction, h_domain = 0, h_store = 0, h_slot = 0,
     h_generation = 0, h_owner = 0\<rparr>"

section \<open>Owning values\<close>

type_synonym bytes = "u8 list"

text \<open>
  The variant inside \<open>Value\<close>: monostate, bool, unsigned and signed 64-bit integers, a byte
  vector, a vector of values and a handle. A signed integer is kept as its two's-complement
  word.
\<close>

datatype value_t =
    VUnit
  | VBool bool
  | VU64 u64
  | VI64 u64
  | VBytes bytes
  | VArray "value_t list"
  | VHandle handle

fun value_index :: "value_t \<Rightarrow> nat" where
  "value_index VUnit = 0"
| "value_index (VBool _) = 1"
| "value_index (VU64 _) = 2"
| "value_index (VI64 _) = 3"
| "value_index (VBytes _) = 4"
| "value_index (VArray _) = 5"
| "value_index (VHandle _) = 6"

section \<open>Ready keys\<close>

text \<open>A logical instant: a tick and a turn within it, ordered lexicographically.\<close>

datatype ready_key = ReadyKey (rk_time: tick) (rk_turn: u64)

instantiation ready_key :: linorder
begin

definition less_eq_ready_key :: "ready_key \<Rightarrow> ready_key \<Rightarrow> bool" where
  "less_eq_ready_key a b \<longleftrightarrow> (rk_time a, rk_turn a) \<le> (rk_time b, rk_turn b)"

definition less_ready_key :: "ready_key \<Rightarrow> ready_key \<Rightarrow> bool" where
  "less_ready_key a b \<longleftrightarrow> (rk_time a, rk_turn a) < (rk_time b, rk_turn b)"

instance
  by standard
    (auto simp: less_eq_ready_key_def less_ready_key_def intro: ready_key.expand)

end

lemma less_ready_key_simp [simp]:
  "ReadyKey t n < ReadyKey t' n' \<longleftrightarrow> t < t' \<or> t = t' \<and> n < n'"
  by (auto simp: less_ready_key_def)

lemma less_eq_ready_key_simp [simp]:
  "ReadyKey t n \<le> ReadyKey t' n' \<longleftrightarrow> t < t' \<or> t = t' \<and> n \<le> n'"
  by (auto simp: less_eq_ready_key_def)

section \<open>Payloads and transport records\<close>

datatype command = Read | Write | Ignore

datatype response_status =
    Incomplete | Ok | GenericError | AddressError | CommandError | BurstError
  | ByteEnableError

text \<open>A \<open>std::map\<close> of extensions is an association list in key order.\<close>

type_synonym extensions = "(string \<times> bytes) list"

record payload_snapshot =
  pl_command :: command
  pl_address :: u64
  pl_data :: bytes
  pl_streaming_width :: u64
  pl_byte_enable :: bytes
  pl_status :: response_status
  pl_dmi_hint :: bool
  pl_extensions :: extensions

record response_snapshot =
  rs_status :: response_status
  rs_data :: bytes
  rs_dmi_hint :: bool
  rs_extensions :: extensions

datatype flow = Forward | Backward
datatype sync = Accepted | Updated | Completed

abbreviation (input) begin_req :: phase_id where "begin_req \<equiv> 1"
abbreviation (input) end_req :: phase_id where "end_req \<equiv> 2"
abbreviation (input) begin_resp :: phase_id where "begin_resp \<equiv> 3"
abbreviation (input) end_resp :: phase_id where "end_resp \<equiv> 4"

record wire_call =
  wc_id :: call_id
  wc_connection :: connection_id
  wc_transport :: transport_id
  wc_flow :: flow
  wc_phase :: phase_id
  wc_call_time :: tick
  wc_incoming_delay :: duration
  wc_request :: payload_snapshot

record wire_return =
  wr_sync :: sync
  wr_phase :: "phase_id option"
  wr_outgoing_delay :: duration
  wr_response :: "response_snapshot option"

record send_intent =
  si_connection :: connection_id
  si_txn :: handle
  si_flow :: flow
  si_phase :: phase_id
  si_not_before :: tick
  si_call_id :: call_id
  si_transport :: transport_id
  si_payload :: payload_snapshot

record wake_point =
  wp_time :: tick
  wp_turn :: u64
  wp_generation :: u64

datatype context_kind = CK_Timed | CK_Process | CK_Transport | CK_Debug | CK_Dmi

text \<open>The source span of a context is diagnostic only and is left out.\<close>

record execution_context =
  ec_kind :: context_kind
  ec_domain :: domain_id
  ec_instance :: instance_id
  ec_connection :: connection_id
  ec_ready :: ready_key
  ec_owner :: u64
  ec_epoch :: u64

section \<open>Byte accounting\<close>

text \<open>
  Quantities that the C++ implementation defines, not this code base: the sizes of the
  objects and the capacity that the allocator leaves to a vector or a string with given
  contents. They are a parameter of the accounting functions; the only fact the code relies
  on is that a capacity is at least the size (\<open>capacities_ok\<close>).
\<close>

record platform =
  sizeof_Value :: nat
  sizeof_ptr :: nat
  sizeof_extension :: nat
  sizeof_PayloadSnapshot :: nat
  sizeof_ResponseSnapshot :: nat
  sizeof_SendIntent :: nat
  bytes_capacity :: "bytes \<Rightarrow> nat"
  array_capacity :: "value_t list \<Rightarrow> nat"
  string_capacity :: "string \<Rightarrow> nat"

definition capacities_ok :: "platform \<Rightarrow> bool" where
  "capacities_ok pf \<longleftrightarrow>
     (\<forall>b. length b \<le> bytes_capacity pf b) \<and> (\<forall>a. length a \<le> array_capacity pf a) \<and>
     (\<forall>s. length s \<le> string_capacity pf s)"

abbreviation (input) value_max_depth :: nat where "value_max_depth \<equiv> 256"
abbreviation (input) value_max_nodes :: nat where "value_max_nodes \<equiv> 65536"

text \<open>The lambda \<open>add\<close>: the new total, or none on overflow of \<open>std::size_t\<close>.\<close>

definition size_add :: "nat \<Rightarrow> nat \<Rightarrow> nat option" where
  "size_add tot n = (if n > SIZE_MAX - tot then None else Some (tot + n))"

text \<open>A frame of the explicit stack of \<open>bounded_value_bytes\<close>.\<close>

record frame =
  fr_value :: value_t
  fr_next :: nat
  fr_visited :: bool

fun value_children :: "value_t \<Rightarrow> value_t list" where
  "value_children (VArray a) = a"
| "value_children _ = []"

text \<open>The body of \<open>if (!frame.visited)\<close>: the new node count and total, or none for the
  return of \<open>SIZE_MAX\<close>.\<close>

definition visit_frame :: "platform \<Rightarrow> value_t \<Rightarrow> nat \<Rightarrow> nat \<Rightarrow> (nat \<times> nat) option" where
  "visit_frame pf v nodes tot =
     (if Suc nodes > value_max_nodes then None
      else case size_add tot (sizeof_Value pf) of
        None \<Rightarrow> None
      | Some tot \<Rightarrow>
         (case v of
            VBytes b \<Rightarrow>
              (case size_add tot (bytes_capacity pf b) of
                 None \<Rightarrow> None
               | Some tot \<Rightarrow> Some (Suc nodes, tot))
          | VArray a \<Rightarrow>
              (if array_capacity pf a > value_max_nodes then None
               else let spare = array_capacity pf a - length a in
                 if spare > SIZE_MAX div sizeof_Value pf then None
                 else case size_add tot (spare * sizeof_Value pf) of
                   None \<Rightarrow> None
                 | Some tot \<Rightarrow> Some (Suc nodes, tot))
          | _ \<Rightarrow> Some (Suc nodes, tot)))"

fun value_weight :: "value_t \<Rightarrow> nat" where
  "value_weight (VArray a) = 2 + sum_list (map value_weight a)"
| "value_weight _ = 2"

definition frame_weight :: "frame \<Rightarrow> nat" where
  "frame_weight f = 1 + sum_list (map value_weight (drop (fr_next f) (value_children (fr_value f))))"

lemma value_weight_children:
  "value_weight v = 2 + sum_list (map value_weight (value_children v))"
  by (cases v) auto

lemma frame_weight_step:
  assumes "fr_next f < length (value_children (fr_value f))"
  shows "frame_weight f =
    Suc (frame_weight (f\<lparr>fr_next := Suc (fr_next f), fr_visited := b\<rparr>) +
      frame_weight \<lparr>fr_value = value_children (fr_value f) ! fr_next f, fr_next = 0,
        fr_visited = False\<rparr>)"
  using assms by (simp add: frame_weight_def value_weight_children Cons_nth_drop_Suc [symmetric])

text \<open>
  The \<open>while (depth)\<close> loop. The stack is a list with the top frame first, so \<open>depth\<close> is
  its length; \<open>stack.size()\<close> is \<open>value_max_depth\<close>.
\<close>

function bounded_value_loop :: "platform \<Rightarrow> frame list \<Rightarrow> nat \<Rightarrow> nat \<Rightarrow> nat" where
  "bounded_value_loop pf [] nodes tot = tot"
| "bounded_value_loop pf (f # stack) nodes tot =
     (case (if fr_visited f then Some (nodes, tot)
            else visit_frame pf (fr_value f) nodes tot) of
        None \<Rightarrow> SIZE_MAX
      | Some (nodes', tot') \<Rightarrow>
         (let array = value_children (fr_value f) in
          if fr_next f \<ge> length array then bounded_value_loop pf stack nodes' tot'
          else if length array > value_max_nodes \<or> Suc (length stack) = value_max_depth
          then SIZE_MAX
          else bounded_value_loop pf
                 (\<lparr>fr_value = array ! fr_next f, fr_next = 0, fr_visited = False\<rparr>
                  # f\<lparr>fr_next := Suc (fr_next f), fr_visited := True\<rparr> # stack) nodes' tot'))"
  by pat_completeness auto
termination
  by (relation "measure (\<lambda>(pf, stack, nodes, tot). sum_list (map frame_weight stack))")
    (auto simp: frame_weight_step [where b = True], simp add: frame_weight_def)

definition bounded_value_bytes :: "platform \<Rightarrow> value_t \<Rightarrow> nat" where
  "bounded_value_bytes pf root =
     bounded_value_loop pf [\<lparr>fr_value = root, fr_next = 0, fr_visited = False\<rparr>] 0 0"

text \<open>\<open>owned_value_bytes\<close> of \<open>runtime/src/result_store.cpp\<close> forwards to it.\<close>

definition owned_value_bytes :: "platform \<Rightarrow> value_t \<Rightarrow> nat" where
  "owned_value_bytes pf v = bounded_value_bytes pf v"

fun size_add_all :: "nat \<Rightarrow> nat list \<Rightarrow> nat option" where
  "size_add_all tot [] = Some tot"
| "size_add_all tot (n # ns) =
     (case size_add tot n of None \<Rightarrow> None | Some tot' \<Rightarrow> size_add_all tot' ns)"

definition extension_costs :: "platform \<Rightarrow> string \<times> bytes \<Rightarrow> nat list" where
  "extension_costs pf e =
     [sizeof_extension pf, 4 * sizeof_ptr pf, string_capacity pf (fst e), 1,
      bytes_capacity pf (snd e)]"

definition bounded_extension_bytes :: "platform \<Rightarrow> extensions \<Rightarrow> nat" where
  "bounded_extension_bytes pf es =
     (if length es > value_max_nodes then SIZE_MAX
      else case size_add_all 0 (concat (map (extension_costs pf) es)) of
        None \<Rightarrow> SIZE_MAX
      | Some tot \<Rightarrow> tot)"

definition bounded_payload_bytes :: "platform \<Rightarrow> payload_snapshot \<Rightarrow> nat" where
  "bounded_payload_bytes pf p =
     (let extensions = bounded_extension_bytes pf (pl_extensions p) in
      if extensions = SIZE_MAX then SIZE_MAX
      else case size_add_all (sizeof_PayloadSnapshot pf)
             [bytes_capacity pf (pl_data p), bytes_capacity pf (pl_byte_enable p), extensions] of
        None \<Rightarrow> SIZE_MAX
      | Some tot \<Rightarrow> tot)"

definition bounded_response_bytes :: "platform \<Rightarrow> response_snapshot \<Rightarrow> nat" where
  "bounded_response_bytes pf r =
     (let extensions = bounded_extension_bytes pf (rs_extensions r) in
      if extensions = SIZE_MAX then SIZE_MAX
      else if bytes_capacity pf (rs_data r) > SIZE_MAX - sizeof_ResponseSnapshot pf then SIZE_MAX
      else let tot = sizeof_ResponseSnapshot pf + bytes_capacity pf (rs_data r) in
        if extensions > SIZE_MAX - tot then SIZE_MAX else tot + extensions)"

section \<open>Checked arithmetic is exact\<close>

lemma checked_add_exact:
  "checked_add a b =
     (if unat a + unat b < 2 ^ 64 then Inr (a + b) else fail Overflow ''addition overflow'')"
  using word_le_minus_iff_no_overflow [where a = a and b = b] by (simp add: checked_add_def)

lemma checked_add_InrD:
  "checked_add a b = Inr c \<Longrightarrow> unat c = unat a + unat b"
  by (auto simp: checked_add_exact intro: unat_add_no_overflow split: if_splits)

lemma checked_add_InrD_le: "checked_add a b = Inr c \<Longrightarrow> a \<le> c"
  by (simp add: word_le_nat_alt checked_add_InrD)

lemma unat_UINT64_MAX: "unat UINT64_MAX = 2 ^ 64 - 1"
  by (simp add: unsigned_minus_1_eq_mask mask_eq_exp_minus_1)

lemma mul_overflow_iff:
  fixes a b :: u64
  assumes "a \<noteq> 0"
  shows "b > UINT64_MAX div a \<longleftrightarrow> 2 ^ 64 \<le> unat a * unat b"
proof -
  have pos: "0 < unat a" using assms by (simp add: unat_gt_0)
  have "unat (UINT64_MAX div a) = (2 ^ 64 - 1) div unat a"
    by (simp only: unat_div_distrib unat_UINT64_MAX)
  then have "b > UINT64_MAX div a \<longleftrightarrow> (2 ^ 64 - 1) div unat a < unat b"
    by (simp add: word_less_nat_alt)
  also have "\<dots> \<longleftrightarrow> 2 ^ 64 - 1 < unat b * unat a"
    using pos by (rule div_less_iff_less_mult)
  finally show ?thesis by (simp add: mult.commute) linarith
qed

lemma checked_mul_exact:
  "checked_mul a b =
     (if unat a * unat b < 2 ^ 64 then Inr (a * b)
      else fail Overflow ''multiplication overflow'')"
  using mul_overflow_iff [of a b] by (cases "a = 0") (auto simp: checked_mul_def)

section \<open>The value accounting loop computes the recursive cost\<close>

text \<open>The specification: own bytes of a node, and sums over the tree.\<close>

fun value_own :: "platform \<Rightarrow> value_t \<Rightarrow> nat" where
  "value_own pf (VBytes b) = sizeof_Value pf + bytes_capacity pf b"
| "value_own pf (VArray a) =
     sizeof_Value pf + (array_capacity pf a - length a) * sizeof_Value pf"
| "value_own pf _ = sizeof_Value pf"

fun value_cost :: "platform \<Rightarrow> value_t \<Rightarrow> nat" where
  "value_cost pf (VArray a) = value_own pf (VArray a) + sum_list (map (value_cost pf) a)"
| "value_cost pf v = value_own pf v"

fun value_nodes :: "value_t \<Rightarrow> nat" where
  "value_nodes (VArray a) = 1 + sum_list (map value_nodes a)"
| "value_nodes _ = 1"

fun value_depth :: "value_t \<Rightarrow> nat" where
  "value_depth (VArray a) = Suc (foldr max (map value_depth a) 0)"
| "value_depth _ = 1"

fun node_ok :: "platform \<Rightarrow> value_t \<Rightarrow> bool" where
  "node_ok pf (VArray a) \<longleftrightarrow> array_capacity pf a \<le> value_max_nodes"
| "node_ok pf _ \<longleftrightarrow> True"

fun tree_ok :: "platform \<Rightarrow> value_t \<Rightarrow> bool" where
  "tree_ok pf (VArray a) \<longleftrightarrow> node_ok pf (VArray a) \<and> (\<forall>v \<in> set a. tree_ok pf v)"
| "tree_ok pf _ \<longleftrightarrow> True"

text \<open>A value that the runtime can account for.\<close>

definition value_ok :: "platform \<Rightarrow> value_t \<Rightarrow> bool" where
  "value_ok pf v \<longleftrightarrow> tree_ok pf v \<and> value_depth v \<le> value_max_depth \<and>
     value_nodes v \<le> value_max_nodes \<and> value_cost pf v \<le> SIZE_MAX"

lemma value_cost_children:
  "value_cost pf v = value_own pf v + sum_list (map (value_cost pf) (value_children v))"
  by (cases v) auto

lemma value_nodes_children:
  "value_nodes v = Suc (sum_list (map value_nodes (value_children v)))"
  by (cases v) auto

lemma tree_ok_children:
  "tree_ok pf v \<longleftrightarrow> node_ok pf v \<and> (\<forall>c \<in> set (value_children v). tree_ok pf c)"
  by (cases v) auto

lemma foldr_max_le_iff:
  "foldr max xs (0 :: nat) \<le> n \<longleftrightarrow> (\<forall>x \<in> set xs. x \<le> n)"
  by (induction xs) auto

lemma value_depth_children:
  "value_depth v \<le> Suc n \<longleftrightarrow> (\<forall>c \<in> set (value_children v). value_depth c \<le> n)"
  by (cases v) (auto simp: foldr_max_le_iff)

lemma value_depth_pos: "0 < value_depth v"
  by (cases v) auto

lemma node_ok_length:
  "capacities_ok pf \<Longrightarrow> node_ok pf v \<Longrightarrow> length (value_children v) \<le> value_max_nodes"
  by (cases v) (auto simp: capacities_ok_def intro: order_trans)

lemma size_add_eq:
  "tot \<le> SIZE_MAX \<Longrightarrow> size_add tot n = (if tot + n \<le> SIZE_MAX then Some (tot + n) else None)"
  by (auto simp: size_add_def)

lemma visit_frame_eq:
  assumes "tot \<le> SIZE_MAX" and "0 < sizeof_Value pf"
  shows "visit_frame pf v nodes tot =
    (if nodes < value_max_nodes \<and> node_ok pf v \<and> tot + value_own pf v \<le> SIZE_MAX
     then Some (Suc nodes, tot + value_own pf v) else None)"
  using assms
  by (cases v) (auto simp: visit_frame_def size_add_eq Let_def div_less_iff_less_mult)

definition rem_cost :: "platform \<Rightarrow> frame \<Rightarrow> nat" where
  "rem_cost pf f = (if fr_visited f then 0 else value_own pf (fr_value f)) +
     sum_list (map (value_cost pf) (drop (fr_next f) (value_children (fr_value f))))"

definition rem_nodes :: "frame \<Rightarrow> nat" where
  "rem_nodes f = (if fr_visited f then 0 else 1) +
     sum_list (map value_nodes (drop (fr_next f) (value_children (fr_value f))))"

fun stack_ok :: "platform \<Rightarrow> frame list \<Rightarrow> bool" where
  "stack_ok pf [] \<longleftrightarrow> True"
| "stack_ok pf (f # st) \<longleftrightarrow> node_ok pf (fr_value f) \<and>
     (\<forall>c \<in> set (drop (fr_next f) (value_children (fr_value f))).
        tree_ok pf c \<and> value_depth c + Suc (length st) \<le> value_max_depth) \<and>
     stack_ok pf st"

definition stack_fits :: "platform \<Rightarrow> frame list \<Rightarrow> nat \<Rightarrow> nat \<Rightarrow> bool" where
  "stack_fits pf st nodes tot \<longleftrightarrow> stack_ok pf st \<and>
     nodes + sum_list (map rem_nodes st) \<le> value_max_nodes \<and>
     tot + sum_list (map (rem_cost pf) st) \<le> SIZE_MAX"

lemma sum_drop_Suc:
  "n < length xs \<Longrightarrow>
    sum_list (map f (drop n xs)) = f (xs ! n) + sum_list (map f (drop (Suc n) xs))"
  by (simp add: Cons_nth_drop_Suc [symmetric])

lemma stack_fits_visit:
  assumes "\<not> fr_visited f"
  shows "stack_fits pf (f # st) nodes tot \<longleftrightarrow>
    node_ok pf (fr_value f) \<and>
    stack_fits pf (f\<lparr>fr_visited := True\<rparr> # st) (Suc nodes) (tot + value_own pf (fr_value f))"
  using assms by (auto simp: stack_fits_def rem_cost_def rem_nodes_def add_ac)

lemma stack_fits_pop:
  assumes "fr_visited f" and "length (value_children (fr_value f)) \<le> fr_next f"
    and "node_ok pf (fr_value f)"
  shows "stack_fits pf (f # st) nodes tot \<longleftrightarrow> stack_fits pf st nodes tot"
  using assms by (auto simp: stack_fits_def rem_cost_def rem_nodes_def)

lemma rem_cost_done:
  "fr_visited f \<Longrightarrow> length (value_children (fr_value f)) \<le> fr_next f \<Longrightarrow> rem_cost pf f = 0"
  by (simp add: rem_cost_def)

abbreviation fresh_frame :: "value_t \<Rightarrow> frame" where
  "fresh_frame v \<equiv> \<lparr>fr_value = v, fr_next = 0, fr_visited = False\<rparr>"

lemma rem_cost_fresh: "rem_cost pf (fresh_frame v) = value_cost pf v"
  by (simp add: rem_cost_def value_cost_children)

lemma rem_nodes_fresh: "rem_nodes (fresh_frame v) = value_nodes v"
  by (simp add: rem_nodes_def value_nodes_children)

lemma rem_push:
  assumes "fr_visited f" and "fr_next f < length (value_children (fr_value f))"
  shows "rem_cost pf f = value_cost pf (value_children (fr_value f) ! fr_next f) +
      rem_cost pf (f\<lparr>fr_next := Suc (fr_next f)\<rparr>)"
    and "rem_nodes f = value_nodes (value_children (fr_value f) ! fr_next f) +
      rem_nodes (f\<lparr>fr_next := Suc (fr_next f)\<rparr>)"
  using assms by (simp_all add: rem_cost_def rem_nodes_def sum_drop_Suc)

lemma stack_fits_push:
  assumes vis: "fr_visited f" and nxt: "fr_next f < length (value_children (fr_value f))"
  shows "stack_fits pf (f # st) nodes tot \<longleftrightarrow> Suc (Suc (length st)) \<le> value_max_depth \<and>
    stack_fits pf (fresh_frame (value_children (fr_value f) ! fr_next f) #
      f\<lparr>fr_next := Suc (fr_next f)\<rparr> # st) nodes tot"
proof -
  let ?c = "value_children (fr_value f) ! fr_next f"
  have deep: "value_depth ?c + Suc (length st) \<le> value_max_depth \<longleftrightarrow>
      Suc (Suc (length st)) \<le> value_max_depth \<and>
      (\<forall>c \<in> set (value_children ?c). value_depth c + Suc (Suc (length st)) \<le> value_max_depth)"
    using value_depth_children [of ?c "value_max_depth - Suc (Suc (length st))"]
      value_depth_pos [of ?c]
    by auto
  have "set (drop (fr_next f) (value_children (fr_value f))) =
      insert ?c (set (drop (Suc (fr_next f)) (value_children (fr_value f))))"
    using nxt by (simp add: Cons_nth_drop_Suc [symmetric])
  then have "stack_ok pf (f # st) \<longleftrightarrow> Suc (Suc (length st)) \<le> value_max_depth \<and>
      stack_ok pf (fresh_frame ?c # f\<lparr>fr_next := Suc (fr_next f)\<rparr> # st)"
    using tree_ok_children [of pf ?c] deep by auto
  moreover have "rem_cost pf f = rem_cost pf (fresh_frame ?c) +
        rem_cost pf (f\<lparr>fr_next := Suc (fr_next f)\<rparr>)"
      "rem_nodes f = rem_nodes (fresh_frame ?c) + rem_nodes (f\<lparr>fr_next := Suc (fr_next f)\<rparr>)"
    using rem_push [OF vis nxt] by (simp_all add: rem_cost_fresh rem_nodes_fresh)
  ultimately show ?thesis
    unfolding stack_fits_def by (simp add: add.assoc del: stack_ok.simps)
qed

definition visited_nodes_ok :: "platform \<Rightarrow> frame list \<Rightarrow> bool" where
  "visited_nodes_ok pf st \<longleftrightarrow> (\<forall>f \<in> set st. fr_visited f \<longrightarrow> node_ok pf (fr_value f))"

lemma fits_after_visit:
  assumes "tot \<le> SIZE_MAX" and "0 < sizeof_Value pf"
  shows "(case (if fr_visited f then Some (nodes, tot)
            else visit_frame pf (fr_value f) nodes tot) of
        None \<Rightarrow> \<not> stack_fits pf (f # st) nodes tot
      | Some (nodes', tot') \<Rightarrow> tot' \<le> SIZE_MAX \<and>
          (visited_nodes_ok pf (f # st) \<longrightarrow> visited_nodes_ok pf (f\<lparr>fr_visited := True\<rparr> # st)) \<and>
          (visited_nodes_ok pf (f # st) \<longrightarrow> stack_fits pf (f # st) nodes tot =
             stack_fits pf (f\<lparr>fr_visited := True\<rparr> # st) nodes' tot') \<and>
          tot + rem_cost pf f = tot' + rem_cost pf (f\<lparr>fr_visited := True\<rparr>))"
proof (cases "fr_visited f")
  case True
  then have same: "f\<lparr>fr_visited := True\<rparr> = f" by (cases f) simp
  show ?thesis unfolding same using True assms by simp
next
  case False
  then show ?thesis
    using assms stack_fits_visit [OF False, of pf st nodes tot]
    by (auto simp: visit_frame_eq visited_nodes_ok_def rem_cost_def)
      (auto simp: stack_fits_def rem_cost_def rem_nodes_def)
qed

lemma bounded_value_loop_eq:
  assumes "capacities_ok pf" and "0 < sizeof_Value pf"
  shows "tot \<le> SIZE_MAX \<Longrightarrow> visited_nodes_ok pf st \<Longrightarrow> length st \<le> value_max_depth \<Longrightarrow>
    nodes \<le> value_max_nodes \<Longrightarrow>
    bounded_value_loop pf st nodes tot =
      (if stack_fits pf st nodes tot then tot + sum_list (map (rem_cost pf) st) else SIZE_MAX)"
  using assms
proof (induction pf st nodes tot rule: bounded_value_loop.induct)
  case (1 pf nodes tot)
  then show ?case by (simp add: stack_fits_def)
next
  case (2 pf f st nodes tot)
  let ?step = "if fr_visited f then Some (nodes, tot) else visit_frame pf (fr_value f) nodes tot"
  let ?arr = "value_children (fr_value f)" and ?g = "f\<lparr>fr_visited := True\<rparr>"
  note visit = fits_after_visit [OF "2.prems"(1,6), where f = f and nodes = nodes and st = st]
  show ?case
  proof (cases ?step)
    case None
    with visit show ?thesis by simp
  next
    case (Some r)
    obtain nodes' tot' where r: "?step = Some (nodes', tot')" using Some by (cases r) auto
    have after: "tot' \<le> SIZE_MAX" "visited_nodes_ok pf (?g # st)"
      "stack_fits pf (f # st) nodes tot = stack_fits pf (?g # st) nodes' tot'"
      "tot + rem_cost pf f = tot' + rem_cost pf ?g"
      using visit "2.prems"(2) by (auto simp: r)
    have nodes': "nodes' \<le> value_max_nodes"
      using r "2.prems"(1,4,6) by (auto simp: visit_frame_eq split: if_splits)
    have nok: "node_ok pf (fr_value f)" using after(2) by (simp add: visited_nodes_ok_def)
    consider (pop) "length ?arr \<le> fr_next f" | (full) "fr_next f < length ?arr"
        "Suc (length st) = value_max_depth"
      | (push) "fr_next f < length ?arr" "Suc (length st) \<noteq> value_max_depth"
      by linarith
    then show ?thesis
    proof cases
      case pop
      have "bounded_value_loop pf st nodes' tot' =
        (if stack_fits pf st nodes' tot' then tot' + sum_list (map (rem_cost pf) st) else SIZE_MAX)"
        using after(2) "2.prems"(3) pop
        by (intro "2.IH"(1) [OF r refl refl]) (auto simp: visited_nodes_ok_def after nodes' "2.prems")
      moreover have "stack_fits pf (?g # st) nodes' tot' = stack_fits pf st nodes' tot'"
        using pop nok by (intro stack_fits_pop) auto
      moreover have "rem_cost pf ?g = 0" using pop by (simp add: rem_cost_done)
      ultimately show ?thesis using pop after(3,4) by (simp add: r Let_def)
    next
      case full
      then have "\<not> stack_fits pf (?g # st) nodes' tot'"
        using stack_fits_push [of ?g pf st nodes' tot'] by simp
      with full after(3) show ?thesis by (simp add: r Let_def)
    next
      case push
      let ?st = "fresh_frame (?arr ! fr_next f) # f\<lparr>fr_next := Suc (fr_next f), fr_visited := True\<rparr> # st"
      have len: "length ?arr \<le> value_max_nodes"
        using "2.prems"(5) nok by (rule node_ok_length)
      have st: "?g\<lparr>fr_next := Suc (fr_next f)\<rparr> = f\<lparr>fr_next := Suc (fr_next f), fr_visited := True\<rparr>"
        by simp
      have "bounded_value_loop pf ?st nodes' tot' =
        (if stack_fits pf ?st nodes' tot' then tot' + sum_list (map (rem_cost pf) ?st) else SIZE_MAX)"
        using after(2) "2.prems"(3) push len
        by (intro "2.IH"(2) [OF r refl refl]) (auto simp: visited_nodes_ok_def after nodes' "2.prems")
      moreover have "stack_fits pf (?g # st) nodes' tot' = stack_fits pf ?st nodes' tot'"
        using stack_fits_push [of ?g pf st nodes' tot'] push "2.prems"(3) by (simp add: st)
      moreover have "rem_cost pf ?g = value_cost pf (?arr ! fr_next f) +
          rem_cost pf (f\<lparr>fr_next := Suc (fr_next f), fr_visited := True\<rparr>)"
        using rem_push(1) [of ?g pf] push by (simp add: st)
      ultimately show ?thesis
        using push len after(3,4) by (simp add: r Let_def rem_cost_fresh)
    qed
  qed
qed

lemma bounded_value_bytes_eq:
  assumes "capacities_ok pf" and "0 < sizeof_Value pf"
  shows "bounded_value_bytes pf v = (if value_ok pf v then value_cost pf v else SIZE_MAX)"
proof -
  have "stack_fits pf [fresh_frame v] 0 0 = value_ok pf v"
    using value_depth_children [of v "value_max_depth - 1"]
    by (auto simp: stack_fits_def value_ok_def rem_cost_fresh rem_nodes_fresh tree_ok_children [of pf v])
  then show ?thesis
    unfolding bounded_value_bytes_def
    by (subst bounded_value_loop_eq) (simp_all add: assms visited_nodes_ok_def rem_cost_fresh)
qed

end
