(* ===== verification/Event_Queue.thy ===== *)
theory Event_Queue
  imports Common
begin

text \<open>
  The bounded event queue of \<open>runtime/include/leanat/event_queue.hpp\<close> and
  \<open>runtime/src/event_queue.cpp\<close>: a table of generation-counted slots, reservations that
  are prepared before they are enqueued, closed batches of all events of one ready key, the
  acknowledgement cursor of a batch, and the reclaim cursor.

  A method that changes the queue returns its result together with the new queue. A queue
  object is identified by its address (a \<open>nat\<close>), which a reservation remembers.
\<close>

section \<open>Data\<close>

datatype event_stage =
    ES_Reset | ES_Cancel | ES_Input | ES_Internal | ES_WaitResolve | ES_Resume | ES_Output

primrec stage_index :: "event_stage \<Rightarrow> nat" where
  "stage_index ES_Reset = 0"
| "stage_index ES_Cancel = 1"
| "stage_index ES_Input = 2"
| "stage_index ES_Internal = 3"
| "stage_index ES_WaitResolve = 4"
| "stage_index ES_Resume = 5"
| "stage_index ES_Output = 6"

datatype event_key = EventKey
  (ek_time: tick) (ek_turn: u64) (ek_stage: event_stage) (ek_instance: instance_id)
  (ek_connection: connection_id) (ek_sequence: u64)

text \<open>\<open>std::tie\<close> of the six fields, compared lexicographically.\<close>

definition event_key_tuple :: "event_key \<Rightarrow> u64 \<times> u64 \<times> nat \<times> u32 \<times> u32 \<times> u64" where
  "event_key_tuple k =
     (ek_time k, ek_turn k, stage_index (ek_stage k), ek_instance k, ek_connection k,
      ek_sequence k)"

lemma stage_index_inject [simp]: "stage_index a = stage_index b \<longleftrightarrow> a = b"
  by (cases a; cases b) auto

lemma event_key_tuple_inject [simp]: "event_key_tuple a = event_key_tuple b \<longleftrightarrow> a = b"
  by (cases a; cases b) (auto simp: event_key_tuple_def)

instantiation event_key :: linorder
begin

definition less_eq_event_key :: "event_key \<Rightarrow> event_key \<Rightarrow> bool" where
  "less_eq_event_key a b \<longleftrightarrow> event_key_tuple a \<le> event_key_tuple b"

definition less_event_key :: "event_key \<Rightarrow> event_key \<Rightarrow> bool" where
  "less_event_key a b \<longleftrightarrow> event_key_tuple a < event_key_tuple b"

instance
proof
  fix x y z :: event_key
  show "x < y \<longleftrightarrow> x \<le> y \<and> \<not> y \<le> x"
    unfolding less_eq_event_key_def less_event_key_def by (rule less_le_not_le)
  show "x \<le> x"
    unfolding less_eq_event_key_def by (rule order_refl)
  show "x \<le> y \<Longrightarrow> y \<le> z \<Longrightarrow> x \<le> z"
    unfolding less_eq_event_key_def by (rule order_trans)
  show "x \<le> y \<Longrightarrow> y \<le> x \<Longrightarrow> x = y"
    unfolding less_eq_event_key_def using event_key_tuple_inject order_antisym by blast
  show "x \<le> y \<or> y \<le> x"
    unfolding less_eq_event_key_def by (rule linear)
qed

end

definition key_ready :: "event_key \<Rightarrow> ready_key" where
  "key_ready k = ReadyKey (ek_time k) (ek_turn k)"

record event_draft =
  ed_key :: event_key
  ed_value :: "value_t"
  ed_owner :: u64
  ed_epoch :: u64

type_synonym event_token = handle

record queued_event =
  qe_token :: event_token
  qe_event :: event_draft
  qe_cancelled :: bool

record closed_batch_slice =
  cb_id :: batch_id
  cb_ready :: ready_key
  cb_cursor :: nat
  cb_members :: "queued_event list"
  cb_members_complete :: bool

datatype execution_disposition = Committed | ED_Cancelled | Failed

record event_reservation =
  er_queue :: "nat option"
  er_token :: handle

datatype slot_state =
  Slot_Free | Slot_Reserved | Slot_Queued | Slot_Active | Slot_Done | Slot_Retired

record event_slot =
  sl_state :: slot_state
  sl_generation :: u64
  sl_event :: event_draft
  sl_cancelled :: bool

record event_queue =
  eq_slots :: "event_slot list"
  eq_domain :: domain_id
  eq_store :: u32
  eq_frontier :: "ready_key option"
  eq_batch :: "batch_id option"
  eq_batch_ready :: ready_key
  eq_members :: "nat list"
  eq_cursor :: nat
  eq_resolver_cursor :: nat
  eq_reclaim_cursor :: nat
  eq_max_event_bytes :: nat
  eq_resolver_total :: "nat option"
  eq_next_batch :: u64
  eq_next_sequence :: u64

definition default_draft :: event_draft where
  "default_draft = \<lparr>ed_key = EventKey 0 0 ES_Internal 0 0 0, ed_value = VUnit, ed_owner = 0,
     ed_epoch = 0\<rparr>"

definition empty_slot :: event_slot where
  "empty_slot = \<lparr>sl_state = Slot_Free, sl_generation = 0, sl_event = default_draft,
     sl_cancelled = False\<rparr>"

section \<open>Operations\<close>

text \<open>
  \<open>storage_detail::allocate_store_incarnation\<close>: the program-wide counter of store
  identities; none where it throws \<open>overflow_error\<close>. The compare-and-swap retry makes
  each call one atomic step.
\<close>

definition allocate_store_incarnation :: "nat \<Rightarrow> (u32 \<times> nat) option" where
  "allocate_store_incarnation next =
     (if next > UINT32_MAX then None else Some (of_nat next, next + 1))"

text \<open>The constructor; the store counter advances before the capacity is checked.\<close>

definition EventQueue_new :: "nat \<Rightarrow> domain_id \<Rightarrow> nat \<Rightarrow> nat \<Rightarrow> event_queue option \<times> nat" where
  "EventQueue_new n d max_bytes next =
     (case allocate_store_incarnation next of
        None \<Rightarrow> (None, next)
      | Some (store, next') \<Rightarrow>
         (if n = 0 \<or> n > UINT32_MAX then (None, next')
          else (Some \<lparr>eq_slots = replicate n empty_slot, eq_domain = d, eq_store = store,
                  eq_frontier = None, eq_batch = None, eq_batch_ready = ReadyKey 0 0,
                  eq_members = [], eq_cursor = 0, eq_resolver_cursor = 0,
                  eq_reclaim_cursor = 0, eq_max_event_bytes = max_bytes,
                  eq_resolver_total = None, eq_next_batch = 1, eq_next_sequence = 1\<rparr>, next')))"

definition eq_validate :: "event_queue \<Rightarrow> handle \<Rightarrow> nat expected" where
  "eq_validate q h =
     (if h_domain h \<noteq> eq_domain q then fail WrongDomain ''event domain''
      else if h_kind h \<noteq> HK_Event \<or> h_store h \<noteq> eq_store q \<or>
              unat (h_slot h) \<ge> length (eq_slots q)
      then fail StaleHandle ''event identity''
      else let s = eq_slots q ! unat (h_slot h) in
        if h_generation h = 0 \<or> sl_generation s \<noteq> h_generation h \<or> sl_state s = Slot_Retired
        then fail StaleHandle ''event generation''
        else if h_owner h \<noteq> ed_owner (sl_event s) then fail WrongOwner ''event owner''
        else Inr (unat (h_slot h)))"

definition upd_slot :: "nat \<Rightarrow> (event_slot \<Rightarrow> event_slot) \<Rightarrow> event_queue \<Rightarrow> event_queue" where
  "upd_slot i f q = q\<lparr>eq_slots := (eq_slots q)[i := f (eq_slots q ! i)]\<rparr>"

definition eq_abandon :: "handle \<Rightarrow> event_queue \<Rightarrow> event_queue" where
  "eq_abandon h q =
     (let i = unat (h_slot h) in
      if i < length (eq_slots q) \<and> sl_generation (eq_slots q ! i) = h_generation h \<and>
         sl_state (eq_slots q ! i) = Slot_Reserved
      then upd_slot i (\<lambda>s. s\<lparr>sl_state := Slot_Free\<rparr>) q else q)"

text \<open>The destructor of a reservation gives the slot back unless it was moved from.\<close>

definition reservation_destroy :: "nat \<Rightarrow> event_reservation \<Rightarrow> event_queue \<Rightarrow> event_queue" where
  "reservation_destroy this r q =
     (if er_queue r = Some this then eq_abandon (er_token r) q else q)"

definition token_of :: "event_queue \<Rightarrow> nat \<Rightarrow> handle" where
  "token_of q i = \<lparr>h_kind = HK_Event, h_domain = eq_domain q, h_store = eq_store q,
     h_slot = of_nat i, h_generation = sl_generation (eq_slots q ! i),
     h_owner = ed_owner (sl_event (eq_slots q ! i))\<rparr>"

definition behind_frontier :: "event_queue \<Rightarrow> event_key \<Rightarrow> bool" where
  "behind_frontier q k \<longleftrightarrow>
     (case eq_frontier q of None \<Rightarrow> False | Some f \<Rightarrow> \<not> f < key_ready k)"

definition value_too_big :: "platform \<Rightarrow> event_queue \<Rightarrow> value_t \<Rightarrow> bool" where
  "value_too_big pf q v \<longleftrightarrow>
     bounded_value_bytes pf v = SIZE_MAX \<or> bounded_value_bytes pf v > eq_max_event_bytes q"

text \<open>
  The slot loop of \<open>prepare\<close>: free slots whose generation is exhausted are retired on the
  way; the index of the first usable free slot, if any, is returned.
\<close>

fun prepare_scan :: "event_slot list \<Rightarrow> nat option \<times> event_slot list" where
  "prepare_scan [] = (None, [])"
| "prepare_scan (s # ss) =
     (if sl_state s = Slot_Free \<and> sl_generation s \<noteq> UINT64_MAX then (Some 0, s # ss)
      else let (r, ss') = prepare_scan ss in
        (map_option Suc r,
         (if sl_state s = Slot_Free then s\<lparr>sl_state := Slot_Retired\<rparr> else s) # ss'))"

definition set_sequence :: "u64 \<Rightarrow> event_draft \<Rightarrow> event_draft" where
  "set_sequence n e = (case ed_key e of EventKey t tu st i c _ \<Rightarrow>
     e\<lparr>ed_key := EventKey t tu st i c n\<rparr>)"

definition eq_prepare ::
  "platform \<Rightarrow> nat \<Rightarrow> event_draft \<Rightarrow> event_queue \<Rightarrow> event_reservation expected \<times> event_queue" where
  "eq_prepare pf this e q =
     (if value_too_big pf q (ed_value e) then (fail Capacity ''event value bytes'', q)
      else if eq_next_sequence q = UINT64_MAX then (fail Overflow ''event sequence exhausted'', q)
      else if behind_frontier q (ed_key e)
      then (fail TimeRegression ''event enters frozen frontier'', q)
      else case prepare_scan (eq_slots q) of
        (None, ss) \<Rightarrow> (fail Capacity ''event capacity'', q\<lparr>eq_slots := ss\<rparr>)
      | (Some i, ss) \<Rightarrow>
         (let q' = q\<lparr>eq_slots := ss[i := \<lparr>sl_state = Slot_Reserved,
                       sl_generation = sl_generation (ss ! i) + 1,
                       sl_event = set_sequence (eq_next_sequence q) e,
                       sl_cancelled = False\<rparr>],
                    eq_next_sequence := eq_next_sequence q + 1\<rparr>
          in (Inr \<lparr>er_queue = Some this, er_token = token_of q' i\<rparr>, q')))"

text \<open>
  \<open>enqueue(EventReservation \<and>\<and>)\<close> also moves from the reservation: the third component is
  the reservation afterwards.
\<close>

definition eq_enqueue_reservation ::
  "nat \<Rightarrow> event_reservation \<Rightarrow> event_queue \<Rightarrow>
     event_token expected \<times> event_reservation \<times> event_queue" where
  "eq_enqueue_reservation this r q =
     (if er_queue r \<noteq> Some this then (fail InvalidArgument ''foreign reservation'', r, q)
      else case eq_validate q (er_token r) of
        Inl e \<Rightarrow> (Inl e, r, q)
      | Inr i \<Rightarrow>
         (let s = eq_slots q ! i in
          if sl_state s \<noteq> Slot_Reserved
          then (fail InvalidState ''reservation already used'', r, q)
          else if behind_frontier q (ed_key (sl_event s))
          then (fail TimeRegression ''reservation predates frontier'', r, q)
          else (Inr (er_token r), r\<lparr>er_queue := None\<rparr>,
                upd_slot i (\<lambda>s. s\<lparr>sl_state := Slot_Queued\<rparr>) q)))"

text \<open>
  \<open>enqueue(EventDraft)\<close>: prepare and enqueue; the local reservation is destroyed at the
  end of the scope.
\<close>

definition eq_enqueue ::
  "platform \<Rightarrow> nat \<Rightarrow> event_draft \<Rightarrow> event_queue \<Rightarrow> event_token expected \<times> event_queue" where
  "eq_enqueue pf this e q =
     (case eq_prepare pf this e q of
        (Inl err, q1) \<Rightarrow> (Inl err, q1)
      | (Inr r, q1) \<Rightarrow>
         (case eq_enqueue_reservation this r q1 of
            (res, r', q2) \<Rightarrow> (res, reservation_destroy this r' q2)))"

definition eq_cancel :: "event_token \<Rightarrow> event_queue \<Rightarrow> bool expected \<times> event_queue" where
  "eq_cancel h q =
     (case eq_validate q h of
        Inl e \<Rightarrow> (Inl e, q)
      | Inr i \<Rightarrow>
         (let s = eq_slots q ! i in
          if sl_cancelled s \<or> sl_state s = Slot_Done \<or> sl_state s = Slot_Free then (Inr False, q)
          else if sl_state s = Slot_Reserved then (fail InvalidState ''uncommitted event'', q)
          else (Inr True, upd_slot i (\<lambda>s. s\<lparr>sl_cancelled := True\<rparr>) q)))"

text \<open>The search for the earliest due ready key in \<open>pop_batch\<close>.\<close>

fun earliest_due :: "tick \<Rightarrow> event_slot list \<Rightarrow> ready_key option \<Rightarrow> ready_key option" where
  "earliest_due now [] key = key"
| "earliest_due now (s # ss) key =
     (if sl_state s = Slot_Queued then
        (let k = key_ready (ed_key (sl_event s)) in
         if \<not> now < rk_time k \<and> (case key of None \<Rightarrow> True | Some k' \<Rightarrow> k < k')
         then earliest_due now ss (Some k) else earliest_due now ss key)
      else earliest_due now ss key)"

definition in_batch :: "ready_key \<Rightarrow> event_slot \<Rightarrow> bool" where
  "in_batch key s \<longleftrightarrow> sl_state s = Slot_Queued \<and> key_ready (ed_key (sl_event s)) = key"

text \<open>The \<open>if (!batch_)\<close> block of \<open>pop_batch\<close> once a key was found.\<close>

definition open_batch :: "ready_key \<Rightarrow> event_queue \<Rightarrow> event_queue" where
  "open_batch key q =
     (let ms = filter (\<lambda>i. in_batch key (eq_slots q ! i)) [0..<length (eq_slots q)];
          slots = map (\<lambda>s. if in_batch key s then s\<lparr>sl_state := Slot_Active\<rparr> else s) (eq_slots q)
      in q\<lparr>eq_batch := Some (eq_next_batch q), eq_next_batch := eq_next_batch q + 1,
           eq_batch_ready := key, eq_frontier := Some key, eq_slots := slots,
           eq_members := sort_key (\<lambda>i. ed_key (sl_event (slots ! i))) ms,
           eq_cursor := 0, eq_resolver_cursor := 0, eq_resolver_total := None\<rparr>)"

definition batch_slice :: "batch_id \<Rightarrow> u32 \<Rightarrow> event_queue \<Rightarrow> closed_batch_slice" where
  "batch_slice b budget q =
     (let last = min (length (eq_members q)) (eq_cursor q + unat budget) in
      \<lparr>cb_id = b, cb_ready = eq_batch_ready q, cb_cursor = eq_cursor q,
       cb_members = map (\<lambda>n. let i = eq_members q ! n; s = eq_slots q ! i in
          \<lparr>qe_token = token_of q i, qe_event = sl_event s, qe_cancelled = sl_cancelled s\<rparr>)
          [eq_cursor q..<last],
       cb_members_complete = (eq_cursor q = length (eq_members q))\<rparr>)"

definition eq_pop_batch ::
  "tick \<Rightarrow> u32 \<Rightarrow> event_queue \<Rightarrow> closed_batch_slice option expected \<times> event_queue" where
  "eq_pop_batch now budget q =
     (if budget = 0 then (fail InvalidArgument ''zero batch budget'', q)
      else case eq_batch q of
        Some b \<Rightarrow> (Inr (Some (batch_slice b budget q)), q)
      | None \<Rightarrow>
         (case earliest_due now (eq_slots q) None of
            None \<Rightarrow> (Inr None, q)
          | Some key \<Rightarrow>
             (if eq_next_batch q = UINT64_MAX then (fail Overflow ''batch id exhausted'', q)
              else let q' = open_batch key q
                in (Inr (Some (batch_slice (eq_next_batch q) budget q')), q'))))"

definition eq_ack_executed ::
  "batch_id \<Rightarrow> event_token \<Rightarrow> execution_disposition \<Rightarrow> event_queue \<Rightarrow>
     unit expected \<times> event_queue" where
  "eq_ack_executed b h d q =
     (if eq_batch q \<noteq> Some b \<or> eq_cursor q = length (eq_members q)
      then (fail InvalidState ''no pending batch member'', q)
      else case eq_validate q h of
        Inl e \<Rightarrow> (Inl e, q)
      | Inr i \<Rightarrow>
         (if i \<noteq> eq_members q ! eq_cursor q then (fail InvalidState ''out of order ack'', q)
          else if sl_cancelled (eq_slots q ! i) \<and> d = Committed
          then (fail Cancelled ''cancelled member'', q)
          else (Inr (), (upd_slot i (\<lambda>s. s\<lparr>sl_state := Slot_Done\<rparr>) q)
                  \<lparr>eq_cursor := Suc (eq_cursor q)\<rparr>)))"

definition eq_resolver_step ::
  "batch_id \<Rightarrow> u32 \<Rightarrow> nat \<Rightarrow> event_queue \<Rightarrow> bool expected \<times> event_queue" where
  "eq_resolver_step b budget tot q =
     (if budget = 0 then (fail InvalidArgument ''zero resolver budget'', q)
      else if eq_batch q \<noteq> Some b \<or> eq_cursor q \<noteq> length (eq_members q)
      then (fail InvalidState ''producers incomplete'', q)
      else if (case eq_resolver_total q of None \<Rightarrow> False | Some t \<Rightarrow> t \<noteq> tot)
      then (fail InvalidArgument ''resolver work changed'', q)
      else let c = eq_resolver_cursor q + min (unat budget) (tot - eq_resolver_cursor q)
        in (Inr (c = tot), q\<lparr>eq_resolver_total := Some tot, eq_resolver_cursor := c\<rparr>))"

definition free_slots :: "nat list \<Rightarrow> event_slot list \<Rightarrow> event_slot list" where
  "free_slots ms ss = fold (\<lambda>i ss. ss[i := (ss ! i)\<lparr>sl_state := Slot_Free\<rparr>]) ms ss"

definition eq_finish_batch :: "batch_id \<Rightarrow> event_queue \<Rightarrow> unit expected \<times> event_queue" where
  "eq_finish_batch b q =
     (if eq_batch q \<noteq> Some b \<or> eq_cursor q \<noteq> length (eq_members q) \<or>
         eq_resolver_total q \<noteq> Some (eq_resolver_cursor q)
      then (fail InvalidState ''batch incomplete'', q)
      else (Inr (), q\<lparr>eq_slots := free_slots (eq_members q) (eq_slots q), eq_members := [],
                     eq_batch := None\<rparr>))"

fun earliest_queued :: "event_slot list \<Rightarrow> ready_key option \<Rightarrow> ready_key option" where
  "earliest_queued [] k = k"
| "earliest_queued (s # ss) k =
     (if sl_state s = Slot_Queued then
        (let r = key_ready (ed_key (sl_event s)) in
         if (case k of None \<Rightarrow> True | Some k' \<Rightarrow> r < k') then earliest_queued ss (Some r)
         else earliest_queued ss k)
      else earliest_queued ss k)"

definition eq_next_wakeup :: "event_queue \<Rightarrow> wake_point option" where
  "eq_next_wakeup q =
     (case eq_batch q of
        Some b \<Rightarrow> Some \<lparr>wp_time = rk_time (eq_batch_ready q), wp_turn = rk_turn (eq_batch_ready q),
                    wp_generation = b\<rparr>
      | None \<Rightarrow>
         (case earliest_queued (eq_slots q) None of
            None \<Rightarrow> None
          | Some k \<Rightarrow> Some \<lparr>wp_time = rk_time k, wp_turn = rk_turn k, wp_generation = 0\<rparr>))"

text \<open>One iteration of the loop of \<open>collect_stale\<close>, then the loop itself.\<close>

definition collect_one :: "event_queue \<times> nat \<Rightarrow> event_queue \<times> nat" where
  "collect_one = (\<lambda>(q, freed).
     let i = eq_reclaim_cursor q; s = eq_slots q ! i;
         q' = q\<lparr>eq_reclaim_cursor := (i + 1) mod length (eq_slots q)\<rparr>
     in if sl_state s = Slot_Done \<and> eq_batch q = None \<or> sl_state s = Slot_Queued \<and> sl_cancelled s
        then (upd_slot i (\<lambda>s. s\<lparr>sl_state := Slot_Free\<rparr>) q', Suc freed)
        else (q', freed))"

definition eq_collect_stale :: "u32 \<Rightarrow> event_queue \<Rightarrow> nat \<times> event_queue" where
  "eq_collect_stale budget q =
     (case (collect_one ^^ min (unat budget) (length (eq_slots q))) (q, 0) of
        (q', freed) \<Rightarrow> (freed, q'))"

definition eq_occupied :: "event_queue \<Rightarrow> nat" where
  "eq_occupied q = length (filter
     (\<lambda>s. sl_state s \<noteq> Slot_Free \<and> sl_state s \<noteq> Slot_Retired) (eq_slots q))"

definition eq_successor :: "tick \<Rightarrow> event_queue \<Rightarrow> ready_key expected" where
  "eq_successor t q =
     (case eq_frontier q of
        None \<Rightarrow> Inr (ReadyKey t 0)
      | Some f \<Rightarrow>
         (if t < rk_time f then fail TimeRegression ''past tick''
          else if t = rk_time f then
            (case checked_add (rk_turn f) 1 of
               Inl e \<Rightarrow> Inl e
             | Inr n \<Rightarrow> Inr (ReadyKey t n))
          else Inr (ReadyKey t 0)))"

definition eq_preflight :: "nat \<Rightarrow> event_reservation \<Rightarrow> event_queue \<Rightarrow> unit expected" where
  "eq_preflight this r q =
     (if er_queue r \<noteq> Some this then fail InvalidArgument ''foreign reservation''
      else case eq_validate q (er_token r) of
        Inl e \<Rightarrow> Inl e
      | Inr i \<Rightarrow>
         (let s = eq_slots q ! i in
          if sl_state s \<noteq> Slot_Reserved then fail InvalidState ''reservation state''
          else if behind_frontier q (ed_key (sl_event s))
          then fail TimeRegression ''reservation frontier''
          else Inr ()))"

definition eq_validate_cancel :: "event_token \<Rightarrow> event_queue \<Rightarrow> unit expected" where
  "eq_validate_cancel h q =
     (case eq_validate q h of
        Inl e \<Rightarrow> Inl e
      | Inr i \<Rightarrow>
         (if sl_state (eq_slots q ! i) = Slot_Reserved
          then fail InvalidState ''reserved cancellation'' else Inr ()))"

definition eq_retarget ::
  "platform \<Rightarrow> nat \<Rightarrow> event_reservation \<Rightarrow> event_draft \<Rightarrow> event_queue \<Rightarrow>
     unit expected \<times> event_queue" where
  "eq_retarget pf this r e q =
     (if value_too_big pf q (ed_value e) then (fail Capacity ''event value bytes'', q)
      else case eq_preflight this r q of
        Inl err \<Rightarrow> (Inl err, q)
      | Inr _ \<Rightarrow>
         (if ed_owner e \<noteq> h_owner (er_token r)
          then (fail WrongOwner ''reservation owner change'', q)
          else if behind_frontier q (ed_key e) then (fail TimeRegression ''retarget frontier'', q)
          else let i = unat (h_slot (er_token r)) in
            (Inr (), upd_slot i (\<lambda>s. s\<lparr>sl_event :=
               set_sequence (ek_sequence (ed_key (sl_event s))) e\<rparr>) q)))"

definition eq_is_active :: "event_token \<Rightarrow> event_queue \<Rightarrow> bool expected" where
  "eq_is_active h q =
     (case eq_validate q h of
        Inl e \<Rightarrow> Inl e
      | Inr i \<Rightarrow> Inr (sl_state (eq_slots q ! i) = Slot_Active \<and> \<not> sl_cancelled (eq_slots q ! i)))"

definition eq_active_event :: "event_token \<Rightarrow> event_queue \<Rightarrow> event_draft expected" where
  "eq_active_event h q =
     (case eq_validate q h of
        Inl e \<Rightarrow> Inl e
      | Inr i \<Rightarrow>
         (if eq_batch q = None \<or> eq_cursor q \<ge> length (eq_members q) \<or>
             eq_members q ! eq_cursor q \<noteq> i
          then fail NotReady ''event is not current batch cursor''
          else let s = eq_slots q ! i in
            if sl_cancelled s \<or> sl_state s \<noteq> Slot_Active then fail Cancelled ''event inactive''
            else Inr (sl_event s)))"

definition eq_can_cancel :: "event_token \<Rightarrow> event_queue \<Rightarrow> bool expected" where
  "eq_can_cancel h q =
     (case eq_validate q h of
        Inl e \<Rightarrow> Inl e
      | Inr i \<Rightarrow>
         (let s = eq_slots q ! i in
          if sl_state s = Slot_Reserved then fail InvalidState ''uncommitted event''
          else Inr ((sl_state s = Slot_Queued \<or> sl_state s = Slot_Active) \<and> \<not> sl_cancelled s)))"

text \<open>\<open>elapsed\<close> of the header.\<close>

definition elapsed :: "tick \<Rightarrow> tick \<Rightarrow> duration expected" where
  "elapsed later earlier =
     (if later < earlier then fail TimeRegression ''negative elapsed'' else Inr (later - earlier))"

end
