(* ===== verification/Event_Queue_Inv.thy ===== *)
theory Event_Queue_Inv
  imports Event_Queue
begin

text \<open>
  The invariant of the event queue and its preservation by every operation; runs of
  operations as explicit sequences.
\<close>

section \<open>Operations as labelled steps\<close>

datatype eq_op =
    Op_prepare event_draft
  | Op_enqueue_reservation event_reservation
  | Op_enqueue event_draft
  | Op_abandon handle
  | Op_retarget event_reservation event_draft
  | Op_cancel event_token
  | Op_pop_batch tick u32
  | Op_ack batch_id event_token execution_disposition
  | Op_resolver batch_id u32 nat
  | Op_finish batch_id
  | Op_collect u32

fun eq_apply :: "platform \<Rightarrow> nat \<Rightarrow> eq_op \<Rightarrow> event_queue \<Rightarrow> event_queue" where
  "eq_apply pf this (Op_prepare e) q = snd (eq_prepare pf this e q)"
| "eq_apply pf this (Op_enqueue_reservation r) q = snd (snd (eq_enqueue_reservation this r q))"
| "eq_apply pf this (Op_enqueue e) q = snd (eq_enqueue pf this e q)"
| "eq_apply pf this (Op_abandon h) q = eq_abandon h q"
| "eq_apply pf this (Op_retarget r e) q = snd (eq_retarget pf this r e q)"
| "eq_apply pf this (Op_cancel h) q = snd (eq_cancel h q)"
| "eq_apply pf this (Op_pop_batch now budget) q = snd (eq_pop_batch now budget q)"
| "eq_apply pf this (Op_ack b h d) q = snd (eq_ack_executed b h d q)"
| "eq_apply pf this (Op_resolver b budget tot) q = snd (eq_resolver_step b budget tot q)"
| "eq_apply pf this (Op_finish b) q = snd (eq_finish_batch b q)"
| "eq_apply pf this (Op_collect budget) q = snd (eq_collect_stale budget q)"

text \<open>A queue that a program can hold: constructed, then changed by the operations.\<close>

inductive eq_reachable :: "platform \<Rightarrow> nat \<Rightarrow> event_queue \<Rightarrow> bool" for pf this where
  new: "fst (EventQueue_new n d bytes next) = Some q \<Longrightarrow> eq_reachable pf this q"
| step: "eq_reachable pf this q \<Longrightarrow> eq_reachable pf this (eq_apply pf this op q)"

section \<open>The invariant\<close>

definition live :: "event_slot \<Rightarrow> bool" where
  "live s \<longleftrightarrow> sl_state s \<noteq> Slot_Free \<and> sl_state s \<noteq> Slot_Retired"

definition in_flight :: "event_slot \<Rightarrow> bool" where
  "in_flight s \<longleftrightarrow> sl_state s = Slot_Active \<or> sl_state s = Slot_Done"

definition slot_ready :: "event_slot \<Rightarrow> ready_key" where
  "slot_ready s = key_ready (ed_key (sl_event s))"

definition slot_seq :: "event_slot \<Rightarrow> u64" where
  "slot_seq s = ek_sequence (ed_key (sl_event s))"

text \<open>What each slot satisfies by itself, given the frontier and the sequence counter.\<close>

definition slot_inv :: "ready_key option \<Rightarrow> u64 \<Rightarrow> event_slot \<Rightarrow> bool" where
  "slot_inv frontier seq s \<longleftrightarrow>
     (sl_state s = Slot_Queued \<longrightarrow> (\<forall>f. frontier = Some f \<longrightarrow> f < slot_ready s)) \<and>
     (live s \<longrightarrow> slot_seq s < seq \<and> sl_generation s \<noteq> 0)"

definition seqs_distinct :: "event_slot list \<Rightarrow> bool" where
  "seqs_distinct ss \<longleftrightarrow>
     (\<forall>i j. i < length ss \<and> j < length ss \<and> live (ss ! i) \<and> live (ss ! j) \<and>
        slot_seq (ss ! i) = slot_seq (ss ! j) \<longrightarrow> i = j)"

definition members_inv :: "event_queue \<Rightarrow> bool" where
  "members_inv q \<longleftrightarrow> distinct (eq_members q) \<and>
     (\<forall>i < length (eq_slots q). in_flight (eq_slots q ! i) \<longleftrightarrow> i \<in> set (eq_members q)) \<and>
     (\<forall>i \<in> set (eq_members q). i < length (eq_slots q))"

definition batch_inv :: "event_queue \<Rightarrow> bool" where
  "batch_inv q \<longleftrightarrow>
     (case eq_batch q of
        None \<Rightarrow> eq_members q = []
      | Some b \<Rightarrow> eq_members q \<noteq> [] \<and> b < eq_next_batch q \<and> eq_cursor q \<le> length (eq_members q) \<and>
          eq_frontier q = Some (eq_batch_ready q) \<and>
          (\<forall>k < length (eq_members q). sl_state (eq_slots q ! (eq_members q ! k)) =
             (if k < eq_cursor q then Slot_Done else Slot_Active)) \<and>
          (\<forall>i \<in> set (eq_members q). slot_ready (eq_slots q ! i) = eq_batch_ready q) \<and>
          sorted (map (\<lambda>i. ed_key (sl_event (eq_slots q ! i))) (eq_members q)) \<and>
          (case eq_resolver_total q of
             None \<Rightarrow> eq_resolver_cursor q = 0
           | Some t \<Rightarrow> eq_cursor q = length (eq_members q) \<and> eq_resolver_cursor q \<le> t))"

definition size_inv :: "event_queue \<Rightarrow> bool" where
  "size_inv q \<longleftrightarrow> 0 < length (eq_slots q) \<and> length (eq_slots q) \<le> UINT32_MAX \<and>
     eq_reclaim_cursor q < length (eq_slots q)"

definition eq_inv :: "event_queue \<Rightarrow> bool" where
  "eq_inv q \<longleftrightarrow> size_inv q \<and>
     (\<forall>s \<in> set (eq_slots q). slot_inv (eq_frontier q) (eq_next_sequence q) s) \<and>
     seqs_distinct (eq_slots q) \<and> members_inv q \<and> batch_inv q"

lemmas slot_preds = live_def in_flight_def slot_ready_def slot_seq_def

section \<open>One slot changes\<close>

text \<open>
  Most operations change one slot. \<open>slot_step s s'\<close> says that the change keeps the event
  and the generation of a live slot, or frees it; it is what the invariant needs.
\<close>

lemma seqs_distinct_update:
  assumes "seqs_distinct ss" and "i < length ss"
    and "live s \<Longrightarrow> live (ss ! i) \<and> slot_seq s = slot_seq (ss ! i)"
  shows "seqs_distinct (ss[i := s])"
  using assms unfolding seqs_distinct_def by (auto simp: nth_list_update)

lemma members_inv_update:
  assumes "members_inv q" and "i < length (eq_slots q)"
    and "in_flight s = in_flight (eq_slots q ! i)"
  shows "members_inv (q\<lparr>eq_slots := (eq_slots q)[i := s]\<rparr>)"
  using assms unfolding members_inv_def by (auto simp: nth_list_update)

lemma batch_inv_update:
  assumes "batch_inv q" and "members_inv q" and "i < length (eq_slots q)"
    and "i \<notin> set (eq_members q) \<or>
      sl_state s = sl_state (eq_slots q ! i) \<and> sl_event s = sl_event (eq_slots q ! i)"
  shows "batch_inv (q\<lparr>eq_slots := (eq_slots q)[i := s]\<rparr>)"
proof -
  have "sl_state ((eq_slots q)[i := s] ! j) = sl_state (eq_slots q ! j) \<and>
      sl_event ((eq_slots q)[i := s] ! j) = sl_event (eq_slots q ! j)"
    if "j \<in> set (eq_members q)" for j
    using assms(3,4) that by (auto simp: nth_list_update)
  then show ?thesis
    using assms(1) unfolding batch_inv_def slot_ready_def
    by (auto split: option.splits cong: map_cong)
qed

lemma eq_inv_update:
  assumes inv: "eq_inv q" and i: "i < length (eq_slots q)"
    and s: "slot_inv (eq_frontier q) (eq_next_sequence q) s"
    and seq: "live s \<Longrightarrow> live (eq_slots q ! i) \<and> slot_seq s = slot_seq (eq_slots q ! i)"
    and fl: "in_flight s = in_flight (eq_slots q ! i)"
    and ev: "in_flight s \<Longrightarrow> sl_state s = sl_state (eq_slots q ! i) \<and>
      sl_event s = sl_event (eq_slots q ! i)"
  shows "eq_inv (q\<lparr>eq_slots := (eq_slots q)[i := s]\<rparr>)"
proof -
  have mem: "i \<notin> set (eq_members q) \<or>
      sl_state s = sl_state (eq_slots q ! i) \<and> sl_event s = sl_event (eq_slots q ! i)"
    using inv i fl ev by (auto simp: eq_inv_def members_inv_def)
  have "\<forall>t \<in> set ((eq_slots q)[i := s]). slot_inv (eq_frontier q) (eq_next_sequence q) t"
    using inv s set_update_subset_insert [of "eq_slots q" i s] by (auto simp: eq_inv_def)
  moreover have "seqs_distinct ((eq_slots q)[i := s])"
    using inv i seq by (intro seqs_distinct_update) (auto simp: eq_inv_def)
  moreover have "members_inv (q\<lparr>eq_slots := (eq_slots q)[i := s]\<rparr>)"
    using inv i fl by (intro members_inv_update) (auto simp: eq_inv_def)
  moreover have "batch_inv (q\<lparr>eq_slots := (eq_slots q)[i := s]\<rparr>)"
    using inv i mem by (intro batch_inv_update) (auto simp: eq_inv_def)
  ultimately show ?thesis
    using inv by (simp add: eq_inv_def size_inv_def)
qed

lemma eq_validate_InrD:
  assumes "eq_validate q h = Inr i"
  shows "i < length (eq_slots q)" "i = unat (h_slot h)"
    "sl_generation (eq_slots q ! i) = h_generation h" "h_generation h \<noteq> 0"
    "sl_state (eq_slots q ! i) \<noteq> Slot_Retired" "ed_owner (sl_event (eq_slots q ! i)) = h_owner h"
    "h_domain h = eq_domain q" "h_kind h = HK_Event" "h_store h = eq_store q"
  using assms by (auto simp: eq_validate_def Let_def split: if_splits)

lemma slot_inv_nth:
  "eq_inv q \<Longrightarrow> i < length (eq_slots q) \<Longrightarrow>
    slot_inv (eq_frontier q) (eq_next_sequence q) (eq_slots q ! i)"
  by (simp add: eq_inv_def)

lemma eq_inv_free:
  assumes "eq_inv q" and "i < length (eq_slots q)" and "\<not> in_flight (eq_slots q ! i)"
  shows "eq_inv (upd_slot i (\<lambda>s. s\<lparr>sl_state := Slot_Free\<rparr>) q)"
  using assms unfolding upd_slot_def
  by (intro eq_inv_update) (auto simp: slot_inv_def slot_preds)

lemma eq_abandon_inv: "eq_inv q \<Longrightarrow> eq_inv (eq_abandon h q)"
  by (auto simp: eq_abandon_def Let_def in_flight_def intro!: eq_inv_free)

lemma reservation_destroy_inv: "eq_inv q \<Longrightarrow> eq_inv (reservation_destroy this r q)"
  by (simp add: reservation_destroy_def eq_abandon_inv)

lemma not_behind_frontier:
  "\<not> behind_frontier q k \<longleftrightarrow> (\<forall>f. eq_frontier q = Some f \<longrightarrow> f < key_ready k)"
  by (auto simp: behind_frontier_def split: option.splits)

lemma eq_enqueue_reservation_inv:
  assumes "eq_inv q"
  shows "eq_inv (snd (snd (eq_enqueue_reservation this r q)))"
proof (cases "eq_validate q (er_token r)")
  case (Inr i)
  note i = eq_validate_InrD(1) [OF Inr]
  show ?thesis
    using Inr i slot_inv_nth [OF assms i] assms
    by (auto simp: eq_enqueue_reservation_def Let_def upd_slot_def not_behind_frontier
        slot_inv_def slot_preds intro!: eq_inv_update)
qed (auto simp: eq_enqueue_reservation_def assms)

lemma eq_cancel_inv:
  assumes "eq_inv q"
  shows "eq_inv (snd (eq_cancel h q))"
proof (cases "eq_validate q h")
  case (Inr i)
  note i = eq_validate_InrD(1) [OF Inr]
  show ?thesis
    using Inr i slot_inv_nth [OF assms i] assms
    by (auto simp: eq_cancel_def Let_def upd_slot_def slot_inv_def slot_preds intro!: eq_inv_update)
qed (auto simp: eq_cancel_def assms)

lemma set_sequence_simps [simp]:
  "ek_sequence (ed_key (set_sequence n e)) = n"
  "key_ready (ed_key (set_sequence n e)) = key_ready (ed_key e)"
  "ed_owner (set_sequence n e) = ed_owner e"
  "ed_value (set_sequence n e) = ed_value e"
  "ed_epoch (set_sequence n e) = ed_epoch e"
  by (auto simp: set_sequence_def key_ready_def split: event_key.splits)

lemma eq_preflight_InrD:
  assumes "eq_preflight this r q = Inr u"
  shows "er_queue r = Some this" "eq_validate q (er_token r) = Inr (unat (h_slot (er_token r)))"
    "unat (h_slot (er_token r)) < length (eq_slots q)"
    "sl_state (eq_slots q ! unat (h_slot (er_token r))) = Slot_Reserved"
    "\<not> behind_frontier q (ed_key (sl_event (eq_slots q ! unat (h_slot (er_token r)))))"
  using assms eq_validate_InrD(1,2) [of q "er_token r"]
  by (auto simp: eq_preflight_def Let_def split: if_splits sum.splits)

lemma eq_retarget_inv:
  assumes "eq_inv q"
  shows "eq_inv (snd (eq_retarget pf this r e q))"
proof (cases "eq_preflight this r q")
  case (Inr u)
  note p = eq_preflight_InrD [OF Inr]
  show ?thesis
    using Inr p slot_inv_nth [OF assms p(3)] assms
    by (auto simp: eq_retarget_def Let_def upd_slot_def slot_inv_def slot_preds
        intro!: eq_inv_update)
qed (auto simp: eq_retarget_def assms)

section \<open>Reserving a slot\<close>

lemma length_prepare_scan [simp]: "length (snd (prepare_scan ss)) = length ss"
  by (induction ss) (auto split: prod.splits)

lemma prepare_scan_nth:
  "i < length ss \<Longrightarrow> snd (prepare_scan ss) ! i = ss ! i \<or>
     sl_state (ss ! i) = Slot_Free \<and> sl_generation (ss ! i) = UINT64_MAX \<and>
     snd (prepare_scan ss) ! i = (ss ! i)\<lparr>sl_state := Slot_Retired\<rparr>"
proof (induction ss arbitrary: i)
  case (Cons s ss)
  from Cons.prems Cons.IH [of "i - 1"] show ?case
    by (cases i) (auto simp: case_prod_beta)
qed simp

lemma prepare_scan_Some:
  "fst (prepare_scan ss) = Some i \<Longrightarrow> i < length ss \<and> sl_state (ss ! i) = Slot_Free \<and>
     sl_generation (ss ! i) \<noteq> UINT64_MAX \<and> snd (prepare_scan ss) ! i = ss ! i"
proof (induction ss arbitrary: i)
  case (Cons s ss)
  then show ?case
    by (cases "fst (prepare_scan ss)") (auto split: prod.splits if_splits)
qed simp

lemma prepare_scan_None:
  "fst (prepare_scan ss) = None \<longleftrightarrow>
     (\<forall>s \<in> set ss. sl_state s = Slot_Free \<longrightarrow> sl_generation s = UINT64_MAX)"
  by (induction ss) (auto split: prod.splits)

lemma seqs_distinct_replace:
  assumes "seqs_distinct ss" and "length ss' = length ss"
    and "\<And>i. i < length ss \<Longrightarrow> live (ss' ! i) \<Longrightarrow> live (ss ! i) \<and> slot_seq (ss' ! i) = slot_seq (ss ! i)"
  shows "seqs_distinct ss'"
  using assms unfolding seqs_distinct_def by metis

text \<open>Replacing all slots by slots that look the same to the invariant.\<close>

lemma eq_inv_replace:
  assumes inv: "eq_inv q" and len: "length ss = length (eq_slots q)"
    and same: "\<And>i. i < length ss \<Longrightarrow> ss ! i = eq_slots q ! i \<or> \<not> live (ss ! i) \<and> \<not> live (eq_slots q ! i)"
  shows "eq_inv (q\<lparr>eq_slots := ss\<rparr>)"
proof -
  have fl: "in_flight (ss ! i) = in_flight (eq_slots q ! i)" if "i < length ss" for i
    using same [OF that] by (auto simp: live_def in_flight_def)
  have mem: "ss ! i = eq_slots q ! i" if "i \<in> set (eq_members q)" for i
  proof -
    have "i < length ss" and "in_flight (eq_slots q ! i)"
      using inv len that by (auto simp: eq_inv_def members_inv_def)
    then show ?thesis using same [of i] by (auto simp: live_def in_flight_def)
  qed
  have "slot_inv (eq_frontier q) (eq_next_sequence q) (ss ! i)" if "i < length ss" for i
    using same [OF that] slot_inv_nth [OF inv] that len by (auto simp: slot_inv_def live_def)
  then have "\<forall>t \<in> set ss. slot_inv (eq_frontier q) (eq_next_sequence q) t"
    by (auto simp: in_set_conv_nth)
  moreover have "seqs_distinct ss"
  proof (rule seqs_distinct_replace)
    show "seqs_distinct (eq_slots q)" using inv by (simp add: eq_inv_def)
    show "length ss = length (eq_slots q)" by (rule len)
    show "live (eq_slots q ! i) \<and> slot_seq (ss ! i) = slot_seq (eq_slots q ! i)"
      if "i < length (eq_slots q)" "live (ss ! i)" for i
      using same [of i] that len by auto
  qed
  moreover have "members_inv (q\<lparr>eq_slots := ss\<rparr>)"
    using inv len fl by (simp add: eq_inv_def members_inv_def)
  moreover have "batch_inv (q\<lparr>eq_slots := ss\<rparr>)"
    using inv mem by (auto simp: eq_inv_def batch_inv_def split: option.splits cong: map_cong)
  ultimately show ?thesis
    using inv len by (simp add: eq_inv_def size_inv_def)
qed

lemma eq_inv_scan:
  "eq_inv q \<Longrightarrow> eq_inv (q\<lparr>eq_slots := snd (prepare_scan (eq_slots q))\<rparr>)"
proof (rule eq_inv_replace)
  fix i assume "i < length (snd (prepare_scan (eq_slots q)))"
  then show "snd (prepare_scan (eq_slots q)) ! i = eq_slots q ! i \<or>
      \<not> live (snd (prepare_scan (eq_slots q)) ! i) \<and> \<not> live (eq_slots q ! i)"
    using prepare_scan_nth [of i "eq_slots q"] by (auto simp: live_def)
qed simp_all

lemma inv_next_sequence [simp]:
  "members_inv (q\<lparr>eq_next_sequence := n\<rparr>) = members_inv q"
  "batch_inv (q\<lparr>eq_next_sequence := n\<rparr>) = batch_inv q"
  by (auto simp: members_inv_def batch_inv_def split: option.splits)

text \<open>A free slot takes a fresh sequence number.\<close>

lemma eq_inv_reserve:
  assumes inv: "eq_inv q" and i: "i < length (eq_slots q)" and free: "sl_state (eq_slots q ! i) = Slot_Free"
    and st: "sl_state s = Slot_Reserved" and gen: "sl_generation s \<noteq> 0"
    and seq: "slot_seq s = eq_next_sequence q" and lim: "eq_next_sequence q \<noteq> UINT64_MAX"
  shows "eq_inv (q\<lparr>eq_slots := (eq_slots q)[i := s], eq_next_sequence := eq_next_sequence q + 1\<rparr>)"
proof -
  have up: "eq_next_sequence q < eq_next_sequence q + 1"
    using lim by (rule not_max_lessI)
  have old: "slot_inv (eq_frontier q) (eq_next_sequence q + 1) t" if "t \<in> set (eq_slots q)" for t
    using inv that up by (auto simp: eq_inv_def slot_inv_def intro: less_trans)
  have "\<forall>t \<in> set ((eq_slots q)[i := s]). slot_inv (eq_frontier q) (eq_next_sequence q + 1) t"
    using old set_update_subset_insert [of "eq_slots q" i s] st gen seq up
    by (auto simp: slot_inv_def)
  moreover have "seqs_distinct ((eq_slots q)[i := s])"
  proof -
    have "live (eq_slots q ! j) \<Longrightarrow> slot_seq (eq_slots q ! j) \<noteq> slot_seq s" if "j < length (eq_slots q)" for j
      using slot_inv_nth [OF inv that] seq by (auto simp: slot_inv_def)
    with inv i show ?thesis unfolding eq_inv_def seqs_distinct_def
      by (auto simp: nth_list_update) metis
  qed
  moreover have mi: "members_inv (q\<lparr>eq_slots := (eq_slots q)[i := s]\<rparr>)"
    using inv i free st by (intro members_inv_update) (auto simp: eq_inv_def in_flight_def)
  moreover have "batch_inv (q\<lparr>eq_slots := (eq_slots q)[i := s]\<rparr>)"
    using inv i free by (intro batch_inv_update) (auto simp: eq_inv_def members_inv_def in_flight_def)
  moreover have "q\<lparr>eq_slots := (eq_slots q)[i := s], eq_next_sequence := eq_next_sequence q + 1\<rparr> =
      q\<lparr>eq_slots := (eq_slots q)[i := s]\<rparr>\<lparr>eq_next_sequence := eq_next_sequence q + 1\<rparr>"
    by simp
  ultimately show ?thesis
    using inv unfolding eq_inv_def by (simp add: size_inv_def)
qed

lemma word_plus_one_nonzero: "(x :: u64) \<noteq> UINT64_MAX \<Longrightarrow> x + 1 \<noteq> 0"
  using not_max_lessI [of x] by auto

text \<open>What a successful \<open>prepare\<close> does.\<close>

lemma eq_prepare_Inr:
  assumes "eq_prepare pf this e q = (Inr r, q')"
  obtains i ss where "prepare_scan (eq_slots q) = (Some i, ss)" "i < length (eq_slots q)"
    "sl_state (eq_slots q ! i) = Slot_Free" "sl_generation (eq_slots q ! i) \<noteq> UINT64_MAX"
    "ss ! i = eq_slots q ! i" "length ss = length (eq_slots q)"
    "q' = q\<lparr>eq_slots := ss[i := \<lparr>sl_state = Slot_Reserved,
        sl_generation = sl_generation (eq_slots q ! i) + 1,
        sl_event = set_sequence (eq_next_sequence q) e, sl_cancelled = False\<rparr>],
      eq_next_sequence := eq_next_sequence q + 1\<rparr>"
    "r = \<lparr>er_queue = Some this, er_token = token_of q' i\<rparr>"
    "eq_next_sequence q \<noteq> UINT64_MAX" "\<not> behind_frontier q (ed_key e)"
    "\<not> value_too_big pf q (ed_value e)"
proof -
  obtain x ss where scan: "prepare_scan (eq_slots q) = (x, ss)" by fastforce
  with assms obtain i where x: "x = Some i"
    by (cases x) (auto simp: eq_prepare_def split: if_splits)
  have "length ss = length (eq_slots q)"
    using length_prepare_scan [of "eq_slots q"] by (simp add: scan)
  with that [of i ss] show ?thesis
    using assms prepare_scan_Some [of "eq_slots q" i]
    by (auto simp: eq_prepare_def scan x Let_def split: if_splits)
qed

lemma eq_prepare_Inl:
  assumes "eq_prepare pf this e q = (Inl err, q')"
  shows "q' = q \<or> q' = q\<lparr>eq_slots := snd (prepare_scan (eq_slots q))\<rparr>"
  using assms by (auto simp: eq_prepare_def Let_def split: if_splits prod.splits option.splits)

lemma eq_prepare_inv:
  assumes inv: "eq_inv q"
  shows "eq_inv (snd (eq_prepare pf this e q))"
proof (cases "eq_prepare pf this e q")
  case (Pair res q')
  show ?thesis
  proof (cases res)
    case (Inl err)
    then show ?thesis using Pair inv eq_prepare_Inl [of pf this e q err q'] by (auto simp: eq_inv_scan)
  next
    case (Inr r)
    from eq_prepare_Inr [OF Pair [unfolded Inr]] obtain i ss where
      p: "prepare_scan (eq_slots q) = (Some i, ss)" "i < length (eq_slots q)"
        "sl_state (eq_slots q ! i) = Slot_Free" "sl_generation (eq_slots q ! i) \<noteq> UINT64_MAX"
        "ss ! i = eq_slots q ! i" "length ss = length (eq_slots q)"
        "eq_next_sequence q \<noteq> UINT64_MAX"
      and q': "q' = q\<lparr>eq_slots := ss[i := \<lparr>sl_state = Slot_Reserved,
          sl_generation = sl_generation (eq_slots q ! i) + 1,
          sl_event = set_sequence (eq_next_sequence q) e, sl_cancelled = False\<rparr>],
        eq_next_sequence := eq_next_sequence q + 1\<rparr>"
      by metis
    let ?q = "q\<lparr>eq_slots := ss\<rparr>"
    have "eq_inv ?q" using eq_inv_scan [OF inv] by (simp add: p(1))
    from eq_inv_reserve [OF this, of i "eq_slots q' ! i"] p show ?thesis
      by (simp add: Pair q' slot_seq_def word_plus_one_nonzero)
  qed
qed

lemma eq_enqueue_inv:
  assumes "eq_inv q"
  shows "eq_inv (snd (eq_enqueue pf this e q))"
  using eq_prepare_inv [OF assms, of pf this e]
  by (auto simp: eq_enqueue_def split: prod.splits sum.splits
      intro!: reservation_destroy_inv dest: eq_enqueue_reservation_inv) (metis eq_enqueue_reservation_inv snd_conv)

section \<open>Opening a batch\<close>

text \<open>The search finds the least due ready key.\<close>

definition due :: "tick \<Rightarrow> event_slot \<Rightarrow> bool" where
  "due now s \<longleftrightarrow> sl_state s = Slot_Queued \<and> rk_time (slot_ready s) \<le> now"

lemma earliest_due_Some:
  "earliest_due now ss k0 = Some k \<Longrightarrow>
     (k0 = Some k \<or> (\<exists>s \<in> set ss. due now s \<and> slot_ready s = k)) \<and>
     (\<forall>k'. k0 = Some k' \<longrightarrow> k \<le> k') \<and> (\<forall>s \<in> set ss. due now s \<longrightarrow> k \<le> slot_ready s)"
proof (induction ss arbitrary: k0)
  case (Cons s ss)
  show ?case
  proof (cases "due now s \<and> (case k0 of None \<Rightarrow> True | Some k' \<Rightarrow> slot_ready s < k')")
    case True
    then have "earliest_due now ss (Some (slot_ready s)) = Some k"
      using Cons.prems by (cases k0) (auto simp: due_def slot_ready_def Let_def not_less [symmetric])
    from Cons.IH [OF this] True show ?thesis
      by (auto split: option.splits)
  next
    case False
    then have "earliest_due now ss k0 = Some k"
      using Cons.prems by (auto simp: due_def slot_ready_def Let_def not_less split: if_splits option.splits)
    from Cons.IH [OF this] False show ?thesis
      by (auto split: option.splits)
  qed
qed simp

lemma earliest_due_None:
  "earliest_due now ss k0 = None \<longleftrightarrow> k0 = None \<and> (\<forall>s \<in> set ss. \<not> due now s)"
proof (induction ss arbitrary: k0)
  case (Cons s ss)
  show ?case
    using Cons.IH by (cases k0) (auto simp: due_def slot_ready_def Let_def not_less)
qed simp

lemma earliest_due_least:
  assumes "earliest_due now ss None = Some k"
  shows "\<exists>s \<in> set ss. due now s \<and> slot_ready s = k"
    and "s \<in> set ss \<Longrightarrow> sl_state s = Slot_Queued \<Longrightarrow> k \<le> slot_ready s"
    and "rk_time k \<le> now"
proof -
  note f = earliest_due_Some [OF assms]
  from f obtain s0 where s0: "s0 \<in> set ss" "due now s0" "slot_ready s0 = k" by auto
  then show "\<exists>s \<in> set ss. due now s \<and> slot_ready s = k" by blast
  show le: "rk_time k \<le> now" using s0 by (auto simp: due_def)
  assume s: "s \<in> set ss" "sl_state s = Slot_Queued"
  show "k \<le> slot_ready s"
  proof (cases "due now s")
    case True
    with f s show ?thesis by blast
  next
    case False
    with s have "now < rk_time (slot_ready s)" by (auto simp: due_def)
    with le show ?thesis by (cases k; cases "slot_ready s") auto
  qed
qed

lemma in_batch_iff: "in_batch k s \<longleftrightarrow> sl_state s = Slot_Queued \<and> slot_ready s = k"
  by (simp add: in_batch_def slot_ready_def)

lemma open_batch_simps [simp]:
  "eq_domain (open_batch k q) = eq_domain q" "eq_store (open_batch k q) = eq_store q"
  "eq_frontier (open_batch k q) = Some k" "eq_batch (open_batch k q) = Some (eq_next_batch q)"
  "eq_batch_ready (open_batch k q) = k" "eq_cursor (open_batch k q) = 0"
  "eq_resolver_cursor (open_batch k q) = 0" "eq_resolver_total (open_batch k q) = None"
  "eq_next_batch (open_batch k q) = eq_next_batch q + 1"
  "eq_next_sequence (open_batch k q) = eq_next_sequence q"
  "eq_reclaim_cursor (open_batch k q) = eq_reclaim_cursor q"
  "eq_max_event_bytes (open_batch k q) = eq_max_event_bytes q"
  "length (eq_slots (open_batch k q)) = length (eq_slots q)"
  by (simp_all add: open_batch_def Let_def)

lemma open_batch_nth:
  "i < length (eq_slots q) \<Longrightarrow> eq_slots (open_batch k q) ! i =
     (if in_batch k (eq_slots q ! i) then (eq_slots q ! i)\<lparr>sl_state := Slot_Active\<rparr>
      else eq_slots q ! i)"
  by (simp add: open_batch_def Let_def)

lemma open_batch_members:
  "distinct (eq_members (open_batch k q))"
  "set (eq_members (open_batch k q)) =
     {i. i < length (eq_slots q) \<and> in_batch k (eq_slots q ! i)}"
  "sorted (map (\<lambda>i. ed_key (sl_event (eq_slots (open_batch k q) ! i))) (eq_members (open_batch k q)))"
  by (auto simp: open_batch_def Let_def intro: sorted_sort_key)

lemma open_batch_event:
  "i < length (eq_slots q) \<Longrightarrow> sl_event (eq_slots (open_batch k q) ! i) = sl_event (eq_slots q ! i)"
  "i < length (eq_slots q) \<Longrightarrow>
     sl_generation (eq_slots (open_batch k q) ! i) = sl_generation (eq_slots q ! i)"
  "i < length (eq_slots q) \<Longrightarrow> live (eq_slots (open_batch k q) ! i) = live (eq_slots q ! i)"
  by (simp_all add: open_batch_nth live_def in_batch_iff)

lemma open_batch_inv:
  assumes inv: "eq_inv q" and none: "eq_batch q = None"
    and k: "earliest_due now (eq_slots q) None = Some k" and lim: "eq_next_batch q \<noteq> UINT64_MAX"
  shows "eq_inv (open_batch k q)"
proof -
  let ?q = "open_batch k q" and ?ms = "eq_members (open_batch k q)"
  note least = earliest_due_least [OF k]
  have nofly: "\<not> in_flight (eq_slots q ! i)" if "i < length (eq_slots q)" for i
    using inv none that by (auto simp: eq_inv_def members_inv_def batch_inv_def)
  have "slot_inv (Some k) (eq_next_sequence q) (eq_slots ?q ! i)" if i: "i < length (eq_slots q)" for i
    using slot_inv_nth [OF inv i] least(2) [of "eq_slots q ! i"] i
    by (auto simp: open_batch_nth slot_inv_def slot_preds in_batch_def order_less_le)
  then have "\<forall>s \<in> set (eq_slots ?q). slot_inv (Some k) (eq_next_sequence q) s"
    by (auto simp: in_set_conv_nth)
  moreover have "seqs_distinct (eq_slots ?q)"
  proof (rule seqs_distinct_replace [of "eq_slots q"])
    show "live (eq_slots q ! i) \<and> slot_seq (eq_slots ?q ! i) = slot_seq (eq_slots q ! i)"
      if "i < length (eq_slots q)" "live (eq_slots ?q ! i)" for i
      using that by (simp add: open_batch_event slot_seq_def)
  qed (use inv in \<open>auto simp: eq_inv_def\<close>)
  moreover have "members_inv ?q"
    using nofly by (auto simp: members_inv_def open_batch_members open_batch_nth in_flight_def in_batch_def)
  moreover have "batch_inv ?q"
  proof -
    have mem: "i < length (eq_slots q)" "in_batch k (eq_slots q ! i)" if "i \<in> set ?ms" for i
      using that by (auto simp: open_batch_members)
    have "set ?ms \<noteq> {}"
      using least(1) by (auto simp: open_batch_members in_batch_iff due_def in_set_conv_nth)
    then have "?ms \<noteq> []" by auto
    moreover have "\<forall>j < length ?ms. sl_state (eq_slots ?q ! (?ms ! j)) = Slot_Active"
      using mem by (simp add: open_batch_nth)
    moreover have "\<forall>i \<in> set ?ms. slot_ready (eq_slots ?q ! i) = k"
      using mem by (auto simp: slot_ready_def open_batch_event in_batch_def)
    ultimately show ?thesis
      using open_batch_members(3) [of k q] not_max_lessI [OF lim] by (simp add: batch_inv_def)
  qed
  ultimately show ?thesis
    using inv by (simp add: eq_inv_def size_inv_def)
qed

lemma eq_pop_batch_inv:
  assumes "eq_inv q"
  shows "eq_inv (snd (eq_pop_batch now budget q))"
  using assms by (auto simp: eq_pop_batch_def Let_def open_batch_inv split: option.splits)

section \<open>Draining a batch\<close>

lemma eq_ack_executed_inv:
  assumes inv: "eq_inv q"
  shows "eq_inv (snd (eq_ack_executed b h d q))"
proof (cases "\<exists>u. fst (eq_ack_executed b h d q) = Inr u")
  case True
  let ?i = "eq_members q ! eq_cursor q"
  from True have b: "eq_batch q = Some b" and c: "eq_cursor q \<noteq> length (eq_members q)"
    and v: "eq_validate q h = Inr ?i"
    and q': "snd (eq_ack_executed b h d q) = (upd_slot ?i (\<lambda>s. s\<lparr>sl_state := Slot_Done\<rparr>) q)
        \<lparr>eq_cursor := Suc (eq_cursor q)\<rparr>"
    by (auto simp: eq_ack_executed_def split: if_splits sum.splits)
  have bi: "batch_inv q" and mi: "members_inv q" using inv by (auto simp: eq_inv_def)
  then have lt: "eq_cursor q < length (eq_members q)"
    using b c by (auto simp: batch_inv_def)
  then have act: "sl_state (eq_slots q ! ?i) = Slot_Active" and mem: "?i \<in> set (eq_members q)"
    using bi b by (auto simp: batch_inv_def)
  have i: "?i < length (eq_slots q)" using v by (rule eq_validate_InrD)
  let ?s = "(eq_slots q ! ?i)\<lparr>sl_state := Slot_Done\<rparr>"
  have nth: "(eq_slots q)[?i := ?s] ! j = (if j = ?i then ?s else eq_slots q ! j)" for j
    using i by (simp add: nth_list_update)
  have ev: "sl_event (if j = ?i then ?s else eq_slots q ! j) = sl_event (eq_slots q ! j)" for j
    by simp
  have idx: "eq_members q ! j = ?i \<longleftrightarrow> j = eq_cursor q" if "j < length (eq_members q)" for j
    using that lt mi by (auto simp: members_inv_def nth_eq_iff_index_eq)
  have "\<forall>t \<in> set ((eq_slots q)[?i := ?s]). slot_inv (eq_frontier q) (eq_next_sequence q) t"
    using inv slot_inv_nth [OF inv i] act set_update_subset_insert [of "eq_slots q" ?i ?s]
    by (auto simp: eq_inv_def slot_inv_def slot_preds)
  moreover have "seqs_distinct ((eq_slots q)[?i := ?s])"
    using inv i act by (intro seqs_distinct_update) (auto simp: eq_inv_def slot_preds)
  moreover have "members_inv (q\<lparr>eq_slots := (eq_slots q)[?i := ?s]\<rparr>)"
    using mi i act by (intro members_inv_update) (auto simp: in_flight_def)
  moreover have "batch_inv (q\<lparr>eq_slots := (eq_slots q)[?i := ?s], eq_cursor := Suc (eq_cursor q)\<rparr>)"
    using bi b lt c idx by (auto simp: batch_inv_def nth ev slot_ready_def split: option.splits cong: map_cong)
  ultimately show ?thesis
    using inv unfolding q' upd_slot_def by (simp add: eq_inv_def size_inv_def members_inv_def)
next
  case False
  then have "snd (eq_ack_executed b h d q) = q"
    by (auto simp: eq_ack_executed_def split: sum.splits)
  with inv show ?thesis by simp
qed

lemma eq_resolver_step_inv:
  assumes "eq_inv q"
  shows "eq_inv (snd (eq_resolver_step b budget tot q))"
  using assms
  by (auto simp: eq_resolver_step_def eq_inv_def size_inv_def members_inv_def batch_inv_def Let_def
      split: option.splits)

lemma length_free_slots [simp]: "length (free_slots ms ss) = length ss"
  by (induction ms arbitrary: ss) (simp_all add: free_slots_def)

lemma free_slots_nth:
  "i < length ss \<Longrightarrow> \<forall>m \<in> set ms. m < length ss \<Longrightarrow>
     free_slots ms ss ! i = (if i \<in> set ms then (ss ! i)\<lparr>sl_state := Slot_Free\<rparr> else ss ! i)"
proof (induction ms arbitrary: ss)
  case (Cons m ms)
  then show ?case
    using Cons.IH [of "ss[m := (ss ! m)\<lparr>sl_state := Slot_Free\<rparr>]"]
    by (auto simp: free_slots_def nth_list_update)
qed (simp add: free_slots_def)

lemma eq_finish_batch_inv:
  assumes inv: "eq_inv q"
  shows "eq_inv (snd (eq_finish_batch b q))"
proof -
  have bound: "\<forall>m \<in> set (eq_members q). m < length (eq_slots q)" and
    fl: "\<And>i. i < length (eq_slots q) \<Longrightarrow> in_flight (eq_slots q ! i) \<longleftrightarrow> i \<in> set (eq_members q)"
    using inv by (auto simp: eq_inv_def members_inv_def)
  let ?ss = "free_slots (eq_members q) (eq_slots q)"
  have nth: "?ss ! i = (if i \<in> set (eq_members q) then (eq_slots q ! i)\<lparr>sl_state := Slot_Free\<rparr>
      else eq_slots q ! i)" if "i < length (eq_slots q)" for i
    using that bound by (rule free_slots_nth)
  have "slot_inv (eq_frontier q) (eq_next_sequence q) (?ss ! i)" if "i < length (eq_slots q)" for i
    using slot_inv_nth [OF inv that] that by (auto simp: nth slot_inv_def live_def)
  then have "\<forall>s \<in> set ?ss. slot_inv (eq_frontier q) (eq_next_sequence q) s"
    by (auto simp: in_set_conv_nth)
  moreover have "seqs_distinct ?ss"
  proof (rule seqs_distinct_replace [of "eq_slots q"])
    show "live (eq_slots q ! i) \<and> slot_seq (?ss ! i) = slot_seq (eq_slots q ! i)"
      if "i < length (eq_slots q)" "live (?ss ! i)" for i
      using that by (auto simp: nth live_def split: if_splits)
  qed (use inv in \<open>auto simp: eq_inv_def\<close>)
  moreover have "\<not> in_flight (?ss ! i)" if "i < length (eq_slots q)" for i
    using fl [OF that] that by (auto simp: nth in_flight_def)
  ultimately have "eq_inv (q\<lparr>eq_slots := ?ss, eq_members := [], eq_batch := None\<rparr>)"
    using inv by (simp add: eq_inv_def size_inv_def members_inv_def batch_inv_def)
  with inv show ?thesis by (simp add: eq_finish_batch_def)
qed

section \<open>Reclaiming slots\<close>

lemma collect_one_inv:
  assumes "eq_inv (fst p)"
  shows "eq_inv (fst (collect_one p))"
proof -
  obtain q n where p: "p = (q, n)" by fastforce
  let ?i = "eq_reclaim_cursor q" and ?q = "q\<lparr>eq_reclaim_cursor := (eq_reclaim_cursor q + 1) mod length (eq_slots q)\<rparr>"
  have q: "eq_inv q" using assms p by simp
  have i: "?i < length (eq_slots q)" using q by (simp add: eq_inv_def size_inv_def)
  have q': "eq_inv ?q"
    using q i by (auto simp: eq_inv_def size_inv_def members_inv_def batch_inv_def split: option.splits)
  have "\<not> in_flight (eq_slots q ! ?i)"
    if "sl_state (eq_slots q ! ?i) = Slot_Done \<and> eq_batch q = None \<or>
        sl_state (eq_slots q ! ?i) = Slot_Queued \<and> sl_cancelled (eq_slots q ! ?i)"
    using that q i by (auto simp: eq_inv_def members_inv_def batch_inv_def in_flight_def)
  then show ?thesis
    using eq_inv_free [OF q', of ?i] q' i by (auto simp: p collect_one_def Let_def)
qed

lemma eq_collect_stale_inv:
  assumes "eq_inv q"
  shows "eq_inv (snd (eq_collect_stale budget q))"
proof -
  have "eq_inv (fst ((collect_one ^^ n) (q, 0)))" for n
    by (induction n) (simp_all add: assms collect_one_inv)
  then show ?thesis by (simp add: eq_collect_stale_def split: prod.splits) (metis fst_conv)
qed

section \<open>Every reachable queue satisfies the invariant\<close>

lemma EventQueue_new_inv:
  "fst (EventQueue_new n d bytes next) = Some q \<Longrightarrow> eq_inv q"
  by (auto simp: EventQueue_new_def eq_inv_def size_inv_def slot_inv_def seqs_distinct_def members_inv_def
      batch_inv_def slot_preds empty_slot_def split: option.splits if_splits)

lemmas eq_op_inv =
  eq_prepare_inv eq_enqueue_reservation_inv eq_enqueue_inv eq_abandon_inv eq_retarget_inv eq_cancel_inv
  eq_pop_batch_inv eq_ack_executed_inv eq_resolver_step_inv eq_finish_batch_inv eq_collect_stale_inv

lemma eq_apply_inv: "eq_inv q \<Longrightarrow> eq_inv (eq_apply pf this op q)"
  by (cases op) (simp_all add: eq_op_inv)

lemma eq_reachable_inv: "eq_reachable pf this q \<Longrightarrow> eq_inv q"
  by (induction rule: eq_reachable.induct) (auto intro: EventQueue_new_inv eq_apply_inv)

end
