(* ===== verification/Event_Queue_Props.thy ===== *)
theory Event_Queue_Props
  imports Event_Queue_Inv
begin

text \<open>
  What the event queue promises: batches in strictly increasing order, members in key
  order, acknowledgement in order, no lost event, tokens that never become valid again,
  bounded occupancy, and completion of the resolver.
\<close>

section \<open>Runs\<close>

definition eq_run :: "platform \<Rightarrow> nat \<Rightarrow> eq_op list \<Rightarrow> event_queue \<Rightarrow> event_queue" where
  "eq_run pf this ops q = fold (eq_apply pf this) ops q"

lemma eq_run_simps [simp]:
  "eq_run pf this [] q = q"
  "eq_run pf this (op # ops) q = eq_run pf this ops (eq_apply pf this op q)"
  by (simp_all add: eq_run_def)

lemma eq_run_inv: "eq_inv q \<Longrightarrow> eq_inv (eq_run pf this ops q)"
  by (induction ops arbitrary: q) (simp_all add: eq_apply_inv)

lemma eq_run_reachable: "eq_reachable pf this q \<Longrightarrow> eq_reachable pf this (eq_run pf this ops q)"
  by (induction ops arbitrary: q) (simp_all add: eq_reachable.step)

section \<open>Generations only grow\<close>

text \<open>
  The frame of every operation: the identity of the queue and the number of slots stay, and
  a slot changes its generation only by counting up.
\<close>

definition gen_le :: "event_queue \<Rightarrow> event_queue \<Rightarrow> bool" where
  "gen_le q q' \<longleftrightarrow> eq_domain q' = eq_domain q \<and> eq_store q' = eq_store q \<and>
     length (eq_slots q') = length (eq_slots q) \<and>
     (\<forall>i < length (eq_slots q). sl_generation (eq_slots q ! i) \<le> sl_generation (eq_slots q' ! i))"

lemma gen_le_refl [simp]: "gen_le q q"
  by (simp add: gen_le_def)

lemma gen_le_trans: "gen_le q q' \<Longrightarrow> gen_le q' q'' \<Longrightarrow> gen_le q q''"
  unfolding gen_le_def by (metis order_trans)

lemma gen_le_upd_slot:
  "(\<And>s. sl_generation (f s) = sl_generation s) \<Longrightarrow> gen_le q (upd_slot i f q)"
  by (cases "i < length (eq_slots q)") (auto simp: gen_le_def upd_slot_def nth_list_update list_update_beyond)

lemma gen_le_abandon: "gen_le q (eq_abandon h q)"
  by (simp add: eq_abandon_def Let_def gen_le_upd_slot)

lemma gen_le_scan: "gen_le q (q\<lparr>eq_slots := snd (prepare_scan (eq_slots q))\<rparr>)"
proof -
  have "sl_generation (eq_slots q ! i) \<le> sl_generation (snd (prepare_scan (eq_slots q)) ! i)"
    if "i < length (eq_slots q)" for i
    using prepare_scan_nth [OF that] by auto
  then show ?thesis by (simp add: gen_le_def)
qed

lemma gen_le_prepare: "gen_le q (snd (eq_prepare pf this e q))"
proof (cases "eq_prepare pf this e q")
  case (Pair res q')
  show ?thesis
  proof (cases res)
    case (Inl err)
    with Pair eq_prepare_Inl [of pf this e q err q'] show ?thesis by (auto intro: gen_le_scan)
  next
    case (Inr r)
    from eq_prepare_Inr [OF Pair [unfolded Inr]] obtain i ss where
      p: "prepare_scan (eq_slots q) = (Some i, ss)" "i < length (eq_slots q)"
        "sl_generation (eq_slots q ! i) \<noteq> UINT64_MAX" "length ss = length (eq_slots q)"
      and q': "q' = q\<lparr>eq_slots := ss[i := \<lparr>sl_state = Slot_Reserved,
          sl_generation = sl_generation (eq_slots q ! i) + 1,
          sl_event = set_sequence (eq_next_sequence q) e, sl_cancelled = False\<rparr>],
        eq_next_sequence := eq_next_sequence q + 1\<rparr>"
      by metis
    have "sl_generation (eq_slots q ! i) \<le> sl_generation (eq_slots q ! i) + 1"
      using not_max_lessI [OF p(3)] by simp
    with gen_le_scan [of q] p(2,4) show ?thesis
      by (auto simp: Pair q' gen_le_def p(1) nth_list_update)
  qed
qed

lemma gen_le_enqueue_reservation: "gen_le q (snd (snd (eq_enqueue_reservation this r q)))"
  by (auto simp: eq_enqueue_reservation_def Let_def gen_le_upd_slot split: sum.splits)

lemma gen_le_enqueue: "gen_le q (snd (eq_enqueue pf this e q))"
proof -
  obtain res q1 where 1: "eq_prepare pf this e q = (res, q1)" by fastforce
  then have q1: "gen_le q q1" using gen_le_prepare [of q pf this e] by simp
  show ?thesis
  proof (cases res)
    case (Inr r)
    obtain res2 r' q2 where 2: "eq_enqueue_reservation this r q1 = (res2, r', q2)"
      by (metis prod_cases3)
    then have "gen_le q q2"
      using gen_le_enqueue_reservation [of q1 this r] q1 by (auto intro: gen_le_trans)
    then show ?thesis
      by (auto simp: eq_enqueue_def 1 2 Inr reservation_destroy_def intro: gen_le_trans gen_le_abandon)
  qed (simp add: eq_enqueue_def 1 q1)
qed

lemma gen_le_open_batch: "gen_le q (open_batch k q)"
  by (simp add: gen_le_def open_batch_event)

lemma free_slots_generation:
  "i < length ss \<Longrightarrow> sl_generation (free_slots ms ss ! i) = sl_generation (ss ! i)"
proof (induction ms arbitrary: ss)
  case (Cons m ms)
  then show ?case
    using Cons.IH [of "ss[m := (ss ! m)\<lparr>sl_state := Slot_Free\<rparr>]"]
    by (cases "m < length ss") (auto simp: free_slots_def nth_list_update list_update_beyond)
qed (simp add: free_slots_def)

lemma gen_le_collect: "gen_le q (snd (eq_collect_stale budget q))"
proof -
  have one: "gen_le (fst p) (fst (collect_one p))" for p
    by (auto simp: collect_one_def Let_def gen_le_def upd_slot_def nth_update_total split: prod.splits)
  have "gen_le q (fst ((collect_one ^^ n) (q, 0)))" for n
    by (induction n) (auto intro: gen_le_trans one)
  then show ?thesis by (simp add: eq_collect_stale_def split: prod.splits) (metis fst_conv)
qed

lemma gen_le_apply: "gen_le q (eq_apply pf this op q)"
proof (cases op)
  case (Op_pop_batch now budget)
  then show ?thesis
    by (auto simp: eq_pop_batch_def Let_def gen_le_open_batch split: option.splits)
next
  case (Op_ack b h d)
  then show ?thesis
    using gen_le_upd_slot [of "\<lambda>s. s\<lparr>sl_state := Slot_Done\<rparr>" q]
    by (auto simp: eq_ack_executed_def gen_le_def split: sum.splits)
next
  case (Op_finish b)
  then show ?thesis by (simp add: eq_finish_batch_def gen_le_def free_slots_generation)
next
  case (Op_resolver b budget tot)
  then show ?thesis by (simp add: eq_resolver_step_def gen_le_def Let_def)
next
  case (Op_cancel h)
  then show ?thesis by (auto simp: eq_cancel_def Let_def gen_le_upd_slot split: sum.splits)
next
  case (Op_retarget r e)
  then show ?thesis by (auto simp: eq_retarget_def Let_def gen_le_upd_slot split: sum.splits)
qed (simp_all add: gen_le_prepare gen_le_enqueue_reservation gen_le_enqueue gen_le_abandon gen_le_collect)

lemma gen_le_run: "gen_le q (eq_run pf this ops q)"
  by (induction ops arbitrary: q) (auto intro: gen_le_trans gen_le_apply)

text \<open>A handle whose slot has moved on is rejected, now and for ever.\<close>

lemma validate_old_generation:
  assumes "unat (h_slot h) < length (eq_slots q)"
    and "h_generation h < sl_generation (eq_slots q ! unat (h_slot h))"
  shows "isl (eq_validate (eq_run pf this ops q) h)"
proof -
  have "h_generation h < sl_generation (eq_slots (eq_run pf this ops q) ! unat (h_slot h))"
    using gen_le_run [of q pf this ops] assms by (auto simp: gen_le_def intro: less_le_trans)
  then show ?thesis
    by (auto simp: eq_validate_def Let_def)
qed

section \<open>Batches\<close>

lemma batch_slice_simps [simp]:
  "cb_id (batch_slice b n q) = b" "cb_ready (batch_slice b n q) = eq_batch_ready q"
  "cb_cursor (batch_slice b n q) = eq_cursor q"
  by (simp_all add: batch_slice_def Let_def)

lemma pop_batch_opened:
  assumes "eq_batch q = None" and "eq_pop_batch now budget q = (Inr (Some sl), q')"
  obtains k where "earliest_due now (eq_slots q) None = Some k" "q' = open_batch k q"
    "sl = batch_slice (eq_next_batch q) budget q'" "budget \<noteq> 0" "eq_next_batch q \<noteq> UINT64_MAX"
  using assms by (auto simp: eq_pop_batch_def Let_def split: if_splits option.splits)

lemma members_strictly_sorted:
  assumes inv: "eq_inv q" and b: "eq_batch q = Some b"
  shows "sorted_wrt (<) (map (\<lambda>i. ed_key (sl_event (eq_slots q ! i))) (eq_members q))"
proof -
  let ?key = "\<lambda>i. ed_key (sl_event (eq_slots q ! i))"
  have "inj_on ?key (set (eq_members q))"
  proof (rule inj_onI)
    fix i j assume m: "i \<in> set (eq_members q)" "j \<in> set (eq_members q)" and "?key i = ?key j"
    then have "slot_seq (eq_slots q ! i) = slot_seq (eq_slots q ! j)" by (simp add: slot_seq_def)
    moreover have "i < length (eq_slots q)" "j < length (eq_slots q)"
        "live (eq_slots q ! i)" "live (eq_slots q ! j)"
      using inv m by (auto simp: eq_inv_def members_inv_def in_flight_def live_def)
    ultimately show "i = j" using inv by (auto simp: eq_inv_def seqs_distinct_def)
  qed
  then have "distinct (map ?key (eq_members q))"
    using inv by (simp add: distinct_map eq_inv_def members_inv_def)
  moreover have "sorted (map ?key (eq_members q))"
    using inv b by (simp add: eq_inv_def batch_inv_def)
  ultimately show ?thesis by (simp add: strict_sorted_iff)
qed

lemma slice_tokens:
  "map qe_token (cb_members (batch_slice b n q)) =
     map (token_of q) (take (unat n) (drop (eq_cursor q) (eq_members q)))"
proof -
  let ?ms = "eq_members q" and ?c = "eq_cursor q"
  have "map (\<lambda>j. token_of q (?ms ! j)) [?c..<min (length ?ms) (?c + unat n)] =
      map (token_of q) (take (unat n) (drop ?c ?ms))"
    by (rule nth_equalityI) (auto simp: min_def split: if_splits)
  then show ?thesis by (simp add: batch_slice_def Let_def o_def)
qed

section \<open>Queued events stay queued\<close>

text \<open>Every operation but \<open>cancel\<close> and \<open>pop_batch\<close> leaves a queued, uncancelled slot alone.\<close>

definition waiting :: "event_queue \<Rightarrow> nat \<Rightarrow> bool" where
  "waiting q i \<longleftrightarrow> i < length (eq_slots q) \<and> sl_state (eq_slots q ! i) = Slot_Queued \<and>
     \<not> sl_cancelled (eq_slots q ! i)"

lemma upd_slot_other:
  "i \<noteq> j \<Longrightarrow> eq_slots (upd_slot i f q) ! j = eq_slots q ! j"
  by (simp add: upd_slot_def)

lemma abandon_waiting: "waiting q i \<Longrightarrow> eq_slots (eq_abandon h q) ! i = eq_slots q ! i"
  by (auto simp: eq_abandon_def Let_def waiting_def upd_slot_def nth_list_update)

lemma prepare_nonfree:
  assumes w: "i < length (eq_slots q)" "sl_state (eq_slots q ! i) \<noteq> Slot_Free"
  shows "eq_slots (snd (eq_prepare pf this e q)) ! i = eq_slots q ! i"
proof (cases "eq_prepare pf this e q")
  case (Pair res q')
  have scan: "snd (prepare_scan (eq_slots q)) ! i = eq_slots q ! i"
    using w prepare_scan_nth [of i "eq_slots q"] by auto
  show ?thesis
  proof (cases res)
    case (Inl err)
    with Pair scan eq_prepare_Inl [of pf this e q err q'] show ?thesis by auto
  next
    case (Inr r)
    from eq_prepare_Inr [OF Pair [unfolded Inr]] obtain k ss where
      k: "prepare_scan (eq_slots q) = (Some k, ss)" "sl_state (eq_slots q ! k) = Slot_Free"
        "length ss = length (eq_slots q)"
      and "q' = q\<lparr>eq_slots := ss[k := \<lparr>sl_state = Slot_Reserved,
          sl_generation = sl_generation (eq_slots q ! k) + 1,
          sl_event = set_sequence (eq_next_sequence q) e, sl_cancelled = False\<rparr>],
        eq_next_sequence := eq_next_sequence q + 1\<rparr>"
      by metis
    moreover have "k \<noteq> i" using k(2) w by auto
    ultimately show ?thesis using scan by (simp add: Pair)
  qed
qed

lemma prepare_waiting:
  "waiting q i \<Longrightarrow> eq_slots (snd (eq_prepare pf this e q)) ! i = eq_slots q ! i"
  by (rule prepare_nonfree) (auto simp: waiting_def)

lemma waiting_cong:
  "waiting q i \<Longrightarrow> eq_slots q' ! i = eq_slots q ! i \<Longrightarrow> gen_le q q' \<Longrightarrow> waiting q' i"
  by (simp add: waiting_def gen_le_def)

lemma enqueue_reservation_waiting:
  "waiting q i \<Longrightarrow> eq_slots (snd (snd (eq_enqueue_reservation this r q))) ! i = eq_slots q ! i"
  by (auto simp: eq_enqueue_reservation_def Let_def waiting_def upd_slot_def nth_update_total split: sum.splits)

lemma enqueue_waiting:
  assumes w: "waiting q i"
  shows "eq_slots (snd (eq_enqueue pf this e q)) ! i = eq_slots q ! i"
proof -
  obtain res q1 where 1: "eq_prepare pf this e q = (res, q1)" by fastforce
  then have w1: "waiting q1 i" and e1: "eq_slots q1 ! i = eq_slots q ! i"
    using prepare_waiting [OF w, of pf this e] gen_le_prepare [of q pf this e]
    by (auto intro: waiting_cong [OF w])
  show ?thesis
  proof (cases res)
    case (Inr r)
    obtain res2 r' q2 where 2: "eq_enqueue_reservation this r q1 = (res2, r', q2)"
      by (metis prod_cases3)
    then have "waiting q2 i" and "eq_slots q2 ! i = eq_slots q ! i"
      using enqueue_reservation_waiting [OF w1, of this r] gen_le_enqueue_reservation [of q1 this r] e1
      by (auto intro: waiting_cong [OF w1])
    then show ?thesis
      by (simp add: eq_enqueue_def 1 2 Inr reservation_destroy_def abandon_waiting)
  qed (simp add: eq_enqueue_def 1 e1)
qed

lemma collect_waiting:
  assumes w: "waiting q i"
  shows "eq_slots (snd (eq_collect_stale budget q)) ! i = eq_slots q ! i"
proof -
  have one: "eq_slots (fst (collect_one p)) ! i = eq_slots (fst p) ! i \<and>
      length (eq_slots (fst (collect_one p))) = length (eq_slots (fst p))"
    if "waiting (fst p) i" for p
    using that by (auto simp: collect_one_def Let_def waiting_def upd_slot_def nth_update_total split: prod.splits)
  have "eq_slots (fst ((collect_one ^^ n) (q, 0))) ! i = eq_slots q ! i \<and>
      length (eq_slots (fst ((collect_one ^^ n) (q, 0)))) = length (eq_slots q)" for n
  proof (induction n)
    case (Suc n)
    then have "waiting (fst ((collect_one ^^ n) (q, 0))) i" using w by (simp add: waiting_def)
    from one [OF this] Suc show ?case by simp
  qed simp
  then show ?thesis by (simp add: eq_collect_stale_def split: prod.splits) (metis fst_conv)
qed

lemma waiting_apply:
  assumes inv: "eq_inv q" and w: "waiting q i"
    and op: "\<not> (\<exists>h. op = Op_cancel h)" "\<not> (\<exists>now n. op = Op_pop_batch now n)"
  shows "eq_slots (eq_apply pf this op q) ! i = eq_slots q ! i"
proof (cases op)
  case (Op_ack b h d)
  have "i \<notin> set (eq_members q)"
    using inv w by (auto simp: eq_inv_def members_inv_def waiting_def in_flight_def)
  moreover have "eq_members q ! eq_cursor q \<in> set (eq_members q)"
    if "eq_batch q = Some b" "eq_cursor q \<noteq> length (eq_members q)"
    using inv that by (auto simp: eq_inv_def batch_inv_def)
  ultimately show ?thesis
    using Op_ack by (auto simp: eq_ack_executed_def upd_slot_def nth_update_total split: sum.splits)
next
  case (Op_finish b)
  have "i \<notin> set (eq_members q)" "\<forall>m \<in> set (eq_members q). m < length (eq_slots q)"
    using inv w by (auto simp: eq_inv_def members_inv_def waiting_def in_flight_def)
  then show ?thesis using Op_finish w by (simp add: eq_finish_batch_def free_slots_nth waiting_def)
next
  case (Op_retarget r e)
  then show ?thesis
    using w eq_preflight_InrD(4) [of this r q]
    by (auto simp: eq_retarget_def Let_def upd_slot_def nth_update_total waiting_def split: sum.splits)
qed (use op w in \<open>simp_all add: prepare_waiting enqueue_reservation_waiting enqueue_waiting
    abandon_waiting collect_waiting eq_resolver_step_def Let_def\<close>)

section \<open>Wake-up points\<close>

lemma earliest_queued_due:
  "earliest_queued ss k0 = earliest_due UINT64_MAX ss k0"
  by (induction ss k0 rule: earliest_queued.induct)
    (auto simp: Let_def not_less [symmetric] split: option.splits)

lemma next_wakeup_Some:
  assumes "eq_batch q = None" and "eq_next_wakeup q = Some w"
  shows "earliest_due UINT64_MAX (eq_slots q) None = Some (ReadyKey (wp_time w) (wp_turn w))"
  using assms by (auto simp: eq_next_wakeup_def earliest_queued_due split: option.splits)

lemma earliest_due_restrict:
  assumes k: "earliest_due UINT64_MAX ss None = Some k"
  shows "earliest_due now ss None = (if rk_time k \<le> now then Some k else None)"
proof (cases "rk_time k \<le> now")
  case True
  from earliest_due_least(1) [OF k] True obtain s where s: "s \<in> set ss" "due now s" "slot_ready s = k"
    by (auto simp: due_def)
  then obtain k' where k': "earliest_due now ss None = Some k'"
    using earliest_due_None [of now ss None] by (cases "earliest_due now ss None") auto
  from earliest_due_least(1) [OF k'] obtain s' where "s' \<in> set ss" "due now s'" "slot_ready s' = k'" by auto
  then have "k \<le> k'" using earliest_due_least(2) [OF k, of s'] by (simp add: due_def)
  moreover have "k' \<le> k" using earliest_due_least(2) [OF k', of s] s by (simp add: due_def)
  ultimately show ?thesis using True k' by simp
next
  case False
  have "\<not> due now s" if "s \<in> set ss" for s
  proof
    assume "due now s"
    then have "k \<le> slot_ready s" "rk_time (slot_ready s) \<le> now"
      using earliest_due_least(2) [OF k that] by (auto simp: due_def)
    with False show False by (cases k; cases "slot_ready s") auto
  qed
  with False show ?thesis by (simp add: earliest_due_None)
qed

section \<open>Occupancy\<close>

lemma filter_length_update:
  "i < length xs \<Longrightarrow> length (filter P (xs[i := x])) + (if P (xs ! i) then 1 else 0) =
     length (filter P xs) + (if P x then 1 else 0)"
proof (induction xs arbitrary: i)
  case (Cons y ys)
  then show ?case by (cases i) auto
qed simp

lemma eq_occupied_live: "eq_occupied q = length (filter live (eq_slots q))"
  unfolding eq_occupied_def live_def ..

lemma prepare_scan_occupied:
  "length (filter live (snd (prepare_scan ss))) = length (filter live ss)"
  by (induction ss) (auto simp: live_def split: prod.splits)

section \<open>The resolver\<close>

lemma resolver_iterate:
  assumes "eq_batch q = Some b" and "eq_cursor q = length (eq_members q)"
    and "eq_resolver_total q = None" and "eq_resolver_cursor q = 0" and "budget \<noteq> 0"
  shows "((\<lambda>q. snd (eq_resolver_step b budget tot q)) ^^ Suc n) q =
    q\<lparr>eq_resolver_total := Some tot, eq_resolver_cursor := min (Suc n * unat budget) tot\<rparr>"
proof (induction n)
  case 0
  then show ?case using assms by (simp add: eq_resolver_step_def Let_def)
next
  case (Suc n)
  then show ?case using assms by (simp add: eq_resolver_step_def Let_def min_def)
qed

section \<open>Properties\<close>

text \<open>
  Claim C5. Every queue that a program can build and change through the operations of the
  class satisfies the queue invariant: slots in flight are exactly the batch members, the
  acknowledgement cursor splits them into done and active ones, members are sorted by key,
  queued events lie beyond the frontier, and live events have distinct sequence numbers.
\<close>

theorem queue_invariant:
  assumes "eq_reachable pf this q"
  shows "eq_inv q"
  using assms by (rule eq_reachable_inv)

text \<open>
  Claim C3. Opening a batch at time \<open>now\<close> takes exactly the queued events of the least
  ready key, which is due and lies strictly after the previous frontier; members are in
  strictly increasing event-key order, and the returned slice lists the tokens of the first
  \<open>budget\<close> of them.
\<close>

theorem pop_batch_takes_least_ready_key:
  assumes "eq_reachable pf this q" and "eq_batch q = None"
    and pop: "eq_pop_batch now budget q = (Inr (Some sl), q')"
  shows "(rk_time (cb_ready sl) \<le> now) \<and>
    (\<forall>f. eq_frontier q = Some f \<longrightarrow> f < cb_ready sl) \<and>
    (eq_frontier q' = Some (cb_ready sl)) \<and>
    (\<forall>s \<in> set (eq_slots q). sl_state s = Slot_Queued \<longrightarrow> cb_ready sl \<le> slot_ready s) \<and>
    (set (eq_members q') = {i. i < length (eq_slots q) \<and>
           sl_state (eq_slots q ! i) = Slot_Queued \<and> slot_ready (eq_slots q ! i) = cb_ready sl}) \<and>
    (eq_members q' \<noteq> []) \<and>
    (sorted_wrt (<) (map (\<lambda>i. ed_key (sl_event (eq_slots q' ! i))) (eq_members q'))) \<and>
    (map qe_token (cb_members sl) = map (token_of q') (take (unat budget) (eq_members q')))"
proof (intro conjI)
  have inv: "eq_inv q" using assms(1) by (rule eq_reachable_inv)
  from pop_batch_opened [OF assms(2) pop] obtain k where
    k: "earliest_due now (eq_slots q) None = Some k" and q': "q' = open_batch k q"
    and sl: "sl = batch_slice (eq_next_batch q) budget q'" and lim: "eq_next_batch q \<noteq> UINT64_MAX"
    by blast
  have inv': "eq_inv q'" unfolding q' using inv assms(2) k lim by (rule open_batch_inv)
  note least = earliest_due_least [OF k]
  have ready: "cb_ready sl = k" by (simp add: sl q')
  show "rk_time (cb_ready sl) \<le> now" using least(3) by (simp add: ready)
  from least(1) obtain s where "s \<in> set (eq_slots q)" "sl_state s = Slot_Queued" "slot_ready s = k"
    by (auto simp: due_def)
  then show "\<forall>f. eq_frontier q = Some f \<longrightarrow> f < cb_ready sl"
    using inv by (auto simp: ready eq_inv_def slot_inv_def)
  show "eq_frontier q' = Some (cb_ready sl)" by (simp add: q' ready)
  show "\<forall>s \<in> set (eq_slots q). sl_state s = Slot_Queued \<longrightarrow> cb_ready sl \<le> slot_ready s"
    using least(2) by (auto simp: ready)
  show "set (eq_members q') = {i. i < length (eq_slots q) \<and>
      sl_state (eq_slots q ! i) = Slot_Queued \<and> slot_ready (eq_slots q ! i) = cb_ready sl}"
    by (auto simp: q' open_batch_members in_batch_iff ready)
  show "eq_members q' \<noteq> []"
    using inv' by (auto simp: eq_inv_def batch_inv_def q')
  show "sorted_wrt (<) (map (\<lambda>i. ed_key (sl_event (eq_slots q' ! i))) (eq_members q'))"
    by (rule members_strictly_sorted [OF inv', of "eq_next_batch q"]) (simp add: q')
  show "map qe_token (cb_members sl) = map (token_of q') (take (unat budget) (eq_members q'))"
    by (simp add: sl slice_tokens q')
qed

text \<open>
  Claim C16. An acknowledgement is accepted only for the active member at the cursor, never as
  committed for a cancelled event; it marks exactly that slot done and moves the cursor on.
\<close>

theorem ack_in_order:
  assumes "eq_reachable pf this q" and ack: "eq_ack_executed b h d q = (Inr u, q')"
  shows "(eq_batch q = Some b) \<and>
    (eq_cursor q < length (eq_members q)) \<and>
    (unat (h_slot h) = eq_members q ! eq_cursor q) \<and>
    (sl_state (eq_slots q ! unat (h_slot h)) = Slot_Active) \<and>
    (sl_cancelled (eq_slots q ! unat (h_slot h)) \<longrightarrow> d \<noteq> Committed) \<and>
    (q' = (upd_slot (unat (h_slot h)) (\<lambda>s. s\<lparr>sl_state := Slot_Done\<rparr>) q)
           \<lparr>eq_cursor := Suc (eq_cursor q)\<rparr>)"
proof (intro conjI)
  have inv: "eq_inv q" using assms(1) by (rule eq_reachable_inv)
  let ?i = "eq_members q ! eq_cursor q"
  from ack show b: "eq_batch q = Some b"
    by (auto simp: eq_ack_executed_def split: if_splits)
  from ack have "eq_cursor q \<noteq> length (eq_members q)"
    by (auto simp: eq_ack_executed_def split: if_splits)
  then show c: "eq_cursor q < length (eq_members q)"
    using inv b by (auto simp: eq_inv_def batch_inv_def)
  from ack have v: "eq_validate q h = Inr ?i"
    by (auto simp: eq_ack_executed_def split: if_splits sum.splits)
  then show i: "unat (h_slot h) = ?i" using eq_validate_InrD(2) by metis
  show "sl_state (eq_slots q ! unat (h_slot h)) = Slot_Active"
    using inv b c i by (auto simp: eq_inv_def batch_inv_def)
  show "sl_cancelled (eq_slots q ! unat (h_slot h)) \<longrightarrow> d \<noteq> Committed"
    using ack i by (auto simp: eq_ack_executed_def v split: if_splits)
  show "q' = (upd_slot (unat (h_slot h)) (\<lambda>s. s\<lparr>sl_state := Slot_Done\<rparr>) q)
      \<lparr>eq_cursor := Suc (eq_cursor q)\<rparr>"
    using ack i by (auto simp: eq_ack_executed_def v split: if_splits)
qed

text \<open>
  Claim C17. Reusing a slot kills its old tokens: once \<open>prepare\<close> has handed a slot out
  again, a handle that named it before is rejected after every further sequence of
  operations.
\<close>

theorem reused_slot_tokens_stay_stale:
  assumes "eq_prepare pf this e q = (Inr r, q')" and "eq_validate q h = Inr i"
    and "h_slot h = h_slot (er_token r)" and "length (eq_slots q) \<le> UINT32_MAX"
  shows "isl (eq_validate (eq_run pf this ops q') h)"
proof -
  from eq_prepare_Inr [OF assms(1)] obtain k ss where
    k: "k < length (eq_slots q)" "sl_generation (eq_slots q ! k) \<noteq> UINT64_MAX"
      "length ss = length (eq_slots q)"
    and q': "q' = q\<lparr>eq_slots := ss[k := \<lparr>sl_state = Slot_Reserved,
        sl_generation = sl_generation (eq_slots q ! k) + 1,
        sl_event = set_sequence (eq_next_sequence q) e, sl_cancelled = False\<rparr>],
      eq_next_sequence := eq_next_sequence q + 1\<rparr>"
    and r: "r = \<lparr>er_queue = Some this, er_token = token_of q' k\<rparr>"
    by metis
  have "unat (of_nat k :: u32) = k"
    using k(1) assms(4) by (simp add: unat_of_nat)
  then have slot: "unat (h_slot h) = k" by (simp add: assms(3) r token_of_def)
  have "h_generation h = sl_generation (eq_slots q ! k)"
    using eq_validate_InrD(2,3) [OF assms(2)] slot by simp
  then have "h_generation h < sl_generation (eq_slots q' ! unat (h_slot h))"
    using not_max_lessI [OF k(2)] k(1,3) by (simp add: slot q')
  then show ?thesis
    using k(1,3) by (intro validate_old_generation) (simp_all add: slot q')
qed


text \<open>
  The wake-up point is exact: with no batch open, \<open>pop_batch\<close> before the announced
  time finds nothing, and at or after it opens the batch of the announced ready key.
\<close>

theorem next_wakeup_exact:
  assumes "eq_batch q = None" and "eq_next_wakeup q = Some w"
    and "budget \<noteq> 0" and "eq_next_batch q \<noteq> UINT64_MAX"
  shows "(now < wp_time w \<longrightarrow> eq_pop_batch now budget q = (Inr None, q)) \<and>
    (wp_time w \<le> now \<longrightarrow> (\<exists>sl q'. eq_pop_batch now budget q = (Inr (Some sl), q') \<and>
       cb_ready sl = ReadyKey (wp_time w) (wp_turn w)))"
proof -
  have "earliest_due now (eq_slots q) None =
      (if wp_time w \<le> now then Some (ReadyKey (wp_time w) (wp_turn w)) else None)"
    using earliest_due_restrict [OF next_wakeup_Some [OF assms(1,2)]] by simp
  then show ?thesis
    using assms by (auto simp: eq_pop_batch_def Let_def)
qed

text \<open>
  A reservation occupies exactly one slot, and abandoning it gives that slot back;
  \<open>prepare\<close> reports exhausted capacity only if no free slot has a generation left.
\<close>

theorem reservation_occupancy:
  assumes "eq_reachable pf this q" and "eq_prepare pf this e q = (res, q')"
  shows "(\<forall>r. res = Inr r \<longrightarrow> eq_occupied q' = Suc (eq_occupied q) \<and>
       eq_occupied (eq_abandon (er_token r) q') = eq_occupied q) \<and>
    (res = fail Capacity ''event capacity'' \<longrightarrow> eq_occupied q' = eq_occupied q \<and>
       (\<forall>s \<in> set (eq_slots q). sl_state s = Slot_Free \<longrightarrow> sl_generation s = UINT64_MAX))"
proof (intro conjI allI impI)
  have inv: "eq_inv q" using assms(1) by (rule eq_reachable_inv)
  fix r assume r: "res = Inr r"
  from eq_prepare_Inr [OF assms(2) [unfolded r]] obtain k ss where
    k: "prepare_scan (eq_slots q) = (Some k, ss)" "k < length (eq_slots q)"
      "sl_state (eq_slots q ! k) = Slot_Free" "ss ! k = eq_slots q ! k" "length ss = length (eq_slots q)"
    and q': "q' = q\<lparr>eq_slots := ss[k := \<lparr>sl_state = Slot_Reserved,
        sl_generation = sl_generation (eq_slots q ! k) + 1,
        sl_event = set_sequence (eq_next_sequence q) e, sl_cancelled = False\<rparr>],
      eq_next_sequence := eq_next_sequence q + 1\<rparr>"
    and tok: "er_token r = token_of q' k"
    by (metis event_reservation.select_convs(2))
  have scan: "length (filter live ss) = eq_occupied q"
    using prepare_scan_occupied [of "eq_slots q"] by (simp add: k(1) eq_occupied_live)
  then show occ: "eq_occupied q' = Suc (eq_occupied q)"
    using k filter_length_update [of k ss live "eq_slots q' ! k"] by (simp add: eq_occupied_live q' live_def)
  have "unat (of_nat k :: u32) = k"
    using inv k(2) by (simp add: unat_of_nat eq_inv_def size_inv_def)
  then have "eq_abandon (er_token r) q' = upd_slot k (\<lambda>s. s\<lparr>sl_state := Slot_Free\<rparr>) q'"
    using k by (simp add: eq_abandon_def tok token_of_def Let_def q')
  then show "eq_occupied (eq_abandon (er_token r) q') = eq_occupied q"
    using occ k filter_length_update [of k "eq_slots q'" live "(eq_slots q' ! k)\<lparr>sl_state := Slot_Free\<rparr>"]
    by (simp add: eq_occupied_live upd_slot_def q' live_def)
next
  assume c: "res = fail Capacity ''event capacity''"
  obtain x ss where scan: "prepare_scan (eq_slots q) = (x, ss)" by fastforce
  with assms(2) c have x: "x = None" and q': "q' = q\<lparr>eq_slots := ss\<rparr>"
    by (auto simp: eq_prepare_def Let_def split: if_splits option.splits)
  show "eq_occupied q' = eq_occupied q"
    using prepare_scan_occupied [of "eq_slots q"] by (simp add: eq_occupied_live scan q')
  show "\<forall>s \<in> set (eq_slots q). sl_state s = Slot_Free \<longrightarrow> sl_generation s = UINT64_MAX"
    using prepare_scan_None [of "eq_slots q"] by (simp add: scan x)
qed

text \<open>
  Claim C19. Once every member is acknowledged, repeated resolver steps with a positive budget
  reach the total work, and then the batch can be finished: its members' slots are free
  again and no batch is open.
\<close>

theorem batch_completes:
  assumes "eq_reachable pf this q" and "eq_batch q = Some b"
    and "eq_cursor q = length (eq_members q)" and "eq_resolver_total q = None"
    and "budget \<noteq> 0" and "tot \<le> Suc n * unat budget"
    and q': "q' = ((\<lambda>q. snd (eq_resolver_step b budget tot q)) ^^ Suc n) q"
  shows "fst (eq_finish_batch b q') = Inr () \<and> eq_batch (snd (eq_finish_batch b q')) = None \<and>
    (\<forall>i < length (eq_slots q). sl_state (eq_slots (snd (eq_finish_batch b q')) ! i) =
       (if i \<in> set (eq_members q) then Slot_Free else sl_state (eq_slots q ! i)))"
proof -
  have inv: "eq_inv q" using assms(1) by (rule eq_reachable_inv)
  then have "eq_resolver_cursor q = 0" and ms: "\<forall>m \<in> set (eq_members q). m < length (eq_slots q)"
    using assms(2,4) by (auto simp: eq_inv_def batch_inv_def members_inv_def)
  then have "q' = q\<lparr>eq_resolver_total := Some tot, eq_resolver_cursor := tot\<rparr>"
    unfolding q' using assms(6) by (subst resolver_iterate [OF assms(2-4) _ assms(5)]) (auto simp: min_def)
  then show ?thesis
    using assms(2,3) ms by (auto simp: eq_finish_batch_def free_slots_nth)
qed

section \<open>Witnesses\<close>

text \<open>A small platform and a queue of three slots with two events at tick 5 and one at tick 9.\<close>

definition demo_pf :: platform where
  "demo_pf = \<lparr>sizeof_Value = 40, sizeof_ptr = 8, sizeof_extension = 56,
     sizeof_PayloadSnapshot = 136, sizeof_ResponseSnapshot = 80, sizeof_SendIntent = 232,
     bytes_capacity = length, array_capacity = length, string_capacity = length\<rparr>"

definition demo_draft :: "tick \<Rightarrow> u32 \<Rightarrow> event_draft" where
  "demo_draft t inst = \<lparr>ed_key = EventKey t 0 ES_Internal inst 0 0, ed_value = VU64 41,
     ed_owner = 3, ed_epoch = 1\<rparr>"

definition demo_new :: event_queue where
  "demo_new = the (fst (EventQueue_new 3 7 4096 1))"

definition demo_ops :: "eq_op list" where
  "demo_ops = [Op_enqueue (demo_draft 9 1), Op_enqueue (demo_draft 5 4), Op_enqueue (demo_draft 5 3)]"

definition demo_queue :: event_queue where
  "demo_queue = eq_run demo_pf 0 demo_ops demo_new"

lemma demo_new_reachable: "eq_reachable demo_pf 0 demo_new"
proof (rule eq_reachable.new)
  show "fst (EventQueue_new 3 7 4096 1) = Some demo_new"
    by (simp add: demo_new_def EventQueue_new_def allocate_store_incarnation_def)
qed

lemma demo_queue_reachable: "eq_reachable demo_pf 0 demo_queue"
  unfolding demo_queue_def by (rule eq_run_reachable) (rule demo_new_reachable)

definition demo_slice :: closed_batch_slice where
  "demo_slice = (case fst (eq_pop_batch 6 8 demo_queue) of Inr (Some sl) \<Rightarrow> sl)"

definition demo_popped :: event_queue where
  "demo_popped = snd (eq_pop_batch 6 8 demo_queue)"

lemma demo_cost: "bounded_value_bytes demo_pf (VU64 n) = 40"
  by (simp add: bounded_value_bytes_def visit_frame_def size_add_def demo_pf_def)

lemma demo_new_eq: "demo_new = \<lparr>eq_slots = [empty_slot, empty_slot, empty_slot], eq_domain = 7, eq_store = 1,
    eq_frontier = None, eq_batch = None, eq_batch_ready = ReadyKey 0 0, eq_members = [], eq_cursor = 0,
    eq_resolver_cursor = 0, eq_reclaim_cursor = 0, eq_max_event_bytes = 4096, eq_resolver_total = None,
    eq_next_batch = 1, eq_next_sequence = 1\<rparr>"
  by (simp add: demo_new_def EventQueue_new_def allocate_store_incarnation_def numeral_3_eq_3)

lemmas demo_eval = demo_draft_def demo_cost eq_enqueue_def eq_prepare_def value_too_big_def behind_frontier_def
  set_sequence_def token_of_def eq_enqueue_reservation_def eq_validate_def upd_slot_def reservation_destroy_def
  Let_def

definition demo_slot :: "slot_state \<Rightarrow> tick \<Rightarrow> u32 \<Rightarrow> u64 \<Rightarrow> event_slot" where
  "demo_slot st t inst n = \<lparr>sl_state = st, sl_generation = 1,
     sl_event = \<lparr>ed_key = EventKey t 0 ES_Internal inst 0 n, ed_value = VU64 41, ed_owner = 3, ed_epoch = 1\<rparr>,
     sl_cancelled = False\<rparr>"

lemma demo_queue_eq: "demo_queue = demo_new\<lparr>eq_slots := [demo_slot Slot_Queued 9 1 1,
    demo_slot Slot_Queued 5 4 2, demo_slot Slot_Queued 5 3 3], eq_next_sequence := 4\<rparr>"
  by (simp add: demo_queue_def demo_ops_def demo_new_eq demo_eval empty_slot_def demo_slot_def)

lemma demo_popped_eq: "demo_popped = demo_new\<lparr>eq_slots := [demo_slot Slot_Queued 9 1 1,
    demo_slot Slot_Active 5 4 2, demo_slot Slot_Active 5 3 3], eq_next_sequence := 4,
    eq_batch := Some 1, eq_next_batch := 2, eq_frontier := Some (ReadyKey 5 0),
    eq_batch_ready := ReadyKey 5 0, eq_members := [2, 1]\<rparr>"
  by (simp add: demo_popped_def demo_queue_eq demo_new_eq eq_pop_batch_def demo_slot_def key_ready_def
     open_batch_def in_batch_def Let_def upt_rec less_eq_event_key_def event_key_tuple_def)

lemma demo_pop: "eq_pop_batch 6 8 demo_queue = (Inr (Some demo_slice), demo_popped)"
proof -
  have "\<exists>sl. fst (eq_pop_batch 6 8 demo_queue) = Inr (Some sl)"
    by (simp add: demo_queue_eq demo_new_eq eq_pop_batch_def demo_slot_def key_ready_def Let_def)
  then have "fst (eq_pop_batch 6 8 demo_queue) = Inr (Some demo_slice)"
    by (auto simp: demo_slice_def)
  then show ?thesis unfolding demo_popped_def by (simp add: prod_eq_iff)
qed

lemma demo_popped_reachable: "eq_reachable demo_pf 0 demo_popped"
  using eq_reachable.step [OF demo_queue_reachable, of "Op_pop_batch 6 8"] by (simp add: demo_popped_def)

theorem queue_invariant_witness: "eq_reachable demo_pf 0 demo_popped \<and> eq_inv demo_popped"
  using queue_invariant [OF demo_popped_reachable] demo_popped_reachable by simp

theorem pop_batch_takes_least_ready_key_witness:
  "cb_ready demo_slice = ReadyKey 5 0 \<and> eq_members demo_popped = [2, 1] \<and>
   map qe_token (cb_members demo_slice) = map (token_of demo_popped) [2, 1] \<and>
   rk_time (cb_ready demo_slice) \<le> 6"
proof -
  have none: "eq_batch demo_queue = None" by (simp add: demo_queue_eq demo_new_eq)
  show ?thesis
    using pop_batch_takes_least_ready_key [OF demo_queue_reachable none demo_pop]
    by (simp add: demo_popped_eq)
qed

definition demo_acked :: event_queue where
  "demo_acked = snd (eq_ack_executed 1 (token_of demo_popped 2) Committed demo_popped)"

lemma demo_ack: "eq_ack_executed 1 (token_of demo_popped 2) Committed demo_popped = (Inr (), demo_acked)"
  by (simp add: demo_acked_def demo_popped_eq demo_new_eq eq_ack_executed_def eq_validate_def token_of_def
      demo_slot_def Let_def)

theorem ack_in_order_witness:
  "eq_members demo_popped ! 0 = 2 \<and> sl_state (eq_slots demo_popped ! 2) = Slot_Active \<and> eq_cursor demo_acked = 1"
proof -
  note ack = ack_in_order [OF demo_popped_reachable demo_ack]
  have "unat (h_slot (token_of demo_popped 2)) = 2" "eq_cursor demo_popped = 0"
    by (simp_all add: token_of_def demo_popped_eq demo_new_eq)
  moreover have "eq_cursor demo_acked = Suc (eq_cursor demo_popped)"
    using ack [THEN conjunct2, THEN conjunct2, THEN conjunct2, THEN conjunct2, THEN conjunct2]
    by (rule ssubst) simp
  ultimately show ?thesis using ack by auto
qed

theorem reused_slot_tokens_stay_stale_witness:
  "\<exists>h q q' r. eq_validate q h = Inr 0 \<and> eq_prepare demo_pf 0 (demo_draft 5 1) q = (Inr r, q') \<and>
     (\<forall>ops. isl (eq_validate (eq_run demo_pf 0 ops q') h))"
proof -
  define q where "q = demo_new\<lparr>eq_slots := [demo_slot Slot_Free 2 1 1]\<rparr>"
  define h where "h = token_of q 0"
  have v: "eq_validate q h = Inr 0"
    by (simp add: q_def h_def eq_validate_def token_of_def demo_new_eq demo_slot_def)
  obtain r q' where p: "eq_prepare demo_pf 0 (demo_draft 5 1) q = (Inr r, q')" and r: "h_slot (er_token r) = 0"
    by (simp add: q_def demo_new_eq demo_eval demo_slot_def)
  have "isl (eq_validate (eq_run demo_pf 0 ops q') h)" for ops
    using reused_slot_tokens_stay_stale [OF p v, of ops] by (simp add: r q_def h_def token_of_def)
  with v p show ?thesis by blast
qed


theorem next_wakeup_exact_witness:
  "eq_next_wakeup demo_queue = Some \<lparr>wp_time = 5, wp_turn = 0, wp_generation = 0\<rparr> \<and>
   eq_pop_batch 4 8 demo_queue = (Inr None, demo_queue) \<and>
   (\<exists>sl q'. eq_pop_batch 6 8 demo_queue = (Inr (Some sl), q') \<and> cb_ready sl = ReadyKey 5 0)"
proof -
  have none: "eq_batch demo_queue = None" and nb: "eq_next_batch demo_queue \<noteq> UINT64_MAX"
    by (simp_all add: demo_queue_eq demo_new_eq)
  have w: "eq_next_wakeup demo_queue = Some \<lparr>wp_time = 5, wp_turn = 0, wp_generation = 0\<rparr>"
    by (simp add: eq_next_wakeup_def demo_queue_eq demo_new_eq demo_slot_def key_ready_def)
  show ?thesis
    using next_wakeup_exact [OF none w, of 8 4] next_wakeup_exact [OF none w, of 8 6] w nb by simp
qed

theorem reservation_occupancy_witness:
  "\<exists>r q'. eq_prepare demo_pf 0 (demo_draft 5 1) demo_new = (Inr r, q') \<and> eq_occupied q' = Suc (eq_occupied demo_new)"
proof -
  obtain r q' where p: "eq_prepare demo_pf 0 (demo_draft 5 1) demo_new = (Inr r, q')"
    by (simp add: demo_new_eq demo_eval empty_slot_def)
  with reservation_occupancy [OF demo_new_reachable p] show ?thesis by blast
qed

theorem batch_completes_witness:
  "\<exists>q. eq_batch q = Some 1 \<and> eq_members q = [2, 1] \<and>
     fst (eq_finish_batch 1 (((\<lambda>q. snd (eq_resolver_step 1 3 5 q)) ^^ Suc 1) q)) = Inr ()"
proof -
  define q where "q = eq_run demo_pf 0 [Op_ack 1 (token_of demo_popped 2) Committed,
      Op_ack 1 (token_of demo_popped 1) Committed] demo_popped"
  have reach: "eq_reachable demo_pf 0 q"
    unfolding q_def by (rule eq_run_reachable) (rule demo_popped_reachable)
  have q: "eq_batch q = Some 1" "eq_cursor q = length (eq_members q)" "eq_resolver_total q = None"
      "eq_members q = [2, 1]"
    by (simp_all add: q_def demo_popped_eq demo_new_eq eq_ack_executed_def eq_validate_def token_of_def
        demo_slot_def Let_def upd_slot_def)
  have "fst (eq_finish_batch 1 (((\<lambda>q. snd (eq_resolver_step 1 3 5 q)) ^^ Suc 1) q)) = Inr ()"
    using batch_completes [OF reach q(1-3) _ _ refl, of 3 5 1] by (simp del: funpow.simps)
  with q show ?thesis by blast
qed

end
