(* ===== verification/Event_Txn.thy ===== *)
theory Event_Txn
  imports Event_Queue_Inv
begin

text \<open>
  The transactional segment of \<open>runtime/include/leanat/event_txn.hpp\<close> and
  \<open>runtime/src/event_txn.cpp\<close>: buffered cell writes, staged actions, event reservations,
  cancellations and participants, savepoints, and the validate-then-apply commit.

  Cells, queues and participants are objects that the C++ code refers to by address. The
  \<open>world\<close> holds them: cells and event queues by address, and a component-specific part
  that the participants read and change. \<open>PreparedParticipant\<close> is an abstract class; its
  virtual methods are the fields of \<open>participant_ops\<close>, an argument of the operations that
  call them. \<open>std::terminate\<close> is the result \<open>None\<close> of \<open>et_commit\<close>.
\<close>

section \<open>Data\<close>

record versioned_cell =
  vc_value :: "value_t"
  vc_version :: u64
  vc_epoch :: u64
  vc_stable_bytes :: bool
  vc_epoch_independent :: bool

record 'x world =
  w_cells :: "nat \<Rightarrow> versioned_cell"
  w_queues :: "nat \<Rightarrow> event_queue"
  w_ext :: 'x

record segment_budget =
  sb_writes :: nat
  sb_actions :: nat
  sb_bytes :: nat
  sb_events :: nat

record committed_actions =
  ca_actions :: "send_intent list"
  ca_cursor :: nat
  ca_failed :: bool

record 'x participant_ops =
  po_reserved_bytes :: "nat \<Rightarrow> 'x world \<Rightarrow> nat"
  po_identity :: "nat \<Rightarrow> 'x world \<Rightarrow> nat option"
  po_validate :: "nat \<Rightarrow> 'x world \<Rightarrow> unit expected"
  po_validate_prepare :: "nat \<Rightarrow> 'x world \<Rightarrow> unit expected"
  po_apply :: "nat \<Rightarrow> 'x world \<Rightarrow> 'x world"
  po_discard :: "nat \<Rightarrow> 'x world \<Rightarrow> 'x world"

record txn_write =
  tw_cell :: nat
  tw_version :: u64
  tw_value :: "value_t"

record event_txn =
  et_this :: nat
  et_context :: execution_context
  et_budget :: segment_budget
  et_writes :: "txn_write list"
  et_actions :: "send_intent list"
  et_events :: "(nat \<times> event_reservation) list"
  et_participants :: "nat list"
  et_participant_bytes :: "nat list"
  et_cancels :: "(nat \<times> event_token) list"
  et_bytes :: nat
  et_closed :: bool
  et_committed :: bool

record savepoint =
  sp_owner :: "nat option"
  sp_writes :: "txn_write list"
  sp_participant_bytes :: "nat list"
  sp_bytes :: nat
  sp_actions :: nat
  sp_events :: nat
  sp_cancels :: nat
  sp_participants :: nat

abbreviation cell_of :: "'x world \<Rightarrow> nat \<Rightarrow> versioned_cell" where
  "cell_of w c \<equiv> w_cells w c"

abbreviation queue_of :: "'x world \<Rightarrow> nat \<Rightarrow> event_queue" where
  "queue_of w q \<equiv> w_queues w q"

definition set_queue :: "nat \<Rightarrow> event_queue \<Rightarrow> 'x world \<Rightarrow> 'x world" where
  "set_queue a q w = w\<lparr>w_queues := (w_queues w)(a := q)\<rparr>"

definition set_cell :: "nat \<Rightarrow> versioned_cell \<Rightarrow> 'x world \<Rightarrow> 'x world" where
  "set_cell a c w = w\<lparr>w_cells := (w_cells w)(a := c)\<rparr>"

section \<open>Reading and buffering\<close>

definition EventTxn_new :: "nat \<Rightarrow> segment_budget \<Rightarrow> execution_context \<Rightarrow> event_txn" where
  "EventTxn_new this b c = \<lparr>et_this = this, et_context = c, et_budget = b, et_writes = [],
     et_actions = [], et_events = [], et_participants = [], et_participant_bytes = [],
     et_cancels = [], et_bytes = 0, et_closed = False, et_committed = False\<rparr>"

definition cell_epoch_ok :: "versioned_cell \<Rightarrow> u64 \<Rightarrow> bool" where
  "cell_epoch_ok c epoch \<longleftrightarrow> vc_epoch_independent c \<or> vc_epoch c = epoch"

fun find_write :: "nat \<Rightarrow> txn_write list \<Rightarrow> txn_write option" where
  "find_write c [] = None"
| "find_write c (w # ws) = (if tw_cell w = c then Some w else find_write c ws)"

definition et_read :: "'x world \<Rightarrow> event_txn \<Rightarrow> nat \<Rightarrow> value_t expected" where
  "et_read w t c =
     (if et_closed t then fail InvalidState ''closed segment''
      else if \<not> cell_epoch_ok (cell_of w c) (ec_epoch (et_context t))
      then fail InvalidState ''cell epoch''
      else case find_write c (et_writes t) of
        Some wr \<Rightarrow> Inr (tw_value wr)
      | None \<Rightarrow> Inr (vc_value (cell_of w c)))"

fun same_byte_shape :: "value_t \<Rightarrow> value_t \<Rightarrow> bool" where
  "same_byte_shape (VBytes a) (VBytes b) \<longleftrightarrow> length a = length b"
| "same_byte_shape _ _ \<longleftrightarrow> False"

text \<open>The loop that computes \<open>prior\<close>: the bytes of the last write to the cell, or 0.\<close>

definition prior_bytes :: "platform \<Rightarrow> nat \<Rightarrow> txn_write list \<Rightarrow> nat" where
  "prior_bytes pf c ws =
     foldl (\<lambda>prior wr. if tw_cell wr = c then owned_value_bytes pf (tw_value wr) else prior) 0 ws"

fun replace_write :: "nat \<Rightarrow> value_t \<Rightarrow> txn_write list \<Rightarrow> txn_write list" where
  "replace_write c v [] = []"
| "replace_write c v (w # ws) =
     (if tw_cell w = c then w\<lparr>tw_value := v\<rparr> # ws else w # replace_write c v ws)"

definition et_buffer ::
  "platform \<Rightarrow> 'x world \<Rightarrow> nat \<Rightarrow> value_t \<Rightarrow> event_txn \<Rightarrow> unit expected \<times> event_txn" where
  "et_buffer pf w c v t =
     (if et_closed t then (fail InvalidState ''closed segment'', t)
      else if \<not> cell_epoch_ok (cell_of w c) (ec_epoch (et_context t))
      then (fail InvalidState ''cell epoch'', t)
      else let n = owned_value_bytes pf v; prior = prior_bytes pf c (et_writes t) in
        if n = SIZE_MAX \<or> n > sb_bytes (et_budget t) - (et_bytes t - prior)
        then (fail Capacity ''segment bytes'', t)
        else if vc_stable_bytes (cell_of w c) \<and> \<not> same_byte_shape (vc_value (cell_of w c)) v
        then (fail TypeMismatch ''stable byte cell shape'', t)
        else case find_write c (et_writes t) of
          Some wr \<Rightarrow>
            (Inr (), t\<lparr>et_writes := replace_write c v (et_writes t),
                       et_bytes := et_bytes t - owned_value_bytes pf (tw_value wr) + n\<rparr>)
        | None \<Rightarrow>
           (if length (et_writes t) = sb_writes (et_budget t)
            then (fail Capacity ''write capacity'', t)
            else (Inr (), t\<lparr>et_writes := et_writes t @
                     [\<lparr>tw_cell = c, tw_version = vc_version (cell_of w c), tw_value = v\<rparr>],
                   et_bytes := et_bytes t + n\<rparr>)))"

section \<open>Staging\<close>

definition et_remaining_bytes :: "event_txn \<Rightarrow> nat" where
  "et_remaining_bytes t = sb_bytes (et_budget t) - et_bytes t"

definition et_stage_action :: "platform \<Rightarrow> send_intent \<Rightarrow> event_txn \<Rightarrow> unit expected \<times> event_txn" where
  "et_stage_action pf a t =
     (if et_closed t then (fail InvalidState ''closed segment'', t)
      else if length (et_actions t) = sb_actions (et_budget t)
      then (fail Capacity ''action capacity'', t)
      else let payload = bounded_payload_bytes pf (si_payload a);
               metadata = sizeof_SendIntent pf - sizeof_PayloadSnapshot pf in
        if payload = SIZE_MAX \<or> metadata > SIZE_MAX - payload
        then (fail Capacity ''action byte overflow'', t)
        else let cost = payload + metadata in
          if cost = SIZE_MAX \<or> cost > sb_bytes (et_budget t) - et_bytes t
          then (fail Capacity ''action bytes'', t)
          else (Inr (), t\<lparr>et_actions := et_actions t @ [a], et_bytes := et_bytes t + cost\<rparr>))"

definition et_stage_event ::
  "platform \<Rightarrow> nat \<Rightarrow> event_draft \<Rightarrow> event_txn \<Rightarrow> 'x world \<Rightarrow>
     event_token expected \<times> event_txn \<times> 'x world" where
  "et_stage_event pf qa e t w =
     (if et_closed t then (fail InvalidState ''closed segment'', t, w)
      else if length (et_events t) = sb_events (et_budget t)
      then (fail Capacity ''event capacity'', t, w)
      else let cost = owned_value_bytes pf (ed_value e) in
        if cost = SIZE_MAX \<or> cost > sb_bytes (et_budget t) - et_bytes t
        then (fail Capacity ''event bytes'', t, w)
        else case eq_prepare pf qa e (queue_of w qa) of
          (Inl err, q') \<Rightarrow> (Inl err, t, set_queue qa q' w)
        | (Inr r, q') \<Rightarrow>
            (Inr (er_token r),
             t\<lparr>et_events := et_events t @ [(qa, r)], et_bytes := et_bytes t + cost\<rparr>,
             set_queue qa q' w))"

definition own_event :: "event_txn \<Rightarrow> nat \<Rightarrow> event_token \<Rightarrow> bool" where
  "own_event t qa h \<longleftrightarrow> (\<exists>e \<in> set (et_events t). fst e = qa \<and> er_token (snd e) = h)"

definition et_stage_cancel ::
  "'x world \<Rightarrow> nat \<Rightarrow> event_token \<Rightarrow> event_txn \<Rightarrow> unit expected \<times> event_txn" where
  "et_stage_cancel w qa h t =
     (if et_closed t then (fail InvalidState ''closed segment'', t)
      else if length (et_cancels t) = sb_events (et_budget t)
      then (fail Capacity ''cancel capacity'', t)
      else case (if own_event t qa h then Inr () else eq_validate_cancel h (queue_of w qa)) of
        Inl err \<Rightarrow> (Inl err, t)
      | Inr _ \<Rightarrow> (Inr (), t\<lparr>et_cancels := et_cancels t @ [(qa, h)]\<rparr>))"

text \<open>\<open>stage_participant\<close> takes ownership of a possibly null pointer.\<close>

definition et_stage_participant ::
  "'x participant_ops \<Rightarrow> nat option \<Rightarrow> event_txn \<Rightarrow> 'x world \<Rightarrow>
     unit expected \<times> event_txn \<times> 'x world" where
  "et_stage_participant ops po t w =
     (case po of
        None \<Rightarrow> (fail InvalidState ''invalid participant'', t, w)
      | Some p \<Rightarrow>
         (if et_closed t then (fail InvalidState ''invalid participant'', t, po_discard ops p w)
          else if length (et_participants t) = sb_writes (et_budget t)
          then (fail Capacity ''participant capacity'', t, po_discard ops p w)
          else let bytes = po_reserved_bytes ops p w in
            if bytes = SIZE_MAX \<or> bytes > et_remaining_bytes t
            then (fail Capacity ''participant bytes'', t, po_discard ops p w)
            else case po_validate_prepare ops p w of
              Inl err \<Rightarrow> (Inl err, t, po_discard ops p w)
            | Inr _ \<Rightarrow>
                (Inr (), t\<lparr>et_participants := et_participants t @ [p],
                   et_participant_bytes := et_participant_bytes t @ [bytes],
                   et_bytes := et_bytes t + bytes\<rparr>, w)))"

definition et_participant :: "'x participant_ops \<Rightarrow> 'x world \<Rightarrow> nat option \<Rightarrow> event_txn \<Rightarrow> nat option" where
  "et_participant ops w key t = find (\<lambda>p. po_identity ops p w = key) (rev (et_participants t))"

definition et_reserve_bytes :: "nat \<Rightarrow> event_txn \<Rightarrow> unit expected \<times> event_txn" where
  "et_reserve_bytes n t =
     (if et_closed t then (fail InvalidState ''closed segment'', t)
      else if n = SIZE_MAX \<or> n > et_remaining_bytes t
      then (fail Capacity ''segment byte reservation'', t)
      else (Inr (), t\<lparr>et_bytes := et_bytes t + n\<rparr>))"

text \<open>The position of a staged participant: the first that is the same object.\<close>

fun participant_index :: "nat \<Rightarrow> nat list \<Rightarrow> nat option" where
  "participant_index p [] = None"
| "participant_index p (x # xs) = (if x = p then Some 0 else map_option Suc (participant_index p xs))"

definition et_reserve_participant_growth :: "nat \<Rightarrow> nat \<Rightarrow> event_txn \<Rightarrow> unit expected \<times> event_txn" where
  "et_reserve_participant_growth p new_bytes t =
     (if et_closed t then (fail InvalidState ''closed segment'', t)
      else case participant_index p (et_participants t) of
        None \<Rightarrow> (fail InvalidArgument ''participant not staged in this segment'', t)
      | Some i \<Rightarrow>
         (let old = et_participant_bytes t ! i in
          if new_bytes = SIZE_MAX then (fail Capacity ''participant growth overflow'', t)
          else if new_bytes \<le> old then (Inr (), t)
          else let delta = new_bytes - old in
            if delta > et_remaining_bytes t then (fail Capacity ''participant growth bytes'', t)
            else (Inr (), t\<lparr>et_participant_bytes := (et_participant_bytes t)[i := new_bytes],
                    et_bytes := et_bytes t + delta\<rparr>)))"

definition et_can_cancel :: "'x world \<Rightarrow> nat \<Rightarrow> event_token \<Rightarrow> event_txn \<Rightarrow> bool expected" where
  "et_can_cancel w qa h t =
     (if et_closed t then fail InvalidState ''closed segment''
      else if (qa, h) \<in> set (et_cancels t) then Inr False
      else if own_event t qa h then Inr True
      else eq_can_cancel h (queue_of w qa))"

section \<open>Savepoints\<close>

definition et_checkpoint :: "event_txn \<Rightarrow> savepoint expected" where
  "et_checkpoint t =
     (if et_closed t then fail InvalidState ''closed segment''
      else Inr \<lparr>sp_owner = Some (et_this t), sp_writes = et_writes t,
             sp_participant_bytes = et_participant_bytes t, sp_bytes = et_bytes t,
             sp_actions = length (et_actions t), sp_events = length (et_events t),
             sp_cancels = length (et_cancels t), sp_participants = length (et_participants t)\<rparr>)"

text \<open>Destroying reservations gives their slots back.\<close>

definition destroy_events :: "(nat \<times> event_reservation) list \<Rightarrow> 'x world \<Rightarrow> 'x world" where
  "destroy_events es w = fold (\<lambda>(qa, r) w.
     case er_queue r of
       None \<Rightarrow> w
     | Some a \<Rightarrow> set_queue a (eq_abandon (er_token r) (queue_of w a)) w) es w"

definition discard_participants :: "'x participant_ops \<Rightarrow> nat list \<Rightarrow> 'x world \<Rightarrow> 'x world" where
  "discard_participants ops ps w = fold (po_discard ops) (rev ps) w"

definition et_rollback ::
  "'x participant_ops \<Rightarrow> savepoint \<Rightarrow> event_txn \<Rightarrow> 'x world \<Rightarrow>
     unit expected \<times> savepoint \<times> event_txn \<times> 'x world" where
  "et_rollback ops s t w =
     (if et_closed t \<or> sp_owner s \<noteq> Some (et_this t) \<or> sp_actions s > length (et_actions t) \<or>
         sp_events s > length (et_events t) \<or> sp_cancels s > length (et_cancels t) \<or>
         sp_participants s > length (et_participants t)
      then (fail InvalidState ''invalid savepoint'', s, t, w)
      else (Inr (), s\<lparr>sp_owner := None\<rparr>,
        t\<lparr>et_participants := take (sp_participants s) (et_participants t),
          et_participant_bytes := sp_participant_bytes s, et_writes := sp_writes s,
          et_bytes := sp_bytes s, et_actions := take (sp_actions s) (et_actions t),
          et_events := take (sp_events s) (et_events t),
          et_cancels := take (sp_cancels s) (et_cancels t)\<rparr>,
        destroy_events (drop (sp_events s) (et_events t))
          (discard_participants ops (drop (sp_participants s) (et_participants t)) w)))"

definition et_validate_effects_since ::
  "savepoint \<Rightarrow> bool \<Rightarrow> bool \<Rightarrow> bool \<Rightarrow> event_txn \<Rightarrow> unit expected" where
  "et_validate_effects_since s writes events actions t =
     (if et_closed t \<or> sp_owner s \<noteq> Some (et_this t)
      then fail InvalidState ''invalid savepoint''
      else if \<not> events \<and> (length (et_events t) \<noteq> sp_events s \<or> length (et_cancels t) \<noteq> sp_cancels s)
      then fail InvalidState ''undeclared scheduling effect''
      else if \<not> actions \<and> length (et_actions t) \<noteq> sp_actions s
      then fail InvalidState ''undeclared action effect''
      else if \<not> writes then
        (if length (et_participants t) \<noteq> sp_participants s \<or>
            length (et_writes t) \<noteq> length (sp_writes s)
         then fail InvalidState ''undeclared store effect''
         else if list_all2 (\<lambda>a b. tw_cell a = tw_cell b \<and> tw_value a = tw_value b)
                   (et_writes t) (sp_writes s)
         then Inr () else fail InvalidState ''undeclared write effect'')
      else Inr ())"

section \<open>Commit and discard\<close>

fun check_writes :: "'x world \<Rightarrow> u64 \<Rightarrow> txn_write list \<Rightarrow> unit expected" where
  "check_writes w epoch [] = Inr ()"
| "check_writes w epoch (wr # ws) =
     (let c = cell_of w (tw_cell wr) in
      if vc_version c \<noteq> tw_version wr \<or> \<not> cell_epoch_ok c epoch
      then fail InvalidState ''write version conflict''
      else if tw_version wr = UINT64_MAX then fail Overflow ''cell version exhausted''
      else if vc_stable_bytes c \<and> \<not> same_byte_shape (vc_value c) (tw_value wr)
      then fail TypeMismatch ''stable byte cell changed''
      else check_writes w epoch ws)"

fun check_events :: "'x world \<Rightarrow> (nat \<times> event_reservation) list \<Rightarrow> unit expected" where
  "check_events w [] = Inr ()"
| "check_events w ((qa, r) # es) =
     (case eq_preflight qa r (queue_of w qa) of Inl err \<Rightarrow> Inl err | Inr _ \<Rightarrow> check_events w es)"

fun check_cancels :: "'x world \<Rightarrow> event_txn \<Rightarrow> (nat \<times> event_token) list \<Rightarrow> unit expected" where
  "check_cancels w t [] = Inr ()"
| "check_cancels w t ((qa, h) # cs) =
     (case (if own_event t qa h then Inr () else eq_validate_cancel h (queue_of w qa)) of
        Inl err \<Rightarrow> Inl err
      | Inr _ \<Rightarrow> check_cancels w t cs)"

fun check_participants ::
  "'x participant_ops \<Rightarrow> 'x world \<Rightarrow> nat list \<Rightarrow> nat list \<Rightarrow> unit expected" where
  "check_participants ops w (p # ps) (b # bs) =
     (if po_reserved_bytes ops p w > b
      then fail Capacity ''participant grew beyond reservation''
      else case po_validate ops p w of
        Inl err \<Rightarrow> Inl err
      | Inr _ \<Rightarrow> check_participants ops w ps bs)"
| "check_participants ops w _ _ = Inr ()"

text \<open>
  A write into a stable cell copies the bytes in place, any other write swaps the value in;
  \<open>check_writes\<close> has made sure that the shapes agree.
\<close>

definition write_cell :: "value_t \<Rightarrow> versioned_cell \<Rightarrow> versioned_cell" where
  "write_cell v c = c\<lparr>vc_value :=
       (if vc_stable_bytes c then
          (case (vc_value c, v) of
             (VBytes a, VBytes b) \<Rightarrow> VBytes (b @ drop (length b) a)
           | _ \<Rightarrow> vc_value c)
        else v),
     vc_version := vc_version c + 1\<rparr>"

definition apply_writes :: "txn_write list \<Rightarrow> 'x world \<Rightarrow> 'x world" where
  "apply_writes ws w =
     fold (\<lambda>wr w. set_cell (tw_cell wr) (write_cell (tw_value wr) (cell_of w (tw_cell wr))) w) ws w"

fun enqueue_events ::
  "(nat \<times> event_reservation) list \<Rightarrow> 'x world \<Rightarrow>
     ((nat \<times> event_reservation) list \<times> 'x world) option" where
  "enqueue_events [] w = Some ([], w)"
| "enqueue_events ((qa, r) # es) w =
     (case eq_enqueue_reservation qa r (queue_of w qa) of
        (Inl _, _, _) \<Rightarrow> None
      | (Inr _, r', q') \<Rightarrow>
         (case enqueue_events es (set_queue qa q' w) of
            None \<Rightarrow> None
          | Some (es', w') \<Rightarrow> Some ((qa, r') # es', w')))"

fun cancel_events :: "(nat \<times> event_token) list \<Rightarrow> 'x world \<Rightarrow> 'x world option" where
  "cancel_events [] w = Some w"
| "cancel_events ((qa, h) # cs) w =
     (case eq_cancel h (queue_of w qa) of
        (Inl _, _) \<Rightarrow> None
      | (Inr _, q') \<Rightarrow> cancel_events cs (set_queue qa q' w))"

text \<open>The checks of \<open>commit\<close>, in order, before anything changes.\<close>

definition commit_check ::
  "'x participant_ops \<Rightarrow> u64 \<Rightarrow> event_txn \<Rightarrow> 'x world \<Rightarrow> unit expected" where
  "commit_check ops epoch t w =
     (if et_closed t then fail InvalidState ''closed segment''
      else if epoch \<noteq> ec_epoch (et_context t) then fail InvalidState ''epoch changed''
      else case check_writes w epoch (et_writes t) of
        Inl err \<Rightarrow> Inl err
      | Inr _ \<Rightarrow>
         (case check_events w (et_events t) of
            Inl err \<Rightarrow> Inl err
          | Inr _ \<Rightarrow>
             (case check_cancels w t (et_cancels t) of
                Inl err \<Rightarrow> Inl err
              | Inr _ \<Rightarrow> check_participants ops w (et_participants t) (et_participant_bytes t))))"

definition et_commit ::
  "'x participant_ops \<Rightarrow> u64 \<Rightarrow> event_txn \<Rightarrow> 'x world \<Rightarrow>
     (committed_actions expected \<times> event_txn \<times> 'x world) option" where
  "et_commit ops epoch t w =
     (case commit_check ops epoch t w of
        Inl err \<Rightarrow> Some (Inl err, t, w)
      | Inr _ \<Rightarrow>
         (case enqueue_events (et_events t) (apply_writes (et_writes t) w) of
            None \<Rightarrow> None
          | Some (es, w1) \<Rightarrow>
             (case cancel_events (et_cancels t) w1 of
                None \<Rightarrow> None
              | Some w2 \<Rightarrow>
                  Some (Inr \<lparr>ca_actions = et_actions t, ca_cursor = 0, ca_failed = False\<rparr>,
                    t\<lparr>et_actions := [], et_events := es, et_closed := True, et_committed := True\<rparr>,
                    fold (po_apply ops) (et_participants t) w2))))"

definition et_discard ::
  "'x participant_ops \<Rightarrow> event_txn \<Rightarrow> 'x world \<Rightarrow> unit expected \<times> event_txn \<times> 'x world" where
  "et_discard ops t w =
     (if et_committed t then (fail InvalidState ''already committed'', t, w)
      else if et_closed t then (Inr (), t, w)
      else (Inr (), t\<lparr>et_participants := [], et_participant_bytes := [], et_events := [],
              et_writes := [], et_actions := [], et_cancels := [], et_closed := True\<rparr>,
            destroy_events (et_events t) (discard_participants ops (et_participants t) w)))"

text \<open>The destructor: participants of an open segment are discarded, then the members die.\<close>

definition EventTxn_destroy :: "'x participant_ops \<Rightarrow> event_txn \<Rightarrow> 'x world \<Rightarrow> 'x world" where
  "EventTxn_destroy ops t w =
     destroy_events (et_events t)
       (if et_closed t then w else discard_participants ops (et_participants t) w)"

text \<open>
  \<open>publish_actions\<close> hands the actions from the cursor on to the host callback, which is an
  argument with its own state; it stops at the first failure.
\<close>

fun publish_loop ::
  "(send_intent \<Rightarrow> 'h \<Rightarrow> unit expected \<times> 'h) \<Rightarrow> send_intent list \<Rightarrow> nat \<Rightarrow> 'h \<Rightarrow>
     unit expected \<times> nat \<times> 'h" where
  "publish_loop host [] cursor h = (Inr (), cursor, h)"
| "publish_loop host (a # as) cursor h =
     (case host a h of
        (Inl err, h') \<Rightarrow> (Inl err, cursor, h')
      | (Inr _, h') \<Rightarrow> publish_loop host as (Suc cursor) h')"

definition publish_actions ::
  "(send_intent \<Rightarrow> 'h \<Rightarrow> unit expected \<times> 'h) \<Rightarrow> committed_actions \<Rightarrow> 'h \<Rightarrow>
     unit expected \<times> committed_actions \<times> 'h" where
  "publish_actions host a h =
     (if ca_failed a then (fail ExternalFailure ''publication stopped'', a, h)
      else case publish_loop host (drop (ca_cursor a) (ca_actions a)) (ca_cursor a) h of
        (res, cursor, h') \<Rightarrow> (res, a\<lparr>ca_cursor := cursor, ca_failed := isl res\<rparr>, h'))"

end
