(* ===== verification/Event_Txn_Inv.thy ===== *)
theory Event_Txn_Inv
  imports Event_Txn Event_Queue_Props
begin

text \<open>
  The invariant of an event transaction: the byte account never exceeds the budget and
  covers the buffered writes, each cell is written at most once, and the staged reservations
  are distinct and still reserved in their queues. The invariant holds in every state that a
  program can reach by staging, taking savepoints and rolling back, while other code works
  on the same queues and cells.
\<close>

section \<open>Reserved slots\<close>

definition reserved_ok :: "event_queue \<Rightarrow> handle \<Rightarrow> bool" where
  "reserved_ok q h \<longleftrightarrow> (\<exists>i. eq_validate q h = Inr i \<and> sl_state (eq_slots q ! i) = Slot_Reserved)"

lemma reserved_okD:
  assumes "reserved_ok q h"
  shows "eq_validate q h = Inr (unat (h_slot h))" "unat (h_slot h) < length (eq_slots q)"
    "sl_state (eq_slots q ! unat (h_slot h)) = Slot_Reserved"
    "sl_generation (eq_slots q ! unat (h_slot h)) = h_generation h"
  using assms eq_validate_InrD [of q h] by (auto simp: reserved_ok_def)

lemma validate_cong:
  assumes "eq_domain q' = eq_domain q" and "eq_store q' = eq_store q"
    and "length (eq_slots q') = length (eq_slots q)"
    and "eq_slots q' ! unat (h_slot h) = eq_slots q ! unat (h_slot h)"
  shows "eq_validate q' h = eq_validate q h"
  using assms by (simp add: eq_validate_def)

lemma reserved_ok_cong:
  assumes "reserved_ok q h" and "gen_le q q'"
    and "eq_slots q' ! unat (h_slot h) = eq_slots q ! unat (h_slot h)"
  shows "reserved_ok q' h"
proof -
  have "eq_validate q' h = eq_validate q h"
    using assms(2,3) by (intro validate_cong) (auto simp: gen_le_def)
  with assms(1,3) reserved_okD(1) [OF assms(1)] show ?thesis by (simp add: reserved_ok_def)
qed

text \<open>Two valid handles of one slot are equal.\<close>

lemma valid_handles_inject:
  assumes "eq_validate q h = Inr i" and "eq_validate q h' = Inr i"
  shows "h = h'"
proof -
  note v = eq_validate_InrD [OF assms(1)] and v' = eq_validate_InrD [OF assms(2)]
  have "h_slot h = h_slot h'" using v(2) v'(2) by (metis word_unat_eq_iff)
  then show ?thesis using v v' by (cases h; cases h') auto
qed

lemma reserved_ok_slot_neq:
  assumes "reserved_ok q h" and "reserved_ok q h'" and "h \<noteq> h'"
  shows "unat (h_slot h) \<noteq> unat (h_slot h')"
  using assms valid_handles_inject [of q h "unat (h_slot h)" h'] reserved_okD(1) by metis

lemma abandon_reserved_ok:
  assumes "reserved_ok q h" and "reserved_ok q h'" and "h \<noteq> h'"
  shows "reserved_ok (eq_abandon h' q) h"
  using assms(1) gen_le_abandon
proof (rule reserved_ok_cong)
  show "eq_slots (eq_abandon h' q) ! unat (h_slot h) = eq_slots q ! unat (h_slot h)"
    using reserved_ok_slot_neq [OF assms] by (auto simp: eq_abandon_def Let_def upd_slot_def)
qed

lemma prepare_reserved_ok:
  assumes "reserved_ok q h"
  shows "reserved_ok (snd (eq_prepare pf this e q)) h"
  using assms gen_le_prepare
  by (rule reserved_ok_cong) (use reserved_okD [OF assms] in \<open>auto intro!: prepare_nonfree\<close>)

text \<open>A token that \<open>prepare\<close> issues is reserved and differs from every reserved token.\<close>

lemma prepare_fresh:
  assumes inv: "eq_inv q" and p: "eq_prepare pf this e q = (Inr r, q')"
  shows "er_queue r = Some this" "reserved_ok q' (er_token r)"
    "reserved_ok q h \<Longrightarrow> h \<noteq> er_token r"
proof -
  from eq_prepare_Inr [OF p] obtain k ss where
    k: "k < length (eq_slots q)" "sl_state (eq_slots q ! k) = Slot_Free"
      "sl_generation (eq_slots q ! k) \<noteq> UINT64_MAX" "length ss = length (eq_slots q)"
    and q': "q' = q\<lparr>eq_slots := ss[k := \<lparr>sl_state = Slot_Reserved,
        sl_generation = sl_generation (eq_slots q ! k) + 1,
        sl_event = set_sequence (eq_next_sequence q) e, sl_cancelled = False\<rparr>],
      eq_next_sequence := eq_next_sequence q + 1\<rparr>"
    and r: "r = \<lparr>er_queue = Some this, er_token = token_of q' k\<rparr>"
    by metis
  have slot: "unat (of_nat k :: u32) = k"
    using inv k(1) by (simp add: unat_of_nat eq_inv_def size_inv_def)
  show "er_queue r = Some this" by (simp add: r)
  show "reserved_ok q' (er_token r)"
    using k slot by (auto simp: reserved_ok_def eq_validate_def r token_of_def q' word_plus_one_nonzero)
  show "h \<noteq> er_token r" if "reserved_ok q h"
    using reserved_okD(3) [OF that] k(2) slot by (auto simp: r token_of_def)
qed

section \<open>The invariant\<close>

definition writes_cost :: "platform \<Rightarrow> txn_write list \<Rightarrow> nat" where
  "writes_cost pf ws = sum_list (map (\<lambda>wr. owned_value_bytes pf (tw_value wr)) ws)"

text \<open>The part that does not look at the world; savepoints keep it too.\<close>

definition account_ok :: "platform \<Rightarrow> segment_budget \<Rightarrow> txn_write list \<Rightarrow> nat \<Rightarrow> bool" where
  "account_ok pf b ws n \<longleftrightarrow> n \<le> sb_bytes b \<and> writes_cost pf ws \<le> n \<and>
     distinct (map tw_cell ws) \<and> length ws \<le> sb_writes b"

definition sizes_ok :: "event_txn \<Rightarrow> bool" where
  "sizes_ok t \<longleftrightarrow> length (et_actions t) \<le> sb_actions (et_budget t) \<and>
     length (et_events t) \<le> sb_events (et_budget t) \<and>
     length (et_cancels t) \<le> sb_events (et_budget t) \<and>
     length (et_participants t) \<le> sb_writes (et_budget t) \<and>
     length (et_participant_bytes t) = length (et_participants t)"

definition events_ok :: "'x world \<Rightarrow> (nat \<times> event_reservation) list \<Rightarrow> bool" where
  "events_ok w es \<longleftrightarrow> distinct (map (\<lambda>e. (fst e, er_token (snd e))) es) \<and>
     (\<forall>e \<in> set es. er_queue (snd e) = Some (fst e) \<and>
        reserved_ok (queue_of w (fst e)) (er_token (snd e)))"

definition txn_inv :: "platform \<Rightarrow> 'x world \<Rightarrow> event_txn \<Rightarrow> bool" where
  "txn_inv pf w t \<longleftrightarrow> account_ok pf (et_budget t) (et_writes t) (et_bytes t) \<and> sizes_ok t \<and>
     events_ok w (et_events t) \<and> \<not> et_closed t"

definition savepoint_ok :: "platform \<Rightarrow> event_txn \<Rightarrow> savepoint \<Rightarrow> bool" where
  "savepoint_ok pf t s \<longleftrightarrow> account_ok pf (et_budget t) (sp_writes s) (sp_bytes s) \<and>
     length (sp_participant_bytes s) = sp_participants s"

definition queues_inv :: "'x world \<Rightarrow> bool" where
  "queues_inv w \<longleftrightarrow> (\<forall>a. eq_inv (queue_of w a))"

lemma set_queue_simps [simp]:
  "queue_of (set_queue a q w) b = (if b = a then q else queue_of w b)"
  "cell_of (set_queue a q w) c = cell_of w c" "w_ext (set_queue a q w) = w_ext w"
  by (simp_all add: set_queue_def)

lemma set_cell_simps [simp]:
  "cell_of (set_cell a c w) b = (if b = a then c else cell_of w b)"
  "queue_of (set_cell a c w) q = queue_of w q" "w_ext (set_cell a c w) = w_ext w"
  by (simp_all add: set_cell_def)

section \<open>Buffered writes\<close>

lemma find_write_iff:
  "find_write c ws = None \<longleftrightarrow> c \<notin> tw_cell ` set ws"
  by (induction ws) auto

lemma find_write_cost:
  "find_write c ws = Some wr \<Longrightarrow> owned_value_bytes pf (tw_value wr) \<le> writes_cost pf ws"
  by (induction ws) (auto simp: writes_cost_def split: if_splits)

lemma prior_bytes_append:
  "prior_bytes pf c (ws @ [wr]) =
     (if tw_cell wr = c then owned_value_bytes pf (tw_value wr) else prior_bytes pf c ws)"
  by (simp add: prior_bytes_def)

lemma find_write_append:
  "find_write c (xs @ ys) = (case find_write c xs of None \<Rightarrow> find_write c ys | Some wr \<Rightarrow> Some wr)"
  by (induction xs) auto

lemma prior_bytes_eq:
  "distinct (map tw_cell ws) \<Longrightarrow> prior_bytes pf c ws =
     (case find_write c ws of None \<Rightarrow> 0 | Some wr \<Rightarrow> owned_value_bytes pf (tw_value wr))"
proof (induction ws rule: rev_induct)
  case (snoc wr ws)
  show ?case
  proof (cases "tw_cell wr = c")
    case True
    with snoc.prems have "find_write c ws = None" by (auto simp: find_write_iff)
    with True show ?thesis by (simp add: prior_bytes_append find_write_append)
  next
    case False
    with snoc show ?thesis by (simp add: prior_bytes_append find_write_append split: option.splits)
  qed
qed (simp add: prior_bytes_def)

lemma replace_write_cells [simp]:
  "map tw_cell (replace_write c v ws) = map tw_cell ws" "length (replace_write c v ws) = length ws"
  by (induction ws) auto

lemma replace_write_cost:
  "find_write c ws = Some wr \<Longrightarrow> writes_cost pf (replace_write c v ws) + owned_value_bytes pf (tw_value wr) =
     writes_cost pf ws + owned_value_bytes pf v"
  by (induction ws) (auto simp: writes_cost_def split: if_splits)

lemma find_replace_write:
  "find_write c' (replace_write c v ws) =
     (if c' = c then map_option (\<lambda>wr. wr\<lparr>tw_value := v\<rparr>) (find_write c ws) else find_write c' ws)"
  by (induction ws) auto

text \<open>A successful \<open>buffer\<close>: an existing write is replaced, or a new one appended.\<close>

lemma et_buffer_Inr:
  assumes "et_buffer pf w c v t = (Inr u, t')"
  shows "\<not> et_closed t \<and> cell_epoch_ok (cell_of w c) (ec_epoch (et_context t)) \<and>
    owned_value_bytes pf v \<le> sb_bytes (et_budget t) - (et_bytes t - prior_bytes pf c (et_writes t)) \<and>
    ((\<exists>wr. find_write c (et_writes t) = Some wr \<and>
        t' = t\<lparr>et_writes := replace_write c v (et_writes t),
               et_bytes := et_bytes t - owned_value_bytes pf (tw_value wr) + owned_value_bytes pf v\<rparr>) \<or>
     find_write c (et_writes t) = None \<and> length (et_writes t) \<noteq> sb_writes (et_budget t) \<and>
     t' = t\<lparr>et_writes := et_writes t @
              [\<lparr>tw_cell = c, tw_version = vc_version (cell_of w c), tw_value = v\<rparr>],
            et_bytes := et_bytes t + owned_value_bytes pf v\<rparr>)"
  using assms by (auto simp: et_buffer_def Let_def split: if_splits option.splits)

lemma et_buffer_Inl:
  "et_buffer pf w c v t = (Inl e, t') \<Longrightarrow> t' = t"
  by (auto simp: et_buffer_def Let_def split: if_splits option.splits)

lemma et_buffer_account:
  assumes "et_buffer pf w c v t = (Inr u, t')"
    and acc: "account_ok pf (et_budget t) (et_writes t) (et_bytes t)"
  shows "account_ok pf (et_budget t') (et_writes t') (et_bytes t')"
proof -
  note f = et_buffer_Inr [OF assms(1)]
  have prior: "prior_bytes pf c (et_writes t) =
      (case find_write c (et_writes t) of None \<Rightarrow> 0 | Some wr \<Rightarrow> owned_value_bytes pf (tw_value wr))"
    using acc by (intro prior_bytes_eq) (simp add: account_ok_def)
  show ?thesis
  proof (cases "find_write c (et_writes t)")
    case None
    then show ?thesis
      using f acc prior find_write_iff [of c "et_writes t"]
      by (auto simp: account_ok_def writes_cost_def)
  next
    case (Some wr)
    then show ?thesis
      using f acc prior find_write_cost [OF Some, of pf] replace_write_cost [OF Some, of pf v]
      by (auto simp: account_ok_def)
  qed
qed

lemma et_buffer_frame:
  "et_buffer pf w c v t = (res, t') \<Longrightarrow> et_budget t' = et_budget t \<and> et_events t' = et_events t \<and>
     et_actions t' = et_actions t \<and> et_cancels t' = et_cancels t \<and> et_participants t' = et_participants t \<and>
     et_participant_bytes t' = et_participant_bytes t \<and> et_closed t' = et_closed t \<and>
     et_context t' = et_context t \<and> et_this t' = et_this t \<and> et_committed t' = et_committed t"
  by (auto simp: et_buffer_def Let_def split: if_splits option.splits)

section \<open>Reachable transactions\<close>

text \<open>
  The contract of a participant that the transaction relies on: giving up a participant
  releases what it prepared for itself and touches neither the cells nor the event queues.
\<close>

locale participants =
  fixes ops :: "'x participant_ops"
  assumes discard_queues: "w_queues (po_discard ops p w) = w_queues w"
    and discard_cells: "w_cells (po_discard ops p w) = w_cells w"
begin

lemma discard_participants_frame:
  "w_queues (discard_participants ops ps w) = w_queues w"
  "w_cells (discard_participants ops ps w) = w_cells w"
proof -
  have "w_queues (fold (po_discard ops) xs w) = w_queues w \<and> w_cells (fold (po_discard ops) xs w) = w_cells w"
    for xs by (induction xs arbitrary: w) (simp_all add: discard_queues discard_cells)
  then show "w_queues (discard_participants ops ps w) = w_queues w"
    "w_cells (discard_participants ops ps w) = w_cells w"
    by (simp_all add: discard_participants_def)
qed

end

text \<open>
  What other code may do to a queue while the transaction is open: any operation, except
  using up or giving back a reservation that the transaction owns.
\<close>

definition foreign_op :: "nat \<Rightarrow> event_txn \<Rightarrow> eq_op \<Rightarrow> bool" where
  "foreign_op a t op \<longleftrightarrow>
     (case op of
        Op_enqueue_reservation r \<Rightarrow> \<not> own_event t a (er_token r)
      | Op_abandon h \<Rightarrow> \<forall>e \<in> set (et_events t). fst e = a \<longrightarrow> h_slot (er_token (snd e)) \<noteq> h_slot h
      | Op_retarget r e \<Rightarrow> \<not> own_event t a (er_token r)
      | _ \<Rightarrow> True)"

inductive txn_reachable ::
  "platform \<Rightarrow> 'x participant_ops \<Rightarrow> 'x world \<Rightarrow> event_txn \<Rightarrow> savepoint set \<Rightarrow> bool"
  for pf ops where
  new: "queues_inv w \<Longrightarrow> txn_reachable pf ops w (EventTxn_new this b c) {}"
| buffer: "txn_reachable pf ops w t ss \<Longrightarrow> et_buffer pf w c v t = (res, t') \<Longrightarrow>
    txn_reachable pf ops w t' ss"
| action: "txn_reachable pf ops w t ss \<Longrightarrow> et_stage_action pf a t = (res, t') \<Longrightarrow>
    txn_reachable pf ops w t' ss"
| event: "txn_reachable pf ops w t ss \<Longrightarrow> et_stage_event pf qa e t w = (res', t', w') \<Longrightarrow>
    txn_reachable pf ops w' t' ss"
| cancel: "txn_reachable pf ops w t ss \<Longrightarrow> et_stage_cancel w qa h t = (res, t') \<Longrightarrow>
    txn_reachable pf ops w t' ss"
| participant: "txn_reachable pf ops w t ss \<Longrightarrow> et_stage_participant ops po t w = (res, t', w') \<Longrightarrow>
    txn_reachable pf ops w' t' ss"
| reserve: "txn_reachable pf ops w t ss \<Longrightarrow> et_reserve_bytes n t = (res, t') \<Longrightarrow>
    txn_reachable pf ops w t' ss"
| growth: "txn_reachable pf ops w t ss \<Longrightarrow> et_reserve_participant_growth p n t = (res, t') \<Longrightarrow>
    txn_reachable pf ops w t' ss"
| checkpoint: "txn_reachable pf ops w t ss \<Longrightarrow> et_checkpoint t = Inr s \<Longrightarrow>
    txn_reachable pf ops w t (insert s ss)"
| rollback: "txn_reachable pf ops w t ss \<Longrightarrow> s \<in> ss \<Longrightarrow> et_rollback ops s t w = (res, s', t', w') \<Longrightarrow>
    txn_reachable pf ops w' t' ss"
| queue: "txn_reachable pf ops w t ss \<Longrightarrow> foreign_op a t op \<Longrightarrow>
    txn_reachable pf ops (set_queue a (eq_apply pf a op (queue_of w a)) w) t ss"
| other: "txn_reachable pf ops w t ss \<Longrightarrow> w_queues w' = w_queues w \<Longrightarrow> txn_reachable pf ops w' t ss"

text \<open>How each staging operation changes the transaction when it succeeds.\<close>

lemma et_stage_action_cases:
  "et_stage_action pf a t = (res, t') \<Longrightarrow> t' = t \<or>
     (\<exists>cost. \<not> et_closed t \<and> length (et_actions t) \<noteq> sb_actions (et_budget t) \<and> cost \<le> et_remaining_bytes t \<and>
        t' = t\<lparr>et_actions := et_actions t @ [a], et_bytes := et_bytes t + cost\<rparr>)"
  unfolding et_stage_action_def et_remaining_bytes_def Let_def
  by (simp add: not_less split: if_splits) blast

lemma et_stage_event_cases:
  "et_stage_event pf qa e t w = (res, t', w') \<Longrightarrow>
     t' = t \<and> (w' = w \<or> w' = set_queue qa (snd (eq_prepare pf qa e (queue_of w qa))) w) \<or>
     (\<exists>r q'. eq_prepare pf qa e (queue_of w qa) = (Inr r, q') \<and> \<not> et_closed t \<and>
        res = Inr (er_token r) \<and> length (et_events t) \<noteq> sb_events (et_budget t) \<and>
        owned_value_bytes pf (ed_value e) \<le> et_remaining_bytes t \<and> w' = set_queue qa q' w \<and>
        t' = t\<lparr>et_events := et_events t @ [(qa, r)],
               et_bytes := et_bytes t + owned_value_bytes pf (ed_value e)\<rparr>)"
  by (auto simp: et_stage_event_def et_remaining_bytes_def Let_def split: if_splits prod.splits sum.splits)

lemma et_stage_cancel_cases:
  "et_stage_cancel w qa h t = (res, t') \<Longrightarrow> t' = t \<or>
     length (et_cancels t) \<noteq> sb_events (et_budget t) \<and> t' = t\<lparr>et_cancels := et_cancels t @ [(qa, h)]\<rparr>"
  by (auto simp: et_stage_cancel_def split: if_splits sum.splits)

lemma et_stage_participant_cases:
  "et_stage_participant ops po t w = (res, t', w') \<Longrightarrow>
     t' = t \<and> (w' = w \<or> (\<exists>p. w' = po_discard ops p w)) \<or>
     (\<exists>p. w' = w \<and> length (et_participants t) \<noteq> sb_writes (et_budget t) \<and>
        po_reserved_bytes ops p w \<le> et_remaining_bytes t \<and>
        t' = t\<lparr>et_participants := et_participants t @ [p],
               et_participant_bytes := et_participant_bytes t @ [po_reserved_bytes ops p w],
               et_bytes := et_bytes t + po_reserved_bytes ops p w\<rparr>)"
  unfolding et_stage_participant_def Let_def
  by (simp add: not_less split: if_splits option.splits sum.splits) blast+

lemma et_reserve_bytes_cases:
  "et_reserve_bytes n t = (res, t') \<Longrightarrow> t' = t \<or> n \<le> et_remaining_bytes t \<and> t' = t\<lparr>et_bytes := et_bytes t + n\<rparr>"
  by (auto simp: et_reserve_bytes_def split: if_splits)

lemma et_growth_cases:
  "et_reserve_participant_growth p n t = (res, t') \<Longrightarrow> t' = t \<or>
     (\<exists>i. n - et_participant_bytes t ! i \<le> et_remaining_bytes t \<and>
        t' = t\<lparr>et_participant_bytes := (et_participant_bytes t)[i := n],
               et_bytes := et_bytes t + (n - et_participant_bytes t ! i)\<rparr>)"
proof (cases "participant_index p (et_participants t)")
  case (Some i)
  moreover assume "et_reserve_participant_growth p n t = (res, t')"
  ultimately show ?thesis
    by (auto simp: et_reserve_participant_growth_def Let_def not_less intro!: exI [of _ i] split: if_splits)
qed (auto simp: et_reserve_participant_growth_def split: if_splits)

lemmas txn_cases = et_stage_action_cases et_stage_cancel_cases et_reserve_bytes_cases et_growth_cases

lemma account_grow:
  "account_ok pf b ws n \<Longrightarrow> d \<le> sb_bytes b - n \<Longrightarrow> account_ok pf b ws (n + d)"
  by (auto simp: account_ok_def)

section \<open>Reservations survive foreign operations\<close>

lemma collect_reserved:
  assumes "i < length (eq_slots q)" and "sl_state (eq_slots q ! i) = Slot_Reserved"
  shows "eq_slots (snd (eq_collect_stale budget q)) ! i = eq_slots q ! i"
proof -
  have one: "eq_slots (fst (collect_one p)) ! i = eq_slots (fst p) ! i"
    if "sl_state (eq_slots (fst p) ! i) = Slot_Reserved" for p
    using that by (auto simp: collect_one_def Let_def upd_slot_def nth_update_total split: prod.splits)
  have "eq_slots (fst ((collect_one ^^ n) (q, 0))) ! i = eq_slots q ! i" for n
    by (induction n) (simp_all add: one assms)
  then show ?thesis by (simp add: eq_collect_stale_def split: prod.splits) (metis fst_conv)
qed

lemma enqueue_reserved:
  assumes r: "reserved_ok q h" and inv: "eq_inv q"
  shows "reserved_ok (snd (eq_enqueue pf this e q)) h"
proof -
  obtain res q1 where 1: "eq_prepare pf this e q = (res, q1)" by fastforce
  have r1: "reserved_ok q1 h" using prepare_reserved_ok [OF r, of pf this e] by (simp add: 1)
  show ?thesis
  proof (cases res)
    case (Inr x)
    have f: "er_queue x = Some this" "reserved_ok q1 (er_token x)" "h \<noteq> er_token x"
      using prepare_fresh [OF inv, of pf this e x q1] r by (auto simp: 1 Inr)
    have ne: "unat (h_slot h) \<noteq> unat (h_slot (er_token x))"
      using r1 f(2,3) by (rule reserved_ok_slot_neq)
    obtain res2 r' q2 where 2: "eq_enqueue_reservation this x q1 = (res2, r', q2)" by (metis prod_cases3)
    have tok: "er_token r' = er_token x" and q2: "q2 = q1 \<or> q2 = upd_slot (unat (h_slot (er_token x))) (\<lambda>s. s\<lparr>sl_state := Slot_Queued\<rparr>) q1"
      using 2 reserved_okD(1) [OF f(2)] by (auto simp: eq_enqueue_reservation_def Let_def split: if_splits)
    have "eq_slots (snd (eq_enqueue pf this e q)) ! unat (h_slot h) = eq_slots q1 ! unat (h_slot h)"
      using ne q2 by (auto simp: eq_enqueue_def 1 2 Inr reservation_destroy_def tok eq_abandon_def Let_def upd_slot_def)
    moreover have "gen_le q1 (snd (eq_enqueue pf this e q))"
      using gen_le_enqueue_reservation [of q1 this x] gen_le_abandon [of q2]
      by (auto simp: eq_enqueue_def 1 2 Inr reservation_destroy_def intro: gen_le_trans)
    ultimately show ?thesis using r1 by (intro reserved_ok_cong [OF r1])
  qed (simp add: eq_enqueue_def 1 r1)
qed

definition spares :: "handle \<Rightarrow> eq_op \<Rightarrow> bool" where
  "spares h op \<longleftrightarrow>
     (case op of
        Op_enqueue_reservation r \<Rightarrow> er_token r \<noteq> h
      | Op_abandon h' \<Rightarrow> h_slot h' \<noteq> h_slot h
      | Op_retarget r e \<Rightarrow> er_token r \<noteq> h
      | _ \<Rightarrow> True)"

lemma validate_other_slot:
  assumes "reserved_ok q h" and "eq_validate q h' = Inr i" and "h' \<noteq> h"
  shows "i \<noteq> unat (h_slot h)"
  using assms valid_handles_inject [of q h' i h] reserved_okD(1) by metis

lemma reserved_apply_slot:
  assumes inv: "eq_inv q" and r: "reserved_ok q h" and op: "spares h op" "\<not> (\<exists>e. op = Op_enqueue e)"
  shows "eq_slots (eq_apply pf this op q) ! unat (h_slot h) = eq_slots q ! unat (h_slot h)"
proof -
  note h = reserved_okD [OF r]
  have mem: "unat (h_slot h) \<notin> set (eq_members q)"
    using inv h by (auto simp: eq_inv_def members_inv_def in_flight_def)
  show ?thesis
  proof (cases op)
    case (Op_prepare e)
    then show ?thesis using h by (simp add: prepare_nonfree)
  next
    case (Op_enqueue_reservation x)
    then show ?thesis using op(1) validate_other_slot [OF r, of "er_token x"]
      by (auto simp: spares_def eq_enqueue_reservation_def Let_def upd_slot_def nth_update_total split: sum.splits)
  next
    case (Op_abandon h')
    then show ?thesis using op(1)
      by (auto simp: spares_def eq_abandon_def Let_def upd_slot_def nth_update_total word_unat_eq_iff)
  next
    case (Op_retarget x e)
    then show ?thesis using op(1) validate_other_slot [OF r, of "er_token x"] eq_preflight_InrD(2) [of this x q]
      by (auto simp: spares_def eq_retarget_def Let_def upd_slot_def nth_update_total split: sum.splits)
  next
    case (Op_cancel h')
    then show ?thesis using h
      by (auto simp: eq_cancel_def Let_def upd_slot_def nth_update_total split: sum.splits)
  next
    case (Op_pop_batch now n)
    then show ?thesis using h
      by (auto simp: eq_pop_batch_def Let_def open_batch_nth in_batch_def split: option.splits)
  next
    case (Op_ack b h' d)
    moreover have "eq_members q ! eq_cursor q \<in> set (eq_members q)"
      if "eq_batch q = Some b" "eq_cursor q \<noteq> length (eq_members q)"
      using inv that by (auto simp: eq_inv_def batch_inv_def)
    ultimately show ?thesis using mem
      by (auto simp: eq_ack_executed_def upd_slot_def nth_update_total split: sum.splits)
  next
    case (Op_finish b)
    moreover have "\<forall>m \<in> set (eq_members q). m < length (eq_slots q)"
      using inv by (simp add: eq_inv_def members_inv_def)
    ultimately show ?thesis using mem h by (simp add: eq_finish_batch_def free_slots_nth)
  qed (use op h in \<open>simp_all add: collect_reserved eq_resolver_step_def Let_def\<close>)
qed

lemma reserved_apply:
  assumes "eq_inv q" and "reserved_ok q h" and "spares h op"
  shows "reserved_ok (eq_apply pf this op q) h"
proof (cases "\<exists>e. op = Op_enqueue e")
  case True
  with assms show ?thesis by (auto intro: enqueue_reserved)
next
  case False
  with assms show ?thesis by (intro reserved_ok_cong [OF assms(2) gen_le_apply] reserved_apply_slot)
qed

section \<open>Preservation\<close>

lemma events_ok_queue:
  assumes "events_ok w es"
    and "\<And>e. e \<in> set es \<Longrightarrow> fst e = a \<Longrightarrow> reserved_ok (queue_of w a) (er_token (snd e)) \<Longrightarrow>
      reserved_ok q (er_token (snd e))"
  shows "events_ok (set_queue a q w) es"
  using assms unfolding events_ok_def by auto

lemma events_ok_cong: "w_queues w' = w_queues w \<Longrightarrow> events_ok w' es = events_ok w es"
  by (simp add: events_ok_def)

lemma events_ok_stage:
  assumes ok: "events_ok w es" and inv: "queues_inv w"
    and p: "eq_prepare pf qa e (queue_of w qa) = (Inr r, q')"
  shows "events_ok (set_queue qa q' w) (es @ [(qa, r)])"
proof -
  have q: "eq_inv (queue_of w qa)" using inv by (simp add: queues_inv_def)
  note fresh = prepare_fresh [OF q p]
  have "events_ok (set_queue qa q' w) es"
    using ok prepare_reserved_ok [of "queue_of w qa" _ pf qa e] by (intro events_ok_queue) (auto simp: p)
  moreover have "(qa, er_token r) \<notin> set (map (\<lambda>e. (fst e, er_token (snd e))) es)"
    using ok fresh(3) unfolding events_ok_def by fastforce
  ultimately show ?thesis using fresh(1,2) by (auto simp: events_ok_def)
qed

lemma events_ok_destroy:
  "events_ok w (es1 @ es2) \<Longrightarrow> events_ok (destroy_events es2 w) es1"
proof (induction es2 arbitrary: w)
  case (Cons e es2)
  obtain qa r where e: "e = (qa, r)" by fastforce
  let ?w = "set_queue qa (eq_abandon (er_token r) (queue_of w qa)) w"
  have q: "er_queue r = Some qa" "reserved_ok (queue_of w qa) (er_token r)"
    and rest: "events_ok w (es1 @ es2)"
    and ne: "\<And>x. x \<in> set (es1 @ es2) \<Longrightarrow> fst x = qa \<Longrightarrow> er_token (snd x) \<noteq> er_token r"
    using Cons.prems by (auto simp: events_ok_def e image_iff)
  have "events_ok ?w (es1 @ es2)"
    using rest ne q(2) by (intro events_ok_queue) (auto intro: abandon_reserved_ok)
  from Cons.IH [OF this] show ?case by (simp add: destroy_events_def e q(1))
qed (simp add: destroy_events_def)

lemma queues_inv_set: "queues_inv w \<Longrightarrow> eq_inv q \<Longrightarrow> queues_inv (set_queue a q w)"
  by (simp add: queues_inv_def)

lemma queues_inv_destroy: "queues_inv w \<Longrightarrow> queues_inv (destroy_events es w)"
proof (induction es arbitrary: w)
  case (Cons e es)
  have "queues_inv (case er_queue (snd e) of None \<Rightarrow> w | Some a \<Rightarrow> set_queue a (eq_abandon (er_token (snd e)) (queue_of w a)) w)"
    using Cons.prems by (auto simp: queues_inv_def eq_abandon_inv split: option.splits)
  from Cons.IH [OF this] show ?case by (simp add: destroy_events_def case_prod_beta)
qed (simp add: destroy_events_def)

context participants
begin

lemma rollback_inv:
  assumes inv: "txn_inv pf w t" "queues_inv w" and s: "savepoint_ok pf t s"
    and rb: "et_rollback ops s t w = (res, s', t', w')"
  shows "txn_inv pf w' t' \<and> queues_inv w' \<and> et_budget t' = et_budget t"
proof (cases "w' = w \<and> t' = t")
  case True
  with inv show ?thesis by simp
next
  case False
  let ?w = "discard_participants ops (drop (sp_participants s) (et_participants t)) w"
  from False rb have w': "w' = destroy_events (drop (sp_events s) (et_events t)) ?w"
    and t': "et_writes t' = sp_writes s" "et_bytes t' = sp_bytes s" "et_budget t' = et_budget t"
      "et_events t' = take (sp_events s) (et_events t)" "et_closed t' = et_closed t"
      "et_participants t' = take (sp_participants s) (et_participants t)"
      "et_participant_bytes t' = sp_participant_bytes s" "et_actions t' = take (sp_actions s) (et_actions t)"
      "et_cancels t' = take (sp_cancels s) (et_cancels t)"
    and le: "sp_participants s \<le> length (et_participants t)"
    by (auto simp: et_rollback_def split: if_splits)
  have frame: "w_queues ?w = w_queues w" by (rule discard_participants_frame)
  have "events_ok ?w (take (sp_events s) (et_events t) @ drop (sp_events s) (et_events t))"
    using inv(1) by (simp add: txn_inv_def events_ok_cong [OF frame])
  then have "events_ok w' (et_events t')" unfolding w' t' by (rule events_ok_destroy)
  moreover have "queues_inv w'"
    unfolding w' using inv(2) frame by (intro queues_inv_destroy) (simp add: queues_inv_def)
  ultimately show ?thesis
    using inv(1) s le by (auto simp: txn_inv_def savepoint_ok_def sizes_ok_def t')
qed

text \<open>One case per way to reach a state.\<close>

lemma reachable_inv:
  "txn_reachable pf ops w t ss \<Longrightarrow>
     txn_inv pf w t \<and> queues_inv w \<and> (\<forall>s \<in> ss. savepoint_ok pf t s)"
proof (induction rule: txn_reachable.induct)
  case (new w this b c)
  then show ?case
    by (simp add: txn_inv_def EventTxn_new_def account_ok_def writes_cost_def sizes_ok_def events_ok_def)
next
  case (buffer w t ss c v res t')
  show ?case
  proof (cases res)
    case (Inl e)
    with buffer et_buffer_Inl [of pf w c v t e t'] show ?thesis by simp
  next
    case (Inr u)
    with buffer et_buffer_frame [of pf w c v t res t'] et_buffer_account [of pf w c v t u t'] show ?thesis
      by (auto simp: txn_inv_def sizes_ok_def savepoint_ok_def)
  qed
next
  case (action w t ss a res t')
  with et_stage_action_cases [of pf a t res t'] show ?case
    by (auto simp: txn_inv_def sizes_ok_def savepoint_ok_def et_remaining_bytes_def intro: account_grow)
next
  case (event w t ss qa e res t' w')
  have prep: "events_ok (set_queue qa (snd (eq_prepare pf qa e (queue_of w qa))) w) (et_events t)"
    using event.IH by (auto simp: txn_inv_def intro!: events_ok_queue prepare_reserved_ok)
  have qi: "queues_inv (set_queue qa (snd (eq_prepare pf qa e (queue_of w qa))) w)"
    using event.IH by (auto simp: queues_inv_def intro: eq_prepare_inv)
  show ?case
    using et_stage_event_cases [OF event.hyps(2)] event.IH prep qi
    by (auto simp: txn_inv_def sizes_ok_def savepoint_ok_def et_remaining_bytes_def intro: account_grow events_ok_stage)
next
  case (cancel w t ss qa h res t')
  with et_stage_cancel_cases [of w qa h t res t'] show ?case
    by (auto simp: txn_inv_def sizes_ok_def savepoint_ok_def)
next
  case (participant w t ss po res t' w')
  have frame: "events_ok (po_discard ops p w) es = events_ok w es"
    "queues_inv (po_discard ops p w) = queues_inv w" for p es
    by (simp_all add: events_ok_def queues_inv_def discard_queues)
  show ?case
    using et_stage_participant_cases [OF participant.hyps(2)] participant.IH
    by (auto simp: txn_inv_def sizes_ok_def savepoint_ok_def et_remaining_bytes_def frame intro: account_grow)
next
  case (reserve w t ss n res t')
  with et_reserve_bytes_cases [of n t res t'] show ?case
    by (auto simp: txn_inv_def sizes_ok_def savepoint_ok_def et_remaining_bytes_def intro: account_grow)
next
  case (growth w t ss p n res t')
  then have t: "txn_inv pf w t" "queues_inv w" "\<forall>s \<in> ss. savepoint_ok pf t s" by auto
  from et_growth_cases [OF growth.hyps(2)] show ?case
  proof
    assume "t' = t" with t show ?thesis by simp
  next
    assume "\<exists>i. n - et_participant_bytes t ! i \<le> et_remaining_bytes t \<and>
      t' = t\<lparr>et_participant_bytes := (et_participant_bytes t)[i := n],
             et_bytes := et_bytes t + (n - et_participant_bytes t ! i)\<rparr>"
    then obtain d where "d \<le> et_remaining_bytes t" and t': "et_bytes t' = et_bytes t + d"
      "et_budget t' = et_budget t" "et_writes t' = et_writes t" "et_events t' = et_events t"
      "et_closed t' = et_closed t" "sizes_ok t' = sizes_ok t"
      by (auto simp: sizes_ok_def)
    with t show ?thesis
      by (auto simp: txn_inv_def savepoint_ok_def et_remaining_bytes_def intro: account_grow)
  qed
next
  case (checkpoint w t ss s)
  then show ?case
    by (auto simp: et_checkpoint_def txn_inv_def savepoint_ok_def sizes_ok_def split: if_splits)
next
  case (rollback w t ss s res s' t' w')
  with rollback_inv [of pf w t s res s' t' w'] show ?case by (auto simp: savepoint_ok_def)
next
  case (queue w t ss a op)
  have "reserved_ok (eq_apply pf a op (queue_of w a)) (er_token (snd e))"
    if "e \<in> set (et_events t)" "fst e = a" "reserved_ok (queue_of w a) (er_token (snd e))" for e
    using that queue by (intro reserved_apply)
      (auto simp: queues_inv_def spares_def foreign_op_def own_event_def split: eq_op.splits)
  then show ?case
    using queue.IH by (auto simp: txn_inv_def queues_inv_def intro: events_ok_queue eq_apply_inv)
next
  case (other w t ss w')
  then show ?case by (simp add: txn_inv_def queues_inv_def events_ok_def)
qed

end

end
