(* ===== verification/Event_Txn_Commit.thy ===== *)
theory Event_Txn_Commit
  imports Event_Txn_Inv
begin

text \<open>
  The validate-then-apply commit of \<open>EventTxn\<close>: what the checks establish, that the second
  phase then cannot fail, and what it does to cells and queues.
\<close>

section \<open>Cells\<close>

lemma apply_writes_queues [simp]:
  "w_queues (apply_writes ws w) = w_queues w" "w_ext (apply_writes ws w) = w_ext w"
  unfolding apply_writes_def by (induction ws arbitrary: w) (simp_all add: set_cell_def)

lemma apply_writes_cell:
  "distinct (map tw_cell ws) \<Longrightarrow> cell_of (apply_writes ws w) c =
     (case find_write c ws of None \<Rightarrow> cell_of w c | Some wr \<Rightarrow> write_cell (tw_value wr) (cell_of w c))"
  unfolding apply_writes_def
proof (induction ws arbitrary: w)
  case (Cons wr ws)
  have "find_write c ws = None" if "tw_cell wr = c"
    using Cons.prems that by (auto simp: find_write_iff)
  with Cons show ?case by (auto split: option.splits)
qed simp

lemma check_writes_Inr:
  "check_writes w epoch ws = Inr () \<Longrightarrow> find_write c ws = Some wr \<Longrightarrow>
     vc_version (cell_of w c) = tw_version wr \<and> tw_version wr \<noteq> UINT64_MAX \<and>
     cell_epoch_ok (cell_of w c) epoch \<and>
     (vc_stable_bytes (cell_of w c) \<longrightarrow> same_byte_shape (vc_value (cell_of w c)) (tw_value wr))"
  by (induction ws) (auto simp: Let_def split: if_splits)

lemma write_cell_value:
  "(vc_stable_bytes c \<longrightarrow> same_byte_shape (vc_value c) v) \<Longrightarrow>
     write_cell v c = c\<lparr>vc_value := v, vc_version := vc_version c + 1\<rparr>"
  by (cases "(vc_value c, v)" rule: same_byte_shape.cases) (auto simp: write_cell_def)

section \<open>Queues\<close>

text \<open>The state change of the staged reservations of queue \<open>a\<close>.\<close>

definition own_slots :: "(nat \<times> event_reservation) list \<Rightarrow> nat \<Rightarrow> nat set" where
  "own_slots es a = {unat (h_slot (er_token (snd e))) | e. e \<in> set es \<and> fst e = a}"

definition mark_queued :: "(nat \<times> event_reservation) list \<Rightarrow> nat \<Rightarrow> event_queue \<Rightarrow> event_queue" where
  "mark_queued es a q = q\<lparr>eq_slots := map (\<lambda>i. if i \<in> own_slots es a
      then (eq_slots q ! i)\<lparr>sl_state := Slot_Queued\<rparr> else eq_slots q ! i) [0..<length (eq_slots q)]\<rparr>"

lemma own_slots_Cons:
  "own_slots ((qa, r) # es) a =
     (if qa = a then insert (unat (h_slot (er_token r))) (own_slots es a) else own_slots es a)"
  by (auto simp: own_slots_def)

lemma mark_queued_Nil [simp]: "mark_queued [] a q = q"
  by (simp add: mark_queued_def own_slots_def map_nth)

lemma mark_queued_Cons:
  "mark_queued ((qa, r) # es) a q =
     mark_queued es a (if qa = a
       then upd_slot (unat (h_slot (er_token r))) (\<lambda>s. s\<lparr>sl_state := Slot_Queued\<rparr>) q else q)"
  by (auto simp: mark_queued_def own_slots_Cons upd_slot_def nth_update_total intro!: nth_equalityI)

lemma mark_queued_fields [simp]:
  "eq_domain (mark_queued es a q) = eq_domain q" "eq_store (mark_queued es a q) = eq_store q"
  "length (eq_slots (mark_queued es a q)) = length (eq_slots q)"
  by (simp_all add: mark_queued_def)

lemma mark_queued_nth:
  "i < length (eq_slots q) \<Longrightarrow> eq_slots (mark_queued es a q) ! i =
     (if i \<in> own_slots es a then (eq_slots q ! i)\<lparr>sl_state := Slot_Queued\<rparr> else eq_slots q ! i)"
  by (simp add: mark_queued_def)

lemma enqueue_preflighted:
  assumes "eq_preflight a r q = Inr u"
  shows "eq_enqueue_reservation a r q = (Inr (er_token r), r\<lparr>er_queue := None\<rparr>,
     upd_slot (unat (h_slot (er_token r))) (\<lambda>s. s\<lparr>sl_state := Slot_Queued\<rparr>) q)"
  using eq_preflight_InrD [OF assms] by (simp add: eq_enqueue_reservation_def Let_def)

lemma preflight_upd_other:
  assumes "unat (h_slot (er_token r)) \<noteq> i"
  shows "eq_preflight a r (upd_slot i f q) = eq_preflight a r q"
proof -
  have "eq_validate (upd_slot i f q) (er_token r) = eq_validate q (er_token r)"
    using assms by (intro validate_cong) (simp_all add: upd_slot_def)
  moreover have "eq_validate q (er_token r) = Inr j \<Longrightarrow> j = unat (h_slot (er_token r))" for j
    using eq_validate_InrD(2) [of q "er_token r" j] by simp
  moreover have "eq_slots (upd_slot i f q) ! unat (h_slot (er_token r)) = eq_slots q ! unat (h_slot (er_token r))"
    "behind_frontier (upd_slot i f q) k = behind_frontier q k" for k
    using assms by (simp_all add: upd_slot_def behind_frontier_def)
  ultimately show ?thesis
    by (cases "eq_validate q (er_token r)") (simp_all add: eq_preflight_def Let_def)
qed

lemma check_events_set:
  "check_events w es = Inr () \<longleftrightarrow> (\<forall>e \<in> set es. eq_preflight (fst e) (snd e) (queue_of w (fst e)) = Inr ())"
  by (induction es) (auto split: sum.splits)

text \<open>All staged events are enqueued once they passed the check.\<close>

lemma enqueue_events_ok:
  "events_ok w es \<Longrightarrow> check_events w es = Inr () \<Longrightarrow>
   \<exists>es' w'. enqueue_events es w = Some (es', w') \<and> w_cells w' = w_cells w \<and> w_ext w' = w_ext w \<and>
     (\<forall>a. queue_of w' a = mark_queued es a (queue_of w a)) \<and>
     es' = map (\<lambda>(qa, r). (qa, r\<lparr>er_queue := None\<rparr>)) es"
proof (induction es arbitrary: w)
  case (Cons e es)
  obtain qa r where e: "e = (qa, r)" by fastforce
  let ?s = "unat (h_slot (er_token r))"
  let ?q = "upd_slot ?s (\<lambda>s. s\<lparr>sl_state := Slot_Queued\<rparr>) (queue_of w qa)"
  let ?w = "set_queue qa ?q w"
  have pre: "eq_preflight qa r (queue_of w qa) = Inr ()"
    and rest: "check_events w es = Inr ()" and ok: "events_ok w es"
    and r: "reserved_ok (queue_of w qa) (er_token r)"
    using Cons.prems by (auto simp: e events_ok_def split: sum.splits)
  have ne: "unat (h_slot (er_token (snd x))) \<noteq> ?s" if "x \<in> set es" "fst x = qa" for x
    using that Cons.prems(1) r by (intro reserved_ok_slot_neq) (auto simp: events_ok_def e image_iff)
  have "reserved_ok ?q (er_token (snd x))" if "x \<in> set es" "fst x = qa"
      "reserved_ok (queue_of w qa) (er_token (snd x))" for x
    using that(3) by (rule reserved_ok_cong) (use ne [OF that(1,2)] in \<open>auto simp: upd_slot_def gen_le_upd_slot [unfolded upd_slot_def] nth_update_total gen_le_def\<close>)
  then have "events_ok ?w es" using ok by (intro events_ok_queue)
  moreover have "check_events ?w es = Inr ()"
    using rest ne by (auto simp: check_events_set preflight_upd_other)
  ultimately obtain es' w' where "enqueue_events es ?w = Some (es', w')" "w_cells w' = w_cells ?w" "w_ext w' = w_ext ?w"
      "\<forall>a. queue_of w' a = mark_queued es a (queue_of ?w a)"
      "es' = map (\<lambda>(qa, r). (qa, r\<lparr>er_queue := None\<rparr>)) es"
    using Cons.IH by blast
  then show ?case
    by (simp add: e enqueue_preflighted [OF pre] mark_queued_Cons set_queue_def)
qed simp

section \<open>Cancellations\<close>

definition cancellable :: "event_queue \<Rightarrow> handle \<Rightarrow> bool" where
  "cancellable q h \<longleftrightarrow> eq_validate_cancel h q = Inr ()"

lemma cancellable_iff:
  "cancellable q h \<longleftrightarrow> eq_validate q h = Inr (unat (h_slot h)) \<and>
     sl_state (eq_slots q ! unat (h_slot h)) \<noteq> Slot_Reserved"
  using eq_validate_InrD(2) [of q h]
  by (fastforce simp: cancellable_def eq_validate_cancel_def split: sum.splits)

text \<open>Events that a cancellation still has an effect on.\<close>

definition cancel_effective :: "event_slot \<Rightarrow> bool" where
  "cancel_effective s \<longleftrightarrow> sl_state s \<noteq> Slot_Done \<and> sl_state s \<noteq> Slot_Free"

definition cancel_slot :: "bool \<Rightarrow> event_slot \<Rightarrow> event_slot" where
  "cancel_slot b s = (if b \<and> cancel_effective s then s\<lparr>sl_cancelled := True\<rparr> else s)"

lemma cancel_slot_simps [simp]:
  "sl_state (cancel_slot b s) = sl_state s" "sl_generation (cancel_slot b s) = sl_generation s"
  "sl_event (cancel_slot b s) = sl_event s" "cancel_slot False s = s"
  "cancel_slot b (cancel_slot b' s) = cancel_slot (b' \<or> b) s"
  by (auto simp: cancel_slot_def cancel_effective_def)

definition mark_cancelled :: "(nat \<times> event_token) list \<Rightarrow> nat \<Rightarrow> event_queue \<Rightarrow> event_queue" where
  "mark_cancelled cs a q = q\<lparr>eq_slots := map (\<lambda>i. cancel_slot
      (\<exists>c \<in> set cs. fst c = a \<and> unat (h_slot (snd c)) = i) (eq_slots q ! i)) [0..<length (eq_slots q)]\<rparr>"

lemma mark_cancelled_Nil [simp]: "mark_cancelled [] a q = q"
  by (simp add: mark_cancelled_def map_nth)

lemma eq_cancel_ok:
  assumes "cancellable q h"
  shows "\<exists>b. eq_cancel h q = (Inr b, mark_cancelled [(a, h)] a q)"
proof -
  let ?i = "unat (h_slot h)"
  have v: "eq_validate q h = Inr ?i" "sl_state (eq_slots q ! ?i) \<noteq> Slot_Reserved"
    using assms by (auto simp: cancellable_iff)
  have idem: "sl_cancelled s \<Longrightarrow> s\<lparr>sl_cancelled := True\<rparr> = s" for s :: event_slot by simp
  have "mark_cancelled [(a, h)] a q = (if sl_cancelled (eq_slots q ! ?i) \<or> \<not> cancel_effective (eq_slots q ! ?i) then q
      else upd_slot ?i (\<lambda>s. s\<lparr>sl_cancelled := True\<rparr>) q)"
    by (auto simp: mark_cancelled_def cancel_slot_def upd_slot_def nth_update_total idem intro!: event_queue.equality nth_equalityI)
  with v show ?thesis by (auto simp: eq_cancel_def cancel_effective_def Let_def)
qed

lemma mark_cancelled_Cons:
  "mark_cancelled ((a, h) # cs) b q = mark_cancelled cs b (if b = a then mark_cancelled [(a, h)] a q else q)"
  by (auto simp: mark_cancelled_def disj_commute intro!: event_queue.equality nth_equalityI)

lemma cancellable_mark [simp]: "cancellable (mark_cancelled cs a q) h = cancellable q h"
proof -
  have "eq_validate (mark_cancelled cs a q) h = eq_validate q h"
    by (cases "unat (h_slot h) < length (eq_slots q)") (simp_all add: eq_validate_def mark_cancelled_def)
  moreover have "unat (h_slot h) < length (eq_slots q)" if "eq_validate q h = Inr (unat (h_slot h))"
    using that by (rule eq_validate_InrD(1))
  ultimately show ?thesis
    by (cases "unat (h_slot h) < length (eq_slots q)") (auto simp: cancellable_iff mark_cancelled_def)
qed

lemma cancel_events_ok:
  "\<forall>c \<in> set cs. cancellable (queue_of w (fst c)) (snd c) \<Longrightarrow>
   \<exists>w'. cancel_events cs w = Some w' \<and> w_cells w' = w_cells w \<and> w_ext w' = w_ext w \<and>
     (\<forall>a. queue_of w' a = mark_cancelled cs a (queue_of w a))"
proof (induction cs arbitrary: w)
  case (Cons c cs)
  obtain a h where c: "c = (a, h)" by fastforce
  let ?w = "set_queue a (mark_cancelled [(a, h)] a (queue_of w a)) w"
  obtain b where "eq_cancel h (queue_of w a) = (Inr b, mark_cancelled [(a, h)] a (queue_of w a))"
    using Cons.prems eq_cancel_ok [of "queue_of w a" h a] by (auto simp: c)
  moreover have "\<forall>c \<in> set cs. cancellable (queue_of ?w (fst c)) (snd c)" using Cons.prems by (auto simp: c)
  then obtain w' where "cancel_events cs ?w = Some w'" "w_cells w' = w_cells ?w" "w_ext w' = w_ext ?w"
      "\<forall>a. queue_of w' a = mark_cancelled cs a (queue_of ?w a)"
    using Cons.IH by blast
  ultimately show ?case
    by (auto simp: c mark_cancelled_Cons [of a h cs] set_queue_def)
qed simp

lemma check_cancels_set:
  "check_cancels w t cs = Inr () \<longleftrightarrow>
     (\<forall>c \<in> set cs. own_event t (fst c) (snd c) \<or> cancellable (queue_of w (fst c)) (snd c))"
  by (induction cs) (auto simp: cancellable_def split: sum.splits if_splits)

lemma mark_queued_validate:
  assumes "eq_validate q h = Inr (unat (h_slot h))"
  shows "eq_validate (mark_queued es a q) h = eq_validate q h"
proof -
  note v = eq_validate_InrD [OF assms]
  let ?s = "eq_slots (mark_queued es a q) ! unat (h_slot h)"
  have "sl_generation ?s = sl_generation (eq_slots q ! unat (h_slot h))" "sl_event ?s = sl_event (eq_slots q ! unat (h_slot h))"
    "sl_state ?s = sl_state (eq_slots q ! unat (h_slot h)) \<or> sl_state ?s = Slot_Queued"
    using v by (simp_all add: mark_queued_nth)
  with assms v show ?thesis by (auto simp: eq_validate_def Let_def split: if_splits)
qed

text \<open>After the staged events are queued, every checked cancellation is possible.\<close>

lemma cancellable_after_enqueue:
  assumes ok: "events_ok w (et_events t)"
    and c: "own_event t a h \<or> cancellable (queue_of w a) h"
  shows "cancellable (mark_queued (et_events t) a (queue_of w a)) h"
proof -
  let ?q = "queue_of w a" and ?i = "unat (h_slot h)"
  have own: "reserved_ok ?q h" if "own_event t a h"
    using that ok by (auto simp: own_event_def events_ok_def)
  have v: "eq_validate ?q h = Inr ?i" using c own reserved_okD(1) [of ?q h] by (auto simp: cancellable_iff)
  then have i: "?i < length (eq_slots ?q)" by (rule eq_validate_InrD(1))
  have "eq_validate (mark_queued (et_events t) a ?q) h = eq_validate ?q h"
    using mark_queued_validate v by blast
  moreover have "sl_state (eq_slots ?q ! ?i) \<noteq> Slot_Reserved" if "?i \<notin> own_slots (et_events t) a"
    using c that by (auto simp: cancellable_iff own_slots_def own_event_def)
  ultimately show ?thesis using v i by (simp add: cancellable_iff mark_queued_nth)
qed

section \<open>Commit\<close>

lemma commit_check_Inr:
  assumes "commit_check ops epoch t w = Inr u"
  shows "\<not> et_closed t \<and> epoch = ec_epoch (et_context t) \<and> check_writes w epoch (et_writes t) = Inr () \<and>
    check_events w (et_events t) = Inr () \<and> check_cancels w t (et_cancels t) = Inr ()"
  using assms by (auto simp: commit_check_def split: if_splits sum.splits)

text \<open>The world after a successful commit, before the participants are applied.\<close>

definition committed_world :: "event_txn \<Rightarrow> 'x world \<Rightarrow> 'x world" where
  "committed_world t w = w\<lparr>w_cells := w_cells (apply_writes (et_writes t) w),
     w_queues := (\<lambda>a. mark_cancelled (et_cancels t) a (mark_queued (et_events t) a (queue_of w a)))\<rparr>"

lemma et_commit_Inr:
  assumes inv: "txn_inv pf w t" and chk: "commit_check ops epoch t w = Inr u"
  shows "et_commit ops epoch t w =
    Some (Inr \<lparr>ca_actions = et_actions t, ca_cursor = 0, ca_failed = False\<rparr>,
      t\<lparr>et_actions := [], et_events := map (\<lambda>(qa, r). (qa, r\<lparr>er_queue := None\<rparr>)) (et_events t),
        et_closed := True, et_committed := True\<rparr>,
      fold (po_apply ops) (et_participants t) (committed_world t w))"
proof -
  let ?w = "apply_writes (et_writes t) w"
  note c = commit_check_Inr [OF chk]
  have ok: "events_ok w (et_events t)" using inv by (simp add: txn_inv_def)
  then have "events_ok ?w (et_events t)" "check_events ?w (et_events t) = Inr ()"
    using c by (simp_all add: events_ok_def check_events_set)
  from enqueue_events_ok [OF this] obtain w1 where
    1: "enqueue_events (et_events t) ?w = Some (map (\<lambda>(qa, r). (qa, r\<lparr>er_queue := None\<rparr>)) (et_events t), w1)"
      "w_cells w1 = w_cells ?w" "w_ext w1 = w_ext w"
      "\<forall>a. queue_of w1 a = mark_queued (et_events t) a (queue_of w a)"
    by auto
  have "\<forall>c \<in> set (et_cancels t). cancellable (queue_of w1 (fst c)) (snd c)"
    using c cancellable_after_enqueue [OF ok] by (auto simp: 1(4) check_cancels_set)
  from cancel_events_ok [OF this] obtain w2 where
    2: "cancel_events (et_cancels t) w1 = Some w2" "w_cells w2 = w_cells ?w" "w_ext w2 = w_ext w"
      "\<forall>a. queue_of w2 a = mark_cancelled (et_cancels t) a (mark_queued (et_events t) a (queue_of w a))"
    using 1(2-4) by auto
  have "w2 = committed_world t w"
    using 2 by (auto simp: committed_world_def intro!: world.equality)
  then show ?thesis by (simp add: et_commit_def chk 1(1) 2(1))
qed

end
