(* ===== verification/Event_Txn_Props.thy ===== *)
theory Event_Txn_Props
  imports Event_Txn_Commit
begin

text \<open>
  The properties of \<open>EventTxn\<close>: isolation and reading back of buffered writes, the byte
  budget, savepoints, the all-or-nothing commit, and publication in order.
\<close>

section \<open>Staging runs\<close>

text \<open>The operations that add to an open segment, and sequences of them.\<close>

datatype txn_op =
    Stage_buffer nat "value_t" | Stage_action send_intent | Stage_event nat event_draft
  | Stage_cancel nat event_token | Stage_participant "nat option" | Stage_reserve nat
  | Stage_growth nat nat

fun txn_apply ::
  "platform \<Rightarrow> 'x participant_ops \<Rightarrow> txn_op \<Rightarrow> event_txn \<times> 'x world \<Rightarrow> event_txn \<times> 'x world" where
  "txn_apply pf ops (Stage_buffer c v) (t, w) = (snd (et_buffer pf w c v t), w)"
| "txn_apply pf ops (Stage_action a) (t, w) = (snd (et_stage_action pf a t), w)"
| "txn_apply pf ops (Stage_event qa e) (t, w) = snd (et_stage_event pf qa e t w)"
| "txn_apply pf ops (Stage_cancel qa h) (t, w) = (snd (et_stage_cancel w qa h t), w)"
| "txn_apply pf ops (Stage_participant p) (t, w) = snd (et_stage_participant ops p t w)"
| "txn_apply pf ops (Stage_reserve n) (t, w) = (snd (et_reserve_bytes n t), w)"
| "txn_apply pf ops (Stage_growth p n) (t, w) = (snd (et_reserve_participant_growth p n t), w)"

definition txn_run ::
  "platform \<Rightarrow> 'x participant_ops \<Rightarrow> txn_op list \<Rightarrow> event_txn \<times> 'x world \<Rightarrow> event_txn \<times> 'x world" where
  "txn_run pf ops xs tw = fold (txn_apply pf ops) xs tw"

lemma txn_apply_reachable:
  assumes "txn_reachable pf ops w t ss" and "txn_apply pf ops x (t, w) = (t', w')"
  shows "txn_reachable pf ops w' t' ss"
proof (cases x)
  case (Stage_event qa e)
  then have "et_stage_event pf qa e t w = (fst (et_stage_event pf qa e t w), t', w')"
    using assms(2) by (simp add: prod_eq_iff)
  with assms(1) show ?thesis by (rule txn_reachable.event)
next
  case (Stage_participant p)
  then have "et_stage_participant ops p t w = (fst (et_stage_participant ops p t w), t', w')"
    using assms(2) by (simp add: prod_eq_iff)
  with assms(1) show ?thesis by (rule txn_reachable.participant)
qed (use assms txn_reachable.buffer [OF assms(1) prod.collapse [symmetric]]
    txn_reachable.action [OF assms(1) prod.collapse [symmetric]]
    txn_reachable.cancel [OF assms(1) prod.collapse [symmetric]]
    txn_reachable.reserve [OF assms(1) prod.collapse [symmetric]]
    txn_reachable.growth [OF assms(1) prod.collapse [symmetric]] in auto)

lemma txn_run_reachable:
  "txn_reachable pf ops w t ss \<Longrightarrow> txn_run pf ops xs (t, w) = (t', w') \<Longrightarrow>
     txn_reachable pf ops w' t' ss"
proof (induction xs arbitrary: t w)
  case (Cons x xs)
  obtain t1 w1 where "txn_apply pf ops x (t, w) = (t1, w1)" by fastforce
  with Cons txn_apply_reachable [OF Cons.prems(1) this] show ?case by (simp add: txn_run_def)
qed (simp add: txn_run_def)

text \<open>Staging only appends to the lists that a savepoint truncates again.\<close>

definition extends :: "event_txn \<Rightarrow> event_txn \<Rightarrow> (nat \<times> event_reservation) list \<Rightarrow> bool" where
  "extends t t' es \<longleftrightarrow> et_this t' = et_this t \<and> et_context t' = et_context t \<and>
     et_budget t' = et_budget t \<and> et_closed t' = et_closed t \<and> et_committed t' = et_committed t \<and>
     (\<exists>as. et_actions t' = et_actions t @ as) \<and> et_events t' = et_events t @ es \<and>
     (\<exists>cs. et_cancels t' = et_cancels t @ cs) \<and> (\<exists>ps. et_participants t' = et_participants t @ ps)"

lemma extends_refl [simp]: "extends t t []"
  by (simp add: extends_def)

lemma extends_trans: "extends t t' es \<Longrightarrow> extends t' t'' es' \<Longrightarrow> extends t t'' (es @ es')"
  by (auto simp: extends_def)

text \<open>
  How a world may differ from an earlier one when the events \<open>es\<close> were staged in between:
  occupied slots are the same, and the slots of \<open>es\<close> are the only ones newly occupied.
\<close>

definition slots_grew :: "'x world \<Rightarrow> 'x world \<Rightarrow> (nat \<times> event_reservation) list \<Rightarrow> bool" where
  "slots_grew w w' es \<longleftrightarrow> w_cells w' = w_cells w \<and>
     (\<forall>a. length (eq_slots (queue_of w' a)) = length (eq_slots (queue_of w a)) \<and>
       (\<forall>i < length (eq_slots (queue_of w a)).
         (if live (eq_slots (queue_of w a) ! i)
          then eq_slots (queue_of w' a) ! i = eq_slots (queue_of w a) ! i \<and> i \<notin> own_slots es a
          else live (eq_slots (queue_of w' a) ! i) \<longrightarrow> i \<in> own_slots es a)))"

lemma own_slots_append [simp]: "own_slots (es @ es') a = own_slots es a \<union> own_slots es' a"
  by (auto simp: own_slots_def)

lemma slots_grew_refl [simp]: "slots_grew w w []"
  by (simp add: slots_grew_def own_slots_def)

lemma slots_grew_Nil:
  assumes "slots_grew w w' []" and "i < length (eq_slots (queue_of w a))"
  shows "if live (eq_slots (queue_of w a) ! i) then eq_slots (queue_of w' a) ! i = eq_slots (queue_of w a) ! i
     else \<not> live (eq_slots (queue_of w' a) ! i)"
proof -
  have "if live (eq_slots (queue_of w a) ! i)
      then eq_slots (queue_of w' a) ! i = eq_slots (queue_of w a) ! i \<and> i \<notin> own_slots [] a
      else live (eq_slots (queue_of w' a) ! i) \<longrightarrow> i \<in> own_slots [] a"
    using assms by (simp add: slots_grew_def)
  then show ?thesis by (auto simp: own_slots_def split: if_splits)
qed

lemma slots_grew_trans:
  assumes "slots_grew w w' es" and "slots_grew w' w'' es'"
  shows "slots_grew w w'' (es @ es')"
  unfolding slots_grew_def
proof (intro conjI allI impI)
  fix a i assume i: "i < length (eq_slots (queue_of w a))"
  have 1: "if live (eq_slots (queue_of w a) ! i)
      then eq_slots (queue_of w' a) ! i = eq_slots (queue_of w a) ! i \<and> i \<notin> own_slots es a
      else live (eq_slots (queue_of w' a) ! i) \<longrightarrow> i \<in> own_slots es a"
    using assms(1) i by (simp add: slots_grew_def)
  have 2: "if live (eq_slots (queue_of w' a) ! i)
      then eq_slots (queue_of w'' a) ! i = eq_slots (queue_of w' a) ! i \<and> i \<notin> own_slots es' a
      else live (eq_slots (queue_of w'' a) ! i) \<longrightarrow> i \<in> own_slots es' a"
    using assms i by (simp add: slots_grew_def)
  show "if live (eq_slots (queue_of w a) ! i)
      then eq_slots (queue_of w'' a) ! i = eq_slots (queue_of w a) ! i \<and> i \<notin> own_slots (es @ es') a
      else live (eq_slots (queue_of w'' a) ! i) \<longrightarrow> i \<in> own_slots (es @ es') a"
    using 1 2 by (auto split: if_splits)
qed (use assms in \<open>simp_all add: slots_grew_def\<close>)

lemma prepare_grew:
  assumes inv: "eq_inv q" and p: "eq_prepare pf this e q = (res, q')" and i: "i < length (eq_slots q)"
  shows "length (eq_slots q') = length (eq_slots q) \<and>
    (live (eq_slots q ! i) \<longrightarrow>
       eq_slots q' ! i = eq_slots q ! i \<and> (\<forall>r. res = Inr r \<longrightarrow> i \<noteq> unat (h_slot (er_token r)))) \<and>
    (live (eq_slots q' ! i) \<longrightarrow> live (eq_slots q ! i) \<or> (\<exists>r. res = Inr r \<and> i = unat (h_slot (er_token r))))"
proof (cases res)
  case (Inl err)
  with eq_prepare_Inl [OF p [unfolded Inl]] prepare_scan_nth [OF i] show ?thesis
    by (auto simp: live_def)
next
  case (Inr r)
  from eq_prepare_Inr [OF p [unfolded Inr]] obtain k ss where
    k: "prepare_scan (eq_slots q) = (Some k, ss)" "k < length (eq_slots q)"
      "sl_state (eq_slots q ! k) = Slot_Free" "length ss = length (eq_slots q)"
    and q': "q' = q\<lparr>eq_slots := ss[k := \<lparr>sl_state = Slot_Reserved,
        sl_generation = sl_generation (eq_slots q ! k) + 1,
        sl_event = set_sequence (eq_next_sequence q) e, sl_cancelled = False\<rparr>],
      eq_next_sequence := eq_next_sequence q + 1\<rparr>"
    and tok: "er_token r = token_of q' k"
    by (metis event_reservation.select_convs(2))
  have "unat (of_nat k :: u32) = k"
    using inv k(2) by (simp add: unat_of_nat eq_inv_def size_inv_def)
  with k prepare_scan_nth [OF i] show ?thesis
    by (auto simp: Inr q' tok token_of_def live_def nth_list_update)
qed

lemma set_queue_grew:
  assumes inv: "eq_inv (queue_of w qa)" and p: "eq_prepare pf qa e (queue_of w qa) = (p, q')"
  shows "slots_grew w (set_queue qa q' w) (case p of Inl _ \<Rightarrow> [] | Inr r \<Rightarrow> [(qa, r)])"
  unfolding slots_grew_def
proof (intro conjI allI impI)
  fix a i assume i: "i < length (eq_slots (queue_of w a))"
  let ?es = "case p of Inl _ \<Rightarrow> [] | Inr r \<Rightarrow> [(qa, r)]"
  have own: "own_slots ?es a = (if a = qa then {i. \<exists>r. p = Inr r \<and> i = unat (h_slot (er_token r))} else {})"
    by (auto simp: own_slots_def split: sum.splits)
  show "if live (eq_slots (queue_of w a) ! i)
      then eq_slots (queue_of (set_queue qa q' w) a) ! i = eq_slots (queue_of w a) ! i \<and> i \<notin> own_slots ?es a
      else live (eq_slots (queue_of (set_queue qa q' w) a) ! i) \<longrightarrow> i \<in> own_slots ?es a"
    unfolding own using prepare_grew [OF inv p, of i] i by (cases "a = qa") auto
next
  fix a
  show "length (eq_slots (queue_of (set_queue qa q' w) a)) = length (eq_slots (queue_of w a))"
    using prepare_grew [OF inv p, of 0] inv by (simp add: eq_inv_def size_inv_def)
qed (simp add: set_queue_def)

lemma stage_event_grew:
  assumes inv: "queues_inv w" and s: "et_stage_event pf qa e t w = (res, t', w')"
  shows "\<exists>es. extends t t' es \<and> slots_grew w w' es"
proof -
  obtain p q' where p: "eq_prepare pf qa e (queue_of w qa) = (p, q')" by fastforce
  have q: "eq_inv (queue_of w qa)" using inv by (simp add: queues_inv_def)
  note g = set_queue_grew [OF q p]
  consider "t' = t" "w' = w"
    | err where "p = Inl err" "t' = t" "w' = set_queue qa q' w"
    | r where "p = Inr r" "w' = set_queue qa q' w" "extends t t' [(qa, r)]"
    using s p by (cases p) (auto simp: et_stage_event_def Let_def extends_def split: if_splits)
  then show ?thesis
  proof cases
    case 1
    then show ?thesis by (metis extends_refl slots_grew_refl)
  next
    case 2
    then show ?thesis using g by (intro exI [of _ "[]"]) simp
  next
    case 3
    then show ?thesis using g by (intro exI [of _ "[(qa, r)]"]) simp
  qed
qed

lemma destroy_events_nth:
  "events_ok w (es0 @ es) \<Longrightarrow> i < length (eq_slots (queue_of w a)) \<Longrightarrow>
     eq_slots (queue_of (destroy_events es w) a) ! i =
       (if i \<in> own_slots es a then (eq_slots (queue_of w a) ! i)\<lparr>sl_state := Slot_Free\<rparr>
        else eq_slots (queue_of w a) ! i) \<and>
     w_cells (destroy_events es w) = w_cells w"
proof (induction es arbitrary: w)
  case (Cons e es)
  obtain qa r where e: "e = (qa, r)" by fastforce
  let ?h = "er_token r"
  let ?w = "set_queue qa (eq_abandon ?h (queue_of w qa)) w"
  have q: "er_queue r = Some qa" "reserved_ok (queue_of w qa) ?h" using Cons.prems(1) by (auto simp: events_ok_def e)
  have ab: "eq_abandon ?h (queue_of w qa) = upd_slot (unat (h_slot ?h)) (\<lambda>s. s\<lparr>sl_state := Slot_Free\<rparr>) (queue_of w qa)"
    using reserved_okD [OF q(2)] by (simp add: eq_abandon_def)
  have ne: "\<And>x. x \<in> set (es0 @ es) \<Longrightarrow> fst x = qa \<Longrightarrow> er_token (snd x) \<noteq> ?h"
    using Cons.prems by (auto simp: events_ok_def e image_iff)
  have ok: "events_ok ?w (es0 @ es)"
    using Cons.prems(1) ne q(2) by (intro events_ok_queue) (auto simp: events_ok_def e intro: abandon_reserved_ok)
  have "unat (h_slot (er_token (snd x))) \<noteq> unat (h_slot ?h)" if "x \<in> set es" "fst x = qa" for x
    using that ne [of x] q(2) Cons.prems(1) by (intro reserved_ok_slot_neq) (auto simp: events_ok_def e)
  then have "unat (h_slot ?h) \<notin> own_slots es qa" by (fastforce simp: own_slots_def)
  moreover have "destroy_events (e # es) w = destroy_events es ?w" by (simp add: destroy_events_def e q(1))
  ultimately show ?case
    using Cons.IH [OF ok] Cons.prems(2) unfolding ab
    by (auto simp: e own_slots_Cons upd_slot_def nth_update_total)
qed (simp add: destroy_events_def own_slots_def)

lemma destroy_events_length:
  "length (eq_slots (queue_of (destroy_events es w) a)) = length (eq_slots (queue_of w a))"
proof (induction es arbitrary: w)
  case (Cons e es)
  have l: "length (eq_slots (eq_abandon h q)) = length (eq_slots q)" for h q
    by (simp add: eq_abandon_def upd_slot_def Let_def)
  have "destroy_events (e # es) w = destroy_events es (case er_queue (snd e) of None \<Rightarrow> w
      | Some a \<Rightarrow> set_queue a (eq_abandon (er_token (snd e)) (queue_of w a)) w)"
    by (simp add: destroy_events_def case_prod_beta)
  then show ?case by (simp add: Cons.IH l split: option.splits)
qed (simp add: destroy_events_def)

lemma txn_apply_simple_extends:
  assumes "txn_apply pf ops x (t, w) = (t', w')" and "\<nexists>qa e. x = Stage_event qa e"
  shows "extends t t' []"
proof (cases x)
  case (Stage_buffer c v)
  with assms et_buffer_frame [of pf w c v t "fst (et_buffer pf w c v t)" t'] show ?thesis
    by (auto simp: extends_def prod_eq_iff)
next
  case (Stage_participant p)
  with assms et_stage_participant_cases [of ops p t w _ t' w'] show ?thesis
    by (auto simp: extends_def prod_eq_iff)
next
  case (Stage_action a)
  with assms et_stage_action_cases [of pf a t "fst (et_stage_action pf a t)" t'] show ?thesis
    by (auto simp: extends_def prod_eq_iff)
next
  case (Stage_cancel qa h)
  with assms et_stage_cancel_cases [of w qa h t "fst (et_stage_cancel w qa h t)" t'] show ?thesis
    by (auto simp: extends_def prod_eq_iff)
next
  case (Stage_reserve n)
  with assms et_reserve_bytes_cases [of n t "fst (et_reserve_bytes n t)" t'] show ?thesis
    by (auto simp: extends_def prod_eq_iff)
next
  case (Stage_growth p n)
  with assms et_growth_cases [of p n t "fst (et_reserve_participant_growth p n t)" t'] show ?thesis
    by (auto simp: extends_def prod_eq_iff)
qed (use assms in simp)

context participants
begin

lemma txn_apply_grew:
  assumes "txn_reachable pf ops w t ss" and a: "txn_apply pf ops x (t, w) = (t', w')"
  shows "\<exists>es. extends t t' es \<and> slots_grew w w' es"
proof (cases "\<exists>qa e. x = Stage_event qa e")
  case True
  with a reachable_inv [OF assms(1)] show ?thesis
    by (auto simp: prod_eq_iff intro!: stage_event_grew)
next
  case False
  have "w_queues w' = w_queues w \<and> w_cells w' = w_cells w"
  proof (cases x)
    case (Stage_participant p)
    with a et_stage_participant_cases [of ops p t w _ t' w'] show ?thesis
      by (auto simp: prod_eq_iff discard_queues discard_cells)
  qed (use a False in auto)
  then have "slots_grew w w' []" by (simp add: slots_grew_def own_slots_def)
  with txn_apply_simple_extends [OF a False] show ?thesis by blast
qed

lemma txn_run_grew:
  "txn_reachable pf ops w t ss \<Longrightarrow> txn_run pf ops xs (t, w) = (t', w') \<Longrightarrow>
     \<exists>es. extends t t' es \<and> slots_grew w w' es"
proof (induction xs arbitrary: t w)
  case Nil
  then show ?case by (auto simp: txn_run_def intro!: exI [of _ "[]"])
next
  case (Cons x xs)
  obtain t1 w1 where a: "txn_apply pf ops x (t, w) = (t1, w1)" by fastforce
  obtain es where "extends t t1 es" "slots_grew w w1 es" using txn_apply_grew [OF Cons.prems(1) a] by blast
  moreover obtain es' where "extends t1 t' es'" "slots_grew w1 w' es'"
    using Cons.IH [OF txn_apply_reachable [OF Cons.prems(1) a]] Cons.prems(2) by (auto simp: txn_run_def a)
  ultimately show ?case by (blast intro: extends_trans slots_grew_trans)
qed

text \<open>Giving the staged events back frees exactly the slots that staging had taken.\<close>

lemma rollback_slots:
  assumes ok: "events_ok w1 (es0 @ es)" and grew: "slots_grew w w1 es"
    and q: "w_queues w2 = w_queues w1" "w_cells w2 = w_cells w1"
  shows "slots_grew w (destroy_events es w2) []"
proof -
  have ok2: "events_ok w2 (es0 @ es)" using ok q(1) by (simp add: events_ok_def)
  have cells: "w_cells (destroy_events es w2) = w_cells w2"
  proof (induction es arbitrary: w2)
    case (Cons e es)
    then show ?case
      by (auto simp: destroy_events_def case_prod_beta set_queue_def split: option.splits)
  qed (simp add: destroy_events_def)
  show ?thesis
    unfolding slots_grew_def
  proof (intro conjI allI impI)
    fix a i assume i: "i < length (eq_slots (queue_of w a))"
    then have i2: "i < length (eq_slots (queue_of w2 a))" using grew q(1) by (simp add: slots_grew_def)
    from grew i have g: "if live (eq_slots (queue_of w a) ! i)
        then eq_slots (queue_of w2 a) ! i = eq_slots (queue_of w a) ! i \<and> i \<notin> own_slots es a
        else live (eq_slots (queue_of w2 a) ! i) \<longrightarrow> i \<in> own_slots es a"
      by (simp add: slots_grew_def q(1))
    show "if live (eq_slots (queue_of w a) ! i)
        then eq_slots (queue_of (destroy_events es w2) a) ! i = eq_slots (queue_of w a) ! i \<and> i \<notin> own_slots [] a
        else live (eq_slots (queue_of (destroy_events es w2) a) ! i) \<longrightarrow> i \<in> own_slots [] a"
      using g destroy_events_nth [OF ok2 i2]
      by (auto simp: own_slots_def live_def split: if_splits)
  qed (use grew q cells in \<open>simp_all add: slots_grew_def destroy_events_length\<close>)
qed

end

lemma rollback_extends:
  assumes "extends t t1 es" and "et_checkpoint t = Inr s"
  shows "et_rollback ops s t1 w1 = (Inr (), s\<lparr>sp_owner := None\<rparr>, t,
    destroy_events es (discard_participants ops (drop (length (et_participants t)) (et_participants t1)) w1))"
  using assms by (auto simp: extends_def et_checkpoint_def et_rollback_def split: if_splits)

section \<open>Cells as objects see them\<close>

text \<open>
  What the standard objects rely on when they keep their state in a cell of a segment: a
  buffered value is read back, other cells are not affected, and a refused write changes
  nothing. Most of their operations read one cell, compute, and buffer a new value.
\<close>

definition cell_rmw ::
  "('s \<Rightarrow> nat \<Rightarrow> value_t expected) \<Rightarrow> (nat \<Rightarrow> value_t \<Rightarrow> 's \<Rightarrow> unit expected \<times> 's) \<Rightarrow> nat \<Rightarrow>
     (value_t \<Rightarrow> ('r \<times> value_t option) expected) \<Rightarrow> 's \<Rightarrow> 'r expected \<times> 's" where
  "cell_rmw rd buf c f s =
     (case rd s c of
        Inl e \<Rightarrow> (Inl e, s)
      | Inr v \<Rightarrow>
         (case f v of
            Inl e \<Rightarrow> (Inl e, s)
          | Inr (r, None) \<Rightarrow> (Inr r, s)
          | Inr (r, Some v') \<Rightarrow>
             (case buf c v' s of
                (Inl e, s') \<Rightarrow> (Inl e, s')
              | (Inr _, s') \<Rightarrow> (Inr r, s'))))"

locale cell_segment =
  fixes rd :: "'s \<Rightarrow> nat \<Rightarrow> value_t expected"
    and buf :: "nat \<Rightarrow> value_t \<Rightarrow> 's \<Rightarrow> unit expected \<times> 's"
  assumes buf_same: "buf c v s = (Inr u, s') \<Longrightarrow> rd s' c = Inr v"
    and buf_other: "buf c v s = (Inr u, s') \<Longrightarrow> c' \<noteq> c \<Longrightarrow> rd s' c' = rd s c'"
    and buf_refused: "buf c v s = (Inl e, s') \<Longrightarrow> s' = s"
begin

lemma rmw_Inl: "cell_rmw rd buf c f s = (Inl e, s') \<Longrightarrow> s' = s"
  by (auto simp: cell_rmw_def dest: buf_refused split: sum.splits prod.splits option.splits)

lemma rmw_Inr:
  assumes "cell_rmw rd buf c f s = (Inr r, s')"
  obtains v where "rd s c = Inr v" "f v = Inr (r, None)" "s' = s"
  | v v' where "rd s c = Inr v" "f v = Inr (r, Some v')" "buf c v' s = (Inr (), s')" "rd s' c = Inr v'"
  using assms that
  by (auto simp: cell_rmw_def dest: buf_same split: sum.splits prod.splits option.splits)

lemma rmw_other:
  assumes "cell_rmw rd buf c f s = (res, s')" and "c' \<noteq> c"
  shows "rd s' c' = rd s c'"
proof (cases res)
  case (Inl e)
  with assms rmw_Inl show ?thesis by metis
next
  case (Inr r)
  from assms(1) [unfolded Inr] show ?thesis
    by (cases rule: rmw_Inr) (auto dest: buf_other [OF _ assms(2)])
qed

text \<open>A property of the cell's value that the step keeps holds afterwards.\<close>

lemma rmw_keeps:
  assumes "cell_rmw rd buf c f s = (res, s')" and "rd s c = Inr v" and "P v"
    and "\<And>r v'. f v = Inr (r, Some v') \<Longrightarrow> P v'"
  shows "\<exists>v'. rd s' c = Inr v' \<and> P v'"
proof (cases res)
  case (Inl e)
  with assms rmw_Inl show ?thesis by metis
next
  case (Inr r)
  from assms(1) [unfolded Inr] show ?thesis
    by (cases rule: rmw_Inr) (use assms(2-4) in auto)
qed

end

lemma et_read_buffer_same:
  "et_buffer pf w c v t = (Inr u, t') \<Longrightarrow> et_read w t' c = Inr v"
  by (drule et_buffer_Inr) (auto simp: et_read_def find_replace_write find_write_append)

lemma et_read_buffer_other:
  "et_buffer pf w c v t = (Inr u, t') \<Longrightarrow> c' \<noteq> c \<Longrightarrow> et_read w t' c' = et_read w t c'"
  by (drule et_buffer_Inr) (auto simp: et_read_def find_replace_write find_write_append split: option.splits)

interpretation seg: cell_segment "et_read w" "et_buffer pf w" for pf w
  by unfold_locales (fact et_read_buffer_same et_read_buffer_other et_buffer_Inl)+

section \<open>Publication\<close>

text \<open>A host whose calls are recorded.\<close>

definition logged :: "(send_intent \<Rightarrow> 'h \<Rightarrow> unit expected \<times> 'h) \<Rightarrow> send_intent \<Rightarrow>
    'h \<times> send_intent list \<Rightarrow> unit expected \<times> 'h \<times> send_intent list" where
  "logged host a hl = (case host a (fst hl) of (r, h') \<Rightarrow> (r, h', snd hl @ [a]))"

lemma publish_loop_log:
  "publish_loop (logged host) as cur (h, l) = (res, cur', h', l') \<Longrightarrow>
     cur \<le> cur' \<and> cur' \<le> cur + length as \<and> (isl res \<longleftrightarrow> cur' < cur + length as) \<and>
     l' = l @ take (cur' - cur + (if isl res then 1 else 0)) as"
proof (induction as arbitrary: cur h l)
  case (Cons a as)
  obtain r h1 where h1: "host a h = (r, h1)" by fastforce
  show ?case
  proof (cases r)
    case (Inl e)
    with Cons.prems h1 show ?thesis by (auto simp: logged_def)
  next
    case (Inr u)
    with Cons.prems h1 have "publish_loop (logged host) as (Suc cur) (h1, l @ [a]) = (res, cur', h', l')"
      by (simp add: logged_def [of host a])
    from Cons.IH [OF this] show ?thesis by (auto simp: take_Cons' Suc_diff_le)
  qed
qed auto

section \<open>Properties\<close>

text \<open>
  Claim C20. In every state that staging, savepoints and rollbacks reach, while other code
  works on the same queues and cells, the segment stays within its budget: the byte account
  covers the buffered values and does not exceed the limit, no cell is written twice, and
  the staged events are distinct and still reserved for this segment.
\<close>

theorem segment_within_budget:
  assumes "participants ops" and "txn_reachable pf ops w t ss"
  shows "writes_cost pf (et_writes t) \<le> et_bytes t \<and> et_bytes t \<le> sb_bytes (et_budget t) \<and>
    distinct (map tw_cell (et_writes t)) \<and> length (et_writes t) \<le> sb_writes (et_budget t) \<and>
    length (et_actions t) \<le> sb_actions (et_budget t) \<and> length (et_events t) \<le> sb_events (et_budget t) \<and>
    events_ok w (et_events t) \<and> (\<forall>a. eq_inv (queue_of w a))"
  using participants.reachable_inv [OF assms]
  by (auto simp: txn_inv_def account_ok_def sizes_ok_def queues_inv_def)

text \<open>
  A segment reads its own writes: after a successful \<open>buffer\<close> the cell reads as
  the new value and every other cell as before; the committed cells are untouched.
\<close>

theorem reads_own_writes:
  assumes "et_buffer pf w c v t = (Inr u, t')"
  shows "et_read w t' c' = (if c' = c then Inr v else et_read w t c')"
  using seg.buf_same [OF assms] seg.buf_other [OF assms] by simp

text \<open>
  Claim C2. Commit is all or nothing and never terminates the program: from a reachable
  segment it either reports an error and changes neither segment nor world, or it applies
  everything: each written cell holds the buffered value under the next version, which did
  not wrap, other cells are untouched, each staged event is queued unless a staged
  cancellation marks it, and the actions are handed over for publication.
\<close>

theorem commit_all_or_nothing:
  assumes "participants ops" and "txn_reachable pf ops w t ss"
  shows "(\<exists>e. et_commit ops epoch t w = Some (Inl e, t, w)) \<or>
    (\<exists>t' w'. et_commit ops epoch t w = Some (Inr \<lparr>ca_actions = et_actions t, ca_cursor = 0, ca_failed = False\<rparr>,
         t', fold (po_apply ops) (et_participants t) w') \<and> et_closed t' \<and> et_committed t' \<and> w_ext w' = w_ext w \<and>
       (\<forall>c. case find_write c (et_writes t) of
           None \<Rightarrow> cell_of w' c = cell_of w c
         | Some wr \<Rightarrow> vc_version (cell_of w c) = tw_version wr \<and> vc_version (cell_of w c) < vc_version (cell_of w' c) \<and>
             cell_of w' c = (cell_of w c)\<lparr>vc_value := tw_value wr, vc_version := tw_version wr + 1\<rparr>) \<and>
       (\<forall>a. queue_of w' a = mark_cancelled (et_cancels t) a (mark_queued (et_events t) a (queue_of w a))))"
proof (cases "commit_check ops epoch t w")
  case (Inl e)
  then show ?thesis by (simp add: et_commit_def)
next
  case (Inr u)
  have inv: "txn_inv pf w t" using participants.reachable_inv [OF assms] by simp
  let ?w = "committed_world t w"
  have cells: "case find_write c (et_writes t) of
      None \<Rightarrow> cell_of ?w c = cell_of w c
    | Some wr \<Rightarrow> vc_version (cell_of w c) = tw_version wr \<and> vc_version (cell_of w c) < vc_version (cell_of ?w c) \<and>
        cell_of ?w c = (cell_of w c)\<lparr>vc_value := tw_value wr, vc_version := tw_version wr + 1\<rparr>" for c
  proof (cases "find_write c (et_writes t)")
    case None
    then show ?thesis using inv by (simp add: committed_world_def apply_writes_cell txn_inv_def account_ok_def)
  next
    case (Some wr)
    have "check_writes w epoch (et_writes t) = Inr ()" using commit_check_Inr [OF Inr] by blast
    note cw = check_writes_Inr [OF this Some]
    have "cell_of ?w c = (cell_of w c)\<lparr>vc_value := tw_value wr, vc_version := tw_version wr + 1\<rparr>"
      using inv Some cw write_cell_value [of "cell_of w c" "tw_value wr"]
      by (simp add: committed_world_def apply_writes_cell txn_inv_def account_ok_def)
    with cw Some show ?thesis by (simp add: word_less_add1_iff)
  qed
  show ?thesis
    unfolding et_commit_Inr [OF inv Inr] using cells
    by (intro disjI2 exI [of _ ?w] exI [of _ "t\<lparr>et_actions := [],
        et_events := map (\<lambda>(qa, r). (qa, r\<lparr>er_queue := None\<rparr>)) (et_events t), et_closed := True, et_committed := True\<rparr>"])
      (simp add: committed_world_def)
qed


text \<open>
  Claim C8. Rolling back to a savepoint undoes every staging operation made since: the
  segment is exactly the one at the checkpoint, no cell has changed, every occupied event
  slot is as it was, and no further slot is occupied.
\<close>

theorem rollback_restores:
  assumes "participants ops" and "txn_reachable pf ops w t ss" and "et_checkpoint t = Inr s"
    and "txn_run pf ops xs (t, w) = (t1, w1)"
  shows "\<exists>s' w'. et_rollback ops s t1 w1 = (Inr (), s', t, w') \<and> w_cells w' = w_cells w \<and>
    (\<forall>a. \<forall>i < length (eq_slots (queue_of w a)).
       (if live (eq_slots (queue_of w a) ! i) then eq_slots (queue_of w' a) ! i = eq_slots (queue_of w a) ! i
        else \<not> live (eq_slots (queue_of w' a) ! i)))"
proof -
  obtain es where es: "extends t t1 es" "slots_grew w w1 es"
    using participants.txn_run_grew [OF assms(1,2,4)] by blast
  let ?w = "discard_participants ops (drop (length (et_participants t)) (et_participants t1)) w1"
  have "events_ok w1 (et_events t @ es)"
    using participants.reachable_inv [OF assms(1) txn_run_reachable [OF assms(2,4)]] es(1)
    by (simp add: txn_inv_def extends_def)
  then have sg: "slots_grew w (destroy_events es ?w) []"
    using es(2) participants.discard_participants_frame [OF assms(1)]
    by (intro participants.rollback_slots [OF assms(1)])
  show ?thesis
    unfolding rollback_extends [OF es(1) assms(3)]
    using sg slots_grew_Nil [OF sg]
    by (intro exI [of _ "s\<lparr>sp_owner := None\<rparr>"] exI [of _ "destroy_events es ?w"]) (simp add: slots_grew_def)
qed

text \<open>
  Publication hands every action to the host at most once and in order: with the
  host's calls recorded, a call of \<open>publish_actions\<close> sends exactly the actions from the old
  cursor to the new one, plus the one that failed; on success the cursor is at the end, and
  after a failure nothing is sent any more.
\<close>

theorem publish_in_order:
  assumes "publish_actions (logged host) a (h, l) = (res, a', h', l')"
    and "ca_cursor a \<le> length (ca_actions a)" and "\<not> ca_failed a"
  shows "ca_cursor a \<le> ca_cursor a' \<and> ca_actions a' = ca_actions a \<and> ca_failed a' = isl res \<and>
    (isl res \<longleftrightarrow> ca_cursor a' < length (ca_actions a)) \<and>
    l' = l @ take (ca_cursor a' - ca_cursor a + (if isl res then 1 else 0)) (drop (ca_cursor a) (ca_actions a)) \<and>
    (isl res \<longrightarrow> (\<forall>host2 x. snd (snd (publish_actions host2 a' x)) = x))"
proof -
  obtain cur' where pl: "publish_loop (logged host) (drop (ca_cursor a) (ca_actions a)) (ca_cursor a) (h, l) = (res, cur', h', l')"
    and a': "a' = a\<lparr>ca_cursor := cur', ca_failed := isl res\<rparr>"
    using assms(1,3) by (auto simp: publish_actions_def split: prod.splits)
  show ?thesis using publish_loop_log [OF pl] assms(2) by (auto simp: a' publish_actions_def)
qed

section \<open>Witnesses\<close>

text \<open>A world with one kind of cell and small event queues, and no participants of its own.\<close>

definition null_ops :: "unit participant_ops" where
  "null_ops = \<lparr>po_reserved_bytes = \<lambda>_ _. 0, po_identity = \<lambda>_ _. None, po_validate = \<lambda>_ _. Inr (),
     po_validate_prepare = \<lambda>_ _. Inr (), po_apply = \<lambda>_ w. w, po_discard = \<lambda>_ w. w\<rparr>"

definition demo_world :: "unit world" where
  "demo_world = \<lparr>w_cells = \<lambda>_. \<lparr>vc_value = VU64 5, vc_version = 3, vc_epoch = 1,
       vc_stable_bytes = False, vc_epoch_independent = False\<rparr>,
     w_queues = \<lambda>_. demo_new, w_ext = ()\<rparr>"

definition demo_txn :: event_txn where
  "demo_txn = EventTxn_new 1 \<lparr>sb_writes = 2, sb_actions = 2, sb_bytes = 500, sb_events = 2\<rparr>
     \<lparr>ec_kind = CK_Timed, ec_domain = 7, ec_instance = 1, ec_connection = 0,
      ec_ready = ReadyKey 4 0, ec_owner = 3, ec_epoch = 1\<rparr>"

definition demo_steps :: "txn_op list" where
  "demo_steps = [Stage_buffer 4 (VU64 9), Stage_event 0 (demo_draft 5 4)]"

definition demo_segment :: event_txn where
  "demo_segment = fst (txn_run demo_pf null_ops demo_steps (demo_txn, demo_world))"

definition demo_staged :: "unit world" where
  "demo_staged = snd (txn_run demo_pf null_ops demo_steps (demo_txn, demo_world))"

lemma null_participants: "participants null_ops"
  by unfold_locales (simp_all add: null_ops_def)

lemma demo_txn_reachable: "txn_reachable demo_pf null_ops demo_world demo_txn {}"
  unfolding demo_txn_def
  by (rule txn_reachable.new)
    (use eq_reachable_inv [OF demo_new_reachable] in \<open>simp add: queues_inv_def demo_world_def\<close>)

lemma demo_run: "txn_run demo_pf null_ops demo_steps (demo_txn, demo_world) = (demo_segment, demo_staged)"
  by (simp add: demo_segment_def demo_staged_def)

lemma demo_segment_reachable: "txn_reachable demo_pf null_ops demo_staged demo_segment {}"
  by (rule txn_run_reachable [OF demo_txn_reachable demo_run])

lemma demo_buffer:
  "et_buffer demo_pf demo_world 4 (VU64 9) demo_txn = (Inr (), demo_txn\<lparr>et_writes :=
     [\<lparr>tw_cell = 4, tw_version = 3, tw_value = VU64 9\<rparr>], et_bytes := 40\<rparr>)"
  by (simp add: et_buffer_def demo_txn_def EventTxn_new_def demo_world_def cell_epoch_ok_def
      owned_value_bytes_def demo_cost prior_bytes_def Let_def)

definition demo_reservation :: event_reservation where
  "demo_reservation = (case fst (eq_prepare demo_pf 0 (demo_draft 5 4) demo_new) of Inr r \<Rightarrow> r)"

definition demo_reserved :: event_queue where
  "demo_reserved = snd (eq_prepare demo_pf 0 (demo_draft 5 4) demo_new)"

lemma demo_prepare:
  "eq_prepare demo_pf 0 (demo_draft 5 4) demo_new = (Inr demo_reservation, demo_reserved)"
  "demo_reserved = demo_new\<lparr>eq_slots := [demo_slot Slot_Reserved 5 4 1, empty_slot, empty_slot], eq_next_sequence := 2\<rparr>"
  "demo_reservation = \<lparr>er_queue = Some 0, er_token = token_of demo_reserved 0\<rparr>"
  by (simp_all add: demo_reservation_def demo_reserved_def demo_new_eq demo_eval empty_slot_def demo_slot_def)

lemma demo_staged_eq:
  "demo_segment = demo_txn\<lparr>et_writes := [\<lparr>tw_cell = 4, tw_version = 3, tw_value = VU64 9\<rparr>], et_bytes := 80,
     et_events := [(0, demo_reservation)]\<rparr>" (is ?A)
  "demo_staged = set_queue 0 demo_reserved demo_world" (is ?B)
proof -
  have q: "w_queues demo_world 0 = demo_new" by (simp add: demo_world_def)
  have v: "ed_value (demo_draft 5 4) = VU64 41" by (simp add: demo_draft_def)
  have b: "et_closed demo_txn = False" "et_events demo_txn = []"
      "et_budget demo_txn = \<lparr>sb_writes = 2, sb_actions = 2, sb_bytes = 500, sb_events = 2\<rparr>"
    by (simp_all add: demo_txn_def EventTxn_new_def)
  have "?A \<and> ?B"
    by (simp add: demo_segment_def demo_staged_def txn_run_def demo_steps_def demo_buffer et_stage_event_def q
        demo_prepare(1) b owned_value_bytes_def v demo_cost)
  then show ?A ?B by auto
qed

theorem segment_within_budget_witness:
  "txn_reachable demo_pf null_ops demo_staged demo_segment {} \<and> et_bytes demo_segment = 80 \<and>
   et_bytes demo_segment \<le> sb_bytes (et_budget demo_segment)"
  using segment_within_budget [OF null_participants demo_segment_reachable] demo_segment_reachable
  by (simp add: demo_staged_eq)

theorem reads_own_writes_witness:
  "et_read demo_world (snd (et_buffer demo_pf demo_world 4 (VU64 9) demo_txn)) 4 = Inr (VU64 9)"
  using reads_own_writes [OF demo_buffer, of 4] by (simp add: demo_buffer)

lemma demo_commit_check: "commit_check null_ops 1 demo_segment demo_staged = Inr ()"
  by (simp add: commit_check_def demo_staged_eq demo_txn_def EventTxn_new_def demo_world_def cell_epoch_ok_def
      demo_prepare(2,3) eq_preflight_def eq_validate_def token_of_def demo_new_eq demo_slot_def behind_frontier_def
      null_ops_def)

lemma demo_commit: "\<exists>acts t' w'. et_commit null_ops 1 demo_segment demo_staged = Some (Inr acts, t', w')"
  using et_commit_Inr [OF _ demo_commit_check]
    participants.reachable_inv [OF null_participants demo_segment_reachable] by blast

theorem commit_all_or_nothing_witness:
  "\<exists>t' w'. et_commit null_ops 1 demo_segment demo_staged =
     Some (Inr \<lparr>ca_actions = [], ca_cursor = 0, ca_failed = False\<rparr>, t', w') \<and>
     vc_value (cell_of w' 4) = VU64 9 \<and> vc_version (cell_of w' 4) = 4 \<and> cell_of w' 5 = cell_of demo_world 5"
proof -
  have w: "find_write 4 (et_writes demo_segment) = Some \<lparr>tw_cell = 4, tw_version = 3, tw_value = VU64 9\<rparr>"
    "find_write 5 (et_writes demo_segment) = None" "et_participants demo_segment = []" "et_actions demo_segment = []"
    by (simp_all add: demo_staged_eq demo_txn_def EventTxn_new_def)
  obtain t' w' where c: "et_commit null_ops 1 demo_segment demo_staged =
      Some (Inr \<lparr>ca_actions = [], ca_cursor = 0, ca_failed = False\<rparr>, t', w')"
    and cells: "\<And>c. case find_write c (et_writes demo_segment) of
           None \<Rightarrow> cell_of w' c = cell_of demo_staged c
         | Some wr \<Rightarrow> cell_of w' c = (cell_of demo_staged c)\<lparr>vc_value := tw_value wr, vc_version := tw_version wr + 1\<rparr>"
    using commit_all_or_nothing [OF null_participants demo_segment_reachable, of 1] demo_commit w(3,4)
    by (fastforce split: option.splits)
  show ?thesis using c cells [of 4] cells [of 5] by (simp add: w demo_staged_eq)
qed


theorem rollback_restores_witness:
  "\<exists>s s' w'. et_checkpoint demo_txn = Inr s \<and> et_rollback null_ops s demo_segment demo_staged = (Inr (), s', demo_txn, w') \<and>
     eq_slots (queue_of demo_staged 0) ! 0 = demo_slot Slot_Reserved 5 4 1 \<and> \<not> live (eq_slots (queue_of w' 0) ! 0)"
proof -
  obtain s where s: "et_checkpoint demo_txn = Inr s"
    by (simp add: et_checkpoint_def demo_txn_def EventTxn_new_def)
  have "\<not> live (eq_slots (queue_of demo_world 0) ! 0)" "0 < length (eq_slots (queue_of demo_world 0))"
    by (simp_all add: demo_world_def demo_new_eq empty_slot_def live_def)
  moreover have "eq_slots (queue_of demo_staged 0) ! 0 = demo_slot Slot_Reserved 5 4 1"
    by (simp add: demo_staged_eq demo_prepare(2))
  ultimately show ?thesis
    using rollback_restores [OF null_participants demo_txn_reachable s demo_run] s by metis
qed

definition demo_intent :: "u32 \<Rightarrow> send_intent" where
  "demo_intent n = \<lparr>si_connection = n, si_txn = token_of demo_new 0, si_flow = Forward, si_phase = 1,
     si_not_before = 0, si_call_id = 0, si_transport = 0,
     si_payload = \<lparr>pl_command = Read, pl_address = 0, pl_data = [], pl_streaming_width = 0,
       pl_byte_enable = [], pl_status = Ok, pl_dmi_hint = False, pl_extensions = []\<rparr>\<rparr>"

definition demo_host :: "send_intent \<Rightarrow> unit \<Rightarrow> unit expected \<times> unit" where
  "demo_host a h = (if si_connection a = 2 then fail ExternalFailure ''host'' else Inr (), ())"

theorem publish_in_order_witness:
  "\<exists>res a' l'. publish_actions (logged demo_host)
     \<lparr>ca_actions = [demo_intent 1, demo_intent 2, demo_intent 3], ca_cursor = 0, ca_failed = False\<rparr> ((), []) =
     (res, a', (), l') \<and> isl res \<and> ca_cursor a' = 1 \<and> l' = [demo_intent 1, demo_intent 2]"
proof -
  let ?a = "\<lparr>ca_actions = [demo_intent 1, demo_intent 2, demo_intent 3], ca_cursor = 0, ca_failed = False\<rparr>"
  obtain res a' l' where p: "publish_actions (logged demo_host) ?a ((), []) = (res, a', (), l')"
    by (metis prod.collapse old.unit.exhaust)
  have c: "ca_cursor a' = 1" "isl res"
    using p by (auto simp: publish_actions_def logged_def demo_host_def demo_intent_def fail_def)
  have "l' = [demo_intent 1, demo_intent 2]" using publish_in_order [OF p] by (auto simp: c)
  with p c show ?thesis by auto
qed

end
