(* ===== verification/Numeric.thy ===== *)
theory Numeric
  imports Common "HOL-Library.Signed_Division"
begin

text \<open>
  The bit-vector arithmetic of \<open>runtime/src/numeric.cpp\<close>: values of 1 to 64 bits kept in an
  unsigned 64-bit word, with unary operators, comparison, conversion, division and shifts.
  The properties read every operation as arithmetic on the numbers that the words stand for.
\<close>

section \<open>Operations\<close>

definition valid_width :: "u32 \<Rightarrow> bool" where
  "valid_width width \<longleftrightarrow> width \<ge> 1 \<and> width \<le> 64"

text \<open>\<open>mask\<close> of the source.\<close>

definition width_mask :: "u32 \<Rightarrow> u64" where
  "width_mask width = (if width = 64 then UINT64_MAX else push_bit (unat width) 1 - 1)"

definition bits :: "value_t \<Rightarrow> u32 \<Rightarrow> u64 expected" where
  "bits v width =
     (if \<not> valid_width width then fail TypeMismatch ''NumericTypeMismatch''
      else case v of
        VU64 n \<Rightarrow> (if n > width_mask width then fail TypeMismatch ''NumericTypeMismatch'' else Inr n)
      | _ \<Rightarrow> fail TypeMismatch ''NumericTypeMismatch'')"

unbundle bit_operations_syntax

definition eval_unary :: "u32 \<Rightarrow> value_t \<Rightarrow> u32 \<Rightarrow> value_t expected" where
  "eval_unary mode v width =
     (if mode > 2 then fail Unsupported ''UnknownUnaryMode''
      else if mode = 0 then
        (case v of VBool b \<Rightarrow> Inr (VBool (\<not> b)) | _ \<Rightarrow> fail TypeMismatch ''NumericTypeMismatch'')
      else case bits v width of
        Inl e \<Rightarrow> Inl e
      | Inr n \<Rightarrow> Inr (VU64 ((if mode = 1 then NOT n else 0 - n) AND width_mask width)))"

text \<open>
  \<open>eval_compare\<close>: with width 0, modes 0 and 1 compare whole values of the same alternative.
\<close>

definition eval_compare :: "u32 \<Rightarrow> value_t \<Rightarrow> value_t \<Rightarrow> u32 \<Rightarrow> value_t expected" where
  "eval_compare mode a b width =
     (if mode > 5 then fail Unsupported ''UnknownCompareMode''
      else if mode \<le> 1 \<and> width = 0 then
        (if value_index a \<noteq> value_index b then fail TypeMismatch ''NumericTypeMismatch''
         else Inr (VBool (if mode = 0 then a = b else a \<noteq> b)))
      else case bits a width of
        Inl e \<Rightarrow> Inl e
      | Inr x \<Rightarrow>
         (case bits b width of
            Inl e \<Rightarrow> Inl e
          | Inr y \<Rightarrow> Inr (VBool (
              if mode = 0 then x = y else if mode = 1 then x \<noteq> y
              else if mode = 2 then x < y else if mode = 3 then x \<le> y
              else if mode = 4 then x > y else x \<ge> y))))"

definition eval_convert :: "u32 \<Rightarrow> value_t \<Rightarrow> u32 \<Rightarrow> u32 \<Rightarrow> value_t expected" where
  "eval_convert mode v source_width dest_width =
     (if mode > 2 then fail Unsupported ''UnknownConvertMode''
      else case bits v source_width of
        Inl e \<Rightarrow> Inl e
      | Inr n \<Rightarrow>
         (if \<not> valid_width dest_width \<or> mode = 0 \<and> source_width > dest_width \<or>
             mode \<noteq> 0 \<and> source_width < dest_width
          then fail TypeMismatch ''NumericTypeMismatch''
          else if mode = 2 \<and> n > width_mask dest_width then fail Overflow ''ArithmeticOverflow''
          else Inr (VU64 (n AND width_mask dest_width))))"

definition checked_divide :: "value_t \<Rightarrow> value_t \<Rightarrow> u32 \<Rightarrow> bool \<Rightarrow> value_t expected" where
  "checked_divide a b width signed_twos_complement =
     (case bits a width of
        Inl e \<Rightarrow> Inl e
      | Inr x \<Rightarrow>
         (case bits b width of
            Inl e \<Rightarrow> Inl e
          | Inr y \<Rightarrow>
             (if y = 0 then fail InvalidArgument ''DivisionByZero''
              else if \<not> signed_twos_complement then Inr (VU64 (x div y))
              else let sign = push_bit (unat (width - 1)) 1; m = width_mask width in
                if x = sign \<and> y = m then fail Overflow ''ArithmeticOverflow''
                else let negative_x = (x AND sign \<noteq> 0); negative_y = (y AND sign \<noteq> 0);
                         magnitude_x = (if negative_x then (0 - x) AND m else x);
                         magnitude_y = (if negative_y then (0 - y) AND m else y);
                         quotient = magnitude_x div magnitude_y
                  in Inr (VU64 (if negative_x \<noteq> negative_y then (0 - quotient) AND m
                                else quotient)))))"

definition checked_shift :: "value_t \<Rightarrow> u64 \<Rightarrow> u32 \<Rightarrow> bool \<Rightarrow> value_t expected" where
  "checked_shift v count width left =
     (case bits v width of
        Inl e \<Rightarrow> Inl e
      | Inr n \<Rightarrow>
         (if unat count \<ge> unat width then fail InvalidArgument ''ShiftOutOfRange''
          else Inr (VU64 (if left then push_bit (unat count) n AND width_mask width
                          else drop_bit (unat count) n))))"

section \<open>Reading the words\<close>

lemma valid_width_unat: "valid_width width \<longleftrightarrow> 1 \<le> unat width \<and> unat width \<le> 64"
  by (simp add: valid_width_def word_le_nat_alt)

lemma width_mask_eq: "valid_width width \<Longrightarrow> width_mask width = mask (unat width)"
proof (cases "width = 64")
  case True
  then show ?thesis by (simp add: width_mask_def mask_eq_exp_minus_1)
qed (simp add: width_mask_def mask_eq_exp_minus_1 push_bit_eq_mult)

lemma unat_mask: "n \<le> 64 \<Longrightarrow> unat (mask n :: u64) = 2 ^ n - 1"
proof -
  assume "n \<le> 64"
  then have "(2::nat) ^ n \<le> 2 ^ 64" by (intro power_increasing) simp_all
  then have "(2 ^ n - 1) mod 2 ^ 64 = (2 ^ n - 1 :: nat)" by (intro mod_less) simp
  then have "unat (of_nat (2 ^ n - 1) :: u64) = 2 ^ n - 1" by (subst unat_of_nat) simp
  moreover have "(mask n :: u64) = of_nat (2 ^ n - 1)" by (simp add: mask_eq_exp_minus_1 of_nat_diff)
  ultimately show ?thesis by simp
qed

lemma and_width_mask:
  assumes "valid_width width"
  shows "unat (x AND width_mask width) = unat x mod 2 ^ unat width"
proof -
  have "x AND width_mask width = take_bit (unat width) x"
    by (simp add: width_mask_eq [OF assms] take_bit_eq_mask)
  then show ?thesis by (simp only: unsigned_take_bit_eq) (simp add: take_bit_eq_mod)
qed

lemma le_width_mask:
  assumes "valid_width width"
  shows "n \<le> width_mask width \<longleftrightarrow> unat n < 2 ^ unat width"
proof -
  have "unat (width_mask width) = 2 ^ unat width - 1"
    using assms by (simp add: width_mask_eq unat_mask valid_width_unat)
  moreover have "(2::nat) ^ unat width > 0" by simp
  ultimately show ?thesis unfolding word_le_nat_alt by linarith
qed

lemma bits_Inr:
  "bits v width = Inr n \<longleftrightarrow> valid_width width \<and> v = VU64 n \<and> unat n < 2 ^ unat width"
  using le_width_mask [of width n] by (cases v) (auto simp: bits_def not_less)

lemma bits_VU64:
  "valid_width width \<Longrightarrow> unat n < 2 ^ unat width \<Longrightarrow> bits (VU64 n) width = Inr n"
  by (simp add: bits_Inr)

lemma width_dvd: "valid_width width \<Longrightarrow> (2::nat) ^ unat width dvd 2 ^ 64"
  by (intro le_imp_power_dvd) (simp add: valid_width_unat)

lemma wrap_mod:
  fixes n :: nat
  assumes "valid_width width" and "n < 2 ^ unat width"
  shows "(2 ^ 64 - n) mod 2 ^ unat width = (2 ^ unat width - n) mod 2 ^ unat width"
proof -
  obtain k where k: "(2::nat) ^ 64 = 2 ^ unat width * k" using width_dvd [OF assms(1)] by (elim dvdE)
  then have "k \<noteq> 0" by (metis mult_0_right power_eq_0_iff zero_neq_numeral)
  then obtain j where j: "k = Suc j" by (metis not0_implies_Suc)
  have "2 ^ 64 - n = 2 ^ unat width * j + (2 ^ unat width - n)" using assms(2) unfolding k j by simp
  then show ?thesis by simp
qed

lemma unat_neg: "unat (0 - x) = (if x = 0 then 0 else 2 ^ 64 - unat x)" for x :: u64
  by (simp add: unat_sub_if' [of 0 x, simplified] unat_eq_0) 

lemma neg_masked:
  assumes "valid_width width" and "unat x < 2 ^ unat width"
  shows "unat ((0 - x) AND width_mask width) = (2 ^ unat width - unat x) mod 2 ^ unat width"
proof (cases "x = 0")
  case False
  then show ?thesis
    using wrap_mod [OF assms(1), of "unat x"] assms unfolding and_width_mask [OF assms(1)] unat_neg by simp
qed (simp add: and_width_mask [OF assms(1)])

lemma not_masked:
  assumes "valid_width width" and "unat x < 2 ^ unat width"
  shows "unat (NOT x AND width_mask width) = 2 ^ unat width - 1 - unat x"
proof -
  have "unat (NOT x) = unat (- 1 - x)" by (simp only: not_eq_complement diff_conv_add_uminus add.commute)
  also have "\<dots> = 2 ^ 64 - 1 - unat x"
    using unsigned_less [of x, where 'a = nat] by (simp add: unat_sub_if' unsigned_minus_1_eq_mask mask_eq_exp_minus_1)
  finally have n: "unat (NOT x) = 2 ^ 64 - (unat x + 1)" by simp
  show ?thesis
  proof (cases "unat x + 1 < 2 ^ unat width")
    case True
    then show ?thesis unfolding and_width_mask [OF assms(1)] n wrap_mod [OF assms(1) True] by simp
  next
    case False
    with assms(2) have x: "unat x + 1 = 2 ^ unat width" by simp
    show ?thesis
      unfolding and_width_mask [OF assms(1)] n x using width_dvd [OF assms(1)] x by (simp add: dvd_diff_nat mod_eq_0_iff_dvd)
  qed
qed

section \<open>Two's complement\<close>

text \<open>The number that a \<open>width\<close>-bit two's-complement encoding stands for.\<close>

definition as_signed :: "u32 \<Rightarrow> u64 \<Rightarrow> int" where
  "as_signed width n =
     (if 2 ^ (unat width - 1) \<le> unat n then int (unat n) - 2 ^ unat width else int (unat n))"

lemma uint_power:
  "uint x < 2 ^ n \<longleftrightarrow> unat x < 2 ^ n" "2 ^ n \<le> uint x \<longleftrightarrow> 2 ^ n \<le> unat x" for x :: u64
proof -
  have "int (unat x) < int (2 ^ n) \<longleftrightarrow> unat x < 2 ^ n" by (simp only: of_nat_less_iff)
  then show "uint x < 2 ^ n \<longleftrightarrow> unat x < 2 ^ n" by simp
  have "int (2 ^ n) \<le> int (unat x) \<longleftrightarrow> 2 ^ n \<le> unat x" by (simp only: of_nat_le_iff)
  then show "2 ^ n \<le> uint x \<longleftrightarrow> 2 ^ n \<le> unat x" by simp
qed

lemma sign_bit:
  assumes "valid_width width" and "unat x < 2 ^ unat width"
  shows "(x AND push_bit (unat (width - 1)) 1 \<noteq> 0) \<longleftrightarrow> 2 ^ (unat width - 1) \<le> unat x"
proof -
  have w: "unat (width - 1) = unat width - 1" "unat width = Suc (unat width - 1)"
    using assms(1) by (auto simp: valid_width_def unat_sub word_le_nat_alt)
  have "(x AND push_bit (unat (width - 1)) 1 \<noteq> 0) \<longleftrightarrow> bit x (unat width - 1)"
    by (simp add: w(1) push_bit_eq_mult and_exp_eq_0_iff_not_bit)
  also have "\<dots> \<longleftrightarrow> odd (unat x div 2 ^ (unat width - 1))"
  proof -
    have "bit x (unat width - 1) \<longleftrightarrow> bit (unat x) (unat width - 1)"
      by (auto simp: bit_unsigned_iff dest: bit_imp_possible_bit)
    then show ?thesis by (simp only: bit_iff_odd)
  qed
  also have "\<dots> \<longleftrightarrow> 2 ^ (unat width - 1) \<le> unat x"
  proof -
    have "unat x < 2 ^ (unat width - 1) * 2" using assms(2) w(2) by (metis power_Suc mult.commute)
    then have "unat x div 2 ^ (unat width - 1) < 2" by (simp add: less_mult_imp_div_less mult.commute)
    then have "odd (unat x div 2 ^ (unat width - 1)) \<longleftrightarrow> 0 < unat x div 2 ^ (unat width - 1)" by (auto simp: less_2_cases_iff)
    then show ?thesis by (simp add: div_greater_zero_iff)
  qed
  finally show ?thesis .
qed

lemma half_range:
  fixes a h :: int
  assumes "0 \<le> a" and "a < 2 * h"
  shows "- h \<le> (if h \<le> a then a - 2 * h else a) \<and> (if h \<le> a then a - 2 * h else a) < h \<and>
    ((if h \<le> a then a - 2 * h else a) = - h \<longleftrightarrow> a = h) \<and>
    ((if h \<le> a then a - 2 * h else a) = - 1 \<longleftrightarrow> a = 2 * h - 1)"
  using assms by auto

lemma as_signed_range:
  assumes "valid_width width" and "unat x < 2 ^ unat width"
  shows "- (2 ^ (unat width - 1)) \<le> as_signed width x \<and> as_signed width x < 2 ^ (unat width - 1) \<and>
    (as_signed width x = - (2 ^ (unat width - 1)) \<longleftrightarrow> uint x = 2 ^ (unat width - 1)) \<and>
    (as_signed width x = - 1 \<longleftrightarrow> uint x = 2 ^ unat width - 1)"
proof -
  have "unat width = Suc (unat width - 1)" using assms(1) by (simp add: valid_width_unat)
  then have p: "(2::int) ^ unat width = 2 * 2 ^ (unat width - 1)" by (metis power_Suc)
  have u: "0 \<le> uint x" "uint x < 2 ^ unat width" using assms(2) by (simp_all add: uint_power)
  have "as_signed width x = (if 2 ^ (unat width - 1) \<le> uint x then uint x - 2 ^ unat width else uint x)"
    by (simp add: as_signed_def uint_power)
  then show ?thesis
    using half_range [OF u(1) u(2) [unfolded p]] unfolding p by (simp only:)
qed

text \<open>The magnitude that \<open>checked_divide\<close> computes.\<close>

lemma magnitude:
  assumes "valid_width width" and "unat x < 2 ^ unat width"
  shows "int (unat (if 2 ^ (unat width - 1) \<le> unat x then (0 - x) AND width_mask width else x)) =
    \<bar>as_signed width x\<bar>"
proof (cases "2 ^ (unat width - 1) \<le> unat x")
  case True
  have "0 < unat x" using True by (metis less_le_trans zero_less_numeral zero_less_power)
  then have "unat ((0 - x) AND width_mask width) = 2 ^ unat width - unat x"
    unfolding neg_masked [OF assms] by simp
  moreover have "uint x < 2 ^ unat width" using assms(2) by (simp add: uint_power)
  ultimately show ?thesis using True assms(2) by (simp add: as_signed_def of_nat_diff)
qed (simp add: as_signed_def)

lemma as_signed_neg:
  assumes "valid_width width" and "unat q \<le> 2 ^ (unat width - 1)"
  shows "as_signed width ((0 - q) AND width_mask width) = - int (unat q) \<and>
    unat ((0 - q) AND width_mask width) < 2 ^ unat width"
proof -
  have w: "unat width = Suc (unat width - 1)" using assms(1) by (simp add: valid_width_unat)
  then have p: "(2::nat) ^ unat width = 2 * 2 ^ (unat width - 1)" by (metis power_Suc)
  have q: "unat q < 2 ^ unat width" using assms(2) p by (simp add: order.strict_trans1)
  show ?thesis
  proof (cases "unat q = 0")
    case False
    then have n: "unat ((0 - q) AND width_mask width) = 2 ^ unat width - unat q"
      unfolding neg_masked [OF assms(1) q] by simp
    moreover have "2 ^ (unat width - 1) \<le> 2 ^ unat width - unat q" using p assms(2) by simp
    ultimately show ?thesis using q False by (simp add: as_signed_def of_nat_diff)
  qed (simp add: unat_eq_zero as_signed_def)
qed

lemma unat_two_power: "n < 64 \<Longrightarrow> unat (2 ^ n :: u64) = 2 ^ n"
proof -
  assume "n < 64"
  then have "(2::nat) ^ n < 2 ^ 64" by (intro power_strict_increasing) simp_all
  then have "unat (of_nat (2 ^ n) :: u64) = 2 ^ n" by (subst unat_of_nat) simp
  then show ?thesis by simp
qed

lemma as_signed_corner:
  assumes v: "valid_width width" and x: "unat x < 2 ^ unat width"
  shows "as_signed width x = - (2 ^ (unat width - 1)) \<longleftrightarrow> x = push_bit (unat (width - 1)) 1"
    and "as_signed width x = - 1 \<longleftrightarrow> x = width_mask width"
proof -
  have w: "unat (width - 1) = unat width - 1" "unat width \<le> 64" "unat width - 1 < 64"
    using v by (auto simp: valid_width_def unat_sub word_le_nat_alt)
  have "unat (push_bit (unat (width - 1)) 1 :: u64) = 2 ^ (unat width - 1)"
    using w(1) unat_two_power [OF w(3)] by (simp add: push_bit_eq_mult)
  then have "int (unat (push_bit (unat (width - 1)) 1 :: u64)) = int (2 ^ (unat width - 1))" by (simp only:)
  then have h: "uint (push_bit (unat (width - 1)) 1 :: u64) = 2 ^ (unat width - 1)" by simp
  have "unat (width_mask width) = 2 ^ unat width - 1"
    using v unat_mask [of "unat width"] by (simp add: width_mask_eq w(2))
  then have "int (unat (width_mask width)) = int (2 ^ unat width - 1)" by (simp only:)
  then have m: "uint (width_mask width) = 2 ^ unat width - 1" by (simp add: of_nat_diff)
  show "as_signed width x = - (2 ^ (unat width - 1)) \<longleftrightarrow> x = push_bit (unat (width - 1)) 1"
    using as_signed_range [OF v x] by (simp only: word_uint_eq_iff h)
  show "as_signed width x = - 1 \<longleftrightarrow> x = width_mask width"
    using as_signed_range [OF v x] by (simp only: word_uint_eq_iff m)
qed

lemma divide_magnitudes:
  assumes v: "valid_width width" and x: "unat x < 2 ^ unat width" and y: "unat y < 2 ^ unat width"
    and y0: "y \<noteq> 0" and no: "\<not> (as_signed width x = - (2 ^ (unat width - 1)) \<and> as_signed width y = - 1)"
  defines "q \<equiv> \<bar>as_signed width x\<bar> div \<bar>as_signed width y\<bar>"
  shows "q \<le> 2 ^ (unat width - 1) \<and>
    ((as_signed width x < 0) = (as_signed width y < 0) \<longrightarrow> q < 2 ^ (unat width - 1))"
proof -
  let ?h = "(2::int) ^ (unat width - 1)"
  have rx: "- ?h \<le> as_signed width x" "as_signed width x < ?h" using as_signed_range [OF v x] by auto
  have "uint y \<noteq> 2 ^ unat width" using y uint_power(1) [of y "unat width"] by auto
  then have ny: "as_signed width y \<noteq> 0" using y0 by (auto simp: as_signed_def uint_0_iff)
  have "q \<le> \<bar>as_signed width x\<bar>" unfolding q_def using ny by (intro zdiv_mono2 [where b' = 1, simplified]) auto
  then have "q \<le> ?h" using rx by auto
  moreover have "q < ?h" if same: "(as_signed width x < 0) = (as_signed width y < 0)"
  proof (rule ccontr)
    assume "\<not> q < ?h"
    with \<open>q \<le> \<bar>as_signed width x\<bar>\<close> rx have ax: "as_signed width x = - ?h" and q: "q = ?h" by auto
    then have neg: "as_signed width y < 0" using same by auto
    have "\<bar>as_signed width y\<bar> = 1"
    proof (rule ccontr)
      assume "\<bar>as_signed width y\<bar> \<noteq> 1"
      then have "2 \<le> \<bar>as_signed width y\<bar>" using ny by auto
      then have "q \<le> ?h div 2" unfolding q_def ax by (simp add: zdiv_mono2)
      moreover have "?h div 2 < ?h" by (rule int_div_less_self) simp_all
      ultimately show False using q by linarith
    qed
    with neg have "as_signed width y = - 1" by simp
    with ax no show False by simp
  qed
  ultimately show ?thesis by simp
qed

text \<open>The quotient as \<open>checked_divide\<close> computes it.\<close>

definition quotient_word :: "u32 \<Rightarrow> u64 \<Rightarrow> u64 \<Rightarrow> u64" where
  "quotient_word width x y =
     (let sign = push_bit (unat (width - 1)) 1; m = width_mask width;
          negative_x = (x AND sign \<noteq> 0); negative_y = (y AND sign \<noteq> 0);
          magnitude_x = (if negative_x then (0 - x) AND m else x);
          magnitude_y = (if negative_y then (0 - y) AND m else y);
          quotient = magnitude_x div magnitude_y
      in if negative_x \<noteq> negative_y then (0 - quotient) AND m else quotient)"

lemma negative_iff:
  assumes "valid_width width" and "unat x < 2 ^ unat width"
  shows "(x AND push_bit (unat (width - 1)) 1 \<noteq> 0) \<longleftrightarrow> as_signed width x < 0"
  unfolding sign_bit [OF assms] using assms(2) uint_power(1) [of x "unat width"]
  by (auto simp: as_signed_def)

lemma signed_quotient:
  assumes v: "valid_width width" and x: "unat x < 2 ^ unat width" and y: "unat y < 2 ^ unat width"
    and y0: "y \<noteq> 0" and no: "\<not> (as_signed width x = - (2 ^ (unat width - 1)) \<and> as_signed width y = - 1)"
  shows "unat (quotient_word width x y) < 2 ^ unat width \<and>
    as_signed width (quotient_word width x y) = signed_divide (as_signed width x) (as_signed width y)"
proof -
  let ?sx = "as_signed width x" and ?sy = "as_signed width y"
  define q where "q = (if ?sx < 0 then (0 - x) AND width_mask width else x) div
      (if ?sy < 0 then (0 - y) AND width_mask width else y)"
  have qw: "quotient_word width x y = (if (?sx < 0) \<noteq> (?sy < 0) then (0 - q) AND width_mask width else q)"
    unfolding quotient_word_def Let_def negative_iff [OF v x] negative_iff [OF v y] q_def ..
  have mag: "int (unat (if ?sx < 0 then (0 - x) AND width_mask width else x)) = \<bar>?sx\<bar>"
    "int (unat (if ?sy < 0 then (0 - y) AND width_mask width else y)) = \<bar>?sy\<bar>"
    using magnitude [OF v x] magnitude [OF v y] negative_iff [OF v x] negative_iff [OF v y]
      sign_bit [OF v x] sign_bit [OF v y] by (simp_all only:)
  have q: "int (unat q) = \<bar>?sx\<bar> div \<bar>?sy\<bar>" unfolding q_def unat_div zdiv_int mag ..
  note b = divide_magnitudes [OF v x y y0 no, folded q]
  have "int (unat q) \<le> int (2 ^ (unat width - 1))" using b by simp
  then have le: "unat q \<le> 2 ^ (unat width - 1)" by (simp only: of_nat_le_iff)
  have sd: "signed_divide ?sx ?sy = (if (?sx < 0) \<noteq> (?sy < 0) then - int (unat q) else int (unat q))"
    unfolding q signed_divide_int_def by (cases "?sx = 0"; cases "?sy = 0") (auto simp: sgn_if)
  show ?thesis
  proof (cases "(?sx < 0) = (?sy < 0)")
    case True
    then have lt: "unat q < 2 ^ (unat width - 1)" using b by (simp add: uint_power)
    moreover have "(2::nat) ^ (unat width - 1) \<le> 2 ^ unat width" by (intro power_increasing) simp_all
    ultimately have "unat q < 2 ^ unat width" by linarith
    moreover have "as_signed width q = int (unat q)" using lt by (simp add: as_signed_def)
    ultimately show ?thesis using True by (simp add: qw sd)
  next
    case False
    then show ?thesis using as_signed_neg [OF v le] by (simp add: qw sd)
  qed
qed

section \<open>Properties\<close>

text \<open>
  The unary operators on a \<open>width\<close>-bit value: complement is \<open>2 ^ width - 1 - n\<close>,
  negation is \<open>(2 ^ width - n) mod 2 ^ width\<close>, both give a \<open>width\<close>-bit value, and each is
  its own inverse.
\<close>

theorem unary_exact:
  assumes "bits v width = Inr n"
  shows "\<exists>c m. eval_unary 1 v width = Inr (VU64 c) \<and> unat c = 2 ^ unat width - 1 - unat n \<and>
    eval_unary 2 v width = Inr (VU64 m) \<and> unat m = (2 ^ unat width - unat n) mod 2 ^ unat width \<and>
    bits (VU64 c) width = Inr c \<and> bits (VU64 m) width = Inr m \<and>
    eval_unary 1 (VU64 c) width = Inr v \<and> eval_unary 2 (VU64 m) width = Inr v"
proof -
  have b: "valid_width width" "v = VU64 n" "unat n < 2 ^ unat width" using assms by (auto simp: bits_Inr)
  let ?c = "NOT n AND width_mask width" and ?m = "(0 - n) AND width_mask width"
  note cm = not_masked [OF b(1,3)] neg_masked [OF b(1,3)]
  have c: "unat ?c < 2 ^ unat width" unfolding cm(1) by (simp add: less_imp_diff_less)
  have m: "unat ?m < 2 ^ unat width" unfolding cm(2) by simp
  have "unat (NOT ?c AND width_mask width) = unat n"
    unfolding not_masked [OF b(1) c] cm(1) using b(3) by simp
  then have cc: "NOT ?c AND width_mask width = n" by (simp only: word_unat_eq_iff)
  have "unat ((0 - ?m) AND width_mask width) = unat n"
    unfolding neg_masked [OF b(1) m] cm(2) using b(3) by (cases "unat n = 0") simp_all
  then have mm: "(0 - ?m) AND width_mask width = n" by (simp only: word_unat_eq_iff)
  have e: "eval_unary 1 (VU64 k) width = Inr (VU64 (NOT k AND width_mask width))"
    "eval_unary 2 (VU64 k) width = Inr (VU64 ((0 - k) AND width_mask width))"
    if "unat k < 2 ^ unat width" for k
    using bits_VU64 [OF b(1) that] by (simp_all add: eval_unary_def)
  show ?thesis
    using e [OF b(3)] e [OF c] e [OF m] cm cc mm bits_VU64 [OF b(1) c] bits_VU64 [OF b(1) m] b(2)
    by (intro exI [of _ ?c] exI [of _ ?m]) simp
qed

text \<open>
  Claim C31. Division of \<open>width\<close>-bit values fails exactly when the divisor is zero or, in
  two's complement, when the smallest number is divided by \<open>- 1\<close>; otherwise the result is
  the \<open>width\<close>-bit encoding of the quotient, truncated toward zero.
\<close>

theorem divide_exact:
  assumes "bits a width = Inr x" and "bits b width = Inr y"
  shows "(y = 0 \<longrightarrow> checked_divide a b width s = fail InvalidArgument ''DivisionByZero'') \<and>
    (y \<noteq> 0 \<longrightarrow> (\<exists>q. checked_divide a b width False = Inr (VU64 q) \<and> unat q = unat x div unat y)) \<and>
    (y \<noteq> 0 \<and> as_signed width x = - (2 ^ (unat width - 1)) \<and> as_signed width y = - 1 \<longrightarrow>
       checked_divide a b width True = fail Overflow ''ArithmeticOverflow'') \<and>
    (y \<noteq> 0 \<and> \<not> (as_signed width x = - (2 ^ (unat width - 1)) \<and> as_signed width y = - 1) \<longrightarrow>
       (\<exists>q. checked_divide a b width True = Inr (VU64 q) \<and> bits (VU64 q) width = Inr q \<and>
          as_signed width q = signed_divide (as_signed width x) (as_signed width y)))"
proof (intro conjI impI)
  have v: "valid_width width" and x: "unat x < 2 ^ unat width" and y: "unat y < 2 ^ unat width"
    using assms by (auto simp: bits_Inr)
  let ?sx = "as_signed width x" and ?sy = "as_signed width y"
  show "checked_divide a b width s = fail InvalidArgument ''DivisionByZero''" if "y = 0"
    using assms that by (simp add: checked_divide_def)
  show "\<exists>q. checked_divide a b width False = Inr (VU64 q) \<and> unat q = unat x div unat y" if "y \<noteq> 0"
    using assms that by (simp add: checked_divide_def unat_div)
  show "checked_divide a b width True = fail Overflow ''ArithmeticOverflow''"
    if "y \<noteq> 0 \<and> ?sx = - (2 ^ (unat width - 1)) \<and> ?sy = - 1"
    unfolding checked_divide_def assms Let_def
    using that as_signed_corner(1) [OF v x] as_signed_corner(2) [OF v y] by auto
  assume ok: "y \<noteq> 0 \<and> \<not> (?sx = - (2 ^ (unat width - 1)) \<and> ?sy = - 1)"
  note sgn = signed_quotient [OF v x y]
  show "\<exists>q. checked_divide a b width True = Inr (VU64 q) \<and> bits (VU64 q) width = Inr q \<and>
      as_signed width q = signed_divide ?sx ?sy"
    using ok sgn as_signed_corner(1) [OF v x] as_signed_corner(2) [OF v y] bits_VU64 [OF v]
    unfolding checked_divide_def assms sum.case quotient_word_def Let_def by simp
qed

text \<open>
  Conversions and shifts compute on the number a value stands for: widening keeps
  it, truncation takes it modulo \<open>2 ^ dest\<close>, the checked conversion keeps it or reports
  overflow, a left shift multiplies modulo \<open>2 ^ width\<close>, a right shift divides.
\<close>

theorem convert_shift_exact:
  assumes "bits v width = Inr n" and "valid_width dest"
  shows "(width \<le> dest \<longrightarrow> eval_convert 0 v width dest = Inr (VU64 n)) \<and>
    (dest \<le> width \<longrightarrow> (\<exists>k. eval_convert 1 v width dest = Inr (VU64 k) \<and> unat k = unat n mod 2 ^ unat dest)) \<and>
    (dest \<le> width \<longrightarrow> eval_convert 2 v width dest =
       (if unat n < 2 ^ unat dest then Inr (VU64 n) else fail Overflow ''ArithmeticOverflow'')) \<and>
    (unat count < unat width \<longrightarrow>
       (\<exists>k. checked_shift v count width True = Inr (VU64 k) \<and> unat k = unat n * 2 ^ unat count mod 2 ^ unat width) \<and>
       (\<exists>k. checked_shift v count width False = Inr (VU64 k) \<and> unat k = unat n div 2 ^ unat count))"
proof (intro conjI impI)
  have b: "valid_width width" "v = VU64 n" "unat n < 2 ^ unat width" using assms(1) by (auto simp: bits_Inr)
  have id: "n AND width_mask dest = n" if "unat n < 2 ^ unat dest"
    using that by (simp add: word_unat_eq_iff and_width_mask [OF assms(2)])
  show "eval_convert 0 v width dest = Inr (VU64 n)" if "width \<le> dest"
  proof -
    have "(2::nat) ^ unat width \<le> 2 ^ unat dest" using that by (intro power_increasing) (simp_all add: word_le_nat_alt)
    then have "unat n < 2 ^ unat dest" using b(3) by linarith
    then show ?thesis using assms that id by (simp add: eval_convert_def)
  qed
  show "\<exists>k. eval_convert 1 v width dest = Inr (VU64 k) \<and> unat k = unat n mod 2 ^ unat dest" if "dest \<le> width"
    using assms that by (simp add: eval_convert_def and_width_mask)
  show "eval_convert 2 v width dest =
      (if unat n < 2 ^ unat dest then Inr (VU64 n) else fail Overflow ''ArithmeticOverflow'')" if "dest \<le> width"
    using assms that id le_width_mask [OF assms(2), of n] by (auto simp: eval_convert_def not_less [symmetric])
  assume c: "unat count < unat width"
  then have sh: "checked_shift v count width left = Inr (VU64 (if left
      then push_bit (unat count) n AND width_mask width else drop_bit (unat count) n))" for left
    using assms(1) by (simp add: checked_shift_def)
  have "unat (push_bit (unat count) n) mod 2 ^ unat width = unat n * 2 ^ unat count mod 2 ^ unat width"
    using mod_mod_cancel [OF width_dvd [OF b(1)], of "unat n * 2 ^ unat count"]
    unfolding unsigned_push_bit_eq by (simp add: push_bit_eq_mult take_bit_eq_mod)
  then show "\<exists>k. checked_shift v count width True = Inr (VU64 k) \<and> unat k = unat n * 2 ^ unat count mod 2 ^ unat width"
    unfolding sh by (simp add: and_width_mask [OF b(1)])
  have "unat (drop_bit (unat count) n) = unat n div 2 ^ unat count"
    unfolding unsigned_drop_bit_eq using unsigned_less [of n, where 'a = nat]
    by (simp add: drop_bit_eq_div take_bit_nat_eq_self)
  then show "\<exists>k. checked_shift v count width False = Inr (VU64 k) \<and> unat k = unat n div 2 ^ unat count"
    unfolding sh by simp
qed

section \<open>Witnesses\<close>

theorem unary_exact_witness:
  "bits (VU64 5) 8 = Inr 5 \<and> (\<exists>c. eval_unary 1 (VU64 5) 8 = Inr (VU64 c) \<and> unat c = 250)"
proof -
  have b: "bits (VU64 5) 8 = Inr 5" by (simp add: bits_Inr valid_width_def)
  show ?thesis using unary_exact [OF b] b by auto
qed

theorem divide_exact_witness:
  "bits (VU64 249) 8 = Inr 249 \<and> bits (VU64 2) 8 = Inr 2 \<and>
   (\<exists>q. checked_divide (VU64 249) (VU64 2) 8 True = Inr (VU64 q) \<and> as_signed 8 q = - 3)"
proof -
  have b: "bits (VU64 249) 8 = Inr 249" "bits (VU64 2) 8 = Inr 2" by (simp_all add: bits_Inr valid_width_def)
  have s: "as_signed 8 249 = - 7" "as_signed 8 2 = 2" by (simp_all add: as_signed_def)
  show ?thesis using divide_exact [OF b, of True] b by (auto simp: s signed_divide_int_def)
qed

theorem convert_shift_exact_witness:
  "bits (VU64 300) 16 = Inr 300 \<and> (\<exists>k. eval_convert 1 (VU64 300) 16 8 = Inr (VU64 k) \<and> unat k = 44) \<and>
   (\<exists>k. checked_shift (VU64 300) 10 16 True = Inr (VU64 k) \<and> unat k = 45056)"
proof -
  have b: "bits (VU64 300) 16 = Inr 300" "valid_width 8" by (simp_all add: bits_Inr valid_width_def)
  show ?thesis using convert_shift_exact [OF b, of 10] b by simp
qed

end
