(* ===== verification/Objects.thy ===== *)
theory Objects
  imports Event_Txn_Props
begin

text \<open>
  What the standard objects of \<open>stdlib/\<close> share: the context check of
  \<open>stdlib/src/objects.cpp\<close>, the accessors by which they take a cell's value apart, the
  read-compute-buffer step on the object's cell, and the pattern in which an operation takes a
  checkpoint, stages several effects and rolls back when one of them is refused.

  An object keeps its state in a \<open>VersionedCell\<close>; the model knows the cell by its address
  in the world. \<open>std::get\<close> throws on the wrong alternative and indexing past the end is
  undefined in C++; the accessors below are total, and the invariants of the objects show
  that they are only applied to values of the right shape.
\<close>

definition object_context :: "event_txn \<Rightarrow> bool \<Rightarrow> unit expected" where
  "object_context t debug =
     (let k = ec_kind (et_context t) in
      if (if debug then k \<noteq> CK_Debug else k \<noteq> CK_Timed \<and> k \<noteq> CK_Process)
      then fail InvalidState ''object context not permitted'' else Inr ())"

fun get_bytes :: "value_t \<Rightarrow> bytes" where
  "get_bytes (VBytes b) = b"
| "get_bytes _ = []"

fun get_array :: "value_t \<Rightarrow> value_t list" where
  "get_array (VArray a) = a"
| "get_array _ = []"

fun get_u64 :: "value_t \<Rightarrow> u64" where
  "get_u64 (VU64 n) = n"
| "get_u64 _ = 0"

fun get_bool :: "value_t \<Rightarrow> bool" where
  "get_bool (VBool b) = b"
| "get_bool _ = False"

fun get_handle :: "value_t \<Rightarrow> handle" where
  "get_handle (VHandle h) = h"
| "get_handle _ = default_handle"

abbreviation txn_rmw where
  "txn_rmw pf w \<equiv> cell_rmw (et_read w) (et_buffer pf w)"

lemma object_context_Inr:
  "object_context t False = Inr u \<longleftrightarrow> ec_kind (et_context t) = CK_Timed \<or> ec_kind (et_context t) = CK_Process"
  "object_context t True = Inr u \<longleftrightarrow> ec_kind (et_context t) = CK_Debug"
  by (auto simp: object_context_def fail_def Let_def)

text \<open>An open segment can read a cell of its epoch.\<close>

lemma rmw_context:
  "txn_rmw pf w c f t = (res, t') \<Longrightarrow> et_context t' = et_context t"
  by (auto simp: cell_rmw_def dest: et_buffer_frame split: sum.splits option.splits prod.splits)

text \<open>The step is a staging step of the segment.\<close>

lemma rmw_stages:
  assumes "txn_rmw pf w c f t = (res, t')"
  shows "(txn_reachable pf ops w t ss \<longrightarrow> txn_reachable pf ops w t' ss) \<and> extends t t' []"
proof (cases res)
  case (Inl e)
  with assms seg.rmw_Inl have "t' = t" by blast
  then show ?thesis by simp
next
  case (Inr r)
  from assms [unfolded Inr] show ?thesis
  proof (cases rule: seg.rmw_Inr)
    case (2 v v')
    then show ?thesis
      using txn_reachable.buffer [OF _ 2(3)] et_buffer_frame [OF 2(3)] by (auto simp: extends_def)
  qed simp
qed

section \<open>Rolling back\<close>

definition roll_back ::
  "'x participant_ops \<Rightarrow> savepoint \<Rightarrow> event_txn \<Rightarrow> 'x world \<Rightarrow> event_txn \<times> 'x world" where
  "roll_back ops cp t w = (case et_rollback ops cp t w of (_, _, t', w') \<Rightarrow> (t', w'))"

text \<open>What rolling back to the checkpoint taken at \<open>t\<close> gives.\<close>

lemma roll_back_restores:
  assumes ops: "participants ops" and reach: "txn_reachable pf ops w1 t1 ss"
    and ext: "extends t t1 es" and grew: "slots_grew w w1 es" and cp: "et_checkpoint t = Inr s"
  shows "fst (roll_back ops s t1 w1) = t \<and> slots_grew w (snd (roll_back ops s t1 w1)) []"
proof -
  let ?w = "discard_participants ops (drop (length (et_participants t)) (et_participants t1)) w1"
  have "events_ok w1 (et_events t @ es)"
    using participants.reachable_inv [OF ops reach] ext by (simp add: txn_inv_def extends_def)
  then have "slots_grew w (destroy_events es ?w) []"
    using grew participants.discard_participants_frame [OF ops]
    by (intro participants.rollback_slots [OF ops])
  then show ?thesis by (simp add: roll_back_def rollback_extends [OF ext cp])
qed

lemma stage_event_stages:
  assumes reach: "participants ops" "txn_reachable pf ops w t ss"
    and st: "et_stage_event pf qa e t w = (res, t', w')"
  shows "txn_reachable pf ops w' t' ss" "\<exists>es. extends t t' es \<and> slots_grew w w' es"
  using txn_reachable.event [OF reach(2) st] participants.reachable_inv [OF reach]
    stage_event_grew [OF _ st] by auto

lemma stage_event_draft:
  assumes inv: "eq_inv (queue_of w qa)" and st: "et_stage_event pf qa e t w = (Inr token, t', w')"
  shows "\<exists>r. et_events t' = et_events t @ [(qa, r)] \<and> er_token r = token \<and>
    sl_event (eq_slots (queue_of w' qa) ! unat (h_slot token)) = set_sequence (eq_next_sequence (queue_of w qa)) e"
proof -
  obtain r q' where p: "eq_prepare pf qa e (queue_of w qa) = (Inr r, q')" and r: "token = er_token r"
      "w' = set_queue qa q' w" "et_events t' = et_events t @ [(qa, r)]"
    using st
    by (cases "eq_prepare pf qa e (queue_of w qa)"; cases "fst (eq_prepare pf qa e (queue_of w qa))")
      (auto simp: et_stage_event_def Let_def fail_def split: if_splits)
  from eq_prepare_Inr [OF p] obtain k ss where k: "k < length (eq_slots (queue_of w qa))"
      "length ss = length (eq_slots (queue_of w qa))"
    and q': "q' = (queue_of w qa)\<lparr>eq_slots := ss[k := \<lparr>sl_state = Slot_Reserved,
        sl_generation = sl_generation (eq_slots (queue_of w qa) ! k) + 1,
        sl_event = set_sequence (eq_next_sequence (queue_of w qa)) e, sl_cancelled = False\<rparr>],
      eq_next_sequence := eq_next_sequence (queue_of w qa) + 1\<rparr>"
    and tok: "er_token r = token_of q' k"
    by (metis event_reservation.select_convs(2))
  have "unat (of_nat k :: u32) = k" using inv k(1) by (simp add: unat_of_nat eq_inv_def size_inv_def)
  then show ?thesis using k r by (auto simp: tok token_of_def q')
qed

section \<open>Staging steps\<close>

text \<open>
  A step takes a segment and the world and gives a result and both; \<open>step_then\<close> is the
  source's \<open>if (r) r = ...\<close>, \<open>step_guard\<close> its \<open>if (!r) { tx.rollback(save); return r.error(); }\<close>.
\<close>

type_synonym ('r, 'x) step = "event_txn \<Rightarrow> 'x world \<Rightarrow> 'r expected \<times> event_txn \<times> 'x world"

definition step_buffer :: "platform \<Rightarrow> nat \<Rightarrow> value_t \<Rightarrow> (unit, 'x) step" where
  "step_buffer pf c v t w = (case et_buffer pf w c v t of (r, t') \<Rightarrow> (r, t', w))"

definition step_cancel :: "nat \<Rightarrow> event_token \<Rightarrow> (unit, 'x) step" where
  "step_cancel qa h t w = (case et_stage_cancel w qa h t of (r, t') \<Rightarrow> (r, t', w))"

definition step_when :: "bool \<Rightarrow> (unit, 'x) step \<Rightarrow> (unit, 'x) step" where
  "step_when b a t w = (if b then a t w else (Inr (), t, w))"

definition step_bind :: "('a, 'x) step \<Rightarrow> ('a \<Rightarrow> ('b, 'x) step) \<Rightarrow> ('b, 'x) step" where
  "step_bind a f t w =
     (case a t w of
        (Inl e, t', w') \<Rightarrow> (Inl e, t', w')
      | (Inr r, t', w') \<Rightarrow> f r t' w')"

definition step_then :: "('a, 'x) step \<Rightarrow> ('b, 'x) step \<Rightarrow> ('b, 'x) step" where
  "step_then a b = step_bind a (\<lambda>_. b)"

definition step_return :: "'r \<Rightarrow> ('r, 'x) step" where
  "step_return r t w = (Inr r, t, w)"

definition step_guard :: "'x participant_ops \<Rightarrow> savepoint \<Rightarrow> ('r, 'x) step \<Rightarrow> ('r, 'x) step" where
  "step_guard ops cp a t w =
     (case a t w of
        (Inl e, t', w') \<Rightarrow> (Inl e, roll_back ops cp t' w')
      | (Inr r, t', w') \<Rightarrow> (Inr r, t', w'))"

text \<open>
  A step only stages: it keeps the segment reachable, adds to what the segment holds, and
  occupies in the queues only slots of the reservations it adds.
\<close>

definition staging :: "platform \<Rightarrow> 'x participant_ops \<Rightarrow> ('r, 'x) step \<Rightarrow> bool" where
  "staging pf ops a \<longleftrightarrow> (\<forall>t w res t' w' ss. a t w = (res, t', w') \<longrightarrow> txn_reachable pf ops w t ss \<longrightarrow>
     txn_reachable pf ops w' t' ss \<and> (\<exists>es. extends t t' es \<and> slots_grew w w' es))"

lemma stagingD:
  assumes "staging pf ops a" and "a t w = (res, t', w')" and "txn_reachable pf ops w t ss"
  obtains es where "txn_reachable pf ops w' t' ss" "extends t t' es" "slots_grew w w' es"
  using assms unfolding staging_def by blast

lemma staging_bind:
  assumes "staging pf ops a" and "\<And>r. staging pf ops (f r)"
  shows "staging pf ops (step_bind a f)"
  unfolding staging_def
proof (intro allI impI)
  fix t w res t' w' ss
  assume st: "step_bind a f t w = (res, t', w')" and reach: "txn_reachable pf ops w t ss"
  obtain r1 t1 w1 where a: "a t w = (r1, t1, w1)" by (metis prod_cases3)
  obtain es where es: "txn_reachable pf ops w1 t1 ss" "extends t t1 es" "slots_grew w w1 es"
    using stagingD [OF assms(1) a reach] by blast
  show "txn_reachable pf ops w' t' ss \<and> (\<exists>es. extends t t' es \<and> slots_grew w w' es)"
  proof (cases r1)
    case (Inl e)
    with st a es show ?thesis by (auto simp: step_bind_def)
  next
    case (Inr r)
    then have "f r t1 w1 = (res, t', w')" using st a by (simp add: step_bind_def)
    from stagingD [OF assms(2) this es(1)] obtain es' where es': "txn_reachable pf ops w' t' ss"
        "extends t1 t' es'" "slots_grew w1 w' es'" by blast
    with extends_trans [OF es(2) es'(2)] slots_grew_trans [OF es(3) es'(3)] show ?thesis by blast
  qed
qed

lemma slots_grew_queues: "w_queues w' = w_queues w \<Longrightarrow> w_cells w' = w_cells w \<Longrightarrow> slots_grew w w' []"
  by (simp add: slots_grew_def own_slots_def)

lemma staging_return: "staging pf ops (step_return r)"
  by (auto simp: staging_def step_return_def intro: exI [of _ "[]"])

lemma staging_when: "staging pf ops a \<Longrightarrow> staging pf ops (step_when b a)"
  by (cases b) (auto simp: staging_def step_when_def intro: exI [of _ "[]"])

lemma staging_then: "staging pf ops a \<Longrightarrow> staging pf ops b \<Longrightarrow> staging pf ops (step_then a b)"
  unfolding step_then_def by (rule staging_bind)

lemma staging_buffer: "staging pf ops (step_buffer pf c v)"
proof -
  have "extends t t' []" if "et_buffer pf w c v t = (res, t')" for res t t' and w :: "'x world"
    using et_buffer_frame [OF that] by (simp add: extends_def)
  then show ?thesis
    by (fastforce simp: staging_def step_buffer_def intro: txn_reachable.buffer split: prod.splits)
qed

lemma staging_cancel: "staging pf ops (step_cancel qa h)"
proof -
  have "extends t t' []" if "et_stage_cancel w qa h t = (res, t')" for res t t' and w :: "'x world"
    using et_stage_cancel_cases [OF that] by (auto simp: extends_def)
  then show ?thesis
    by (fastforce simp: staging_def step_cancel_def intro: txn_reachable.cancel split: prod.splits)
qed

lemma staging_event:
  assumes "participants ops"
  shows "staging pf ops (et_stage_event pf qa e)"
  using stage_event_stages [OF assms] unfolding staging_def by blast

lemma staging_participant:
  assumes "participants ops"
  shows "staging pf ops (et_stage_participant ops po)"
proof -
  have "extends t t' [] \<and> slots_grew w w' []" if "et_stage_participant ops po t w = (res, t', w')" for res t t' w w'
    using et_stage_participant_cases [OF that] participants.discard_queues [OF assms] participants.discard_cells [OF assms]
    by (auto simp: extends_def intro: slots_grew_queues)
  then show ?thesis unfolding staging_def using txn_reachable.participant by blast
qed

text \<open>Allocating a participant changes neither cells nor queues.\<close>

lemma staging_world:
  assumes "\<And>w. w_queues (g w) = w_queues w" and "\<And>w. w_cells (g w) = w_cells w"
    and "\<And>x. staging pf ops (a x)"
  shows "staging pf ops (\<lambda>t w. a (f w) t (g w))"
  unfolding staging_def
proof (intro allI impI)
  fix t w res t' w' ss
  assume st: "a (f w) t (g w) = (res, t', w')" and reach: "txn_reachable pf ops w t ss"
  have "txn_reachable pf ops (g w) t ss" using reach assms(1) by (rule txn_reachable.other)
  from stagingD [OF assms(3) st this] obtain es where es: "txn_reachable pf ops w' t' ss"
      "extends t t' es" "slots_grew (g w) w' es" by blast
  have "slots_grew w (g w) []" using assms(1,2) by (rule slots_grew_queues)
  from slots_grew_trans [OF this es(3)] es show "txn_reachable pf ops w' t' ss \<and> (\<exists>es. extends t t' es \<and> slots_grew w w' es)"
    by auto
qed

lemmas staging_intros = staging_return staging_when staging_then staging_bind staging_buffer staging_cancel

text \<open>A guarded step is atomic: refused, it leaves the segment, the cells and the slots as they were.\<close>

lemma guard_atomic:
  assumes "participants ops" and "staging pf ops a" and "txn_reachable pf ops w t ss"
    and "et_checkpoint t = Inr cp" and "step_guard ops cp a t w = (Inl e, t', w')"
  shows "t' = t \<and> slots_grew w w' []"
proof -
  obtain r1 t1 w1 where a: "a t w = (r1, t1, w1)" by (metis prod_cases3)
  obtain es where es: "txn_reachable pf ops w1 t1 ss" "extends t t1 es" "slots_grew w w1 es"
    using stagingD [OF assms(2) a assms(3)] by blast
  from assms(5) a have "roll_back ops cp t1 w1 = (t', w')" by (auto simp: step_guard_def split: sum.splits)
  with roll_back_restores [OF assms(1) es assms(4)] show ?thesis by simp
qed

lemma guard_Inr: "step_guard ops cp a t w = (Inr r, t', w') \<longleftrightarrow> a t w = (Inr r, t', w')"
  by (auto simp: step_guard_def split: prod.splits sum.splits)

lemma bind_Inr: "step_bind a f t w = (Inr r, t', w') \<longleftrightarrow> (\<exists>x t1 w1. a t w = (Inr x, t1, w1) \<and> f x t1 w1 = (Inr r, t', w'))"
  by (auto simp: step_bind_def split: prod.splits sum.splits)

lemma then_Inr: "step_then a b t w = (Inr r, t', w') \<longleftrightarrow> (\<exists>x t1 w1. a t w = (Inr x, t1, w1) \<and> b t1 w1 = (Inr r, t', w'))"
  by (simp add: step_then_def bind_Inr)

lemmas step_Inr = guard_Inr bind_Inr then_Inr

end
