(* ===== verification/Memory.thy ===== *)
theory Memory
  imports Objects
begin

text \<open>
  The memory object of \<open>stdlib/include/leanat/memory.hpp\<close> and \<open>stdlib/src/memory.cpp\<close>: a
  byte array in one stable cell, with bus transfers (streaming width and byte enables),
  ranged reads and writes, debug access, clear and reset.
\<close>

section \<open>Data\<close>

record memory =
  mem_cell :: nat
  mem_initial :: bytes

record memory_transfer_result =
  mt_status :: response_status
  mt_data :: bytes

record memory_debug_result =
  md_count :: nat
  md_data :: bytes

definition mem_size :: "memory \<Rightarrow> nat" where
  "mem_size m = length (mem_initial m)"

section \<open>Operations\<close>

text \<open>\<open>make\<close>: the cell to be placed in the world and the initial bytes.\<close>

definition mem_make :: "nat \<Rightarrow> bytes \<Rightarrow> (versioned_cell \<times> bytes) expected" where
  "mem_make n b =
     (if n = 0 then fail InvalidArgument ''memory size must be positive''
      else let b = (if b = [] then replicate n 0 else b) in
        if length b \<noteq> n then fail InvalidArgument ''initial memory size mismatch''
        else Inr (\<lparr>vc_value = VBytes b, vc_version = 0, vc_epoch = 0, vc_stable_bytes = True,
                   vc_epoch_independent = True\<rparr>, b))"

definition bad_enable :: "bytes \<Rightarrow> bool" where
  "bad_enable bs \<longleftrightarrow> (\<exists>b \<in> set bs. b \<noteq> 0 \<and> b \<noteq> 255)"

definition mem_validate_transfer :: "memory \<Rightarrow> payload_snapshot \<Rightarrow> response_status" where
  "mem_validate_transfer m p =
     (if pl_command p = Ignore then Ok
      else if pl_command p \<noteq> Read \<and> pl_command p \<noteq> Write then CommandError
      else if pl_data p = [] \<or> pl_streaming_width p = 0 then BurstError
      else if bad_enable (pl_byte_enable p) then ByteEnableError
      else let span = min (length (pl_data p)) (unat (pl_streaming_width p)) in
        if unat (pl_address p) \<ge> mem_size m \<or> span > mem_size m - unat (pl_address p)
        then AddressError else Ok)"

definition enabled :: "bytes \<Rightarrow> nat \<Rightarrow> bool" where
  "enabled be i \<longleftrightarrow> be = [] \<or> be ! (i mod length be) \<noteq> 0"

definition transfer_address :: "payload_snapshot \<Rightarrow> nat \<Rightarrow> nat" where
  "transfer_address p i = unat (pl_address p + of_nat i mod pl_streaming_width p)"

text \<open>The loop of \<open>transfer\<close> on the result data and the memory bytes.\<close>

definition transfer_step :: "payload_snapshot \<Rightarrow> nat \<Rightarrow> bytes \<times> bytes \<Rightarrow> bytes \<times> bytes" where
  "transfer_step p i = (\<lambda>(r, b).
     if enabled (pl_byte_enable p) i then
       (let a = transfer_address p i in
        if pl_command p = Read then (r[i := b ! a], b) else (r, b[a := pl_data p ! i]))
     else (r, b))"

definition transfer_loop :: "payload_snapshot \<Rightarrow> bytes \<Rightarrow> bytes \<times> bytes" where
  "transfer_loop p b = fold (transfer_step p) [0..<length (pl_data p)] (pl_data p, b)"

definition mem_transfer ::
  "platform \<Rightarrow> 'x world \<Rightarrow> memory \<Rightarrow> payload_snapshot \<Rightarrow> event_txn \<Rightarrow>
     memory_transfer_result expected \<times> event_txn" where
  "mem_transfer pf w m p t =
     (case object_context t False of
        Inl e \<Rightarrow> (Inl e, t)
      | Inr _ \<Rightarrow>
         (let status = mem_validate_transfer m p in
          if status \<noteq> Ok \<or> pl_command p = Ignore
          then (Inr \<lparr>mt_status = status, mt_data = pl_data p\<rparr>, t)
          else txn_rmw pf w (mem_cell m) (\<lambda>v.
            case transfer_loop p (get_bytes v) of (r, b) \<Rightarrow>
              Inr (\<lparr>mt_status = status, mt_data = r\<rparr>,
                   if pl_command p = Write then Some (VBytes b) else None)) t))"

definition mem_read_bytes ::
  "'x world \<Rightarrow> memory \<Rightarrow> u64 \<Rightarrow> nat \<Rightarrow> event_txn \<Rightarrow> bytes expected" where
  "mem_read_bytes w m a n t =
     (case object_context t False of
        Inl e \<Rightarrow> Inl e
      | Inr _ \<Rightarrow>
         (if n = 0 then Inr []
          else if unat a \<ge> mem_size m \<or> n > mem_size m - unat a then fail InvalidArgument ''memory range''
          else case et_read w t (mem_cell m) of
            Inl e \<Rightarrow> Inl e
          | Inr v \<Rightarrow> Inr (take n (drop (unat a) (get_bytes v)))))"

definition write_loop :: "nat \<Rightarrow> bytes \<Rightarrow> bytes \<Rightarrow> bytes \<Rightarrow> bytes" where
  "write_loop a b be bs = fold (\<lambda>i bs. if enabled be i then bs[a + i := b ! i] else bs) [0..<length b] bs"

definition mem_write_bytes ::
  "platform \<Rightarrow> 'x world \<Rightarrow> memory \<Rightarrow> u64 \<Rightarrow> bytes \<Rightarrow> bytes \<Rightarrow> event_txn \<Rightarrow>
     unit expected \<times> event_txn" where
  "mem_write_bytes pf w m a b be t =
     (case object_context t False of
        Inl e \<Rightarrow> (Inl e, t)
      | Inr _ \<Rightarrow>
         (if b = [] then (Inr (), t)
          else if unat a \<ge> mem_size m \<or> length b > mem_size m - unat a
          then (fail InvalidArgument ''memory range'', t)
          else if bad_enable be then (fail InvalidArgument ''memory byte enable'', t)
          else txn_rmw pf w (mem_cell m)
            (\<lambda>v. Inr ((), Some (VBytes (write_loop (unat a) b be (get_bytes v))))) t))"

definition mem_debug_transfer ::
  "platform \<Rightarrow> 'x world \<Rightarrow> memory \<Rightarrow> command \<Rightarrow> u64 \<Rightarrow> bytes \<Rightarrow> nat \<Rightarrow> event_txn \<Rightarrow>
     memory_debug_result expected \<times> event_txn" where
  "mem_debug_transfer pf w m cmd a input limit t =
     (case object_context t True of
        Inl e \<Rightarrow> (Inl e, t)
      | Inr _ \<Rightarrow>
         (if cmd \<noteq> Read \<and> cmd \<noteq> Write \<or> unat a \<ge> mem_size m
          then (Inr \<lparr>md_count = 0, md_data = input\<rparr>, t)
          else let count = min (length input) (min limit (mem_size m - unat a)) in
            txn_rmw pf w (mem_cell m) (\<lambda>v.
              let b = get_bytes v in
              if cmd = Read
              then Inr (\<lparr>md_count = count,
                         md_data = fold (\<lambda>i r. r[i := b ! (unat a + i)]) [0..<count] input\<rparr>, None)
              else Inr (\<lparr>md_count = count, md_data = input\<rparr>,
                        Some (VBytes (fold (\<lambda>i b. b[unat a + i := input ! i]) [0..<count] b)))) t))"

definition mem_clear ::
  "platform \<Rightarrow> 'x world \<Rightarrow> memory \<Rightarrow> event_txn \<Rightarrow> unit expected \<times> event_txn" where
  "mem_clear pf w m t =
     (case object_context t False of
        Inl e \<Rightarrow> (Inl e, t)
      | Inr _ \<Rightarrow> et_buffer pf w (mem_cell m) (VBytes (replicate (mem_size m) 0)) t)"

definition mem_reset ::
  "platform \<Rightarrow> 'x world \<Rightarrow> memory \<Rightarrow> event_txn \<Rightarrow> unit expected \<times> event_txn" where
  "mem_reset pf w m t =
     (case object_context t False of
        Inl e \<Rightarrow> (Inl e, t)
      | Inr _ \<Rightarrow> et_buffer pf w (mem_cell m) (VBytes (mem_initial m)) t)"

section \<open>Loops\<close>

lemma validate_transfer_Ok:
  assumes "mem_validate_transfer m p = Ok" and "pl_command p \<noteq> Ignore"
  shows "pl_data p \<noteq> []" "pl_streaming_width p \<noteq> 0" "\<not> bad_enable (pl_byte_enable p)"
    "unat (pl_address p) + min (length (pl_data p)) (unat (pl_streaming_width p)) \<le> mem_size m"
  using assms by (auto simp: mem_validate_transfer_def Let_def split: if_splits)

text \<open>
  A loop of conditional updates: position \<open>j\<close> gets the value of the last iteration that
  writes there.
\<close>

definition last_writer :: "(nat \<Rightarrow> bool) \<Rightarrow> (nat \<Rightarrow> nat) \<Rightarrow> nat \<Rightarrow> nat \<Rightarrow> nat option" where
  "last_writer P f n j = find (\<lambda>i. P i \<and> f i = j) (rev [0..<n])"

lemma last_writer_Suc:
  "last_writer P f (Suc n) j = (if P n \<and> f n = j then Some n else last_writer P f n j)"
  by (simp add: last_writer_def)

lemma fold_update:
  "j < length b \<Longrightarrow> fold (\<lambda>i b. if P i then b[f i := g i] else b) [0..<n] b ! j =
     (case last_writer P f n j of None \<Rightarrow> b ! j | Some i \<Rightarrow> g i) \<and>
   length (fold (\<lambda>i b. if P i then b[f i := g i] else b) [0..<n] b) = length b"
proof (induction n)
  case 0
  then show ?case by (simp add: last_writer_def)
next
  case (Suc n)
  then show ?case by (simp add: last_writer_Suc nth_update_total)
qed

lemma length_fold_update:
  "length (fold (\<lambda>i b. if P i then b[f i := g i] else b) xs b) = length b"
  by (induction xs arbitrary: b) simp_all

lemma last_writer_inj:
  "last_writer P (\<lambda>i. a + i) n j = (if a \<le> j \<and> j < a + n \<and> P (j - a) then Some (j - a) else None)"
proof (induction n)
  case (Suc n)
  then show ?case by (cases "j = a + n") (auto simp: last_writer_Suc)
qed (simp add: last_writer_def)

lemma last_writer_Some:
  "last_writer P f n j = Some i \<Longrightarrow> i < n \<and> P i \<and> f i = j \<and> (\<forall>k. i < k \<and> k < n \<and> P k \<longrightarrow> f k \<noteq> j)"
  by (induction n) (auto simp: last_writer_Suc last_writer_def less_Suc_eq split: if_splits)

text \<open>The address of byte \<open>i\<close> does not wrap and lies inside the memory.\<close>

definition payload_fits :: "memory \<Rightarrow> payload_snapshot \<Rightarrow> bool" where
  "payload_fits m p \<longleftrightarrow> mem_size m \<le> SIZE_MAX \<and> length (pl_data p) \<le> SIZE_MAX"

lemma transfer_address_exact:
  assumes "mem_validate_transfer m p = Ok" and "pl_command p \<noteq> Ignore"
    and "i < length (pl_data p)" and "payload_fits m p"
  shows "transfer_address p i = unat (pl_address p) + i mod unat (pl_streaming_width p)"
    "transfer_address p i < mem_size m"
proof -
  note v = validate_transfer_Ok [OF assms(1,2)]
  let ?s = "unat (pl_streaming_width p)"
  have s: "0 < ?s" using v(2) by (simp add: unat_gt_0)
  have "i mod ?s < length (pl_data p)" "i mod ?s < ?s"
    using assms(3) s le_less_trans [OF mod_less_eq_dividend] by auto
  then have bound: "unat (pl_address p) + i mod ?s < mem_size m" using v(4) by linarith
  have "unat (of_nat i :: u64) = i" using assms(3,4) by (simp add: payload_fits_def unat_of_nat)
  then have "unat (of_nat i mod pl_streaming_width p) = i mod ?s" by (simp add: unat_mod)
  then have "transfer_address p i = unat (pl_address p) + i mod ?s"
    using bound assms(4) unfolding transfer_address_def payload_fits_def
    by (subst unat_add_no_overflow) simp_all
  then show "transfer_address p i = unat (pl_address p) + i mod ?s" "transfer_address p i < mem_size m"
    using bound by simp_all
qed

lemma transfer_loop_read:
  assumes "pl_command p = Read"
  shows "transfer_loop p b = (fold (\<lambda>i r. if enabled (pl_byte_enable p) i then r[i := b ! transfer_address p i] else r)
     [0..<length (pl_data p)] (pl_data p), b)"
proof -
  have "fold (transfer_step p) xs (r, b) =
      (fold (\<lambda>i r. if enabled (pl_byte_enable p) i then r[i := b ! transfer_address p i] else r) xs r, b)" for xs r
    using assms by (induction xs arbitrary: r) (simp_all add: transfer_step_def Let_def)
  then show ?thesis by (simp add: transfer_loop_def)
qed

lemma transfer_loop_write:
  assumes "pl_command p \<noteq> Read"
  shows "transfer_loop p b = (pl_data p, fold (\<lambda>i b. if enabled (pl_byte_enable p) i
     then b[transfer_address p i := pl_data p ! i] else b) [0..<length (pl_data p)] b)"
proof -
  have "fold (transfer_step p) xs (r, b) = (r, fold (\<lambda>i b. if enabled (pl_byte_enable p) i
      then b[transfer_address p i := pl_data p ! i] else b) xs b)" for xs r
    using assms by (induction xs arbitrary: b) (simp_all add: transfer_step_def Let_def)
  then show ?thesis by (simp add: transfer_loop_def)
qed

lemma length_transfer_loop [simp]: "length (snd (transfer_loop p b)) = length b"
  by (cases "pl_command p = Read") (simp_all add: transfer_loop_read transfer_loop_write length_fold_update)

lemma length_write_loop [simp]: "length (write_loop a b be bs) = length bs"
  by (simp add: write_loop_def length_fold_update)

lemma write_loop_nth:
  "j < length bs \<Longrightarrow> write_loop a b be bs ! j =
     (if a \<le> j \<and> j < a + length b \<and> enabled be (j - a) then b ! (j - a) else bs ! j)"
  using fold_update [of j bs "enabled be" "\<lambda>i. a + i" "\<lambda>i. b ! i" "length b"]
  by (simp add: write_loop_def last_writer_inj)

section \<open>The shape of the cell\<close>

text \<open>In a segment that can read the memory, its cell holds as many bytes as the memory has.\<close>

definition mem_wf :: "'x world \<Rightarrow> memory \<Rightarrow> event_txn \<Rightarrow> bool" where
  "mem_wf w m t \<longleftrightarrow> (\<exists>b. et_read w t (mem_cell m) = Inr (VBytes b) \<and> length b = mem_size m)"

definition mem_bytes :: "'x world \<Rightarrow> memory \<Rightarrow> event_txn \<Rightarrow> bytes" where
  "mem_bytes w m t = (case et_read w t (mem_cell m) of Inr v \<Rightarrow> get_bytes v | Inl _ \<Rightarrow> [])"

lemma mem_wf_read:
  "mem_wf w m t \<Longrightarrow> et_read w t (mem_cell m) = Inr (VBytes (mem_bytes w m t)) \<and>
     length (mem_bytes w m t) = mem_size m"
  by (auto simp: mem_wf_def mem_bytes_def)

lemma rmw_mem_wf:
  assumes "txn_rmw pf w (mem_cell m) f t = (res, t')" and "mem_wf w m t"
    and "\<And>r v. f (VBytes (mem_bytes w m t)) = Inr (r, Some v) \<Longrightarrow> \<exists>b. v = VBytes b \<and> length b = mem_size m"
  shows "mem_wf w m t'"
  using seg.rmw_keeps [OF assms(1), of "VBytes (mem_bytes w m t)" "\<lambda>v. \<exists>b. v = VBytes b \<and> length b = mem_size m"]
    mem_wf_read [OF assms(2)] assms(3) by (auto simp: mem_wf_def)

lemma buffer_mem_wf:
  assumes "et_buffer pf w (mem_cell m) (VBytes b) t = (res, t')" and "mem_wf w m t" and "length b = mem_size m"
  shows "mem_wf w m t'"
proof (cases res)
  case (Inl e)
  with assms et_buffer_Inl show ?thesis by blast
next
  case (Inr u)
  with assms seg.buf_same show ?thesis by (fastforce simp: mem_wf_def)
qed

text \<open>A write that went through replaces the bytes.\<close>

lemma rmw_mem_bytes:
  assumes "txn_rmw pf w (mem_cell m) f t = (Inr r, t')" and "mem_wf w m t"
    and "f (VBytes (mem_bytes w m t)) = Inr (r', Some (VBytes b))"
  shows "r = r' \<and> et_read w t' (mem_cell m) = Inr (VBytes b) \<and> mem_bytes w m t' = b"
proof -
  have m: "et_read w t (mem_cell m) = Inr (VBytes (mem_bytes w m t))" using mem_wf_read [OF assms(2)] by blast
  from assms(1) have "r = r' \<and> et_read w t' (mem_cell m) = Inr (VBytes b)"
    by (cases rule: seg.rmw_Inr) (use m assms(3) in \<open>auto dest: sym\<close>)
  then show ?thesis by (simp add: mem_bytes_def)
qed

section \<open>Properties\<close>

text \<open>
  Every operation of the memory keeps its shape: the cell holds exactly as many
  bytes as the memory was made with, whether the operation succeeds or is refused.
\<close>

theorem memory_shape_kept:
  assumes "mem_wf w m t"
  shows "mem_wf w m (snd (mem_transfer pf w m p t)) \<and> mem_wf w m (snd (mem_write_bytes pf w m a b be t)) \<and>
    mem_wf w m (snd (mem_debug_transfer pf w m cmd a b limit t)) \<and>
    mem_wf w m (snd (mem_clear pf w m t)) \<and> mem_wf w m (snd (mem_reset pf w m t))"
proof (intro conjI)
  let ?b = "mem_bytes w m t"
  have len: "length ?b = mem_size m" using mem_wf_read [OF assms] by simp
  have keep: "mem_wf w m (snd (txn_rmw pf w (mem_cell m) f t))"
    if "\<And>r v. f (VBytes ?b) = Inr (r, Some v) \<Longrightarrow> \<exists>b. v = VBytes b \<and> length b = mem_size m"
    for f :: "value_t \<Rightarrow> ('r \<times> value_t option) expected"
    using rmw_mem_wf [OF prod.collapse [symmetric] assms, where pf = pf and f = f] that by blast
  have buf: "mem_wf w m (snd (et_buffer pf w (mem_cell m) (VBytes c) t))" if "length c = mem_size m" for c
    by (rule buffer_mem_wf [OF prod.collapse [symmetric] assms that])
  show "mem_wf w m (snd (mem_transfer pf w m p t))"
    using length_transfer_loop [of p ?b, unfolded len] assms
    by (auto simp: mem_transfer_def Let_def simp del: length_transfer_loop intro!: keep split: sum.splits prod.splits if_splits)
  show "mem_wf w m (snd (mem_write_bytes pf w m a b be t))"
    using assms len by (auto simp: mem_write_bytes_def intro!: keep split: sum.splits)
  have "length (fold (\<lambda>i b. b[unat a + i := c ! i]) xs ?b) = length ?b" for c xs
    using length_fold_update [of "\<lambda>_. True" "\<lambda>i. unat a + i" "\<lambda>i. c ! i" xs ?b] by simp
  then show "mem_wf w m (snd (mem_debug_transfer pf w m cmd a b limit t))"
    using assms len by (auto simp: mem_debug_transfer_def Let_def intro!: keep split: sum.splits if_splits)
  show "mem_wf w m (snd (mem_clear pf w m t))"
    using assms by (auto simp: mem_clear_def intro!: buf split: sum.splits)
  show "mem_wf w m (snd (mem_reset pf w m t))"
    using assms by (auto simp: mem_reset_def mem_size_def intro!: buf split: sum.splits)
qed

text \<open>
  Claim C24. A validated bus transfer stays inside the memory without wrapping and moves
  exactly the enabled bytes: byte \<open>i\<close> of the burst uses address \<open>address + i mod width\<close>; a
  write leaves at each address the last enabled byte sent there and the old byte elsewhere,
  a read returns the byte at each enabled position, the sent byte elsewhere, and changes nothing.
\<close>

theorem memory_transfer_exact:
  assumes "mem_wf w m t" and "payload_fits m p" and "mem_validate_transfer m p = Ok"
    and "pl_command p \<noteq> Ignore" and "mem_transfer pf w m p t = (Inr r, t')"
  defines "addr \<equiv> \<lambda>i. unat (pl_address p) + i mod unat (pl_streaming_width p)"
  shows "(\<forall>i < length (pl_data p). transfer_address p i = addr i \<and> addr i < mem_size m) \<and> mt_status r = Ok \<and>
    (pl_command p = Write \<longrightarrow> mt_data r = pl_data p \<and> (\<forall>j < mem_size m. mem_bytes w m t' ! j =
       (case last_writer (enabled (pl_byte_enable p)) addr (length (pl_data p)) j of
          None \<Rightarrow> mem_bytes w m t ! j | Some i \<Rightarrow> pl_data p ! i))) \<and>
    (pl_command p = Read \<longrightarrow> t' = t \<and> length (mt_data r) = length (pl_data p) \<and>
       (\<forall>i < length (pl_data p). mt_data r ! i =
          (if enabled (pl_byte_enable p) i then mem_bytes w m t ! addr i else pl_data p ! i)))"
proof -
  have addr: "transfer_address p i = addr i \<and> addr i < mem_size m" if "i < length (pl_data p)" for i
    using transfer_address_exact [OF assms(3,4) that assms(2)] by (simp add: addr_def)
  obtain u where ctx: "object_context t False = Inr u"
    using assms(5) by (cases "object_context t False") (auto simp: mem_transfer_def)
  let ?b = "mem_bytes w m t" and ?E = "enabled (pl_byte_enable p)" and ?n = "length (pl_data p)"
  let ?f = "\<lambda>v. case transfer_loop p (get_bytes v) of (r, b) \<Rightarrow>
      Inr (\<lparr>mt_status = Ok, mt_data = r\<rparr>, if pl_command p = Write then Some (VBytes b) else None)"
  have rmw: "txn_rmw pf w (mem_cell m) ?f t = (Inr r, t')"
    using assms(3-5) ctx by (simp add: mem_transfer_def)
  have rd: "et_read w t (mem_cell m) = Inr (VBytes ?b)" "length ?b = mem_size m"
    using mem_wf_read [OF assms(1)] by auto
  show ?thesis
  proof (cases "pl_command p = Read")
    case True
    define d where "d = fst (transfer_loop p ?b)"
    have "cell_rmw (et_read w) (et_buffer pf w) (mem_cell m) ?f t = (Inr \<lparr>mt_status = Ok, mt_data = d\<rparr>, t)"
      using rd True by (simp add: cell_rmw_def d_def case_prod_beta)
    then have r: "r = \<lparr>mt_status = Ok, mt_data = d\<rparr>" "t' = t" using rmw by simp_all
    have lw: "last_writer ?E (\<lambda>i. i) ?n j = (if j < ?n \<and> ?E j then Some j else None)" for j
      using last_writer_inj [of ?E 0 ?n j] by simp
    have d: "d ! i = (if ?E i then ?b ! addr i else pl_data p ! i) \<and> length d = ?n" if "i < ?n" for i
      using fold_update [of i "pl_data p" ?E "\<lambda>i. i" "\<lambda>i. ?b ! transfer_address p i" ?n] that addr [OF that] True
      by (simp add: d_def transfer_loop_read lw)
    moreover have "pl_data p \<noteq> []" using validate_transfer_Ok(1) [OF assms(3,4)] .
    ultimately show ?thesis using True addr r by auto
  next
    case False
    then have W: "pl_command p = Write" using assms(4) by (cases "pl_command p") auto
    define d where "d = snd (transfer_loop p ?b)"
    have "?f (VBytes ?b) = Inr (\<lparr>mt_status = Ok, mt_data = pl_data p\<rparr>, Some (VBytes d))"
      using W by (simp add: d_def transfer_loop_write)
    note t' = rmw_mem_bytes [OF rmw assms(1) this]
    have lw: "last_writer ?E (transfer_address p) ?n j = last_writer ?E addr ?n j" for j
      unfolding last_writer_def using addr by (intro find_cong) auto
    have "d ! j = (case last_writer ?E addr ?n j of None \<Rightarrow> ?b ! j | Some i \<Rightarrow> pl_data p ! i)" if "j < mem_size m" for j
      using fold_update [of j ?b ?E "transfer_address p" "\<lambda>i. pl_data p ! i" ?n] that rd(2) W
      by (simp add: d_def transfer_loop_write lw)
    with t' W addr show ?thesis by simp
  qed
qed

text \<open>
  What is written is read back: after a successful \<open>write_bytes\<close>, reading the same
  range gives the enabled bytes of the input merged into the old contents (the input itself
  without byte enables), and every other byte of the memory is as before.
\<close>

theorem memory_write_read:
  assumes "mem_wf w m t" and "mem_write_bytes pf w m a b be t = (Inr u, t')" and "b \<noteq> []"
  shows "(\<exists>d. mem_read_bytes w m a (length b) t' = Inr d \<and> length d = length b \<and>
      (\<forall>i < length b. d ! i = (if enabled be i then b ! i else mem_bytes w m t ! (unat a + i))) \<and>
      (be = [] \<longrightarrow> d = b)) \<and>
    (\<forall>j < mem_size m. j < unat a \<or> unat a + length b \<le> j \<longrightarrow> mem_bytes w m t' ! j = mem_bytes w m t ! j)"
proof -
  let ?b = "mem_bytes w m t" and ?c = "write_loop (unat a) b be (mem_bytes w m t)"
  have ctx: "object_context t False = Inr ()" and range: "unat a + length b \<le> mem_size m"
    and rmw: "txn_rmw pf w (mem_cell m) (\<lambda>v. Inr ((), Some (VBytes (write_loop (unat a) b be (get_bytes v))))) t = (Inr u, t')"
    using assms(2,3) by (auto simp: mem_write_bytes_def split: sum.splits if_splits)
  have t': "et_read w t' (mem_cell m) = Inr (VBytes ?c)" "mem_bytes w m t' = ?c"
    using rmw_mem_bytes [OF rmw assms(1)] by auto
  have len: "length ?b = mem_size m" using mem_wf_read [OF assms(1)] by simp
  let ?d = "take (length b) (drop (unat a) ?c)"
  have "object_context t' False = Inr ()" using ctx rmw_context [OF rmw] by (simp add: object_context_def)
  then have "mem_read_bytes w m a (length b) t' = Inr ?d"
    using range assms(3) by (cases b) (simp_all add: mem_read_bytes_def t'(1))
  moreover have "length ?d = length b" using range len by simp
  moreover have d: "?d ! i = (if enabled be i then b ! i else ?b ! (unat a + i))" if "i < length b" for i
    using that range len by (simp add: write_loop_nth)
  moreover have "?d = b" if "be = []"
    using \<open>length ?d = length b\<close> d that by (intro nth_equalityI) (auto simp: enabled_def)
  moreover have "\<forall>j < mem_size m. j < unat a \<or> unat a + length b \<le> j \<longrightarrow> mem_bytes w m t' ! j = ?b ! j"
    using len by (auto simp: t'(2) write_loop_nth)
  ultimately show ?thesis by blast
qed

section \<open>Witnesses\<close>

text \<open>A memory of four bytes in cell 2 of a world, and an open segment.\<close>

definition demo_memory :: memory where
  "demo_memory = \<lparr>mem_cell = 2, mem_initial = [1, 2, 3, 4]\<rparr>"

definition demo_memory_world :: "unit world" where
  "demo_memory_world = demo_world\<lparr>w_cells := (w_cells demo_world)(2 := \<lparr>vc_value = VBytes [1, 2, 3, 4],
     vc_version = 0, vc_epoch = 0, vc_stable_bytes = True, vc_epoch_independent = True\<rparr>)\<rparr>"

definition demo_payload :: payload_snapshot where
  "demo_payload = \<lparr>pl_command = Write, pl_address = 1, pl_data = [7, 8, 9], pl_streaming_width = 2,
     pl_byte_enable = [], pl_status = Incomplete, pl_dmi_hint = False, pl_extensions = []\<rparr>"

lemma demo_memory_cell: "mem_make 4 [1, 2, 3, 4] = Inr (cell_of demo_memory_world 2, mem_initial demo_memory)"
  by (simp add: mem_make_def demo_memory_world_def demo_memory_def Let_def)

lemma demo_memory_read: "et_read demo_memory_world demo_txn 2 = Inr (VBytes [1, 2, 3, 4])"
  by (simp add: et_read_def demo_memory_world_def cell_epoch_ok_def demo_txn_def EventTxn_new_def)

lemma demo_memory_wf: "mem_wf demo_memory_world demo_memory demo_txn"
  using demo_memory_read by (simp add: mem_wf_def demo_memory_def mem_size_def)

lemma demo_memory_bytes: "mem_bytes demo_memory_world demo_memory demo_txn = [1, 2, 3, 4]"
  using demo_memory_read by (simp add: mem_bytes_def demo_memory_def)

lemma demo_bytes_cost: "length b = 4 \<Longrightarrow> owned_value_bytes demo_pf (VBytes b) = 44"
  by (simp add: owned_value_bytes_def bounded_value_bytes_def visit_frame_def size_add_def demo_pf_def)

lemma demo_memory_buffer:
  "length b = 4 \<Longrightarrow> \<exists>t'. et_buffer demo_pf demo_memory_world 2 (VBytes b) demo_txn = (Inr (), t')"
  by (simp add: et_buffer_def demo_bytes_cost demo_txn_def EventTxn_new_def demo_memory_world_def
      cell_epoch_ok_def prior_bytes_def Let_def)

theorem memory_shape_kept_witness:
  "mem_wf demo_memory_world demo_memory (snd (mem_reset demo_pf demo_memory_world demo_memory demo_txn))"
  using memory_shape_kept [OF demo_memory_wf, of demo_pf] by blast

theorem memory_transfer_exact_witness:
  "mem_validate_transfer demo_memory demo_payload = Ok \<and>
   (\<exists>r t'. mem_transfer demo_pf demo_memory_world demo_memory demo_payload demo_txn = (Inr r, t') \<and>
      mem_bytes demo_memory_world demo_memory t' ! 0 = 1 \<and> mem_bytes demo_memory_world demo_memory t' ! 1 = 9 \<and>
      mem_bytes demo_memory_world demo_memory t' ! 2 = 8)"
proof -
  have v: "mem_validate_transfer demo_memory demo_payload = Ok" "payload_fits demo_memory demo_payload"
    "pl_command demo_payload \<noteq> Ignore"
    by (simp_all add: mem_validate_transfer_def demo_memory_def demo_payload_def mem_size_def bad_enable_def payload_fits_def)
  have "\<exists>r t'. mem_transfer demo_pf demo_memory_world demo_memory demo_payload demo_txn = (Inr r, t')"
  proof -
    obtain t' where "et_buffer demo_pf demo_memory_world 2 (VBytes (snd (transfer_loop demo_payload [1, 2, 3, 4]))) demo_txn = (Inr (), t')"
      using demo_memory_buffer [of "snd (transfer_loop demo_payload [1, 2, 3, 4])"] by auto
    moreover have "object_context demo_txn False = Inr ()" by (simp add: object_context_Inr demo_txn_def EventTxn_new_def)
    ultimately show ?thesis using v demo_memory_read
      by (simp add: mem_transfer_def cell_rmw_def case_prod_beta) (simp add: demo_memory_def demo_payload_def)
  qed
  then obtain r t' where tr: "mem_transfer demo_pf demo_memory_world demo_memory demo_payload demo_txn = (Inr r, t')" by blast
  let ?addr = "\<lambda>i. unat (pl_address demo_payload) + i mod unat (pl_streaming_width demo_payload)"
  have f: "pl_command demo_payload = Write" "length (pl_data demo_payload) = 3" "mem_size demo_memory = 4"
      "pl_data demo_payload = [7, 8, 9]"
    by (simp_all add: demo_payload_def demo_memory_def mem_size_def)
  have lw: "last_writer (enabled (pl_byte_enable demo_payload))
      ?addr (length (pl_data demo_payload)) j =
      (if j = 1 then Some 2 else if j = 2 then Some 1 else None)" for j
    by (simp add: last_writer_def enabled_def demo_payload_def upt_rec)
  have "\<forall>j < mem_size demo_memory. mem_bytes demo_memory_world demo_memory t' ! j =
      (case last_writer (enabled (pl_byte_enable demo_payload)) ?addr (length (pl_data demo_payload)) j of
         None \<Rightarrow> mem_bytes demo_memory_world demo_memory demo_txn ! j | Some i \<Rightarrow> pl_data demo_payload ! i)"
    using memory_transfer_exact [OF demo_memory_wf v(2,1,3) tr] f(1) by blast
  then have b: "mem_bytes demo_memory_world demo_memory t' ! j =
      (if j = 1 then 9 else if j = 2 then 8 else [1, 2, 3, 4] ! j)" if "j < 4" for j
    using that f(3) by (simp only: lw demo_memory_bytes) (simp add: f(4))
  show ?thesis using tr v(1) b [of 0] b [of 1] b [of 2] by auto
qed

theorem memory_write_read_witness:
  "\<exists>t'. mem_write_bytes demo_pf demo_memory_world demo_memory 1 [8, 9] [] demo_txn = (Inr (), t') \<and>
     mem_read_bytes demo_memory_world demo_memory 1 2 t' = Inr [8, 9]"
proof -
  obtain t' where b: "et_buffer demo_pf demo_memory_world 2 (VBytes (write_loop 1 [8, 9] [] [1, 2, 3, 4])) demo_txn = (Inr (), t')"
    using demo_memory_buffer [of "write_loop 1 [8, 9] [] [1, 2, 3, 4]"] by auto
  moreover have "object_context demo_txn False = Inr ()" by (simp add: object_context_Inr demo_txn_def EventTxn_new_def)
  ultimately have wr: "mem_write_bytes demo_pf demo_memory_world demo_memory 1 [8, 9] [] demo_txn = (Inr (), t')"
    using demo_memory_read
    by (simp add: mem_write_bytes_def cell_rmw_def demo_memory_def mem_size_def bad_enable_def)
  show ?thesis using memory_write_read [OF demo_memory_wf wr] wr by (auto simp: numeral_2_eq_2)
qed

end
