(* ===== verification/Resource.thy ===== *)
theory Resource
  imports Objects
begin

text \<open>
  The shared resource of \<open>stdlib/include/leanat/resource.hpp\<close> and
  \<open>stdlib/src/resource.cpp\<close>: a scheduler of service intervals on one or more channels
  (serial, capacity or pipeline), with tickets, cancellation and completion.

  The C++ object keeps its state as a nested \<open>Value\<close> in one cell: five entries, the fourth
  the channels' busy-until times, the fifth the reservation records of seven entries each.
  \<open>res_decode\<close> and \<open>res_encode\<close> are that layout; every operation decodes the value it
  read by position and buffers the encoding of the new state.
\<close>

section \<open>Data\<close>

datatype resource_kind = RK_Serial | RK_Capacity | RK_Pipeline

record resource_spec =
  sp_kind :: resource_kind
  sp_capacity :: nat
  sp_default_latency :: duration
  sp_initiation_interval :: duration
  sp_reservation_capacity :: nat

record grant =
  gr_start :: tick
  gr_finish :: tick
  gr_wait :: duration
  gr_ticket :: handle
  gr_channel :: nat

datatype resource_cancel_disposition =
    CancelledUnpublished | CancelledRetained | CancellationDeferred | AlreadyCancelled | AlreadySettled

record resource_snapshot =
  rn_reservations :: "grant list"
  rn_next_issue :: tick
  rn_servicing :: nat
  rn_scheduled :: nat
  rn_cancelled :: nat

record res_record =
  rr_live :: u64
  rr_ticket :: handle
  rr_start :: u64
  rr_finish :: u64
  rr_wait :: u64
  rr_channel :: u64
  rr_cancelled :: bool

record res_state =
  st_next_issue :: u64
  st_last_start :: u64
  st_last_arrival :: u64
  st_channels :: "u64 list"
  st_records :: "res_record list"

record resource =
  res_spec :: resource_spec
  res_domain :: domain_id
  res_store :: u32
  res_cell :: nat

section \<open>The value in the cell\<close>

definition record_encode :: "res_record \<Rightarrow> value_t" where
  "record_encode r = VArray [VU64 (rr_live r), VHandle (rr_ticket r), VU64 (rr_start r),
     VU64 (rr_finish r), VU64 (rr_wait r), VU64 (rr_channel r), VBool (rr_cancelled r)]"

definition record_decode :: "value_t \<Rightarrow> res_record" where
  "record_decode v = (let a = get_array v in
     \<lparr>rr_live = get_u64 (a ! 0), rr_ticket = get_handle (a ! 1), rr_start = get_u64 (a ! 2),
      rr_finish = get_u64 (a ! 3), rr_wait = get_u64 (a ! 4), rr_channel = get_u64 (a ! 5),
      rr_cancelled = get_bool (a ! 6)\<rparr>)"

definition res_encode :: "res_state \<Rightarrow> value_t" where
  "res_encode s = VArray [VU64 (st_next_issue s), VU64 (st_last_start s), VU64 (st_last_arrival s),
     VArray (map VU64 (st_channels s)), VArray (map record_encode (st_records s))]"

definition res_decode :: "value_t \<Rightarrow> res_state" where
  "res_decode v = (let a = get_array v in
     \<lparr>st_next_issue = get_u64 (a ! 0), st_last_start = get_u64 (a ! 1),
      st_last_arrival = get_u64 (a ! 2), st_channels = map get_u64 (get_array (a ! 3)),
      st_records = map record_decode (get_array (a ! 4))\<rparr>)"

lemma record_decode_encode [simp]: "record_decode (record_encode r) = r"
  by (simp add: record_decode_def record_encode_def Let_def)

lemma res_decode_encode [simp]: "res_decode (res_encode s) = s"
  by (simp add: res_decode_def res_encode_def Let_def comp_def)

section \<open>Construction\<close>

text \<open>
  The static state of \<open>make\<close>: the counter of store numbers and the identities in use. The
  mutex makes each call atomic.
\<close>

record resource_registry =
  rg_next_store :: u64
  rg_identities :: "(domain_id \<times> u32) set"

definition registry_init :: resource_registry where
  "registry_init = \<lparr>rg_next_store = 0x80000000, rg_identities = {}\<rparr>"

definition empty_record :: res_record where
  "empty_record = \<lparr>rr_live = 0, rr_ticket = default_handle, rr_start = 0, rr_finish = 0,
     rr_wait = 0, rr_channel = 0, rr_cancelled = False\<rparr>"

definition res_initial :: "resource_spec \<Rightarrow> res_state" where
  "res_initial s = \<lparr>st_next_issue = 0, st_last_start = 0, st_last_arrival = 0,
     st_channels = replicate (sp_capacity s) 0,
     st_records = replicate (sp_reservation_capacity s) empty_record\<rparr>"

definition res_make ::
  "resource_spec \<Rightarrow> domain_id \<Rightarrow> u32 \<Rightarrow> nat \<Rightarrow> resource_registry \<Rightarrow>
     (resource \<times> versioned_cell) expected \<times> resource_registry" where
  "res_make s d store cell g =
     (let (over, store, g) =
        (if store = 0 then
           (unat (rg_next_store g) > UINT32_MAX, ucast (rg_next_store g),
            g\<lparr>rg_next_store := rg_next_store g + 1\<rparr>)
         else (False, store, g)) in
      if over then (fail Overflow ''resource identity exhausted'', g)
      else if sp_capacity s = 0 \<or> sp_reservation_capacity s = 0 \<or>
              sp_reservation_capacity s > UINT32_MAX \<or>
              sp_kind s = RK_Serial \<and> sp_capacity s \<noteq> 1
      then (fail InvalidArgument ''invalid resource capacity'', g)
      else if (d, store) \<in> rg_identities g
      then (fail Duplicate ''resource store identity already used'', g)
      else (Inr (\<lparr>res_spec = s, res_domain = d, res_store = store, res_cell = cell\<rparr>,
                 \<lparr>vc_value = res_encode (res_initial s), vc_version = 0, vc_epoch = 0,
                  vc_stable_bytes = False, vc_epoch_independent = True\<rparr>),
            g\<lparr>rg_identities := insert (d, store) (rg_identities g)\<rparr>))"

section \<open>Reservation\<close>

definition spec_interval :: "resource_spec \<Rightarrow> u64" where
  "spec_interval s = (if sp_kind s = RK_Pipeline then sp_initiation_interval s else 0)"

fun free_record :: "res_record list \<Rightarrow> nat option" where
  "free_record [] = None"
| "free_record (r # rs) =
     (if rr_live r = 0 \<and> h_generation (rr_ticket r) \<noteq> UINT64_MAX then Some 0
      else map_option Suc (free_record rs))"

definition least_channel :: "u64 list \<Rightarrow> nat" where
  "least_channel cs = foldl (\<lambda>ch i. if cs ! i < cs ! ch then i else ch) 0 [1..<length cs]"

text \<open>The part of \<open>reserve\<close> after the cell was read.\<close>

definition reserve_step ::
  "resource \<Rightarrow> execution_context \<Rightarrow> handle \<Rightarrow> tick \<Rightarrow> duration \<Rightarrow> res_state \<Rightarrow>
     (grant \<times> res_state) expected" where
  "reserve_step rs ctx owner earliest dur s =
     (if rk_time (ec_ready ctx) < st_last_arrival s
      then fail TimeRegression ''resource arrival regression''
      else case free_record (st_records s) of
        None \<Rightarrow> fail Capacity ''resource reservation metadata full''
      | Some slot \<Rightarrow>
         (let ch = least_channel (st_channels s);
              start = max (max earliest (st_last_start s)) (max (st_channels s ! ch)
                (if sp_kind (res_spec rs) = RK_Pipeline then st_next_issue s else 0)) in
          case checked_add start dur of
            Inl e \<Rightarrow> Inl e
          | Inr finish \<Rightarrow>
             (case checked_add start (spec_interval (res_spec rs)) of
                Inl e \<Rightarrow> Inl e
              | Inr next \<Rightarrow>
                 (let ticket = \<lparr>h_kind = HK_ResourceTicket, h_domain = res_domain rs,
                        h_store = res_store rs, h_slot = of_nat slot,
                        h_generation = h_generation (rr_ticket (st_records s ! slot)) + 1,
                        h_owner = h_owner owner\<rparr>
                  in Inr (\<lparr>gr_start = start, gr_finish = finish, gr_wait = start - earliest,
                           gr_ticket = ticket, gr_channel = ch\<rparr>,
                     s\<lparr>st_records := (st_records s)[slot := \<lparr>rr_live = 1, rr_ticket = ticket,
                          rr_start = start, rr_finish = finish, rr_wait = start - earliest,
                          rr_channel = of_nat ch, rr_cancelled = False\<rparr>],
                       st_channels := (st_channels s)[ch := finish], st_next_issue := next,
                       st_last_start := start, st_last_arrival := rk_time (ec_ready ctx)\<rparr>)))))"

definition res_reserve ::
  "platform \<Rightarrow> 'x world \<Rightarrow> resource \<Rightarrow> handle \<Rightarrow> tick \<Rightarrow> duration \<Rightarrow> event_txn \<Rightarrow>
     grant expected \<times> event_txn" where
  "res_reserve pf w rs owner earliest dur t =
     (let ctx = et_context t in
      case object_context t False of
        Inl e \<Rightarrow> (Inl e, t)
      | Inr _ \<Rightarrow>
         (if ec_domain ctx \<noteq> res_domain rs \<or> h_domain owner \<noteq> res_domain rs
          then (fail WrongDomain ''resource owner domain'', t)
          else if ec_owner ctx \<noteq> h_owner owner then (fail WrongOwner ''resource caller owner'', t)
          else if h_kind owner \<noteq> HK_Transaction \<and> h_kind owner \<noteq> HK_Access
          then (fail WrongOwner ''resource owner kind'', t)
          else if h_generation owner = 0 then (fail StaleHandle ''resource owner generation'', t)
          else if earliest < rk_time (ec_ready ctx)
          then (fail TimeRegression ''earliest precedes arrival'', t)
          else txn_rmw pf w (res_cell rs) (\<lambda>v.
            case reserve_step rs ctx owner earliest dur (res_decode v) of
              Inl e \<Rightarrow> Inl e
            | Inr (g, s) \<Rightarrow> Inr (g, Some (res_encode s))) t))"

definition res_reserve_default ::
  "platform \<Rightarrow> 'x world \<Rightarrow> resource \<Rightarrow> handle \<Rightarrow> tick \<Rightarrow> event_txn \<Rightarrow> grant expected \<times> event_txn" where
  "res_reserve_default pf w rs owner earliest t =
     res_reserve pf w rs owner earliest (sp_default_latency (res_spec rs)) t"

section \<open>Cancellation and completion\<close>

text \<open>The identity check that \<open>cancel_pending\<close> and \<open>complete\<close> make on a ticket.\<close>

definition ticket_check :: "resource \<Rightarrow> handle \<Rightarrow> res_state \<Rightarrow> unit expected" where
  "ticket_check rs h s =
     (if h_kind h \<noteq> HK_ResourceTicket \<or> h_domain h \<noteq> res_domain rs \<or> h_store h \<noteq> res_store rs \<or>
         unat (h_slot h) \<ge> length (st_records s)
      then fail StaleHandle ''resource ticket identity''
      else if rr_ticket (st_records s ! unat (h_slot h)) \<noteq> h
      then fail StaleHandle ''resource ticket generation/owner'' else Inr ())"

text \<open>
  The loop that rebuilds the schedule from the committed one and the remaining records when
  an unpublished reservation is taken back.
\<close>

fun rebuild :: "resource_spec \<Rightarrow> res_record list \<Rightarrow> res_state \<Rightarrow> res_state expected" where
  "rebuild spec [] s = Inr s"
| "rebuild spec (r # rs) s =
     (if rr_live r = 0 then rebuild spec rs s
      else let ch = unat (rr_channel r);
               s1 = s\<lparr>st_channels := (st_channels s)[ch := max (st_channels s ! ch) (rr_finish r)],
                      st_last_start := max (st_last_start s) (rr_start r)\<rparr> in
        case checked_add (rr_start r) (spec_interval spec) of
          Inl e \<Rightarrow> Inl e
        | Inr next \<Rightarrow> rebuild spec rs (s1\<lparr>st_next_issue := max (st_next_issue s1) next\<rparr>))"

definition cancel_step ::
  "resource \<Rightarrow> tick \<Rightarrow> handle \<Rightarrow> res_state \<Rightarrow> res_state \<Rightarrow>
     (resource_cancel_disposition \<times> res_state option) expected" where
  "cancel_step rs now h committed s =
     (case ticket_check rs h s of
        Inl e \<Rightarrow> Inl e
      | Inr _ \<Rightarrow>
         (let i = unat (h_slot h); r = st_records s ! i in
          if rr_live r = 0 then Inr (AlreadySettled, None)
          else if rr_cancelled r then Inr (AlreadyCancelled, None)
          else let r1 = r\<lparr>rr_cancelled := True\<rparr>; old = st_records committed ! i in
            if rr_live old = 0 \<or> rr_ticket old \<noteq> h then
              (let records = (st_records s)[i := r1\<lparr>rr_live := 0\<rparr>] in
               case rebuild (res_spec rs) records
                      (s\<lparr>st_records := records, st_next_issue := st_next_issue committed,
                         st_last_start := st_last_start committed,
                         st_channels := st_channels committed\<rparr>) of
                 Inl e \<Rightarrow> Inl e
               | Inr s' \<Rightarrow> Inr (CancelledUnpublished, Some s'))
            else Inr (if now \<ge> rr_start r then CancellationDeferred else CancelledRetained,
                      Some (s\<lparr>st_records := (st_records s)[i := r1]\<rparr>))))"

definition res_cancel_pending ::
  "platform \<Rightarrow> 'x world \<Rightarrow> resource \<Rightarrow> handle \<Rightarrow> event_txn \<Rightarrow>
     resource_cancel_disposition expected \<times> event_txn" where
  "res_cancel_pending pf w rs h t =
     (let ctx = et_context t in
      if ec_domain ctx \<noteq> res_domain rs then (fail WrongDomain ''resource context domain'', t)
      else if ec_owner ctx \<noteq> h_owner h then (fail WrongOwner ''resource ticket caller owner'', t)
      else case object_context t False of
        Inl e \<Rightarrow> (Inl e, t)
      | Inr _ \<Rightarrow>
          txn_rmw pf w (res_cell rs) (\<lambda>v.
            case cancel_step rs (rk_time (ec_ready ctx)) h
                   (res_decode (vc_value (cell_of w (res_cell rs)))) (res_decode v) of
              Inl e \<Rightarrow> Inl e
            | Inr (d, s) \<Rightarrow> Inr (d, map_option res_encode s)) t)"

definition complete_step :: "resource \<Rightarrow> handle \<Rightarrow> tick \<Rightarrow> res_state \<Rightarrow> (bool \<times> res_state option) expected" where
  "complete_step rs h at s =
     (case ticket_check rs h s of
        Inl e \<Rightarrow> Inl e
      | Inr _ \<Rightarrow>
         (let i = unat (h_slot h); r = st_records s ! i in
          if rr_live r = 0 then Inr (False, None)
          else if at < rr_finish r then fail NotReady ''resource finish not reached''
          else Inr (\<not> rr_cancelled r, Some (s\<lparr>st_records := (st_records s)[i := r\<lparr>rr_live := 0\<rparr>]\<rparr>))))"

definition res_complete ::
  "platform \<Rightarrow> 'x world \<Rightarrow> resource \<Rightarrow> handle \<Rightarrow> tick \<Rightarrow> event_txn \<Rightarrow> bool expected \<times> event_txn" where
  "res_complete pf w rs h at t =
     (let ctx = et_context t in
      if ec_domain ctx \<noteq> res_domain rs then (fail WrongDomain ''resource context domain'', t)
      else if ec_owner ctx \<noteq> h_owner h then (fail WrongOwner ''resource ticket caller owner'', t)
      else if at \<noteq> rk_time (ec_ready ctx)
      then (fail InvalidArgument ''resource completion must use current effective time'', t)
      else case object_context t False of
        Inl e \<Rightarrow> (Inl e, t)
      | Inr _ \<Rightarrow>
          txn_rmw pf w (res_cell rs) (\<lambda>v.
            case complete_step rs h at (res_decode v) of
              Inl e \<Rightarrow> Inl e
            | Inr (b, s) \<Rightarrow> Inr (b, map_option res_encode s)) t)"

section \<open>Inspection\<close>

definition record_grant :: "res_record \<Rightarrow> grant" where
  "record_grant r = \<lparr>gr_start = rr_start r, gr_finish = rr_finish r, gr_wait = rr_wait r,
     gr_ticket = rr_ticket r, gr_channel = unat (rr_channel r)\<rparr>"

fun inspect_records :: "tick \<Rightarrow> res_record list \<Rightarrow> resource_snapshot \<Rightarrow> resource_snapshot" where
  "inspect_records now [] out = out"
| "inspect_records now (r # rs) out =
     (if rr_live r = 0 then inspect_records now rs out
      else inspect_records now rs (out\<lparr>
        rn_reservations := rn_reservations out @ [record_grant r],
        rn_cancelled := rn_cancelled out + (if rr_cancelled r then 1 else 0),
        rn_scheduled := rn_scheduled out + (if now < rr_start r then 1 else 0),
        rn_servicing := rn_servicing out + (if \<not> now < rr_start r \<and> now < rr_finish r then 1 else 0)\<rparr>))"

definition res_inspect :: "'x world \<Rightarrow> resource \<Rightarrow> event_txn \<Rightarrow> resource_snapshot expected" where
  "res_inspect w rs t =
     (let ctx = et_context t in
      if ec_domain ctx \<noteq> res_domain rs then fail WrongDomain ''resource context domain''
      else case object_context t False of
        Inl e \<Rightarrow> Inl e
      | Inr _ \<Rightarrow>
         (case et_read w t (res_cell rs) of
            Inl e \<Rightarrow> Inl e
          | Inr v \<Rightarrow> (let s = res_decode v in
              Inr (inspect_records (rk_time (ec_ready ctx)) (st_records s)
                \<lparr>rn_reservations = [], rn_next_issue = st_next_issue s, rn_servicing = 0,
                 rn_scheduled = 0, rn_cancelled = 0\<rparr>))))"

definition res_snapshot :: "'x world \<Rightarrow> resource \<Rightarrow> event_txn \<Rightarrow> value_t expected" where
  "res_snapshot w rs t =
     (case res_inspect w rs t of Inl e \<Rightarrow> Inl e | Inr _ \<Rightarrow> et_read w t (res_cell rs))"

end
