(* ===== verification/Resource_Props.thy ===== *)
theory Resource_Props
  imports Resource
begin

text \<open>
  The schedule invariant of a resource (services on one channel never overlap, a pipeline
  issues no faster than its interval) and the properties that follow from it.
\<close>

section \<open>The invariant\<close>

definition rec_ok :: "resource \<Rightarrow> res_state \<Rightarrow> nat \<Rightarrow> bool" where
  "rec_ok rs s i \<longleftrightarrow> (let r = st_records s ! i in rr_live r \<noteq> 0 \<longrightarrow>
     rr_ticket r = \<lparr>h_kind = HK_ResourceTicket, h_domain = res_domain rs, h_store = res_store rs,
       h_slot = of_nat i, h_generation = h_generation (rr_ticket r), h_owner = h_owner (rr_ticket r)\<rparr> \<and>
     h_generation (rr_ticket r) \<noteq> 0 \<and> rr_start r \<le> rr_finish r \<and>
     unat (rr_channel r) < length (st_channels s) \<and> rr_finish r \<le> st_channels s ! unat (rr_channel r) \<and>
     rr_start r \<le> st_last_start s \<and>
     unat (rr_start r) + unat (spec_interval (res_spec rs)) \<le> unat (st_next_issue s))"

text \<open>Two reservations do not get in each other's way.\<close>

definition apart :: "resource_spec \<Rightarrow> res_record \<Rightarrow> res_record \<Rightarrow> bool" where
  "apart spec r r' \<longleftrightarrow>
     (rr_channel r = rr_channel r' \<longrightarrow> rr_finish r \<le> rr_start r' \<or> rr_finish r' \<le> rr_start r) \<and>
     (sp_kind spec = RK_Pipeline \<longrightarrow>
        unat (rr_start r) + unat (sp_initiation_interval spec) \<le> unat (rr_start r') \<or>
        unat (rr_start r') + unat (sp_initiation_interval spec) \<le> unat (rr_start r))"

definition all_apart :: "resource_spec \<Rightarrow> res_record list \<Rightarrow> bool" where
  "all_apart spec rr \<longleftrightarrow> (\<forall>i < length rr. \<forall>j < length rr. i \<noteq> j \<longrightarrow>
     rr_live (rr ! i) \<noteq> 0 \<longrightarrow> rr_live (rr ! j) \<noteq> 0 \<longrightarrow> apart spec (rr ! i) (rr ! j))"

definition res_sizes :: "resource \<Rightarrow> res_state \<Rightarrow> bool" where
  "res_sizes rs s \<longleftrightarrow> length (st_channels s) = sp_capacity (res_spec rs) \<and> 0 < sp_capacity (res_spec rs) \<and>
     sp_capacity (res_spec rs) \<le> SIZE_MAX \<and> length (st_records s) = sp_reservation_capacity (res_spec rs) \<and>
     sp_reservation_capacity (res_spec rs) \<le> UINT32_MAX"

definition res_inv :: "resource \<Rightarrow> res_state \<Rightarrow> bool" where
  "res_inv rs s \<longleftrightarrow> res_sizes rs s \<and> (\<forall>i < length (st_records s). rec_ok rs s i) \<and>
     all_apart (res_spec rs) (st_records s)"

lemma all_apart_update:
  assumes "all_apart spec rr"
    and "rr_live r \<noteq> 0 \<Longrightarrow>
      \<forall>j < length rr. j \<noteq> i \<longrightarrow> rr_live (rr ! j) \<noteq> 0 \<longrightarrow> apart spec r (rr ! j) \<and> apart spec (rr ! j) r"
  shows "all_apart spec (rr[i := r])"
  unfolding all_apart_def
proof (intro allI impI)
  fix a b assume "a < length (rr[i := r])" "b < length (rr[i := r])" "a \<noteq> b"
    "rr_live (rr[i := r] ! a) \<noteq> 0" "rr_live (rr[i := r] ! b) \<noteq> 0"
  then show "apart spec (rr[i := r] ! a) (rr[i := r] ! b)"
    using assms by (cases "a = i"; cases "b = i") (simp_all add: all_apart_def)
qed

lemma apart_sym: "apart spec r r' \<Longrightarrow> apart spec r' r"
  by (auto simp: apart_def)

section \<open>Slots and channels\<close>

lemma free_record_Some:
  "free_record rr = Some i \<Longrightarrow> i < length rr \<and> rr_live (rr ! i) = 0 \<and> h_generation (rr_ticket (rr ! i)) \<noteq> UINT64_MAX"
  by (induction rr arbitrary: i) (auto split: if_splits)

lemma foldl_least:
  fixes f :: "nat \<Rightarrow> 'a::linorder"
  shows "foldl (\<lambda>ch i. if f i < f ch then i else ch) 0 [1..<Suc n] \<le> n \<and>
    (\<forall>i \<le> n. f (foldl (\<lambda>ch i. if f i < f ch then i else ch) 0 [1..<Suc n]) \<le> f i)"
proof (induction n)
  case (Suc n)
  let ?m = "foldl (\<lambda>ch i. if f i < f ch then i else ch) 0 [1..<Suc n]"
  have step: "foldl (\<lambda>ch i. if f i < f ch then i else ch) 0 [1..<Suc (Suc n)] = (if f (Suc n) < f ?m then Suc n else ?m)"
    by simp
  have m: "?m \<le> n" "\<And>i. i \<le> n \<Longrightarrow> f ?m \<le> f i" using Suc by blast+
  show ?case
  proof (cases "f (Suc n) < f ?m")
    case True
    then have "f (Suc n) \<le> f i" if "i \<le> Suc n" for i
      using that m(2) [of i] by (cases "i = Suc n") (simp_all only: le_Suc_eq, auto)
    with True show ?thesis unfolding step by simp
  next
    case False
    then have "f ?m \<le> f i" if "i \<le> Suc n" for i
      using that m(2) [of i] by (cases "i = Suc n") (simp_all only: le_Suc_eq not_less, auto)
    with False m(1) show ?thesis unfolding step by (simp only: if_False) simp
  qed
qed simp

lemma least_channel:
  assumes "cs \<noteq> []"
  shows "least_channel cs < length cs \<and> (\<forall>i < length cs. cs ! least_channel cs \<le> cs ! i)"
proof -
  have n: "Suc (length cs - 1) = length cs" using assms by (cases cs) simp_all
  note f = foldl_least [of "(!) cs" "length cs - 1", unfolded n, folded least_channel_def]
  have "least_channel cs < length cs" using f n by linarith
  moreover have "cs ! least_channel cs \<le> cs ! i" if "i < length cs" for i
  proof -
    have "i \<le> length cs - 1" using that n by linarith
    with f show ?thesis by blast
  qed
  ultimately show ?thesis by blast
qed

lemma checked_add_Inr:
  "checked_add a b = Inr c \<Longrightarrow> unat c = unat a + unat b \<and> a \<le> c"
  by (simp add: checked_add_InrD checked_add_InrD_le)

section \<open>Reservation\<close>

text \<open>What a successful reservation computes.\<close>

lemma reserve_step_Inr:
  assumes "reserve_step rs ctx owner earliest dur s = Inr (g, s')"
  obtains slot ch r where "free_record (st_records s) = Some slot" "ch = least_channel (st_channels s)"
    "gr_channel g = ch" "gr_start g = max (max earliest (st_last_start s)) (max (st_channels s ! ch)
       (if sp_kind (res_spec rs) = RK_Pipeline then st_next_issue s else 0))"
    "unat (gr_finish g) = unat (gr_start g) + unat dur" "gr_start g \<le> gr_finish g"
    "gr_wait g = gr_start g - earliest"
    "gr_ticket g = \<lparr>h_kind = HK_ResourceTicket, h_domain = res_domain rs, h_store = res_store rs,
       h_slot = of_nat slot, h_generation = h_generation (rr_ticket (st_records s ! slot)) + 1,
       h_owner = h_owner owner\<rparr>"
    "r = \<lparr>rr_live = 1, rr_ticket = gr_ticket g, rr_start = gr_start g, rr_finish = gr_finish g,
       rr_wait = gr_wait g, rr_channel = of_nat ch, rr_cancelled = False\<rparr>"
    "unat (st_next_issue s') = unat (gr_start g) + unat (spec_interval (res_spec rs))"
    "st_records s' = (st_records s)[slot := r]" "st_channels s' = (st_channels s)[ch := gr_finish g]"
    "st_last_start s' = gr_start g" "st_last_arrival s' = rk_time (ec_ready ctx)"
    "st_last_arrival s \<le> rk_time (ec_ready ctx)"
proof -
  let ?ch = "least_channel (st_channels s)"
  define start where "start = max (max earliest (st_last_start s)) (max (st_channels s ! ?ch)
       (if sp_kind (res_spec rs) = RK_Pipeline then st_next_issue s else 0))"
  obtain slot where slot: "free_record (st_records s) = Some slot" and arr: "\<not> rk_time (ec_ready ctx) < st_last_arrival s"
    using assms by (auto simp: reserve_step_def split: if_splits option.splits)
  obtain finish where fin: "checked_add start dur = Inr finish"
    using assms unfolding reserve_step_def Let_def slot option.case start_def [symmetric]
    by (cases "checked_add start dur") (simp_all add: arr)
  obtain nx where nx: "checked_add start (spec_interval (res_spec rs)) = Inr nx"
    using assms unfolding reserve_step_def Let_def slot option.case start_def [symmetric] fin sum.case
    by (cases "checked_add start (spec_interval (res_spec rs))") (simp_all add: arr)
  let ?g = "\<lparr>gr_start = start, gr_finish = finish, gr_wait = start - earliest,
      gr_ticket = \<lparr>h_kind = HK_ResourceTicket, h_domain = res_domain rs, h_store = res_store rs, h_slot = of_nat slot,
        h_generation = h_generation (rr_ticket (st_records s ! slot)) + 1, h_owner = h_owner owner\<rparr>,
      gr_channel = ?ch\<rparr>"
  let ?r = "\<lparr>rr_live = 1, rr_ticket = gr_ticket ?g, rr_start = gr_start ?g, rr_finish = gr_finish ?g,
       rr_wait = gr_wait ?g, rr_channel = of_nat ?ch, rr_cancelled = False\<rparr>"
  let ?s = "s\<lparr>st_records := (st_records s)[slot := ?r], st_channels := (st_channels s)[?ch := finish],
      st_next_issue := nx, st_last_start := start, st_last_arrival := rk_time (ec_ready ctx)\<rparr>"
  have "Inr (g, s') = (Inr (?g, ?s) :: (grant \<times> res_state) expected)"
    unfolding assms [symmetric] unfolding reserve_step_def Let_def slot option.case start_def [symmetric] fin nx sum.case
    by (simp only: arr if_False grant.select_convs)
  then have e: "g = ?g" "s' = ?s" by (simp_all only: sum.inject prod.inject)
  show thesis
    by (rule that [OF slot refl, where r = ?r])
      (use arr checked_add_Inr [OF fin] checked_add_Inr [OF nx] in \<open>simp_all add: e, simp add: start_def\<close>)
qed

lemma rec_ok_grow:
  assumes "rec_ok rs s i" and "st_records s' ! i = st_records s ! i"
    and "length (st_channels s') = length (st_channels s)"
    and "\<And>ch. ch < length (st_channels s) \<Longrightarrow> st_channels s ! ch \<le> st_channels s' ! ch"
    and "st_last_start s \<le> st_last_start s'"
    and "\<And>a. a \<le> st_last_start s \<Longrightarrow> unat a + unat (spec_interval (res_spec rs)) \<le> unat (st_next_issue s) \<Longrightarrow>
      unat a + unat (spec_interval (res_spec rs)) \<le> unat (st_next_issue s')"
  shows "rec_ok rs s' i"
  using assms unfolding rec_ok_def Let_def by (auto intro: order_trans)

lemma reserve_step_inv:
  assumes inv: "res_inv rs s" and st: "reserve_step rs ctx owner earliest dur s = Inr (g, s')"
  shows "res_inv rs s'"
  using st
proof (cases rule: reserve_step_Inr)
  case (1 slot ch r)
  note f = 1
  let ?spec = "res_spec rs"
  have sizes: "res_sizes rs s" and ok: "\<And>i. i < length (st_records s) \<Longrightarrow> rec_ok rs s i"
    and ap: "all_apart ?spec (st_records s)"
    using inv by (auto simp: res_inv_def)
  have slot: "slot < length (st_records s)" "h_generation (rr_ticket (st_records s ! slot)) \<noteq> UINT64_MAX"
    using free_record_Some [OF f(1)] by auto
  have ch: "ch < length (st_channels s)"
    using least_channel [of "st_channels s"] sizes f(2) by (cases "st_channels s") (auto simp: res_sizes_def)
  have chn: "unat (of_nat ch :: u64) = ch"
    using ch sizes by (simp add: res_sizes_def unat_of_nat)
  have start: "st_last_start s \<le> gr_start g" "st_channels s ! ch \<le> gr_start g"
    "sp_kind ?spec = RK_Pipeline \<Longrightarrow> st_next_issue s \<le> gr_start g"
    unfolding f(4) by (auto simp: le_max_iff_disj)
  have next_ge: "unat a + unat (spec_interval ?spec) \<le> unat (st_next_issue s')"
    if "a \<le> st_last_start s" "unat a + unat (spec_interval ?spec) \<le> unat (st_next_issue s)" for a
    using that start(1) f(10) by (simp add: word_le_nat_alt)
  have "rec_ok rs s' i" if i: "i < length (st_records s')" for i
  proof (cases "i = slot")
    case True
    have "h_generation (rr_ticket (st_records s ! slot)) + 1 \<noteq> 0"
      using slot(2) by (metis add.commute add_eq_0_iff)
    moreover have "st_records s' ! i = r" using True slot(1) by (simp add: f(11))
    ultimately show ?thesis
      using True ch f(6,10) unfolding rec_ok_def Let_def f(12,13) by (simp add: f(8,9) chn)
  next
    case False
    show ?thesis
    proof (rule rec_ok_grow [OF ok [of i]])
      show "st_channels s ! c \<le> st_channels s' ! c" if "c < length (st_channels s)" for c
        using that start(2) f(6,12) by (cases "c = ch") auto
    qed (use i False f(11-13) start(1) next_ge in simp_all)
  qed
  moreover have "apart ?spec r (st_records s ! j)" if "j < length (st_records s)" "j \<noteq> slot" "rr_live (st_records s ! j) \<noteq> 0" for j
  proof -
    let ?x = "st_records s ! j"
    have x: "rr_finish ?x \<le> st_channels s ! unat (rr_channel ?x)" "sp_kind ?spec = RK_Pipeline \<Longrightarrow>
        unat (rr_start ?x) + unat (sp_initiation_interval ?spec) \<le> unat (st_next_issue s)"
      using ok [OF that(1)] that(3) by (auto simp: rec_ok_def Let_def spec_interval_def)
    have r: "rr_start r = gr_start g" "rr_channel r = of_nat ch" by (simp_all add: f(9))
    have "rr_finish ?x \<le> rr_start r" if "rr_channel r = rr_channel ?x"
      using x(1) start(2) that [symmetric] by (simp add: r chn)
    moreover have "unat (rr_start ?x) + unat (sp_initiation_interval ?spec) \<le> unat (rr_start r)" if "sp_kind ?spec = RK_Pipeline"
      using x(2) [OF that] start(3) [OF that] by (simp add: r word_le_nat_alt)
    ultimately show ?thesis by (simp add: apart_def)
  qed
  then have "all_apart ?spec (st_records s')"
    unfolding f(11) using ap by (intro all_apart_update) (auto intro: apart_sym)
  moreover have "res_sizes rs s'" using sizes f(11,12) by (simp add: res_sizes_def)
  ultimately show ?thesis by (simp add: res_inv_def)
qed

section \<open>Cancellation\<close>

lemma rebuild_bounds:
  "rebuild spec rr s = Inr s' \<Longrightarrow> \<forall>r \<in> set rr. rr_live r \<noteq> 0 \<longrightarrow> unat (rr_channel r) < length (st_channels s) \<Longrightarrow>
   st_records s' = st_records s \<and> st_last_arrival s' = st_last_arrival s \<and>
   length (st_channels s') = length (st_channels s) \<and>
   (\<forall>ch < length (st_channels s). st_channels s ! ch \<le> st_channels s' ! ch) \<and>
   st_last_start s \<le> st_last_start s' \<and> st_next_issue s \<le> st_next_issue s' \<and>
   (\<forall>r \<in> set rr. rr_live r \<noteq> 0 \<longrightarrow> rr_finish r \<le> st_channels s' ! unat (rr_channel r) \<and>
      rr_start r \<le> st_last_start s' \<and>
      unat (rr_start r) + unat (spec_interval spec) \<le> unat (st_next_issue s'))"
proof (induction rr arbitrary: s)
  case (Cons r rr)
  show ?case
  proof (cases "rr_live r = 0")
    case True
    with Cons show ?thesis by simp
  next
    case False
    let ?ch = "unat (rr_channel r)"
    obtain nx where nx: "checked_add (rr_start r) (spec_interval spec) = Inr nx"
      using Cons.prems(1) False by (auto simp: Let_def split: sum.splits)
    let ?s = "s\<lparr>st_channels := (st_channels s)[?ch := max (st_channels s ! ?ch) (rr_finish r)],
        st_last_start := max (st_last_start s) (rr_start r), st_next_issue := max (st_next_issue s) nx\<rparr>"
    have ch: "?ch < length (st_channels s)" using Cons.prems(2) False by simp
    have "rebuild spec rr ?s = Inr s'" using Cons.prems(1) False nx by (simp add: Let_def)
    note ih = Cons.IH [OF this]
    have n: "unat nx = unat (rr_start r) + unat (spec_interval spec)" using checked_add_Inr [OF nx] by simp
    have all: "\<forall>r \<in> set rr. rr_live r \<noteq> 0 \<longrightarrow> unat (rr_channel r) < length (st_channels ?s)"
      using Cons.prems(2) by simp
    note ih = ih [OF all]
    have chs: "st_channels s ! c \<le> st_channels s' ! c" if "c < length (st_channels s)" for c
      using ih that by (cases "c = ?ch") (auto simp: nth_list_update)
    have "nx \<le> st_next_issue s'" using ih by simp
    then have "unat (rr_start r) + unat (spec_interval spec) \<le> unat (st_next_issue s')"
      using n by (simp add: word_le_nat_alt)
    moreover have "rr_finish r \<le> st_channels s' ! ?ch" using ih ch by auto
    ultimately show ?thesis using ih chs by auto
  qed
qed simp

text \<open>When nothing exceeds the state, the loop is the identity.\<close>

lemma rebuild_id:
  assumes "\<forall>r \<in> set rr. rr_live r \<noteq> 0 \<longrightarrow> unat (rr_channel r) < length (st_channels s) \<and>
      rr_finish r \<le> st_channels s ! unat (rr_channel r) \<and> rr_start r \<le> st_last_start s \<and>
      unat (rr_start r) + unat (spec_interval spec) \<le> unat (st_next_issue s)"
  shows "rebuild spec rr s = Inr s"
  using assms
proof (induction rr)
  case (Cons r rr)
  show ?case
  proof (cases "rr_live r = 0")
    case False
    have lt: "unat (rr_start r) + unat (spec_interval spec) < 2 ^ 64"
      using Cons.prems False unsigned_less [of "st_next_issue s", where 'a = nat] by auto
    obtain nx where nx: "checked_add (rr_start r) (spec_interval spec) = Inr nx"
      "unat nx = unat (rr_start r) + unat (spec_interval spec)"
      using checked_add_exact [of "rr_start r" "spec_interval spec"] lt checked_add_InrD by auto
    then have "nx \<le> st_next_issue s" using Cons.prems False by (simp add: word_le_nat_alt)
    then show ?thesis using Cons nx(1) False by (simp add: Let_def max_absorb1 list_update_id)
  qed (use Cons in simp)
qed simp

text \<open>Changing one record without making it live or moving it keeps the invariant.\<close>

lemma res_inv_update:
  assumes inv: "res_inv rs s" and i: "i < length (st_records s)"
    and r: "rr_live r \<noteq> 0 \<Longrightarrow> rr_live (st_records s ! i) \<noteq> 0"
      "rr_ticket r = rr_ticket (st_records s ! i)" "rr_start r = rr_start (st_records s ! i)"
      "rr_finish r = rr_finish (st_records s ! i)" "rr_channel r = rr_channel (st_records s ! i)"
  shows "res_inv rs (s\<lparr>st_records := (st_records s)[i := r]\<rparr>)"
proof -
  have "rec_ok rs (s\<lparr>st_records := (st_records s)[i := r]\<rparr>) j" if "j < length (st_records s)" for j
    using inv that r by (cases "j = i") (auto simp: res_inv_def rec_ok_def Let_def)
  moreover have ap: "apart spec r x = apart spec (st_records s ! i) x" "apart spec x r = apart spec x (st_records s ! i)"
    for spec x using r by (simp_all add: apart_def)
  have "all_apart (res_spec rs) ((st_records s)[i := r])"
    using inv i r(1) unfolding res_inv_def
    by (intro all_apart_update) (auto simp: ap all_apart_def)
  ultimately show ?thesis using inv by (simp add: res_inv_def res_sizes_def)
qed

lemma ticket_check_Inr:
  "ticket_check rs h s = Inr u \<Longrightarrow> unat (h_slot h) < length (st_records s) \<and> rr_ticket (st_records s ! unat (h_slot h)) = h"
  by (auto simp: ticket_check_def fail_def split: if_splits)

lemma complete_step_inv:
  assumes "res_inv rs s" and "complete_step rs h at s = Inr (b, Some s')"
  shows "res_inv rs s'"
proof -
  let ?i = "unat (h_slot h)"
  have "s' = s\<lparr>st_records := (st_records s)[?i := (st_records s ! ?i)\<lparr>rr_live := 0\<rparr>]\<rparr>"
    and "?i < length (st_records s)"
    using assms(2) by (auto simp: complete_step_def Let_def fail_def dest: ticket_check_Inr split: sum.splits if_splits)
  with assms(1) show ?thesis by (auto intro: res_inv_update)
qed

text \<open>The invariant after a rebuild, from the invariant before and the committed sizes.\<close>

lemma rebuild_inv:
  assumes inv: "res_inv rs s1" and reb: "rebuild (res_spec rs) (st_records s1) s0 = Inr s'"
    and s0: "st_records s0 = st_records s1" "length (st_channels s0) = sp_capacity (res_spec rs)"
  shows "res_inv rs s'"
proof -
  have sizes: "res_sizes rs s1" using inv by (simp add: res_inv_def)
  have ok: "rec_ok rs s1 i" if "i < length (st_records s1)" for i using inv that by (simp add: res_inv_def)
  have "\<forall>r \<in> set (st_records s1). rr_live r \<noteq> 0 \<longrightarrow> unat (rr_channel r) < length (st_channels s0)"
    using ok sizes s0(2) by (auto simp: in_set_conv_nth rec_ok_def Let_def res_sizes_def)
  note b = rebuild_bounds [OF reb this]
  have "rec_ok rs s' i" if i: "i < length (st_records s1)" for i
  proof -
    let ?r = "st_records s1 ! i"
    have rin: "rr_live ?r \<noteq> 0 \<Longrightarrow> rr_finish ?r \<le> st_channels s' ! unat (rr_channel ?r) \<and> rr_start ?r \<le> st_last_start s' \<and>
        unat (rr_start ?r) + unat (spec_interval (res_spec rs)) \<le> unat (st_next_issue s')"
      using b i by simp
    have "length (st_channels s') = length (st_channels s1)" using b s0 sizes by (simp add: res_sizes_def)
    moreover have "st_records s' ! i = st_records s1 ! i" using b s0 by simp
    ultimately show ?thesis
      using ok [OF i] rin unfolding rec_ok_def Let_def by simp
  qed
  then show ?thesis using b s0 inv sizes by (auto simp: res_inv_def res_sizes_def)
qed

lemma cancel_step_inv:
  assumes inv: "res_inv rs s" and c: "res_inv rs committed"
    and st: "cancel_step rs now h committed s = Inr (d, Some s')"
  shows "res_inv rs s'"
proof -
  let ?i = "unat (h_slot h)"
  let ?r = "(st_records s ! ?i)\<lparr>rr_cancelled := True\<rparr>"
  let ?rr = "(st_records s)[?i := ?r\<lparr>rr_live := 0\<rparr>]"
  have i: "?i < length (st_records s)"
    using st by (auto simp: cancel_step_def dest: ticket_check_Inr split: sum.splits)
  have inv0: "res_inv rs (s\<lparr>st_records := ?rr\<rparr>)" using i by (intro res_inv_update [OF inv]) auto
  have inv1: "res_inv rs (s\<lparr>st_records := (st_records s)[?i := ?r]\<rparr>)" using i by (intro res_inv_update [OF inv]) auto
  consider "s' = s\<lparr>st_records := (st_records s)[?i := ?r]\<rparr>"
    | "rebuild (res_spec rs) ?rr (s\<lparr>st_records := ?rr, st_next_issue := st_next_issue committed,
         st_last_start := st_last_start committed, st_channels := st_channels committed\<rparr>) = Inr s'"
    using st by (auto simp: cancel_step_def Let_def split: sum.splits if_splits)
  then show ?thesis
  proof cases
    case 2
    show ?thesis
      using rebuild_inv [OF inv0, of _ s'] 2 c by (simp add: res_inv_def res_sizes_def)
  qed (use inv1 in simp)
qed

section \<open>The resource in a segment\<close>

definition res_ok :: "'x world \<Rightarrow> resource \<Rightarrow> event_txn \<Rightarrow> bool" where
  "res_ok w rs t \<longleftrightarrow> (\<exists>s. et_read w t (res_cell rs) = Inr (res_encode s) \<and> res_inv rs s)"

definition res_committed_ok :: "'x world \<Rightarrow> resource \<Rightarrow> bool" where
  "res_committed_ok w rs \<longleftrightarrow> (\<exists>s. vc_value (cell_of w (res_cell rs)) = res_encode s \<and> res_inv rs s)"

definition encoded_inv :: "resource \<Rightarrow> value_t \<Rightarrow> bool" where
  "encoded_inv rs v \<longleftrightarrow> (\<exists>s. v = res_encode s \<and> res_inv rs s)"

lemma encoded_invI: "res_inv rs s \<Longrightarrow> encoded_inv rs (res_encode s)"
  by (auto simp: encoded_inv_def)

lemma res_ok_encoded: "res_ok w rs t \<longleftrightarrow> (\<exists>v. et_read w t (res_cell rs) = Inr v \<and> encoded_inv rs v)"
  by (auto simp: res_ok_def encoded_inv_def)

lemma rmw_res_ok:
  assumes "txn_rmw pf w (res_cell rs) f t = (res, t')" and "res_ok w rs t"
    and "\<And>s r v'. res_inv rs s \<Longrightarrow> f (res_encode s) = Inr (r, Some v') \<Longrightarrow> encoded_inv rs v'"
  shows "res_ok w rs t'"
  using assms(2) seg.rmw_keeps [OF assms(1), where P = "encoded_inv rs"] assms(3)
  unfolding res_ok_encoded by (metis encoded_inv_def)

text \<open>How many reservations are in service at time \<open>now\<close>.\<close>

definition in_service :: "u64 \<Rightarrow> res_record \<Rightarrow> bool" where
  "in_service now r \<longleftrightarrow> rr_live r \<noteq> 0 \<and> rr_start r \<le> now \<and> now < rr_finish r"

lemma inspect_servicing:
  "rn_servicing (inspect_records now rr out) = rn_servicing out + length (filter (in_service now) rr)"
  by (induction rr arbitrary: out) (auto simp: in_service_def)

lemma service_bound:
  assumes "res_inv rs s"
  shows "length (filter (in_service now) (st_records s)) \<le> sp_capacity (res_spec rs)"
proof -
  let ?I = "{i. i < length (st_records s) \<and> in_service now (st_records s ! i)}"
  let ?c = "\<lambda>i. unat (rr_channel (st_records s ! i))"
  have "inj_on ?c ?I"
  proof (rule inj_onI)
    fix i j assume i: "i \<in> ?I" and j: "j \<in> ?I" and e: "?c i = ?c j"
    show "i = j"
    proof (rule ccontr)
      assume "i \<noteq> j"
      then have "apart (res_spec rs) (st_records s ! i) (st_records s ! j)"
        using assms i j by (auto simp: res_inv_def all_apart_def in_service_def)
      moreover have "rr_channel (st_records s ! i) = rr_channel (st_records s ! j)" using e by (simp add: word_unat_eq_iff)
      ultimately show False using i j by (auto simp: apart_def in_service_def)
    qed
  qed
  moreover have "?c ` ?I \<subseteq> {..<sp_capacity (res_spec rs)}"
    using assms by (auto simp: res_inv_def rec_ok_def Let_def in_service_def res_sizes_def)
  ultimately have "card ?I \<le> card {..<sp_capacity (res_spec rs)}" by (intro card_inj_on_le) auto
  then show ?thesis by (simp add: length_filter_conv_card)
qed

lemma initial_inv:
  assumes "res_make spec d store cell g = (Inr (rs, c), g')" and "sp_capacity spec \<le> SIZE_MAX"
  shows "vc_value c = res_encode (res_initial (res_spec rs)) \<and> res_inv rs (res_initial (res_spec rs)) \<and>
    res_cell rs = cell \<and> vc_epoch_independent c"
proof -
  have "res_spec rs = spec" "vc_value c = res_encode (res_initial spec)" "res_cell rs = cell" "vc_epoch_independent c"
    "sp_capacity spec \<noteq> 0" "sp_reservation_capacity spec \<le> UINT32_MAX"
    using assms(1) by (auto simp: res_make_def Let_def fail_def split: if_splits)
  moreover from this have "res_inv rs (res_initial spec)"
    using assms(2) by (simp add: res_inv_def res_sizes_def rec_ok_def all_apart_def res_initial_def empty_record_def)
  ultimately show ?thesis by simp
qed

text \<open>Taking back the reservation just made restores the schedule.\<close>

lemma cancel_after_reserve:
  assumes inv: "res_inv rs s" and st: "reserve_step rs ctx owner earliest dur s = Inr (g, s1)"
  shows "\<exists>s2. cancel_step rs now (gr_ticket g) s s1 = Inr (CancelledUnpublished, Some s2) \<and>
    st_channels s2 = st_channels s \<and> st_next_issue s2 = st_next_issue s \<and> st_last_start s2 = st_last_start s \<and>
    (\<forall>i < length (st_records s). if rr_live (st_records s ! i) = 0 then rr_live (st_records s2 ! i) = 0
       else st_records s2 ! i = st_records s ! i)"
  using st
proof (cases rule: reserve_step_Inr)
  case (1 slot ch r)
  note f = 1
  have slot: "slot < length (st_records s)" "rr_live (st_records s ! slot) = 0" using free_record_Some [OF f(1)] by auto
  have u: "unat (of_nat slot :: u32) = slot"
    using slot(1) inv by (simp add: res_inv_def res_sizes_def unat_of_nat)
  have h: "unat (h_slot (gr_ticket g)) = slot" by (simp add: f(8) u)
  have chk: "ticket_check rs (gr_ticket g) s1 = Inr ()"
    using slot(1) by (simp add: ticket_check_def f(8,9,11) u)
  let ?r = "r\<lparr>rr_cancelled := True, rr_live := 0\<rparr>"
  let ?rr = "(st_records s)[slot := ?r]"
  let ?s2 = "s1\<lparr>st_records := ?rr, st_next_issue := st_next_issue s, st_last_start := st_last_start s,
      st_channels := st_channels s\<rparr>"
  have ok: "rec_ok rs s i" if "i < length (st_records s)" for i using inv that by (simp add: res_inv_def)
  have "\<forall>x \<in> set ?rr. rr_live x \<noteq> 0 \<longrightarrow> x \<in> set (st_records s)"
    using set_update_subset_insert [of "st_records s" slot ?r] by auto
  then have "\<forall>x \<in> set ?rr. rr_live x \<noteq> 0 \<longrightarrow> unat (rr_channel x) < length (st_channels ?s2) \<and>
      rr_finish x \<le> st_channels ?s2 ! unat (rr_channel x) \<and> rr_start x \<le> st_last_start ?s2 \<and>
      unat (rr_start x) + unat (spec_interval (res_spec rs)) \<le> unat (st_next_issue ?s2)"
    using ok by (auto simp: in_set_conv_nth rec_ok_def Let_def)
  then have "rebuild (res_spec rs) ?rr ?s2 = Inr ?s2" by (rule rebuild_id)
  then have "cancel_step rs now (gr_ticket g) s s1 = Inr (CancelledUnpublished, Some ?s2)"
    using slot by (simp add: cancel_step_def chk h Let_def f(9,11))
  then show ?thesis using slot by (auto simp: nth_list_update)
qed

section \<open>Properties\<close>

text \<open>
  Claim C12. Every operation of a resource keeps its schedule consistent, on success and on
  failure: tickets match their slots, no two live reservations overlap on a channel, and a
  pipeline issues no two of them closer than its interval. A freshly made resource starts so.
\<close>

theorem resource_schedule_kept:
  assumes "res_ok w rs t" and "res_committed_ok w rs"
  shows "res_ok w rs (snd (res_reserve pf w rs owner earliest dur t)) \<and>
    res_ok w rs (snd (res_cancel_pending pf w rs h t)) \<and> res_ok w rs (snd (res_complete pf w rs h at t)) \<and>
    (\<forall>spec d store cell g rs' c g'. res_make spec d store cell g = (Inr (rs', c), g') \<and> sp_capacity spec \<le> SIZE_MAX \<longrightarrow>
       encoded_inv rs' (vc_value c))"
proof (intro conjI allI impI)
  obtain cs where cs: "vc_value (cell_of w (res_cell rs)) = res_encode cs" "res_inv rs cs"
    using assms(2) by (auto simp: res_committed_ok_def)
  have keep: "res_ok w rs (snd (txn_rmw pf w (res_cell rs) f t))"
    if "\<And>s r v'. res_inv rs s \<Longrightarrow> f (res_encode s) = Inr (r, Some v') \<Longrightarrow> encoded_inv rs v'"
    for f :: "value_t \<Rightarrow> ('r \<times> value_t option) expected"
    by (rule rmw_res_ok [OF prod.collapse [symmetric] assms(1)]) (use that in blast)
  show "res_ok w rs (snd (res_reserve pf w rs owner earliest dur t))"
    using assms(1) by (auto simp: res_reserve_def Let_def intro: encoded_invI [OF reserve_step_inv]
        intro!: keep split: sum.splits)
  show "res_ok w rs (snd (res_cancel_pending pf w rs h t))"
    using assms(1) by (auto simp: res_cancel_pending_def Let_def cs(1) intro: encoded_invI [OF cancel_step_inv [OF _ cs(2)]]
        intro!: keep split: sum.splits)
  show "res_ok w rs (snd (res_complete pf w rs h at t))"
    using assms(1) by (auto simp: res_complete_def Let_def intro: encoded_invI [OF complete_step_inv]
        intro!: keep split: sum.splits)
  fix spec d store cell g rs' c g'
  assume "res_make spec d store cell g = (Inr (rs', c), g') \<and> sp_capacity spec \<le> SIZE_MAX"
  then show "encoded_inv rs' (vc_value c)" using initial_inv by (auto simp: encoded_inv_def)
qed

text \<open>
  The capacity is respected: whatever was reserved, \<open>inspect\<close> never reports more
  reservations in service than the resource has channels.
\<close>

theorem resource_capacity_respected:
  assumes "res_ok w rs t" and "res_inspect w rs t = Inr n"
  shows "rn_servicing n \<le> sp_capacity (res_spec rs)"
proof -
  obtain s where s: "et_read w t (res_cell rs) = Inr (res_encode s)" "res_inv rs s"
    using assms(1) by (auto simp: res_ok_def)
  have "rn_servicing n = length (filter (in_service (rk_time (ec_ready (et_context t)))) (st_records s))"
    using assms(2) s(1) by (auto simp: res_inspect_def Let_def inspect_servicing fail_def split: if_splits sum.splits)
  then show ?thesis using service_bound [OF s(2)] by simp
qed


text \<open>
  A reservation is completed at most once: the first completion at or after its
  finish reports whether it was still wanted, a second one reports false and changes nothing,
  and before the finish the completion is refused and changes nothing.
\<close>

theorem completion_happens_once:
  assumes "res_ok w rs t" and "et_read w t (res_cell rs) = Inr (res_encode s)"
    and "ticket_check rs h s = Inr ()" and "rr_live (st_records s ! unat (h_slot h)) \<noteq> 0"
    and "res_complete pf w rs h at t = (res, t')"
    and "ec_domain (et_context t) = res_domain rs" and "ec_owner (et_context t) = h_owner h"
    and "at = rk_time (ec_ready (et_context t))" and "object_context t False = Inr ()"
  shows "(at < rr_finish (st_records s ! unat (h_slot h)) \<longrightarrow>
       res = fail NotReady ''resource finish not reached'' \<and> t' = t) \<and>
    (\<forall>b. res = Inr b \<longrightarrow> b = (\<not> rr_cancelled (st_records s ! unat (h_slot h))) \<and>
       rr_finish (st_records s ! unat (h_slot h)) \<le> at \<and> res_complete pf w rs h at t' = (Inr False, t'))"
proof -
  let ?i = "unat (h_slot h)"
  let ?r = "st_records s ! ?i"
  let ?f = "\<lambda>v. case complete_step rs h at (res_decode v) of
      Inl e \<Rightarrow> Inl e | Inr (b, s) \<Rightarrow> Inr (b, map_option res_encode s)"
  have rmw: "txn_rmw pf w (res_cell rs) ?f t = (res, t')"
    using assms(5-9) by (simp add: res_complete_def Let_def)
  have i: "?i < length (st_records s)" "rr_ticket ?r = h" using ticket_check_Inr [OF assms(3)] by auto
  have early: "res = fail NotReady ''resource finish not reached'' \<and> t' = t" if "at < rr_finish ?r"
    using rmw that assms(2-4) by (simp add: cell_rmw_def complete_step_def Let_def fail_def)
  have late: "b = (\<not> rr_cancelled ?r) \<and> rr_finish ?r \<le> at \<and> res_complete pf w rs h at t' = (Inr False, t')"
    if b: "res = Inr b" for b
  proof -
    have fin: "rr_finish ?r \<le> at" using early b by (auto simp: fail_def not_less [symmetric])
    let ?s = "s\<lparr>st_records := (st_records s)[?i := ?r\<lparr>rr_live := 0\<rparr>]\<rparr>"
    have "?f (res_encode s) = Inr (\<not> rr_cancelled ?r, Some (res_encode ?s))"
      using assms(3,4) fin by (simp add: complete_step_def Let_def not_less)
    then have r: "b = (\<not> rr_cancelled ?r)" "et_read w t' (res_cell rs) = Inr (res_encode ?s)"
      using rmw b assms(2) by (auto elim!: seg.rmw_Inr)
    have "ticket_check rs h ?s = Inr ()" using assms(3) i by (auto simp: ticket_check_def split: if_splits)
    then have "complete_step rs h at ?s = Inr (False, None)" using i by (simp add: complete_step_def Let_def)
    then have "txn_rmw pf w (res_cell rs) ?f t' = (Inr False, t')" using r(2) by (simp add: cell_rmw_def)
    moreover have "et_context t' = et_context t" using rmw_context [OF rmw] .
    ultimately have "res_complete pf w rs h at t' = (Inr False, t')"
      using assms(6-9) by (simp add: res_complete_def Let_def object_context_def)
    with r(1) fin show ?thesis by simp
  qed
  show ?thesis using early late by blast
qed

text \<open>
  Cancelling a reservation that is not yet committed takes it back without a trace:
  channels, issue times and all other reservations are as if it had never been made.
\<close>

theorem cancel_unpublished_restores:
  assumes "res_inv rs s" and "et_read w t (res_cell rs) = Inr (res_encode s)"
    and "vc_value (cell_of w (res_cell rs)) = res_encode s"
    and "res_reserve pf w rs owner earliest dur t = (Inr g, t1)"
    and "res_cancel_pending pf w rs (gr_ticket g) t1 = (Inr d, t2)"
  shows "d = CancelledUnpublished \<and> (\<exists>s2. et_read w t2 (res_cell rs) = Inr (res_encode s2) \<and>
    st_channels s2 = st_channels s \<and> st_next_issue s2 = st_next_issue s \<and> st_last_start s2 = st_last_start s \<and>
    (\<forall>i < length (st_records s). if rr_live (st_records s ! i) = 0 then rr_live (st_records s2 ! i) = 0
       else st_records s2 ! i = st_records s ! i))"
proof -
  have "txn_rmw pf w (res_cell rs) (\<lambda>v. case reserve_step rs (et_context t) owner earliest dur (res_decode v) of
      Inl e \<Rightarrow> Inl e | Inr (g, s) \<Rightarrow> Inr (g, Some (res_encode s))) t = (Inr g, t1)"
    using assms(4) by (auto simp: res_reserve_def Let_def fail_def split: if_splits sum.splits)
  then obtain s1 where st: "reserve_step rs (et_context t) owner earliest dur s = Inr (g, s1)"
    and r1: "et_read w t1 (res_cell rs) = Inr (res_encode s1)"
    by (cases rule: seg.rmw_Inr) (use assms(2) in \<open>auto split: sum.splits\<close>)
  let ?now = "rk_time (ec_ready (et_context t1))"
  obtain s2 where c: "cancel_step rs ?now (gr_ticket g) s s1 = Inr (CancelledUnpublished, Some s2)"
    and s2: "st_channels s2 = st_channels s" "st_next_issue s2 = st_next_issue s" "st_last_start s2 = st_last_start s"
      "\<forall>i < length (st_records s). if rr_live (st_records s ! i) = 0 then rr_live (st_records s2 ! i) = 0
         else st_records s2 ! i = st_records s ! i"
    using cancel_after_reserve [OF assms(1) st] by blast
  have "txn_rmw pf w (res_cell rs) (\<lambda>v. case cancel_step rs ?now (gr_ticket g)
      (res_decode (vc_value (cell_of w (res_cell rs)))) (res_decode v) of
      Inl e \<Rightarrow> Inl e | Inr (d, s) \<Rightarrow> Inr (d, map_option res_encode s)) t1 = (Inr d, t2)"
    using assms(5) by (auto simp: res_cancel_pending_def Let_def fail_def split: if_splits sum.splits)
  then have "d = CancelledUnpublished \<and> et_read w t2 (res_cell rs) = Inr (res_encode s2)"
    by (cases rule: seg.rmw_Inr) (use r1 c assms(3) in auto)
  with s2 show ?thesis by blast
qed

section \<open>Witnesses\<close>

text \<open>A resource of two channels and three records in cell 5, and a segment with room for it.\<close>

definition demo_spec :: resource_spec where
  "demo_spec = \<lparr>sp_kind = RK_Capacity, sp_capacity = 2, sp_default_latency = 10,
     sp_initiation_interval = 0, sp_reservation_capacity = 3\<rparr>"

definition demo_resource :: resource where
  "demo_resource = \<lparr>res_spec = demo_spec, res_domain = 7, res_store = 9, res_cell = 5\<rparr>"

definition demo_ticket :: handle where
  "demo_ticket = \<lparr>h_kind = HK_ResourceTicket, h_domain = 7, h_store = 9, h_slot = 0, h_generation = 1, h_owner = 3\<rparr>"

text \<open>One reservation, in service from tick 2 to tick 4 on channel 0.\<close>

definition demo_res_state :: res_state where
  "demo_res_state = \<lparr>st_next_issue = 2, st_last_start = 2, st_last_arrival = 0, st_channels = [4, 0],
     st_records = [\<lparr>rr_live = 1, rr_ticket = demo_ticket, rr_start = 2, rr_finish = 4, rr_wait = 0,
       rr_channel = 0, rr_cancelled = False\<rparr>, empty_record, empty_record]\<rparr>"

definition demo_res_world :: "unit world" where
  "demo_res_world = demo_world\<lparr>w_cells := (w_cells demo_world)(5 := \<lparr>vc_value = res_encode demo_res_state,
     vc_version = 0, vc_epoch = 0, vc_stable_bytes = False, vc_epoch_independent = True\<rparr>)\<rparr>"

definition demo_res_txn :: event_txn where
  "demo_res_txn = demo_txn\<lparr>et_budget := \<lparr>sb_writes = 2, sb_actions = 2, sb_bytes = 100000, sb_events = 2\<rparr>\<rparr>"

definition demo_owner :: handle where
  "demo_owner = \<lparr>h_kind = HK_Transaction, h_domain = 7, h_store = 1, h_slot = 0, h_generation = 1, h_owner = 3\<rparr>"

lemma demo_res_inv: "res_inv demo_resource demo_res_state"
proof -
  have "i < 3 \<Longrightarrow> i = 0 \<or> i = 1 \<or> i = 2" for i :: nat by auto
  then show ?thesis
    by (auto simp: res_inv_def res_sizes_def all_apart_def rec_ok_def demo_res_state_def demo_resource_def demo_spec_def
        empty_record_def demo_ticket_def spec_interval_def less_Suc_eq numeral_3_eq_3)
qed

lemma demo_res_read: "et_read demo_res_world demo_res_txn 5 = Inr (res_encode demo_res_state)"
  by (simp add: et_read_def demo_res_world_def cell_epoch_ok_def demo_res_txn_def demo_txn_def EventTxn_new_def)

lemma demo_res_ok: "res_ok demo_res_world demo_resource demo_res_txn" "res_committed_ok demo_res_world demo_resource"
  using demo_res_read demo_res_inv
  by (auto simp: res_ok_def res_committed_ok_def demo_resource_def demo_res_world_def)

lemma demo_pf_ok: "capacities_ok demo_pf" "0 < sizeof_Value demo_pf"
  by (simp_all add: capacities_ok_def demo_pf_def)

lemma demo_res_cost:
  assumes "length (st_channels s) = 2" and "length (st_records s) = 3"
  shows "owned_value_bytes demo_pf (res_encode s) = 1280"
proof -
  obtain a b where c: "st_channels s = [a, b]" using assms(1) by (auto simp: length_Suc_conv numeral_2_eq_2)
  obtain x y z where r: "st_records s = [x, y, z]" using assms(2) by (auto simp: length_Suc_conv numeral_3_eq_3)
  have "value_ok demo_pf (res_encode s) \<and> value_cost demo_pf (res_encode s) = 1280"
    by (simp add: res_encode_def record_encode_def c r value_ok_def demo_pf_def)
  then show ?thesis by (simp add: owned_value_bytes_def bounded_value_bytes_eq [OF demo_pf_ok])
qed

lemma demo_res_buffer:
  assumes "length (st_channels s) = 2" and "length (st_records s) = 3"
  shows "et_buffer demo_pf demo_res_world 5 (res_encode s) demo_res_txn = (Inr (), demo_res_txn\<lparr>et_writes :=
    [\<lparr>tw_cell = 5, tw_version = 0, tw_value = res_encode s\<rparr>], et_bytes := 1280\<rparr>)"
  by (simp add: et_buffer_def demo_res_cost [OF assms] demo_res_txn_def demo_txn_def EventTxn_new_def demo_res_world_def
      cell_epoch_ok_def prior_bytes_def Let_def)

lemma demo_reserve_ok:
  "\<exists>g t'. res_reserve demo_pf demo_res_world demo_resource demo_owner 6 10 demo_res_txn = (Inr g, t')"
proof -
  have rs: "\<exists>g s. reserve_step demo_resource (et_context demo_res_txn) demo_owner 6 10 demo_res_state = Inr (g, s) \<and>
      length (st_channels s) = 2 \<and> length (st_records s) = 3"
    by (simp add: reserve_step_def demo_res_state_def demo_resource_def demo_spec_def empty_record_def default_handle_def
        least_channel_def spec_interval_def checked_add_def upt_rec demo_res_txn_def demo_txn_def EventTxn_new_def Let_def)
  then obtain g s where "reserve_step demo_resource (et_context demo_res_txn) demo_owner 6 10 demo_res_state = Inr (g, s)"
      and l: "length (st_channels s) = 2" "length (st_records s) = 3" by blast
  then have "txn_rmw demo_pf demo_res_world 5 (\<lambda>v. case reserve_step demo_resource (et_context demo_res_txn) demo_owner 6 10 (res_decode v) of
      Inl e \<Rightarrow> Inl e | Inr (g, s) \<Rightarrow> Inr (g, Some (res_encode s))) demo_res_txn =
    (Inr g, demo_res_txn\<lparr>et_writes := [\<lparr>tw_cell = 5, tw_version = 0, tw_value = res_encode s\<rparr>], et_bytes := 1280\<rparr>)"
    by (simp add: cell_rmw_def demo_res_read demo_res_buffer [OF l])
  then show ?thesis
    by (simp add: res_reserve_def object_context_def demo_res_txn_def demo_txn_def EventTxn_new_def demo_resource_def demo_owner_def)
qed

theorem resource_schedule_kept_witness:
  "res_ok demo_res_world demo_resource
     (snd (res_reserve demo_pf demo_res_world demo_resource demo_owner 6 10 demo_res_txn))"
  using resource_schedule_kept [OF demo_res_ok, of demo_pf demo_owner 6 10] by blast

theorem resource_capacity_respected_witness:
  "\<exists>n. res_inspect demo_res_world demo_resource demo_res_txn = Inr n \<and> length (rn_reservations n) = 1 \<and>
     rn_servicing n \<le> 2"
proof -
  have "\<exists>n. res_inspect demo_res_world demo_resource demo_res_txn = Inr n \<and> length (rn_reservations n) = 1"
    using demo_res_read by (simp add: res_inspect_def object_context_def demo_resource_def demo_res_txn_def demo_txn_def
        EventTxn_new_def demo_res_state_def empty_record_def)
  then obtain n where n: "res_inspect demo_res_world demo_resource demo_res_txn = Inr n" "length (rn_reservations n) = 1"
    by blast
  show ?thesis
    using resource_capacity_respected [OF demo_res_ok(1) n(1)] n by (simp add: demo_resource_def demo_spec_def)
qed


theorem completion_happens_once_witness:
  "res_complete demo_pf demo_res_world demo_resource demo_ticket 4 demo_res_txn =
     (Inr True, snd (res_complete demo_pf demo_res_world demo_resource demo_ticket 4 demo_res_txn)) \<and>
   fst (res_complete demo_pf demo_res_world demo_resource demo_ticket 4
      (snd (res_complete demo_pf demo_res_world demo_resource demo_ticket 4 demo_res_txn))) = Inr False"
proof -
  have rd: "et_read demo_res_world demo_res_txn (res_cell demo_resource) = Inr (res_encode demo_res_state)"
    using demo_res_read by (simp add: demo_resource_def)
  have chk: "ticket_check demo_resource demo_ticket demo_res_state = Inr ()"
    by (simp add: ticket_check_def demo_resource_def demo_ticket_def demo_res_state_def)
  have live: "rr_live (st_records demo_res_state ! unat (h_slot demo_ticket)) \<noteq> 0"
    by (simp add: demo_res_state_def demo_ticket_def)
  have ctx: "ec_domain (et_context demo_res_txn) = res_domain demo_resource" "ec_owner (et_context demo_res_txn) = h_owner demo_ticket"
    "(4::u64) = rk_time (ec_ready (et_context demo_res_txn))" "object_context demo_res_txn False = Inr ()"
    by (simp_all add: demo_res_txn_def demo_txn_def EventTxn_new_def demo_resource_def demo_ticket_def object_context_def)
  have "fst (res_complete demo_pf demo_res_world demo_resource demo_ticket 4 demo_res_txn) = Inr True"
  proof -
    let ?s = "demo_res_state\<lparr>st_records := (st_records demo_res_state)[0 := (st_records demo_res_state ! 0)\<lparr>rr_live := 0\<rparr>]\<rparr>"
    have l: "length (st_channels ?s) = 2" "length (st_records ?s) = 3" by (simp_all add: demo_res_state_def)
    have "complete_step demo_resource demo_ticket 4 demo_res_state = Inr (True, Some ?s)"
      unfolding complete_step_def chk by (simp add: demo_res_state_def demo_ticket_def Let_def)
    then show ?thesis
      using demo_res_read demo_res_buffer [OF l] ctx by (simp add: res_complete_def cell_rmw_def Let_def) (simp add: demo_resource_def)
  qed
  then have r: "res_complete demo_pf demo_res_world demo_resource demo_ticket 4 demo_res_txn =
      (Inr True, snd (res_complete demo_pf demo_res_world demo_resource demo_ticket 4 demo_res_txn))"
    by (simp add: prod_eq_iff)
  have "res_complete demo_pf demo_res_world demo_resource demo_ticket 4
      (snd (res_complete demo_pf demo_res_world demo_resource demo_ticket 4 demo_res_txn)) =
      (Inr False, snd (res_complete demo_pf demo_res_world demo_resource demo_ticket 4 demo_res_txn))"
    using completion_happens_once [OF demo_res_ok(1) rd chk live r ctx] by blast
  with r show ?thesis by (metis fst_conv)
qed

lemma demo_res_rebuffer:
  assumes "length (st_channels s) = 2" and "length (st_records s) = 3"
    and "length (st_channels s') = 2" and "length (st_records s') = 3"
  shows "\<exists>t'. et_buffer demo_pf demo_res_world 5 (res_encode s') (demo_res_txn\<lparr>et_writes :=
    [\<lparr>tw_cell = 5, tw_version = 0, tw_value = res_encode s\<rparr>], et_bytes := 1280\<rparr>) = (Inr (), t')"
  by (simp add: et_buffer_def demo_res_cost [OF assms(1,2)] demo_res_cost [OF assms(3,4)] demo_res_txn_def demo_txn_def
      EventTxn_new_def demo_res_world_def cell_epoch_ok_def prior_bytes_def Let_def)

theorem cancel_unpublished_restores_witness:
  "\<exists>g t1 t2 s2. res_reserve demo_pf demo_res_world demo_resource demo_owner 6 10 demo_res_txn = (Inr g, t1) \<and>
     res_cancel_pending demo_pf demo_res_world demo_resource (gr_ticket g) t1 = (Inr CancelledUnpublished, t2) \<and>
     et_read demo_res_world t2 5 = Inr (res_encode s2) \<and> st_channels s2 = [4, 0]"
proof -
  have rd: "et_read demo_res_world demo_res_txn (res_cell demo_resource) = Inr (res_encode demo_res_state)"
    and cell: "vc_value (cell_of demo_res_world (res_cell demo_resource)) = res_encode demo_res_state"
    using demo_res_read by (simp_all add: demo_resource_def demo_res_world_def)
  obtain g t1 where g: "res_reserve demo_pf demo_res_world demo_resource demo_owner 6 10 demo_res_txn = (Inr g, t1)"
    using demo_reserve_ok by blast
  have "txn_rmw demo_pf demo_res_world (res_cell demo_resource) (\<lambda>v. case reserve_step demo_resource (et_context demo_res_txn)
      demo_owner 6 10 (res_decode v) of Inl e \<Rightarrow> Inl e | Inr (g, s) \<Rightarrow> Inr (g, Some (res_encode s))) demo_res_txn = (Inr g, t1)"
    using g by (auto simp: res_reserve_def Let_def fail_def split: if_splits sum.splits)
  then obtain s1 where st: "reserve_step demo_resource (et_context demo_res_txn) demo_owner 6 10 demo_res_state = Inr (g, s1)"
    and b1: "et_buffer demo_pf demo_res_world 5 (res_encode s1) demo_res_txn = (Inr (), t1)"
    and r1: "et_read demo_res_world t1 5 = Inr (res_encode s1)"
    by (cases rule: seg.rmw_Inr) (use rd in \<open>auto simp: demo_resource_def split: sum.splits\<close>)
  have l1: "length (st_channels s1) = 2" "length (st_records s1) = 3"
    using reserve_step_inv [OF demo_res_inv st] by (auto simp: res_inv_def res_sizes_def demo_resource_def demo_spec_def)
  have t1: "t1 = demo_res_txn\<lparr>et_writes := [\<lparr>tw_cell = 5, tw_version = 0, tw_value = res_encode s1\<rparr>], et_bytes := 1280\<rparr>"
    using b1 demo_res_buffer [OF l1] by simp
  obtain s2 where c: "cancel_step demo_resource 4 (gr_ticket g) demo_res_state s1 = Inr (CancelledUnpublished, Some s2)"
    using cancel_after_reserve [OF demo_res_inv st] by blast
  have l2: "length (st_channels s2) = 2" "length (st_records s2) = 3"
    using cancel_step_inv [OF reserve_step_inv [OF demo_res_inv st] demo_res_inv c]
    by (auto simp: res_inv_def res_sizes_def demo_resource_def demo_spec_def)
  obtain t2 where b2: "et_buffer demo_pf demo_res_world 5 (res_encode s2) t1 = (Inr (), t2)"
    unfolding t1 using demo_res_rebuffer [OF l1 l2] by blast
  obtain slot where "gr_ticket g = \<lparr>h_kind = HK_ResourceTicket, h_domain = res_domain demo_resource,
      h_store = res_store demo_resource, h_slot = of_nat slot,
      h_generation = h_generation (rr_ticket (st_records demo_res_state ! slot)) + 1, h_owner = h_owner demo_owner\<rparr>"
    using st by (rule reserve_step_Inr)
  then have "h_owner (gr_ticket g) = 3" by (simp only: handle.select_convs) (simp add: demo_owner_def)
  moreover have "et_context t1 = et_context demo_res_txn" by (simp add: t1)
  then have "ec_domain (et_context t1) = 7" "ec_owner (et_context t1) = 3" "rk_time (ec_ready (et_context t1)) = 4"
    "object_context t1 False = Inr ()"
    by (simp_all add: demo_res_txn_def demo_txn_def EventTxn_new_def object_context_def)
  moreover have "res_cell demo_resource = 5" "res_domain demo_resource = 7" by (simp_all add: demo_resource_def)
  ultimately have cp: "res_cancel_pending demo_pf demo_res_world demo_resource (gr_ticket g) t1 = (Inr CancelledUnpublished, t2)"
    using c b2 r1 cell by (simp add: res_cancel_pending_def cell_rmw_def)
  show ?thesis
    using cancel_unpublished_restores [OF demo_res_inv rd cell g cp] g cp
    by (auto simp: demo_res_state_def demo_resource_def)
qed

end
