(* ===== verification/Pipeline.thy ===== *)
theory Pipeline
  imports Resource_Props
begin

text \<open>
  The pipeline object of \<open>stdlib/include/leanat/pipeline.hpp\<close> and
  \<open>stdlib/src/pipeline.cpp\<close>: a resource whose reservations are announced by a ready event.
  A submission reserves a service interval and stages the event at its end; both happen or
  neither does.
\<close>

section \<open>Data\<close>

record pipeline_ticket =
  pt_grant :: grant
  pt_owner :: handle
  pt_ready_event :: event_token
  pt_epoch :: u64

text \<open>The resource and the address of the event queue.\<close>

record pipeline =
  pp_resource :: resource
  pp_events :: nat

section \<open>Operations\<close>

definition pipe_make ::
  "duration \<Rightarrow> duration \<Rightarrow> nat \<Rightarrow> nat \<Rightarrow> nat \<Rightarrow> domain_id \<Rightarrow> u32 \<Rightarrow> nat \<Rightarrow> resource_registry \<Rightarrow>
     (pipeline \<times> versioned_cell) expected \<times> resource_registry" where
  "pipe_make latency ii cap queue records d store cell g =
     (case res_make \<lparr>sp_kind = RK_Pipeline, sp_capacity = cap, sp_default_latency = latency,
             sp_initiation_interval = ii, sp_reservation_capacity = records\<rparr> d store cell g of
        (Inl e, g) \<Rightarrow> (Inl e, g)
      | (Inr (r, c), g) \<Rightarrow> (Inr (\<lparr>pp_resource = r, pp_events = queue\<rparr>, c), g))"

definition ready_draft :: "execution_context \<Rightarrow> handle \<Rightarrow> grant \<Rightarrow> u64 \<Rightarrow> event_draft" where
  "ready_draft ctx owner g turn = \<lparr>ed_key = EventKey (gr_finish g) turn ES_Internal (ec_instance ctx)
       (ec_connection ctx) 0, ed_value = VHandle (gr_ticket g), ed_owner = h_owner owner,
     ed_epoch = ec_epoch ctx\<rparr>"

definition pipe_submit ::
  "platform \<Rightarrow> 'x participant_ops \<Rightarrow> pipeline \<Rightarrow> handle \<Rightarrow> tick \<Rightarrow> event_txn \<Rightarrow> 'x world \<Rightarrow>
     pipeline_ticket expected \<times> event_txn \<times> 'x world" where
  "pipe_submit pf ops p owner earliest t w =
     (case et_checkpoint t of
        Inl e \<Rightarrow> (Inl e, t, w)
      | Inr cp \<Rightarrow>
         (case res_reserve_default pf w (pp_resource p) owner earliest t of
            (Inl e, t1) \<Rightarrow> (Inl e, t1, w)
          | (Inr g, t1) \<Rightarrow>
             (let ctx = et_context t1; now = ec_ready ctx in
              if gr_finish g = rk_time now \<and> rk_turn now = UINT64_MAX
              then (fail Overflow ''pipeline successor turn overflow'', roll_back ops cp t1 w)
              else let turn = (if gr_finish g = rk_time now then rk_turn now + 1 else 0) in
                case et_stage_event pf (pp_events p) (ready_draft ctx owner g turn) t1 w of
                  (Inl e, t2, w2) \<Rightarrow> (Inl e, roll_back ops cp t2 w2)
                | (Inr token, t2, w2) \<Rightarrow>
                    (Inr \<lparr>pt_grant = g, pt_owner = owner, pt_ready_event = token,
                          pt_epoch = ec_epoch (et_context t2)\<rparr>, t2, w2))))"

definition pipe_cancel_pending ::
  "platform \<Rightarrow> 'x participant_ops \<Rightarrow> pipeline \<Rightarrow> pipeline_ticket \<Rightarrow> event_txn \<Rightarrow> 'x world \<Rightarrow>
     resource_cancel_disposition expected \<times> event_txn \<times> 'x world" where
  "pipe_cancel_pending pf ops p k t w =
     (case et_checkpoint t of
        Inl e \<Rightarrow> (Inl e, t, w)
      | Inr cp \<Rightarrow>
         (case res_cancel_pending pf w (pp_resource p) (gr_ticket (pt_grant k)) t of
            (Inl e, t1) \<Rightarrow> (Inl e, t1, w)
          | (Inr d, t1) \<Rightarrow>
             (if d = CancelledUnpublished then
                (case et_stage_cancel w (pp_events p) (pt_ready_event k) t1 of
                   (Inl e, t2) \<Rightarrow> (Inl e, roll_back ops cp t2 w)
                 | (Inr _, t2) \<Rightarrow> (Inr d, t2, w))
              else (Inr d, t1, w))))"

definition pipe_on_ready ::
  "platform \<Rightarrow> 'x world \<Rightarrow> pipeline \<Rightarrow> pipeline_ticket \<Rightarrow> event_token \<Rightarrow> event_txn \<Rightarrow>
     bool expected \<times> event_txn" where
  "pipe_on_ready pf w p k received t =
     (let ctx = et_context t in
      case eq_active_event received (queue_of w (pp_events p)) of
        Inl e \<Rightarrow> (Inl e, t)
      | Inr ev \<Rightarrow>
         (if ek_time (ed_key ev) \<noteq> rk_time (ec_ready ctx) \<or> ek_turn (ed_key ev) \<noteq> rk_turn (ec_ready ctx) \<or>
             ed_owner ev \<noteq> ec_owner ctx \<or> ed_epoch ev \<noteq> pt_epoch k \<or>
             ed_value ev \<noteq> VHandle (gr_ticket (pt_grant k))
          then (fail InvalidState ''pipeline ready authoritative event mismatch'', t)
          else if received \<noteq> pt_ready_event k
          then (fail StaleHandle ''pipeline ready event mismatch'', t)
          else if h_owner (pt_owner k) \<noteq> h_owner (gr_ticket (pt_grant k))
          then (fail WrongOwner ''pipeline owner mismatch'', t)
          else case res_complete pf w (pp_resource p) (gr_ticket (pt_grant k)) (rk_time (ec_ready ctx)) t of
            (Inl e, t') \<Rightarrow> (Inl e, t')
          | (Inr b, t') \<Rightarrow> (Inr (b \<and> pt_epoch k = ec_epoch (et_context t')), t')))"

definition pipe_inspect :: "'x world \<Rightarrow> pipeline \<Rightarrow> event_txn \<Rightarrow> resource_snapshot expected" where
  "pipe_inspect w p t = res_inspect w (pp_resource p) t"

section \<open>Submission is atomic\<close>

lemma res_reserve_stages:
  assumes "res_reserve pf w rs owner earliest dur t = (res, t')"
  shows "(txn_reachable pf ops w t ss \<longrightarrow> txn_reachable pf ops w t' ss) \<and> extends t t' [] \<and>
    (isl res \<longrightarrow> t' = t)"
proof -
  consider "t' = t" | f :: "value_t \<Rightarrow> (grant \<times> value_t option) expected" where "txn_rmw pf w (res_cell rs) f t = (res, t')"
    using assms by (auto simp: res_reserve_def Let_def split: if_splits sum.splits)
  then show ?thesis
  proof cases
    case 2
    then show ?thesis using rmw_stages [OF 2] seg.rmw_Inl [where pf = pf and w = w and f = f] by (auto simp: isl_def)
  qed simp
qed

text \<open>
  Claim C23. A pipeline submission is atomic. When it fails at any point (reservation, turn
  overflow, event queue full or over budget), the segment is exactly as before, no cell has
  changed and no event slot stays occupied; when it succeeds, exactly one event is staged,
  at the tick at which the service ends, carrying the ticket.
\<close>

theorem pipeline_submit_atomic:
  assumes "participants ops" and "txn_reachable pf ops w t ss"
    and "pipe_submit pf ops p owner earliest t w = (res, t', w')"
  shows "case res of
      Inl e \<Rightarrow> t' = t \<and> slots_grew w w' []
    | Inr k \<Rightarrow> (\<exists>r. et_events t' = et_events t @ [(pp_events p, r)] \<and> er_token r = pt_ready_event k) \<and>
        (let ev = sl_event (eq_slots (queue_of w' (pp_events p)) ! unat (h_slot (pt_ready_event k))) in
         ek_time (ed_key ev) = gr_finish (pt_grant k) \<and> ed_value ev = VHandle (gr_ticket (pt_grant k)) \<and>
         ed_owner ev = h_owner owner)"
proof -
  note reach = assms(1,2)
  have open_t: "\<not> et_closed t" using participants.reachable_inv [OF reach] by (simp add: txn_inv_def)
  obtain cp where cp: "et_checkpoint t = Inr cp" using open_t by (simp add: et_checkpoint_def)
  obtain res1 t1 where rv: "res_reserve_default pf w (pp_resource p) owner earliest t = (res1, t1)" by fastforce
  note s1 = res_reserve_stages [OF rv [unfolded res_reserve_default_def], of ops ss]
  show ?thesis
  proof (cases res1)
    case (Inl e)
    with s1 assms(3) show ?thesis by (auto simp: pipe_submit_def cp rv)
  next
    case (Inr g)
    have r1: "txn_reachable pf ops w t1 ss" and e1: "extends t t1 []" using s1 reach by auto
    let ?now = "ec_ready (et_context t1)"
    let ?turn = "if gr_finish g = rk_time ?now then rk_turn ?now + 1 else 0"
    let ?d = "ready_draft (et_context t1) owner g ?turn"
    obtain res2 t2 w2 where se: "et_stage_event pf (pp_events p) ?d t1 w = (res2, t2, w2)" by (metis prod_cases3)
    note r2 = stage_event_stages [OF reach(1) r1 se]
    obtain es where es: "extends t1 t2 es" "slots_grew w w2 es" using r2(2) by blast
    have e2: "extends t t2 es" using extends_trans [OF e1 es(1)] by simp
    consider (turn) "gr_finish g = rk_time ?now" "rk_turn ?now = UINT64_MAX"
      | (err) e where "\<not> (gr_finish g = rk_time ?now \<and> rk_turn ?now = UINT64_MAX)" "res2 = Inl e"
      | (ok) token where "\<not> (gr_finish g = rk_time ?now \<and> rk_turn ?now = UINT64_MAX)" "res2 = Inr token"
      by (cases res2) auto
    then show ?thesis
    proof cases
      case turn
      have "(t', w') = roll_back ops cp t1 w" "isl res"
        using assms(3) turn by (auto simp: pipe_submit_def cp rv Inr Let_def fail_def)
      then show ?thesis
        using roll_back_restores [OF reach(1) r1 e1 slots_grew_refl cp] by (cases res) (auto simp: prod_eq_iff)
    next
      case err
      have "(t', w') = roll_back ops cp t2 w2" "res = Inl e"
        using assms(3) err se by (auto simp: pipe_submit_def cp rv Inr Let_def)
      then show ?thesis
        using roll_back_restores [OF reach(1) r2(1) e2 es(2) cp] by (auto simp: prod_eq_iff)
    next
      case ok
      have f: "t' = t2" "w' = w2" "res = Inr \<lparr>pt_grant = g, pt_owner = owner, pt_ready_event = token,
          pt_epoch = ec_epoch (et_context t2)\<rparr>"
        using assms(3) ok se by (auto simp: pipe_submit_def cp rv Inr Let_def)
      have "eq_inv (queue_of w (pp_events p))"
        using participants.reachable_inv [OF reach(1) r1] by (simp add: queues_inv_def)
      note d = stage_event_draft [OF this se [unfolded ok(2)]]
      have "et_events t1 = et_events t" using e1 by (simp add: extends_def)
      then show ?thesis
        using d f by (auto simp: ready_draft_def set_sequence_def Let_def)
    qed
  qed
qed

section \<open>Witness\<close>

definition demo_pipeline :: pipeline where
  "demo_pipeline = \<lparr>pp_resource = demo_resource, pp_events = 0\<rparr>"

lemma demo_res_reachable: "txn_reachable demo_pf null_ops demo_res_world demo_res_txn {}"
proof -
  have "queues_inv demo_res_world"
    using eq_reachable_inv [OF demo_new_reachable] by (simp add: queues_inv_def demo_res_world_def demo_world_def)
  from txn_reachable.new [OF this, of demo_pf null_ops 1
      "\<lparr>sb_writes = 2, sb_actions = 2, sb_bytes = 100000, sb_events = 2\<rparr>" "et_context demo_txn"]
  show ?thesis by (simp add: demo_res_txn_def demo_txn_def EventTxn_new_def)
qed

text \<open>A submission that the resource refuses: the request names an instant that has passed.\<close>

theorem pipeline_submit_atomic_witness:
  "\<exists>e. pipe_submit demo_pf null_ops demo_pipeline demo_owner 1 demo_res_txn demo_res_world = (Inl e, demo_res_txn, demo_res_world)"
proof -
  obtain res t' w' where p: "pipe_submit demo_pf null_ops demo_pipeline demo_owner 1 demo_res_txn demo_res_world = (res, t', w')"
    by (metis prod_cases3)
  have "\<exists>e. res = Inl e" "w' = demo_res_world"
    using p by (auto simp: pipe_submit_def et_checkpoint_def res_reserve_default_def res_reserve_def object_context_def
        demo_pipeline_def demo_resource_def demo_owner_def demo_res_txn_def demo_txn_def EventTxn_new_def fail_def)
  moreover have "t' = demo_res_txn" if "res = Inl e" for e
    using pipeline_submit_atomic [OF null_participants demo_res_reachable p] that by simp
  ultimately show ?thesis using p by auto
qed

end
