(* ===== verification/Register_Bank.thy ===== *)
theory Register_Bank
  imports Memory
begin

text \<open>
  The register bank of \<open>stdlib/include/leanat/register_bank.hpp\<close> and
  \<open>stdlib/src/register_bank.cpp\<close>: registers with bit fields of six access kinds, stored back
  to back in one byte cell. The layout check of \<open>make\<close>, bus access with the side effects of
  each access kind, debug access, field reads and updates, reset and snapshot.
\<close>

section \<open>Data\<close>

datatype register_access = RO | RW | WO | W1C | W1S | RC

datatype register_endian = Little | Big

record field_spec =
  fs_id :: field_id
  fs_lsb :: nat
  fs_width :: nat
  fs_access :: register_access
  fs_reset :: bytes

record register_spec =
  rs_offset :: u64
  rs_width_bits :: nat
  rs_fields :: "field_spec list"
  rs_allowed_access_bytes :: "nat list"
  rs_alignment_bytes :: "nat option"
  rs_endian :: register_endian

record register_bank =
  rb_specs :: "register_spec list"
  rb_starts :: "nat list"
  rb_cell :: nat
  rb_initial :: bytes

section \<open>Bits\<close>

definition reg_bit :: "bytes \<Rightarrow> nat \<Rightarrow> bool" where
  "reg_bit b i \<longleftrightarrow> drop_bit (i mod 8) (b ! (i div 8)) AND 1 \<noteq> 0"

definition reg_put :: "bytes \<Rightarrow> nat \<Rightarrow> bool \<Rightarrow> bytes" where
  "reg_put b i v =
     (let m = push_bit (i mod 8) 1 in
      b[i div 8 := (b ! (i div 8) AND NOT m) OR (if v then m else 0)])"

definition reg_bytes :: "register_spec \<Rightarrow> nat" where
  "reg_bytes r = rs_width_bits r div 8"

definition physical :: "register_spec \<Rightarrow> nat \<Rightarrow> nat" where
  "physical r i = (if rs_endian r = Little then i div 8 else reg_bytes r - 1 - i div 8) * 8 + i mod 8"

text \<open>The logical index of bit \<open>k\<close> of byte \<open>n\<close> of a register, and the field it belongs to.\<close>

definition logical_bit :: "register_spec \<Rightarrow> nat \<Rightarrow> nat \<Rightarrow> nat" where
  "logical_bit r n k = (if rs_endian r = Little then n else reg_bytes r - 1 - n) * 8 + k"

definition in_field :: "nat \<Rightarrow> field_spec \<Rightarrow> bool" where
  "in_field i f \<longleftrightarrow> fs_lsb f \<le> i \<and> i - fs_lsb f < fs_width f"

definition field_of :: "register_spec \<Rightarrow> nat \<Rightarrow> field_spec option" where
  "field_of r i = find (in_field i) (rs_fields r)"

text \<open>A loop of \<open>put\<close> calls whose arguments do not depend on the bytes.\<close>

definition reg_puts :: "(nat \<times> bool) list \<Rightarrow> bytes \<Rightarrow> bytes" where
  "reg_puts ps b = fold (\<lambda>(i, v) b. reg_put b i v) ps b"

section \<open>Construction\<close>

definition field_bytes :: "field_spec \<Rightarrow> nat" where
  "field_bytes f = (fs_width f + 7) div 8"

definition bad_field_value :: "field_spec \<Rightarrow> bytes \<Rightarrow> bool" where
  "bad_field_value f b \<longleftrightarrow> length b \<noteq> field_bytes f \<or>
     fs_width f mod 8 \<noteq> 0 \<and> drop_bit (fs_width f mod 8) (last b) \<noteq> 0"

definition field_range :: "field_spec \<Rightarrow> nat list" where
  "field_range f = [fs_lsb f..<fs_lsb f + fs_width f]"

fun make_fields ::
  "nat \<Rightarrow> field_spec list \<Rightarrow> field_id list \<Rightarrow> bool list \<Rightarrow> (field_id list \<times> field_spec list) expected" where
  "make_fields width [] ids used = Inr (ids, [])"
| "make_fields width (f # fs) ids used =
     (if fs_width f = 0 \<or> fs_lsb f > width \<or> fs_width f > width - fs_lsb f \<or> fs_id f \<in> set ids
      then fail Schema ''invalid field''
      else let f = (if fs_reset f = [] then f\<lparr>fs_reset := replicate (field_bytes f) 0\<rparr> else f) in
        if bad_field_value f (fs_reset f) then fail Schema ''field reset out of range''
        else if \<exists>k \<in> set (field_range f). used ! k then fail Schema ''overlapping fields''
        else case make_fields width fs (fs_id f # ids) (fold (\<lambda>k u. u[k := True]) (field_range f) used) of
          Inl e \<Rightarrow> Inl e
        | Inr (ids, fs) \<Rightarrow> Inr (ids, f # fs))"

definition make_register ::
  "nat \<Rightarrow> register_spec list \<Rightarrow> field_id list \<Rightarrow> register_spec \<Rightarrow> (field_id list \<times> register_spec) expected" where
  "make_register limit prev ids r =
     (if rs_width_bits r = 0 \<or> rs_width_bits r mod 8 \<noteq> 0 \<or> rs_width_bits r > limit \<or>
         rs_allowed_access_bytes r = [] \<or> rs_alignment_bytes r = Some 0
      then fail Schema ''register width/access/alignment''
      else case checked_add (rs_offset r) (of_nat (reg_bytes r - 1)) of
        Inl e \<Rightarrow> Inl e
      | Inr upper \<Rightarrow>
         (if \<exists>v \<in> set prev. rs_offset r \<le> rs_offset v + of_nat (reg_bytes v) - 1 \<and> rs_offset v \<le> upper
          then fail Schema ''overlapping registers''
          else if \<exists>n \<in> set (rs_allowed_access_bytes r). n = 0 \<or> n > reg_bytes r
          then fail Schema ''invalid access size''
          else case make_fields (rs_width_bits r) (rs_fields r) ids (replicate (rs_width_bits r) False) of
            Inl e \<Rightarrow> Inl e
          | Inr (ids, fs) \<Rightarrow> Inr (ids, r\<lparr>rs_fields := fs\<rparr>)))"

fun make_registers ::
  "nat \<Rightarrow> register_spec list \<Rightarrow> register_spec list \<Rightarrow> field_id list \<Rightarrow> nat list \<Rightarrow> nat \<Rightarrow>
     (register_spec list \<times> nat list \<times> nat) expected" where
  "make_registers limit [] prev ids starts tot = Inr (prev, starts, tot)"
| "make_registers limit (r # rs) prev ids starts tot =
     (case make_register limit prev ids r of
        Inl e \<Rightarrow> Inl e
      | Inr (ids, r) \<Rightarrow> make_registers limit rs (prev @ [r]) ids (starts @ [tot]) (tot + reg_bytes r))"

text \<open>Where bit \<open>k\<close> of a field is stored, and the writes that store a field's value.\<close>

definition field_pos :: "register_spec list \<Rightarrow> nat list \<Rightarrow> nat \<Rightarrow> field_spec \<Rightarrow> nat \<Rightarrow> nat" where
  "field_pos specs starts i f k = starts ! i * 8 + physical (specs ! i) (fs_lsb f + k)"

definition field_puts ::
  "register_spec list \<Rightarrow> nat list \<Rightarrow> bytes \<Rightarrow> nat \<times> field_spec \<Rightarrow> (nat \<times> bool) list" where
  "field_puts specs starts v = (\<lambda>(i, f). map (\<lambda>k. (field_pos specs starts i f k, reg_bit v k)) [0..<fs_width f])"

definition all_fields :: "register_spec list \<Rightarrow> (nat \<times> field_spec) list" where
  "all_fields specs = concat (map (\<lambda>i. map (Pair i) (rs_fields (specs ! i))) [0..<length specs])"

definition initial_bytes :: "register_spec list \<Rightarrow> nat list \<Rightarrow> nat \<Rightarrow> bytes" where
  "initial_bytes specs starts tot =
     fold (\<lambda>p. reg_puts (field_puts specs starts (fs_reset (snd p)) p)) (all_fields specs) (replicate tot 0)"

definition rb_make :: "nat \<Rightarrow> register_spec list \<Rightarrow> nat \<Rightarrow> (register_bank \<times> versioned_cell) expected" where
  "rb_make addr s limit =
     (case make_registers limit s [] [] [] 0 of
        Inl e \<Rightarrow> Inl e
      | Inr (specs, starts, tot) \<Rightarrow>
          let initial = initial_bytes specs starts tot in
          Inr (\<lparr>rb_specs = specs, rb_starts = starts, rb_cell = addr, rb_initial = initial\<rparr>,
               \<lparr>vc_value = VBytes initial, vc_version = 0, vc_epoch = 0, vc_stable_bytes = False,
                vc_epoch_independent = True\<rparr>))"

section \<open>Operations\<close>

definition locate :: "register_bank \<Rightarrow> u64 \<Rightarrow> (nat \<times> nat) option" where
  "locate b a =
     (case find (\<lambda>i. let r = rb_specs b ! i in a \<ge> rs_offset r \<and> unat (a - rs_offset r) < reg_bytes r)
        [0..<length (rb_specs b)] of
        None \<Rightarrow> None
      | Some i \<Rightarrow> Some (i, unat (a - rs_offset (rb_specs b ! i))))"

text \<open>
  The status checks of \<open>access\<close>, in the order of the code: the status with which it returns
  early, or the register and the byte offset with which it goes on.
\<close>

definition access_check :: "register_bank \<Rightarrow> payload_snapshot \<Rightarrow> response_status + nat \<times> nat" where
  "access_check b p =
     (if pl_command p = Ignore then Inl Ok
      else if pl_command p \<noteq> Read \<and> pl_command p \<noteq> Write then Inl CommandError
      else if pl_data p = [] \<or> unat (pl_streaming_width p) < length (pl_data p) then Inl BurstError
      else if bad_enable (pl_byte_enable p) then Inl ByteEnableError
      else case locate b (pl_address p) of
        None \<Rightarrow> Inl AddressError
      | Some (idx, offset) \<Rightarrow>
         (let r = rb_specs b ! idx in
          if length (pl_data p) > reg_bytes r - offset then Inl AddressError
          else if length (pl_data p) \<notin> set (rs_allowed_access_bytes r) then Inl BurstError
          else if unat (pl_address p) mod (case rs_alignment_bytes r of Some n \<Rightarrow> n | None \<Rightarrow> length (pl_data p)) \<noteq> 0
          then Inl AddressError
          else Inr (idx, offset)))"

text \<open>The loops of \<open>access\<close> on the result data, the stored bytes and the dirty flag.\<close>

definition access_bit ::
  "register_spec \<Rightarrow> payload_snapshot \<Rightarrow> nat \<Rightarrow> nat \<Rightarrow> nat \<Rightarrow> nat \<Rightarrow> bytes \<times> bytes \<times> bool \<Rightarrow> bytes \<times> bytes \<times> bool" where
  "access_bit r p start offset j k = (\<lambda>(d, b, dirty).
     case field_of r (logical_bit r (offset + j) k) of
       None \<Rightarrow> (d, b, dirty)
     | Some f \<Rightarrow>
        (let at = (start + offset + j) * 8 + k; old = reg_bit b at; incoming = bit (pl_data p ! j) k in
         if pl_command p = Read then
           (let d = (if fs_access f \<noteq> WO \<and> old then d[j := d ! j OR push_bit k 1] else d) in
            if fs_access f = RC then (d, reg_put b at False, True) else (d, b, dirty))
         else (case fs_access f of
             RW \<Rightarrow> (d, reg_put b at incoming, True)
           | WO \<Rightarrow> (d, reg_put b at incoming, True)
           | W1C \<Rightarrow> (d, reg_put b at (old \<and> \<not> incoming), True)
           | W1S \<Rightarrow> (d, reg_put b at (old \<or> incoming), True)
           | _ \<Rightarrow> (d, b, dirty))))"

definition access_byte ::
  "register_spec \<Rightarrow> payload_snapshot \<Rightarrow> nat \<Rightarrow> nat \<Rightarrow> nat \<Rightarrow> bytes \<times> bytes \<times> bool \<Rightarrow> bytes \<times> bytes \<times> bool" where
  "access_byte r p start offset j = (\<lambda>(d, b, dirty).
     if enabled (pl_byte_enable p) j
     then fold (access_bit r p start offset j) [0..<8] (if pl_command p = Read then d[j := 0] else d, b, dirty)
     else (d, b, dirty))"

definition access_loop ::
  "register_spec \<Rightarrow> payload_snapshot \<Rightarrow> nat \<Rightarrow> nat \<Rightarrow> bytes \<Rightarrow> bytes \<times> bytes \<times> bool" where
  "access_loop r p start offset b =
     fold (access_byte r p start offset) [0..<length (pl_data p)] (pl_data p, b, False)"

definition rb_access ::
  "platform \<Rightarrow> 'x world \<Rightarrow> register_bank \<Rightarrow> payload_snapshot \<Rightarrow> event_txn \<Rightarrow>
     memory_transfer_result expected \<times> event_txn" where
  "rb_access pf w b p t =
     (case object_context t False of
        Inl e \<Rightarrow> (Inl e, t)
      | Inr _ \<Rightarrow>
         (case access_check b p of
            Inl status \<Rightarrow> (Inr \<lparr>mt_status = status, mt_data = pl_data p\<rparr>, t)
          | Inr (idx, offset) \<Rightarrow> txn_rmw pf w (rb_cell b) (\<lambda>v.
              case access_loop (rb_specs b ! idx) p (rb_starts b ! idx) offset (get_bytes v) of (d, bytes, dirty) \<Rightarrow>
                Inr (\<lparr>mt_status = Ok, mt_data = d\<rparr>, if dirty then Some (VBytes bytes) else None)) t))"

text \<open>
  One byte of \<open>peek_poke\<close>. The C++ loop walks all fields and remembers whether one holds the
  bit.
\<close>

definition peek_byte :: "register_spec \<Rightarrow> nat \<Rightarrow> nat \<Rightarrow> bytes \<Rightarrow> u8" where
  "peek_byte r off at bytes =
     fold (\<lambda>k d. if (\<exists>f \<in> set (rs_fields r). in_field (logical_bit r off k) f) \<and> reg_bit bytes (at * 8 + k)
        then d OR push_bit k 1 else d) [0..<8] 0"

definition poke_byte :: "register_spec \<Rightarrow> nat \<Rightarrow> nat \<Rightarrow> u8 \<Rightarrow> bytes \<Rightarrow> bytes" where
  "poke_byte r off at x bytes =
     fold (\<lambda>k b. if \<exists>f \<in> set (rs_fields r). in_field (logical_bit r off k) f
        then reg_put b (at * 8 + k) (bit x k) else b) [0..<8] bytes"

fun peek_poke_loop ::
  "register_bank \<Rightarrow> command \<Rightarrow> u64 \<Rightarrow> bytes \<Rightarrow> nat list \<Rightarrow> memory_debug_result \<Rightarrow> bytes \<Rightarrow> memory_debug_result \<times> bytes" where
  "peek_poke_loop b cmd a input [] out bytes = (out, bytes)"
| "peek_poke_loop b cmd a input (i # is) out bytes =
     (case checked_add a (of_nat i) of
        Inl _ \<Rightarrow> (out, bytes)
      | Inr addr \<Rightarrow>
         (case locate b addr of
            None \<Rightarrow> (out, bytes)
          | Some (idx, off) \<Rightarrow>
             (let r = rb_specs b ! idx; at = rb_starts b ! idx + off in
              if cmd = Read
              then peek_poke_loop b cmd a input is
                (out\<lparr>md_data := (md_data out)[i := peek_byte r off at bytes], md_count := md_count out + 1\<rparr>) bytes
              else peek_poke_loop b cmd a input is (out\<lparr>md_count := md_count out + 1\<rparr>)
                (poke_byte r off at (input ! i) bytes))))"

definition rb_peek_poke ::
  "platform \<Rightarrow> 'x world \<Rightarrow> register_bank \<Rightarrow> command \<Rightarrow> u64 \<Rightarrow> bytes \<Rightarrow> nat \<Rightarrow> event_txn \<Rightarrow>
     memory_debug_result expected \<times> event_txn" where
  "rb_peek_poke pf w b cmd a input limit t =
     (case object_context t True of
        Inl e \<Rightarrow> (Inl e, t)
      | Inr _ \<Rightarrow>
         (let out = \<lparr>md_count = 0, md_data = input\<rparr> in
          if cmd \<noteq> Read \<and> cmd \<noteq> Write then (Inr out, t)
          else txn_rmw pf w (rb_cell b) (\<lambda>v.
            case peek_poke_loop b cmd a input [0..<min limit (length input)] out (get_bytes v) of (out, bytes) \<Rightarrow>
              Inr (out, if cmd = Write \<and> md_count out \<noteq> 0 then Some (VBytes bytes) else None)) t))"

definition find_field :: "register_bank \<Rightarrow> field_id \<Rightarrow> (nat \<times> field_spec) option" where
  "find_field b fid = find (\<lambda>(i, f). fs_id f = fid) (all_fields (rb_specs b))"

definition field_value :: "register_bank \<Rightarrow> nat \<times> field_spec \<Rightarrow> bytes \<Rightarrow> bytes" where
  "field_value b = (\<lambda>(i, f) bytes.
     reg_puts (map (\<lambda>k. (k, reg_bit bytes (field_pos (rb_specs b) (rb_starts b) i f k))) [0..<fs_width f])
       (replicate (field_bytes f) 0))"

definition rb_read_field :: "'x world \<Rightarrow> register_bank \<Rightarrow> field_id \<Rightarrow> event_txn \<Rightarrow> bytes expected" where
  "rb_read_field w b fid t =
     (case object_context t False of
        Inl e \<Rightarrow> Inl e
      | Inr _ \<Rightarrow>
         (case et_read w t (rb_cell b) of
            Inl e \<Rightarrow> Inl e
          | Inr v \<Rightarrow>
             (case find_field b fid of
                None \<Rightarrow> fail InvalidArgument ''unknown field''
              | Some p \<Rightarrow> Inr (field_value b p (get_bytes v)))))"

definition rb_stage_field_update ::
  "platform \<Rightarrow> 'x world \<Rightarrow> register_bank \<Rightarrow> field_id \<Rightarrow> bytes \<Rightarrow> event_txn \<Rightarrow> unit expected \<times> event_txn" where
  "rb_stage_field_update pf w b fid input t =
     (case object_context t False of
        Inl e \<Rightarrow> (Inl e, t)
      | Inr _ \<Rightarrow> txn_rmw pf w (rb_cell b) (\<lambda>v.
          case find_field b fid of
            None \<Rightarrow> fail InvalidArgument ''unknown field''
          | Some p \<Rightarrow>
             (if bad_field_value (snd p) input then fail TypeMismatch ''field value width''
              else Inr ((), Some (VBytes
                (reg_puts (field_puts (rb_specs b) (rb_starts b) input p) (get_bytes v)))))) t)"

definition rb_reset :: "platform \<Rightarrow> 'x world \<Rightarrow> register_bank \<Rightarrow> event_txn \<Rightarrow> unit expected \<times> event_txn" where
  "rb_reset pf w b t =
     (case object_context t False of
        Inl e \<Rightarrow> (Inl e, t)
      | Inr _ \<Rightarrow> et_buffer pf w (rb_cell b) (VBytes (rb_initial b)) t)"

definition rb_snapshot :: "'x world \<Rightarrow> register_bank \<Rightarrow> event_txn \<Rightarrow> value_t expected" where
  "rb_snapshot w b t =
     (case object_context t (ec_kind (et_context t) = CK_Debug) of
        Inl e \<Rightarrow> Inl e
      | Inr _ \<Rightarrow> et_read w t (rb_cell b))"

section \<open>Bit lemmas\<close>

lemma reg_bit_eq: "reg_bit b i \<longleftrightarrow> bit (b ! (i div 8)) (i mod 8)"
  by (simp add: reg_bit_def bit_iff_odd_drop_bit and_one_eq odd_iff_mod_2_eq_one)

lemma byte_bit_index: "n < 8 \<Longrightarrow> i = c * 8 + n \<longleftrightarrow> i div 8 = c \<and> i mod 8 = (n :: nat)"
  by auto

lemma length_reg_put [simp]: "length (reg_put b i v) = length b"
  by (simp add: reg_put_def Let_def)

lemma reg_bit_put:
  "reg_bit (reg_put b i v) j = (if i = j \<and> i div 8 < length b then v else reg_bit b j)"
proof (cases "i div 8 < length b")
  case True
  have ij: "i = j \<longleftrightarrow> i div 8 = j div 8 \<and> i mod 8 = j mod 8" by (metis div_mult_mod_eq)
  have m: "i mod 8 < 8" "j mod 8 < 8" by simp_all
  show ?thesis
  proof (cases "i div 8 = j div 8")
    case eq: True
    with True m show ?thesis unfolding reg_bit_eq ij
      by (auto simp: reg_put_def Let_def bit_simps nth_list_update)
  next
    case False
    with True show ?thesis unfolding reg_bit_eq ij by (simp add: reg_put_def Let_def nth_list_update)
  qed
next
  case False
  then show ?thesis by (simp add: reg_put_def Let_def list_update_beyond)
qed

lemma length_reg_puts [simp]: "length (reg_puts ps b) = length b"
  unfolding reg_puts_def by (induction ps arbitrary: b) (simp_all add: case_prod_beta)

lemma reg_bit_puts:
  assumes "distinct (map fst ps)" and "\<forall>p \<in> set ps. fst p div 8 < length b"
  shows "reg_bit (reg_puts ps b) j = (case map_of ps j of Some v \<Rightarrow> v | None \<Rightarrow> reg_bit b j)"
  using assms
proof (induction ps arbitrary: b)
  case (Cons p ps)
  obtain i v where p: "p = (i, v)" by (cases p)
  have "map_of ps i = None" using Cons.prems(1) by (simp add: p map_of_eq_None_iff)
  moreover have "reg_bit (reg_puts (p # ps) b) j =
      (case map_of ps j of Some v \<Rightarrow> v | None \<Rightarrow> reg_bit (reg_put b i v) j)"
    using Cons.IH [of "reg_put b i v"] Cons.prems by (simp add: p reg_puts_def)
  ultimately show ?case using Cons.prems(2) by (cases "j = i") (simp_all add: p reg_bit_put split: option.splits)
qed (simp add: reg_puts_def)

section \<open>The layout\<close>

definition field_ok :: "nat \<Rightarrow> field_spec \<Rightarrow> bool" where
  "field_ok width f \<longleftrightarrow> 0 < fs_width f \<and> fs_lsb f + fs_width f \<le> width \<and> \<not> bad_field_value f (fs_reset f)"

definition register_ok :: "register_spec \<Rightarrow> bool" where
  "register_ok r \<longleftrightarrow> 0 < reg_bytes r \<and> rs_width_bits r = reg_bytes r * 8 \<and>
     unat (rs_offset r) + reg_bytes r \<le> 2 ^ 64 \<and>
     (\<forall>n \<in> set (rs_allowed_access_bytes r). 0 < n \<and> n \<le> reg_bytes r) \<and> rs_alignment_bytes r \<noteq> Some 0 \<and>
     (\<forall>f \<in> set (rs_fields r). field_ok (rs_width_bits r) f) \<and> distinct (concat (map field_range (rs_fields r)))"

definition registers_disjoint :: "register_spec \<Rightarrow> register_spec \<Rightarrow> bool" where
  "registers_disjoint v r \<longleftrightarrow> unat (rs_offset v) + reg_bytes v \<le> unat (rs_offset r) \<or>
     unat (rs_offset r) + reg_bytes r \<le> unat (rs_offset v)"

definition layout_ok :: "register_spec list \<Rightarrow> nat list \<Rightarrow> nat \<Rightarrow> bool" where
  "layout_ok specs starts tot \<longleftrightarrow>
     (\<forall>r \<in> set specs. register_ok r) \<and> sorted_wrt registers_disjoint specs \<and>
     distinct (map fs_id (concat (map rs_fields specs))) \<and>
     starts = map (\<lambda>i. sum_list (map reg_bytes (take i specs))) [0..<length specs] \<and>
     tot = sum_list (map reg_bytes specs)"

definition bank_wf :: "register_bank \<Rightarrow> bool" where
  "bank_wf b \<longleftrightarrow> layout_ok (rb_specs b) (rb_starts b) (length (rb_initial b))"

lemma mark_used:
  "j < length u \<Longrightarrow> fold (\<lambda>k u. u[k := True]) ks u ! j \<longleftrightarrow> j \<in> set ks \<or> u ! j"
  "length (fold (\<lambda>k u. u[k := True]) ks u) = length u"
  by (induction ks arbitrary: u) (auto simp: nth_update_total)

lemma make_fields_ok:
  assumes "make_fields width fs ids used = Inr (ids', fs')" and "length used = width" and "distinct ids"
  shows "ids' = rev (map fs_id fs') @ ids \<and> distinct ids' \<and> (\<forall>f \<in> set fs'. field_ok width f) \<and>
    distinct (concat (map field_range fs')) \<and> (\<forall>k \<in> set (concat (map field_range fs')). \<not> used ! k)"
  using assms
proof (induction width fs ids used arbitrary: ids' fs' rule: make_fields.induct)
  case (2 width f fs ids used)
  define g where "g = (if fs_reset f = [] then f\<lparr>fs_reset := replicate (field_bytes f) 0\<rparr> else f)"
  have same: "fs_width g = fs_width f" "fs_lsb g = fs_lsb f" "fs_id g = fs_id f" by (simp_all add: g_def)
  let ?u = "fold (\<lambda>k u. u[k := True]) (field_range g) used"
  from "2.prems"(1) obtain fs'' where c: "fs_width f \<noteq> 0" "fs_lsb f \<le> width" "fs_width f \<le> width - fs_lsb f"
      "fs_id g \<notin> set ids" "\<not> bad_field_value g (fs_reset g)" "\<forall>k \<in> set (field_range g). \<not> used ! k"
    and rec: "make_fields width fs (fs_id g # ids) ?u = Inr (ids', fs'')" and fs': "fs' = g # fs''"
    by (auto simp: g_def [symmetric] Let_def fail_def same split: if_splits sum.splits)
  note IH = "2.IH" [OF _ g_def, folded g_def, OF _ _ _ rec]
  have range: "\<forall>k \<in> set (field_range g). k < length used"
    using c(2,3) "2.prems"(2) by (auto simp: field_range_def same)
  have ih: "ids' = rev (map fs_id fs'') @ (fs_id g # ids) \<and> distinct ids' \<and> (\<forall>f \<in> set fs''. field_ok width f) \<and>
    distinct (concat (map field_range fs'')) \<and> (\<forall>k \<in> set (concat (map field_range fs'')). \<not> ?u ! k)"
    by (rule IH) (use c "2.prems"(2,3) same in \<open>auto simp: mark_used(2)\<close>)
  have inr: "k < length used" if "k \<in> set (concat (map field_range fs''))" for k
    using that ih "2.prems"(2) by (auto simp: field_ok_def field_range_def)
  have "distinct (field_range g)" by (simp add: field_range_def)
  moreover have "distinct ids'" using ih by blast
  moreover have "ids' = rev (map fs_id fs') @ ids" using ih by (simp add: fs')
  moreover have "field_ok width g" using c(1-3,5) by (simp add: field_ok_def same)
  moreover have "\<forall>k \<in> set (concat (map field_range fs'')). k \<notin> set (field_range g) \<and> \<not> used ! k"
    using ih inr mark_used(1) [of _ used "field_range g"] by blast
  ultimately show ?case using ih c(6) unfolding fs' by fastforce
qed auto

text \<open>The last address of a register, as the code computes it.\<close>

lemma unat_lt64: "unat (a :: u64) < 2 ^ 64"
  using unsigned_less [of a] by simp

lemma register_end:
  assumes "0 < n" and "unat a + n \<le> 2 ^ 64"
  shows "unat (a + of_nat n - 1 :: u64) = unat a + n - 1"
proof -
  have "unat (of_nat k :: u64) = k" if "k < 2 ^ 64" for k using that by (simp add: unat_of_nat)
  from this [of "n - 1"] have "unat (of_nat (n - 1) :: u64) = n - 1" using assms by linarith
  then have "unat (a + of_nat (n - 1)) = unat a + (n - 1)"
    using assms by (subst unat_add_no_overflow) simp_all
  moreover have "a + of_nat (n - 1) = a + of_nat n - 1" using assms(1) by (simp add: of_nat_diff)
  ultimately have "unat (a + of_nat n - 1) = unat a + (n - 1)" by (simp only:)
  with assms(1) show ?thesis by linarith
qed

lemma make_register_ok:
  assumes "make_register limit prev ids r = Inr (ids', r')" and "distinct ids" and "\<forall>v \<in> set prev. register_ok v"
    and "limit \<le> SIZE_MAX"
  shows "register_ok r' \<and> (\<forall>v \<in> set prev. registers_disjoint v r') \<and> distinct ids' \<and>
    ids' = rev (map fs_id (rs_fields r')) @ ids"
proof -
  from assms(1) obtain hi fs where c: "rs_width_bits r \<noteq> 0" "rs_width_bits r mod 8 = 0"
      "rs_alignment_bytes r \<noteq> Some 0"
      "checked_add (rs_offset r) (of_nat (reg_bytes r - 1)) = Inr hi"
      "\<forall>v \<in> set prev. \<not> (rs_offset r \<le> rs_offset v + of_nat (reg_bytes v) - 1 \<and> rs_offset v \<le> hi)"
      "\<forall>n \<in> set (rs_allowed_access_bytes r). 0 < n \<and> n \<le> reg_bytes r"
    and mk: "make_fields (rs_width_bits r) (rs_fields r) ids (replicate (rs_width_bits r) False) = Inr (ids', fs)"
    and r': "r' = r\<lparr>rs_fields := fs\<rparr>"
    by (auto simp: make_register_def fail_def not_less split: if_splits sum.splits)
  have lim: "rs_width_bits r \<le> limit" using assms(1) by (auto simp: make_register_def fail_def split: if_splits)
  have mf: "ids' = rev (map fs_id fs) @ ids \<and> distinct ids' \<and> (\<forall>f \<in> set fs. field_ok (rs_width_bits r) f) \<and>
    distinct (concat (map field_range fs))"
    using make_fields_ok [OF mk length_replicate assms(2)] by blast
  have w: "rs_width_bits r = reg_bytes r * 8" using c(2) by (auto simp: reg_bytes_def)
  with c(1) have pos: "0 < reg_bytes r" by (cases "reg_bytes r") auto
  have rb: "reg_bytes r' = reg_bytes r" by (simp add: r' reg_bytes_def)
  have "unat (of_nat (reg_bytes r - 1) :: u64) = reg_bytes r - 1"
    using lim assms(4) w by (simp add: unat_of_nat)
  then have hi: "unat hi = unat (rs_offset r) + (reg_bytes r - 1)" using checked_add_InrD [OF c(4)] by simp
  have fits: "unat (rs_offset r) + reg_bytes r \<le> 2 ^ 64"
    using hi pos unat_lt64 [of hi] by simp
  have "registers_disjoint v r'" if v: "v \<in> set prev" for v
  proof -
    have "0 < reg_bytes v" "unat (rs_offset v) + reg_bytes v \<le> 2 ^ 64"
      using assms(3) v by (simp_all add: register_ok_def)
    note e = register_end [OF this]
    have "unat (rs_offset v) + reg_bytes v - 1 < unat (rs_offset r) \<or> unat hi < unat (rs_offset v)"
      using c(5) v e by (auto simp: word_le_nat_alt not_le)
    with hi pos \<open>0 < reg_bytes v\<close> show ?thesis by (auto simp: registers_disjoint_def rb) (auto simp: r')
  qed
  moreover have "register_ok r'"
    using mf w pos fits c(3,6) unfolding register_ok_def rb by (simp add: r')
  moreover have "ids' = rev (map fs_id (rs_fields r')) @ ids" using mf by (simp add: r')
  moreover have "distinct ids'" using mf by blast
  ultimately show ?thesis by blast
qed

lemma make_registers_ok:
  assumes "make_registers limit rs prev ids starts tot = Inr (specs', starts', tot')"
    and "layout_ok prev starts tot" and "ids = rev (map fs_id (concat (map rs_fields prev)))" and "limit \<le> SIZE_MAX"
  shows "layout_ok specs' starts' tot' \<and> (\<exists>l. specs' = prev @ l \<and> length l = length rs)"
  using assms
proof (induction limit rs prev ids starts tot rule: make_registers.induct)
  case (2 limit r rs prev ids starts tot)
  from "2.prems"(1) obtain ids' r' where mk: "make_register limit prev ids r = Inr (ids', r')"
    and rec: "make_registers limit rs (prev @ [r']) ids' (starts @ [tot]) (tot + reg_bytes r') = Inr (specs', starts', tot')"
    by (auto split: sum.splits)
  have "distinct ids" using "2.prems"(2,3) by (simp add: layout_ok_def)
  note ok = make_register_ok [OF mk this _ "2.prems"(4)]
  have ok': "register_ok r' \<and> (\<forall>v \<in> set prev. registers_disjoint v r') \<and> distinct ids' \<and>
      ids' = rev (map fs_id (rs_fields r')) @ ids"
    using ok "2.prems"(2) unfolding layout_ok_def by blast
  have ids': "ids' = rev (map fs_id (concat (map rs_fields (prev @ [r']))))" using ok' "2.prems"(3) by simp
  have "distinct (map fs_id (concat (map rs_fields (prev @ [r']))))"
    using ok' unfolding ids' distinct_rev by blast
  then have "layout_ok (prev @ [r']) (starts @ [tot]) (tot + reg_bytes r')"
    using ok' "2.prems"(2) by (simp add: layout_ok_def sorted_wrt_append)
  from "2.IH" [OF mk refl rec this ids' "2.prems"(4)] show ?case by auto
qed simp

lemma length_initial_bytes [simp]: "length (initial_bytes specs starts tot) = tot"
proof -
  have "length (fold (\<lambda>p. reg_puts (f p)) ps b) = length b" for f :: "nat \<times> field_spec \<Rightarrow> (nat \<times> bool) list" and ps b
    by (induction ps arbitrary: b) simp_all
  then show ?thesis by (simp add: initial_bytes_def)
qed

lemma rb_make_wf:
  assumes "rb_make addr s limit = Inr (b, c)" and "limit \<le> SIZE_MAX"
  shows "bank_wf b" "length (rb_specs b) = length s" "vc_value c = VBytes (rb_initial b)"
    "rb_initial b = initial_bytes (rb_specs b) (rb_starts b) (length (rb_initial b))"
proof -
  from assms(1) obtain specs starts tot where mk: "make_registers limit s [] [] [] 0 = Inr (specs, starts, tot)"
    and b: "rb_specs b = specs" "rb_starts b = starts" "rb_initial b = initial_bytes specs starts tot"
      "vc_value c = VBytes (rb_initial b)"
    by (auto simp: rb_make_def Let_def split: sum.splits)
  have "layout_ok specs starts tot \<and> length specs = length s"
    using make_registers_ok [OF mk _ _ assms(2)] by (auto simp: layout_ok_def)
  then show "bank_wf b" "length (rb_specs b) = length s" "vc_value c = VBytes (rb_initial b)"
    "rb_initial b = initial_bytes (rb_specs b) (rb_starts b) (length (rb_initial b))"
    using b by (simp_all add: bank_wf_def)
qed

section \<open>Where the fields are stored\<close>

lemma starts_mono:
  assumes "layout_ok specs starts tot" and "i < length specs"
  shows "starts ! i + reg_bytes (specs ! i) \<le> tot"
    and "i < j \<Longrightarrow> j < length specs \<Longrightarrow> starts ! i + reg_bytes (specs ! i) \<le> starts ! j"
proof -
  have upto: "sum_list (map reg_bytes (take i specs)) + reg_bytes (specs ! i) = sum_list (map reg_bytes (take (Suc i) specs))"
    using assms(2) by (simp add: take_Suc_conv_app_nth)
  have split: "take n specs = take m specs @ drop m (take n specs)" if "m \<le> n" for m n
    using that append_take_drop_id [of m "take n specs"] by (simp add: min_def)
  have mono: "sum_list (map reg_bytes (take m specs)) \<le> sum_list (map reg_bytes (take n specs))" if "m \<le> n" for m n
    using arg_cong [OF split [OF that], of "\<lambda>l. sum_list (map reg_bytes l)"] by simp
  show "starts ! i + reg_bytes (specs ! i) \<le> tot"
    using assms upto mono [of "Suc i" "length specs"] by (simp add: layout_ok_def)
  show "starts ! i + reg_bytes (specs ! i) \<le> starts ! j" if "i < j" "j < length specs"
    using assms upto mono [of "Suc i" j] that by (simp add: layout_ok_def)
qed

text \<open>Two registers never share a stored byte.\<close>

lemma storage_inj:
  assumes "layout_ok specs starts tot" and "i < length specs" and "j < length specs"
    and "x < reg_bytes (specs ! i)" and "y < reg_bytes (specs ! j)" and "starts ! i + x = starts ! j + y"
  shows "i = j \<and> x = y"
proof (cases i j rule: linorder_cases)
  case less
  with starts_mono(2) [OF assms(1,2) less assms(3)] assms(4,6) show ?thesis by simp
next
  case greater
  with starts_mono(2) [OF assms(1,3) greater assms(2)] assms(5,6) show ?thesis by simp
qed (use assms in simp)

lemma physical_div: "physical r n div 8 = (if rs_endian r = Little then n div 8 else reg_bytes r - 1 - n div 8)"
  and physical_mod: "physical r n mod 8 = n mod 8"
  by (simp_all add: physical_def)

lemma physical_bound: "n < reg_bytes r * 8 \<Longrightarrow> physical r n div 8 < reg_bytes r"
  by (auto simp: physical_div less_mult_imp_div_less)

lemma physical_inj:
  assumes "m < reg_bytes r * 8" and "n < reg_bytes r * 8" and "physical r m = physical r n"
  shows "m = n"
proof -
  have "m div 8 < reg_bytes r" "n div 8 < reg_bytes r" using assms(1,2) by (auto simp: less_mult_imp_div_less)
  moreover have "physical r m div 8 = physical r n div 8" "m mod 8 = n mod 8"
    using assms(3) physical_mod by metis+
  ultimately have "m div 8 = n div 8" unfolding physical_div by (cases "rs_endian r = Little") (simp, simp, linarith)
  with \<open>m mod 8 = n mod 8\<close> show ?thesis by (metis div_mult_mod_eq)
qed

lemma all_fields_iff: "(i, f) \<in> set (all_fields specs) \<longleftrightarrow> i < length specs \<and> f \<in> set (rs_fields (specs ! i))"
  by (auto simp: all_fields_def)

lemma all_fields_ids: "map (\<lambda>p. fs_id (snd p)) (all_fields specs) = map fs_id (concat (map rs_fields specs))"
proof -
  have "map snd (all_fields specs) = concat (map (\<lambda>i. rs_fields (specs ! i)) [0..<length specs])"
    by (simp add: all_fields_def map_concat comp_def)
  also have "map (\<lambda>i. rs_fields (specs ! i)) [0..<length specs] = map rs_fields specs"
    by (rule nth_equalityI) simp_all
  finally have "map snd (all_fields specs) = concat (map rs_fields specs)" .
  then have "map fs_id (map snd (all_fields specs)) = map fs_id (concat (map rs_fields specs))" by (simp only:)
  then show ?thesis by (simp only: list.map_comp comp_def)
qed

lemma distinct_concat_common:
  "distinct (concat (map h xs)) \<Longrightarrow> x \<in> set xs \<Longrightarrow> y \<in> set xs \<Longrightarrow> k \<in> set (h x) \<Longrightarrow> k \<in> set (h y) \<Longrightarrow> x = y"
  by (induction xs) auto

text \<open>A stored bit belongs to at most one bit of one field.\<close>

lemma field_pos_inj:
  assumes "layout_ok specs starts tot" and "(i, f) \<in> set (all_fields specs)" and "(j, g) \<in> set (all_fields specs)"
    and "k < fs_width f" and "l < fs_width g" and "field_pos specs starts i f k = field_pos specs starts j g l"
  shows "i = j \<and> f = g \<and> k = l"
proof -
  let ?r = "specs ! i" and ?q = "specs ! j" and ?m = "fs_lsb f + k" and ?n = "fs_lsb g + l"
  have f: "i < length specs" "f \<in> set (rs_fields ?r)" and g: "j < length specs" "g \<in> set (rs_fields ?q)"
    using assms(2,3) by (simp_all add: all_fields_iff)
  have ok: "register_ok ?r" "register_ok ?q" using assms(1) f(1) g(1) by (simp_all add: layout_ok_def)
  have b: "?m < reg_bytes ?r * 8" "?n < reg_bytes ?q * 8"
    using ok f(2) g(2) assms(4,5) by (fastforce simp: register_ok_def field_ok_def)+
  have eq: "starts ! i * 8 + physical ?r ?m = starts ! j * 8 + physical ?q ?n"
    using assms(6) by (simp add: field_pos_def)
  have "(starts ! i * 8 + physical ?r ?m) div 8 = starts ! i + physical ?r ?m div 8"
    "(starts ! j * 8 + physical ?q ?n) div 8 = starts ! j + physical ?q ?n div 8" by simp_all
  then have "starts ! i + physical ?r ?m div 8 = starts ! j + physical ?q ?n div 8" using eq by metis
  then have ij: "i = j" using storage_inj [OF assms(1) f(1) g(1) physical_bound physical_bound] b by blast
  with eq b have mn: "?m = ?n" using physical_inj [of ?m ?r ?n] by simp
  have "?m \<in> set (field_range f)" "?m \<in> set (field_range g)"
    using assms(4,5) mn by (auto simp: field_range_def)
  then have "f = g" using distinct_concat_common [of field_range "rs_fields ?r" f g] ok(1) f(2) g(2) ij
    by (auto simp: register_ok_def)
  with ij mn show ?thesis by simp
qed

lemma field_pos_bound:
  assumes "layout_ok specs starts tot" and "(i, f) \<in> set (all_fields specs)" and "k < fs_width f"
  shows "field_pos specs starts i f k div 8 < tot"
proof -
  have f: "i < length specs" "f \<in> set (rs_fields (specs ! i))" using assms(2) by (simp_all add: all_fields_iff)
  then have "register_ok (specs ! i)" using assms(1) by (simp add: layout_ok_def)
  then have "fs_lsb f + k < reg_bytes (specs ! i) * 8"
    using f(2) assms(3) by (fastforce simp: register_ok_def field_ok_def)
  from physical_bound [OF this] starts_mono(1) [OF assms(1) f(1)] show ?thesis by (simp add: field_pos_def)
qed

section \<open>Field values\<close>

lemma bytes_eqI:
  assumes "length a = length b" and "\<And>i. i < length a * 8 \<Longrightarrow> reg_bit a i = reg_bit b i"
  shows "a = b"
proof (rule nth_equalityI [OF assms(1)])
  fix n assume n: "n < length a"
  show "a ! n = b ! n"
  proof (rule bit_word_eqI)
    fix k :: nat assume "k < LENGTH(8)"
    then have "reg_bit a (n * 8 + k) = reg_bit b (n * 8 + k)" using n assms(2) by simp
    then show "bit (a ! n) k = bit (b ! n) k" using \<open>k < LENGTH(8)\<close> by (simp add: reg_bit_eq)
  qed
qed

lemma field_value_high:
  assumes "\<not> bad_field_value f v" and "fs_width f \<le> k" and "k < length v * 8"
  shows "\<not> reg_bit v k"
proof -
  let ?w = "fs_width f"
  have len: "length v = (?w + 7) div 8" using assms(1) by (simp add: bad_field_value_def field_bytes_def)
  have up: "(?w + 7) div 8 = (if ?w mod 8 = 0 then ?w div 8 else ?w div 8 + 1)" by presburger
  have m: "?w mod 8 \<noteq> 0"
  proof
    assume z: "?w mod 8 = 0"
    then have "length v * 8 = ?w" using len up by (auto simp: minus_mod_eq_div_mult [symmetric])
    with assms(2,3) show False by simp
  qed
  then have z: "drop_bit (?w mod 8) (last v) = 0" using assms(1) by (simp add: bad_field_value_def)
  have "k div 8 < ?w div 8 + 1" using assms(3) len up m by (simp add: less_mult_imp_div_less)
  moreover have "?w div 8 \<le> k div 8" by (rule div_le_mono [OF assms(2)])
  ultimately have kd: "k div 8 = ?w div 8" by simp
  then have k: "k div 8 = length v - 1" using len up m by simp
  have "?w mod 8 \<le> k mod 8"
    using kd assms(2) div_mult_mod_eq [of k 8] div_mult_mod_eq [of ?w 8] by linarith
  note k = k this
  have "v \<noteq> []" using assms(3) by auto
  then have "v ! (k div 8) = last v" using k(1) by (simp add: last_conv_nth)
  moreover have "bit (last v) (k mod 8) = bit (drop_bit (?w mod 8) (last v)) (k mod 8 - ?w mod 8)"
    using k(2) by (simp add: bit_drop_bit_eq)
  ultimately show ?thesis using z by (simp add: reg_bit_eq)
qed

lemma length_field_value [simp]: "length (field_value b p bytes) = field_bytes (snd p)"
  by (simp add: field_value_def case_prod_beta)

lemma field_value_bit:
  assumes "n < field_bytes f * 8"
  shows "reg_bit (field_value b (i, f) bytes) n \<longleftrightarrow>
    n < fs_width f \<and> reg_bit bytes (field_pos (rb_specs b) (rb_starts b) i f n)"
proof -
  let ?g = "\<lambda>k. reg_bit bytes (field_pos (rb_specs b) (rb_starts b) i f k)"
  let ?ps = "map (\<lambda>k. (k, ?g k)) [0..<fs_width f]"
  have "map_of ?ps n = (if n < fs_width f then Some (?g n) else None)"
    by (auto simp: map_of_map_restrict restrict_map_def)
  moreover have "\<not> reg_bit (replicate (field_bytes f) 0) n"
    using assms by (simp add: reg_bit_eq less_mult_imp_div_less)
  moreover have "distinct (map fst ?ps)" "\<forall>p \<in> set ?ps. fst p div 8 < field_bytes f"
    by (auto simp: comp_def field_bytes_def)
  ultimately show ?thesis using reg_bit_puts [of ?ps "replicate (field_bytes f) 0" n]
    by (simp add: field_value_def)
qed

lemma field_value_eqI:
  assumes "\<not> bad_field_value f v"
    and "\<And>k. k < fs_width f \<Longrightarrow> reg_bit bytes (field_pos (rb_specs b) (rb_starts b) i f k) = reg_bit v k"
  shows "field_value b (i, f) bytes = v"
proof (rule bytes_eqI)
  show len: "length (field_value b (i, f) bytes) = length v" using assms(1) by (simp add: bad_field_value_def)
  fix n assume "n < length (field_value b (i, f) bytes) * 8"
  then show "reg_bit (field_value b (i, f) bytes) n = reg_bit v n"
    using assms(2) field_value_high [OF assms(1), of n] len by (cases "n < fs_width f") (auto simp: field_value_bit not_less)
qed

text \<open>Writing a field: its own bits take the value, every other stored bit stays.\<close>

lemma field_puts_bit:
  assumes "layout_ok specs starts (length bytes)" and "(i, f) \<in> set (all_fields specs)"
  shows "reg_bit (reg_puts (field_puts specs starts v (i, f)) bytes) n =
    (if \<exists>k < fs_width f. n = field_pos specs starts i f k
     then \<exists>k < fs_width f. n = field_pos specs starts i f k \<and> reg_bit v k else reg_bit bytes n)"
proof -
  let ?pos = "field_pos specs starts i f" and ?ps = "field_puts specs starts v (i, f)"
  have inj: "k = l" if "k < fs_width f" "l < fs_width f" "?pos k = ?pos l" for k l
    using field_pos_inj [OF assms(1,2,2) that] by blast
  have fst: "map fst ?ps = map ?pos [0..<fs_width f]" by (simp add: field_puts_def comp_def)
  then have d: "distinct (map fst ?ps)" using inj by (simp add: distinct_map inj_on_def)
  have bound: "\<forall>p \<in> set ?ps. fst p div 8 < length bytes"
    using field_pos_bound [OF assms] by (auto simp: field_puts_def)
  show ?thesis
  proof (cases "\<exists>k < fs_width f. n = ?pos k")
    case True
    then obtain k where k: "k < fs_width f" "n = ?pos k" by blast
    then have "(n, reg_bit v k) \<in> set ?ps" by (auto simp: field_puts_def)
    with d have "map_of ?ps n = Some (reg_bit v k)" by simp
    moreover have "(\<exists>l < fs_width f. n = ?pos l \<and> reg_bit v l) \<longleftrightarrow> reg_bit v k" using k inj by blast
    ultimately show ?thesis using reg_bit_puts [OF d bound, of n] True by simp
  next
    case False
    then have "n \<notin> set (map fst ?ps)" by (auto simp: fst)
    then have "map_of ?ps n = None" by (simp add: map_of_eq_None_iff)
    then have "reg_bit (reg_puts ?ps bytes) n = reg_bit bytes n" using reg_bit_puts [OF d bound, of n] by simp
    with False show ?thesis by (simp only: if_False)
  qed
qed

lemma field_puts_read:
  assumes "layout_ok (rb_specs b) (rb_starts b) (length bytes)"
    and "(i, f) \<in> set (all_fields (rb_specs b))" and "(j, g) \<in> set (all_fields (rb_specs b))"
    and "\<not> bad_field_value f v"
  shows "field_value b (j, g) (reg_puts (field_puts (rb_specs b) (rb_starts b) v (i, f)) bytes) =
    (if (j, g) = (i, f) then v else field_value b (j, g) bytes)"
proof (cases "(j, g) = (i, f)")
  case True
  have "field_value b (i, f) (reg_puts (field_puts (rb_specs b) (rb_starts b) v (i, f)) bytes) = v"
    using assms(4)
  proof (rule field_value_eqI)
    fix k assume k: "k < fs_width f"
    show "reg_bit (reg_puts (field_puts (rb_specs b) (rb_starts b) v (i, f)) bytes)
        (field_pos (rb_specs b) (rb_starts b) i f k) = reg_bit v k"
      using k field_pos_inj [OF assms(1,2,2) k] by (auto simp: field_puts_bit [OF assms(1,2)])
  qed
  with True show ?thesis by simp
next
  case False
  have "reg_bit (reg_puts (field_puts (rb_specs b) (rb_starts b) v (i, f)) bytes)
      (field_pos (rb_specs b) (rb_starts b) j g k) = reg_bit bytes (field_pos (rb_specs b) (rb_starts b) j g k)"
    if "k < fs_width g" for k
    using False field_pos_inj [OF assms(1,3,2) that] by (auto simp: field_puts_bit [OF assms(1,2)])
  with False show ?thesis by (intro bytes_eqI) (auto simp: field_value_bit)
qed

lemma find_field_Some: "find_field b fid = Some (i, f) \<Longrightarrow> (i, f) \<in> set (all_fields (rb_specs b)) \<and> fs_id f = fid"
  by (auto simp: find_field_def find_Some_iff) (metis nth_mem)

text \<open>After \<open>make\<close>, every field holds its reset value.\<close>

lemma reg_puts_append: "reg_puts (xs @ ys) b = reg_puts ys (reg_puts xs b)"
  by (simp add: reg_puts_def)

lemma initial_fields:
  assumes "layout_ok specs starts tot"
  shows "set ps \<subseteq> set (all_fields specs) \<Longrightarrow> distinct ps \<Longrightarrow> length bytes = tot \<Longrightarrow> (i, f) \<in> set ps \<Longrightarrow> k < fs_width f \<Longrightarrow>
    reg_bit (fold (\<lambda>p. reg_puts (field_puts specs starts (fs_reset (snd p)) p)) ps bytes) (field_pos specs starts i f k) =
    reg_bit (fs_reset f) k"
proof (induction ps rule: rev_induct)
  case (snoc q ps)
  obtain j g where q: "q = (j, g)" by (cases q)
  have qin: "(j, g) \<in> set (all_fields specs)" and fin: "(i, f) \<in> set (all_fields specs)" using snoc.prems(1,4) q by auto
  let ?b = "fold (\<lambda>p. reg_puts (field_puts specs starts (fs_reset (snd p)) p)) ps bytes"
  have "length ?b = tot"
    using snoc.prems(3) by (induction ps arbitrary: bytes) simp_all
  then have lay: "layout_ok specs starts (length ?b)" using assms by simp
  have inj: "(i, f) = (j, g) \<and> k = l" if "l < fs_width g" "field_pos specs starts i f k = field_pos specs starts j g l" for l
    using field_pos_inj [OF assms fin qin snoc.prems(5) that] by simp
  show ?case
  proof (cases "(i, f) = (j, g)")
    case True
    then show ?thesis using snoc.prems(5) inj by (auto simp: q field_puts_bit [OF lay qin])
  next
    case False
    then have "(i, f) \<in> set ps" using snoc.prems(4) q by auto
    then show ?thesis using snoc.IH snoc.prems inj False by (auto simp: q field_puts_bit [OF lay qin])
  qed
qed simp

section \<open>Bus access\<close>

text \<open>
  What an access means for one stored bit, as the access kinds prescribe it: what a read
  shows and what is stored afterwards. Bits outside every field read as zero and ignore
  writes.
\<close>

definition seen_bit :: "field_spec option \<Rightarrow> bool \<Rightarrow> bool" where
  "seen_bit f old = (case f of None \<Rightarrow> False | Some f \<Rightarrow> fs_access f \<noteq> WO \<and> old)"

definition next_bit :: "field_spec option \<Rightarrow> command \<Rightarrow> bool \<Rightarrow> bool \<Rightarrow> bool" where
  "next_bit f cmd old new =
     (case f of
        None \<Rightarrow> old
      | Some f \<Rightarrow>
         (if cmd = Read then fs_access f \<noteq> RC \<and> old
          else case fs_access f of RO \<Rightarrow> old | RC \<Rightarrow> old | RW \<Rightarrow> new | WO \<Rightarrow> new
             | W1C \<Rightarrow> old \<and> \<not> new | W1S \<Rightarrow> old \<or> new))"

definition bit_field :: "register_spec \<Rightarrow> nat \<Rightarrow> nat \<Rightarrow> field_spec option" where
  "bit_field r n k = field_of r (logical_bit r n k)"

lemma access_bit_step:
  assumes "access_bit r p start off j k (d, b, x) = (d', b', x')" and "k < 8"
  defines "f \<equiv> bit_field r (off + j) k" and "at \<equiv> (start + off + j) * 8 + k"
  shows "length d' = length d" "length b' = length b" "\<not> x' \<Longrightarrow> \<not> x \<and> b' = b"
    "reg_bit b' i = (if i = at \<and> start + off + j < length b
       then next_bit f (pl_command p) (reg_bit b i) (bit (pl_data p ! j) k) else reg_bit b i)"
    "d' = (if pl_command p = Read \<and> seen_bit f (reg_bit b at) then d[j := d ! j OR push_bit k 1] else d)"
proof -
  have at: "at div 8 = start + off + j" using assms(2) by (simp add: at_def)
  note E = assms(1) [unfolded access_bit_def Let_def prod.case, folded bit_field_def, folded f_def at_def]
  have "length d' = length d \<and> length b' = length b \<and> (\<not> x' \<longrightarrow> \<not> x \<and> b' = b) \<and>
    reg_bit b' i = (if i = at \<and> start + off + j < length b
       then next_bit f (pl_command p) (reg_bit b i) (bit (pl_data p ! j) k) else reg_bit b i) \<and>
    d' = (if pl_command p = Read \<and> seen_bit f (reg_bit b at) then d[j := d ! j OR push_bit k 1] else d)"
  proof (cases f)
    case None
    with E show ?thesis by (simp add: next_bit_def seen_bit_def)
  next
    case (Some g)
    show ?thesis
    proof (cases "pl_command p = Read")
      case True
      with E Some show ?thesis
        by (cases "fs_access g = RC") (auto simp: next_bit_def seen_bit_def reg_bit_put at)
    next
      case False
      with E Some show ?thesis
        by (cases "fs_access g") (auto simp: next_bit_def reg_bit_put at)
    qed
  qed
  then show "length d' = length d" "length b' = length b" "\<not> x' \<Longrightarrow> \<not> x \<and> b' = b"
    "reg_bit b' i = (if i = at \<and> start + off + j < length b
       then next_bit f (pl_command p) (reg_bit b i) (bit (pl_data p ! j) k) else reg_bit b i)"
    "d' = (if pl_command p = Read \<and> seen_bit f (reg_bit b at) then d[j := d ! j OR push_bit k 1] else d)"
    by blast+
qed

definition byte_effect ::
  "register_spec \<Rightarrow> payload_snapshot \<Rightarrow> nat \<Rightarrow> nat \<Rightarrow> nat \<Rightarrow> nat \<Rightarrow> bytes \<times> bytes \<times> bool \<Rightarrow> bytes \<times> bytes \<times> bool \<Rightarrow> bool" where
  "byte_effect r p start off j n = (\<lambda>(d, b, x) (d', b', x').
     length d' = length d \<and> length b' = length b \<and> (\<not> x' \<longrightarrow> \<not> x \<and> b' = b) \<and>
     (\<forall>i. reg_bit b' i = (if i div 8 = start + off + j \<and> i mod 8 < n \<and> start + off + j < length b
        then next_bit (bit_field r (off + j) (i mod 8)) (pl_command p) (reg_bit b i) (bit (pl_data p ! j) (i mod 8))
        else reg_bit b i)) \<and>
     (pl_command p \<noteq> Read \<longrightarrow> d' = d) \<and> (\<forall>i. i \<noteq> j \<longrightarrow> d' ! i = d ! i) \<and>
     (pl_command p = Read \<and> j < length d \<longrightarrow> (\<forall>k < 8. bit (d' ! j) k \<longleftrightarrow> bit (d ! j) k \<or>
        k < n \<and> seen_bit (bit_field r (off + j) k) (reg_bit b ((start + off + j) * 8 + k)))))"

lemma access_bits:
  "n \<le> 8 \<Longrightarrow> byte_effect r p start off j n (d, b, x) (fold (access_bit r p start off j) [0..<n] (d, b, x))"
proof (induction n)
  case 0
  then show ?case by (simp add: byte_effect_def)
next
  case (Suc n)
  obtain d1 b1 x1 where f: "fold (access_bit r p start off j) [0..<n] (d, b, x) = (d1, b1, x1)" by (metis prod_cases3)
  obtain d2 b2 x2 where g: "access_bit r p start off j n (d1, b1, x1) = (d2, b2, x2)" by (metis prod_cases3)
  have ih: "byte_effect r p start off j n (d, b, x) (d1, b1, x1)" using Suc f by simp
  have n: "n < 8" using Suc.prems by simp
  note st = access_bit_step [OF g n]
  let ?at = "(start + off + j) * 8 + n"
  have at: "i = ?at \<longleftrightarrow> i div 8 = start + off + j \<and> i mod 8 = n" for i using byte_bit_index [OF n] .
  have "reg_bit b1 a = reg_bit b a" if "a mod 8 = n" for a using ih that by (simp add: byte_effect_def)
  then have old: "reg_bit b1 ?at = reg_bit b ?at" using at by blast
  have bits: "reg_bit b2 i = (if i div 8 = start + off + j \<and> i mod 8 < Suc n \<and> start + off + j < length b
        then next_bit (bit_field r (off + j) (i mod 8)) (pl_command p) (reg_bit b i) (bit (pl_data p ! j) (i mod 8))
        else reg_bit b i)" for i
  proof (cases "i = ?at")
    case True
    then have "i div 8 = start + off + j" "i mod 8 = n" using at by blast+
    with st(4) [of i] True old ih show ?thesis by (simp add: byte_effect_def)
  next
    case False
    then have "\<not> (i div 8 = start + off + j \<and> i mod 8 = n)" using at by blast
    with st(4) [of i] False ih show ?thesis by (auto simp: byte_effect_def less_Suc_eq)
  qed
  have data: "bit (d2 ! j) k \<longleftrightarrow> bit (d ! j) k \<or>
        k < Suc n \<and> seen_bit (bit_field r (off + j) k) (reg_bit b ((start + off + j) * 8 + k))"
    if "pl_command p = Read" "j < length d" "k < 8" for k
    using that ih n st(1,5) old
    by (cases "k = n") (auto simp: byte_effect_def bit_simps less_Suc_eq)
  have "byte_effect r p start off j (Suc n) (d, b, x) (d2, b2, x2)"
    using ih st(1-3,5) bits data by (simp add: byte_effect_def)
  then show ?case using f g by simp
qed


definition loop_effect ::
  "register_spec \<Rightarrow> payload_snapshot \<Rightarrow> nat \<Rightarrow> nat \<Rightarrow> nat \<Rightarrow> bytes \<Rightarrow> bytes \<times> bytes \<times> bool \<Rightarrow> bool" where
  "loop_effect r p base off n b = (\<lambda>(d', b', x').
     length d' = length (pl_data p) \<and> length b' = length b \<and> (\<not> x' \<longrightarrow> b' = b) \<and>
     (\<forall>i. reg_bit b' i = (if base \<le> i div 8 \<and> i div 8 - base < n \<and> enabled (pl_byte_enable p) (i div 8 - base)
        then next_bit (bit_field r (off + (i div 8 - base)) (i mod 8)) (pl_command p) (reg_bit b i)
          (bit (pl_data p ! (i div 8 - base)) (i mod 8))
        else reg_bit b i)) \<and>
     (\<forall>j < length (pl_data p). if pl_command p = Read \<and> j < n \<and> enabled (pl_byte_enable p) j
        then \<forall>k < 8. bit (d' ! j) k \<longleftrightarrow> seen_bit (bit_field r (off + j) k) (reg_bit b ((base + j) * 8 + k))
        else d' ! j = pl_data p ! j))"

lemma access_bytes:
  "n \<le> length (pl_data p) \<Longrightarrow> start + off + length (pl_data p) \<le> length b \<Longrightarrow>
   loop_effect r p (start + off) off n b (fold (access_byte r p start off) [0..<n] (pl_data p, b, False))"
proof (induction n)
  case 0
  then show ?case by (simp add: loop_effect_def)
next
  case (Suc n)
  obtain d1 b1 x1 where f: "fold (access_byte r p start off) [0..<n] (pl_data p, b, False) = (d1, b1, x1)" by (metis prod_cases3)
  obtain d2 b2 x2 where g: "access_byte r p start off n (d1, b1, x1) = (d2, b2, x2)" by (metis prod_cases3)
  have ih: "loop_effect r p (start + off) off n b (d1, b1, x1)" using Suc f by simp
  have len: "length b1 = length b" "length d1 = length (pl_data p)" "n < length (pl_data p)" "start + off + n < length b"
    using ih Suc.prems by (simp_all add: loop_effect_def)
  have base: "i div 8 = start + off + n \<longleftrightarrow> start + off \<le> i div 8 \<and> i div 8 - (start + off) = n" for i by auto
  have "loop_effect r p (start + off) off (Suc n) b (d2, b2, x2)"
  proof (cases "enabled (pl_byte_enable p) n")
    case False
    with g have "d2 = d1" "b2 = b1" "x2 = x1" by (simp_all add: access_byte_def)
    with False ih show ?thesis by (auto simp: loop_effect_def less_Suc_eq)
  next
    case True
    let ?d = "if pl_command p = Read then d1[n := 0] else d1"
    have eff: "byte_effect r p start off n 8 (?d, b1, x1) (d2, b2, x2)"
      using access_bits [of 8 r p start off n ?d b1 x1] g True by (simp add: access_byte_def)
    have same: "reg_bit b1 i = reg_bit b i" if "i div 8 = start + off + n" for i
      using ih that by (auto simp: loop_effect_def)
    have bits: "reg_bit b2 i = (if start + off \<le> i div 8 \<and> i div 8 - (start + off) < Suc n \<and>
          enabled (pl_byte_enable p) (i div 8 - (start + off))
        then next_bit (bit_field r (off + (i div 8 - (start + off))) (i mod 8)) (pl_command p) (reg_bit b i)
          (bit (pl_data p ! (i div 8 - (start + off))) (i mod 8))
        else reg_bit b i)" for i
    proof (cases "i div 8 = start + off + n")
      case t: True
      with base have "i div 8 - (start + off) = n" "start + off \<le> i div 8" by blast+
      with eff t same [OF t] len(1,4) True show ?thesis by (simp add: byte_effect_def)
    next
      case False
      with base have "\<not> (start + off \<le> i div 8 \<and> i div 8 - (start + off) = n)" by blast
      with eff False ih show ?thesis by (auto simp: byte_effect_def loop_effect_def less_Suc_eq)
    qed
    have data: "if pl_command p = Read \<and> j < Suc n \<and> enabled (pl_byte_enable p) j
        then \<forall>k < 8. bit (d2 ! j) k \<longleftrightarrow> seen_bit (bit_field r (off + j) k) (reg_bit b ((start + off + j) * 8 + k))
        else d2 ! j = pl_data p ! j" if "j < length (pl_data p)" for j
    proof (cases "pl_command p = Read \<and> j = n")
      case t: True
      have "reg_bit b1 ((start + off + n) * 8 + k) = reg_bit b ((start + off + n) * 8 + k)" if "k < 8" for k
        using same byte_bit_index [OF that] by blast
      with eff t len True show ?thesis by (auto simp: byte_effect_def)
    next
      case False
      with eff ih that show ?thesis by (auto simp: byte_effect_def loop_effect_def less_Suc_eq split: if_splits)
    qed
    show ?thesis using eff ih bits data by (auto simp: byte_effect_def loop_effect_def split: if_splits)
  qed
  then show ?case using f g by simp
qed

section \<open>The bank as a byte store\<close>

definition bank_store :: "register_bank \<Rightarrow> memory" where
  "bank_store b = \<lparr>mem_cell = rb_cell b, mem_initial = rb_initial b\<rparr>"

lemma bank_store_simps [simp]:
  "mem_cell (bank_store b) = rb_cell b" "mem_size (bank_store b) = length (rb_initial b)"
  "mem_initial (bank_store b) = rb_initial b"
  by (simp_all add: bank_store_def mem_size_def)

definition bank_ready :: "'x world \<Rightarrow> register_bank \<Rightarrow> event_txn \<Rightarrow> bool" where
  "bank_ready w b t \<longleftrightarrow> bank_wf b \<and> mem_wf w (bank_store b) t"

abbreviation bank_bytes :: "'x world \<Rightarrow> register_bank \<Rightarrow> event_txn \<Rightarrow> bytes" where
  "bank_bytes w b t \<equiv> mem_bytes w (bank_store b) t"

lemma bank_ready_read:
  assumes "bank_ready w b t"
  shows "et_read w t (rb_cell b) = Inr (VBytes (bank_bytes w b t))"
    "layout_ok (rb_specs b) (rb_starts b) (length (bank_bytes w b t))"
    "length (bank_bytes w b t) = length (rb_initial b)"
  using assms mem_wf_read [of w "bank_store b" t] by (auto simp: bank_ready_def bank_wf_def)

lemma locate_Some:
  assumes "locate b a = Some (i, off)"
  shows "i < length (rb_specs b)" "off < reg_bytes (rb_specs b ! i)" "unat a = unat (rs_offset (rb_specs b ! i)) + off"
proof -
  let ?r = "rb_specs b ! i"
  let ?P = "\<lambda>i. let r = rb_specs b ! i in a \<ge> rs_offset r \<and> unat (a - rs_offset r) < reg_bytes r"
  have f: "find ?P [0..<length (rb_specs b)] = Some i" and off: "off = unat (a - rs_offset ?r)"
    using assms unfolding locate_def by (cases "find ?P [0..<length (rb_specs b)]"; simp)+
  then obtain n where "n < length (rb_specs b)" "?P n" "i = n"
    unfolding find_Some_iff by auto
  then have i: "i < length (rb_specs b)" "rs_offset ?r \<le> a" "unat (a - rs_offset ?r) < reg_bytes ?r"
    by (simp_all add: Let_def)
  then show "i < length (rb_specs b)" "off < reg_bytes ?r" using off by simp_all
  have "unat (a - rs_offset ?r) = unat a - unat (rs_offset ?r)" using i(2) by (rule unat_sub)
  then show "unat a = unat (rs_offset ?r) + off" using i(2) off by (simp add: word_le_nat_alt)
qed

lemma access_check_Inr:
  assumes "access_check b p = Inr (idx, off)"
  shows "locate b (pl_address p) = Some (idx, off)" "off + length (pl_data p) \<le> reg_bytes (rb_specs b ! idx)"
    "length (pl_data p) \<in> set (rs_allowed_access_bytes (rb_specs b ! idx))" "pl_data p \<noteq> []"
    "pl_command p = Read \<or> pl_command p = Write"
proof -
  from assms have c: "locate b (pl_address p) = Some (idx, off) \<and> length (pl_data p) \<le> reg_bytes (rb_specs b ! idx) - off \<and>
      length (pl_data p) \<in> set (rs_allowed_access_bytes (rb_specs b ! idx)) \<and> pl_data p \<noteq> [] \<and>
      (pl_command p = Read \<or> pl_command p = Write)"
    by (auto simp: access_check_def Let_def not_less split: if_splits option.splits prod.splits)
  then show "off + length (pl_data p) \<le> reg_bytes (rb_specs b ! idx)" using locate_Some(2) by fastforce
  show "locate b (pl_address p) = Some (idx, off)"
    "length (pl_data p) \<in> set (rs_allowed_access_bytes (rb_specs b ! idx))" "pl_data p \<noteq> []"
    "pl_command p = Read \<or> pl_command p = Write" using c by blast+
qed

text \<open>Every operation keeps the shape of the bank.\<close>

lemma length_poke_byte [simp]: "length (poke_byte r off at x bytes) = length bytes"
proof -
  have "length (fold (\<lambda>k b. if P k then reg_put b (g k) (h k) else b) ks bs) = length bs" for P g h ks bs
    by (induction ks arbitrary: bs) simp_all
  then show ?thesis by (simp add: poke_byte_def)
qed

lemma length_peek_poke [simp]: "length (snd (peek_poke_loop b cmd a input is out bytes)) = length bytes"
proof (induction "is" arbitrary: out bytes)
  case (Cons i "is")
  show ?case
  proof (cases "checked_add a (of_nat i)")
    case (Inr addr)
    with Cons.IH show ?thesis
      by (cases "locate b addr") (auto simp: Let_def)
  qed simp
qed simp

lemma bank_shape_kept:
  assumes "bank_ready w b t"
  shows "bank_ready w b (snd (rb_access pf w b p t))" "bank_ready w b (snd (rb_peek_poke pf w b cmd a input limit t))"
    "bank_ready w b (snd (rb_stage_field_update pf w b fid v t))" "bank_ready w b (snd (rb_reset pf w b t))"
proof -
  have wf: "bank_wf b" and m: "mem_wf w (bank_store b) t" using assms by (simp_all add: bank_ready_def)
  let ?b = "bank_bytes w b t"
  note len = bank_ready_read(3) [OF assms]
  have keep: "bank_ready w b (snd (txn_rmw pf w (rb_cell b) f t))"
    if "\<And>r v. f (VBytes ?b) = Inr (r, Some v) \<Longrightarrow> \<exists>c. v = VBytes c \<and> length c = length ?b"
    for f :: "value_t \<Rightarrow> ('r \<times> value_t option) expected"
    using rmw_mem_wf [OF prod.collapse [symmetric] m, where pf = pf and f = f] that wf len
    by (auto simp: bank_ready_def)
  show "bank_ready w b (snd (rb_access pf w b p t))"
  proof -
    have "length (fst (snd (access_loop r p start off ?b))) = length ?b"
      if "start + off + length (pl_data p) \<le> length ?b" for r start off
      using access_bytes [of "length (pl_data p)" p start off ?b r] that
      by (auto simp: access_loop_def loop_effect_def case_prod_beta)
    moreover have "rb_starts b ! idx + off + length (pl_data p) \<le> length ?b" if "access_check b p = Inr (idx, off)" for idx off
      using access_check_Inr(1,2) [OF that] locate_Some(1) starts_mono(1) [OF bank_ready_read(2) [OF assms], of idx]
      by fastforce
    ultimately show ?thesis using assms
      by (auto simp: rb_access_def case_prod_beta intro!: keep split: sum.splits if_splits)
  qed
  show "bank_ready w b (snd (rb_peek_poke pf w b cmd a input limit t))"
    using assms length_peek_poke [of b cmd a input _ _ ?b]
    by (auto simp: rb_peek_poke_def Let_def case_prod_beta simp del: length_peek_poke intro!: keep split: sum.splits if_splits)
  show "bank_ready w b (snd (rb_stage_field_update pf w b fid v t))"
    using assms by (auto simp: rb_stage_field_update_def fail_def intro!: keep split: sum.splits option.splits if_splits)
  have "bank_ready w b (snd (et_buffer pf w (rb_cell b) (VBytes (rb_initial b)) t))"
    using buffer_mem_wf [OF prod.collapse [symmetric], where pf = pf and m = "bank_store b" and b = "rb_initial b"] m wf
    by (simp add: bank_ready_def)
  then show "bank_ready w b (snd (rb_reset pf w b t))"
    using assms by (auto simp: rb_reset_def split: sum.splits)
qed

section \<open>Properties\<close>

text \<open>
  Claim C11. A bus access that passes the checks touches only bytes of the register it
  addresses and has on every stored bit exactly the effect that the access kind of its field
  prescribes: enabled read bits show the stored bit (write-only bits and bits outside every
  field read as zero) and clear read-to-clear bits; enabled write bits are stored, cleared, set
  or ignored by kind; all other stored bits and all disabled data bytes stay.
\<close>

theorem register_access_exact:
  assumes "bank_ready w b t" and "access_check b p = Inr (idx, off)" and "rb_access pf w b p t = (Inr r, t')"
  defines "reg \<equiv> rb_specs b ! idx" and "base \<equiv> rb_starts b ! idx + off" and "old \<equiv> bank_bytes w b t"
  shows "off + length (pl_data p) \<le> reg_bytes reg \<and> base + length (pl_data p) \<le> length old \<and>
    mt_status r = Ok \<and> length (mt_data r) = length (pl_data p) \<and>
    (\<forall>i. reg_bit (bank_bytes w b t') i =
       (if base \<le> i div 8 \<and> i div 8 - base < length (pl_data p) \<and> enabled (pl_byte_enable p) (i div 8 - base)
        then next_bit (bit_field reg (off + (i div 8 - base)) (i mod 8)) (pl_command p) (reg_bit old i)
          (bit (pl_data p ! (i div 8 - base)) (i mod 8))
        else reg_bit old i)) \<and>
    (\<forall>j < length (pl_data p). if pl_command p = Read \<and> enabled (pl_byte_enable p) j
       then \<forall>k < 8. bit (mt_data r ! j) k \<longleftrightarrow> seen_bit (bit_field reg (off + j) k) (reg_bit old ((base + j) * 8 + k))
       else mt_data r ! j = pl_data p ! j)"
proof -
  note chk = access_check_Inr [OF assms(2)]
  have range: "base + length (pl_data p) \<le> length old"
    using chk(2) locate_Some(1) [OF chk(1)] starts_mono(1) [OF bank_ready_read(2) [OF assms(1)], of idx]
    by (simp add: base_def old_def)
  obtain d c x where loop: "access_loop reg p (rb_starts b ! idx) off old = (d, c, x)" by (metis prod_cases3)
  have eff: "loop_effect reg p base off (length (pl_data p)) old (d, c, x)"
    using access_bytes [of "length (pl_data p)" p "rb_starts b ! idx" off old reg] range loop
    by (simp add: access_loop_def base_def)
  let ?f = "\<lambda>v. case access_loop reg p (rb_starts b ! idx) off (get_bytes v) of (d, bytes, dirty) \<Rightarrow>
      Inr (\<lparr>mt_status = Ok, mt_data = d\<rparr>, if dirty then Some (VBytes bytes) else None)"
  have rmw: "txn_rmw pf w (rb_cell b) ?f t = (Inr r, t')"
    using assms(2,3) by (auto simp: rb_access_def reg_def split: sum.splits)
  have rd: "et_read w t (rb_cell b) = Inr (VBytes old)" using bank_ready_read(1) [OF assms(1)] by (simp add: old_def)
  have fv: "?f (VBytes old) = Inr (\<lparr>mt_status = Ok, mt_data = d\<rparr>, if x then Some (VBytes c) else None)"
    using loop by simp
  have "r = \<lparr>mt_status = Ok, mt_data = d\<rparr> \<and> bank_bytes w b t' = c"
  proof (cases x)
    case True
    have wf: "mem_wf w (bank_store b) t" using assms(1) by (simp add: bank_ready_def)
    have "?f (VBytes (bank_bytes w b t)) = Inr (\<lparr>mt_status = Ok, mt_data = d\<rparr>, Some (VBytes c))"
      using fv True by (simp only: if_True old_def)
    from rmw_mem_bytes [where m = "bank_store b", unfolded bank_store_simps, OF rmw wf this]
    show ?thesis by blast
  next
    case False
    then have "r = \<lparr>mt_status = Ok, mt_data = d\<rparr>" "t' = t" using rmw rd loop by (simp_all add: cell_rmw_def)
    with False eff show ?thesis by (simp add: loop_effect_def old_def)
  qed
  then show ?thesis using eff range chk(2) by (simp add: loop_effect_def reg_def)
qed

text \<open>
  A field update is read back, and only it changes: after a successful
  \<open>stage_field_update\<close>, \<open>read_field\<close> returns the bytes that were written, and every other field
  of the bank, in whatever register and byte order, reads as before.
\<close>

theorem register_field_roundtrip:
  assumes "bank_ready w b t" and "rb_stage_field_update pf w b fid v t = (Inr u, t')"
  shows "rb_read_field w b fid t' = Inr v \<and>
    (\<forall>g. g \<noteq> fid \<longrightarrow> rb_read_field w b g t' = rb_read_field w b g t)"
proof -
  let ?old = "bank_bytes w b t"
  let ?f = "\<lambda>x. case find_field b fid of None \<Rightarrow> fail InvalidArgument ''unknown field''
      | Some p \<Rightarrow> (if bad_field_value (snd p) v then fail TypeMismatch ''field value width''
          else Inr ((), Some (VBytes (reg_puts (field_puts (rb_specs b) (rb_starts b) v p) (get_bytes x)))))"
  have ctx: "object_context t False = Inr ()" and rmw: "txn_rmw pf w (rb_cell b) ?f t = (Inr u, t')"
    using assms(2) by (auto simp: rb_stage_field_update_def split: sum.splits)
  note rd = bank_ready_read [OF assms(1)]
  obtain y where "?f (VBytes ?old) = Inr y"
    using rmw rd(1) by (cases "?f (VBytes ?old)") (auto simp: cell_rmw_def)
  then obtain i f where ff: "find_field b fid = Some (i, f)" "\<not> bad_field_value f v"
    by (auto simp: fail_def split: option.splits if_splits)
  let ?new = "reg_puts (field_puts (rb_specs b) (rb_starts b) v (i, f)) ?old"
  have "mem_wf w (bank_store b) t" using assms(1) by (simp add: bank_ready_def)
  from rmw_mem_bytes [where m = "bank_store b" and f = ?f, unfolded bank_store_simps, OF rmw this]
  have rd': "et_read w t' (rb_cell b) = Inr (VBytes ?new)" using ff by simp
  have ctx': "object_context t' False = Inr ()" using ctx rmw_context [OF rmw] by (simp add: object_context_def)
  have "fin": "(i, f) \<in> set (all_fields (rb_specs b))" "fs_id f = fid" using find_field_Some [OF ff(1)] by blast+
  have "rb_read_field w b fid t' = Inr v"
    using field_puts_read [OF rd(2) "fin"(1) "fin"(1) ff(2)] by (simp add: rb_read_field_def ctx' rd' ff)
  moreover have "rb_read_field w b g t' = rb_read_field w b g t" if "g \<noteq> fid" for g
  proof (cases "find_field b g")
    case None
    then show ?thesis by (simp add: rb_read_field_def ctx ctx' rd(1) rd')
  next
    case (Some q)
    obtain j h where q: "q = (j, h)" by (cases q)
    have "(j, h) \<in> set (all_fields (rb_specs b))" "fs_id h = g" using find_field_Some [OF Some [unfolded q]] by blast+
    moreover from this "fin"(2) that have "(j, h) \<noteq> (i, f)" by auto
    ultimately have "field_value b (j, h) ?new = field_value b (j, h) ?old"
      using field_puts_read [OF rd(2) "fin"(1) _ ff(2), of j h] by (simp only: if_False)
    then show ?thesis by (simp add: rb_read_field_def ctx ctx' rd(1) rd' Some q)
  qed
  ultimately show ?thesis by blast
qed

text \<open>
  A bank that \<open>make\<close> accepts has a sound layout (the registers' address ranges are
  disjoint and do not wrap, the fields lie inside their register, do not overlap and have
  distinct identifiers, the stored bytes of the registers are disjoint), and reset brings
  every field back to its reset value.
\<close>

theorem register_reset_values:
  assumes "rb_make addr s limit = Inr (b, c)" and "limit \<le> SIZE_MAX" and "rb_reset pf w b t = (Inr u, t')"
  shows "bank_wf b \<and> vc_value c = VBytes (rb_initial b) \<and> bank_bytes w b t' = rb_initial b \<and>
    (\<forall>fid i f. find_field b fid = Some (i, f) \<longrightarrow> rb_read_field w b fid t' = Inr (fs_reset f))"
proof -
  note mk = rb_make_wf [OF assms(1,2)]
  have ctx: "object_context t False = Inr ()" and buf: "et_buffer pf w (rb_cell b) (VBytes (rb_initial b)) t = (Inr u, t')"
    using assms(3) by (auto simp: rb_reset_def split: sum.splits)
  have rd: "et_read w t' (rb_cell b) = Inr (VBytes (rb_initial b))" using seg.buf_same [OF buf] .
  have ctx': "object_context t' False = Inr ()"
    using ctx et_buffer_frame [OF buf] by (simp add: object_context_def)
  have lay: "layout_ok (rb_specs b) (rb_starts b) (length (rb_initial b))" using mk(1) by (simp add: bank_wf_def)
  have "distinct (map (\<lambda>p. fs_id (snd p)) (all_fields (rb_specs b)))"
    using lay by (simp only: all_fields_ids layout_ok_def)
  then have dist: "distinct (all_fields (rb_specs b))" by (rule distinct_map [THEN iffD1, THEN conjunct1])
  have "rb_read_field w b fid t' = Inr (fs_reset f)" if ff: "find_field b fid = Some (i, f)" for fid i f
  proof -
    have fi: "(i, f) \<in> set (all_fields (rb_specs b))" using find_field_Some [OF ff] by blast
    have "\<not> bad_field_value f (fs_reset f)"
      using fi lay by (fastforce simp: all_fields_iff layout_ok_def register_ok_def field_ok_def)
    then have "field_value b (i, f) (rb_initial b) = fs_reset f"
    proof (rule field_value_eqI)
      fix k assume "k < fs_width f"
      then show "reg_bit (rb_initial b) (field_pos (rb_specs b) (rb_starts b) i f k) = reg_bit (fs_reset f) k"
        using initial_fields [OF lay subset_refl dist length_replicate fi, of k 0]
        by (subst mk(4)) (simp add: initial_bytes_def)
    qed
    then show ?thesis by (simp add: rb_read_field_def ctx' rd ff)
  qed
  then show ?thesis using mk(1,3) rd by (simp add: mem_bytes_def)
qed

section \<open>Witnesses\<close>

text \<open>A big-endian register of two bytes with three fields, in cell 2 of a world.\<close>

definition demo_fields :: "field_spec list" where
  "demo_fields =
     [\<lparr>fs_id = 1, fs_lsb = 0, fs_width = 4, fs_access = RW, fs_reset = [5]\<rparr>,
      \<lparr>fs_id = 2, fs_lsb = 4, fs_width = 4, fs_access = RC, fs_reset = [3]\<rparr>,
      \<lparr>fs_id = 3, fs_lsb = 12, fs_width = 4, fs_access = W1C, fs_reset = [15]\<rparr>]"

definition demo_register :: register_spec where
  "demo_register = \<lparr>rs_offset = 16, rs_width_bits = 16, rs_fields = demo_fields,
     rs_allowed_access_bytes = [1, 2], rs_alignment_bytes = None, rs_endian = Big\<rparr>"

definition demo_bank :: register_bank where
  "demo_bank = \<lparr>rb_specs = [demo_register], rb_starts = [0], rb_cell = 2, rb_initial = [240, 53]\<rparr>"

definition demo_bank_cell :: versioned_cell where
  "demo_bank_cell = \<lparr>vc_value = VBytes [240, 53], vc_version = 0, vc_epoch = 0, vc_stable_bytes = False,
     vc_epoch_independent = True\<rparr>"

definition demo_bank_world :: "unit world" where
  "demo_bank_world = demo_world\<lparr>w_cells := (w_cells demo_world)(2 := demo_bank_cell)\<rparr>"

definition demo_read :: payload_snapshot where
  "demo_read = \<lparr>pl_command = Read, pl_address = 16, pl_data = [0, 0], pl_streaming_width = 2,
     pl_byte_enable = [], pl_status = Incomplete, pl_dmi_hint = False, pl_extensions = []\<rparr>"

lemma demo_make: "rb_make 2 [demo_register] 4096 = Inr (demo_bank, demo_bank_cell)"
  unfolding demo_register_def demo_fields_def demo_bank_def demo_bank_cell_def by code_simp

lemma demo_bank_read: "et_read demo_bank_world demo_txn 2 = Inr (VBytes [240, 53])"
  by (simp add: et_read_def demo_bank_world_def demo_bank_cell_def cell_epoch_ok_def demo_txn_def EventTxn_new_def)

lemma demo_bank_ready: "bank_ready demo_bank_world demo_bank demo_txn"
  using rb_make_wf(1) [OF demo_make] demo_bank_read
  by (simp add: bank_ready_def mem_wf_def) (simp add: demo_bank_def)

lemma demo_bank_cost: "length b = 2 \<Longrightarrow> owned_value_bytes demo_pf (VBytes b) = 42"
  by (simp add: owned_value_bytes_def bounded_value_bytes_def visit_frame_def size_add_def demo_pf_def)

lemma demo_bank_buffer:
  "length b = 2 \<Longrightarrow> \<exists>t'. et_buffer demo_pf demo_bank_world 2 (VBytes b) demo_txn = (Inr (), t')"
  by (simp add: et_buffer_def demo_bank_cost demo_txn_def EventTxn_new_def demo_bank_world_def demo_bank_cell_def
      cell_epoch_ok_def prior_bytes_def Let_def)

lemma demo_bank_context: "object_context demo_txn False = Inr ()"
  by (simp add: object_context_Inr demo_txn_def EventTxn_new_def)

theorem register_reset_values_witness:
  "\<exists>t'. rb_reset demo_pf demo_bank_world demo_bank demo_txn = (Inr (), t') \<and>
     rb_read_field demo_bank_world demo_bank 2 t' = Inr [3]"
proof -
  obtain t' where "et_buffer demo_pf demo_bank_world 2 (VBytes [240, 53]) demo_txn = (Inr (), t')"
    using demo_bank_buffer [of "[240, 53]"] by auto
  then have r: "rb_reset demo_pf demo_bank_world demo_bank demo_txn = (Inr (), t')"
    by (simp add: rb_reset_def demo_bank_context demo_bank_def)
  have "find_field demo_bank 2 = Some (0, demo_fields ! 1)"
    by (simp add: find_field_def demo_bank_def all_fields_def demo_register_def demo_fields_def)
  with register_reset_values [OF demo_make _ r] have "rb_read_field demo_bank_world demo_bank 2 t' = Inr (fs_reset (demo_fields ! 1))"
    by simp
  with r show ?thesis by (simp add: demo_fields_def)
qed

theorem register_field_roundtrip_witness:
  "\<exists>t'. rb_stage_field_update demo_pf demo_bank_world demo_bank 3 [6] demo_txn = (Inr (), t') \<and>
     rb_read_field demo_bank_world demo_bank 3 t' = Inr [6] \<and>
     rb_read_field demo_bank_world demo_bank 1 t' = rb_read_field demo_bank_world demo_bank 1 demo_txn"
proof -
  have ff: "find_field demo_bank 3 = Some (0, demo_fields ! 2)"
    by (simp add: find_field_def demo_bank_def all_fields_def demo_register_def demo_fields_def)
  have ok: "\<not> bad_field_value (demo_fields ! 2) [6]"
    by (simp add: bad_field_value_def demo_fields_def field_bytes_def)
  let ?new = "reg_puts (field_puts (rb_specs demo_bank) (rb_starts demo_bank) [6] (0, demo_fields ! 2)) [240, 53]"
  obtain t' where "et_buffer demo_pf demo_bank_world 2 (VBytes ?new) demo_txn = (Inr (), t')"
    using demo_bank_buffer [of ?new] by auto
  then have u: "rb_stage_field_update demo_pf demo_bank_world demo_bank 3 [6] demo_txn = (Inr (), t')"
    using ff ok demo_bank_read by (simp add: rb_stage_field_update_def demo_bank_context cell_rmw_def) (simp add: demo_bank_def)
  show ?thesis using register_field_roundtrip [OF demo_bank_ready u] u by auto
qed

theorem register_access_exact_witness:
  "access_check demo_bank demo_read = Inr (0, 0) \<and>
   (\<exists>r t'. rb_access demo_pf demo_bank_world demo_bank demo_read demo_txn = (Inr r, t') \<and> bit (mt_data r ! 1) 4 \<and>
      \<not> reg_bit (bank_bytes demo_bank_world demo_bank t') 12)"
proof -
  have chk: "access_check demo_bank demo_read = Inr (0, 0)"
    unfolding demo_bank_def demo_register_def demo_fields_def demo_read_def by code_simp
  let ?l = "access_loop demo_register demo_read 0 0 [240, 53]"
  have l: "?l = ([240, 53], [240, 5], True)"
    unfolding demo_register_def demo_fields_def demo_read_def by code_simp
  obtain t' where "et_buffer demo_pf demo_bank_world 2 (VBytes [240, 5]) demo_txn = (Inr (), t')"
    using demo_bank_buffer [of "[240, 5]"] by auto
  then have a: "rb_access demo_pf demo_bank_world demo_bank demo_read demo_txn = (Inr \<lparr>mt_status = Ok, mt_data = [240, 53]\<rparr>, t')"
    using chk l demo_bank_read by (simp add: rb_access_def demo_bank_context cell_rmw_def) (simp add: demo_bank_def)
  have f: "bit_field demo_register 1 4 = Some (demo_fields ! 1)"
    unfolding demo_register_def demo_fields_def by code_simp
  have s: "rb_specs demo_bank ! 0 = demo_register" "rb_starts demo_bank ! 0 = 0" by (simp_all add: demo_bank_def)
  have p: "length (pl_data demo_read) = 2" "enabled (pl_byte_enable demo_read) 1" "pl_command demo_read = Read"
    by (simp_all add: demo_read_def enabled_def)
  have o: "bank_bytes demo_bank_world demo_bank demo_txn = [240, 53]"
    using demo_bank_read by (simp add: mem_bytes_def) (simp add: demo_bank_def)
  note x = register_access_exact [OF demo_bank_ready chk a, unfolded s o add_0 p(1)]
  have "reg_bit (bank_bytes demo_bank_world demo_bank t') 12 =
      next_bit (Some (demo_fields ! 1)) Read (reg_bit [240, 53] 12) (bit (pl_data demo_read ! 1) 4)"
    using x p f by simp
  then have "\<not> reg_bit (bank_bytes demo_bank_world demo_bank t') 12"
    by (simp add: next_bit_def demo_fields_def)
  moreover have "bit (([240, 53] :: bytes) ! 1) 4" by code_simp
  ultimately show ?thesis using chk a by auto
qed

end
