(* ===== verification/Timer.thy ===== *)
theory Timer
  imports Pipeline
begin

text \<open>
  The timer and the interrupt line of \<open>stdlib/include/leanat/timer.hpp\<close> and
  \<open>stdlib/src/timer.cpp\<close>. A timer keeps the token of its pending event, the deadline, whether
  it is armed and the tokens already settled; an interrupt keeps the same state for a pending
  pulse and a second cell for its level. Their participants \<open>EpochReset\<close> and \<open>PulseCommit\<close> take
  part in the commit of a segment.

  The members that C++ changes outside a cell (\<open>epoch_\<close>, \<open>cleanup_\<close>, \<open>last_published_\<close>) live by
  object address in the component part of the world, which also holds the participants that
  \<open>std::make_unique\<close> allocates and the calls made to the bound output sinks. The sink is code of
  the caller: the model records the calls, in order.
\<close>

section \<open>Data\<close>

record timer_sizes =
  sizeof_EpochReset :: nat
  sizeof_PulseCommit :: nat
  sizeof_PulseCleanup :: nat

record timer =
  tm_this :: nat
  tm_deadline :: "tick option"
  tm_period :: duration
  tm_owner :: u64
  tm_instance :: instance_id
  tm_domain :: domain_id
  tm_state :: nat

record interrupt =
  it_this :: nat
  it_owner :: u64
  it_instance :: instance_id
  it_domain :: domain_id
  it_output :: port_id
  it_reset_value :: bool
  it_state :: nat
  it_output_value :: nat

record pulse_cleanup =
  pc_token :: event_token
  pc_transaction :: event_txn
  pc_inactive :: "value_t"

text \<open>
  \<open>EpochReset object state output old next version output_version next_state next_output\<close> and
  \<open>PulseCommit target replacement\<close>.
\<close>

datatype timer_participant =
  EpochReset nat nat "nat option" u64 u64 u64 u64 "value_t" "value_t"
| PulseCommit interrupt "pulse_cleanup option"

record timer_ext =
  tx_epoch :: "nat \<Rightarrow> u64"
  tx_cleanup :: "nat \<Rightarrow> pulse_cleanup option"
  tx_last_published :: "nat \<Rightarrow> bool"
  tx_sink_bound :: "nat \<Rightarrow> bool"
  tx_output :: "(port_id \<times> bool) list"
  tx_heap :: "timer_participant list"

type_synonym tworld = "timer_ext world"

definition timer_state :: "handle \<Rightarrow> u64 \<Rightarrow> bool \<Rightarrow> value_t list \<Rightarrow> value_t" where
  "timer_state h deadline active settled = VArray [VHandle h, VU64 deadline, VBool active, VArray settled]"

abbreviation initial_timer_state :: "value_t" where
  "initial_timer_state \<equiv> timer_state default_handle 0 False []"

record tstate =
  ts_token :: handle
  ts_deadline :: u64
  ts_active :: bool
  ts_settled :: "value_t list"

definition decode_state :: "value_t \<Rightarrow> tstate" where
  "decode_state v = (let a = get_array v in
     \<lparr>ts_token = get_handle (a ! 0), ts_deadline = get_u64 (a ! 1), ts_active = get_bool (a ! 2),
      ts_settled = get_array (a ! 3)\<rparr>)"

definition read_state :: "'x world \<Rightarrow> event_txn \<Rightarrow> nat \<Rightarrow> tstate expected" where
  "read_state w t c = (case et_read w t c of Inl e \<Rightarrow> Inl e | Inr v \<Rightarrow> Inr (decode_state v))"

section \<open>Shared steps\<close>

definition schedule_draft :: "tick \<Rightarrow> u64 \<Rightarrow> instance_id \<Rightarrow> u64 \<Rightarrow> u64 \<Rightarrow> value_t \<Rightarrow> event_draft" where
  "schedule_draft tm turn inst owner epoch v =
     \<lparr>ed_key = EventKey tm turn ES_Internal inst 0 0, ed_value = v, ed_owner = owner, ed_epoch = epoch\<rparr>"

definition schedule ::
  "platform \<Rightarrow> nat \<Rightarrow> tick \<Rightarrow> instance_id \<Rightarrow> u64 \<Rightarrow> u64 \<Rightarrow> value_t \<Rightarrow> (event_token, 'x) step" where
  "schedule pf qa tm inst owner epoch v t w =
     (case eq_successor tm (queue_of w qa) of
        Inl e \<Rightarrow> (Inl e, t, w)
      | Inr key \<Rightarrow>
         (let now = ec_ready (et_context t) in
          if tm < rk_time now then (fail TimeRegression ''past deadline'', t, w)
          else case (if tm = rk_time now \<and> rk_turn key \<le> rk_turn now
                     then checked_add (rk_turn now) 1 else Inr (rk_turn key)) of
            Inl e \<Rightarrow> (Inl e, t, w)
          | Inr turn \<Rightarrow> et_stage_event pf qa (schedule_draft tm turn inst owner epoch v) t w))"

definition timer_allowed :: "execution_context \<Rightarrow> u64 \<Rightarrow> u64 \<Rightarrow> instance_id \<Rightarrow> unit expected" where
  "timer_allowed c owner epoch inst =
     (if ec_kind c \<noteq> CK_Timed \<and> ec_kind c \<noteq> CK_Process
      then fail InvalidState ''timer requires timed or process context''
      else if ec_owner c \<noteq> owner \<or> ec_instance c \<noteq> inst then fail WrongOwner ''timer owner''
      else if ec_epoch c \<noteq> epoch then fail StaleHandle ''timer epoch''
      else Inr ())"

text \<open>\<open>std::make_unique\<close>: the address of the new participant and the world that holds it.\<close>

definition part_address :: "tworld \<Rightarrow> nat" where
  "part_address w = length (tx_heap (w_ext w))"

definition part_alloc :: "timer_participant \<Rightarrow> tworld \<Rightarrow> tworld" where
  "part_alloc p w = w\<lparr>w_ext := (w_ext w)\<lparr>tx_heap := tx_heap (w_ext w) @ [p]\<rparr>\<rparr>"

definition stage_new ::
  "timer_ext participant_ops \<Rightarrow> (tworld \<Rightarrow> timer_participant) \<Rightarrow> (unit, timer_ext) step" where
  "stage_new ops mk t w = et_stage_participant ops (Some (part_address w)) t (part_alloc (mk w) w)"

section \<open>Participants\<close>

definition epoch_reset_new :: "nat \<Rightarrow> nat \<Rightarrow> nat option \<Rightarrow> u64 \<Rightarrow> bool \<Rightarrow> tworld \<Rightarrow> timer_participant" where
  "epoch_reset_new obj s out next reset w =
     EpochReset obj s out (tx_epoch (w_ext w) obj) next (vc_version (cell_of w s))
       (case out of Some c \<Rightarrow> vc_version (cell_of w c) | None \<Rightarrow> 0) initial_timer_state (VBool reset)"

definition pulse_cleanup_new :: "event_token \<Rightarrow> execution_context \<Rightarrow> nat \<Rightarrow> pulse_cleanup" where
  "pulse_cleanup_new h c this =
     \<lparr>pc_token = h,
      pc_transaction = EventTxn_new this \<lparr>sb_writes = 2, sb_actions = 0, sb_bytes = 2048, sb_events = 0\<rparr> c,
      pc_inactive = timer_state h (rk_time (ec_ready c)) False []\<rparr>"

definition committed_level :: "interrupt \<Rightarrow> tworld \<Rightarrow> bool" where
  "committed_level i w = get_bool (vc_value (cell_of w (it_output_value i)))"

definition publish_committed :: "interrupt \<Rightarrow> tworld \<Rightarrow> tworld" where
  "publish_committed i w =
     (let x = w_ext w; level = committed_level i w in
      w\<lparr>w_ext := x\<lparr>tx_output := tx_output x @
          (if tx_sink_bound x (it_this i) \<and> level \<noteq> tx_last_published x (it_this i)
           then [(it_output i, level)] else []),
        tx_last_published := (tx_last_published x)(it_this i := level)\<rparr>\<rparr>)"

definition swap_cell :: "nat \<Rightarrow> value_t \<Rightarrow> u64 \<Rightarrow> 'x world \<Rightarrow> 'x world" where
  "swap_cell c v epoch w =
     set_cell c ((cell_of w c)\<lparr>vc_value := v, vc_epoch := epoch, vc_version := vc_version (cell_of w c) + 1\<rparr>) w"

fun part_reserved_bytes :: "platform \<Rightarrow> timer_sizes \<Rightarrow> timer_participant \<Rightarrow> nat" where
  "part_reserved_bytes pf sz (EpochReset _ _ _ _ _ _ _ _ _) = sizeof_EpochReset sz + 4 * sizeof_Value pf"
| "part_reserved_bytes pf sz (PulseCommit _ r) =
     sizeof_PulseCommit sz + (if r = None then 0 else sizeof_PulseCleanup sz + 2048)"

fun part_validate :: "timer_participant \<Rightarrow> tworld \<Rightarrow> unit expected" where
  "part_validate (EpochReset obj s out old next ver outver _ _) w =
     (if tx_epoch (w_ext w) obj \<noteq> old \<or> vc_version (cell_of w s) \<noteq> ver \<or>
         (case out of Some c \<Rightarrow> vc_version (cell_of w c) \<noteq> outver | None \<Rightarrow> False)
      then fail InvalidState ''reset version conflict''
      else if next \<le> old then fail StaleHandle ''reset epoch must advance''
      else if ver = UINT64_MAX \<or> out \<noteq> None \<and> outver = UINT64_MAX
      then fail Overflow ''reset version exhausted''
      else Inr ())"
| "part_validate (PulseCommit _ _) w = Inr ()"

text \<open>\<open>apply\<close>: the swaps leave the old contents in the participant, which dies with its segment.\<close>

fun part_apply :: "timer_participant \<Rightarrow> tworld \<Rightarrow> tworld" where
  "part_apply (EpochReset obj s out old next ver outver ns no) w =
     (let w = swap_cell s ns next w;
          w = (case out of Some c \<Rightarrow> swap_cell c no next w | None \<Rightarrow> w) in
      w\<lparr>w_ext := (w_ext w)\<lparr>tx_epoch := (tx_epoch (w_ext w))(obj := next)\<rparr>\<rparr>)"
| "part_apply (PulseCommit i r) w =
     publish_committed i (w\<lparr>w_ext := (w_ext w)\<lparr>tx_cleanup := (tx_cleanup (w_ext w))(it_this i := r)\<rparr>\<rparr>)"

fun part_discard :: "timer_participant \<Rightarrow> timer_participant" where
  "part_discard (PulseCommit i _) = PulseCommit i None"
| "part_discard p = p"

definition part_at :: "nat \<Rightarrow> tworld \<Rightarrow> timer_participant option" where
  "part_at p w = (if p < length (tx_heap (w_ext w)) then Some (tx_heap (w_ext w) ! p) else None)"

definition timer_ops :: "platform \<Rightarrow> timer_sizes \<Rightarrow> timer_ext participant_ops" where
  "timer_ops pf sz =
     \<lparr>po_reserved_bytes = \<lambda>p w. (case part_at p w of Some x \<Rightarrow> part_reserved_bytes pf sz x | None \<Rightarrow> 0),
      po_identity = \<lambda>p w. None,
      po_validate = \<lambda>p w. (case part_at p w of Some x \<Rightarrow> part_validate x w | None \<Rightarrow> Inr ()),
      po_validate_prepare = \<lambda>p w. (case part_at p w of Some x \<Rightarrow> part_validate x w | None \<Rightarrow> Inr ()),
      po_apply = \<lambda>p w. (case part_at p w of Some x \<Rightarrow> part_apply x w | None \<Rightarrow> w),
      po_discard = \<lambda>p w. (case part_at p w of
          Some x \<Rightarrow> w\<lparr>w_ext := (w_ext w)\<lparr>tx_heap := (tx_heap (w_ext w))[p := part_discard x]\<rparr>\<rparr>
        | None \<Rightarrow> w)\<rparr>"

interpretation tp: participants "timer_ops pf sz" for pf sz
  by unfold_locales (auto simp: timer_ops_def split: option.splits)

section \<open>Timer operations\<close>

text \<open>The constructor; it throws unless exactly one of the two modes is configured.\<close>

definition Timer_new ::
  "nat \<Rightarrow> tick option \<Rightarrow> duration \<Rightarrow> u64 \<Rightarrow> u64 \<Rightarrow> instance_id \<Rightarrow> domain_id \<Rightarrow> nat \<Rightarrow> tworld \<Rightarrow>
     (timer \<times> tworld) option" where
  "Timer_new this deadline period owner epoch inst dm c w =
     (if (deadline \<noteq> None) = (period \<noteq> 0) then None
      else Some (\<lparr>tm_this = this, tm_deadline = deadline, tm_period = period, tm_owner = owner,
             tm_instance = inst, tm_domain = dm, tm_state = c\<rparr>,
           (set_cell c \<lparr>vc_value = initial_timer_state, vc_version = 0, vc_epoch = epoch,
              vc_stable_bytes = False, vc_epoch_independent = False\<rparr> w)
             \<lparr>w_ext := (w_ext w)\<lparr>tx_epoch := (tx_epoch (w_ext w))(this := epoch)\<rparr>\<rparr>))"

definition tm_epoch :: "timer \<Rightarrow> tworld \<Rightarrow> u64" where
  "tm_epoch m w = tx_epoch (w_ext w) (tm_this m)"

definition tm_context :: "timer \<Rightarrow> tworld \<Rightarrow> execution_context \<Rightarrow> unit expected" where
  "tm_context m w c =
     (if ec_domain c \<noteq> tm_domain m then fail WrongDomain ''timer domain''
      else timer_allowed c (tm_owner m) (tm_epoch m w) (tm_instance m))"

text \<open>The context check and the read with which every operation begins.\<close>

definition tm_read :: "timer \<Rightarrow> event_txn \<Rightarrow> tworld \<Rightarrow> tstate expected" where
  "tm_read m t w =
     (case tm_context m w (et_context t) of Inl e \<Rightarrow> Inl e | Inr _ \<Rightarrow> read_state w t (tm_state m))"

definition tm_active :: "timer \<Rightarrow> event_txn \<Rightarrow> tworld \<Rightarrow> event_token option expected" where
  "tm_active m t w =
     (case tm_read m t w of
        Inl e \<Rightarrow> Inl e
      | Inr s \<Rightarrow> Inr (if ts_active s then Some (ts_token s) else None))"

definition tm_schedule :: "platform \<Rightarrow> timer \<Rightarrow> nat \<Rightarrow> tick \<Rightarrow> u64 \<Rightarrow> (event_token, timer_ext) step" where
  "tm_schedule pf m qa tm epoch = schedule pf qa tm (tm_instance m) (tm_owner m) epoch (VU64 41)"

definition arm_steps ::
  "platform \<Rightarrow> timer \<Rightarrow> nat \<Rightarrow> tstate \<Rightarrow> tick \<Rightarrow> u64 \<Rightarrow> (event_token, timer_ext) step" where
  "arm_steps pf m qa s tm epoch =
     step_bind (tm_schedule pf m qa tm epoch) (\<lambda>token.
       step_then (step_buffer pf (tm_state m) (timer_state token tm True []))
         (step_then (step_when (ts_active s) (step_cancel qa (ts_token s))) (step_return token)))"

definition tm_arm :: "platform \<Rightarrow> timer_sizes \<Rightarrow> timer \<Rightarrow> nat \<Rightarrow> (event_token, timer_ext) step" where
  "tm_arm pf sz m qa t w =
     (case tm_read m t w of
        Inl e \<Rightarrow> (Inl e, t, w)
      | Inr s \<Rightarrow>
         (case (case tm_deadline m of Some d \<Rightarrow> Inr d
                | None \<Rightarrow> add_time (rk_time (ec_ready (et_context t))) (tm_period m)) of
            Inl e \<Rightarrow> (Inl e, t, w)
          | Inr tm \<Rightarrow>
             (case et_checkpoint t of
                Inl e \<Rightarrow> (Inl e, t, w)
              | Inr save \<Rightarrow> step_guard (timer_ops pf sz) save (arm_steps pf m qa s tm (tm_epoch m w)) t w)))"

definition settled_mem :: "handle \<Rightarrow> value_t list \<Rightarrow> bool" where
  "settled_mem h vs \<longleftrightarrow> (\<exists>v \<in> set vs. get_handle v = h)"

definition cancel_steps :: "platform \<Rightarrow> timer \<Rightarrow> nat \<Rightarrow> tstate \<Rightarrow> (bool, timer_ext) step" where
  "cancel_steps pf m qa s =
     step_then (step_cancel qa (ts_token s))
       (step_then (step_buffer pf (tm_state m) (timer_state (ts_token s) (ts_deadline s) False (ts_settled s)))
         (step_return True))"

definition tm_cancel :: "platform \<Rightarrow> timer_sizes \<Rightarrow> timer \<Rightarrow> nat \<Rightarrow> event_token \<Rightarrow> (bool, timer_ext) step" where
  "tm_cancel pf sz m qa token t w =
     (case tm_read m t w of
        Inl e \<Rightarrow> (Inl e, t, w)
      | Inr s \<Rightarrow>
         (if token \<noteq> ts_token s \<and> \<not> settled_mem token (ts_settled s)
          then (fail StaleHandle ''token is not current timer generation'', t, w)
          else if token \<noteq> ts_token s \<or> \<not> ts_active s then
            (case eq_validate_cancel token (queue_of w qa) of
               Inl e \<Rightarrow> (Inl e, t, w)
             | Inr _ \<Rightarrow> (Inr False, t, w))
          else case et_checkpoint t of
            Inl e \<Rightarrow> (Inl e, t, w)
          | Inr save \<Rightarrow> step_guard (timer_ops pf sz) save (cancel_steps pf m qa s) t w))"

definition tm_cancel_active :: "platform \<Rightarrow> timer_sizes \<Rightarrow> timer \<Rightarrow> nat \<Rightarrow> (bool, timer_ext) step" where
  "tm_cancel_active pf sz m qa t w =
     (case tm_read m t w of
        Inl e \<Rightarrow> (Inl e, t, w)
      | Inr s \<Rightarrow> (if ts_active s then tm_cancel pf sz m qa (ts_token s) t w else (Inr False, t, w)))"

text \<open>
  The firing of the timer. A periodic timer schedules the next event one period after the
  deadline; the two early returns in that part come before anything is staged.
\<close>

definition still_valid :: "event_queue \<Rightarrow> value_t \<Rightarrow> bool" where
  "still_valid q v \<longleftrightarrow> \<not> isl (eq_validate_cancel (get_handle v) q)"

definition fire_steps ::
  "platform \<Rightarrow> timer_sizes \<Rightarrow> timer \<Rightarrow> nat \<Rightarrow> savepoint \<Rightarrow> tstate \<Rightarrow> (bool, timer_ext) step" where
  "fire_steps pf sz m qa save s t w =
     (if tm_period m \<noteq> 0 then
        (case add_time (ts_deadline s) (tm_period m) of
           Inl e \<Rightarrow> (Inl e, t, w)
         | Inr tm \<Rightarrow>
            (case tm_schedule pf m qa tm (tm_epoch m w) t w of
               (Inl e, t1, w1) \<Rightarrow> (Inl e, t1, w1)
             | (Inr next, t1, w1) \<Rightarrow>
                 step_guard (timer_ops pf sz) save
                   (step_then (step_buffer pf (tm_state m) (timer_state next tm True
                        (filter (still_valid (queue_of w1 qa)) (ts_settled s) @ [VHandle (ts_token s)])))
                     (step_return True)) t1 w1))
      else step_guard (timer_ops pf sz) save
        (step_then (step_buffer pf (tm_state m) (timer_state (ts_token s) (ts_deadline s) False
             (filter (still_valid (queue_of w qa)) (ts_settled s))))
          (step_return True)) t w)"

definition tm_on_timer :: "platform \<Rightarrow> timer_sizes \<Rightarrow> timer \<Rightarrow> nat \<Rightarrow> event_token \<Rightarrow> (bool, timer_ext) step" where
  "tm_on_timer pf sz m qa token t w =
     (case tm_read m t w of
        Inl e \<Rightarrow> (Inl e, t, w)
      | Inr s \<Rightarrow>
         (if token \<noteq> ts_token s \<or> \<not> ts_active s then (Inr False, t, w)
          else case eq_is_active token (queue_of w qa) of
            Inl e \<Rightarrow> (Inl e, t, w)
          | Inr running \<Rightarrow>
             (if \<not> running then (fail InvalidState ''timer event not active'', t, w)
              else if rk_time (ec_ready (et_context t)) < ts_deadline s
              then (fail NotReady ''timer not due'', t, w)
              else case et_checkpoint t of
                Inl e \<Rightarrow> (Inl e, t, w)
              | Inr save \<Rightarrow> fire_steps pf sz m qa save s t w)))"

definition tm_reset :: "platform \<Rightarrow> timer_sizes \<Rightarrow> timer \<Rightarrow> nat \<Rightarrow> (unit, timer_ext) step" where
  "tm_reset pf sz m qa t w =
     (case tm_cancel_active pf sz m qa t w of
        (Inl e, t', w') \<Rightarrow> (Inl e, t', w')
      | (Inr _, t', w') \<Rightarrow> (Inr (), t', w'))"

text \<open>
  The part that both \<open>reset_epoch\<close> methods share: the pending event of the committed state is
  cancelled unless it is stale, then the reset is staged.
\<close>

definition reset_epoch_steps ::
  "timer_ext participant_ops \<Rightarrow> nat \<Rightarrow> nat \<Rightarrow> (unit, timer_ext) step \<Rightarrow> (unit, timer_ext) step" where
  "reset_epoch_steps ops qa c staged t w =
     (case et_checkpoint t of
        Inl e \<Rightarrow> (Inl e, t, w)
      | Inr save \<Rightarrow>
         (let s = decode_state (vc_value (cell_of w c)) in
          if ts_active s then
            (case eq_validate_cancel (ts_token s) (queue_of w qa) of
               Inr _ \<Rightarrow> step_guard ops save (step_then (step_cancel qa (ts_token s)) staged) t w
             | Inl e \<Rightarrow> (if code e \<noteq> StaleHandle then (Inl e, t, w) else step_guard ops save staged t w))
          else step_guard ops save staged t w))"

definition tm_reset_epoch :: "platform \<Rightarrow> timer_sizes \<Rightarrow> timer \<Rightarrow> nat \<Rightarrow> (unit, timer_ext) step" where
  "tm_reset_epoch pf sz m qa t w =
     (let c = et_context t in
      if ec_owner c \<noteq> tm_owner m \<or> ec_instance c \<noteq> tm_instance m \<or> ec_domain c \<noteq> tm_domain m
      then (fail WrongOwner ''timer reset owner'', t, w)
      else if ec_kind c \<noteq> CK_Timed \<and> ec_kind c \<noteq> CK_Process then (fail InvalidState ''reset context'', t, w)
      else reset_epoch_steps (timer_ops pf sz) qa (tm_state m)
        (stage_new (timer_ops pf sz) (epoch_reset_new (tm_this m) (tm_state m) None (ec_epoch c) False)) t w)"

section \<open>Interrupt operations\<close>

definition Interrupt_new ::
  "nat \<Rightarrow> u64 \<Rightarrow> u64 \<Rightarrow> instance_id \<Rightarrow> port_id \<Rightarrow> bool \<Rightarrow> domain_id \<Rightarrow> nat \<Rightarrow> nat \<Rightarrow> tworld \<Rightarrow> interrupt \<times> tworld" where
  "Interrupt_new this owner epoch inst output reset dm c oc w =
     (\<lparr>it_this = this, it_owner = owner, it_instance = inst, it_domain = dm, it_output = output,
       it_reset_value = reset, it_state = c, it_output_value = oc\<rparr>,
      (set_cell oc \<lparr>vc_value = VBool reset, vc_version = 0, vc_epoch = epoch, vc_stable_bytes = False,
           vc_epoch_independent = False\<rparr>
        (set_cell c \<lparr>vc_value = initial_timer_state, vc_version = 0, vc_epoch = epoch,
           vc_stable_bytes = False, vc_epoch_independent = False\<rparr> w))
        \<lparr>w_ext := (w_ext w)\<lparr>tx_epoch := (tx_epoch (w_ext w))(this := epoch),
           tx_cleanup := (tx_cleanup (w_ext w))(this := None),
           tx_last_published := (tx_last_published (w_ext w))(this := reset),
           tx_sink_bound := (tx_sink_bound (w_ext w))(this := False)\<rparr>\<rparr>)"

definition bind_output :: "interrupt \<Rightarrow> tworld \<Rightarrow> tworld" where
  "bind_output i w = w\<lparr>w_ext := (w_ext w)\<lparr>tx_sink_bound := (tx_sink_bound (w_ext w))(it_this i := True)\<rparr>\<rparr>"

definition it_epoch :: "interrupt \<Rightarrow> tworld \<Rightarrow> u64" where
  "it_epoch i w = tx_epoch (w_ext w) (it_this i)"

definition it_context :: "interrupt \<Rightarrow> tworld \<Rightarrow> execution_context \<Rightarrow> unit expected" where
  "it_context i w c =
     (if ec_domain c \<noteq> it_domain i then fail WrongDomain ''timer domain''
      else timer_allowed c (it_owner i) (it_epoch i w) (it_instance i))"

definition it_shadow_level :: "interrupt \<Rightarrow> event_txn \<Rightarrow> tworld \<Rightarrow> bool expected" where
  "it_shadow_level i t w =
     (case et_read w t (it_output_value i) of Inl e \<Rightarrow> Inl e | Inr v \<Rightarrow> Inr (get_bool v))"

definition it_read :: "interrupt \<Rightarrow> event_txn \<Rightarrow> tworld \<Rightarrow> tstate expected" where
  "it_read i t w =
     (case it_context i w (et_context t) of Inl e \<Rightarrow> Inl e | Inr _ \<Rightarrow> read_state w t (it_state i))"

definition level_steps :: "platform \<Rightarrow> timer_sizes \<Rightarrow> interrupt \<Rightarrow> nat \<Rightarrow> tstate \<Rightarrow> bool \<Rightarrow> (unit, timer_ext) step" where
  "level_steps pf sz i qa s level =
     step_then (step_buffer pf (it_output_value i) (VBool level))
       (step_then (step_buffer pf (it_state i) (timer_state (ts_token s) (ts_deadline s) False []))
         (step_then (step_when (ts_active s) (step_cancel qa (ts_token s)))
           (stage_new (timer_ops pf sz) (\<lambda>w. PulseCommit i None))))"

definition it_set_level :: "platform \<Rightarrow> timer_sizes \<Rightarrow> interrupt \<Rightarrow> nat \<Rightarrow> bool \<Rightarrow> (unit, timer_ext) step" where
  "it_set_level pf sz i qa level t w =
     (case it_read i t w of
        Inl e \<Rightarrow> (Inl e, t, w)
      | Inr s \<Rightarrow>
         (case et_checkpoint t of
            Inl e \<Rightarrow> (Inl e, t, w)
          | Inr save \<Rightarrow> step_guard (timer_ops pf sz) save (level_steps pf sz i qa s level) t w))"

definition pulse_steps ::
  "platform \<Rightarrow> timer_sizes \<Rightarrow> interrupt \<Rightarrow> tick \<Rightarrow> event_token \<Rightarrow> execution_context \<Rightarrow> nat \<Rightarrow> (event_token, timer_ext) step" where
  "pulse_steps pf sz i tm token ctx this =
     step_then (step_buffer pf (it_output_value i) (VBool True))
       (step_then (step_buffer pf (it_state i) (timer_state token tm True []))
         (step_then (stage_new (timer_ops pf sz)
             (\<lambda>w. PulseCommit i (Some (pulse_cleanup_new token (ctx\<lparr>ec_ready := ReadyKey tm 0\<rparr>) this))))
           (step_return token)))"

text \<open>\<open>this\<close> is the address of the segment that the cleanup owns.\<close>

definition it_pulse ::
  "platform \<Rightarrow> timer_sizes \<Rightarrow> interrupt \<Rightarrow> nat \<Rightarrow> duration \<Rightarrow> nat \<Rightarrow> (event_token, timer_ext) step" where
  "it_pulse pf sz i qa d this t w =
     (case it_context i w (et_context t) of
        Inl e \<Rightarrow> (Inl e, t, w)
      | Inr _ \<Rightarrow>
         (if d = 0 then (fail InvalidArgument ''zero pulse width'', t, w)
          else case read_state w t (it_state i) of
            Inl e \<Rightarrow> (Inl e, t, w)
          | Inr s \<Rightarrow>
             (case it_shadow_level i t w of
                Inl e \<Rightarrow> (Inl e, t, w)
              | Inr level \<Rightarrow>
                 (if ts_active s \<or> level then (fail InvalidState ''pulse busy'', t, w)
                  else case add_time (rk_time (ec_ready (et_context t))) d of
                    Inl e \<Rightarrow> (Inl e, t, w)
                  | Inr tm \<Rightarrow>
                     (case et_checkpoint t of
                        Inl e \<Rightarrow> (Inl e, t, w)
                      | Inr save \<Rightarrow>
                         (case schedule pf qa tm (it_instance i) (it_owner i) (it_epoch i w)
                                 (VU64 (ucast (it_output i))) t w of
                            (Inl e, t1, w1) \<Rightarrow> (Inl e, t1, w1)
                          | (Inr token, t1, w1) \<Rightarrow>
                              step_guard (timer_ops pf sz) save
                                (pulse_steps pf sz i tm token (et_context t1) this) t1 w1))))))"

definition clear_steps :: "platform \<Rightarrow> timer_sizes \<Rightarrow> interrupt \<Rightarrow> tstate \<Rightarrow> (bool, timer_ext) step" where
  "clear_steps pf sz i s =
     step_then (step_buffer pf (it_output_value i) (VBool False))
       (step_then (step_buffer pf (it_state i) (timer_state (ts_token s) (ts_deadline s) False []))
         (step_then (stage_new (timer_ops pf sz) (\<lambda>w. PulseCommit i None)) (step_return True)))"

definition it_on_clear :: "platform \<Rightarrow> timer_sizes \<Rightarrow> interrupt \<Rightarrow> nat \<Rightarrow> event_token \<Rightarrow> (bool, timer_ext) step" where
  "it_on_clear pf sz i qa token t w =
     (case it_read i t w of
        Inl e \<Rightarrow> (Inl e, t, w)
      | Inr s \<Rightarrow>
         (if \<not> ts_active s \<or> token \<noteq> ts_token s then (Inr False, t, w)
          else case eq_is_active token (queue_of w qa) of
            Inl e \<Rightarrow> (Inl e, t, w)
          | Inr running \<Rightarrow>
             (if \<not> running then (fail InvalidState ''clear event not active'', t, w)
              else if rk_time (ec_ready (et_context t)) < ts_deadline s
              then (fail NotReady ''pulse clear not due'', t, w)
              else case et_checkpoint t of
                Inl e \<Rightarrow> (Inl e, t, w)
              | Inr save \<Rightarrow> step_guard (timer_ops pf sz) save (clear_steps pf sz i s) t w)))"

definition it_reset :: "platform \<Rightarrow> timer_sizes \<Rightarrow> interrupt \<Rightarrow> nat \<Rightarrow> (unit, timer_ext) step" where
  "it_reset pf sz i qa = it_set_level pf sz i qa (it_reset_value i)"

definition it_reset_epoch :: "platform \<Rightarrow> timer_sizes \<Rightarrow> interrupt \<Rightarrow> nat \<Rightarrow> (unit, timer_ext) step" where
  "it_reset_epoch pf sz i qa t w =
     (let c = et_context t in
      if ec_owner c \<noteq> it_owner i \<or> ec_instance c \<noteq> it_instance i \<or> ec_domain c \<noteq> it_domain i
      then (fail WrongOwner ''interrupt reset owner'', t, w)
      else if ec_kind c \<noteq> CK_Timed \<and> ec_kind c \<noteq> CK_Process then (fail InvalidState ''reset context'', t, w)
      else reset_epoch_steps (timer_ops pf sz) qa (it_state i)
        (step_then (stage_new (timer_ops pf sz)
             (epoch_reset_new (it_this i) (it_state i) (Some (it_output_value i)) (ec_epoch c) (it_reset_value i)))
           (stage_new (timer_ops pf sz) (\<lambda>w. PulseCommit i None))) t w)"

text \<open>
  \<open>dispatch_clear\<close> runs the segment prepared by \<open>pulse\<close>. The cleanup is moved out of the
  object first; the segment has no participants, so its commit needs none of their methods.
  \<open>None\<close> is \<open>std::terminate\<close>.
\<close>

definition it_dispatch_clear ::
  "platform \<Rightarrow> timer_sizes \<Rightarrow> interrupt \<Rightarrow> nat \<Rightarrow> event_token \<Rightarrow> tworld \<Rightarrow> (bool expected \<times> tworld) option" where
  "it_dispatch_clear pf sz i qa token w =
     (case tx_cleanup (w_ext w) (it_this i) of
        None \<Rightarrow> Some (Inr False, w)
      | Some cl \<Rightarrow>
         (if pc_token cl \<noteq> token then Some (Inr False, w)
          else case eq_is_active token (queue_of w qa) of
            Inl e \<Rightarrow> Some (Inl e, w)
          | Inr active \<Rightarrow>
             (let s = decode_state (vc_value (cell_of w (it_state i))) in
              if \<not> active then Some (Inr False, w)
              else if \<not> ts_active s \<or> ts_token s \<noteq> token then Some (Inr False, w)
              else let w1 = w\<lparr>w_ext := (w_ext w)\<lparr>tx_cleanup := (tx_cleanup (w_ext w))(it_this i := None)\<rparr>\<rparr> in
                case step_then (step_buffer pf (it_output_value i) (VBool False))
                       (step_buffer pf (it_state i) (pc_inactive cl)) (pc_transaction cl) w1 of
                  (Inl e, _, _) \<Rightarrow> Some (Inl e, w1)
                | (Inr _, tx, _) \<Rightarrow>
                   (case et_commit (timer_ops pf sz) (it_epoch i w1) tx w1 of
                      None \<Rightarrow> None
                    | Some (Inl e, _, w2) \<Rightarrow> Some (Inl e, w2)
                    | Some (Inr _, _, w2) \<Rightarrow> Some (Inr True, publish_committed i w2)))))"

end
