(* ===== verification/Timer_Props.thy ===== *)
theory Timer_Props
  imports Timer
begin

text \<open>
  What the timer and the interrupt promise: every operation is atomic, an armed timer has its
  event staged after the current ready key, a timer fires when it is due and only once per
  token, an epoch reset advances the epoch and disarms, and the interrupt level follows the
  operations.
\<close>

section \<open>Staging\<close>

lemma staging_schedule: "staging pf (timer_ops pf' sz) (schedule pf qa tm inst owner epoch v)"
  unfolding staging_def
proof (intro allI impI)
  fix t w res t' w' ss
  assume st: "schedule pf qa tm inst owner epoch v t w = (res, t', w')"
    and reach: "txn_reachable pf (timer_ops pf' sz) w t ss"
  consider "t' = t" "w' = w"
    | turn where "et_stage_event pf qa (schedule_draft tm turn inst owner epoch v) t w = (res, t', w')"
    using st by (auto simp: schedule_def Let_def split: sum.splits if_splits)
  then show "txn_reachable pf (timer_ops pf' sz) w' t' ss \<and> (\<exists>es. extends t t' es \<and> slots_grew w w' es)"
  proof cases
    case 1
    with reach show ?thesis by (auto intro: exI [of _ "[]"])
  next
    case (2 turn)
    show ?thesis
      by (rule stagingD [OF staging_event [OF tp.participants_axioms] 2 reach]) blast
  qed
qed

lemma staging_new: "staging pf (timer_ops pf' sz) (stage_new (timer_ops pf' sz) mk)"
  unfolding stage_new_def
  by (rule staging_world [where f = part_address and g = "\<lambda>w. part_alloc (mk w) w"
        and a = "\<lambda>x. et_stage_participant (timer_ops pf' sz) (Some x)"])
    (simp_all add: part_alloc_def staging_participant [OF tp.participants_axioms])

lemmas timer_staging = staging_intros staging_schedule staging_new

lemma schedule_Inl:
  assumes "schedule pf qa tm inst owner epoch v t w = (Inl e, t', w')"
    and "txn_reachable pf (timer_ops pf' sz) w t ss"
  shows "t' = t \<and> slots_grew w w' []"
proof -
  have "t' = t"
    using assms(1) by (auto simp: schedule_def et_stage_event_def Let_def split: sum.splits if_splits prod.splits)
  moreover from stagingD [OF staging_schedule assms] obtain es where "extends t t' es" "slots_grew w w' es" by blast
  ultimately show ?thesis by (simp add: extends_def)
qed

section \<open>Atomicity\<close>

text \<open>A refused step leaves the segment, the cells and the event slots as they were.\<close>

definition undone :: "event_txn \<Rightarrow> 'x world \<Rightarrow> 'r expected \<times> event_txn \<times> 'x world \<Rightarrow> bool" where
  "undone t w x = (case x of (Inl e, t', w') \<Rightarrow> t' = t \<and> slots_grew w w' [] | (Inr _, _, _) \<Rightarrow> True)"

lemma undone_simps [simp]: "undone t w (x, t, w)" "undone t w (Inr r, t', w')"
  by (auto simp: undone_def split: sum.splits)

lemma undone_guard:
  assumes "txn_reachable pf (timer_ops pf sz) w t ss" and "et_checkpoint t = Inr cp" and "staging pf (timer_ops pf sz) a"
  shows "undone t w (step_guard (timer_ops pf sz) cp a t w)"
  using guard_atomic [OF tp.participants_axioms assms(3,1,2)]
  by (auto simp: undone_def split: prod.splits sum.splits)

text \<open>Rolling back a guarded step that began after other staging.\<close>

lemma undone_guard_from:
  assumes "txn_reachable pf (timer_ops pf sz) w t ss" and "et_checkpoint t = Inr cp"
    and "staging pf (timer_ops pf sz) b" and "b t w = (r, t1, w1)" and "staging pf (timer_ops pf sz) a"
  shows "undone t w (step_guard (timer_ops pf sz) cp a t1 w1)"
proof -
  obtain es where es: "txn_reachable pf (timer_ops pf sz) w1 t1 ss" "extends t t1 es" "slots_grew w w1 es"
    using stagingD [OF assms(3,4,1)] by blast
  obtain r2 t2 w2 where a: "a t1 w1 = (r2, t2, w2)" by (metis prod_cases3)
  obtain es' where es': "txn_reachable pf (timer_ops pf sz) w2 t2 ss" "extends t1 t2 es'" "slots_grew w1 w2 es'"
    using stagingD [OF assms(5) a es(1)] by blast
  show ?thesis
    using roll_back_restores [OF tp.participants_axioms es'(1) extends_trans [OF es(2) es'(2)]
        slots_grew_trans [OF es(3) es'(3)] assms(2)] a
    by (auto simp: undone_def step_guard_def split: prod.splits sum.splits)
qed

lemma undone_schedule:
  assumes "txn_reachable pf (timer_ops pf sz) w t ss"
  shows "undone t w (schedule pf qa tm inst owner epoch v t w)"
  using schedule_Inl [OF _ assms] by (auto simp: undone_def split: prod.splits sum.splits)

lemma cancel_undone:
  "txn_reachable pf (timer_ops pf sz) w t ss \<Longrightarrow> undone t w (tm_cancel pf sz m qa token t w)"
  by (auto simp: tm_cancel_def cancel_steps_def intro!: undone_guard timer_staging split: sum.splits)

lemma cancel_active_undone:
  "txn_reachable pf (timer_ops pf sz) w t ss \<Longrightarrow> undone t w (tm_cancel_active pf sz m qa t w)"
  by (auto simp: tm_cancel_active_def intro!: cancel_undone split: sum.splits)

lemma reset_undone:
  "txn_reachable pf (timer_ops pf sz) w t ss \<Longrightarrow> undone t w (tm_reset pf sz m qa t w)"
  using cancel_active_undone [of pf sz w t ss m qa]
  by (auto simp: tm_reset_def undone_def split: sum.splits prod.splits)

lemma arm_undone:
  "txn_reachable pf (timer_ops pf sz) w t ss \<Longrightarrow> undone t w (tm_arm pf sz m qa t w)"
  by (auto simp: tm_arm_def arm_steps_def tm_schedule_def intro!: undone_guard timer_staging split: sum.splits)

lemma fire_undone:
  assumes "txn_reachable pf (timer_ops pf sz) w t ss" and "et_checkpoint t = Inr cp"
  shows "undone t w (fire_steps pf sz m qa cp s t w)"
proof (cases "tm_period m = 0")
  case True
  then show ?thesis using assms by (auto simp: fire_steps_def intro!: undone_guard timer_staging)
next
  case False
  show ?thesis
  proof (cases "add_time (ts_deadline s) (tm_period m)")
    case (Inl e)
    with False show ?thesis by (simp add: fire_steps_def)
  next
    case (Inr tm)
    obtain r t1 w1 where sc: "schedule pf qa tm (tm_instance m) (tm_owner m) (tm_epoch m w) (VU64 41) t w = (r, t1, w1)"
      by (metis prod_cases3)
    show ?thesis
    proof (cases r)
      case (Inl e)
      have "undone t w (Inl e :: bool expected, t1, w1)"
        using undone_schedule [OF assms(1), of qa tm "tm_instance m" "tm_owner m" "tm_epoch m w" "VU64 41"] sc Inl
        by (simp add: undone_def)
      then show ?thesis using sc False Inr Inl by (simp add: fire_steps_def tm_schedule_def)
    next
      case r: (Inr nx)
      have "undone t w (step_guard (timer_ops pf sz) cp a t1 w1)" if "staging pf (timer_ops pf sz) a"
        for a :: "(bool, timer_ext) step"
        using undone_guard_from [OF assms staging_schedule sc that] .
      then show ?thesis using False Inr sc r by (simp add: fire_steps_def tm_schedule_def timer_staging)
    qed
  qed
qed

lemma on_timer_undone:
  "txn_reachable pf (timer_ops pf sz) w t ss \<Longrightarrow> undone t w (tm_on_timer pf sz m qa token t w)"
  by (auto simp: tm_on_timer_def intro!: fire_undone split: sum.splits)

lemma reset_epoch_steps_undone:
  "txn_reachable pf (timer_ops pf sz) w t ss \<Longrightarrow> staging pf (timer_ops pf sz) a \<Longrightarrow>
   undone t w (reset_epoch_steps (timer_ops pf sz) qa c a t w)"
  by (auto simp: reset_epoch_steps_def Let_def intro!: undone_guard timer_staging split: sum.splits)

lemma reset_epoch_undone:
  assumes "txn_reachable pf (timer_ops pf sz) w t ss"
  shows "undone t w (tm_reset_epoch pf sz m qa t w)" "undone t w (it_reset_epoch pf sz i qa t w)"
  using assms by (auto simp: tm_reset_epoch_def it_reset_epoch_def Let_def intro!: reset_epoch_steps_undone timer_staging)

lemma set_level_undone:
  "txn_reachable pf (timer_ops pf sz) w t ss \<Longrightarrow> undone t w (it_set_level pf sz i qa level t w)"
  by (auto simp: it_set_level_def level_steps_def intro!: undone_guard timer_staging split: sum.splits)

lemma on_clear_undone:
  "txn_reachable pf (timer_ops pf sz) w t ss \<Longrightarrow> undone t w (it_on_clear pf sz i qa token t w)"
  by (auto simp: it_on_clear_def clear_steps_def intro!: undone_guard timer_staging split: sum.splits)

lemma pulse_undone:
  assumes "txn_reachable pf (timer_ops pf sz) w t ss"
  shows "undone t w (it_pulse pf sz i qa d this t w)"
proof -
  have "undone t w (case schedule pf qa tm (it_instance i) (it_owner i) (it_epoch i w) v t w of
      (Inl e, t1, w1) \<Rightarrow> (Inl e, t1, w1)
    | (Inr token, t1, w1) \<Rightarrow> step_guard (timer_ops pf sz) cp (pulse_steps pf sz i tm token (et_context t1) this) t1 w1)"
    if cp: "et_checkpoint t = Inr cp" for cp tm v
  proof -
    obtain r t1 w1 where sc: "schedule pf qa tm (it_instance i) (it_owner i) (it_epoch i w) v t w = (r, t1, w1)"
      by (metis prod_cases3)
    show ?thesis
    proof (cases r)
      case (Inl e)
      with undone_schedule [OF assms, of qa tm "it_instance i" "it_owner i" "it_epoch i w" v] sc show ?thesis
        by (simp add: undone_def)
    next
      case (Inr token)
      have "staging pf (timer_ops pf sz) (pulse_steps pf sz i tm token (et_context t1) this)"
        unfolding pulse_steps_def by (intro timer_staging)
      with undone_guard_from [OF assms cp staging_schedule sc] Inr sc show ?thesis by simp
    qed
  qed
  then show ?thesis by (auto simp: it_pulse_def split: sum.splits)
qed

text \<open>
  Claim C25. Every operation of the timer and the interrupt is atomic: when it is refused, at
  whatever point (context, read, scheduling, budget, event queue, participant), the segment is
  exactly as before, no cell has changed and no event slot stays occupied.
\<close>

theorem timer_operations_atomic:
  assumes "txn_reachable pf (timer_ops pf sz) w t ss"
  shows "undone t w (tm_arm pf sz m qa t w) \<and> undone t w (tm_cancel pf sz m qa token t w) \<and>
    undone t w (tm_cancel_active pf sz m qa t w) \<and> undone t w (tm_on_timer pf sz m qa token t w) \<and>
    undone t w (tm_reset pf sz m qa t w) \<and> undone t w (tm_reset_epoch pf sz m qa t w) \<and>
    undone t w (it_set_level pf sz i qa level t w) \<and> undone t w (it_pulse pf sz i qa d this t w) \<and>
    undone t w (it_on_clear pf sz i qa token t w) \<and> undone t w (it_reset pf sz i qa t w) \<and>
    undone t w (it_reset_epoch pf sz i qa t w)"
  using assms
  by (simp add: arm_undone cancel_undone cancel_active_undone on_timer_undone reset_undone reset_epoch_undone
      set_level_undone pulse_undone on_clear_undone it_reset_def)

section \<open>What a scheduled event looks like\<close>

definition staged_event :: "'x world \<Rightarrow> nat \<Rightarrow> event_token \<Rightarrow> event_draft" where
  "staged_event w qa h = sl_event (eq_slots (queue_of w qa) ! unat (h_slot h))"

lemma schedule_Inr:
  assumes "schedule pf qa tm inst owner epoch v t w = (Inr token, t1, w1)"
    and "txn_reachable pf (timer_ops pf' sz) w t ss"
  shows "\<exists>r. et_events t1 = et_events t @ [(qa, r)] \<and> er_token r = token"
    "ek_time (ed_key (staged_event w1 qa token)) = tm"
    "ec_ready (et_context t) < key_ready (ed_key (staged_event w1 qa token))"
    "ed_owner (staged_event w1 qa token) = owner" "ed_epoch (staged_event w1 qa token) = epoch"
    "w_ext w1 = w_ext w" "w_cells w1 = w_cells w"
    "t1 = t\<lparr>et_events := et_events t1, et_bytes := et_bytes t1\<rparr>"
    "eq_is_active h (queue_of w qa) = Inr True \<Longrightarrow> h \<noteq> token"
proof -
  let ?now = "ec_ready (et_context t)"
  from assms(1) obtain turn where ev: "et_stage_event pf qa (schedule_draft tm turn inst owner epoch v) t w = (Inr token, t1, w1)"
    and time: "\<not> tm < rk_time ?now" and turn: "tm = rk_time ?now \<Longrightarrow> rk_turn ?now < turn"
  proof -
    from assms(1) obtain key where key: "eq_successor tm (queue_of w qa) = Inr key"
      by (cases "eq_successor tm (queue_of w qa)") (auto simp: schedule_def)
    have nt: "\<not> tm < rk_time ?now" using assms(1) key by (auto simp: schedule_def Let_def split: if_splits)
    show thesis
    proof (cases "tm = rk_time ?now \<and> rk_turn key \<le> rk_turn ?now")
      case True
      then obtain n where n: "checked_add (rk_turn ?now) 1 = Inr n"
        using assms(1) key nt by (cases "checked_add (rk_turn ?now) 1") (auto simp: schedule_def)
      then have "rk_turn ?now < n" using checked_add_InrD [OF n] by (simp add: word_less_nat_alt)
      with that [of n] n assms(1) key nt True show thesis by (auto simp: schedule_def)
    next
      case False
      with that [of "rk_turn key"] assms(1) key nt show thesis by (auto simp: schedule_def Let_def)
    qed
  qed
  have inv: "eq_inv (queue_of w qa)"
    using participants.reachable_inv [OF tp.participants_axioms assms(2)] by (simp add: queues_inv_def)
  from stage_event_draft [OF inv ev] obtain r where r: "et_events t1 = et_events t @ [(qa, r)]" "er_token r = token"
    and e: "staged_event w1 qa token = set_sequence (eq_next_sequence (queue_of w qa)) (schedule_draft tm turn inst owner epoch v)"
    by (auto simp: staged_event_def)
  show "\<exists>r. et_events t1 = et_events t @ [(qa, r)] \<and> er_token r = token" using r by blast
  show "ek_time (ed_key (staged_event w1 qa token)) = tm" by (simp add: e schedule_draft_def set_sequence_def)
  show "ed_owner (staged_event w1 qa token) = owner" "ed_epoch (staged_event w1 qa token) = epoch"
    by (simp_all add: e schedule_draft_def set_sequence_def)
  have "?now < ReadyKey tm turn"
    using time turn by (cases ?now) (auto simp: less_ready_key_def not_less order.order_iff_strict)
  then show "?now < key_ready (ed_key (staged_event w1 qa token))"
    by (simp add: e) (simp add: schedule_draft_def key_ready_def)
  have st: "t1 = t\<lparr>et_events := et_events t1, et_bytes := et_bytes t1\<rparr> \<and> w_ext w1 = w_ext w \<and> w_cells w1 = w_cells w"
    using et_stage_event_cases [OF ev] by (auto simp: set_queue_def)
  then show "w_ext w1 = w_ext w" "w_cells w1 = w_cells w"
    "t1 = t\<lparr>et_events := et_events t1, et_bytes := et_bytes t1\<rparr>" by blast+
  show "h \<noteq> token" if act: "eq_is_active h (queue_of w qa) = Inr True"
  proof
    assume h: "h = token"
    from act obtain i where i: "eq_validate (queue_of w qa) h = Inr i" "sl_state (eq_slots (queue_of w qa) ! i) = Slot_Active"
      by (auto simp: eq_is_active_def split: sum.splits)
    note v = eq_validate_InrD(1,2) [OF i(1)]
    from stagingD [OF staging_event [OF tp.participants_axioms] ev] assms(2)
    obtain es where es: "extends t t1 es" "slots_grew w w1 es" by (metis stage_event_stages(2) ev tp.participants_axioms)
    have "es = [(qa, r)]" using es(1) r(1) by (simp add: extends_def)
    then have "i \<in> own_slots es qa" using r(2) h v(2) by (auto simp: own_slots_def)
    moreover have "live (eq_slots (queue_of w qa) ! i)" using i(2) by (simp add: live_def)
    ultimately show False using es(2) v(1) by (auto simp: slots_grew_def split: if_splits)
  qed
qed

lemma decode_timer_state [simp]:
  "decode_state (timer_state h d a vs) = \<lparr>ts_token = h, ts_deadline = d, ts_active = a, ts_settled = vs\<rparr>"
  by (simp add: decode_state_def timer_state_def Let_def)

lemma et_read_cong:
  assumes "w_cells w' = w_cells w" and "et_closed t' = et_closed t" and "et_context t' = et_context t" and "et_writes t' = et_writes t"
  shows "et_read w' t' c = et_read w t c"
  using assms by (auto simp: et_read_def split: option.splits)

text \<open>The buffering step: what is read afterwards, and what stays.\<close>

lemma step_buffer_Inr:
  assumes "step_buffer pf c v t w = (Inr u, t', w')"
  shows "w' = w" "et_read w t' c = Inr v" "\<And>c'. c' \<noteq> c \<Longrightarrow> et_read w t' c' = et_read w t c'"
    "et_context t' = et_context t" "et_events t' = et_events t" "et_cancels t' = et_cancels t"
    "et_participants t' = et_participants t" "et_closed t' = et_closed t"
proof -
  have b: "et_buffer pf w c v t = (Inr u, t')" "w' = w" using assms by (auto simp: step_buffer_def split: prod.splits)
  then show "w' = w" "et_read w t' c = Inr v" "\<And>c'. c' \<noteq> c \<Longrightarrow> et_read w t' c' = et_read w t c'"
    using et_read_buffer_same et_read_buffer_other by blast+
  show "et_context t' = et_context t" "et_events t' = et_events t" "et_cancels t' = et_cancels t"
    "et_participants t' = et_participants t" "et_closed t' = et_closed t"
    using et_buffer_frame [OF b(1)] by simp_all
qed

lemma step_cancel_Inr:
  assumes "step_cancel qa h t w = (Inr u, t', w')"
  shows "w' = w \<and> t' = t\<lparr>et_cancels := et_cancels t @ [(qa, h)]\<rparr>"
  using assms by (auto simp: step_cancel_def et_stage_cancel_def split: prod.splits if_splits sum.splits)

lemma tm_read_after:
  assumes "tm_read m t w = Inr s" and "et_context t' = et_context t" and "w_ext w' = w_ext w"
    and "et_read w' t' (tm_state m) = Inr v"
  shows "tm_read m t' w' = Inr (decode_state v)"
proof -
  have "tm_context m w' (et_context t') = tm_context m w (et_context t)"
    using assms(2,3) by (simp add: tm_context_def tm_epoch_def)
  with assms(1,4) show ?thesis by (auto simp: tm_read_def read_state_def split: sum.splits)
qed

section \<open>Arming and firing\<close>

text \<open>
  Arming succeeds only with an event staged strictly after the ready key at which
  the segment runs, exactly at the configured deadline or, for a periodic timer, one period
  after now without wrapping; the segment then sees the timer armed with that event's token,
  and the event of an earlier arming is staged for cancellation.
\<close>

theorem timer_arm_exact:
  assumes "txn_reachable pf (timer_ops pf sz) w t ss" and "tm_arm pf sz m qa t w = (Inr token, t', w')"
  defines "ev \<equiv> staged_event w' qa token" and "now \<equiv> ec_ready (et_context t)"
  shows "tm_active m t' w' = Inr (Some token) \<and>
    (\<exists>r. et_events t' = et_events t @ [(qa, r)] \<and> er_token r = token) \<and>
    now < key_ready (ed_key ev) \<and> ed_owner ev = tm_owner m \<and> ed_epoch ev = tm_epoch m w \<and>
    (case tm_deadline m of
       Some d \<Rightarrow> ek_time (ed_key ev) = d
     | None \<Rightarrow> unat (ek_time (ed_key ev)) = unat (rk_time now) + unat (tm_period m)) \<and>
    (\<forall>old. tm_active m t w = Inr (Some old) \<longrightarrow> et_cancels t' = et_cancels t @ [(qa, old)])"
proof -
  from assms(2) obtain s tm cp where s: "tm_read m t w = Inr s"
    and tm: "(case tm_deadline m of Some d \<Rightarrow> Inr d | None \<Rightarrow> add_time (rk_time now) (tm_period m)) = Inr tm"
    and g: "step_guard (timer_ops pf sz) cp (arm_steps pf m qa s tm (tm_epoch m w)) t w = (Inr token, t', w')"
    unfolding now_def by (auto simp: tm_arm_def split: sum.splits)
  from g obtain tok t1 w1 u2 t2 w2 u3 t3 w3 where
    1: "schedule pf qa tm (tm_instance m) (tm_owner m) (tm_epoch m w) (VU64 41) t w = (Inr tok, t1, w1)"
    and 2: "step_buffer pf (tm_state m) (timer_state tok tm True []) t1 w1 = (Inr u2, t2, w2)"
    and 3: "step_when (ts_active s) (step_cancel qa (ts_token s)) t2 w2 = (Inr u3, t3, w3)"
    and 4: "token = tok" "t' = t3" "w' = w3"
    by (auto simp: step_Inr arm_steps_def tm_schedule_def step_return_def)
  note sc = schedule_Inr [OF 1 assms(1)] and b = step_buffer_Inr [OF 2]
  have c: "w3 = w2 \<and> t3 = (if ts_active s then t2\<lparr>et_cancels := et_cancels t2 @ [(qa, ts_token s)]\<rparr> else t2)"
    using 3 step_cancel_Inr by (cases "ts_active s") (fastforce simp: step_when_def)+
  have w': "w' = w1" using b(1) c 4 by simp
  have t1: "et_context t1 = et_context t" "et_cancels t1 = et_cancels t" by (subst sc(8), simp)+
  have f: "et_context t' = et_context t" "et_events t' = et_events t1" using b(4,5) c t1 by (simp_all add: 4)
  have "et_read w' t' (tm_state m) = et_read w1 t2 (tm_state m)"
    using c by (intro et_read_cong) (simp_all add: w' 4)
  then have "et_read w' t' (tm_state m) = Inr (timer_state token tm True [])" using b(2) 4 by simp
  from tm_read_after [OF s f(1) _ this] have "tm_active m t' w' = Inr (Some token)"
    using sc(6) by (simp add: tm_active_def w')
  moreover have "case tm_deadline m of Some d \<Rightarrow> ek_time (ed_key ev) = d
     | None \<Rightarrow> unat (ek_time (ed_key ev)) = unat (rk_time now) + unat (tm_period m)"
    using tm sc(2) by (auto simp: ev_def w' 4(1) add_time_def dest: checked_add_InrD split: option.splits sum.splits)
  moreover have "et_cancels t' = et_cancels t @ [(qa, old)]" if "tm_active m t w = Inr (Some old)" for old
    using that s c t1(2) b(6) by (auto simp: tm_active_def 4 split: if_splits)
  ultimately show ?thesis
    using sc(1,3-5) f(2) by (simp add: ev_def now_def w' 4(1))
qed

lemma step_buffer_return:
  assumes "step_then (step_buffer pf c v) (step_return r) t w = (Inr r', t', w')"
  shows "r' = r \<and> step_buffer pf c v t w = (Inr (), t', w')"
  using assms by (auto simp: then_Inr step_return_def)

lemma fire_Inr:
  assumes "txn_reachable pf (timer_ops pf sz) w t ss" and "tm_read m t w = Inr s"
    and "eq_is_active (ts_token s) (queue_of w qa) = Inr True"
    and "fire_steps pf sz m qa cp s t w = (Inr b, t', w')"
  shows "b" "et_context t' = et_context t" "w_ext w' = w_ext w" "et_cancels t' = et_cancels t"
    "tm_period m = 0 \<Longrightarrow> et_events t' = et_events t \<and>
      (\<exists>vs. tm_read m t' w' = Inr \<lparr>ts_token = ts_token s, ts_deadline = ts_deadline s, ts_active = False, ts_settled = vs\<rparr>)"
    "tm_period m \<noteq> 0 \<Longrightarrow> \<exists>nx d vs r. nx \<noteq> ts_token s \<and> add_time (ts_deadline s) (tm_period m) = Inr d \<and>
      tm_read m t' w' = Inr \<lparr>ts_token = nx, ts_deadline = d, ts_active = True, ts_settled = vs @ [VHandle (ts_token s)]\<rparr> \<and>
      et_events t' = et_events t @ [(qa, r)] \<and> er_token r = nx \<and> ek_time (ed_key (staged_event w' qa nx)) = d"
proof -
  have "b \<and> et_context t' = et_context t \<and> w_ext w' = w_ext w \<and> et_cancels t' = et_cancels t \<and>
    (if tm_period m = 0 then et_events t' = et_events t \<and>
      (\<exists>vs. tm_read m t' w' = Inr \<lparr>ts_token = ts_token s, ts_deadline = ts_deadline s, ts_active = False, ts_settled = vs\<rparr>)
     else (\<exists>nx d vs r. nx \<noteq> ts_token s \<and> add_time (ts_deadline s) (tm_period m) = Inr d \<and>
      tm_read m t' w' = Inr \<lparr>ts_token = nx, ts_deadline = d, ts_active = True, ts_settled = vs @ [VHandle (ts_token s)]\<rparr> \<and>
      et_events t' = et_events t @ [(qa, r)] \<and> er_token r = nx \<and> ek_time (ed_key (staged_event w' qa nx)) = d))"
  proof (cases "tm_period m = 0")
    case True
    with assms(4) have "step_then (step_buffer pf (tm_state m) (timer_state (ts_token s) (ts_deadline s) False
             (filter (still_valid (queue_of w qa)) (ts_settled s)))) (step_return True) t w = (Inr b, t', w')"
      by (simp add: fire_steps_def guard_Inr)
    note x = step_buffer_return [OF this]
    note b = step_buffer_Inr [OF conjunct2 [OF x]]
    have rd: "et_read w' t' (tm_state m) = Inr (timer_state (ts_token s) (ts_deadline s) False
             (filter (still_valid (queue_of w qa)) (ts_settled s)))" using b(1,2) by simp
    from tm_read_after [OF assms(2) b(4) _ rd] show ?thesis using x b True by simp
  next
    case False
    with assms(4) obtain d nx t1 w1 where d: "add_time (ts_deadline s) (tm_period m) = Inr d"
      and sc: "schedule pf qa d (tm_instance m) (tm_owner m) (tm_epoch m w) (VU64 41) t w = (Inr nx, t1, w1)"
      and g: "step_then (step_buffer pf (tm_state m) (timer_state nx d True
             (filter (still_valid (queue_of w1 qa)) (ts_settled s) @ [VHandle (ts_token s)]))) (step_return True) t1 w1 = (Inr b, t', w')"
      by (auto simp: fire_steps_def guard_Inr tm_schedule_def split: sum.splits prod.splits)
    note y = schedule_Inr [OF sc assms(1)] and x = step_buffer_return [OF g]
    note b = step_buffer_Inr [OF conjunct2 [OF x]]
    have t1: "et_context t1 = et_context t" "et_cancels t1 = et_cancels t" by (subst y(8), simp)+
    have rd: "et_read w' t' (tm_state m) = Inr (timer_state nx d True
             (filter (still_valid (queue_of w1 qa)) (ts_settled s) @ [VHandle (ts_token s)]))" using b(1,2) by simp
    have "tm_read m t' w' = Inr (decode_state (timer_state nx d True
             (filter (still_valid (queue_of w1 qa)) (ts_settled s) @ [VHandle (ts_token s)])))"
      by (rule tm_read_after [OF assms(2) _ _ rd]) (use b t1 y(6) in simp_all)
    moreover have "nx \<noteq> ts_token s" using y(9) [OF assms(3)] by blast
    moreover obtain r where "et_events t' = et_events t @ [(qa, r)]" "er_token r = nx" using y(1) b(5) by auto
    ultimately show ?thesis using x b(1,4,6) t1 y(2,6) d False by auto
  qed
  then show "b" "et_context t' = et_context t" "w_ext w' = w_ext w" "et_cancels t' = et_cancels t"
    "tm_period m = 0 \<Longrightarrow> et_events t' = et_events t \<and>
      (\<exists>vs. tm_read m t' w' = Inr \<lparr>ts_token = ts_token s, ts_deadline = ts_deadline s, ts_active = False, ts_settled = vs\<rparr>)"
    "tm_period m \<noteq> 0 \<Longrightarrow> \<exists>nx d vs r. nx \<noteq> ts_token s \<and> add_time (ts_deadline s) (tm_period m) = Inr d \<and>
      tm_read m t' w' = Inr \<lparr>ts_token = nx, ts_deadline = d, ts_active = True, ts_settled = vs @ [VHandle (ts_token s)]\<rparr> \<and>
      et_events t' = et_events t @ [(qa, r)] \<and> er_token r = nx \<and> ek_time (ed_key (staged_event w' qa nx)) = d"
    by auto
qed

text \<open>
  Claim C13. A timer fires only for the event it was armed with, while that event runs, and
  not before its deadline. Firing a one-shot timer disarms it; firing a periodic timer arms it
  again exactly one period after the deadline (not after now: it does not drift) with a fresh
  event. A second firing with the same token has no effect.
\<close>

theorem timer_fires_once_when_due:
  assumes "txn_reachable pf (timer_ops pf sz) w t ss" and "tm_on_timer pf sz m qa token t w = (Inr True, t', w')"
  shows "\<exists>s. tm_read m t w = Inr s \<and> ts_active s \<and> ts_token s = token \<and>
    eq_is_active token (queue_of w qa) = Inr True \<and> ts_deadline s \<le> rk_time (ec_ready (et_context t)) \<and>
    (if tm_period m = 0 then tm_active m t' w' = Inr None \<and> et_events t' = et_events t
     else \<exists>nx r. tm_active m t' w' = Inr (Some nx) \<and> nx \<noteq> token \<and> et_events t' = et_events t @ [(qa, r)] \<and>
       er_token r = nx \<and>
       unat (ek_time (ed_key (staged_event w' qa nx))) = unat (ts_deadline s) + unat (tm_period m)) \<and>
    tm_on_timer pf sz m qa token t' w' = (Inr False, t', w')"
proof -
  from assms(2) obtain s cp where s: "tm_read m t w = Inr s" "token = ts_token s" "ts_active s"
      "eq_is_active token (queue_of w qa) = Inr True" "\<not> rk_time (ec_ready (et_context t)) < ts_deadline s"
    and f: "fire_steps pf sz m qa cp s t w = (Inr True, t', w')"
    by (auto simp: tm_on_timer_def split: sum.splits if_splits)
  note x = fire_Inr [OF assms(1) s(1) s(4) [unfolded s(2)] f]
  show ?thesis
  proof (cases "tm_period m = 0")
    case True
    from x(5) [OF True] obtain vs where "tm_read m t' w' = Inr \<lparr>ts_token = ts_token s, ts_deadline = ts_deadline s, ts_active = False, ts_settled = vs\<rparr>"
      "et_events t' = et_events t" by blast
    with s True show ?thesis by (auto simp: tm_active_def tm_on_timer_def not_less)
  next
    case False
    from x(6) [OF False] obtain nx d vs r where y: "nx \<noteq> ts_token s" "add_time (ts_deadline s) (tm_period m) = Inr d"
      "tm_read m t' w' = Inr \<lparr>ts_token = nx, ts_deadline = d, ts_active = True, ts_settled = vs @ [VHandle (ts_token s)]\<rparr>"
      "et_events t' = et_events t @ [(qa, r)]" "er_token r = nx" "ek_time (ed_key (staged_event w' qa nx)) = d" by blast
    have "unat d = unat (ts_deadline s) + unat (tm_period m)"
      using y(2) by (auto simp: add_time_def dest: checked_add_InrD split: sum.splits)
    with s y False show ?thesis by (auto simp: tm_active_def tm_on_timer_def not_less)
  qed
qed

section \<open>Epoch reset\<close>

lemma reset_epoch_steps_Inr:
  assumes "reset_epoch_steps ops qa c a t w = (Inr u, t', w')"
  obtains cs where "a (t\<lparr>et_cancels := et_cancels t @ cs\<rparr>) w = (Inr u, t', w')"
proof -
  from assms have "a t w = (Inr u, t', w') \<or> (\<exists>h t1 w1. step_cancel qa h t w = (Inr (), t1, w1) \<and> a t1 w1 = (Inr u, t', w'))"
    by (auto simp: reset_epoch_steps_def Let_def step_Inr split: sum.splits if_splits)
  with that [of "[]"] that step_cancel_Inr show thesis by fastforce
qed

lemma reset_epoch_steps_reach:
  assumes "reset_epoch_steps (timer_ops pf sz) qa c a t w = (Inr u, t', w')"
    and "staging pf (timer_ops pf sz) a" and "txn_reachable pf (timer_ops pf sz) w t ss"
  shows "txn_reachable pf (timer_ops pf sz) w' t' ss"
proof -
  have "staging pf (timer_ops pf sz) (step_then (step_cancel qa h) a)" for h
    by (intro timer_staging assms(2))
  moreover from assms(1) have "a t w = (Inr u, t', w') \<or> (\<exists>h. step_then (step_cancel qa h) a t w = (Inr u, t', w'))"
    by (auto simp: reset_epoch_steps_def Let_def guard_Inr split: sum.splits if_splits)
  ultimately show ?thesis using assms(2,3) unfolding staging_def by blast
qed

lemma stage_new_Inr:
  assumes "stage_new (timer_ops pf sz) mk t w = (Inr u, t', w')"
  shows "w' = part_alloc (mk w) w \<and> et_participants t' = et_participants t @ [part_address w] \<and>
    et_writes t' = et_writes t \<and> et_context t' = et_context t \<and> et_closed t' = et_closed t \<and> et_events t' = et_events t \<and>
    et_participant_bytes t' = et_participant_bytes t @ [part_reserved_bytes pf sz (mk w)] \<and> et_cancels t' = et_cancels t"
  using assms
  by (auto simp: stage_new_def et_stage_participant_def Let_def timer_ops_def part_at_def part_alloc_def part_address_def
      split: if_splits sum.splits)

lemma part_at_alloc [simp]: "part_at (part_address w) (part_alloc p w) = Some p"
  by (simp add: part_at_def part_address_def part_alloc_def)

lemma part_at_ext: "w_ext w' = w_ext w \<Longrightarrow> part_at a w' = part_at a w"
  by (simp add: part_at_def)

text \<open>
  An epoch reset that commits advances the timer's epoch strictly to the epoch of
  its segment, leaves the timer disarmed in a cell of the new epoch with the next version, and
  from then on every context of the old epoch is refused.
\<close>

theorem epoch_reset_advances:
  assumes "txn_reachable pf (timer_ops pf sz) w t ss" and "et_participants t = []" and "et_writes t = []"
    and "tm_reset_epoch pf sz m qa t w = (Inr u, t1, w1)"
    and "et_commit (timer_ops pf sz) epoch t1 w1 = Some (Inr acts, t2, w2)"
  shows "tm_epoch m w < tm_epoch m w2 \<and> tm_epoch m w2 = ec_epoch (et_context t) \<and>
    vc_value (cell_of w2 (tm_state m)) = initial_timer_state \<and> vc_epoch (cell_of w2 (tm_state m)) = tm_epoch m w2 \<and>
    unat (vc_version (cell_of w2 (tm_state m))) = unat (vc_version (cell_of w (tm_state m))) + 1 \<and>
    (\<forall>c. ec_epoch c = tm_epoch m w \<longrightarrow> isl (tm_context m w2 c))"
proof -
  let ?next = "ec_epoch (et_context t)" and ?c = "tm_state m"
  let ?mk = "epoch_reset_new (tm_this m) ?c None ?next False"
  from assms(4) have rs: "reset_epoch_steps (timer_ops pf sz) qa ?c (stage_new (timer_ops pf sz) ?mk) t w = (Inr u, t1, w1)"
    by (auto simp: tm_reset_epoch_def Let_def split: if_splits)
  then obtain cs where st: "stage_new (timer_ops pf sz) ?mk (t\<lparr>et_cancels := et_cancels t @ cs\<rparr>) w = (Inr u, t1, w1)"
    by (rule reset_epoch_steps_Inr)
  note new = stage_new_Inr [OF st]
  let ?a = "part_address w" and ?p = "?mk w"
  have inv: "txn_inv pf w1 t1" and bytes: "et_participant_bytes t = []"
    using tp.reachable_inv [OF reset_epoch_steps_reach [OF rs staging_new assms(1)]] tp.reachable_inv [OF assms(1)] assms(2)
    by (simp_all add: txn_inv_def sizes_ok_def)
  have chk: "commit_check (timer_ops pf sz) epoch t1 w1 = Inr ()"
    using assms(5) by (cases "commit_check (timer_ops pf sz) epoch t1 w1") (auto simp: et_commit_def)
  let ?w = "committed_world t1 w1"
  have w2: "w2 = po_apply (timer_ops pf sz) ?a ?w"
    using assms(5) et_commit_Inr [OF inv chk] new assms(2) by simp
  have at: "part_at ?a w1 = Some ?p" "part_at ?a ?w = Some ?p"
    using new part_at_ext [of ?w w1 ?a] by (simp_all add: committed_world_def)
  have "check_participants (timer_ops pf sz) w1 [?a] [part_reserved_bytes pf sz ?p] = Inr ()"
    using chk new assms(2) bytes by (auto simp: commit_check_def split: if_splits sum.splits)
  then have val: "part_validate ?p w1 = Inr ()"
    using at(1) by (auto simp: timer_ops_def split: if_splits sum.splits)
  have c1: "w_cells w1 = w_cells w" "tx_epoch (w_ext w1) = tx_epoch (w_ext w)" using new by (simp_all add: part_alloc_def)
  have cw: "w_cells ?w = w_cells w" "tx_epoch (w_ext ?w) = tx_epoch (w_ext w)"
    using new assms(3) c1 by (simp_all add: committed_world_def apply_writes_def)
  have v: "tm_epoch m w < ?next" "vc_version (cell_of w ?c) \<noteq> UINT64_MAX"
    using val by (auto simp: epoch_reset_new_def tm_epoch_def not_le split: if_splits)
  have e: "w2 = part_apply ?p ?w" using w2 at(2) by (simp add: timer_ops_def)
  have ep: "tm_epoch m w2 = ?next" by (simp add: e epoch_reset_new_def tm_epoch_def Let_def)
  have cell: "cell_of w2 ?c = (cell_of w ?c)\<lparr>vc_value := initial_timer_state, vc_epoch := ?next,
      vc_version := vc_version (cell_of w ?c) + 1\<rparr>"
    by (simp add: e epoch_reset_new_def swap_cell_def cw Let_def)
  have "isl (tm_context m w2 c)" if "ec_epoch c = tm_epoch m w" for c
    using that v(1) ep by (auto simp: tm_context_def timer_allowed_def)
  then show ?thesis using ep v cell unat_Suc_not_max [OF v(2)] by simp
qed

section \<open>Interrupt\<close>

lemma stage_new_read:
  assumes "stage_new (timer_ops pf sz) mk t w = (Inr u, t', w')"
  shows "et_read w' t' c = et_read w t c"
  using stage_new_Inr [OF assms] by (intro et_read_cong) (simp_all add: part_alloc_def)

lemma two_buffers:
  assumes "step_buffer pf a va t w = (Inr u, t1, w1)" and "step_buffer pf b vb t1 w1 = (Inr u', t2, w2)" and "a \<noteq> b"
  shows "w2 = w" "et_read w t2 a = Inr va" "et_read w t2 b = Inr vb"
  using step_buffer_Inr [OF assms(1)] step_buffer_Inr [OF assms(2)] assms(3) by auto

lemma set_level_levels:
  assumes "it_state i \<noteq> it_output_value i" and "it_set_level pf sz i qa level t w = (Inr u, t', w')"
  shows "it_shadow_level i t' w' = Inr level" "\<exists>s. read_state w' t' (it_state i) = Inr s \<and> \<not> ts_active s"
proof -
  from assms(2) obtain s where "level_steps pf sz i qa s level t w = (Inr u, t', w')"
    by (auto simp: it_set_level_def guard_Inr split: sum.splits)
  then obtain u1 t1 w1 u2 t2 w2 u3 t3 w3 where
    1: "step_buffer pf (it_output_value i) (VBool level) t w = (Inr u1, t1, w1)"
    and 2: "step_buffer pf (it_state i) (timer_state (ts_token s) (ts_deadline s) False []) t1 w1 = (Inr u2, t2, w2)"
    and 3: "step_when (ts_active s) (step_cancel qa (ts_token s)) t2 w2 = (Inr u3, t3, w3)"
    and 4: "stage_new (timer_ops pf sz) (\<lambda>w. PulseCommit i None) t3 w3 = (Inr u, t', w')"
    by (auto simp: level_steps_def then_Inr)
  note b = two_buffers [OF 1 2 assms(1) [symmetric]]
  have "et_read w3 t3 c = et_read w2 t2 c" for c
    using 3 step_cancel_Inr [of qa "ts_token s" t2 w2 u3 t3 w3]
    by (cases "ts_active s") (auto simp: step_when_def intro: et_read_cong)
  then have rd: "et_read w' t' c = et_read w t2 c" for c using stage_new_read [OF 4] b(1) by simp
  show "it_shadow_level i t' w' = Inr level" by (simp add: it_shadow_level_def rd b(2))
  show "\<exists>s. read_state w' t' (it_state i) = Inr s \<and> \<not> ts_active s" by (simp add: read_state_def rd b(3))
qed

lemma pulse_levels:
  assumes "txn_reachable pf (timer_ops pf sz) w t ss" and "it_state i \<noteq> it_output_value i" and "it_pulse pf sz i qa d this t w = (Inr token, t', w')"
  shows "it_shadow_level i t w = Inr False" "it_shadow_level i t' w' = Inr True"
    "\<exists>s s'. read_state w t (it_state i) = Inr s \<and> \<not> ts_active s \<and> read_state w' t' (it_state i) = Inr s' \<and>
       ts_active s' \<and> ts_token s' = token \<and>
       unat (ek_time (ed_key (staged_event w' qa token))) = unat (rk_time (ec_ready (et_context t))) + unat d"
proof -
  from assms(3) obtain s tm tok t0 w0 cp where s: "read_state w t (it_state i) = Inr s" "\<not> ts_active s" "it_shadow_level i t w = Inr False"
    and tm: "add_time (rk_time (ec_ready (et_context t))) d = Inr tm"
    and sc: "schedule pf qa tm (it_instance i) (it_owner i) (it_epoch i w) (VU64 (ucast (it_output i))) t w = (Inr tok, t0, w0)"
    and g: "pulse_steps pf sz i tm tok (et_context t0) this t0 w0 = (Inr token, t', w')"
    by (auto simp: it_pulse_def guard_Inr split: sum.splits if_splits prod.splits)
  from g obtain u1 t1 w1 u2 t2 w2 u3 where
    1: "step_buffer pf (it_output_value i) (VBool True) t0 w0 = (Inr u1, t1, w1)"
    and 2: "step_buffer pf (it_state i) (timer_state tok tm True []) t1 w1 = (Inr u2, t2, w2)"
    and 3: "stage_new (timer_ops pf sz) (\<lambda>w. PulseCommit i (Some (pulse_cleanup_new tok ((et_context t0)\<lparr>ec_ready := ReadyKey tm 0\<rparr>) this))) t2 w2 = (Inr u3, t', w')"
    and tok: "token = tok"
    by (auto simp: pulse_steps_def then_Inr step_return_def)
  note b = two_buffers [OF 1 2 assms(2) [symmetric]] and y = schedule_Inr [OF sc assms(1)]
  have rd: "et_read w' t' c = et_read w0 t2 c" for c using stage_new_read [OF 3] b(1) by simp
  have "staged_event w' qa token = staged_event w0 qa tok"
    using stage_new_Inr [OF 3] b(1) by (simp add: staged_event_def part_alloc_def tok)
  moreover have "unat tm = unat (rk_time (ec_ready (et_context t))) + unat d"
    using tm by (auto simp: add_time_def dest: checked_add_InrD split: sum.splits)
  ultimately show "\<exists>s s'. read_state w t (it_state i) = Inr s \<and> \<not> ts_active s \<and> read_state w' t' (it_state i) = Inr s' \<and>
         ts_active s' \<and> ts_token s' = token \<and>
         unat (ek_time (ed_key (staged_event w' qa token))) = unat (rk_time (ec_ready (et_context t))) + unat d"
    using s y(2) by (auto simp: read_state_def rd b(3) tok)
  show "it_shadow_level i t w = Inr False" by (fact s(3))
  show "it_shadow_level i t' w' = Inr True" by (simp add: it_shadow_level_def rd b(2))
qed

lemma on_clear_levels:
  assumes "it_state i \<noteq> it_output_value i" and "it_on_clear pf sz i qa token t w = (Inr True, t', w')"
  shows "it_shadow_level i t' w' = Inr False"
    "\<exists>s s'. read_state w t (it_state i) = Inr s \<and> ts_active s \<and> ts_token s = token \<and>
       ts_deadline s \<le> rk_time (ec_ready (et_context t)) \<and> read_state w' t' (it_state i) = Inr s' \<and> \<not> ts_active s'"
proof -
  from assms(2) obtain s where s: "it_read i t w = Inr s" "ts_active s" "ts_token s = token"
      "\<not> rk_time (ec_ready (et_context t)) < ts_deadline s"
    and g: "clear_steps pf sz i s t w = (Inr True, t', w')"
    by (auto simp: it_on_clear_def guard_Inr split: sum.splits if_splits)
  from g obtain u1 t1 w1 u2 t2 w2 u3 where
    1: "step_buffer pf (it_output_value i) (VBool False) t w = (Inr u1, t1, w1)"
    and 2: "step_buffer pf (it_state i) (timer_state (ts_token s) (ts_deadline s) False []) t1 w1 = (Inr u2, t2, w2)"
    and 3: "stage_new (timer_ops pf sz) (\<lambda>w. PulseCommit i None) t2 w2 = (Inr u3, t', w')"
    by (auto simp: clear_steps_def then_Inr step_return_def)
  note b = two_buffers [OF 1 2 assms(1) [symmetric]]
  have rd: "et_read w' t' c = et_read w t2 c" for c using stage_new_read [OF 3] b(1) by simp
  have "read_state w t (it_state i) = Inr s" using s(1) by (auto simp: it_read_def split: sum.splits)
  then show "\<exists>s s'. read_state w t (it_state i) = Inr s \<and> ts_active s \<and> ts_token s = token \<and>
      ts_deadline s \<le> rk_time (ec_ready (et_context t)) \<and> read_state w' t' (it_state i) = Inr s' \<and> \<not> ts_active s'"
    using s by (auto simp: read_state_def rd b(3) not_less)
  show "it_shadow_level i t' w' = Inr False" by (simp add: it_shadow_level_def rd b(2))
qed

text \<open>
  The level of an interrupt follows its operations. After \<open>set_level\<close> the segment
  sees that level and no pulse pending. A pulse starts only on a low line with no pulse
  pending and leaves the line high, with its clearing event staged exactly one pulse width
  later. Clearing happens only for the pending pulse, not before its end, and leaves the line
  low with no pulse pending.
\<close>

theorem interrupt_level_exact:
  assumes "txn_reachable pf (timer_ops pf sz) w t ss" and "it_state i \<noteq> it_output_value i"
  shows "(it_set_level pf sz i qa level t w = (Inr u, t', w') \<longrightarrow>
      it_shadow_level i t' w' = Inr level \<and> (\<exists>s. read_state w' t' (it_state i) = Inr s \<and> \<not> ts_active s)) \<and>
    (it_pulse pf sz i qa d this t w = (Inr token, t', w') \<longrightarrow>
      it_shadow_level i t w = Inr False \<and> it_shadow_level i t' w' = Inr True \<and>
      (\<exists>s s'. read_state w t (it_state i) = Inr s \<and> \<not> ts_active s \<and> read_state w' t' (it_state i) = Inr s' \<and>
         ts_active s' \<and> ts_token s' = token \<and>
         unat (ek_time (ed_key (staged_event w' qa token))) = unat (rk_time (ec_ready (et_context t))) + unat d)) \<and>
    (it_on_clear pf sz i qa token t w = (Inr True, t', w') \<longrightarrow>
      it_shadow_level i t' w' = Inr False \<and>
      (\<exists>s s'. read_state w t (it_state i) = Inr s \<and> ts_active s \<and> ts_token s = token \<and>
         ts_deadline s \<le> rk_time (ec_ready (et_context t)) \<and> read_state w' t' (it_state i) = Inr s' \<and> \<not> ts_active s'))"
  by (intro conjI impI) (rule set_level_levels [OF assms(2)] pulse_levels [OF assms] on_clear_levels [OF assms(2)], assumption)+

section \<open>Witnesses\<close>

text \<open>A world whose cells hold one timer state, over a given event queue, and an open segment.\<close>

definition demo_sizes :: timer_sizes where
  "demo_sizes = \<lparr>sizeof_EpochReset = 160, sizeof_PulseCommit = 24, sizeof_PulseCleanup = 400\<rparr>"

definition demo_tworld :: "event_queue \<Rightarrow> value_t \<Rightarrow> tworld" where
  "demo_tworld q v = \<lparr>w_cells = \<lambda>_. \<lparr>vc_value = v, vc_version = 0, vc_epoch = 1, vc_stable_bytes = False,
       vc_epoch_independent = False\<rparr>, w_queues = \<lambda>_. q,
     w_ext = \<lparr>tx_epoch = \<lambda>_. 1, tx_cleanup = \<lambda>_. None, tx_last_published = \<lambda>_. False,
       tx_sink_bound = \<lambda>_. False, tx_output = [], tx_heap = []\<rparr>\<rparr>"

definition demo_tsegment :: "u64 \<Rightarrow> event_txn" where
  "demo_tsegment epoch = EventTxn_new 1 \<lparr>sb_writes = 3, sb_actions = 0, sb_bytes = 10000, sb_events = 2\<rparr>
     \<lparr>ec_kind = CK_Timed, ec_domain = 7, ec_instance = 1, ec_connection = 0,
      ec_ready = ReadyKey 5 0, ec_owner = 3, ec_epoch = epoch\<rparr>"

definition demo_timer :: timer where
  "demo_timer = \<lparr>tm_this = 0, tm_deadline = Some 9, tm_period = 0, tm_owner = 3, tm_instance = 1,
     tm_domain = 7, tm_state = 6\<rparr>"

definition demo_interrupt :: interrupt where
  "demo_interrupt = \<lparr>it_this = 2, it_owner = 3, it_instance = 1, it_domain = 7, it_output = 1,
     it_reset_value = False, it_state = 6, it_output_value = 7\<rparr>"

lemma demo_tworld_reachable:
  assumes "eq_inv q"
  shows "txn_reachable demo_pf (timer_ops demo_pf demo_sizes) (demo_tworld q v) (demo_tsegment epoch) {}"
  unfolding demo_tsegment_def by (rule txn_reachable.new) (simp add: queues_inv_def demo_tworld_def assms)

lemma demo_timer_cost: "bounded_value_bytes demo_pf (timer_state h d a []) = 200"
proof -
  have "value_ok demo_pf (timer_state h d a []) \<and> value_cost demo_pf (timer_state h d a []) = 200"
    by (simp add: timer_state_def value_ok_def demo_pf_def)
  then show ?thesis by (simp add: bounded_value_bytes_eq [OF demo_pf_ok])
qed

lemma demo_bool_cost: "bounded_value_bytes demo_pf (VBool b) = 40"
  by (simp add: bounded_value_bytes_def visit_frame_def size_add_def demo_pf_def)

lemma demo_new_inv: "eq_inv demo_new"
  by (rule eq_reachable_inv [OF demo_new_reachable])

lemmas demo_timer_eval = demo_tworld_def demo_tsegment_def EventTxn_new_def demo_timer_def demo_interrupt_def
  tm_read_def tm_context_def timer_allowed_def tm_epoch_def read_state_def et_read_def cell_epoch_ok_def
  et_checkpoint_def step_guard_def step_then_def step_bind_def step_return_def step_when_def step_buffer_def
  et_buffer_def owned_value_bytes_def demo_timer_cost demo_bool_cost prior_bytes_def Let_def

lemma demo_arm:
  "\<exists>token t' w'. tm_arm demo_pf demo_sizes demo_timer 0 (demo_tsegment 1) (demo_tworld demo_new initial_timer_state) = (Inr token, t', w')"
  by (simp add: tm_arm_def arm_steps_def tm_schedule_def schedule_def schedule_draft_def eq_successor_def et_stage_event_def
      demo_new_eq demo_eval empty_slot_def demo_timer_eval)

theorem timer_operations_atomic_witness:
  "undone (demo_tsegment 2) (demo_tworld demo_new initial_timer_state)
     (tm_arm demo_pf demo_sizes demo_timer 0 (demo_tsegment 2) (demo_tworld demo_new initial_timer_state))"
  using timer_operations_atomic [OF demo_tworld_reachable [OF demo_new_inv]] by blast

theorem timer_arm_exact_witness:
  "\<exists>token t' w'. tm_arm demo_pf demo_sizes demo_timer 0 (demo_tsegment 1) (demo_tworld demo_new initial_timer_state) = (Inr token, t', w') \<and>
     tm_active demo_timer t' w' = Inr (Some token) \<and> ek_time (ed_key (staged_event w' 0 token)) = 9"
proof -
  obtain token t' w' where a: "tm_arm demo_pf demo_sizes demo_timer 0 (demo_tsegment 1) (demo_tworld demo_new initial_timer_state) = (Inr token, t', w')"
    using demo_arm by blast
  have d: "tm_deadline demo_timer = Some 9" by (simp add: demo_timer_def)
  show ?thesis using timer_arm_exact [OF demo_tworld_reachable [OF demo_new_inv] a] a by (auto simp: d)
qed

text \<open>The one-shot timer fires for the running event of an open batch.\<close>

definition demo_token :: event_token where
  "demo_token = token_of demo_popped 2"

definition demo_armed :: tworld where
  "demo_armed = demo_tworld demo_popped (timer_state demo_token 5 True [])"

lemma demo_fire:
  "\<exists>t' w'. tm_on_timer demo_pf demo_sizes demo_timer 0 demo_token (demo_tsegment 1) demo_armed = (Inr True, t', w')"
proof -
  have "eq_is_active demo_token demo_popped = Inr True"
    by (simp add: eq_is_active_def eq_validate_def demo_token_def token_of_def demo_popped_eq demo_new_eq demo_slot_def Let_def)
  then show ?thesis
    by (simp add: demo_armed_def tm_on_timer_def fire_steps_def demo_timer_eval)
qed

theorem timer_fires_once_when_due_witness:
  "\<exists>t' w'. tm_on_timer demo_pf demo_sizes demo_timer 0 demo_token (demo_tsegment 1) demo_armed = (Inr True, t', w') \<and>
     tm_active demo_timer t' w' = Inr None \<and>
     tm_on_timer demo_pf demo_sizes demo_timer 0 demo_token t' w' = (Inr False, t', w')"
proof -
  obtain t' w' where f: "tm_on_timer demo_pf demo_sizes demo_timer 0 demo_token (demo_tsegment 1) demo_armed = (Inr True, t', w')"
    using demo_fire by blast
  have "tm_period demo_timer = 0" by (simp add: demo_timer_def)
  with timer_fires_once_when_due [OF demo_tworld_reachable [OF eq_reachable_inv [OF demo_popped_reachable]] f [unfolded demo_armed_def]]
  show ?thesis using f by auto
qed

lemma demo_reset:
  "\<exists>t1 w1 acts t2 w2. tm_reset_epoch demo_pf demo_sizes demo_timer 0 (demo_tsegment 2) (demo_tworld demo_new initial_timer_state) = (Inr (), t1, w1) \<and>
     et_commit (timer_ops demo_pf demo_sizes) 2 t1 w1 = Some (Inr acts, t2, w2)"
proof -
  have "\<not> (2 :: u64) \<le> 1" by code_simp
  then show ?thesis
    by (simp add: tm_reset_epoch_def reset_epoch_steps_def stage_new_def et_stage_participant_def et_remaining_bytes_def
      timer_ops_def part_at_def part_address_def part_alloc_def epoch_reset_new_def demo_sizes_def demo_pf_def
      et_commit_def commit_check_def apply_writes_def demo_timer_eval)
qed

theorem epoch_reset_advances_witness:
  "\<exists>t1 w1 acts t2 w2. tm_reset_epoch demo_pf demo_sizes demo_timer 0 (demo_tsegment 2) (demo_tworld demo_new initial_timer_state) = (Inr (), t1, w1) \<and>
     et_commit (timer_ops demo_pf demo_sizes) 2 t1 w1 = Some (Inr acts, t2, w2) \<and> tm_epoch demo_timer w2 = 2"
proof -
  obtain t1 w1 acts t2 w2 where r: "tm_reset_epoch demo_pf demo_sizes demo_timer 0 (demo_tsegment 2) (demo_tworld demo_new initial_timer_state) = (Inr (), t1, w1)"
    and c: "et_commit (timer_ops demo_pf demo_sizes) 2 t1 w1 = Some (Inr acts, t2, w2)"
    using demo_reset by blast
  have e: "et_participants (demo_tsegment 2) = []" "et_writes (demo_tsegment 2) = []" "ec_epoch (et_context (demo_tsegment 2)) = 2"
    by (simp_all add: demo_tsegment_def EventTxn_new_def)
  from epoch_reset_advances [OF demo_tworld_reachable [OF demo_new_inv] e(1,2) r c] r c e(3) show ?thesis by auto
qed

theorem interrupt_level_exact_witness:
  "\<exists>t' w'. it_set_level demo_pf demo_sizes demo_interrupt 0 True (demo_tsegment 1) (demo_tworld demo_new initial_timer_state) = (Inr (), t', w') \<and>
     it_shadow_level demo_interrupt t' w' = Inr True"
proof -
  have "\<exists>t' w'. it_set_level demo_pf demo_sizes demo_interrupt 0 True (demo_tsegment 1) (demo_tworld demo_new initial_timer_state) = (Inr (), t', w')"
    by (simp add: it_set_level_def it_read_def it_context_def it_epoch_def level_steps_def stage_new_def et_stage_participant_def
        et_remaining_bytes_def timer_ops_def part_at_def part_address_def part_alloc_def demo_sizes_def demo_timer_eval)
  then obtain t' w' where s: "it_set_level demo_pf demo_sizes demo_interrupt 0 True (demo_tsegment 1) (demo_tworld demo_new initial_timer_state) = (Inr (), t', w')"
    by blast
  have "it_state demo_interrupt \<noteq> it_output_value demo_interrupt" by (simp add: demo_interrupt_def)
  from interrupt_level_exact [OF demo_tworld_reachable [OF demo_new_inv] this] s show ?thesis by blast
qed

end
