(* ===== verification/Protocol_Finite.thy ===== *)
theory Protocol_Finite
  imports Event_Txn
begin

text \<open>
  The finite protocol packages of \<open>runtime/include/leanat/protocol.hpp\<close>,
  \<open>runtime/src/protocol_finite.cpp\<close> and the guards of \<open>runtime/src/protocol.cpp\<close>: rule tables
  with guards, priorities, lanes and actions, the validation that a package passes before it
  is installed, and the execution of a rule's actions. For a validated package the choice of
  the return rule does not depend on the order of the table.
\<close>

section \<open>Data\<close>

datatype wire_state = WS_Idle | WS_Request | WS_RequestReleased | WS_Response | WS_Terminal

datatype milestone_kind = MK_RequestReleased | MK_ResponseReady | MK_Terminal

record protocol_milestone =
  pm_kind :: milestone_kind
  pm_time :: tick
  pm_implicit :: bool
  pm_response :: "response_snapshot option"

datatype guard_kind = G_Always | G_FieldEq | G_And | G_Not

datatype protocol_guard =
  Guard (g_kind: guard_kind) (g_field: u32) (g_value: u64) (g_operands: "protocol_guard list")

datatype action_kind =
  OpenHop | RequestReleased | ResponseReady | CloseHop | AcquireLane | ReleaseLane | TraceTag

record protocol_action =
  pa_kind :: action_kind
  pa_lane :: u32
  pa_tag :: string

record protocol_phase =
  pp_name :: string
  pp_flow :: flow

record finite_rule =
  fr_pre :: u32
  fr_flow :: flow
  fr_phase :: phase_id
  fr_sync :: sync
  fr_returned :: "phase_id option"
  fr_guard :: protocol_guard
  fr_priority :: "int option"
  fr_entry_lanes :: "u32 list"
  fr_call_actions :: "protocol_action list"
  fr_return_actions :: "protocol_action list"
  fr_post :: u32
  fr_call_guard :: protocol_guard

record protocol_package =
  pk_name :: string
  pk_version :: string
  pk_phases :: "protocol_phase list"
  pk_states :: "string list"
  pk_initial :: u32
  pk_terminal :: "u32 list"
  pk_lanes :: "u32 list"
  pk_rules :: "finite_rule list"

section \<open>Guards\<close>

text \<open>The numbers of the enumerators, as \<open>static_cast\<close> gives them.\<close>

fun command_code :: "command \<Rightarrow> u64" where
  "command_code Read = 0" | "command_code Write = 1" | "command_code Ignore = 2"

fun status_code :: "response_status \<Rightarrow> u64" where
  "status_code Incomplete = 0" | "status_code Ok = 1" | "status_code GenericError = 2"
| "status_code AddressError = 3" | "status_code CommandError = 4" | "status_code BurstError = 5"
| "status_code ByteEnableError = 6"

fun sync_code :: "sync \<Rightarrow> u64" where
  "sync_code Accepted = 0" | "sync_code Updated = 1" | "sync_code Completed = 2"

fun guard_available :: "protocol_guard \<Rightarrow> wire_return option \<Rightarrow> bool" where
  "guard_available (Guard k f v gs) r =
     (if k = G_FieldEq then
        (if f < 4 then True
         else if f = 4 then r \<noteq> None
         else case r of
           None \<Rightarrow> False
         | Some x \<Rightarrow>
             (if f = 5 then wr_sync x = Updated \<and> wr_phase x \<noteq> None
              else wr_sync x \<noteq> Accepted \<and> wr_response x \<noteq> None))
      else \<forall>g \<in> set gs. guard_available g r)"

definition guard_field :: "u32 \<Rightarrow> wire_call \<Rightarrow> wire_return option \<Rightarrow> u64 option" where
  "guard_field f c r =
     (if f = 0 then Some (command_code (pl_command (wc_request c)))
      else if f = 1 then Some (pl_address (wc_request c))
      else if f = 2 then Some (wc_incoming_delay c)
      else if f = 3 then Some (status_code (pl_status (wc_request c)))
      else case r of
        None \<Rightarrow> None
      | Some x \<Rightarrow>
         (if f = 4 then Some (sync_code (wr_sync x))
          else if f = 5 then (if wr_sync x = Updated then map_option ucast (wr_phase x) else None)
          else if f = 6 then
            (if wr_sync x \<noteq> Accepted then map_option (\<lambda>s. status_code (rs_status s)) (wr_response x) else None)
          else if f = 7 then
            (if wr_sync x \<noteq> Accepted then map_option (\<lambda>s. of_nat (length (rs_data s))) (wr_response x) else None)
          else None))"

text \<open>
  The source indexes \<open>operands[0]\<close> and \<open>operands[1]\<close>; validation has checked the arity. The
  missing operand gives false here.
\<close>

fun eval_guard :: "protocol_guard \<Rightarrow> wire_call \<Rightarrow> wire_return option \<Rightarrow> bool" where
  "eval_guard (Guard k f v gs) c r =
     (if \<not> guard_available (Guard k f v gs) r then False
      else case k of
        G_Always \<Rightarrow> True
      | G_And \<Rightarrow> (case gs of a # b # _ \<Rightarrow> eval_guard a c r \<and> eval_guard b c r | _ \<Rightarrow> False)
      | G_Not \<Rightarrow> (case gs of a # _ \<Rightarrow> \<not> eval_guard a c r | _ \<Rightarrow> False)
      | G_FieldEq \<Rightarrow> guard_field f c r = Some v)"

fun guard_equal :: "protocol_guard \<Rightarrow> protocol_guard \<Rightarrow> bool"
  and guards_equal :: "protocol_guard list \<Rightarrow> protocol_guard list \<Rightarrow> bool" where
  "guard_equal (Guard k f v gs) (Guard k' f' v' gs') =
     (k = k' \<and> f = f' \<and> v = v' \<and> length gs = length gs' \<and> guards_equal gs gs')"
| "guards_equal (a # as) (b # bs) = (guard_equal a b \<and> guards_equal as bs)"
| "guards_equal _ _ = True"

definition guard_disjoint :: "protocol_guard \<Rightarrow> protocol_guard \<Rightarrow> bool" where
  "guard_disjoint a b =
     (if g_kind a = G_FieldEq \<and> g_kind b = G_FieldEq then g_field a = g_field b \<and> g_value a \<noteq> g_value b
      else if g_kind a = G_Not then (case g_operands a of x # _ \<Rightarrow> guard_equal x b | [] \<Rightarrow> False)
      else if g_kind b = G_Not then (case g_operands b of x # _ \<Rightarrow> guard_equal a x | [] \<Rightarrow> False)
      else False)"

fun guard_arity :: "guard_kind \<Rightarrow> nat" where
  "guard_arity G_Always = 0" | "guard_arity G_FieldEq = 0" | "guard_arity G_And = 2" | "guard_arity G_Not = 1"

fun check_guard :: "protocol_guard \<Rightarrow> u32 \<Rightarrow> nat \<Rightarrow> nat \<Rightarrow> unit expected \<times> nat"
  and check_guards :: "protocol_guard list \<Rightarrow> u32 \<Rightarrow> nat \<Rightarrow> nat \<Rightarrow> unit expected \<times> nat" where
  "check_guard (Guard k f v gs) nf depth work =
     (if depth > 32 then (fail Capacity ''protocol guard depth/work'', work)
      else let work = work + 1 in
        if work > 4096 then (fail Capacity ''protocol guard depth/work'', work)
        else if k = G_FieldEq \<and> f \<ge> nf
        then (fail ProtocolViolation ''guard reads unavailable/illegal fact'', work)
        else if length gs \<noteq> guard_arity k then (fail InvalidArgument ''guard arity'', work)
        else check_guards gs nf (depth + 1) work)"
| "check_guards [] nf depth work = (Inr (), work)"
| "check_guards (g # gs) nf depth work =
     (case check_guard g nf depth work of
        (Inl e, work) \<Rightarrow> (Inl e, work)
      | (Inr _, work) \<Rightarrow> check_guards gs nf depth work)"

section \<open>Validation\<close>

definition actions_equal :: "protocol_action list \<Rightarrow> protocol_action list \<Rightarrow> bool" where
  "actions_equal a b \<longleftrightarrow> list_all2 (\<lambda>x y. pa_kind x = pa_kind y \<and> pa_lane x = pa_lane y \<and> pa_tag x = pa_tag y) a b"

definition same_call :: "finite_rule \<Rightarrow> finite_rule \<Rightarrow> bool" where
  "same_call a b \<longleftrightarrow> fr_pre a = fr_pre b \<and> fr_flow a = fr_flow b \<and> fr_phase a = fr_phase b"

definition lane_action :: "protocol_action \<Rightarrow> bool" where
  "lane_action a \<longleftrightarrow> pa_kind a = AcquireLane \<or> pa_kind a = ReleaseLane"

text \<open>The action loop of one list: the keys seen so far and whether a \<open>CloseHop\<close> was seen.\<close>

fun check_actions ::
  "nat \<Rightarrow> bool \<Rightarrow> protocol_action list \<Rightarrow> (action_kind \<times> u32) list \<Rightarrow> bool \<Rightarrow>
     ((action_kind \<times> u32) list \<times> bool) expected" where
  "check_actions nlanes is_call [] seen close = Inr (seen, close)"
| "check_actions nlanes is_call (a # as) seen close =
     (let key = (pa_kind a, if lane_action a then pa_lane a else 0) in
      if lane_action a \<and> unat (pa_lane a) \<ge> nlanes then fail InvalidArgument ''action lane''
      else if pa_kind a \<noteq> TraceTag \<and> key \<in> set seen
      then fail ProtocolViolation ''action duplicated across call/return''
      else if pa_kind a = CloseHop \<and> is_call then fail Unsupported ''finite call CloseHop unsupported''
      else check_actions nlanes is_call as (if pa_kind a \<noteq> TraceTag then key # seen else seen)
        (close \<or> pa_kind a = CloseHop))"

text \<open>The comparison with the earlier rules; each is paired with the work its own check took.\<close>

fun compare_rules :: "finite_rule \<Rightarrow> nat \<Rightarrow> (finite_rule \<times> nat) list \<Rightarrow> nat \<Rightarrow> nat expected" where
  "compare_rules r work [] vwork = Inr vwork"
| "compare_rules r work ((b, bwork) # bs) vwork =
     (let cwork = 1 + (if same_call r b then work + bwork else 0) in
      if cwork > 1000000 - vwork then fail Capacity ''protocol validation work limit''
      else let vwork = vwork + cwork in
        if same_call r b \<and>
           (fr_entry_lanes r \<noteq> fr_entry_lanes b \<or> \<not> actions_equal (fr_call_actions r) (fr_call_actions b) \<or>
            \<not> guard_equal (fr_call_guard r) (fr_call_guard b))
        then fail ProtocolViolation ''ambiguous shared call obligations''
        else if same_call r b \<and> fr_sync r = fr_sync b \<and> fr_returned r = fr_returned b \<and>
           \<not> guard_disjoint (fr_guard r) (fr_guard b) \<and>
           (fr_priority r = None \<or> fr_priority b = None \<or> fr_priority r = fr_priority b)
        then fail ProtocolViolation ''ambiguous exchange guard/priority''
        else compare_rules r work bs vwork)"

text \<open>The checks of one rule: its own work and the accumulated work.\<close>

definition check_rule ::
  "protocol_package \<Rightarrow> (finite_rule \<times> nat) list \<Rightarrow> finite_rule \<Rightarrow> nat \<Rightarrow> (nat \<times> nat) expected" where
  "check_rule p prev r vwork =
     (let nstates = length (pk_states p); nphases = length (pk_phases p); nlanes = length (pk_lanes p) in
      if unat (fr_pre r) \<ge> nstates \<or> unat (fr_post r) \<ge> nstates \<or> fr_pre r \<in> set (pk_terminal p) \<or>
         unat (fr_phase r) \<ge> nphases \<or> pp_flow (pk_phases p ! unat (fr_phase r)) \<noteq> fr_flow r
      then fail ProtocolViolation ''rule state/phase/flow''
      else if (if fr_sync r = Updated then (case fr_returned r of None \<Rightarrow> True | Some x \<Rightarrow> unat x \<ge> nphases)
               else fr_returned r \<noteq> None)
      then fail ProtocolViolation ''meaningful returned phase shape''
      else case check_guard (fr_guard r) 8 1 0 of
        (Inl e, _) \<Rightarrow> Inl e
      | (Inr _, work) \<Rightarrow>
         (case check_guard (fr_call_guard r) 4 1 work of
            (Inl e, _) \<Rightarrow> Inl e
          | (Inr _, work) \<Rightarrow>
             (let work = work + length (fr_call_actions r) + length (fr_return_actions r) + 1 in
              if work > 1000000 - vwork then fail Capacity ''protocol validation work limit''
              else let vwork = vwork + work in
                if (\<exists>l \<in> set (fr_entry_lanes r). unat l \<ge> nlanes) \<or> \<not> distinct (fr_entry_lanes r)
                then fail InvalidArgument ''entry lane''
                else if length (fr_call_actions r) > 128 then fail Capacity ''protocol action limit''
                else case check_actions nlanes True (fr_call_actions r) [] False of
                  Inl e \<Rightarrow> Inl e
                | Inr (seen, close) \<Rightarrow>
                   (if length (fr_return_actions r) > 128 then fail Capacity ''protocol action limit''
                    else case check_actions nlanes False (fr_return_actions r) seen close of
                      Inl e \<Rightarrow> Inl e
                    | Inr (_, close) \<Rightarrow>
                       (if close \<noteq> (fr_post r \<in> set (pk_terminal p))
                        then fail ProtocolViolation ''terminal requires exactly one CloseHop''
                        else case compare_rules r work prev vwork of
                          Inl e \<Rightarrow> Inl e
                        | Inr vwork \<Rightarrow> Inr (work, vwork))))))"

fun check_rules ::
  "protocol_package \<Rightarrow> (finite_rule \<times> nat) list \<Rightarrow> finite_rule list \<Rightarrow> nat \<Rightarrow> unit expected" where
  "check_rules p prev [] vwork = Inr ()"
| "check_rules p prev (r # rs) vwork =
     (case check_rule p prev r vwork of
        Inl e \<Rightarrow> Inl e
      | Inr (work, vwork) \<Rightarrow> check_rules p (prev @ [(r, work)]) rs vwork)"

definition validate_protocol_package :: "protocol_package \<Rightarrow> unit expected" where
  "validate_protocol_package p =
     (if pk_name p = [] \<or> pk_version p = [] \<or> pk_states p = [] \<or> pk_phases p = [] \<or> pk_rules p = [] \<or> pk_terminal p = []
      then fail InvalidArgument ''protocol identity/finite table missing''
      else if length (pk_states p) > 256 \<or> length (pk_phases p) > 256 \<or> length (pk_rules p) > 4096 \<or> length (pk_lanes p) > 32
      then fail Capacity ''protocol table limit''
      else if unat (pk_initial p) \<ge> length (pk_states p) then fail InvalidArgument ''initial state''
      else if [] \<in> set (pk_states p) \<or> \<not> distinct (pk_states p) then fail Duplicate ''state key''
      else if [] \<in> set (map pp_name (pk_phases p)) \<or> \<not> distinct (map pp_name (pk_phases p))
      then fail Duplicate ''phase key''
      else if (\<exists>t \<in> set (pk_terminal p). unat t \<ge> length (pk_states p)) \<or> \<not> distinct (pk_terminal p)
      then fail InvalidArgument ''terminal state''
      else if 0 \<in> set (pk_lanes p) then fail InvalidArgument ''zero lane capacity''
      else check_rules p [] (pk_rules p) 0)"

section \<open>Actions\<close>

text \<open>The lane registry: the owners of each lane of each connection.\<close>

type_synonym lane_registry = "((connection_id \<times> u32) \<times> handle list) list"

definition lane_owners :: "lane_registry \<Rightarrow> connection_id \<times> u32 \<Rightarrow> handle list" where
  "lane_owners ls k = (case map_of ls k of Some hs \<Rightarrow> hs | None \<Rightarrow> [])"

definition set_lane :: "connection_id \<times> u32 \<Rightarrow> handle list \<Rightarrow> lane_registry \<Rightarrow> lane_registry" where
  "set_lane k hs ls = (k, hs) # filter (\<lambda>x. fst x \<noteq> k) ls"

definition response_of_call :: "wire_call \<Rightarrow> response_snapshot" where
  "response_of_call c = (let q = wc_request c in
     \<lparr>rs_status = pl_status q, rs_data = pl_data q, rs_dmi_hint = pl_dmi_hint q, rs_extensions = pl_extensions q\<rparr>)"

record action_state =
  as_state :: wire_state
  as_lanes :: lane_registry
  as_milestones :: "protocol_milestone list"

definition push_milestone :: "milestone_kind \<Rightarrow> tick \<Rightarrow> bool \<Rightarrow> response_snapshot option \<Rightarrow> action_state \<Rightarrow> action_state" where
  "push_milestone k tm imp rsp a =
     a\<lparr>as_milestones := as_milestones a @ [\<lparr>pm_kind = k, pm_time = tm, pm_implicit = imp, pm_response = rsp\<rparr>]\<rparr>"

definition finite_action ::
  "u32 list \<Rightarrow> handle \<Rightarrow> wire_call \<Rightarrow> wire_return option \<Rightarrow> tick \<Rightarrow> protocol_action \<Rightarrow> action_state \<Rightarrow>
     action_state expected" where
  "finite_action caps hop c ret tm act a =
     (let key = (wc_connection c, pa_lane act); owners = lane_owners (as_lanes a) key in
      case pa_kind act of
        OpenHop \<Rightarrow> Inr (a\<lparr>as_state := WS_Request\<rparr>)
      | AcquireLane \<Rightarrow>
          (if hop \<in> set owners \<or> length owners \<ge> unat (caps ! unat (pa_lane act))
           then fail ProtocolViolation ''finite lane unavailable/duplicate acquire''
           else Inr (a\<lparr>as_lanes := set_lane key (hop # owners) (as_lanes a)\<rparr>))
      | ReleaseLane \<Rightarrow>
          (if hop \<notin> set owners then fail ProtocolViolation ''finite lane owner mismatch''
           else let rest = filter (\<lambda>h. h \<noteq> hop) owners in
             Inr (a\<lparr>as_lanes := (if rest = [] then filter (\<lambda>x. fst x \<noteq> key) (as_lanes a)
                    else set_lane key rest (as_lanes a))\<rparr>))
      | RequestReleased \<Rightarrow>
          Inr ((push_milestone MK_RequestReleased tm (ret \<noteq> None) None a)\<lparr>as_state := WS_RequestReleased\<rparr>)
      | ResponseReady \<Rightarrow>
          (case (case ret of
                   Some r \<Rightarrow> (if wr_sync r = Accepted then fail ProtocolViolation ''ACCEPTED return fields unavailable''
                            else Inr (wr_response r))
                 | None \<Rightarrow> Inr (Some (response_of_call c))) of
             Inl e \<Rightarrow> Inl e
           | Inr rsp \<Rightarrow>
              (if (case rsp of None \<Rightarrow> True | Some s \<Rightarrow> rs_status s = Incomplete)
               then fail ProtocolViolation ''finite response snapshot unavailable''
               else Inr ((push_milestone MK_ResponseReady tm (ret \<noteq> None) rsp a)\<lparr>as_state := WS_Response\<rparr>)))
      | CloseHop \<Rightarrow> Inr ((push_milestone MK_Terminal tm False None a)\<lparr>as_state := WS_Terminal\<rparr>)
      | TraceTag \<Rightarrow> Inr a)"

fun finite_action_loop ::
  "u32 list \<Rightarrow> handle \<Rightarrow> wire_call \<Rightarrow> wire_return option \<Rightarrow> tick \<Rightarrow> protocol_action list \<Rightarrow> action_state \<Rightarrow>
     action_state expected" where
  "finite_action_loop caps hop c ret tm [] a = Inr a"
| "finite_action_loop caps hop c ret tm (x # xs) a =
     (case finite_action caps hop c ret tm x a of
        Inl e \<Rightarrow> Inl e
      | Inr a \<Rightarrow> finite_action_loop caps hop c ret tm xs a)"

definition finite_actions ::
  "u32 list \<Rightarrow> handle \<Rightarrow> wire_call \<Rightarrow> wire_return option \<Rightarrow> tick \<Rightarrow> protocol_action list \<Rightarrow> action_state \<Rightarrow>
     action_state expected" where
  "finite_actions caps hop c ret tm acts a =
     (case finite_action_loop caps hop c ret tm acts a of
        Inl e \<Rightarrow> Inl e
      | Inr a' \<Rightarrow>
         (let close = (\<exists>x \<in> set acts. pa_kind x = CloseHop) in
          if close \<and> as_state a' \<noteq> WS_Terminal then fail ProtocolViolation ''lifecycle action after CloseHop''
          else if close \<and> (\<exists>x \<in> set (as_lanes a'). fst (fst x) = wc_connection c \<and> hop \<in> set (snd x))
          then fail ProtocolViolation ''CloseHop leaks finite lane''
          else Inr a'))"

text \<open>The choice of the return rule: the first of the least priority among those that match.\<close>

definition rule_priority :: "finite_rule \<Rightarrow> int" where
  "rule_priority r = (case fr_priority r of Some n \<Rightarrow> n | None \<Rightarrow> 0)"

definition return_match :: "finite_rule \<Rightarrow> wire_call \<Rightarrow> wire_return \<Rightarrow> finite_rule \<Rightarrow> bool" where
  "return_match orig c r rule \<longleftrightarrow> fr_pre rule = fr_pre orig \<and> fr_flow rule = wc_flow c \<and> fr_phase rule = wc_phase c \<and>
     fr_sync rule = wr_sync r \<and> (wr_sync r = Updated \<longrightarrow> fr_returned rule = wr_phase r) \<and>
     eval_guard (fr_guard rule) c (Some r)"

definition pick_rule :: "(finite_rule \<Rightarrow> bool) \<Rightarrow> finite_rule list \<Rightarrow> finite_rule option" where
  "pick_rule P rs = foldl (\<lambda>winner rule.
     if \<not> P rule then winner
     else case winner of
       None \<Rightarrow> Some rule
     | Some x \<Rightarrow> if rule_priority rule < rule_priority x then Some rule else winner) None rs"

section \<open>The choice of a rule\<close>

lemma guard_equal_eq: "guard_equal a b \<longleftrightarrow> a = b"
  and guards_equal_eq: "length as = length bs \<Longrightarrow> guards_equal as bs \<longleftrightarrow> as = bs"
  by (induction a b and as bs rule: guard_equal_guards_equal.induct) auto

lemma eval_FieldEq: "eval_guard (Guard G_FieldEq f v gs) c r \<Longrightarrow> guard_field f c r = Some v"
  by (auto split: if_splits)

text \<open>Guards that the validation takes for disjoint never hold together.\<close>

lemma guard_disjoint_sound:
  assumes "guard_disjoint a b" and "eval_guard a c r"
  shows "\<not> eval_guard b c r"
proof -
  obtain k f v gs where a: "a = Guard k f v gs" by (cases a)
  obtain k' f' v' gs' where b: "b = Guard k' f' v' gs'" by (cases b)
  show ?thesis
  proof (cases "k = G_FieldEq \<and> k' = G_FieldEq")
    case True
    then have "f = f'" "v \<noteq> v'" using assms(1) by (auto simp: guard_disjoint_def a b)
    with True assms(2) show ?thesis unfolding a b by (auto simp del: eval_guard.simps dest!: eval_FieldEq)
  next
    case False
    then consider x xs where "k = G_Not" "gs = x # xs" "x = b" | x xs where "k' = G_Not" "gs' = x # xs" "a = x"
      using assms(1) by (auto simp: guard_disjoint_def a b guard_equal_eq split: if_splits list.splits)
    then show ?thesis
    proof cases
      case (1 x xs)
      with assms(2) show ?thesis by (simp add: a split: if_splits)
    next
      case (2 x xs)
      with assms(2) show ?thesis by (auto simp: b simp del: eval_guard.simps) (simp split: if_splits)
    qed
  qed
qed

definition rules_compatible :: "finite_rule \<Rightarrow> finite_rule \<Rightarrow> bool" where
  "rules_compatible b r \<longleftrightarrow> (same_call r b \<and> fr_sync r = fr_sync b \<and> fr_returned r = fr_returned b \<longrightarrow>
     guard_disjoint (fr_guard r) (fr_guard b) \<or>
     fr_priority r \<noteq> None \<and> fr_priority b \<noteq> None \<and> fr_priority r \<noteq> fr_priority b)"

definition rule_shape :: "finite_rule \<Rightarrow> bool" where
  "rule_shape r \<longleftrightarrow> (fr_sync r \<noteq> Updated \<longrightarrow> fr_returned r = None)"

lemma compare_rules_ok:
  "compare_rules r work bs vwork = Inr v \<Longrightarrow> \<forall>b \<in> set bs. rules_compatible (fst b) r"
  by (induction r work bs vwork rule: compare_rules.induct)
    (auto simp: Let_def rules_compatible_def split: if_splits)

lemma check_rule_ok:
  assumes "check_rule p prev r vwork = Inr x"
  shows "rule_shape r \<and> (\<forall>b \<in> set prev. rules_compatible (fst b) r)"
proof -
  from assms obtain work v where "compare_rules r work prev v = Inr (snd x)"
    by (auto simp: check_rule_def Let_def split: if_splits sum.splits prod.splits)
  moreover have "rule_shape r" using assms by (auto simp: check_rule_def Let_def rule_shape_def split: if_splits)
  ultimately show ?thesis using compare_rules_ok by blast
qed

lemma check_rules_ok:
  "check_rules p prev rs vwork = Inr u \<Longrightarrow> sorted_wrt rules_compatible (map fst prev) \<Longrightarrow>
   sorted_wrt rules_compatible (map fst prev @ rs) \<and> (\<forall>r \<in> set rs. rule_shape r)"
proof (induction p prev rs vwork rule: check_rules.induct)
  case (2 p prev r rs vwork)
  then obtain work v where c: "check_rule p prev r vwork = Inr (work, v)"
    and rec: "check_rules p (prev @ [(r, work)]) rs v = Inr u"
    by (auto split: sum.splits)
  note ok = check_rule_ok [OF c]
  have "sorted_wrt rules_compatible (map fst (prev @ [(r, work)]))"
    using "2.prems"(2) ok by (auto simp: sorted_wrt_append)
  from "2.IH" [OF c refl rec this] ok show ?case by simp
qed simp

lemma validated_rules:
  assumes "validate_protocol_package p = Inr u"
  shows "sorted_wrt rules_compatible (pk_rules p)" "\<forall>r \<in> set (pk_rules p). rule_shape r"
proof -
  have "check_rules p [] (pk_rules p) 0 = Inr u"
    using assms by (auto simp: validate_protocol_package_def split: if_splits)
  from check_rules_ok [OF this] show "sorted_wrt rules_compatible (pk_rules p)" "\<forall>r \<in> set (pk_rules p). rule_shape r"
    by simp_all
qed

text \<open>\<open>pick_rule\<close> gives a matching rule of least priority, and one whenever a rule matches.\<close>

lemma pick_rule_snoc:
  "pick_rule P (rs @ [x]) = (if \<not> P x then pick_rule P rs
     else case pick_rule P rs of None \<Rightarrow> Some x
       | Some y \<Rightarrow> if rule_priority x < rule_priority y then Some x else Some y)"
  by (simp add: pick_rule_def split: option.splits)

lemma pick_rule_least:
  "pick_rule P rs = None \<longleftrightarrow> (\<forall>x \<in> set rs. \<not> P x)"
  "pick_rule P rs = Some y \<Longrightarrow> y \<in> set rs \<and> P y \<and> (\<forall>x \<in> set rs. P x \<longrightarrow> rule_priority y \<le> rule_priority x)"
proof (induction rs arbitrary: y rule: rev_induct)
  case Nil
  { case 1 show ?case by (simp add: pick_rule_def) }
  { case 2 then show ?case by (simp add: pick_rule_def) }
next
  case (snoc x rs)
  { case 1 show ?case using snoc(1) by (auto simp: pick_rule_snoc split: option.splits) }
  { case 2 then show ?case using snoc(1,2) by (fastforce simp: pick_rule_snoc split: option.splits if_splits) }
qed

text \<open>Two rules that match the same exchange have different priorities.\<close>

definition priorities_distinct :: "(finite_rule \<Rightarrow> bool) \<Rightarrow> finite_rule list \<Rightarrow> bool" where
  "priorities_distinct P rs \<longleftrightarrow> (\<forall>x \<in> set rs. \<forall>y \<in> set rs. P x \<and> P y \<and> x \<noteq> y \<longrightarrow> rule_priority x \<noteq> rule_priority y)"

lemma matching_compatible:
  assumes "rules_compatible b a" and "return_match orig c r a" and "return_match orig c r b"
    and "rule_shape a" and "rule_shape b"
  shows "rule_priority a \<noteq> rule_priority b"
proof -
  have "same_call a b \<and> fr_sync a = fr_sync b \<and> fr_returned a = fr_returned b"
    using assms(2-5) by (cases "wr_sync r = Updated") (auto simp: return_match_def same_call_def rule_shape_def)
  moreover have "\<not> guard_disjoint (fr_guard a) (fr_guard b)"
    using guard_disjoint_sound assms(2,3) by (auto simp: return_match_def)
  ultimately show ?thesis using assms(1) by (auto simp: rules_compatible_def rule_priority_def)
qed

lemma validated_priorities:
  assumes "validate_protocol_package p = Inr u"
  shows "priorities_distinct (return_match orig c r) (pk_rules p)"
  unfolding priorities_distinct_def
proof (intro ballI impI)
  fix x y
  assume "x \<in> set (pk_rules p)" "y \<in> set (pk_rules p)"
    and m: "return_match orig c r x \<and> return_match orig c r y \<and> x \<noteq> y"
  then obtain i j where ij: "i < length (pk_rules p)" "j < length (pk_rules p)" "pk_rules p ! i = x" "pk_rules p ! j = y"
    by (metis in_set_conv_nth)
  then have "i < j \<or> j < i" using m by (metis nat_neq_iff)
  then have "rules_compatible x y \<or> rules_compatible y x"
    using validated_rules(1) [OF assms] ij by (auto simp: sorted_wrt_iff_nth_less)
  moreover have "rule_shape x" "rule_shape y"
    using validated_rules(2) [OF assms] \<open>x \<in> set (pk_rules p)\<close> \<open>y \<in> set (pk_rules p)\<close> by simp_all
  ultimately show "rule_priority x \<noteq> rule_priority y" using matching_compatible m by metis
qed

text \<open>
  Claim C15. For a package that passes validation, the return rule that the engine chooses for
  an exchange is determined: it is the matching rule of strictly least priority, and any other
  order of the rule table gives the same choice.
\<close>

theorem finite_choice_deterministic:
  assumes "validate_protocol_package p = Inr u" and "set rs = set (pk_rules p)"
  shows "pick_rule (return_match orig c r) rs = pick_rule (return_match orig c r) (pk_rules p) \<and>
    (case pick_rule (return_match orig c r) rs of
       None \<Rightarrow> \<forall>x \<in> set (pk_rules p). \<not> return_match orig c r x
     | Some y \<Rightarrow> y \<in> set (pk_rules p) \<and> return_match orig c r y \<and>
         (\<forall>x \<in> set (pk_rules p). return_match orig c r x \<and> x \<noteq> y \<longrightarrow> rule_priority y < rule_priority x))"
proof -
  let ?P = "return_match orig c r"
  have strict: "rule_priority y < rule_priority x"
    if "pick_rule ?P qs = Some y" "set qs = set (pk_rules p)" "x \<in> set (pk_rules p)" "?P x" "x \<noteq> y" for qs x y
  proof -
    have y: "y \<in> set (pk_rules p)" "?P y" "rule_priority y \<le> rule_priority x"
      using pick_rule_least(2) [OF that(1)] that(2-4) by auto
    moreover have "rule_priority x \<noteq> rule_priority y"
      using validated_priorities [OF assms(1)] that(3-5) y(1,2) by (auto simp: priorities_distinct_def)
    ultimately show ?thesis by simp
  qed
  show ?thesis
  proof (cases "pick_rule ?P rs")
    case None
    then have "\<forall>x \<in> set (pk_rules p). \<not> ?P x" using pick_rule_least(1) assms(2) by metis
    with None show ?thesis using pick_rule_least(1) [of ?P "pk_rules p"] by simp
  next
    case (Some y)
    note y = pick_rule_least(2) [OF Some]
    then obtain z where z: "pick_rule ?P (pk_rules p) = Some z"
      using pick_rule_least(1) [of ?P "pk_rules p"] assms(2) by fastforce
    note zz = pick_rule_least(2) [OF z]
    have "y = z"
    proof (rule ccontr)
      assume "y \<noteq> z"
      with strict [OF Some assms(2), of z] strict [OF z refl, of y] y zz assms(2) show False by auto
    qed
    with Some z y strict [OF Some assms(2)] assms(2) show ?thesis by auto
  qed
qed

definition demo_rule :: "int \<Rightarrow> finite_rule" where
  "demo_rule n = \<lparr>fr_pre = 0, fr_flow = Forward, fr_phase = 0, fr_sync = Completed, fr_returned = None,
     fr_guard = Guard G_Always 0 0 [], fr_priority = Some n, fr_entry_lanes = [0],
     fr_call_actions = [\<lparr>pa_kind = OpenHop, pa_lane = 0, pa_tag = []\<rparr>, \<lparr>pa_kind = AcquireLane, pa_lane = 0, pa_tag = []\<rparr>],
     fr_return_actions = [\<lparr>pa_kind = ReleaseLane, pa_lane = 0, pa_tag = []\<rparr>, \<lparr>pa_kind = CloseHop, pa_lane = 0, pa_tag = []\<rparr>],
     fr_post = 1, fr_call_guard = Guard G_Always 0 0 []\<rparr>"

definition demo_package :: protocol_package where
  "demo_package = \<lparr>pk_name = ''p'', pk_version = ''1'', pk_phases = [\<lparr>pp_name = ''req'', pp_flow = Forward\<rparr>],
     pk_states = [''s'', ''t''], pk_initial = 0, pk_terminal = [1], pk_lanes = [1], pk_rules = [demo_rule 2, demo_rule 1]\<rparr>"

definition demo_finite_call :: wire_call where
  "demo_finite_call = \<lparr>wc_id = 3, wc_connection = 7, wc_transport = 11, wc_flow = Forward, wc_phase = 0, wc_call_time = 100,
     wc_incoming_delay = 5, wc_request = \<lparr>pl_command = Write, pl_address = 64, pl_data = [1, 2], pl_streaming_width = 2,
       pl_byte_enable = [], pl_status = Incomplete, pl_dmi_hint = False, pl_extensions = []\<rparr>\<rparr>"

definition demo_completed :: wire_return where
  "demo_completed = \<lparr>wr_sync = Completed, wr_phase = None, wr_outgoing_delay = 20, wr_response = None\<rparr>"

lemma demo_package_valid: "validate_protocol_package demo_package = Inr ()"
  by (simp add: validate_protocol_package_def demo_package_def demo_rule_def check_rule_def Let_def lane_action_def
    same_call_def actions_equal_def)

theorem finite_choice_deterministic_witness:
  "pick_rule (return_match (demo_rule 2) demo_finite_call demo_completed) [demo_rule 1, demo_rule 2] = Some (demo_rule 1) \<and>
   pick_rule (return_match (demo_rule 2) demo_finite_call demo_completed) (pk_rules demo_package) = Some (demo_rule 1)"
proof -
  have "pick_rule (return_match (demo_rule 2) demo_finite_call demo_completed) [demo_rule 1, demo_rule 2] = Some (demo_rule 1)"
    by (simp add: pick_rule_def return_match_def demo_rule_def demo_finite_call_def demo_completed_def rule_priority_def)
  moreover have "set [demo_rule 1, demo_rule 2] = set (pk_rules demo_package)" by (auto simp: demo_package_def)
  ultimately show ?thesis using finite_choice_deterministic [OF demo_package_valid, of "[demo_rule 1, demo_rule 2]"] by metis
qed

end
