(* ===== verification/Protocol.thy ===== *)
theory Protocol
  imports Protocol_Finite
begin

text \<open>
  The protocol engine of \<open>runtime/include/leanat/protocol.hpp\<close> and \<open>runtime/src/protocol.cpp\<close>: the
  wire ledgers of one side of its connections, calls in progress with their tickets, the
  request and response lanes of the base protocol, extension rules, ignorable phases and
  finite packages.

  A \<open>std::map\<close> keyed by handles is an association list, a \<open>std::set\<close> of call ids a list; no
  result of the engine depends on their order. \<open>std::map::at\<close> throws when the key is missing;
  \<open>ledger_at\<close> is total, and the invariant of the engine shows that the key is there. The
  enumeration \<open>Sync\<close> has three values, so the branch for another value is left out.
\<close>

section \<open>Data\<close>

record ledger_identity =
  li_domain :: domain_id
  li_local_side :: instance_id
  li_connection :: connection_id
  li_transport :: transport_id
  li_transport_generation :: u64

record wire_snapshot =
  ws_identity :: ledger_identity
  ws_state :: wire_state
  ws_last_timing :: tick
  ws_faulted :: bool
  ws_pending :: bool
  ws_call_ordinal :: u64
  ws_protocol_state :: u32

record exchange_result =
  xr_call_id :: call_id
  xr_hop :: handle
  xr_next_state :: wire_state
  xr_milestones :: "protocol_milestone list"
  xr_trace_tags :: "string list"
  xr_needs_ack :: bool
  xr_wire_terminal :: bool
  xr_ignored :: bool
  xr_authentic :: bool
  xr_proof_terminal :: bool
  xr_proof_hop :: handle
  xr_proof_time :: tick

record protocol_drain_plan =
  dp_hop :: handle
  dp_wait_request_release :: bool
  dp_wait_response :: bool
  dp_send_end_response :: bool
  dp_terminal :: bool

record call_failure_record =
  cf_call :: wire_call
  cf_returned :: "wire_return option"
  cf_error :: error

record protocol_rule =
  pr_predecessor :: wire_state
  pr_flow :: flow
  pr_phase :: phase_id
  pr_sync :: sync
  pr_returned_phase :: "phase_id option"
  pr_next_state :: wire_state
  pr_response_required :: bool

record ledger =
  ld_snapshot :: wire_snapshot
  ld_handle :: handle
  ld_calls :: "call_id list"
  ld_ack :: "versioned_cell option"
  ld_request_command :: command
  ld_request_length :: nat

record pending_call =
  pd_handle :: handle
  pd_hop :: handle
  pd_call :: wire_call
  pd_pre :: wire_state
  pd_input :: tick
  pd_ignored :: bool
  pd_failed_return :: "wire_return option"
  pd_failure :: "error option"
  pd_finite_rule :: "nat option"
  pd_draft :: "protocol_milestone list"

record protocol_engine =
  pe_domain :: domain_id
  pe_side :: instance_id
  pe_store_id :: u32
  pe_ledger_limit :: nat
  pe_ticket_limit :: nat
  pe_history_limit :: nat
  pe_generation :: u64
  pe_ledgers :: "(handle \<times> ledger) list"
  pe_prepared_bindings :: "(handle \<times> ledger_identity) list"
  pe_prepared_retirements :: "(handle \<times> nat) list"
  pe_pending :: "(handle \<times> pending_call) list"
  pe_requests :: "connection_id \<rightharpoonup> handle"
  pe_responses :: "connection_id \<rightharpoonup> handle"
  pe_rules :: "protocol_rule list"
  pe_ignorable :: "phase_id list"
  pe_package :: "protocol_package option"
  pe_finite_lanes :: lane_registry

record counter_snapshot =
  cs_next_generation :: u64
  cs_ledgers :: nat
  cs_pending_calls :: nat
  cs_prepared_bindings :: nat
  cs_prepared_retirements :: nat
  cs_ledger_capacity :: nat
  cs_ticket_capacity :: nat
  cs_calls_per_ledger :: nat

definition proves_terminal :: "exchange_result \<Rightarrow> handle \<Rightarrow> bool" where
  "proves_terminal x h \<longleftrightarrow> xr_authentic x \<and> xr_proof_terminal x \<and> xr_proof_hop x = h"

definition pe_counters :: "protocol_engine \<Rightarrow> counter_snapshot" where
  "pe_counters e = \<lparr>cs_next_generation = pe_generation e, cs_ledgers = length (pe_ledgers e),
     cs_pending_calls = length (pe_pending e), cs_prepared_bindings = length (pe_prepared_bindings e),
     cs_prepared_retirements = length (pe_prepared_retirements e), cs_ledger_capacity = pe_ledger_limit e,
     cs_ticket_capacity = pe_ticket_limit e, cs_calls_per_ledger = pe_history_limit e\<rparr>"

section \<open>Ledgers\<close>

definition ProtocolEngine_new ::
  "domain_id \<Rightarrow> instance_id \<Rightarrow> nat \<Rightarrow> nat \<Rightarrow> nat \<Rightarrow> nat \<Rightarrow> (protocol_engine \<times> nat) option" where
  "ProtocolEngine_new d s l t h next =
     (case allocate_store_incarnation next of
        None \<Rightarrow> None
      | Some (store, next') \<Rightarrow>
          Some (\<lparr>pe_domain = d, pe_side = s, pe_store_id = store, pe_ledger_limit = l, pe_ticket_limit = t,
                 pe_history_limit = h, pe_generation = 1, pe_ledgers = [], pe_prepared_bindings = [],
                 pe_prepared_retirements = [], pe_pending = [], pe_requests = Map.empty, pe_responses = Map.empty,
                 pe_rules = [], pe_ignorable = [], pe_package = None, pe_finite_lanes = []\<rparr>, next'))"

definition pe_ledger :: "protocol_engine \<Rightarrow> handle \<Rightarrow> ledger expected" where
  "pe_ledger e h =
     (case map_of (pe_ledgers e) h of
        None \<Rightarrow> fail StaleHandle ''unknown local ledger''
      | Some l \<Rightarrow> Inr l)"

definition ledger_at :: "protocol_engine \<Rightarrow> handle \<Rightarrow> ledger" where
  "ledger_at e h = the (map_of (pe_ledgers e) h)"

definition alist_set :: "'k \<Rightarrow> 'v \<Rightarrow> ('k \<times> 'v) list \<Rightarrow> ('k \<times> 'v) list" where
  "alist_set k v xs = map (\<lambda>x. if fst x = k then (k, v) else x) xs"

definition alist_erase :: "'k \<Rightarrow> ('k \<times> 'v) list \<Rightarrow> ('k \<times> 'v) list" where
  "alist_erase k xs = filter (\<lambda>x. fst x \<noteq> k) xs"

definition set_snapshot :: "handle \<Rightarrow> wire_snapshot \<Rightarrow> protocol_engine \<Rightarrow> protocol_engine" where
  "set_snapshot h s e = e\<lparr>pe_ledgers := alist_set h ((ledger_at e h)\<lparr>ld_snapshot := s\<rparr>) (pe_ledgers e)\<rparr>"

definition release_lane :: "connection_id \<Rightarrow> handle \<Rightarrow> (connection_id \<rightharpoonup> handle) \<Rightarrow> (connection_id \<rightharpoonup> handle)" where
  "release_lane c h lanes = (if lanes c = Some h then lanes(c := None) else lanes)"

definition request_lane_free :: "protocol_engine \<Rightarrow> connection_id \<Rightarrow> bool" where
  "request_lane_free e c \<longleftrightarrow> pe_requests e c = None"

definition response_lane_free :: "protocol_engine \<Rightarrow> connection_id \<Rightarrow> bool" where
  "response_lane_free e c \<longleftrightarrow> pe_responses e c = None"

definition base_protocol :: "protocol_engine \<Rightarrow> bool" where
  "base_protocol e \<longleftrightarrow> pe_package e = None"

definition binding_reserved :: "protocol_engine \<Rightarrow> connection_id \<Rightarrow> transport_id \<Rightarrow> bool" where
  "binding_reserved e c t \<longleftrightarrow>
     (\<exists>p \<in> set (pe_prepared_bindings e). li_connection (snd p) = c \<and> li_transport (snd p) = t)"

definition ledger_matches :: "connection_id \<Rightarrow> transport_id \<Rightarrow> ledger \<Rightarrow> bool" where
  "ledger_matches c t l \<longleftrightarrow> li_connection (ws_identity (ld_snapshot l)) = c \<and> li_transport (ws_identity (ld_snapshot l)) = t"

definition transport_bound :: "protocol_engine \<Rightarrow> connection_id \<Rightarrow> transport_id \<Rightarrow> bool" where
  "transport_bound e c t \<longleftrightarrow> (\<exists>p \<in> set (pe_ledgers e). ledger_matches c t (snd p))"

definition new_ledger :: "protocol_engine \<Rightarrow> handle \<Rightarrow> connection_id \<Rightarrow> transport_id \<Rightarrow> u64 \<Rightarrow> ledger" where
  "new_ledger e h c t g =
     \<lparr>ld_snapshot = \<lparr>ws_identity = \<lparr>li_domain = pe_domain e, li_local_side = pe_side e, li_connection = c,
          li_transport = t, li_transport_generation = g\<rparr>, ws_state = WS_Idle, ws_last_timing = 0,
        ws_faulted = False, ws_pending = False, ws_call_ordinal = 0,
        ws_protocol_state = (case pe_package e of Some p \<Rightarrow> pk_initial p | None \<Rightarrow> 0)\<rparr>,
      ld_handle = h, ld_calls = [], ld_ack = None, ld_request_command = Ignore, ld_request_length = 0\<rparr>"

definition pe_create_ledger ::
  "connection_id \<Rightarrow> transport_id \<Rightarrow> u64 \<Rightarrow> u64 \<Rightarrow> protocol_engine \<Rightarrow> handle expected \<times> protocol_engine" where
  "pe_create_ledger c t g owner e =
     (if g = 0 then (fail InvalidArgument ''zero transport generation'', e)
      else if binding_reserved e c t then (fail Duplicate ''transport reserved by pending ledger binding'', e)
      else if transport_bound e c t then (fail Duplicate ''active transport already bound on local connection'', e)
      else if length (pe_ledgers e) + length (pe_prepared_bindings e) \<ge> pe_ledger_limit e
      then (fail Capacity ''ledger capacity'', e)
      else if pe_generation e = UINT64_MAX then (fail Overflow ''ledger generation'', e)
      else let h = \<lparr>h_kind = HK_Hop, h_domain = pe_domain e, h_store = pe_store_id e, h_slot = 0,
                    h_generation = pe_generation e, h_owner = owner\<rparr> in
        (Inr h, e\<lparr>pe_generation := pe_generation e + 1,
                  pe_ledgers := pe_ledgers e @ [(h, new_ledger e h c t g)]\<rparr>))"

definition pe_retire_ledger :: "handle \<Rightarrow> protocol_engine \<Rightarrow> unit expected \<times> protocol_engine" where
  "pe_retire_ledger h e =
     (case pe_ledger e h of
        Inl err \<Rightarrow> (Inl err, e)
      | Inr l \<Rightarrow>
         (let s = ld_snapshot l in
          if ws_pending s \<or> ws_faulted s \<or> ws_state s \<noteq> WS_Terminal
          then (fail InvalidState ''ledger retains external responsibility'', e)
          else (Inr (), e\<lparr>pe_ledgers := alist_erase h (pe_ledgers e)\<rparr>)))"

definition pe_discard_unstarted_ledger :: "handle \<Rightarrow> protocol_engine \<Rightarrow> unit expected \<times> protocol_engine" where
  "pe_discard_unstarted_ledger h e =
     (case pe_ledger e h of
        Inl err \<Rightarrow> (Inl err, e)
      | Inr l \<Rightarrow>
         (let s = ld_snapshot l in
          if ws_pending s \<or> ws_faulted s \<or> ws_call_ordinal s \<noteq> 0 \<or> ws_state s \<noteq> WS_Idle
          then (fail InvalidState ''ledger has real call responsibility'', e)
          else (Inr (), e\<lparr>pe_ledgers := alist_erase h (pe_ledgers e)\<rparr>)))"

definition pe_bind_ledger ::
  "handle \<Rightarrow> connection_id \<Rightarrow> transport_id \<Rightarrow> u64 \<Rightarrow> protocol_engine \<Rightarrow> unit expected \<times> protocol_engine" where
  "pe_bind_ledger h c t g e =
     (if h_kind h \<noteq> HK_Hop \<or> h_domain h \<noteq> pe_domain e \<or> h_generation h = 0 \<or> g = 0
      then (fail WrongOwner ''hop identity cannot bind local ledger'', e)
      else if h_generation h = UINT64_MAX then (fail Overflow ''bound ledger generation exhausted'', e)
      else if map_of (pe_ledgers e) h \<noteq> None \<or> map_of (pe_prepared_bindings e) h \<noteq> None
      then (fail Duplicate ''hop ledger already bound'', e)
      else if transport_bound e c t then (fail Duplicate ''active local transport'', e)
      else if binding_reserved e c t then (fail Duplicate ''transport reserved by pending ledger binding'', e)
      else if length (pe_ledgers e) + length (pe_prepared_bindings e) \<ge> pe_ledger_limit e
      then (fail Capacity ''ledger capacity'', e)
      else (Inr (), e\<lparr>pe_ledgers := pe_ledgers e @ [(h, new_ledger e h c t g)],
              pe_generation := max (pe_generation e) (h_generation h + 1)\<rparr>))"

definition pe_allow_ignorable :: "phase_id \<Rightarrow> protocol_engine \<Rightarrow> unit expected \<times> protocol_engine" where
  "pe_allow_ignorable p e =
     (if pe_package e \<noteq> None then (fail Unsupported ''standalone phases cannot use base ignorable policy'', e)
      else if p \<le> 4 then (fail InvalidArgument ''base/uninitialized cannot be ignorable'', e)
      else (Inr (), e\<lparr>pe_ignorable := List.insert p (pe_ignorable e)\<rparr>))"

section \<open>Rules and packages\<close>

definition rules_overlap :: "protocol_rule \<Rightarrow> protocol_rule \<Rightarrow> bool" where
  "rules_overlap a b \<longleftrightarrow> pr_predecessor a = pr_predecessor b \<and> pr_flow a = pr_flow b \<and> pr_phase a = pr_phase b \<and>
     pr_sync a = pr_sync b \<and> (pr_sync a \<noteq> Updated \<or> pr_returned_phase a = pr_returned_phase b)"

definition check_extension_rule :: "protocol_rule list \<Rightarrow> protocol_rule \<Rightarrow> unit expected" where
  "check_extension_rule prev a =
     (if pr_predecessor a \<noteq> WS_Idle \<or> pr_next_state a \<noteq> WS_Idle \<and> pr_next_state a \<noteq> WS_Terminal
      then fail Unsupported ''stateful custom protocols require install_package''
      else if pr_response_required a \<and> pr_sync a = Accepted
      then fail ProtocolViolation ''ACCEPTED cannot require returned response''
      else if pr_phase a \<le> 4 then fail ProtocolViolation ''cannot override base phase''
      else if pr_sync a = Updated \<and> pr_returned_phase a = None then fail InvalidArgument ''UPDATED phase required''
      else if \<exists>b \<in> set prev. rules_overlap a b then fail Duplicate ''overlapping finite rules''
      else Inr ())"

fun check_extension_rules :: "protocol_rule list \<Rightarrow> protocol_rule list \<Rightarrow> unit expected" where
  "check_extension_rules prev [] = Inr ()"
| "check_extension_rules prev (a # as) =
     (case check_extension_rule prev a of
        Inl err \<Rightarrow> Inl err
      | Inr _ \<Rightarrow> check_extension_rules (prev @ [a]) as)"

definition pe_install_rules :: "protocol_rule list \<Rightarrow> protocol_engine \<Rightarrow> unit expected \<times> protocol_engine" where
  "pe_install_rules rs e =
     (if pe_ledgers e \<noteq> [] \<or> pe_prepared_bindings e \<noteq> []
      then (fail InvalidState ''rules frozen while ledgers exist'', e)
      else case check_extension_rules [] rs of
        Inl err \<Rightarrow> (Inl err, e)
      | Inr _ \<Rightarrow> (Inr (), e\<lparr>pe_rules := rs, pe_package := None, pe_finite_lanes := []\<rparr>))"

definition pe_install_package :: "protocol_package \<Rightarrow> protocol_engine \<Rightarrow> unit expected \<times> protocol_engine" where
  "pe_install_package p e =
     (if pe_ledgers e \<noteq> [] \<or> pe_prepared_bindings e \<noteq> []
      then (fail InvalidState ''protocol frozen after ledger creation'', e)
      else case validate_protocol_package p of
        Inl err \<Rightarrow> (Inl err, e)
      | Inr _ \<Rightarrow> (Inr (), e\<lparr>pe_package := Some p, pe_rules := [], pe_ignorable := []\<rparr>))"

section \<open>Beginning a call\<close>

definition matching_ledgers :: "protocol_engine \<Rightarrow> connection_id \<Rightarrow> transport_id \<Rightarrow> handle list" where
  "matching_ledgers e c t = map fst (filter (\<lambda>p. ledger_matches c t (snd p)) (pe_ledgers e))"

definition pe_find_ledger :: "protocol_engine \<Rightarrow> connection_id \<Rightarrow> transport_id \<Rightarrow> handle expected" where
  "pe_find_ledger e c t =
     (case matching_ledgers e c t of
        [] \<Rightarrow> fail StaleHandle ''unregistered local transport''
      | [h] \<Rightarrow> Inr h
      | _ \<Rightarrow> fail InvalidState ''ambiguous local transport ledger'')"

text \<open>What the call rules of the three kinds of protocol yield.\<close>

record call_plan =
  cp_next :: wire_state
  cp_finite_rule :: "nat option"
  cp_draft :: "protocol_milestone list"
  cp_lanes :: lane_registry

definition entry_blocked :: "protocol_package \<Rightarrow> lane_registry \<Rightarrow> connection_id \<Rightarrow> handle \<Rightarrow> u32 \<Rightarrow> bool" where
  "entry_blocked p lanes c h lane \<longleftrightarrow>
     (case map_of lanes (c, lane) of
        None \<Rightarrow> False
      | Some hs \<Rightarrow> length hs \<ge> unat (pk_lanes p ! unat lane) \<or> h \<in> set hs)"

definition plan_finite ::
  "protocol_package \<Rightarrow> lane_registry \<Rightarrow> wire_snapshot \<Rightarrow> handle \<Rightarrow> wire_call \<Rightarrow> tick \<Rightarrow> call_plan expected" where
  "plan_finite p lanes s h c input =
     (case find (\<lambda>i. let r = pk_rules p ! i in fr_pre r = ws_protocol_state s \<and> fr_flow r = wc_flow c \<and>
             fr_phase r = wc_phase c \<and> eval_guard (fr_call_guard r) c None) [0..<length (pk_rules p)] of
        None \<Rightarrow> fail ProtocolViolation ''no finite call rule''
      | Some i \<Rightarrow>
         (let r = pk_rules p ! i in
          if \<exists>l \<in> set (fr_entry_lanes r). entry_blocked p lanes (wc_connection c) h l
          then fail ProtocolViolation ''finite entry lane unavailable''
          else case finite_actions (pk_lanes p) h c None input (fr_call_actions r)
                 \<lparr>as_state = ws_state s, as_lanes = lanes, as_milestones = []\<rparr> of
            Inl err \<Rightarrow> Inl err
          | Inr a \<Rightarrow> Inr \<lparr>cp_next = as_state a, cp_finite_rule = Some i, cp_draft = as_milestones a,
                        cp_lanes = as_lanes a\<rparr>))"

definition plan_base :: "protocol_engine \<Rightarrow> ledger \<Rightarrow> wire_call \<Rightarrow> wire_state expected" where
  "plan_base e l c =
     (let pre = ws_state (ld_snapshot l) in
      if wc_phase c = begin_req then
        (if wc_flow c \<noteq> Forward \<or> pre \<noteq> WS_Idle \<or> \<not> request_lane_free e (wc_connection c)
         then fail ProtocolViolation ''BEGIN_REQ predecessor/direction/request lane'' else Inr WS_Request)
      else if wc_phase c = end_req then
        (if wc_flow c \<noteq> Backward \<or> pre \<noteq> WS_Request
         then fail ProtocolViolation ''END_REQ predecessor/direction'' else Inr WS_RequestReleased)
      else if wc_phase c = begin_resp then
        (if wc_flow c \<noteq> Backward \<or> pre \<noteq> WS_Request \<and> pre \<noteq> WS_RequestReleased \<or>
            \<not> response_lane_free e (wc_connection c) \<or> pl_status (wc_request c) = Incomplete
         then fail ProtocolViolation ''BEGIN_RESP predecessor/lane/response''
         else if ld_request_command l = Read \<and> pl_status (wc_request c) = Ok \<and>
            length (pl_data (wc_request c)) \<noteq> ld_request_length l
         then fail ProtocolViolation ''BEGIN_RESP incomplete READ data'' else Inr WS_Response)
      else if wc_phase c = end_resp then
        (if wc_flow c \<noteq> Forward \<or> pre \<noteq> WS_Response
         then fail ProtocolViolation ''END_RESP predecessor/direction'' else Inr WS_Terminal)
      else if \<exists>r \<in> set (pe_rules e). pr_predecessor r = pre \<and> pr_flow r = wc_flow c \<and> pr_phase r = wc_phase c
      then Inr pre
      else fail ProtocolViolation ''mandatory/uninitialized phase or missing call rule'')"

definition call_ignored :: "protocol_engine \<Rightarrow> wire_call \<Rightarrow> bool" where
  "call_ignored e c \<longleftrightarrow> pe_package e = None \<and> wc_phase c \<in> set (pe_ignorable e)"

text \<open>The checks of \<open>begin_call\<close>, in order: nothing has changed when one of them fails.\<close>

definition begin_check :: "handle \<Rightarrow> wire_call \<Rightarrow> protocol_engine \<Rightarrow> (tick \<times> call_plan) expected" where
  "begin_check h c e =
     (case pe_ledger e h of
        Inl err \<Rightarrow> Inl err
      | Inr l \<Rightarrow>
         (let s = ld_snapshot l in
          if li_connection (ws_identity s) \<noteq> wc_connection c \<or> li_transport (ws_identity s) \<noteq> wc_transport c
          then fail WrongOwner ''call identity mismatch''
          else if ws_faulted s \<or> ws_pending s then fail InvalidState ''faulted or call in progress''
          else if \<exists>p \<in> set (pe_pending e). wc_connection (pd_call (snd p)) = wc_connection c \<and>
             wc_flow (pd_call (snd p)) \<noteq> wc_flow c
          then fail ProtocolViolation ''reverse reentrancy on local connection''
          else if wc_id c \<in> set (ld_calls l) then fail Duplicate ''duplicate call id''
          else if length (pe_pending e) \<ge> pe_ticket_limit e \<or> length (ld_calls l) \<ge> pe_history_limit e
          then fail Capacity ''call record capacity''
          else case add_time (wc_call_time c) (wc_incoming_delay c) of
            Inl err \<Rightarrow> Inl err
          | Inr input \<Rightarrow>
             (if input < ws_last_timing s then fail TimeRegression ''input timing regression''
              else case (case pe_package e of
                           Some p \<Rightarrow> plan_finite p (pe_finite_lanes e) s h c input
                         | None \<Rightarrow>
                            (case (if call_ignored e c then Inr (ws_state s) else plan_base e l c) of
                               Inl err \<Rightarrow> Inl err
                             | Inr next \<Rightarrow> Inr \<lparr>cp_next = next, cp_finite_rule = None, cp_draft = [],
                                  cp_lanes = pe_finite_lanes e\<rparr>)) of
                Inl err \<Rightarrow> Inl err
              | Inr plan \<Rightarrow>
                 (if pe_generation e = UINT64_MAX then fail Overflow ''ticket generation''
                  else Inr (input, plan)))))"

definition ticket_handle :: "protocol_engine \<Rightarrow> handle \<Rightarrow> handle" where
  "ticket_handle e h = \<lparr>h_kind = HK_GateTicket, h_domain = pe_domain e, h_store = pe_store_id e, h_slot = 0,
     h_generation = pe_generation e, h_owner = h_owner h\<rparr>"

definition begin_lanes :: "handle \<Rightarrow> wire_call \<Rightarrow> protocol_engine \<Rightarrow> protocol_engine" where
  "begin_lanes h c e =
     (let k = wc_connection c; ph = wc_phase c in
      e\<lparr>pe_requests := (if ph = begin_req then (pe_requests e)(k \<mapsto> h)
            else if ph = end_req \<or> ph = begin_resp then release_lane k h (pe_requests e)
            else pe_requests e),
        pe_responses := (if ph = begin_resp then (pe_responses e)(k \<mapsto> h)
            else if ph = end_resp then release_lane k h (pe_responses e)
            else pe_responses e)\<rparr>)"

definition begin_apply :: "handle \<Rightarrow> wire_call \<Rightarrow> tick \<Rightarrow> call_plan \<Rightarrow> protocol_engine \<Rightarrow> handle \<times> protocol_engine" where
  "begin_apply h c input plan e =
     (let l = ledger_at e h; s = ld_snapshot l; th = ticket_handle e h; ign = call_ignored e c;
          s1 = s\<lparr>ws_pending := True, ws_call_ordinal := ws_call_ordinal s + 1\<rparr>;
          s2 = (if ign then s1 else s1\<lparr>ws_state := cp_next plan, ws_last_timing := input\<rparr>);
          l1 = l\<lparr>ld_snapshot := s2, ld_calls := wc_id c # ld_calls l\<rparr>;
          l2 = (if pe_package e = None \<and> \<not> ign \<and> wc_phase c = begin_req
                then l1\<lparr>ld_request_command := pl_command (wc_request c),
                        ld_request_length := length (pl_data (wc_request c))\<rparr> else l1);
          p = \<lparr>pd_handle = th, pd_hop = h, pd_call = c, pd_pre = ws_state s, pd_input = input, pd_ignored = ign,
               pd_failed_return = None, pd_failure = None, pd_finite_rule = cp_finite_rule plan,
               pd_draft = cp_draft plan\<rparr>;
          e1 = e\<lparr>pe_generation := pe_generation e + 1, pe_pending := pe_pending e @ [(th, p)],
                 pe_ledgers := alist_set h l2 (pe_ledgers e), pe_finite_lanes := cp_lanes plan\<rparr> in
      (th, if pe_package e = None \<and> \<not> ign then begin_lanes h c e1 else e1))"

definition pe_begin_call :: "handle \<Rightarrow> wire_call \<Rightarrow> protocol_engine \<Rightarrow> handle expected \<times> protocol_engine" where
  "pe_begin_call h c e =
     (case begin_check h c e of
        Inl err \<Rightarrow> (Inl err, e)
      | Inr (input, plan) \<Rightarrow> (case begin_apply h c input plan e of (th, e') \<Rightarrow> (Inr th, e')))"

definition pe_begin_call_any :: "wire_call \<Rightarrow> protocol_engine \<Rightarrow> handle expected \<times> protocol_engine" where
  "pe_begin_call_any c e =
     (case matching_ledgers e (wc_connection c) (wc_transport c) of
        [] \<Rightarrow> (fail StaleHandle ''unregistered transport'', e)
      | [h] \<Rightarrow> pe_begin_call h c e
      | _ \<Rightarrow> (fail InvalidState ''ambiguous local transport'', e))"

section \<open>Failing and inspecting\<close>

definition pe_fail_call :: "handle \<Rightarrow> error \<Rightarrow> protocol_engine \<Rightarrow> unit expected \<times> protocol_engine" where
  "pe_fail_call t err e =
     (case map_of (pe_pending e) t of
        None \<Rightarrow> (fail StaleHandle ''call ticket consumed'', e)
      | Some p \<Rightarrow>
         (if pd_failure p \<noteq> None then (fail InvalidState ''call already failed'', e)
          else (Inr (), set_snapshot (pd_hop p) ((ld_snapshot (ledger_at e (pd_hop p)))\<lparr>ws_faulted := True\<rparr>)
                 (e\<lparr>pe_pending := alist_set t (p\<lparr>pd_failure := Some err\<rparr>) (pe_pending e)\<rparr>))))"

definition pe_inspect_failure :: "protocol_engine \<Rightarrow> handle \<Rightarrow> call_failure_record expected" where
  "pe_inspect_failure e t =
     (case map_of (pe_pending e) t of
        None \<Rightarrow> fail StaleHandle ''call ticket''
      | Some p \<Rightarrow>
         (case pd_failure p of
            None \<Rightarrow> fail NotReady ''call has not failed''
          | Some err \<Rightarrow> Inr \<lparr>cf_call = pd_call p, cf_returned = pd_failed_return p, cf_error = err\<rparr>))"

definition pe_inspect :: "protocol_engine \<Rightarrow> handle \<Rightarrow> wire_snapshot expected" where
  "pe_inspect e h =
     (case map_of (pe_ledgers e) h of
        None \<Rightarrow> fail StaleHandle ''unknown local ledger''
      | Some l \<Rightarrow> Inr (ld_snapshot l))"

text \<open>The result of \<open>ack_cell\<close> is a pointer into the ledger; the model returns the cell.\<close>

definition pe_ack_cell :: "handle \<Rightarrow> u64 \<Rightarrow> protocol_engine \<Rightarrow> versioned_cell expected \<times> protocol_engine" where
  "pe_ack_cell h epoch e =
     (case pe_ledger e h of
        Inl err \<Rightarrow> (Inl err, e)
      | Inr l \<Rightarrow>
         (if ws_state (ld_snapshot l) \<noteq> WS_Response \<or> ws_faulted (ld_snapshot l)
          then (fail InvalidState ''hop has no response awaiting acknowledgement'', e)
          else let cell = (case ld_ack l of Some x \<Rightarrow> x
                           | None \<Rightarrow> \<lparr>vc_value = VBool False, vc_version = 0, vc_epoch = epoch,
                               vc_stable_bytes = False, vc_epoch_independent = False\<rparr>);
                   e1 = e\<lparr>pe_ledgers := alist_set h (l\<lparr>ld_ack := Some cell\<rparr>) (pe_ledgers e)\<rparr> in
            if vc_epoch cell \<noteq> epoch then (fail WrongOwner ''acknowledgement epoch mismatch'', e1)
            else (Inr cell, e1)))"

definition pe_request_local_cancel :: "protocol_engine \<Rightarrow> handle \<Rightarrow> protocol_drain_plan expected" where
  "pe_request_local_cancel e h =
     (case pe_ledger e h of
        Inl err \<Rightarrow> Inl err
      | Inr l \<Rightarrow>
         (let s = ws_state (ld_snapshot l) in
          Inr \<lparr>dp_hop = h, dp_wait_request_release = (s = WS_Request),
               dp_wait_response = (s = WS_Request \<or> s = WS_RequestReleased),
               dp_send_end_response = (s = WS_Response), dp_terminal = (s = WS_Terminal)\<rparr>))"

section \<open>Ending a call\<close>

text \<open>The lambda \<open>bad\<close>: the ledger is faulted and the ticket keeps the return and the error.\<close>

definition end_bad ::
  "handle \<Rightarrow> pending_call \<Rightarrow> wire_return \<Rightarrow> error_code \<Rightarrow> string \<Rightarrow> protocol_engine \<Rightarrow>
     exchange_result expected \<times> protocol_engine" where
  "end_bad t p r c m e =
     (fail c m, set_snapshot (pd_hop p) ((ld_snapshot (ledger_at e (pd_hop p)))\<lparr>ws_faulted := True\<rparr>)
        (e\<lparr>pe_pending := alist_set t (p\<lparr>pd_failed_return := Some r,
             pd_failure := Some \<lparr>code = c, message = m\<rparr>\<rparr>) (pe_pending e)\<rparr>))"

definition end_time :: "pending_call \<Rightarrow> wire_snapshot \<Rightarrow> wire_return \<Rightarrow> tick expected" where
  "end_time p s r =
     (if wr_sync r = Accepted then Inr (pd_input p)
      else case add_time (wc_call_time (pd_call p)) (wr_outgoing_delay r) of
        Inl err \<Rightarrow> fail (code err) ''return timing overflow''
      | Inr tm \<Rightarrow> (if tm < ws_last_timing s then fail TimeRegression ''return timing regression'' else Inr tm))"

definition end_finite ::
  "protocol_package \<Rightarrow> pending_call \<Rightarrow> wire_snapshot \<Rightarrow> wire_return \<Rightarrow> tick \<Rightarrow> lane_registry \<Rightarrow>
     (finite_rule \<times> action_state \<times> string list) expected" where
  "end_finite p pd s r tm lanes =
     (let orig = pk_rules p ! the (pd_finite_rule pd) in
      case pick_rule (return_match orig (pd_call pd) r) (pk_rules p) of
        None \<Rightarrow> fail ProtocolViolation ''unmatched finite return rule''
      | Some winner \<Rightarrow>
         (case finite_actions (pk_lanes p) (pd_hop pd) (pd_call pd) (Some r) tm (fr_return_actions winner)
                \<lparr>as_state = ws_state s, as_lanes = lanes, as_milestones = pd_draft pd\<rparr> of
            Inl err \<Rightarrow> Inl err
          | Inr a \<Rightarrow> Inr (winner, a,
              map pa_tag (filter (\<lambda>x. pa_kind x = TraceTag) (fr_call_actions orig @ fr_return_actions winner)))))"

text \<open>What the return of a base call or an extension call decides.\<close>

record return_plan =
  rp_terminal :: bool
  rp_shortcut :: bool
  rp_req_release :: bool
  rp_state :: wire_state

definition matching_rule :: "protocol_rule list \<Rightarrow> pending_call \<Rightarrow> wire_return \<Rightarrow> protocol_rule option" where
  "matching_rule rs p r = find (\<lambda>x. pr_predecessor x = pd_pre p \<and> pr_flow x = wc_flow (pd_call p) \<and>
     pr_phase x = wc_phase (pd_call p) \<and> pr_sync x = wr_sync r \<and>
     (wr_sync r \<noteq> Updated \<or> pr_returned_phase x = wr_phase r)) (rev rs)"

definition plan_return :: "protocol_engine \<Rightarrow> pending_call \<Rightarrow> wire_snapshot \<Rightarrow> wire_return \<Rightarrow> return_plan expected" where
  "plan_return e p s r =
     (let ph = wc_phase (pd_call p);
          none = \<lparr>rp_terminal = False, rp_shortcut = False, rp_req_release = False, rp_state = ws_state s\<rparr> in
      if ph = begin_req then
        (if wr_sync r = Updated then
           (if wr_phase r \<noteq> Some end_req \<and> wr_phase r \<noteq> Some begin_resp
            then fail ProtocolViolation ''invalid BEGIN_REQ updated phase''
            else Inr (none\<lparr>rp_req_release := True, rp_shortcut := (wr_phase r = Some begin_resp)\<rparr>))
         else if wr_sync r = Completed
         then Inr (none\<lparr>rp_req_release := True, rp_shortcut := True, rp_terminal := True\<rparr>)
         else Inr none)
      else if ph = end_req then
        (if wr_sync r \<noteq> Accepted then fail ProtocolViolation ''END_REQ must ACCEPT'' else Inr none)
      else if ph = begin_resp then
        (if wr_sync r = Updated \<and> wr_phase r \<noteq> Some end_resp
         then fail ProtocolViolation ''BEGIN_RESP update requires END_RESP''
         else Inr (none\<lparr>rp_terminal := (wr_sync r \<noteq> Accepted)\<rparr>))
      else if ph = end_resp then
        (if wr_sync r = Updated then fail ProtocolViolation ''END_RESP cannot UPDATE''
         else Inr (none\<lparr>rp_terminal := True\<rparr>))
      else case matching_rule (pe_rules e) p r of
        None \<Rightarrow> fail ProtocolViolation ''no complete extension exchange rule''
      | Some rule \<Rightarrow>
         (if pr_response_required rule \<and> (wr_sync r = Accepted \<or>
             (case wr_response r of None \<Rightarrow> True | Some x \<Rightarrow> rs_status x = Incomplete))
          then fail ProtocolViolation ''missing extension response''
          else Inr (none\<lparr>rp_state := pr_next_state rule, rp_terminal := (pr_next_state rule = WS_Terminal)\<rparr>)))"

definition check_shortcut :: "protocol_engine \<Rightarrow> pending_call \<Rightarrow> wire_return \<Rightarrow> unit expected" where
  "check_shortcut e p r =
     (let src = ledger_at e (pd_hop p) in
      case wr_response r of
        None \<Rightarrow> fail ProtocolViolation ''shortcut response unavailable''
      | Some x \<Rightarrow>
         (if rs_status x = Incomplete then fail ProtocolViolation ''shortcut response unavailable''
          else if ld_request_command src = Read \<and> rs_status x = Ok \<and> length (rs_data x) \<noteq> ld_request_length src
          then fail ProtocolViolation ''shortcut incomplete READ data''
          else if \<not> response_lane_free e (wc_connection (pd_call p))
          then fail ProtocolViolation ''shortcut response lane occupied''
          else Inr ()))"

definition milestone :: "milestone_kind \<Rightarrow> tick \<Rightarrow> bool \<Rightarrow> response_snapshot option \<Rightarrow> protocol_milestone" where
  "milestone k tm imp rsp = \<lparr>pm_kind = k, pm_time = tm, pm_implicit = imp, pm_response = rsp\<rparr>"

definition return_milestones :: "pending_call \<Rightarrow> wire_return \<Rightarrow> return_plan \<Rightarrow> tick \<Rightarrow> protocol_milestone list" where
  "return_milestones p r plan tm =
     (if wc_phase (pd_call p) = end_req then [milestone MK_RequestReleased (pd_input p) False None] else []) @
     (if wc_phase (pd_call p) = begin_resp then
        (if pd_pre p = WS_Request then [milestone MK_RequestReleased (pd_input p) True None] else []) @
        [milestone MK_ResponseReady (pd_input p) False (Some (response_of_call (pd_call p)))] else []) @
     (if rp_req_release plan then [milestone MK_RequestReleased tm (rp_shortcut plan) None] else []) @
     (if rp_shortcut plan then [milestone MK_ResponseReady tm True (wr_response r)] else []) @
     (if rp_terminal plan then [milestone MK_Terminal tm False None] else [])"

definition return_state :: "return_plan \<Rightarrow> wire_state" where
  "return_state plan =
     (if rp_terminal plan then WS_Terminal else if rp_shortcut plan then WS_Response
      else if rp_req_release plan then WS_RequestReleased else rp_state plan)"

definition return_lanes :: "pending_call \<Rightarrow> return_plan \<Rightarrow> protocol_engine \<Rightarrow> protocol_engine" where
  "return_lanes p plan e =
     (let k = wc_connection (pd_call p); h = pd_hop p;
          req = (if rp_req_release plan \<or> rp_terminal plan then release_lane k h (pe_requests e) else pe_requests e);
          rsp = (if rp_shortcut plan then (pe_responses e)(k \<mapsto> h) else pe_responses e) in
      e\<lparr>pe_requests := req, pe_responses := (if rp_terminal plan then release_lane k h rsp else rsp)\<rparr>)"

definition end_result :: "pending_call \<Rightarrow> wire_state \<Rightarrow> protocol_milestone list \<Rightarrow> string list \<Rightarrow> tick \<Rightarrow> exchange_result" where
  "end_result p st ms tags tm =
     \<lparr>xr_call_id = wc_id (pd_call p), xr_hop = pd_hop p, xr_next_state = st, xr_milestones = ms,
      xr_trace_tags = tags, xr_needs_ack = (st = WS_Response), xr_wire_terminal = (st = WS_Terminal),
      xr_ignored = pd_ignored p, xr_authentic = True, xr_proof_terminal = (st = WS_Terminal),
      xr_proof_hop = pd_hop p, xr_proof_time = tm\<rparr>"

definition end_settle :: "handle \<Rightarrow> pending_call \<Rightarrow> wire_snapshot \<Rightarrow> protocol_engine \<Rightarrow> protocol_engine" where
  "end_settle t p s e =
     (set_snapshot (pd_hop p) (s\<lparr>ws_pending := False\<rparr>) e)\<lparr>pe_pending := alist_erase t (pe_pending e)\<rparr>"

definition ignored_result :: "pending_call \<Rightarrow> wire_state \<Rightarrow> exchange_result" where
  "ignored_result p st =
     \<lparr>xr_call_id = wc_id (pd_call p), xr_hop = pd_hop p, xr_next_state = st, xr_milestones = [],
      xr_trace_tags = [], xr_needs_ack = False, xr_wire_terminal = False, xr_ignored = True,
      xr_authentic = False, xr_proof_terminal = False, xr_proof_hop = default_handle, xr_proof_time = 0\<rparr>"

definition pe_end_call ::
  "handle \<Rightarrow> wire_return \<Rightarrow> protocol_engine \<Rightarrow> exchange_result expected \<times> protocol_engine" where
  "pe_end_call t r e =
     (case map_of (pe_pending e) t of
        None \<Rightarrow> (fail StaleHandle ''call ticket consumed'', e)
      | Some p \<Rightarrow>
         (let s = ld_snapshot (ledger_at e (pd_hop p));
              timed = (if wr_sync r \<noteq> Accepted then (\<lambda>tm s. s\<lparr>ws_last_timing := tm\<rparr>) else (\<lambda>tm s. s)) in
          if ws_faulted s then (fail InvalidState ''failed call cannot retry'', e)
          else if pd_ignored p then
            (if wr_sync r \<noteq> Accepted
             then end_bad t p r ProtocolViolation ''ignorable phase requires ACCEPTED'' e
             else (Inr (ignored_result p (ws_state s)), end_settle t p s e))
          else case end_time p s r of
            Inl err \<Rightarrow> end_bad t p r (code err) (message err) e
          | Inr tm \<Rightarrow>
             (case pe_package e of
                Some pk \<Rightarrow>
                 (case end_finite pk p s r tm (pe_finite_lanes e) of
                    Inl err \<Rightarrow> end_bad t p r (code err) (message err) e
                  | Inr (winner, a, tags) \<Rightarrow>
                      (Inr (end_result p (as_state a) (as_milestones a) tags tm),
                       end_settle t p (timed tm (s\<lparr>ws_state := as_state a, ws_protocol_state := fr_post winner\<rparr>))
                         (e\<lparr>pe_finite_lanes := as_lanes a\<rparr>)))
              | None \<Rightarrow>
                 (case plan_return e p s r of
                    Inl err \<Rightarrow> end_bad t p r (code err) (message err) e
                  | Inr plan \<Rightarrow>
                     (case (if rp_shortcut plan then check_shortcut e p r else Inr ()) of
                        Inl err \<Rightarrow> end_bad t p r (code err) (message err) e
                      | Inr _ \<Rightarrow>
                          (Inr (end_result p (return_state plan) (return_milestones p r plan tm) [] tm),
                           end_settle t p (timed tm (s\<lparr>ws_state := return_state plan\<rparr>)) (return_lanes p plan e)))))))"

definition pe_validate_end_call :: "protocol_engine \<Rightarrow> handle \<Rightarrow> wire_return \<Rightarrow> exchange_result expected" where
  "pe_validate_end_call e t r =
     (case fst (pe_end_call t r e) of Inl err \<Rightarrow> Inl err | Inr x \<Rightarrow> Inr (x\<lparr>xr_authentic := False\<rparr>))"

end
