(* ===== verification/Protocol_Inv.thy ===== *)
theory Protocol_Inv
  imports Protocol
begin

text \<open>
  The operations of the protocol engine as steps, the engines they reach from the constructor,
  and the invariant of those engines: handles are fresh, each ticket belongs to one ledger that
  waits for it, and the lanes of the base protocol are held exactly by the ledgers whose state
  says so. The history limit of the constructor is a \<open>size_t\<close>, below \<open>2\<close> to the \<open>64\<close>.
\<close>

section \<open>Operations and reachable engines\<close>

datatype pe_op =
    Op_create connection_id transport_id u64 u64
  | Op_bind handle connection_id transport_id u64
  | Op_retire handle
  | Op_discard handle
  | Op_ignorable phase_id
  | Op_rules "protocol_rule list"
  | Op_package protocol_package
  | Op_begin handle wire_call
  | Op_begin_any wire_call
  | Op_end handle wire_return
  | Op_fail handle error
  | Op_ack handle u64

fun pe_apply :: "pe_op \<Rightarrow> protocol_engine \<Rightarrow> protocol_engine" where
  "pe_apply (Op_create c t g owner) e = snd (pe_create_ledger c t g owner e)"
| "pe_apply (Op_bind h c t g) e = snd (pe_bind_ledger h c t g e)"
| "pe_apply (Op_retire h) e = snd (pe_retire_ledger h e)"
| "pe_apply (Op_discard h) e = snd (pe_discard_unstarted_ledger h e)"
| "pe_apply (Op_ignorable p) e = snd (pe_allow_ignorable p e)"
| "pe_apply (Op_rules rs) e = snd (pe_install_rules rs e)"
| "pe_apply (Op_package p) e = snd (pe_install_package p e)"
| "pe_apply (Op_begin h c) e = snd (pe_begin_call h c e)"
| "pe_apply (Op_begin_any c) e = snd (pe_begin_call_any c e)"
| "pe_apply (Op_end t r) e = snd (pe_end_call t r e)"
| "pe_apply (Op_fail t err) e = snd (pe_fail_call t err e)"
| "pe_apply (Op_ack h epoch) e = snd (pe_ack_cell h epoch e)"

inductive pe_reachable :: "protocol_engine \<Rightarrow> bool" where
  new: "ProtocolEngine_new d s l t h n = Some (e, n') \<Longrightarrow> h < 2 ^ 64 \<Longrightarrow> pe_reachable e"
| step: "pe_reachable e \<Longrightarrow> pe_reachable (pe_apply op e)"

section \<open>Association lists\<close>

lemma map_of_alist_set:
  "map_of (alist_set k v xs) j = (if j = k then (if map_of xs k = None then None else Some v) else map_of xs j)"
  unfolding alist_set_def by (induction xs) auto

lemma map_of_alist_erase: "map_of (alist_erase k xs) j = (if j = k then None else map_of xs j)"
  unfolding alist_erase_def by (induction xs) auto

lemma alist_set_keys [simp]: "map fst (alist_set k v xs) = map fst xs"
  unfolding alist_set_def by (induction xs) auto

lemma alist_set_length [simp]: "length (alist_set k v xs) = length xs"
  by (simp add: alist_set_def)

lemma alist_erase_set: "x \<in> set (alist_erase k xs) \<longleftrightarrow> x \<in> set xs \<and> fst x \<noteq> k"
  by (auto simp: alist_erase_def)

lemma map_of_snoc: "map_of (xs @ [(k, v)]) j = (case map_of xs j of Some x \<Rightarrow> Some x | None \<Rightarrow> if j = k then Some v else None)"
  by (simp add: map_add_def split: option.splits)

section \<open>The invariant\<close>

abbreviation ledger_conn :: "ledger \<Rightarrow> connection_id" where
  "ledger_conn l \<equiv> li_connection (ws_identity (ld_snapshot l))"

abbreviation ledger_state :: "ledger \<Rightarrow> wire_state" where
  "ledger_state l \<equiv> ws_state (ld_snapshot l)"

text \<open>The lane map says exactly which ledgers are in the state that holds the lane.\<close>

definition lanes_exact :: "(connection_id \<rightharpoonup> handle) \<Rightarrow> wire_state \<Rightarrow> (handle \<times> ledger) list \<Rightarrow> bool" where
  "lanes_exact lanes st ls \<longleftrightarrow> (\<forall>c h. lanes c = Some h \<longleftrightarrow>
     (\<exists>l. map_of ls h = Some l \<and> ledger_conn l = c \<and> ledger_state l = st))"

text \<open>A call in progress: its ledger waits for it, in the state that the call has put it into.\<close>

definition phase_state :: "wire_state \<Rightarrow> phase_id \<Rightarrow> wire_state" where
  "phase_state pre ph =
     (if ph = begin_req then WS_Request else if ph = end_req then WS_RequestReleased
      else if ph = begin_resp then WS_Response else if ph = end_resp then WS_Terminal else pre)"

definition pending_ok :: "protocol_engine \<Rightarrow> handle \<Rightarrow> pending_call \<Rightarrow> bool" where
  "pending_ok e t p \<longleftrightarrow> h_generation t < pe_generation e \<and>
     (\<exists>l. map_of (pe_ledgers e) (pd_hop p) = Some l \<and> ws_pending (ld_snapshot l) \<and>
        ledger_conn l = wc_connection (pd_call p) \<and>
        (pe_package e = None \<and> \<not> pd_ignored p \<longrightarrow> ledger_state l = phase_state (pd_pre p) (wc_phase (pd_call p))))"

definition pe_inv :: "protocol_engine \<Rightarrow> bool" where
  "pe_inv e \<longleftrightarrow> distinct (map fst (pe_ledgers e)) \<and> (\<forall>x \<in> set (pe_ledgers e). h_generation (fst x) < pe_generation e) \<and> distinct (map fst (pe_pending e)) \<and>
     (\<forall>(t, p) \<in> set (pe_pending e). pending_ok e t p) \<and> distinct (map (\<lambda>x. pd_hop (snd x)) (pe_pending e)) \<and>
     (\<forall>r \<in> set (pe_rules e). pr_predecessor r = WS_Idle \<and> (pr_next_state r = WS_Idle \<or> pr_next_state r = WS_Terminal)) \<and>
     (if pe_package e = None
      then lanes_exact (pe_requests e) WS_Request (pe_ledgers e) \<and> lanes_exact (pe_responses e) WS_Response (pe_ledgers e)
      else pe_requests e = Map.empty \<and> pe_responses e = Map.empty)"

lemma new_inv: "ProtocolEngine_new d s l t h n = Some (e, n') \<Longrightarrow> pe_inv e"
  by (auto simp: ProtocolEngine_new_def pe_inv_def lanes_exact_def split: option.splits)

text \<open>Changing the ledgers in a way that no lane and no pending call sees.\<close>

lemma inv_pending_ledger:
  assumes "pe_inv e" and "map_of (pe_pending e) t = Some p"
  shows "pending_ok e t p"
  using assms map_of_SomeD [OF assms(2)] by (auto simp: pe_inv_def)

lemma no_ledgers_no_lanes:
  assumes "pe_inv e" and "pe_ledgers e = []"
  shows "pe_requests e = Map.empty" "pe_responses e = Map.empty" "pe_pending e = []"
proof -
  show "pe_requests e = Map.empty" "pe_responses e = Map.empty"
    using assms by (auto simp: pe_inv_def lanes_exact_def fun_eq_iff split: if_splits)
  have "\<not> pending_ok e t p" for t p using assms(2) by (simp add: pending_ok_def)
  then show "pe_pending e = []" using assms(1) by (cases "pe_pending e") (auto simp: pe_inv_def)
qed

lemma extension_rule_ok:
  assumes "check_extension_rule prev a = Inr u"
  shows "pr_predecessor a = WS_Idle \<and> (pr_next_state a = WS_Idle \<or> pr_next_state a = WS_Terminal)"
proof (rule ccontr)
  assume "\<not> ?thesis"
  with assms show False by (auto simp: check_extension_rule_def)
qed

lemma extension_rules_ok:
  "check_extension_rules prev rs = Inr u \<Longrightarrow>
   \<forall>r \<in> set rs. pr_predecessor r = WS_Idle \<and> (pr_next_state r = WS_Idle \<or> pr_next_state r = WS_Terminal)"
proof (induction rs arbitrary: prev)
  case (Cons a as)
  from Cons.prems obtain v where v: "check_extension_rule prev a = Inr v"
      "check_extension_rules (prev @ [a]) as = Inr u"
    by (cases "check_extension_rule prev a") simp_all
  from extension_rule_ok [OF v(1)] Cons.IH [OF v(2)] show ?case by simp
qed simp

lemma empty_engine_inv:
  assumes "pe_inv e" and "pe_ledgers e = []"
    and "\<forall>r \<in> set rs. pr_predecessor r = WS_Idle \<and> (pr_next_state r = WS_Idle \<or> pr_next_state r = WS_Terminal)"
  shows "pe_inv (e\<lparr>pe_rules := rs, pe_package := pk, pe_finite_lanes := fl\<rparr>)"
    "pe_inv (e\<lparr>pe_package := pk, pe_rules := rs, pe_ignorable := ig\<rparr>)"
  using no_ledgers_no_lanes [OF assms(1,2)] assms(2,3) by (simp_all add: pe_inv_def lanes_exact_def)

lemma rules_inv:
  assumes "pe_inv e"
  shows "pe_inv (snd (pe_install_rules rs e))"
proof (cases "pe_ledgers e \<noteq> [] \<or> pe_prepared_bindings e \<noteq> []")
  case False
  show ?thesis
  proof (cases "check_extension_rules [] rs")
    case (Inr u)
    with False show ?thesis
      using empty_engine_inv(1) [OF assms _ extension_rules_ok [OF Inr]] by (simp add: pe_install_rules_def)
  qed (use assms False in \<open>simp add: pe_install_rules_def\<close>)
qed (use assms in \<open>simp add: pe_install_rules_def\<close>)

lemma package_inv:
  assumes "pe_inv e"
  shows "pe_inv (snd (pe_install_package p e))"
proof (cases "pe_ledgers e \<noteq> [] \<or> pe_prepared_bindings e \<noteq> []")
  case False
  show ?thesis
  proof (cases "validate_protocol_package p")
    case (Inr u)
    with False show ?thesis
      using empty_engine_inv(2) [OF assms, of "[]"] by (simp add: pe_install_package_def)
  qed (use assms False in \<open>simp add: pe_install_package_def\<close>)
qed (use assms in \<open>simp add: pe_install_package_def\<close>)

lemma ignorable_inv: "pe_inv e \<Longrightarrow> pe_inv (snd (pe_allow_ignorable p e))"
  by (auto simp: pe_allow_ignorable_def pe_inv_def pending_ok_def)

section \<open>Lanes under a change of one ledger\<close>

lemma lanes_exactD:
  assumes "lanes_exact lanes st ls" and "lanes c = Some h"
  obtains l where "map_of ls h = Some l" "ledger_conn l = c" "ledger_state l = st"
  using assms unfolding lanes_exact_def by blast

lemma lanes_exactI: "lanes_exact lanes st ls \<Longrightarrow> map_of ls h = Some l \<Longrightarrow> ledger_state l = st \<Longrightarrow> lanes (ledger_conn l) = Some h"
  unfolding lanes_exact_def by blast

lemma release_noop:
  assumes "lanes_exact lanes st ls" and "map_of ls h = Some l" and "ledger_state l \<noteq> st"
  shows "release_lane c h lanes = lanes"
  using assms by (auto simp: release_lane_def elim: lanes_exactD)

text \<open>The lane map that fits a ledger of connection \<open>k\<close> in its new state.\<close>

definition lane_target :: "(connection_id \<rightharpoonup> handle) \<Rightarrow> wire_state \<Rightarrow> connection_id \<Rightarrow> handle \<Rightarrow> wire_state \<Rightarrow> (connection_id \<rightharpoonup> handle)" where
  "lane_target lanes st k h st' = (if st' = st then lanes(k \<mapsto> h) else release_lane k h lanes)"

lemma lanes_exact_set:
  assumes ex: "lanes_exact lanes st ls" and l: "map_of ls h = Some l"
    and conn: "ledger_conn l' = ledger_conn l" and free: "ledger_state l' = st \<Longrightarrow> ledger_state l = st \<or> lanes (ledger_conn l) = None"
  shows "lanes_exact (lane_target lanes st (ledger_conn l) h (ledger_state l')) st (alist_set h l' ls)"
  unfolding lanes_exact_def
proof (intro allI)
  fix c g
  define k where "k = ledger_conn l"
  define st' where "st' = ledger_state l'"
  have other: "lanes c = Some g \<longleftrightarrow> (\<exists>x. map_of ls g = Some x \<and> ledger_conn x = c \<and> ledger_state x = st)"
    using ex by (simp only: lanes_exact_def)
  have held: "ledger_state l = st \<Longrightarrow> lanes k = Some h" unfolding k_def by (rule lanes_exactI [OF ex l])
  have "lane_target lanes st k h st' c = Some g \<longleftrightarrow>
      (\<exists>x. map_of (alist_set h l' ls) g = Some x \<and> ledger_conn x = c \<and> ledger_state x = st)"
  proof (cases "g = h")
    case True
    have nk: "c \<noteq> k \<Longrightarrow> lanes c \<noteq> Some h" using other l True unfolding k_def by auto
    have rhs: "(\<exists>x. map_of (alist_set h l' ls) g = Some x \<and> ledger_conn x = c \<and> ledger_state x = st) \<longleftrightarrow>
        k = c \<and> st' = st" using True l conn by (simp add: map_of_alist_set k_def st'_def)
    have "lane_target lanes st k h st' c = Some h \<longleftrightarrow> k = c \<and> st' = st"
      using nk by (cases "c = k") (simp_all add: lane_target_def release_lane_def)
    then show ?thesis unfolding rhs using True by (simp only:)
  next
    case False
    have ng: "lanes k \<noteq> Some g" if "st' = st"
      using free held that False unfolding st'_def k_def by force
    have "lane_target lanes st k h st' c = Some g \<longleftrightarrow> lanes c = Some g"
    proof (cases "st' = st")
      case True
      with ng False show ?thesis by (simp add: lane_target_def)
    next
      case nst: False
      with False show ?thesis by (simp add: lane_target_def release_lane_def)
    qed
    then show ?thesis using False other by (simp add: map_of_alist_set)
  qed
  then show "lane_target lanes st (ledger_conn l) h (ledger_state l') c = Some g \<longleftrightarrow>
      (\<exists>x. map_of (alist_set h l' ls) g = Some x \<and> ledger_conn x = c \<and> ledger_state x = st)"
    by (simp only: k_def st'_def)
qed

lemma lanes_exact_erase:
  assumes ex: "lanes_exact lanes st ls" and l: "map_of ls h = Some l" and "ledger_state l \<noteq> st"
  shows "lanes_exact lanes st (alist_erase h ls)"
  unfolding lanes_exact_def
proof (intro allI)
  fix c g
  have "lanes c = Some g \<longleftrightarrow> (\<exists>x. map_of ls g = Some x \<and> ledger_conn x = c \<and> ledger_state x = st)"
    using ex by (simp add: lanes_exact_def)
  then show "lanes c = Some g \<longleftrightarrow> (\<exists>x. map_of (alist_erase h ls) g = Some x \<and> ledger_conn x = c \<and> ledger_state x = st)"
    using assms(2,3) by (auto simp: map_of_alist_erase)
qed

lemma lanes_exact_snoc:
  assumes ex: "lanes_exact lanes st ls" and "map_of ls h = None" and "ledger_state l \<noteq> st"
  shows "lanes_exact lanes st (ls @ [(h, l)])"
  unfolding lanes_exact_def
proof (intro allI)
  fix c g
  have "lanes c = Some g \<longleftrightarrow> (\<exists>x. map_of ls g = Some x \<and> ledger_conn x = c \<and> ledger_state x = st)"
    using ex by (simp add: lanes_exact_def)
  then show "lanes c = Some g \<longleftrightarrow> (\<exists>x. map_of (ls @ [(h, l)]) g = Some x \<and> ledger_conn x = c \<and> ledger_state x = st)"
    using assms(2,3) by (auto simp: map_of_snoc split: option.splits if_splits)
qed

section \<open>Ledger operations keep the invariant\<close>

lemma add_ledger_inv:
  assumes inv: "pe_inv e" and new: "map_of (pe_ledgers e) h = None" and gen: "pe_generation e \<le> g" "h_generation h < g"
    and idle: "ledger_state l = WS_Idle"
  shows "pe_inv (e\<lparr>pe_ledgers := pe_ledgers e @ [(h, l)], pe_generation := g\<rparr>)"
proof -
  have "h \<notin> set (map fst (pe_ledgers e))" using new by (simp add: map_of_eq_None_iff)
  moreover have "pending_ok (e\<lparr>pe_ledgers := pe_ledgers e @ [(h, l)], pe_generation := g\<rparr>) t p" if "pending_ok e t p" for t p
    using that gen(1) by (auto simp: pending_ok_def map_of_snoc)
  moreover have "lanes_exact lanes x (pe_ledgers e @ [(h, l)])"
    if "lanes_exact lanes x (pe_ledgers e)" "x \<noteq> WS_Idle" for lanes x
    by (rule lanes_exact_snoc [OF that(1) new]) (use that(2) idle in simp)
  moreover have "\<forall>x \<in> set (pe_ledgers e). h_generation (fst x) < g"
    using inv gen(1) by (auto simp: pe_inv_def)
  ultimately show ?thesis
    using inv gen(2) by (auto simp: pe_inv_def split: if_splits)
qed

lemma erase_ledger_inv:
  assumes inv: "pe_inv e" and l: "map_of (pe_ledgers e) h = Some l" and np: "\<not> ws_pending (ld_snapshot l)"
    and st: "ledger_state l = WS_Idle \<or> ledger_state l = WS_Terminal"
  shows "pe_inv (e\<lparr>pe_ledgers := alist_erase h (pe_ledgers e)\<rparr>)"
proof -
  have "pending_ok (e\<lparr>pe_ledgers := alist_erase h (pe_ledgers e)\<rparr>) t p" if "pending_ok e t p" for t p
    using that l np by (auto simp: pending_ok_def map_of_alist_erase)
  moreover have "distinct (map fst (alist_erase h (pe_ledgers e)))"
    using inv by (simp add: pe_inv_def alist_erase_def distinct_map_filter)
  moreover have "lanes_exact lanes x (alist_erase h (pe_ledgers e))"
    if "lanes_exact lanes x (pe_ledgers e)" "x = WS_Request \<or> x = WS_Response" for lanes x
    by (rule lanes_exact_erase [OF that(1) l]) (use that(2) st in auto)
  ultimately show ?thesis using inv by (auto simp: pe_inv_def alist_erase_set split: if_splits)
qed

lemma fresh_ledger:
  assumes "pe_inv e" and "pe_generation e \<le> h_generation h"
  shows "map_of (pe_ledgers e) h = None"
proof (rule ccontr)
  assume "map_of (pe_ledgers e) h \<noteq> None"
  then obtain l where "(h, l) \<in> set (pe_ledgers e)" using map_of_SomeD by fastforce
  then have "h_generation h < pe_generation e" using assms(1) by (fastforce simp: pe_inv_def)
  with assms(2) show False by simp
qed

lemma new_ledger_idle [simp]: "ledger_state (new_ledger e h c t g) = WS_Idle"
  by (simp add: new_ledger_def)

lemma create_inv:
  assumes "pe_inv e"
  shows "pe_inv (snd (pe_create_ledger c t g owner e))"
proof (cases "snd (pe_create_ledger c t g owner e) = e")
  case False
  let ?h = "\<lparr>h_kind = HK_Hop, h_domain = pe_domain e, h_store = pe_store_id e, h_slot = 0,
     h_generation = pe_generation e, h_owner = owner\<rparr>"
  have "pe_generation e \<noteq> UINT64_MAX \<and> snd (pe_create_ledger c t g owner e) =
      e\<lparr>pe_ledgers := pe_ledgers e @ [(?h, new_ledger e ?h c t g)], pe_generation := pe_generation e + 1\<rparr>"
    using False by (simp add: pe_create_ledger_def Let_def split: if_splits)
  then show ?thesis
    using add_ledger_inv [OF assms, of ?h "pe_generation e + 1" "new_ledger e ?h c t g"] fresh_ledger [OF assms, of ?h]
      not_max_lessI [of "pe_generation e"] by (simp add: less_imp_le)
qed (use assms in simp)

lemma bind_cases:
  "pe_bind_ledger h c t g e = (res, e') \<Longrightarrow> e' = e \<or> h_generation h \<noteq> UINT64_MAX \<and> map_of (pe_ledgers e) h = None \<and>
     e' = e\<lparr>pe_ledgers := pe_ledgers e @ [(h, new_ledger e h c t g)],
            pe_generation := max (pe_generation e) (h_generation h + 1)\<rparr>"
  unfolding pe_bind_ledger_def by (simp split: if_splits)

lemma bind_inv:
  assumes "pe_inv e"
  shows "pe_inv (snd (pe_bind_ledger h c t g e))"
proof -
  let ?g = "max (pe_generation e) (h_generation h + 1)"
  from bind_cases [OF prod.collapse [symmetric], of h c t g e] show ?thesis
  proof (elim disjE conjE)
    assume 2: "h_generation h \<noteq> UINT64_MAX" "map_of (pe_ledgers e) h = None" "snd (pe_bind_ledger h c t g e) =
      e\<lparr>pe_ledgers := pe_ledgers e @ [(h, new_ledger e h c t g)], pe_generation := ?g\<rparr>"
    then have "h_generation h < ?g" using not_max_lessI [of "h_generation h"] by (simp add: less_max_iff_disj)
    with 2 show ?thesis using add_ledger_inv [OF assms, of h ?g "new_ledger e h c t g"] by simp
  qed (use assms in simp)
qed

lemma pe_ledger_Inr [simp]: "pe_ledger e h = Inr l \<longleftrightarrow> map_of (pe_ledgers e) h = Some l"
  by (simp add: pe_ledger_def split: option.splits)

lemma retire_inv:
  assumes "pe_inv e"
  shows "pe_inv (snd (pe_retire_ledger h e))" "pe_inv (snd (pe_discard_unstarted_ledger h e))"
  using assms erase_ledger_inv [OF assms, of h]
  by (auto simp: pe_retire_ledger_def pe_discard_unstarted_ledger_def Let_def split: sum.splits)

section \<open>Calls keep the invariant\<close>

lemma lane_target_same:
  assumes "lanes_exact lanes st ls" and "map_of ls h = Some l"
  shows "lane_target lanes st (ledger_conn l) h (ledger_state l) = lanes"
proof (cases "ledger_state l = st")
  case True
  then show ?thesis using lanes_exactI [OF assms] by (simp add: lane_target_def map_upd_triv)
next
  case False
  then show ?thesis using release_noop [OF assms] by (simp add: lane_target_def)
qed

text \<open>A change of one ledger with the lanes that fit it, and the pending calls that fit it.\<close>

lemma update_inv:
  assumes inv: "pe_inv e" and l: "map_of (pe_ledgers e) h = Some l" and conn: "ledger_conn l' = ledger_conn l"
    and ls: "pe_ledgers e' = alist_set h l' (pe_ledgers e)" and gen: "pe_generation e \<le> pe_generation e'"
    and same: "pe_package e' = pe_package e" "pe_rules e' = pe_rules e"
    and pend: "distinct (map fst (pe_pending e'))" "distinct (map (\<lambda>x. pd_hop (snd x)) (pe_pending e'))"
      "\<forall>(t, p) \<in> set (pe_pending e'). pending_ok e' t p"
    and base: "pe_package e = None \<Longrightarrow>
      pe_requests e' = lane_target (pe_requests e) WS_Request (ledger_conn l) h (ledger_state l') \<and>
      pe_responses e' = lane_target (pe_responses e) WS_Response (ledger_conn l) h (ledger_state l') \<and>
      (ledger_state l' = WS_Request \<longrightarrow> ledger_state l = WS_Request \<or> pe_requests e (ledger_conn l) = None) \<and>
      (ledger_state l' = WS_Response \<longrightarrow> ledger_state l = WS_Response \<or> pe_responses e (ledger_conn l) = None)"
    and fin: "pe_package e \<noteq> None \<Longrightarrow> pe_requests e' = pe_requests e \<and> pe_responses e' = pe_responses e"
  shows "pe_inv e'"
proof -
  have "distinct (map fst (pe_ledgers e'))" using inv by (simp add: ls pe_inv_def)
  moreover have "\<forall>x \<in> set (pe_ledgers e'). h_generation (fst x) < pe_generation e'"
  proof
    fix x assume "x \<in> set (pe_ledgers e')"
    then have "fst x \<in> set (map fst (pe_ledgers e'))" by simp
    then have "fst x \<in> set (map fst (pe_ledgers e))" by (simp only: ls alist_set_keys)
    then have "h_generation (fst x) < pe_generation e" using inv by (auto simp: pe_inv_def)
    from this gen show "h_generation (fst x) < pe_generation e'" by (rule order_less_le_trans)
  qed
  moreover have "if pe_package e' = None
      then lanes_exact (pe_requests e') WS_Request (pe_ledgers e') \<and> lanes_exact (pe_responses e') WS_Response (pe_ledgers e')
      else pe_requests e' = Map.empty \<and> pe_responses e' = Map.empty"
  proof (cases "pe_package e = None")
    case True
    note b = base [OF True]
    have "lanes_exact (pe_requests e) WS_Request (pe_ledgers e)" "lanes_exact (pe_responses e) WS_Response (pe_ledgers e)"
      using inv True by (simp_all add: pe_inv_def)
    then have "lanes_exact (pe_requests e') WS_Request (pe_ledgers e')" "lanes_exact (pe_responses e') WS_Response (pe_ledgers e')"
      using b unfolding ls by (auto intro!: lanes_exact_set [OF _ l conn])
    then show ?thesis using True same(1) by simp
  next
    case False
    then show ?thesis using fin inv same(1) by (auto simp: pe_inv_def)
  qed
  moreover have "\<forall>r \<in> set (pe_rules e'). pr_predecessor r = WS_Idle \<and> (pr_next_state r = WS_Idle \<or> pr_next_state r = WS_Terminal)"
    using inv unfolding same(2) by (simp add: pe_inv_def)
  ultimately show ?thesis using pend unfolding pe_inv_def by (intro conjI) assumption+
qed

lemma pending_ok_other:
  assumes "pending_ok e t p" and "pd_hop p \<noteq> h" and "pe_ledgers e' = alist_set h l' (pe_ledgers e)"
    and "pe_generation e \<le> pe_generation e'" and "pe_package e' = pe_package e"
  shows "pending_ok e' t p"
  using assms by (auto simp: pending_ok_def map_of_alist_set intro: order_less_le_trans)

text \<open>A change that leaves state and pending flag of the ledger alone.\<close>

lemma touch_inv:
  assumes inv: "pe_inv e" and l: "map_of (pe_ledgers e) h = Some l"
    and l': "ledger_conn l' = ledger_conn l" "ledger_state l' = ledger_state l" "ws_pending (ld_snapshot l') = ws_pending (ld_snapshot l)"
    and p': "map fst pd = map fst (pe_pending e)" "map (\<lambda>x. pd_hop (snd x)) pd = map (\<lambda>x. pd_hop (snd x)) (pe_pending e)"
      "\<And>t p. (t, p) \<in> set pd \<Longrightarrow> \<exists>q. (t, q) \<in> set (pe_pending e) \<and> pd_hop p = pd_hop q \<and> pd_call p = pd_call q \<and>
         pd_pre p = pd_pre q \<and> pd_ignored p = pd_ignored q"
  shows "pe_inv (e\<lparr>pe_pending := pd, pe_ledgers := alist_set h l' (pe_ledgers e)\<rparr>)" (is "pe_inv ?e")
proof (rule update_inv [OF inv l l'(1)])
  show "distinct (map fst (pe_pending ?e))" "distinct (map (\<lambda>x. pd_hop (snd x)) (pe_pending ?e))"
    using inv by (simp_all add: p' pe_inv_def)
  show "\<forall>(t, p) \<in> set (pe_pending ?e). pending_ok ?e t p"
  proof clarify
    fix t p assume "(t, p) \<in> set (pe_pending ?e)"
    then obtain q where q: "(t, q) \<in> set (pe_pending e)" "pd_hop p = pd_hop q" "pd_call p = pd_call q"
        "pd_pre p = pd_pre q" "pd_ignored p = pd_ignored q" using p'(3) by auto
    then have "pending_ok e t q" using inv by (auto simp: pe_inv_def)
    then show "pending_ok ?e t p"
      using q l l' by (auto simp: pending_ok_def map_of_alist_set)
  qed
  assume "pe_package e = None"
  then have "lanes_exact (pe_requests e) WS_Request (pe_ledgers e)" "lanes_exact (pe_responses e) WS_Response (pe_ledgers e)"
    using inv by (simp_all add: pe_inv_def)
  from lane_target_same [OF this(1) l] lane_target_same [OF this(2) l] l'(2)
  show "pe_requests ?e = lane_target (pe_requests e) WS_Request (ledger_conn l) h (ledger_state l') \<and>
      pe_responses ?e = lane_target (pe_responses e) WS_Response (ledger_conn l) h (ledger_state l') \<and>
      (ledger_state l' = WS_Request \<longrightarrow> ledger_state l = WS_Request \<or> pe_requests e (ledger_conn l) = None) \<and>
      (ledger_state l' = WS_Response \<longrightarrow> ledger_state l = WS_Response \<or> pe_responses e (ledger_conn l) = None)"
    by simp
qed simp_all

lemma ledger_at_eq: "map_of (pe_ledgers e) h = Some l \<Longrightarrow> ledger_at e h = l"
  by (simp add: ledger_at_def)

lemma alist_set_mem: "x \<in> set (alist_set k v xs) \<Longrightarrow> x \<in> set xs \<or> x = (k, v) \<and> k \<in> set (map fst xs)"
  by (auto simp: alist_set_def split: if_splits)

text \<open>Recording a failure: the ledger is faulted, the ticket keeps the evidence.\<close>

lemma fault_inv:
  assumes inv: "pe_inv e" and p: "map_of (pe_pending e) t = Some p"
    and p': "pd_hop p' = pd_hop p" "pd_call p' = pd_call p" "pd_pre p' = pd_pre p" "pd_ignored p' = pd_ignored p"
  shows "pe_inv (set_snapshot (pd_hop p) ((ld_snapshot (ledger_at e (pd_hop p)))\<lparr>ws_faulted := True\<rparr>)
    (e\<lparr>pe_pending := alist_set t p' (pe_pending e)\<rparr>))"
proof -
  obtain l where l: "map_of (pe_ledgers e) (pd_hop p) = Some l"
    using inv_pending_ledger [OF inv p] by (auto simp: pending_ok_def)
  have d: "distinct (map fst (pe_pending e))" using inv by (simp add: pe_inv_def)
  have key: "q = p" if "(t, q) \<in> set (pe_pending e)" for q
    using that p d by (metis map_of_is_SomeI option.inject)
  have hops: "map (\<lambda>x. pd_hop (snd x)) (alist_set t p' (pe_pending e)) = map (\<lambda>x. pd_hop (snd x)) (pe_pending e)"
    using key p'(1) by (auto simp: alist_set_def)
  let ?l = "l\<lparr>ld_snapshot := (ld_snapshot l)\<lparr>ws_faulted := True\<rparr>\<rparr>"
  have "pe_inv (e\<lparr>pe_pending := alist_set t p' (pe_pending e), pe_ledgers := alist_set (pd_hop p) ?l (pe_ledgers e)\<rparr>)"
  proof (rule touch_inv [OF inv l])
    fix s q assume "(s, q) \<in> set (alist_set t p' (pe_pending e))"
    then show "\<exists>r. (s, r) \<in> set (pe_pending e) \<and> pd_hop q = pd_hop r \<and> pd_call q = pd_call r \<and>
         pd_pre q = pd_pre r \<and> pd_ignored q = pd_ignored r"
      using alist_set_mem [of "(s, q)" t p'] map_of_SomeD [OF p] p' by blast
  qed (simp_all add: hops)
  then show ?thesis using ledger_at_eq [OF l] by (simp add: set_snapshot_def ledger_at_def)
qed

lemma fail_inv:
  assumes "pe_inv e"
  shows "pe_inv (snd (pe_fail_call t err e))"
proof (cases "map_of (pe_pending e) t")
  case (Some p)
  with fault_inv [OF assms Some, of "p\<lparr>pd_failure := Some err\<rparr>"] assms show ?thesis
    by (simp add: pe_fail_call_def)
qed (use assms in \<open>simp add: pe_fail_call_def\<close>)

lemma bad_inv:
  assumes "pe_inv e" and "map_of (pe_pending e) t = Some p"
  shows "pe_inv (snd (end_bad t p r c m e))"
  using fault_inv [OF assms, of "p\<lparr>pd_failed_return := Some r, pd_failure := Some \<lparr>code = c, message = m\<rparr>\<rparr>"]
  by (simp add: end_bad_def)

lemma ack_cases:
  assumes "pe_ack_cell h epoch e = (res, e')"
  shows "e' = e \<or> (\<exists>l a. map_of (pe_ledgers e) h = Some l \<and>
     e' = e\<lparr>pe_ledgers := alist_set h (l\<lparr>ld_ack := a\<rparr>) (pe_ledgers e)\<rparr>)"
  using assms by (auto simp: pe_ack_cell_def Let_def split: sum.splits if_splits)

lemma ack_inv:
  assumes "pe_inv e"
  shows "pe_inv (snd (pe_ack_cell h epoch e))"
proof -
  have "pe_inv (e\<lparr>pe_ledgers := alist_set h (l\<lparr>ld_ack := a\<rparr>) (pe_ledgers e)\<rparr>)"
    if "map_of (pe_ledgers e) h = Some l" for l a
    using touch_inv [OF assms that, of "l\<lparr>ld_ack := a\<rparr>" "pe_pending e"] by auto
  with ack_cases [OF prod.collapse [symmetric], of h epoch e] assms show ?thesis by auto
qed

text \<open>The plan of a base call leads to the state of its phase, from a state that allows it.\<close>

lemma plan_base_Inr:
  assumes "plan_base e l c = Inr st"
  shows "st = phase_state (ledger_state l) (wc_phase c)"
    "wc_phase c = begin_req \<Longrightarrow> ledger_state l = WS_Idle \<and> pe_requests e (wc_connection c) = None"
    "wc_phase c = end_req \<Longrightarrow> ledger_state l = WS_Request"
    "wc_phase c = begin_resp \<Longrightarrow> (ledger_state l = WS_Request \<or> ledger_state l = WS_RequestReleased) \<and> pe_responses e (wc_connection c) = None"
    "wc_phase c = end_resp \<Longrightarrow> ledger_state l = WS_Response"
    "wc_phase c \<notin> {begin_req, end_req, begin_resp, end_resp} \<Longrightarrow> \<exists>r \<in> set (pe_rules e). pr_predecessor r = ledger_state l"
  using assms by (auto simp: plan_base_def phase_state_def request_lane_free_def response_lane_free_def Let_def split: if_splits)

text \<open>What an accepted call has passed, and what it changes.\<close>

lemma begin_check_Inr:
  assumes "begin_check h c e = Inr (input, plan)"
  obtains l where "map_of (pe_ledgers e) h = Some l" "ledger_conn l = wc_connection c" "\<not> ws_faulted (ld_snapshot l)"
    "\<not> ws_pending (ld_snapshot l)" "wc_id c \<notin> set (ld_calls l)" "ws_last_timing (ld_snapshot l) \<le> input"
    "pe_generation e \<noteq> UINT64_MAX"
    "pe_package e = None \<Longrightarrow> cp_lanes plan = pe_finite_lanes e"
    "pe_package e = None \<Longrightarrow> \<not> call_ignored e c \<Longrightarrow> plan_base e l c = Inr (cp_next plan)"
    "\<And>pk. pe_package e = Some pk \<Longrightarrow> plan_finite pk (pe_finite_lanes e) (ld_snapshot l) h c input = Inr plan"
proof (cases "pe_ledger e h")
  case (Inr l)
  with assms show thesis
    by (intro that [of l]) (auto simp: begin_check_def Let_def split: sum.splits if_splits option.splits)
qed (use assms in \<open>simp add: begin_check_def\<close>)

definition begun_ledger :: "protocol_engine \<Rightarrow> ledger \<Rightarrow> wire_call \<Rightarrow> tick \<Rightarrow> call_plan \<Rightarrow> ledger" where
  "begun_ledger e l c input plan =
     (let s = ld_snapshot l; ign = call_ignored e c;
          s1 = s\<lparr>ws_pending := True, ws_call_ordinal := ws_call_ordinal s + 1\<rparr>;
          s2 = (if ign then s1 else s1\<lparr>ws_state := cp_next plan, ws_last_timing := input\<rparr>);
          l1 = l\<lparr>ld_snapshot := s2, ld_calls := wc_id c # ld_calls l\<rparr> in
      if pe_package e = None \<and> \<not> ign \<and> wc_phase c = begin_req
      then l1\<lparr>ld_request_command := pl_command (wc_request c), ld_request_length := length (pl_data (wc_request c))\<rparr> else l1)"

definition begun_call :: "protocol_engine \<Rightarrow> handle \<Rightarrow> ledger \<Rightarrow> wire_call \<Rightarrow> tick \<Rightarrow> call_plan \<Rightarrow> pending_call" where
  "begun_call e h l c input plan = \<lparr>pd_handle = ticket_handle e h, pd_hop = h, pd_call = c,
     pd_pre = ledger_state l, pd_input = input, pd_ignored = call_ignored e c, pd_failed_return = None, pd_failure = None,
     pd_finite_rule = cp_finite_rule plan, pd_draft = cp_draft plan\<rparr>"

lemma begun_ledger_simps [simp]:
  "ws_identity (ld_snapshot (begun_ledger e l c input plan)) = ws_identity (ld_snapshot l)"
  "ws_pending (ld_snapshot (begun_ledger e l c input plan))"
  "ws_faulted (ld_snapshot (begun_ledger e l c input plan)) = ws_faulted (ld_snapshot l)"
  "ws_state (ld_snapshot (begun_ledger e l c input plan)) = (if call_ignored e c then ledger_state l else cp_next plan)"
  "ws_last_timing (ld_snapshot (begun_ledger e l c input plan)) = (if call_ignored e c then ws_last_timing (ld_snapshot l) else input)"
  "ld_calls (begun_ledger e l c input plan) = wc_id c # ld_calls l"
  by (simp_all add: begun_ledger_def Let_def)

lemma begun_call_simps [simp]:
  "pd_hop (begun_call e h l c input plan) = h" "pd_call (begun_call e h l c input plan) = c"
  "pd_pre (begun_call e h l c input plan) = ledger_state l" "pd_ignored (begun_call e h l c input plan) = call_ignored e c"
  "pd_failure (begun_call e h l c input plan) = None"
  by (simp_all add: begun_call_def)

lemma begin_apply_simps:
  assumes "map_of (pe_ledgers e) h = Some l" and "begin_apply h c input plan e = (th, e')"
  shows "th = ticket_handle e h" "pe_ledgers e' = alist_set h (begun_ledger e l c input plan) (pe_ledgers e)"
    "pe_pending e' = pe_pending e @ [(th, begun_call e h l c input plan)]" "pe_generation e' = pe_generation e + 1"
    "pe_package e' = pe_package e" "pe_rules e' = pe_rules e" "pe_finite_lanes e' = cp_lanes plan"
    "pe_requests e' = (if base_protocol e \<and> \<not> call_ignored e c then pe_requests (begin_lanes h c e) else pe_requests e)"
    "pe_responses e' = (if base_protocol e \<and> \<not> call_ignored e c then pe_responses (begin_lanes h c e) else pe_responses e)"
  using assms by (auto simp: begin_apply_def Let_def ledger_at_eq begun_ledger_def begun_call_def begin_lanes_def base_protocol_def)

lemma begin_cases:
  assumes "pe_begin_call h c e = (res, e')"
  obtains err where "res = Inl err" "e' = e" "begin_check h c e = Inl err"
  | input plan th where "begin_check h c e = Inr (input, plan)" "begin_apply h c input plan e = (th, e')" "res = Inr th"
  using assms by (auto simp: pe_begin_call_def split: sum.splits prod.splits)

lemma inv_base_lanes:
  assumes "pe_inv e" and "pe_package e = None"
  shows "lanes_exact (pe_requests e) WS_Request (pe_ledgers e)" "lanes_exact (pe_responses e) WS_Response (pe_ledgers e)"
  using assms by (simp_all add: pe_inv_def)

lemma inv_rules: "pe_inv e \<Longrightarrow> r \<in> set (pe_rules e) \<Longrightarrow> pr_predecessor r = WS_Idle \<and> (pr_next_state r = WS_Idle \<or> pr_next_state r = WS_Terminal)"
  by (simp add: pe_inv_def)

lemma begin_lanes_target:
  assumes inv: "pe_inv e" and b: "pe_package e = None" and l: "map_of (pe_ledgers e) h = Some l"
    and k: "ledger_conn l = wc_connection c" and plan: "plan_base e l c = Inr st"
  shows "pe_requests (begin_lanes h c e) = lane_target (pe_requests e) WS_Request (ledger_conn l) h st"
    "pe_responses (begin_lanes h c e) = lane_target (pe_responses e) WS_Response (ledger_conn l) h st"
    "st = WS_Request \<Longrightarrow> ledger_state l = WS_Request \<or> pe_requests e (ledger_conn l) = None"
    "st = WS_Response \<Longrightarrow> ledger_state l = WS_Response \<or> pe_responses e (ledger_conn l) = None"
proof -
  note lanes = inv_base_lanes [OF inv b]
  note req = release_noop [OF lanes(1) l] and rsp = release_noop [OF lanes(2) l]
  note p = plan_base_Inr [OF plan]
  have st: "st = phase_state (ledger_state l) (wc_phase c)" by (rule p(1))
  consider (a) "wc_phase c = begin_req" | (b) "wc_phase c = end_req" | (c) "wc_phase c = begin_resp"
    | (d) "wc_phase c = end_resp" | (x) "wc_phase c \<notin> {begin_req, end_req, begin_resp, end_resp}" by blast
  then show "pe_requests (begin_lanes h c e) = lane_target (pe_requests e) WS_Request (ledger_conn l) h st"
  proof cases
    case x
    then have "ledger_state l = WS_Idle" using p(6) inv_rules [OF inv] by fastforce
    then show ?thesis using x req by (simp add: begin_lanes_def Let_def lane_target_def st phase_state_def)
  qed (use p(2-5) req k in \<open>simp_all add: begin_lanes_def Let_def lane_target_def st phase_state_def\<close>)
  consider (a) "wc_phase c = begin_req" | (b) "wc_phase c = end_req" | (c) "wc_phase c = begin_resp"
    | (d) "wc_phase c = end_resp" | (x) "wc_phase c \<notin> {begin_req, end_req, begin_resp, end_resp}" by blast
  then show "pe_responses (begin_lanes h c e) = lane_target (pe_responses e) WS_Response (ledger_conn l) h st"
  proof cases
    case x
    then have "ledger_state l = WS_Idle" using p(6) inv_rules [OF inv] by fastforce
    then show ?thesis using x rsp by (simp add: begin_lanes_def Let_def lane_target_def st phase_state_def)
  next
    case c
    then show ?thesis using p(4) k by (simp add: begin_lanes_def Let_def lane_target_def st phase_state_def)
  qed (use p(2-5) rsp k in \<open>auto simp: begin_lanes_def Let_def lane_target_def st phase_state_def\<close>)
  show "st = WS_Request \<Longrightarrow> ledger_state l = WS_Request \<or> pe_requests e (ledger_conn l) = None"
    "st = WS_Response \<Longrightarrow> ledger_state l = WS_Response \<or> pe_responses e (ledger_conn l) = None"
    using p(2,4) k by (auto simp: st phase_state_def split: if_splits)
qed

lemma pending_hop_pending:
  assumes "pe_inv e" and "x \<in> set (pe_pending e)" and "map_of (pe_ledgers e) h = Some l" and "\<not> ws_pending (ld_snapshot l)"
  shows "pd_hop (snd x) \<noteq> h"
  using assms by (cases x) (auto simp: pe_inv_def pending_ok_def)

lemma begin_pending_inv:
  assumes inv: "pe_inv e" and l: "map_of (pe_ledgers e) h = Some l" and k: "ledger_conn l = wc_connection c"
    and np: "\<not> ws_pending (ld_snapshot l)" and gen: "pe_generation e \<noteq> UINT64_MAX"
    and plan: "pe_package e = None \<and> \<not> call_ignored e c \<longrightarrow> plan_base e l c = Inr (cp_next plan)"
    and app: "begin_apply h c input plan e = (th, e')"
  shows "distinct (map fst (pe_pending e'))" "distinct (map (\<lambda>x. pd_hop (snd x)) (pe_pending e'))"
    "\<forall>(t, p) \<in> set (pe_pending e'). pending_ok e' t p"
proof -
  note a = begin_apply_simps [OF l app]
  have less: "pe_generation e < pe_generation e'" using not_max_lessI [OF gen] by (simp add: a(4))
  have old: "h_generation t < pe_generation e" if "(t, p) \<in> set (pe_pending e)" for t p
    using inv that by (auto simp: pe_inv_def pending_ok_def)
  have "h_generation th = pe_generation e" by (simp add: a(1) ticket_handle_def)
  then have "th \<notin> set (map fst (pe_pending e))" using old by fastforce
  then show "distinct (map fst (pe_pending e'))" using inv by (simp add: a(3) pe_inv_def)
  have "h \<notin> set (map (\<lambda>x. pd_hop (snd x)) (pe_pending e))"
    using pending_hop_pending [OF inv _ l np] by auto
  then show "distinct (map (\<lambda>x. pd_hop (snd x)) (pe_pending e'))" using inv by (simp add: a(3) pe_inv_def)
  show "\<forall>(t, p) \<in> set (pe_pending e'). pending_ok e' t p"
  proof clarify
    fix t p assume "(t, p) \<in> set (pe_pending e')"
    then consider (old) "(t, p) \<in> set (pe_pending e)" | (new) "t = th" "p = begun_call e h l c input plan" by (auto simp: a(3))
    then show "pending_ok e' t p"
    proof cases
      case old
      then have "pending_ok e t p" "pd_hop p \<noteq> h" using inv pending_hop_pending [OF inv old l np] by (auto simp: pe_inv_def)
      then show ?thesis by (rule pending_ok_other [OF _ _ a(2) less_imp_le [OF less] a(5)])
    next
      case new
      have "h_generation th < pe_generation e'" using less by (simp add: a(1) ticket_handle_def)
      moreover have "pe_package e = None \<Longrightarrow> \<not> call_ignored e c \<Longrightarrow> cp_next plan = phase_state (ledger_state l) (wc_phase c)"
        using plan plan_base_Inr(1) by blast
      ultimately show ?thesis using l k by (simp add: pending_ok_def new a(2,5) map_of_alist_set)
    qed
  qed
qed

lemma begin_inv:
  assumes inv: "pe_inv e"
  shows "pe_inv (snd (pe_begin_call h c e))"
proof (rule begin_cases [OF prod.collapse [symmetric], of h c e])
  fix input plan th
  let ?e = "snd (pe_begin_call h c e)"
  assume chk: "begin_check h c e = Inr (input, plan)" and app: "begin_apply h c input plan e = (th, ?e)"
  obtain l where l: "map_of (pe_ledgers e) h = Some l" "ledger_conn l = wc_connection c" "\<not> ws_pending (ld_snapshot l)"
      "pe_generation e \<noteq> UINT64_MAX"
    and plan: "pe_package e = None \<and> \<not> call_ignored e c \<longrightarrow> plan_base e l c = Inr (cp_next plan)"
    using begin_check_Inr [OF chk] by metis
  note a = begin_apply_simps [OF l(1) app]
  have gen: "pe_generation e \<le> pe_generation ?e" using not_max_lessI [OF l(4)] by (simp add: a(4) less_imp_le)
  show ?thesis
  proof (rule update_inv [OF inv l(1) _ a(2) gen a(5,6) begin_pending_inv [OF inv l plan app]])
    assume b: "pe_package e = None"
    note lanes = inv_base_lanes [OF inv b]
    show "pe_requests ?e = lane_target (pe_requests e) WS_Request (ledger_conn l) h (ledger_state (begun_ledger e l c input plan)) \<and>
      pe_responses ?e = lane_target (pe_responses e) WS_Response (ledger_conn l) h (ledger_state (begun_ledger e l c input plan)) \<and>
      (ledger_state (begun_ledger e l c input plan) = WS_Request \<longrightarrow> ledger_state l = WS_Request \<or> pe_requests e (ledger_conn l) = None) \<and>
      (ledger_state (begun_ledger e l c input plan) = WS_Response \<longrightarrow> ledger_state l = WS_Response \<or> pe_responses e (ledger_conn l) = None)"
    proof (cases "call_ignored e c")
      case True
      then show ?thesis using lane_target_same [OF lanes(1) l(1)] lane_target_same [OF lanes(2) l(1)] by (simp add: a(8,9))
    next
      case False
      with plan b have "plan_base e l c = Inr (cp_next plan)" by blast
      from begin_lanes_target [OF inv b l(1,2) this] b False show ?thesis by (simp add: a(8,9) base_protocol_def)
    qed
  next
    assume "pe_package e \<noteq> None"
    then show "pe_requests ?e = pe_requests e \<and> pe_responses ?e = pe_responses e" by (auto simp: a(8,9) base_protocol_def)
  qed simp
qed (use inv in simp)

lemma begin_any_inv: "pe_inv e \<Longrightarrow> pe_inv (snd (pe_begin_call_any c e))"
  using begin_inv by (simp add: pe_begin_call_any_def split: list.splits)

section \<open>Returns keep the invariant\<close>

lemma other_hop:
  assumes "pe_inv e" and "map_of (pe_pending e) t = Some p" and "(t', p') \<in> set (pe_pending e)" and "t' \<noteq> t"
  shows "pd_hop p' \<noteq> pd_hop p"
proof
  assume same: "pd_hop p' = pd_hop p"
  have inj: "inj_on (\<lambda>x. pd_hop (snd x)) (set (pe_pending e))" using assms(1) by (simp add: pe_inv_def distinct_map)
  have "(t', p') = (t, p)" by (rule inj_onD [OF inj _ assms(3) map_of_SomeD [OF assms(2)]]) (simp add: same)
  with assms(4) show False by simp
qed

lemma settle_inv:
  assumes inv: "pe_inv e" and p: "map_of (pe_pending e) t = Some p" and l: "map_of (pe_ledgers e) (pd_hop p) = Some l"
    and s: "li_connection (ws_identity s) = ledger_conn l"
    and e1: "pe_ledgers e1 = pe_ledgers e" "pe_pending e1 = pe_pending e" "pe_generation e1 = pe_generation e"
      "pe_package e1 = pe_package e" "pe_rules e1 = pe_rules e"
    and base: "pe_package e = None \<Longrightarrow>
      pe_requests e1 = lane_target (pe_requests e) WS_Request (ledger_conn l) (pd_hop p) (ws_state s) \<and>
      pe_responses e1 = lane_target (pe_responses e) WS_Response (ledger_conn l) (pd_hop p) (ws_state s) \<and>
      (ws_state s = WS_Request \<longrightarrow> ledger_state l = WS_Request \<or> pe_requests e (ledger_conn l) = None) \<and>
      (ws_state s = WS_Response \<longrightarrow> ledger_state l = WS_Response \<or> pe_responses e (ledger_conn l) = None)"
    and fin: "pe_package e \<noteq> None \<Longrightarrow> pe_requests e1 = pe_requests e \<and> pe_responses e1 = pe_responses e"
  shows "pe_inv (end_settle t p s e1)" (is "pe_inv ?e")
proof -
  let ?l = "l\<lparr>ld_snapshot := s\<lparr>ws_pending := False\<rparr>\<rparr>"
  have ls: "pe_ledgers ?e = alist_set (pd_hop p) ?l (pe_ledgers e)"
    using l e1(1) by (simp add: end_settle_def set_snapshot_def ledger_at_def)
  have pd: "pe_pending ?e = alist_erase t (pe_pending e)" using e1(2) by (simp add: end_settle_def)
  have rest: "pe_generation ?e = pe_generation e" "pe_package ?e = pe_package e" "pe_rules ?e = pe_rules e"
      "pe_requests ?e = pe_requests e1" "pe_responses ?e = pe_responses e1"
    using e1 by (simp_all add: end_settle_def set_snapshot_def)
  show ?thesis
  proof (rule update_inv [OF inv l _ ls])
    show "distinct (map fst (pe_pending ?e))" "distinct (map (\<lambda>x. pd_hop (snd x)) (pe_pending ?e))"
      using inv by (simp_all add: pd pe_inv_def alist_erase_def distinct_map_filter)
    show "\<forall>(t, p) \<in> set (pe_pending ?e). pending_ok ?e t p"
    proof clarify
      fix t' p' assume "(t', p') \<in> set (pe_pending ?e)"
      then have mem: "(t', p') \<in> set (pe_pending e)" "t' \<noteq> t" by (simp_all add: pd alist_erase_set)
      then have "pending_ok e t' p'" using inv by (auto simp: pe_inv_def)
      then show "pending_ok ?e t' p'"
        by (rule pending_ok_other [OF _ other_hop [OF inv p mem] ls]) (simp_all add: rest)
    qed
  qed (use s base fin in \<open>simp_all add: rest\<close>)
qed

lemma matching_rule_Some: "matching_rule rs p r = Some rule \<Longrightarrow> rule \<in> set rs \<and> pr_predecessor rule = pd_pre p"
  unfolding matching_rule_def by (drule find_SomeD) simp

lemma return_plan_states:
  assumes inv: "pe_inv e" and plan: "plan_return e p s r = Inr plan"
    and st: "ws_state s = phase_state (pd_pre p) (wc_phase (pd_call p))"
  shows "return_state plan = WS_Request \<longleftrightarrow> ws_state s = WS_Request \<and> \<not> rp_req_release plan \<and> \<not> rp_terminal plan"
    "return_state plan = WS_Response \<longleftrightarrow> \<not> rp_terminal plan \<and> (rp_shortcut plan \<or> ws_state s = WS_Response)"
proof -
  consider (a) "wc_phase (pd_call p) = begin_req" | (b) "wc_phase (pd_call p) = end_req" | (c) "wc_phase (pd_call p) = begin_resp"
    | (d) "wc_phase (pd_call p) = end_resp" | (x) "wc_phase (pd_call p) \<notin> {begin_req, end_req, begin_resp, end_resp}" by blast
  then have "(return_state plan = WS_Request \<longleftrightarrow> ws_state s = WS_Request \<and> \<not> rp_req_release plan \<and> \<not> rp_terminal plan) \<and>
    (return_state plan = WS_Response \<longleftrightarrow> \<not> rp_terminal plan \<and> (rp_shortcut plan \<or> ws_state s = WS_Response))"
  proof cases
    case x
    then obtain rule where r: "matching_rule (pe_rules e) p r = Some rule"
        "plan = \<lparr>rp_terminal = (pr_next_state rule = WS_Terminal), rp_shortcut = False, rp_req_release = False, rp_state = pr_next_state rule\<rparr>"
      using plan by (auto simp: plan_return_def Let_def split: option.splits if_splits)
    then have m: "rule \<in> set (pe_rules e)" "pr_predecessor rule = pd_pre p"
      using matching_rule_Some by blast+
    from inv_rules [OF inv m(1)] m(2) st x show ?thesis by (auto simp: r(2) return_state_def phase_state_def)
  qed (use plan st in \<open>auto simp: plan_return_def Let_def return_state_def phase_state_def split: if_splits\<close>)
  then show "return_state plan = WS_Request \<longleftrightarrow> ws_state s = WS_Request \<and> \<not> rp_req_release plan \<and> \<not> rp_terminal plan"
    "return_state plan = WS_Response \<longleftrightarrow> \<not> rp_terminal plan \<and> (rp_shortcut plan \<or> ws_state s = WS_Response)" by blast+
qed

lemma return_lanes_target:
  assumes inv: "pe_inv e" and b: "pe_package e = None" and l: "map_of (pe_ledgers e) (pd_hop p) = Some l"
    and k: "ledger_conn l = wc_connection (pd_call p)" and st: "ledger_state l = phase_state (pd_pre p) (wc_phase (pd_call p))"
    and plan: "plan_return e p (ld_snapshot l) r = Inr plan"
    and free: "rp_shortcut plan \<longrightarrow> pe_responses e (ledger_conn l) = None"
  shows "pe_requests (return_lanes p plan e) = lane_target (pe_requests e) WS_Request (ledger_conn l) (pd_hop p) (return_state plan)"
    "pe_responses (return_lanes p plan e) = lane_target (pe_responses e) WS_Response (ledger_conn l) (pd_hop p) (return_state plan)"
proof -
  note lanes = inv_base_lanes [OF inv b]
  note states = return_plan_states [OF inv plan st]
  have held: "ledger_state l = WS_Request \<Longrightarrow> (pe_requests e)(ledger_conn l \<mapsto> pd_hop p) = pe_requests e"
      "ledger_state l = WS_Response \<Longrightarrow> (pe_responses e)(ledger_conn l \<mapsto> pd_hop p) = pe_responses e"
    using lanes_exactI [OF lanes(1) l] lanes_exactI [OF lanes(2) l] by (simp_all add: map_upd_triv)
  show "pe_requests (return_lanes p plan e) = lane_target (pe_requests e) WS_Request (ledger_conn l) (pd_hop p) (return_state plan)"
    using states(1) held(1) release_noop [OF lanes(1) l] by (auto simp: return_lanes_def Let_def lane_target_def k [symmetric])
  show "pe_responses (return_lanes p plan e) = lane_target (pe_responses e) WS_Response (ledger_conn l) (pd_hop p) (return_state plan)"
  proof (cases "rp_shortcut plan")
    case True
    then show ?thesis using states(2) free
      by (cases "rp_terminal plan") (auto simp: return_lanes_def Let_def lane_target_def release_lane_def k [symmetric])
  next
    case False
    then show ?thesis using states(2) held(2) release_noop [OF lanes(2) l]
      by (auto simp: return_lanes_def Let_def lane_target_def k [symmetric])
  qed
qed

text \<open>The outcomes of a return.\<close>

lemma end_cases:
  assumes "pe_end_call t r e = (res, e')" and "map_of (pe_pending e) t = Some p" and "map_of (pe_ledgers e) (pd_hop p) = Some l"
  obtains (refused) "res = fail InvalidState ''failed call cannot retry''" "e' = e" "ws_faulted (ld_snapshot l)"
  | (bad) c m where "(res, e') = end_bad t p r c m e" "\<not> ws_faulted (ld_snapshot l)"
  | (ignored) "pd_ignored p" "res = Inr (ignored_result p (ledger_state l))" "e' = end_settle t p (ld_snapshot l) e"
      "\<not> ws_faulted (ld_snapshot l)"
  | (finite) tm pk winner a tags where "\<not> pd_ignored p" "end_time p (ld_snapshot l) r = Inr tm" "pe_package e = Some pk"
      "end_finite pk p (ld_snapshot l) r tm (pe_finite_lanes e) = Inr (winner, a, tags)"
      "res = Inr (end_result p (as_state a) (as_milestones a) tags tm)"
      "e' = end_settle t p (let s = (ld_snapshot l)\<lparr>ws_state := as_state a, ws_protocol_state := fr_post winner\<rparr> in
         if wr_sync r \<noteq> Accepted then s\<lparr>ws_last_timing := tm\<rparr> else s) (e\<lparr>pe_finite_lanes := as_lanes a\<rparr>)"
      "\<not> ws_faulted (ld_snapshot l)"
  | (base) tm plan where "\<not> pd_ignored p" "end_time p (ld_snapshot l) r = Inr tm" "pe_package e = None"
      "plan_return e p (ld_snapshot l) r = Inr plan" "rp_shortcut plan \<Longrightarrow> check_shortcut e p r = Inr ()"
      "res = Inr (end_result p (return_state plan) (return_milestones p r plan tm) [] tm)"
      "e' = end_settle t p (let s = (ld_snapshot l)\<lparr>ws_state := return_state plan\<rparr> in
         if wr_sync r \<noteq> Accepted then s\<lparr>ws_last_timing := tm\<rparr> else s) (return_lanes p plan e)"
      "\<not> ws_faulted (ld_snapshot l)"
proof -
  note outcomes = that
  have d: "(res, e') = pe_end_call t r e" using assms(1) by simp
  note d = d [unfolded pe_end_call_def Let_def assms(2) option.case ledger_at_eq [OF assms(3)]]
  show thesis
  proof (cases "ws_faulted (ld_snapshot l) \<or> pd_ignored p")
    case True
    then show thesis using d outcomes(1-3) by (auto split: if_splits)
  next
    case False
    show thesis
    proof (cases "end_time p (ld_snapshot l) r")
      case (Inl err)
      then show thesis using d False outcomes(2) by simp
    next
      case tm: (Inr tm)
      show thesis
      proof (cases "pe_package e")
        case None
        then show thesis using d False tm outcomes(2,5) by (auto split: sum.splits if_splits)
      next
        case (Some pk)
        then show thesis using d False tm outcomes(2,4) by (auto simp: Let_def split: sum.splits if_splits prod.splits)
      qed
    qed
  qed
qed

lemma shortcut_free: "check_shortcut e p r = Inr () \<Longrightarrow> pe_responses e (wc_connection (pd_call p)) = None"
  by (auto simp: check_shortcut_def Let_def response_lane_free_def split: option.splits if_splits)

lemma bad_eq: "(res, e') = end_bad t p r c m e \<Longrightarrow> e' = snd (end_bad t p r c m e) \<and> res = fail c m"
  by (simp add: end_bad_def)

lemma end_inv:
  assumes inv: "pe_inv e"
  shows "pe_inv (snd (pe_end_call t r e))" (is "pe_inv ?e")
proof (cases "map_of (pe_pending e) t")
  case (Some p)
  then obtain l where l: "map_of (pe_ledgers e) (pd_hop p) = Some l" and k: "ledger_conn l = wc_connection (pd_call p)"
    and st: "pe_package e = None \<and> \<not> pd_ignored p \<longrightarrow> ledger_state l = phase_state (pd_pre p) (wc_phase (pd_call p))"
    using inv_pending_ledger [OF inv] by (auto simp: pending_ok_def)
  from prod.collapse [symmetric, of "pe_end_call t r e"] Some l show ?thesis
  proof (cases rule: end_cases)
    case (bad c m)
    then show ?thesis using bad_inv [OF inv Some] bad_eq by metis
  next
    case ignored
    show ?thesis unfolding ignored(3)
      by (rule settle_inv [OF inv Some l])
        (use lane_target_same [OF inv_base_lanes(1) [OF inv] l] lane_target_same [OF inv_base_lanes(2) [OF inv] l] in auto)
  next
    case (finite tm pk winner a tags)
    show ?thesis unfolding finite(6) by (rule settle_inv [OF inv Some l]) (use finite(3) in \<open>simp_all add: Let_def\<close>)
  next
    case (base tm plan)
    have free: "rp_shortcut plan \<longrightarrow> pe_responses e (ledger_conn l) = None" using base(5) shortcut_free k by metis
    have st': "ledger_state l = phase_state (pd_pre p) (wc_phase (pd_call p))" using st base(1,3) by blast
    note lanes = return_lanes_target [OF inv base(3) l k st' base(4) free]
    note states = return_plan_states [OF inv base(4) st']
    show ?thesis unfolding base(7)
      by (rule settle_inv [OF inv Some l]) (use lanes states free base(3) in \<open>auto simp: Let_def return_lanes_def\<close>)
  qed (use inv in simp)
qed (use inv in \<open>simp add: pe_end_call_def\<close>)

lemma apply_inv: "pe_inv e \<Longrightarrow> pe_inv (pe_apply op e)"
  by (cases op) (simp_all add: create_inv bind_inv retire_inv ignorable_inv rules_inv package_inv begin_inv
    begin_any_inv end_inv fail_inv ack_inv)

lemma engine_inv: "pe_reachable e \<Longrightarrow> pe_inv e"
  by (induction rule: pe_reachable.induct) (auto intro: new_inv apply_inv)

end
