(* ===== verification/Protocol_Props.thy ===== *)
theory Protocol_Props
  imports Protocol_Inv
begin

text \<open>
  What the protocol engine promises, for engines built by the constructor and changed by any
  sequence of its operations: the lanes of the base protocol exclude each other, the wire state
  and the timing of a ledger never go back, faults are contained and sticky, and a ticket is
  consumed once.
\<close>

section \<open>How a step changes a ledger\<close>

fun wire_rank :: "wire_state \<Rightarrow> nat" where
  "wire_rank WS_Idle = 0" | "wire_rank WS_Request = 1" | "wire_rank WS_RequestReleased = 2"
| "wire_rank WS_Response = 3" | "wire_rank WS_Terminal = 4"

definition ledger_advances :: "bool \<Rightarrow> ledger \<Rightarrow> ledger \<Rightarrow> bool" where
  "ledger_advances base l l' \<longleftrightarrow> ws_identity (ld_snapshot l') = ws_identity (ld_snapshot l) \<and>
     ws_last_timing (ld_snapshot l) \<le> ws_last_timing (ld_snapshot l') \<and>
     (base \<longrightarrow> wire_rank (ledger_state l) \<le> wire_rank (ledger_state l')) \<and>
     set (ld_calls l) \<subseteq> set (ld_calls l') \<and> (ws_faulted (ld_snapshot l) \<longrightarrow> l' = l)"

definition ledgers_advance :: "protocol_engine \<Rightarrow> protocol_engine \<Rightarrow> bool" where
  "ledgers_advance e e' \<longleftrightarrow> (\<forall>h l. map_of (pe_ledgers e) h = Some l \<longrightarrow>
     (\<exists>l'. map_of (pe_ledgers e') h = Some l' \<and> ledger_advances (pe_package e = None) l l'))"

lemma ledger_advances_refl [simp]: "ledger_advances b l l"
  by (simp add: ledger_advances_def)

lemma ledgers_advance_refl: "pe_ledgers e' = pe_ledgers e \<Longrightarrow> ledgers_advance e e'"
  by (simp add: ledgers_advance_def)

lemma ledgers_advance_set:
  assumes "map_of (pe_ledgers e) h = Some l" and "pe_ledgers e' = alist_set h l' (pe_ledgers e)"
    and "ledger_advances (pe_package e = None) l l'"
  shows "ledgers_advance e e'"
  using assms by (auto simp: ledgers_advance_def map_of_alist_set)

lemma ledgers_advance_snoc:
  assumes "pe_ledgers e' = pe_ledgers e @ [(h, l)]"
  shows "ledgers_advance e e'"
  unfolding ledgers_advance_def assms map_of_snoc by (intro allI impI) simp

lemma phase_state_rank:
  assumes inv: "pe_inv e" and plan: "plan_base e l c = Inr st"
  shows "wire_rank (ledger_state l) \<le> wire_rank st"
  using plan_base_Inr [OF plan] by (auto simp: phase_state_def)

lemma return_state_rank:
  assumes inv: "pe_inv e" and plan: "plan_return e p s r = Inr plan"
    and st: "ws_state s = phase_state (pd_pre p) (wc_phase (pd_call p))"
  shows "wire_rank (ws_state s) \<le> wire_rank (return_state plan)"
proof -
  consider (a) "wc_phase (pd_call p) = begin_req" | (b) "wc_phase (pd_call p) = end_req" | (c) "wc_phase (pd_call p) = begin_resp"
    | (d) "wc_phase (pd_call p) = end_resp" | (x) "wc_phase (pd_call p) \<notin> {begin_req, end_req, begin_resp, end_resp}" by blast
  then show ?thesis
  proof cases
    case x
    then obtain rule where "matching_rule (pe_rules e) p r = Some rule"
      using plan by (auto simp: plan_return_def Let_def split: option.splits)
    then have "pd_pre p = WS_Idle" using matching_rule_Some inv_rules [OF inv] by metis
    with st x show ?thesis by (simp add: phase_state_def)
  qed (use plan st in \<open>auto simp: plan_return_def Let_def return_state_def phase_state_def split: if_splits\<close>)
qed

lemma end_time_mono: "end_time p s r = Inr tm \<Longrightarrow> wr_sync r \<noteq> Accepted \<Longrightarrow> ws_last_timing s \<le> tm"
  by (auto simp: end_time_def split: if_splits sum.splits)

lemma begin_advances:
  assumes inv: "pe_inv e"
  shows "ledgers_advance e (snd (pe_begin_call h c e))"
proof (rule begin_cases [OF prod.collapse [symmetric], of h c e])
  fix input plan th
  assume chk: "begin_check h c e = Inr (input, plan)" and app: "begin_apply h c input plan e = (th, snd (pe_begin_call h c e))"
  obtain l where l: "map_of (pe_ledgers e) h = Some l" "\<not> ws_faulted (ld_snapshot l)" "ws_last_timing (ld_snapshot l) \<le> input"
    and plan: "pe_package e = None \<and> \<not> call_ignored e c \<longrightarrow> plan_base e l c = Inr (cp_next plan)"
    using begin_check_Inr [OF chk] by metis
  show ?thesis
    by (rule ledgers_advance_set [OF l(1) begin_apply_simps(2) [OF l(1) app]])
      (use l plan phase_state_rank [OF inv] in \<open>auto simp: ledger_advances_def\<close>)
qed (simp add: ledgers_advance_refl)

lemma fault_advances: "ledger_advances b l (l\<lparr>ld_snapshot := (ld_snapshot l)\<lparr>ws_faulted := True\<rparr>\<rparr>)"
  by (auto simp: ledger_advances_def)

lemma end_bad_ledgers:
  assumes "map_of (pe_ledgers e) (pd_hop p) = Some l"
  shows "pe_ledgers (snd (end_bad t p r c m e)) =
    alist_set (pd_hop p) (l\<lparr>ld_snapshot := (ld_snapshot l)\<lparr>ws_faulted := True\<rparr>\<rparr>) (pe_ledgers e)"
  using assms by (simp add: end_bad_def set_snapshot_def ledger_at_def)

lemma end_settle_ledgers:
  assumes "map_of (pe_ledgers e) (pd_hop p) = Some l" and "pe_ledgers e1 = pe_ledgers e"
  shows "pe_ledgers (end_settle t p s e1) = alist_set (pd_hop p) (l\<lparr>ld_snapshot := s\<lparr>ws_pending := False\<rparr>\<rparr>) (pe_ledgers e)"
  using assms by (simp add: end_settle_def set_snapshot_def ledger_at_def)

lemma pending_ledger:
  assumes "pe_inv e" and "map_of (pe_pending e) t = Some p"
  obtains l where "map_of (pe_ledgers e) (pd_hop p) = Some l" "ws_pending (ld_snapshot l)"
    "ledger_conn l = wc_connection (pd_call p)"
    "pe_package e = None \<and> \<not> pd_ignored p \<longrightarrow> ledger_state l = phase_state (pd_pre p) (wc_phase (pd_call p))"
  using inv_pending_ledger [OF assms] by (auto simp: pending_ok_def)

lemma end_advances:
  assumes inv: "pe_inv e"
  shows "ledgers_advance e (snd (pe_end_call t r e))"
proof (cases "map_of (pe_pending e) t")
  case (Some p)
  obtain l where l: "map_of (pe_ledgers e) (pd_hop p) = Some l"
    and st: "pe_package e = None \<and> \<not> pd_ignored p \<longrightarrow> ledger_state l = phase_state (pd_pre p) (wc_phase (pd_call p))"
    using pending_ledger [OF inv Some] by metis
  from prod.collapse [symmetric, of "pe_end_call t r e"] Some l show ?thesis
  proof (cases rule: end_cases)
    case (bad c m)
    then have "snd (pe_end_call t r e) = snd (end_bad t p r c m e)" by (simp add: bad_eq)
    then show ?thesis using ledgers_advance_set [OF l end_bad_ledgers [OF l] fault_advances] by simp
  next
    case ignored
    show ?thesis unfolding ignored(3)
      by (rule ledgers_advance_set [OF l end_settle_ledgers [OF l refl]]) (use ignored(4) in \<open>simp add: ledger_advances_def\<close>)
  next
    case (finite tm pk winner a tags)
    show ?thesis unfolding finite(6)
      by (rule ledgers_advance_set [OF l end_settle_ledgers [OF l]])
        (use finite(3,7) end_time_mono [OF finite(2)] in \<open>simp_all add: ledger_advances_def Let_def\<close>)
  next
    case (base tm plan)
    have "wire_rank (ledger_state l) \<le> wire_rank (return_state plan)"
      using return_state_rank [OF inv base(4)] st base(1,3) by blast
    then show ?thesis unfolding base(7)
      by (intro ledgers_advance_set [OF l end_settle_ledgers [OF l]])
        (use base(8) end_time_mono [OF base(2)] in \<open>simp_all add: ledger_advances_def Let_def return_lanes_def\<close>)
  qed (simp add: ledgers_advance_refl)
qed (simp add: ledgers_advance_refl pe_end_call_def)

lemma fail_advances:
  assumes "pe_inv e"
  shows "ledgers_advance e (snd (pe_fail_call t err e))"
proof (cases "map_of (pe_pending e) t")
  case (Some p)
  obtain l where l: "map_of (pe_ledgers e) (pd_hop p) = Some l" using pending_ledger [OF assms Some] by metis
  show ?thesis
  proof (cases "pd_failure p = None")
    case True
    show ?thesis
      by (rule ledgers_advance_set [OF l _ fault_advances])
        (use True Some l in \<open>simp add: pe_fail_call_def set_snapshot_def ledger_at_def\<close>)
  qed (use Some in \<open>simp add: pe_fail_call_def ledgers_advance_refl\<close>)
qed (simp add: pe_fail_call_def ledgers_advance_refl)

lemma ack_advances: "ledgers_advance e (snd (pe_ack_cell h epoch e))"
proof (cases "map_of (pe_ledgers e) h")
  case (Some l)
  show ?thesis
  proof (cases "ws_state (ld_snapshot l) \<noteq> WS_Response \<or> ws_faulted (ld_snapshot l)")
    case False
    consider "snd (pe_ack_cell h epoch e) = e"
      | a where "snd (pe_ack_cell h epoch e) = e\<lparr>pe_ledgers := alist_set h (l\<lparr>ld_ack := a\<rparr>) (pe_ledgers e)\<rparr>"
      using ack_cases [OF prod.collapse [symmetric], of h epoch e] Some by auto
    then show ?thesis using ledgers_advance_set [OF Some] False by cases (simp_all add: ledgers_advance_refl ledger_advances_def)
  qed (use Some in \<open>simp add: pe_ack_cell_def pe_ledger_def ledgers_advance_refl\<close>)
qed (simp add: pe_ack_cell_def pe_ledger_def ledgers_advance_refl)

lemma create_advances: "ledgers_advance e (snd (pe_create_ledger c t g owner e))"
  by (auto simp: pe_create_ledger_def Let_def ledgers_advance_refl intro: ledgers_advance_snoc)

lemma bind_advances: "ledgers_advance e (snd (pe_bind_ledger h c t g e))"
  by (auto simp: pe_bind_ledger_def ledgers_advance_refl intro: ledgers_advance_snoc)

lemma config_advances:
  "ledgers_advance e (snd (pe_allow_ignorable p e))" "ledgers_advance e (snd (pe_install_rules rs e))"
  "ledgers_advance e (snd (pe_install_package pk e))"
  by (auto simp: pe_allow_ignorable_def pe_install_rules_def pe_install_package_def ledgers_advance_refl split: sum.splits)

text \<open>Only a ledger without responsibility is removed.\<close>

definition removable :: "pe_op \<Rightarrow> handle \<Rightarrow> ledger \<Rightarrow> bool" where
  "removable op h l \<longleftrightarrow> \<not> ws_pending (ld_snapshot l) \<and> \<not> ws_faulted (ld_snapshot l) \<and>
     (op = Op_retire h \<and> ledger_state l = WS_Terminal \<or>
      op = Op_discard h \<and> ledger_state l = WS_Idle \<and> ws_call_ordinal (ld_snapshot l) = 0)"

lemma step_ledger:
  assumes inv: "pe_inv e" and l: "map_of (pe_ledgers e) h = Some l"
  shows "(case map_of (pe_ledgers (pe_apply op e)) h of
      None \<Rightarrow> removable op h l
    | Some l' \<Rightarrow> ledger_advances (pe_package e = None) l l')"
proof -
  have adv: ?thesis if "ledgers_advance e (pe_apply op e)"
    using that l unfolding ledgers_advance_def by force
  show ?thesis
  proof (cases op)
    case (Op_retire h')
    then show ?thesis using l
      by (auto simp: pe_retire_ledger_def Let_def map_of_alist_erase removable_def split: sum.splits option.splits if_splits)
  next
    case (Op_discard h')
    then show ?thesis using l
      by (auto simp: pe_discard_unstarted_ledger_def Let_def map_of_alist_erase removable_def split: sum.splits option.splits if_splits)
  next
    case (Op_begin_any c)
    then show ?thesis using adv begin_advances [OF inv]
      by (simp add: pe_begin_call_any_def ledgers_advance_refl split: list.splits)
  qed (use adv inv in \<open>simp_all add: create_advances bind_advances config_advances begin_advances end_advances
        fail_advances ack_advances\<close>)
qed

section \<open>Tickets\<close>

text \<open>A step issues tickets of the current generation only, and the generation never goes back.\<close>

definition tickets_from :: "protocol_engine \<Rightarrow> protocol_engine \<Rightarrow> bool" where
  "tickets_from e e' \<longleftrightarrow> pe_generation e \<le> pe_generation e' \<and>
     (\<forall>t \<in> set (map fst (pe_pending e')). t \<in> set (map fst (pe_pending e)) \<or> h_generation t = pe_generation e)"

lemma tickets_keep: "map fst (pe_pending e') = map fst (pe_pending e) \<Longrightarrow> pe_generation e \<le> pe_generation e' \<Longrightarrow> tickets_from e e'"
  by (simp only: tickets_from_def) blast

lemma tickets_erase: "pe_pending e' = alist_erase t (pe_pending e) \<Longrightarrow> pe_generation e' = pe_generation e \<Longrightarrow> tickets_from e e'"
  by (auto simp: tickets_from_def alist_erase_def)

lemma begin_tickets: "tickets_from e (snd (pe_begin_call h c e))"
proof (rule begin_cases [OF prod.collapse [symmetric], of h c e])
  fix input plan th
  assume chk: "begin_check h c e = Inr (input, plan)" and app: "begin_apply h c input plan e = (th, snd (pe_begin_call h c e))"
  obtain l where l: "map_of (pe_ledgers e) h = Some l" "pe_generation e \<noteq> UINT64_MAX" using begin_check_Inr [OF chk] by metis
  note a = begin_apply_simps [OF l(1) app]
  have "h_generation th = pe_generation e" by (simp add: a(1) ticket_handle_def)
  then show ?thesis using succ_le [OF l(2)] by (simp add: tickets_from_def a(3,4))
qed (simp add: tickets_keep)

lemma end_tickets:
  assumes "pe_inv e"
  shows "tickets_from e (snd (pe_end_call t r e))"
proof (cases "map_of (pe_pending e) t")
  case (Some p)
  obtain l where l: "map_of (pe_ledgers e) (pd_hop p) = Some l" using pending_ledger [OF assms Some] by metis
  from prod.collapse [symmetric, of "pe_end_call t r e"] Some l show ?thesis
  proof (cases rule: end_cases)
    case (bad c m)
    then have "snd (pe_end_call t r e) = snd (end_bad t p r c m e)" by (simp add: bad_eq)
    then show ?thesis by (simp add: tickets_keep end_bad_def set_snapshot_def)
  next
    case ignored
    then show ?thesis by (auto intro!: tickets_erase simp: end_settle_def set_snapshot_def)
  next
    case (finite tm pk winner a tags)
    show ?thesis unfolding finite(6) by (rule tickets_erase) (simp_all add: end_settle_def set_snapshot_def)
  next
    case (base tm plan)
    show ?thesis unfolding base(7) by (rule tickets_erase) (simp_all add: end_settle_def set_snapshot_def return_lanes_def Let_def)
  qed (simp add: tickets_keep)
qed (simp add: tickets_keep pe_end_call_def)

lemma fail_tickets: "tickets_from e (snd (pe_fail_call t err e))"
  by (auto intro!: tickets_keep simp: pe_fail_call_def set_snapshot_def split: option.splits)

lemma ack_tickets: "tickets_from e (snd (pe_ack_cell h epoch e))"
  using ack_cases [OF prod.collapse [symmetric], of h epoch e] by (auto intro!: tickets_keep)

lemma ledger_op_tickets:
  "tickets_from e (snd (pe_create_ledger c t g owner e))" "tickets_from e (snd (pe_bind_ledger h c t g e))"
  "tickets_from e (snd (pe_retire_ledger h e))" "tickets_from e (snd (pe_discard_unstarted_ledger h e))"
  "tickets_from e (snd (pe_allow_ignorable p e))" "tickets_from e (snd (pe_install_rules rs e))"
  "tickets_from e (snd (pe_install_package pk e))"
  by (auto intro!: tickets_keep simp: pe_create_ledger_def pe_bind_ledger_def pe_retire_ledger_def Let_def succ_le
    pe_discard_unstarted_ledger_def pe_allow_ignorable_def pe_install_rules_def pe_install_package_def split: sum.splits)

lemma step_tickets: "pe_inv e \<Longrightarrow> tickets_from e (pe_apply op e)"
  by (cases op) (simp_all add: begin_tickets end_tickets fail_tickets ack_tickets ledger_op_tickets tickets_keep
    pe_begin_call_any_def split: list.splits)

definition consumed :: "handle \<Rightarrow> protocol_engine \<Rightarrow> bool" where
  "consumed t e \<longleftrightarrow> t \<notin> set (map fst (pe_pending e)) \<and> h_generation t < pe_generation e"

lemma consumed_steps: "pe_inv e \<Longrightarrow> consumed t e \<Longrightarrow> consumed t (fold pe_apply ops e)"
proof (induction ops arbitrary: e)
  case (Cons op ops)
  from step_tickets [OF Cons.prems(1)] have s: "tickets_from e (pe_apply op e)" .
  have "consumed t (pe_apply op e)" unfolding consumed_def
  proof
    show "t \<notin> set (map fst (pe_pending (pe_apply op e)))"
      using s Cons.prems(2) unfolding tickets_from_def consumed_def by (metis order_less_irrefl)
    from Cons.prems(2) have "h_generation t < pe_generation e" by (simp add: consumed_def)
    moreover have "pe_generation e \<le> pe_generation (pe_apply op e)" using s by (simp add: tickets_from_def)
    ultimately show "h_generation t < pe_generation (pe_apply op e)" by (rule order_less_le_trans)
  qed
  from Cons.IH [OF apply_inv [OF Cons.prems(1)] this] show ?case by simp
qed simp

section \<open>Failed and successful returns\<close>

lemma end_bad_effect:
  assumes l: "map_of (pe_ledgers e) (pd_hop p) = Some l" and t: "map_of (pe_pending e) t = Some p"
    and e': "(fail c m, e') = end_bad t p r c m e"
  shows "pe_ledgers e' = alist_set (pd_hop p) (l\<lparr>ld_snapshot := (ld_snapshot l)\<lparr>ws_faulted := True\<rparr>\<rparr>) (pe_ledgers e)"
    "pe_requests e' = pe_requests e" "pe_responses e' = pe_responses e" "pe_finite_lanes e' = pe_finite_lanes e"
    "map fst (pe_pending e') = map fst (pe_pending e)"
    "pe_inspect_failure e' t = Inr \<lparr>cf_call = pd_call p, cf_returned = Some r, cf_error = \<lparr>code = c, message = m\<rparr>\<rparr>"
    "pe_end_call t r' e' = (fail InvalidState ''failed call cannot retry'', e')"
  using assms by (simp_all add: end_bad_def set_snapshot_def ledger_at_def pe_inspect_failure_def map_of_alist_set pe_end_call_def Let_def)

lemma end_success:
  assumes inv: "pe_inv e" and t: "map_of (pe_pending e) t = Some p" and res: "pe_end_call t r e = (Inr x, e')"
  obtains (outcome) s where "map_of (pe_ledgers e') (pd_hop p) = Some s" "\<not> ws_pending (ld_snapshot s)" "xr_next_state x = ledger_state s"
    "xr_hop x = pd_hop p" "xr_call_id x = wc_id (pd_call p)"
    "proves_terminal x h \<longleftrightarrow> h = pd_hop p \<and> \<not> pd_ignored p \<and> ledger_state s = WS_Terminal"
    "pe_pending e' = alist_erase t (pe_pending e)" "pe_generation e' = pe_generation e"
proof -
  obtain l where l: "map_of (pe_ledgers e) (pd_hop p) = Some l" using pending_ledger [OF inv t] by metis
  have settle: thesis
    if "e' = end_settle t p s e1" "pe_ledgers e1 = pe_ledgers e" "pe_pending e1 = pe_pending e" "pe_generation e1 = pe_generation e"
      "xr_next_state x = ws_state s" "xr_hop x = pd_hop p" "xr_call_id x = wc_id (pd_call p)"
      "proves_terminal x h \<longleftrightarrow> h = pd_hop p \<and> \<not> pd_ignored p \<and> ws_state s = WS_Terminal" for s e1
  proof (rule outcome)
    show "map_of (pe_ledgers e') (pd_hop p) = Some (l\<lparr>ld_snapshot := s\<lparr>ws_pending := False\<rparr>\<rparr>)"
      using l that(1) by (simp add: end_settle_ledgers [OF l that(2)] map_of_alist_set)
    show "pe_pending e' = alist_erase t (pe_pending e)" "pe_generation e' = pe_generation e"
      using that(1-4) by (simp_all add: end_settle_def set_snapshot_def)
  qed (use that(5-8) in simp_all)
  from res t l show thesis
  proof (cases rule: end_cases)
    case ignored
    show thesis by (rule settle [OF ignored(3)]) (use ignored in \<open>simp_all add: ignored_result_def proves_terminal_def\<close>)
  next
    case (finite tm pk winner a tags)
    show thesis by (rule settle [OF finite(6)]) (use finite(1,5) in \<open>auto simp: end_result_def proves_terminal_def Let_def\<close>)
  next
    case (base tm plan)
    show thesis
      by (rule settle [OF base(7)]) (use base(1,6) in \<open>auto simp: end_result_def proves_terminal_def return_lanes_def Let_def\<close>)
  qed (simp_all add: end_bad_def)
qed

lemma end_consumes:
  assumes inv: "pe_inv e" and res: "pe_end_call t r e = (Inr x, e')"
  shows "consumed t e'"
proof (cases "map_of (pe_pending e) t")
  case (Some p)
  have gen: "h_generation t < pe_generation e" using inv_pending_ledger [OF inv Some] by (simp add: pending_ok_def)
  show ?thesis
    by (rule end_success [OF inv Some res, of t]) (use gen in \<open>auto simp: consumed_def alist_erase_def\<close>)
qed (use res in \<open>simp add: pe_end_call_def\<close>)

lemma consumed_stale: "consumed t e \<Longrightarrow> pe_end_call t r e = (fail StaleHandle ''call ticket consumed'', e)"
  using map_of_eq_None_iff [of "pe_pending e" t] by (auto simp: consumed_def pe_end_call_def)

section \<open>A reachable engine\<close>

text \<open>
  An engine with two ledgers on connection 7; the first has an accepted \<open>BEGIN_REQ\<close> whose call is
  still open.
\<close>

definition demo_hop :: "u64 \<Rightarrow> handle" where
  "demo_hop g = \<lparr>h_kind = HK_Hop, h_domain = 1, h_store = 5, h_slot = 0, h_generation = g, h_owner = 9\<rparr>"

definition demo_ticket :: "u64 \<Rightarrow> handle" where
  "demo_ticket g = \<lparr>h_kind = HK_GateTicket, h_domain = 1, h_store = 5, h_slot = 0, h_generation = g, h_owner = 9\<rparr>"

definition demo_payload :: payload_snapshot where
  "demo_payload = \<lparr>pl_command = Write, pl_address = 64, pl_data = [1, 2], pl_streaming_width = 2, pl_byte_enable = [],
     pl_status = Incomplete, pl_dmi_hint = False, pl_extensions = []\<rparr>"

definition demo_call :: "call_id \<Rightarrow> phase_id \<Rightarrow> wire_call" where
  "demo_call i ph = \<lparr>wc_id = i, wc_connection = 7, wc_transport = 11, wc_flow = Forward, wc_phase = ph, wc_call_time = 100,
     wc_incoming_delay = 5, wc_request = demo_payload\<rparr>"

definition demo_return :: wire_return where
  "demo_return = \<lparr>wr_sync = Completed, wr_phase = None, wr_outgoing_delay = 20,
     wr_response = Some \<lparr>rs_status = Ok, rs_data = [], rs_dmi_hint = False, rs_extensions = []\<rparr>\<rparr>"

definition demo_fresh :: protocol_engine where
  "demo_fresh = fst (the (ProtocolEngine_new 1 2 4 4 8 5))"

definition demo_engine :: protocol_engine where
  "demo_engine = fold pe_apply [Op_create 7 11 1 9, Op_create 7 12 1 9, Op_begin (demo_hop 1) (demo_call 3 begin_req)] demo_fresh"

lemma demo_fresh_eq:
  "demo_fresh = \<lparr>pe_domain = 1, pe_side = 2, pe_store_id = 5, pe_ledger_limit = 4, pe_ticket_limit = 4,
     pe_history_limit = 8, pe_generation = 1, pe_ledgers = [], pe_prepared_bindings = [], pe_prepared_retirements = [],
     pe_pending = [], pe_requests = Map.empty, pe_responses = Map.empty, pe_rules = [], pe_ignorable = [],
     pe_package = None, pe_finite_lanes = []\<rparr>"
  by (simp add: demo_fresh_def ProtocolEngine_new_def allocate_store_incarnation_def)

lemma fold_reachable: "pe_reachable e \<Longrightarrow> pe_reachable (fold pe_apply ops e)"
  by (induction ops arbitrary: e) (auto intro: pe_reachable.step)

lemma demo_fresh_reachable: "pe_reachable demo_fresh"
proof (rule pe_reachable.new)
  show "ProtocolEngine_new 1 2 4 4 8 5 = Some (demo_fresh, 6)"
    by (simp add: demo_fresh_eq ProtocolEngine_new_def allocate_store_incarnation_def)
qed simp

lemma demo_engine_reachable: "pe_reachable demo_engine"
  unfolding demo_engine_def by (rule fold_reachable [OF demo_fresh_reachable])

lemmas demo_eval_defs = pe_create_ledger_def binding_reserved_def transport_bound_def Let_def new_ledger_def ledger_matches_def
  pe_begin_call_def begin_check_def pe_ledger_def plan_base_def request_lane_free_def response_lane_free_def
  call_ignored_def begin_apply_def ledger_at_def ticket_handle_def begin_lanes_def alist_set_def add_time_def checked_add_def

lemma demo_engine_eq:
  "pe_pending demo_engine = [(demo_ticket 3, \<lparr>pd_handle = demo_ticket 3, pd_hop = demo_hop 1, pd_call = demo_call 3 begin_req,
     pd_pre = WS_Idle, pd_input = 105, pd_ignored = False, pd_failed_return = None, pd_failure = None, pd_finite_rule = None,
     pd_draft = []\<rparr>)]"
  "map_of (pe_ledgers demo_engine) (demo_hop 1) = Some \<lparr>ld_snapshot = \<lparr>ws_identity = \<lparr>li_domain = 1, li_local_side = 2,
       li_connection = 7, li_transport = 11, li_transport_generation = 1\<rparr>, ws_state = WS_Request, ws_last_timing = 105,
       ws_faulted = False, ws_pending = True, ws_call_ordinal = 1, ws_protocol_state = 0\<rparr>, ld_handle = demo_hop 1,
     ld_calls = [3], ld_ack = None, ld_request_command = Write, ld_request_length = 2\<rparr>"
  "pe_requests demo_engine 7 = Some (demo_hop 1)" "pe_package demo_engine = None" "pe_responses demo_engine 7 = None"
  by (simp_all add: demo_engine_def demo_fresh_eq demo_hop_def demo_call_def demo_payload_def demo_ticket_def demo_eval_defs)

section \<open>Properties\<close>

text \<open>
  Claim C6. In every reachable engine without a package, the request and the response lane of a
  connection name exactly the ledger that is in the state holding that lane, so that no two
  ledgers of a connection are both in the request state or both in the response state; every open
  ticket has its ledger, marked as waiting, and no ledger has two open tickets.
\<close>

theorem protocol_lane_exclusive:
  assumes "pe_reachable e" and "pe_package e = None"
  shows "(\<forall>c h. pe_requests e c = Some h \<longleftrightarrow>
        (\<exists>l. map_of (pe_ledgers e) h = Some l \<and> ledger_conn l = c \<and> ledger_state l = WS_Request)) \<and>
    (\<forall>c h. pe_responses e c = Some h \<longleftrightarrow>
        (\<exists>l. map_of (pe_ledgers e) h = Some l \<and> ledger_conn l = c \<and> ledger_state l = WS_Response)) \<and>
    (\<forall>h h' l l'. map_of (pe_ledgers e) h = Some l \<and> map_of (pe_ledgers e) h' = Some l' \<and> ledger_conn l = ledger_conn l' \<and>
        ledger_state l = ledger_state l' \<and> ledger_state l \<in> {WS_Request, WS_Response} \<longrightarrow> h = h') \<and>
    (\<forall>t p. map_of (pe_pending e) t = Some p \<longrightarrow>
        (\<exists>l. map_of (pe_ledgers e) (pd_hop p) = Some l \<and> ws_pending (ld_snapshot l) \<and>
             ledger_conn l = wc_connection (pd_call p))) \<and>
    distinct (map (\<lambda>x. pd_hop (snd x)) (pe_pending e))" (is "?req \<and> ?rsp \<and> ?one \<and> ?pend \<and> ?hops")
proof -
  note inv = engine_inv [OF assms(1)]
  note lanes = inv_base_lanes [OF inv assms(2)]
  have req: ?req by (rule lanes(1) [unfolded lanes_exact_def])
  have rsp: ?rsp by (rule lanes(2) [unfolded lanes_exact_def])
  have one: ?one
  proof (intro allI impI)
    fix h h' l l'
    assume a: "map_of (pe_ledgers e) h = Some l \<and> map_of (pe_ledgers e) h' = Some l' \<and> ledger_conn l = ledger_conn l' \<and>
        ledger_state l = ledger_state l' \<and> ledger_state l \<in> {WS_Request, WS_Response}"
    then consider "ledger_state l = WS_Request" | "ledger_state l = WS_Response" by blast
    then show "h = h'"
    proof cases
      case 1
      then show ?thesis using a lanes_exactI [OF lanes(1), of h l] lanes_exactI [OF lanes(1), of h' l'] by simp
    next
      case 2
      then show ?thesis using a lanes_exactI [OF lanes(2), of h l] lanes_exactI [OF lanes(2), of h' l'] by simp
    qed
  qed
  have pend: ?pend using pending_ledger [OF inv] by metis
  have ?hops using inv by (simp add: pe_inv_def)
  with req rsp one pend show ?thesis by blast
qed

theorem protocol_lane_exclusive_witness:
  "pe_requests demo_engine 7 = Some (demo_hop 1) \<and> (\<exists>l. map_of (pe_ledgers demo_engine) (demo_hop 1) = Some l \<and>
     ledger_conn l = 7 \<and> ledger_state l = WS_Request) \<and> distinct (map (\<lambda>x. pd_hop (snd x)) (pe_pending demo_engine))"
  using protocol_lane_exclusive [OF demo_engine_reachable demo_engine_eq(4)] demo_engine_eq(3) by blast

text \<open>
  Claim C14. A step of a reachable engine keeps the identity of a ledger and never takes back its
  timing point or a recorded call id; without a package the wire state only moves forward (idle,
  request, request released, response, terminal); a faulted ledger does not change at all; and a
  ledger disappears only by retiring a terminal ledger, or discarding one that never started,
  with no call open and no fault.
\<close>

theorem protocol_wire_monotone:
  assumes "pe_reachable e" and "map_of (pe_ledgers e) h = Some l"
  shows "case map_of (pe_ledgers (pe_apply op e)) h of
      None \<Rightarrow> \<not> ws_pending (ld_snapshot l) \<and> \<not> ws_faulted (ld_snapshot l) \<and>
        (op = Op_retire h \<and> ledger_state l = WS_Terminal \<or>
         op = Op_discard h \<and> ledger_state l = WS_Idle \<and> ws_call_ordinal (ld_snapshot l) = 0)
    | Some l' \<Rightarrow> ws_identity (ld_snapshot l') = ws_identity (ld_snapshot l) \<and>
        ws_last_timing (ld_snapshot l) \<le> ws_last_timing (ld_snapshot l') \<and>
        (pe_package e = None \<longrightarrow> wire_rank (ledger_state l) \<le> wire_rank (ledger_state l')) \<and>
        set (ld_calls l) \<subseteq> set (ld_calls l') \<and> (ws_faulted (ld_snapshot l) \<longrightarrow> l' = l)"
  using step_ledger [OF engine_inv [OF assms(1)] assms(2), of op]
  unfolding ledger_advances_def removable_def .

theorem protocol_wire_monotone_witness:
  "case map_of (pe_ledgers (pe_apply (Op_end (demo_ticket 3) demo_return) demo_engine)) (demo_hop 1) of
      None \<Rightarrow> False
    | Some l' \<Rightarrow> 105 \<le> ws_last_timing (ld_snapshot l') \<and> wire_rank (ledger_state l') \<ge> 1"
  using protocol_wire_monotone [OF demo_engine_reachable demo_engine_eq(2), of "Op_end (demo_ticket 3) demo_return"] demo_engine_eq(4)
  by (auto simp del: pe_apply.simps split: option.splits)

text \<open>
  Claim C26. A call that is refused leaves the engine as it was. A return that is refused on an
  open ticket of a ledger without a fault sets the fault of that ledger and changes no other
  ledger and no lane; the ticket keeps the call, the return and the error for inspection, and
  every further return on it is refused without a change. Returns on a faulted ledger or on an
  unknown ticket change nothing.
\<close>

theorem protocol_fault_contained:
  assumes "pe_reachable e"
  shows "(\<forall>h c err. fst (pe_begin_call h c e) = Inl err \<longrightarrow> snd (pe_begin_call h c e) = e) \<and>
    (\<forall>t r err e'. pe_end_call t r e = (Inl err, e') \<longrightarrow>
      (case map_of (pe_pending e) t of
         None \<Rightarrow> code err = StaleHandle \<and> e' = e
       | Some p \<Rightarrow> \<exists>l. map_of (pe_ledgers e) (pd_hop p) = Some l \<and>
          (if ws_faulted (ld_snapshot l) then code err = InvalidState \<and> e' = e
           else pe_ledgers e' = alist_set (pd_hop p) (l\<lparr>ld_snapshot := (ld_snapshot l)\<lparr>ws_faulted := True\<rparr>\<rparr>) (pe_ledgers e) \<and>
             pe_requests e' = pe_requests e \<and> pe_responses e' = pe_responses e \<and> pe_finite_lanes e' = pe_finite_lanes e \<and>
             map fst (pe_pending e') = map fst (pe_pending e) \<and>
             pe_inspect_failure e' t = Inr \<lparr>cf_call = pd_call p, cf_returned = Some r, cf_error = err\<rparr> \<and>
             (\<forall>r'. pe_end_call t r' e' = (fail InvalidState ''failed call cannot retry'', e')))))"
proof (intro conjI allI impI)
  note inv = engine_inv [OF assms]
  show "snd (pe_begin_call h c e) = e" if "fst (pe_begin_call h c e) = Inl err" for h c err
    by (rule begin_cases [OF prod.collapse [symmetric], of h c e]) (use that in simp_all)
  fix t r err e' assume fails: "pe_end_call t r e = (Inl err, e')"
  show "case map_of (pe_pending e) t of
         None \<Rightarrow> code err = StaleHandle \<and> e' = e
       | Some p \<Rightarrow> \<exists>l. map_of (pe_ledgers e) (pd_hop p) = Some l \<and>
          (if ws_faulted (ld_snapshot l) then code err = InvalidState \<and> e' = e
           else pe_ledgers e' = alist_set (pd_hop p) (l\<lparr>ld_snapshot := (ld_snapshot l)\<lparr>ws_faulted := True\<rparr>\<rparr>) (pe_ledgers e) \<and>
             pe_requests e' = pe_requests e \<and> pe_responses e' = pe_responses e \<and> pe_finite_lanes e' = pe_finite_lanes e \<and>
             map fst (pe_pending e') = map fst (pe_pending e) \<and>
             pe_inspect_failure e' t = Inr \<lparr>cf_call = pd_call p, cf_returned = Some r, cf_error = err\<rparr> \<and>
             (\<forall>r'. pe_end_call t r' e' = (fail InvalidState ''failed call cannot retry'', e')))"
  proof (cases "map_of (pe_pending e) t")
    case (Some p)
    obtain l where l: "map_of (pe_ledgers e) (pd_hop p) = Some l" using pending_ledger [OF inv Some] by metis
    from fails Some l show ?thesis
    proof (cases rule: end_cases)
      case (bad c m)
      then have err: "err = \<lparr>code = c, message = m\<rparr>" by (simp add: end_bad_def fail_def)
      then have "(fail c m, e') = end_bad t p r c m e" using bad(1) by (simp add: fail_def)
      note effect = end_bad_effect [OF l Some this]
      show ?thesis using Some l bad(2) by (simp add: effect err)
    qed (use Some l in \<open>simp_all add: fail_def\<close>)
  qed (use fails in \<open>auto simp: pe_end_call_def fail_def\<close>)
qed

definition demo_bad_return :: wire_return where
  "demo_bad_return = \<lparr>wr_sync = Updated, wr_phase = Some 9, wr_outgoing_delay = 20, wr_response = None\<rparr>"

lemma demo_bad_end:
  "fst (pe_end_call (demo_ticket 3) demo_bad_return demo_engine) = fail ProtocolViolation ''invalid BEGIN_REQ updated phase''"
  by (simp add: pe_end_call_def demo_engine_eq ledger_at_def end_time_def demo_bad_return_def demo_call_def add_time_def
    checked_add_def plan_return_def Let_def end_bad_def)

theorem protocol_fault_contained_witness:
  "pe_inspect_failure (snd (pe_end_call (demo_ticket 3) demo_bad_return demo_engine)) (demo_ticket 3) =
     Inr \<lparr>cf_call = demo_call 3 begin_req, cf_returned = Some demo_bad_return,
          cf_error = \<lparr>code = ProtocolViolation, message = ''invalid BEGIN_REQ updated phase''\<rparr>\<rparr>"
proof -
  have "pe_end_call (demo_ticket 3) demo_bad_return demo_engine =
      (fail ProtocolViolation ''invalid BEGIN_REQ updated phase'', snd (pe_end_call (demo_ticket 3) demo_bad_return demo_engine))"
    by (subst prod.collapse [symmetric]) (simp only: demo_bad_end)
  from protocol_fault_contained [OF demo_engine_reachable, THEN conjunct2, rule_format, OF this [unfolded fail_def]] demo_engine_eq
  show ?thesis by simp
qed

text \<open>
  Claim C27. A return that succeeds consumes its ticket for good: whatever operations follow, a
  later return on the ticket is refused as stale and changes nothing. The ledger no longer waits,
  the result names the ledger and the call it is about, and it proves that a hop is terminal
  exactly when that hop is the ticket's, the phase was not an ignorable one and the ledger has
  reached the terminal state.
\<close>

theorem protocol_ticket_once:
  assumes "pe_reachable e" and "pe_end_call t r e = (Inr x, e')"
  shows "\<exists>p l. map_of (pe_pending e) t = Some p \<and> map_of (pe_ledgers e') (pd_hop p) = Some l \<and>
    \<not> ws_pending (ld_snapshot l) \<and> xr_hop x = pd_hop p \<and> xr_call_id x = wc_id (pd_call p) \<and>
    xr_next_state x = ledger_state l \<and>
    (proves_terminal x h \<longleftrightarrow> h = pd_hop p \<and> \<not> pd_ignored p \<and> ledger_state l = WS_Terminal) \<and>
    (\<forall>ops r'. pe_end_call t r' (fold pe_apply ops e') =
       (fail StaleHandle ''call ticket consumed'', fold pe_apply ops e'))"
proof (cases "map_of (pe_pending e) t")
  case (Some p)
  note inv = engine_inv [OF assms(1)]
  have "pe_inv e'" using end_inv [OF inv, of t r] assms(2) by simp
  then have "pe_end_call t r' (fold pe_apply ops e') = (fail StaleHandle ''call ticket consumed'', fold pe_apply ops e')" for ops r'
    by (rule consumed_stale [OF consumed_steps [OF _ end_consumes [OF inv assms(2)]]])
  then show ?thesis using end_success [OF inv Some assms(2), of h] Some by metis
qed (use assms(2) in \<open>simp add: pe_end_call_def\<close>)

lemma demo_end: "\<exists>x e'. pe_end_call (demo_ticket 3) demo_return demo_engine = (Inr x, e')"
  by (simp add: pe_end_call_def demo_engine_eq ledger_at_def end_time_def demo_return_def demo_call_def add_time_def
    checked_add_def plan_return_def Let_def check_shortcut_def response_lane_free_def)

theorem protocol_ticket_once_witness:
  "\<exists>x e'. pe_end_call (demo_ticket 3) demo_return demo_engine = (Inr x, e') \<and> xr_hop x = demo_hop 1 \<and> xr_call_id x = 3 \<and>
     (\<forall>ops r. pe_end_call (demo_ticket 3) r (fold pe_apply ops e') =
       (fail StaleHandle ''call ticket consumed'', fold pe_apply ops e'))"
proof -
  obtain x e' where x: "pe_end_call (demo_ticket 3) demo_return demo_engine = (Inr x, e')" using demo_end by blast
  from protocol_ticket_once [OF demo_engine_reachable x, of "demo_hop 1"] x show ?thesis
    by (auto simp: demo_engine_eq demo_call_def)
qed

end
