(* ===== verification/Protocol_Lanes.thy ===== *)
theory Protocol_Lanes
  imports Protocol_Inv
begin

text \<open>
  The lanes of a finite package: in every reachable engine each lane has at most as many owners
  as the package allows, an owner is a ledger of the lane's connection that has begun a call and
  is not terminal, and so a ledger that is retired or discarded holds no lane.
\<close>

section \<open>What validation establishes\<close>

lemma check_actions_ok:
  "check_actions n is_call as seen close = Inr (seen', close') \<Longrightarrow>
   (\<forall>a \<in> set as. lane_action a \<longrightarrow> unat (pa_lane a) < n) \<and> (is_call \<longrightarrow> (\<forall>a \<in> set as. pa_kind a \<noteq> CloseHop)) \<and>
   (close' \<longleftrightarrow> close \<or> (\<exists>a \<in> set as. pa_kind a = CloseHop))"
proof (induction as arbitrary: seen close)
  case (Cons a as)
  let ?key = "(pa_kind a, if lane_action a then pa_lane a else 0)"
  have ok: "\<not> (lane_action a \<and> unat (pa_lane a) \<ge> n)" "\<not> (pa_kind a \<noteq> TraceTag \<and> ?key \<in> set seen)"
      "\<not> (pa_kind a = CloseHop \<and> is_call)"
    using Cons.prems by (simp_all only: check_actions.simps Let_def fail_def split: if_splits) simp_all
  then have "check_actions n is_call as (if pa_kind a \<noteq> TraceTag then ?key # seen else seen) (close \<or> pa_kind a = CloseHop) =
      Inr (seen', close')"
    using Cons.prems by (simp only: check_actions.simps Let_def if_False)
  from Cons.IH [OF this] ok(1,3) show ?case by (simp add: not_le) blast
qed simp

definition rule_valid :: "protocol_package \<Rightarrow> finite_rule \<Rightarrow> bool" where
  "rule_valid p r \<longleftrightarrow> fr_pre r \<notin> set (pk_terminal p) \<and>
     (\<forall>a \<in> set (fr_call_actions r) \<union> set (fr_return_actions r). lane_action a \<longrightarrow> unat (pa_lane a) < length (pk_lanes p)) \<and>
     (\<forall>a \<in> set (fr_call_actions r). pa_kind a \<noteq> CloseHop) \<and>
     ((\<exists>a \<in> set (fr_return_actions r). pa_kind a = CloseHop) \<longrightarrow> fr_post r \<in> set (pk_terminal p))"

lemma check_rule_valid:
  assumes "check_rule p prev r vwork = Inr x"
  shows "rule_valid p r"
proof -
  let ?n = "length (pk_lanes p)"
  have pre: "fr_pre r \<notin> set (pk_terminal p)" using assms by (auto simp: check_rule_def Let_def)
  obtain seen close seen' close' where acts: "check_actions ?n True (fr_call_actions r) [] False = Inr (seen, close)"
      "check_actions ?n False (fr_return_actions r) seen close = Inr (seen', close')"
    and post: "close' \<longleftrightarrow> fr_post r \<in> set (pk_terminal p)"
    using assms by (auto simp: check_rule_def Let_def split: if_splits sum.splits prod.splits)
  from check_actions_ok [OF acts(1)] check_actions_ok [OF acts(2)] post pre show ?thesis
    by (auto simp: rule_valid_def)
qed

lemma check_rules_valid: "check_rules p prev rs vwork = Inr u \<Longrightarrow> \<forall>r \<in> set rs. rule_valid p r"
proof (induction p prev rs vwork rule: check_rules.induct)
  case (2 p prev r rs vwork)
  then obtain work v where c: "check_rule p prev r vwork = Inr (work, v)"
    and rec: "check_rules p (prev @ [(r, work)]) rs v = Inr u" by (auto split: sum.splits)
  from "2.IH" [OF c refl rec] check_rule_valid [OF c] show ?case by simp
qed simp

lemma validated_rule: "validate_protocol_package p = Inr u \<Longrightarrow> r \<in> set (pk_rules p) \<Longrightarrow> rule_valid p r"
  using check_rules_valid [of p "[]" "pk_rules p" 0 u] by (auto simp: validate_protocol_package_def split: if_splits)

section \<open>Lanes under the actions of a rule\<close>

definition lane_ok :: "u32 list \<Rightarrow> lane_registry \<Rightarrow> bool" where
  "lane_ok caps reg \<longleftrightarrow> (\<forall>c lane. distinct (lane_owners reg (c, lane)) \<and>
     (lane_owners reg (c, lane) \<noteq> [] \<longrightarrow>
        unat lane < length caps \<and> length (lane_owners reg (c, lane)) \<le> unat (caps ! unat lane)))"

text \<open>The actions of a call of \<open>hop\<close> on connection \<open>c\<close> add no other owner.\<close>

definition adds_only :: "handle \<Rightarrow> connection_id \<Rightarrow> lane_registry \<Rightarrow> lane_registry \<Rightarrow> bool" where
  "adds_only hop c reg reg' \<longleftrightarrow>
     (\<forall>k h. h \<in> set (lane_owners reg' k) \<longrightarrow> h \<in> set (lane_owners reg k) \<or> h = hop \<and> fst k = c)"

lemma lane_owners_erase: "lane_owners (filter (\<lambda>x. fst x \<noteq> k) ls) j = (if j = k then [] else lane_owners ls j)"
  using map_of_alist_erase [of k ls j] by (simp add: lane_owners_def alist_erase_def)

lemma lane_owners_set: "lane_owners (set_lane k hs ls) j = (if j = k then hs else lane_owners ls j)"
  using map_of_alist_erase [of k ls j] by (auto simp: lane_owners_def set_lane_def alist_erase_def)

lemma lane_owners_mem: "h \<in> set (lane_owners reg k) \<Longrightarrow> \<exists>x \<in> set reg. fst x = k \<and> h \<in> set (snd x)"
  by (cases "map_of reg k") (simp_all add: lane_owners_def, drule map_of_SomeD, force)

lemma finite_action_lanes:
  assumes act: "finite_action caps hop c ret tm x a = Inr a'" and ok: "lane_ok caps (as_lanes a)"
    and range: "lane_action x \<longrightarrow> unat (pa_lane x) < length caps"
  shows "lane_ok caps (as_lanes a') \<and> adds_only hop (wc_connection c) (as_lanes a) (as_lanes a') \<and>
    (as_state a' = WS_Terminal \<longrightarrow> pa_kind x = CloseHop \<or> as_state a = WS_Terminal)"
proof (cases "lane_action x")
  case False
  then have "as_lanes a' = as_lanes a" and "as_state a' = WS_Terminal \<longrightarrow> pa_kind x = CloseHop \<or> as_state a = WS_Terminal"
    using act by (auto simp: finite_action_def Let_def lane_action_def push_milestone_def
      split: action_kind.splits if_splits sum.splits option.splits)
  with ok show ?thesis by (simp add: adds_only_def)
next
  case True
  let ?k = "(wc_connection c, pa_lane x)" and ?o = "lane_owners (as_lanes a) (wc_connection c, pa_lane x)"
  consider (acquire) "hop \<notin> set ?o" "length ?o < unat (caps ! unat (pa_lane x))" "a' = a\<lparr>as_lanes := set_lane ?k (hop # ?o) (as_lanes a)\<rparr>"
    | (empty) "filter (\<lambda>h. h \<noteq> hop) ?o = []" "a' = a\<lparr>as_lanes := filter (\<lambda>x. fst x \<noteq> ?k) (as_lanes a)\<rparr>"
    | (release) "a' = a\<lparr>as_lanes := set_lane ?k (filter (\<lambda>h. h \<noteq> hop) ?o) (as_lanes a)\<rparr>" "hop \<in> set ?o"
    using act True by (auto simp: finite_action_def Let_def lane_action_def split: if_splits)
  then show ?thesis
  proof cases
    case acquire
    then show ?thesis using ok range True by (auto simp: lane_ok_def adds_only_def lane_owners_set Suc_le_eq)
  next
    case empty
    then show ?thesis using ok by (auto simp: lane_ok_def adds_only_def lane_owners_erase)
  next
    case release
    then have "?o \<noteq> []" by auto
    with ok have "length ?o \<le> unat (caps ! unat (pa_lane x))" unfolding lane_ok_def by blast
    then have "length (filter (\<lambda>h. h \<noteq> hop) ?o) \<le> unat (caps ! unat (pa_lane x))"
      by (rule order_trans [OF length_filter_le])
    with ok release(1) range True show ?thesis by (auto simp: lane_ok_def adds_only_def lane_owners_set)
  qed
qed

lemma adds_only_refl: "adds_only hop c reg reg"
  by (simp add: adds_only_def)

lemma adds_only_trans: "adds_only hop c a b \<Longrightarrow> adds_only hop c b d \<Longrightarrow> adds_only hop c a d"
  unfolding adds_only_def by blast

lemma finite_loop_lanes:
  "finite_action_loop caps hop c ret tm xs a = Inr a' \<Longrightarrow> lane_ok caps (as_lanes a) \<Longrightarrow>
   \<forall>x \<in> set xs. lane_action x \<longrightarrow> unat (pa_lane x) < length caps \<Longrightarrow>
   lane_ok caps (as_lanes a') \<and> adds_only hop (wc_connection c) (as_lanes a) (as_lanes a') \<and>
   (as_state a' = WS_Terminal \<longrightarrow> (\<exists>x \<in> set xs. pa_kind x = CloseHop) \<or> as_state a = WS_Terminal)"
proof (induction xs arbitrary: a)
  case (Cons x xs)
  then obtain b where b: "finite_action caps hop c ret tm x a = Inr b" "finite_action_loop caps hop c ret tm xs b = Inr a'"
    by (auto split: sum.splits)
  from Cons.prems(3) have x: "lane_action x \<longrightarrow> unat (pa_lane x) < length caps"
    and xs: "\<forall>x \<in> set xs. lane_action x \<longrightarrow> unat (pa_lane x) < length caps" by simp_all
  note first = finite_action_lanes [OF b(1) Cons.prems(2) x]
  note rest = Cons.IH [OF b(2) conjunct1 [OF first] xs]
  from first rest show ?case using adds_only_trans by (metis list.set_intros)
qed (simp add: adds_only_refl)

lemma finite_actions_lanes:
  assumes "finite_actions caps hop c ret tm xs a = Inr a'" and "lane_ok caps (as_lanes a)"
    and "\<forall>x \<in> set xs. lane_action x \<longrightarrow> unat (pa_lane x) < length caps"
  shows "lane_ok caps (as_lanes a')" "adds_only hop (wc_connection c) (as_lanes a) (as_lanes a')"
    "as_state a' = WS_Terminal \<Longrightarrow> (\<exists>x \<in> set xs. pa_kind x = CloseHop) \<or> as_state a = WS_Terminal"
    "\<exists>x \<in> set xs. pa_kind x = CloseHop \<Longrightarrow> hop \<notin> set (lane_owners (as_lanes a') (wc_connection c, lane))"
proof -
  have loop: "finite_action_loop caps hop c ret tm xs a = Inr a'"
    using assms(1) by (auto simp: finite_actions_def Let_def split: sum.splits if_splits)
  note lanes = finite_loop_lanes [OF loop assms(2,3)]
  show "lane_ok caps (as_lanes a')" "adds_only hop (wc_connection c) (as_lanes a) (as_lanes a')"
    "as_state a' = WS_Terminal \<Longrightarrow> (\<exists>x \<in> set xs. pa_kind x = CloseHop) \<or> as_state a = WS_Terminal" using lanes by blast+
  assume close: "\<exists>x \<in> set xs. pa_kind x = CloseHop"
  then have none: "\<not> (\<exists>x \<in> set (as_lanes a'). fst (fst x) = wc_connection c \<and> hop \<in> set (snd x))"
    using assms(1) by (simp add: finite_actions_def Let_def loop split: if_splits)
  show "hop \<notin> set (lane_owners (as_lanes a') (wc_connection c, lane))"
  proof
    assume "hop \<in> set (lane_owners (as_lanes a') (wc_connection c, lane))"
    from lane_owners_mem [OF this] none show False by auto
  qed
qed

section \<open>The invariant of the lanes\<close>

text \<open>A ledger that may own lanes of its connection.\<close>

definition active :: "ledger \<Rightarrow> bool" where
  "active l \<longleftrightarrow> ledger_state l \<noteq> WS_Terminal \<and> ws_call_ordinal (ld_snapshot l) \<noteq> 0"

definition ledger_counts :: "protocol_engine \<Rightarrow> ledger \<Rightarrow> bool" where
  "ledger_counts e l \<longleftrightarrow> ws_call_ordinal (ld_snapshot l) = of_nat (length (ld_calls l)) \<and> length (ld_calls l) \<le> pe_history_limit e"

definition package_inv_of :: "protocol_package \<Rightarrow> lane_registry \<Rightarrow> (handle \<times> ledger) list \<Rightarrow> (handle \<times> pending_call) list \<Rightarrow> bool" where
  "package_inv_of pk reg ls pd \<longleftrightarrow> validate_protocol_package pk = Inr () \<and> lane_ok (pk_lanes pk) reg \<and>
     (\<forall>k h. h \<in> set (lane_owners reg k) \<longrightarrow> (\<exists>l. map_of ls h = Some l \<and> ledger_conn l = fst k \<and> active l)) \<and>
     (\<forall>h l. map_of ls h = Some l \<longrightarrow> ledger_state l = WS_Terminal \<longrightarrow> ws_protocol_state (ld_snapshot l) \<in> set (pk_terminal pk)) \<and>
     (\<forall>t p. (t, p) \<in> set pd \<longrightarrow> (\<exists>i l. pd_finite_rule p = Some i \<and> i < length (pk_rules pk) \<and>
        map_of ls (pd_hop p) = Some l \<and> active l))"

definition finite_inv :: "protocol_engine \<Rightarrow> bool" where
  "finite_inv e \<longleftrightarrow> pe_history_limit e < 2 ^ 64 \<and> (\<forall>h l. map_of (pe_ledgers e) h = Some l \<longrightarrow> ledger_counts e l) \<and>
     (pe_package e = None \<longrightarrow> pe_finite_lanes e = []) \<and>
     (\<forall>pk. pe_package e = Some pk \<longrightarrow> package_inv_of pk (pe_finite_lanes e) (pe_ledgers e) (pe_pending e))"

lemma new_finite: "ProtocolEngine_new d s l t h n = Some (e, n') \<Longrightarrow> h < 2 ^ 64 \<Longrightarrow> finite_inv e"
  by (auto simp: ProtocolEngine_new_def finite_inv_def split: option.splits)

lemma same_finite:
  assumes "finite_inv e" and "pe_history_limit e' = pe_history_limit e" "pe_ledgers e' = pe_ledgers e"
    "pe_package e' = pe_package e" "pe_finite_lanes e' = pe_finite_lanes e" "pe_pending e' = pe_pending e"
  shows "finite_inv e'"
  using assms by (simp add: finite_inv_def ledger_counts_def)

lemma ignorable_finite: "finite_inv e \<Longrightarrow> finite_inv (snd (pe_allow_ignorable p e))"
  by (auto simp: pe_allow_ignorable_def intro: same_finite)

lemma rules_finite: "finite_inv e \<Longrightarrow> finite_inv (snd (pe_install_rules rs e))"
  by (auto simp: pe_install_rules_def finite_inv_def split: sum.splits)

text \<open>Without ledgers no lane is owned, so that a new package starts with free lanes.\<close>

lemma package_finite:
  assumes inv: "pe_inv e" and fin: "finite_inv e"
  shows "finite_inv (snd (pe_install_package pk e))"
proof (cases "pe_ledgers e = [] \<and> pe_prepared_bindings e = [] \<and> validate_protocol_package pk = Inr ()")
  case True
  have "lane_owners (pe_finite_lanes e) k = []" for k
  proof (cases "pe_package e")
    case None
    then show ?thesis using fin by (simp add: finite_inv_def lane_owners_def)
  next
    case (Some q)
    then have "package_inv_of q (pe_finite_lanes e) (pe_ledgers e) (pe_pending e)" using fin by (simp add: finite_inv_def)
    then have "h \<notin> set (lane_owners (pe_finite_lanes e) k)" for h using True unfolding package_inv_of_def by fastforce
    then show ?thesis by (cases "lane_owners (pe_finite_lanes e) k") auto
  qed
  then have "package_inv_of pk (pe_finite_lanes e) [] []" using True by (simp add: package_inv_of_def lane_ok_def)
  then show ?thesis using True fin no_ledgers_no_lanes(3) [OF inv] by (simp add: pe_install_package_def finite_inv_def)
next
  case False
  then have "snd (pe_install_package pk e) = e" by (auto simp: pe_install_package_def split: sum.splits)
  with fin show ?thesis by simp
qed

lemma snoc_finite:
  assumes fin: "finite_inv e" and new: "map_of (pe_ledgers e) h = None"
    and ls: "pe_ledgers e' = pe_ledgers e @ [(h, new_ledger e h c t g)]"
    and rest: "pe_history_limit e' = pe_history_limit e" "pe_package e' = pe_package e"
      "pe_finite_lanes e' = pe_finite_lanes e" "pe_pending e' = pe_pending e"
  shows "finite_inv e'"
proof -
  have look: "map_of (pe_ledgers e') j = (if j = h then Some (new_ledger e h c t g) else map_of (pe_ledgers e) j)" for j
    using new unfolding ls map_of_snoc by (auto split: option.splits)
  have l: "ledger_counts e (new_ledger e h c t g)" by (simp add: ledger_counts_def new_ledger_def)
  have "package_inv_of pk reg (pe_ledgers e') pd" if "package_inv_of pk reg (pe_ledgers e) pd" for pk reg pd
  proof -
    have old: "map_of (pe_ledgers e') j = Some x" if "map_of (pe_ledgers e) j = Some x" for j x
      using that new by (auto simp: look)
    have fresh: "ledger_state x = WS_Terminal \<longrightarrow> map_of (pe_ledgers e) j = Some x" if "map_of (pe_ledgers e') j = Some x" for j x
      using that by (auto simp: look split: if_splits)
    from that old fresh show ?thesis unfolding package_inv_of_def by meson
  qed
  then show ?thesis using fin l unfolding finite_inv_def rest look ledger_counts_def by simp
qed

lemma create_finite:
  assumes "pe_inv e" and "finite_inv e"
  shows "finite_inv (snd (pe_create_ledger c t g owner e))"
proof (cases "snd (pe_create_ledger c t g owner e) = e")
  case False
  let ?h = "\<lparr>h_kind = HK_Hop, h_domain = pe_domain e, h_store = pe_store_id e, h_slot = 0,
     h_generation = pe_generation e, h_owner = owner\<rparr>"
  have eq: "snd (pe_create_ledger c t g owner e) =
      e\<lparr>pe_ledgers := pe_ledgers e @ [(?h, new_ledger e ?h c t g)], pe_generation := pe_generation e + 1\<rparr>"
    using False by (simp add: pe_create_ledger_def Let_def split: if_splits)
  show ?thesis unfolding eq by (rule snoc_finite [OF assms(2) fresh_ledger [OF assms(1), of ?h]]) simp_all
qed (use assms in simp)

lemma bind_finite:
  assumes "finite_inv e"
  shows "finite_inv (snd (pe_bind_ledger h c t g e))"
  using bind_cases [OF prod.collapse [symmetric], of h c t g e]
proof (elim disjE conjE)
  assume 2: "map_of (pe_ledgers e) h = None" "snd (pe_bind_ledger h c t g e) =
      e\<lparr>pe_ledgers := pe_ledgers e @ [(h, new_ledger e h c t g)], pe_generation := max (pe_generation e) (h_generation h + 1)\<rparr>"
  show ?thesis unfolding 2(2) by (rule snoc_finite [OF assms 2(1)]) simp_all
qed (use assms in simp)

text \<open>A ledger that goes away owns no lane and has no open ticket.\<close>

lemma erase_finite:
  assumes fin: "finite_inv e" and l: "map_of (pe_ledgers e) h = Some l" and idle: "\<not> active l"
  shows "finite_inv (e\<lparr>pe_ledgers := alist_erase h (pe_ledgers e)\<rparr>)"
proof -
  have keep: "map_of (alist_erase h (pe_ledgers e)) j = Some x" if "map_of (pe_ledgers e) j = Some x" "active x" for j x
    using that l idle by (auto simp: map_of_alist_erase)
  have orig: "map_of (pe_ledgers e) j = Some x" if "map_of (alist_erase h (pe_ledgers e)) j = Some x" for j x
    using that by (auto simp: map_of_alist_erase split: if_splits)
  have "package_inv_of pk reg (alist_erase h (pe_ledgers e)) pd" if "package_inv_of pk reg (pe_ledgers e) pd" for pk reg pd
    using that keep orig unfolding package_inv_of_def by meson
  moreover have "ledger_counts e x" if "map_of (alist_erase h (pe_ledgers e)) j = Some x" for j x
    using fin orig [OF that] by (simp add: finite_inv_def)
  ultimately show ?thesis using fin by (simp add: finite_inv_def ledger_counts_def)
qed

lemma retire_finite:
  assumes "finite_inv e"
  shows "finite_inv (snd (pe_retire_ledger h e))" "finite_inv (snd (pe_discard_unstarted_ledger h e))"
  using assms erase_finite [OF assms, of h]
  by (auto simp: pe_retire_ledger_def pe_discard_unstarted_ledger_def Let_def active_def split: sum.splits)

text \<open>A change of one ledger that keeps it active when it was, with the lanes that fit it.\<close>

lemma update_finite:
  assumes fin: "finite_inv e" and l: "map_of (pe_ledgers e) h = Some l"
    and ls: "pe_ledgers e' = alist_set h l' (pe_ledgers e)" and conn: "ledger_conn l' = ledger_conn l"
    and same: "pe_history_limit e' = pe_history_limit e" "pe_package e' = pe_package e"
    and counts: "ledger_counts e l'"
    and base: "pe_package e = None \<Longrightarrow> pe_finite_lanes e' = pe_finite_lanes e"
    and lanes: "\<And>pk. pe_package e = Some pk \<Longrightarrow> lane_ok (pk_lanes pk) (pe_finite_lanes e') \<and>
      adds_only h (ledger_conn l) (pe_finite_lanes e) (pe_finite_lanes e')"
    and own: "\<And>pk lane. pe_package e = Some pk \<Longrightarrow> h \<in> set (lane_owners (pe_finite_lanes e') (ledger_conn l, lane)) \<Longrightarrow> active l'"
    and closed: "\<And>pk. pe_package e = Some pk \<Longrightarrow> ledger_state l' = WS_Terminal \<Longrightarrow>
      ws_protocol_state (ld_snapshot l') \<in> set (pk_terminal pk)"
    and pend: "\<And>pk t p. pe_package e = Some pk \<Longrightarrow> (t, p) \<in> set (pe_pending e') \<Longrightarrow>
      (\<exists>q. (t, q) \<in> set (pe_pending e) \<and> pd_hop p = pd_hop q \<and> pd_finite_rule p = pd_finite_rule q \<and> (pd_hop q = h \<longrightarrow> active l')) \<or>
      pd_hop p = h \<and> active l' \<and> (\<exists>i. pd_finite_rule p = Some i \<and> i < length (pk_rules pk))"
  shows "finite_inv e'"
proof -
  have look: "map_of (pe_ledgers e') j = (if j = h then Some l' else map_of (pe_ledgers e) j)" for j
    using l by (simp add: ls map_of_alist_set)
  have pkg: "package_inv_of pk (pe_finite_lanes e') (pe_ledgers e') (pe_pending e')" if pk: "pe_package e = Some pk" for pk
  proof -
    have old: "package_inv_of pk (pe_finite_lanes e) (pe_ledgers e) (pe_pending e)" using fin pk by (simp add: finite_inv_def)
    have "\<exists>x. map_of (pe_ledgers e') j = Some x \<and> ledger_conn x = fst k \<and> active x"
      if j: "j \<in> set (lane_owners (pe_finite_lanes e') k)" for k j
    proof -
      from lanes [OF pk] j consider (old) "j \<in> set (lane_owners (pe_finite_lanes e) k)" | (new) "j = h" "fst k = ledger_conn l"
        unfolding adds_only_def by blast
      then have c: "j = h \<longrightarrow> fst k = ledger_conn l" and o: "j \<noteq> h \<longrightarrow> j \<in> set (lane_owners (pe_finite_lanes e) k)"
        using old l unfolding package_inv_of_def by (cases; fastforce)+
      show ?thesis
      proof (cases "j = h")
        case True
        with c j have "h \<in> set (lane_owners (pe_finite_lanes e') (ledger_conn l, snd k))" by (cases k) auto
        from own [OF pk this] True c conn show ?thesis by (simp add: look)
      next
        case False
        with o old have "\<exists>x. map_of (pe_ledgers e) j = Some x \<and> ledger_conn x = fst k \<and> active x"
          unfolding package_inv_of_def by meson
        with False show ?thesis by (simp add: look)
      qed
    qed
    moreover have "ws_protocol_state (ld_snapshot x) \<in> set (pk_terminal pk)"
      if "map_of (pe_ledgers e') j = Some x" "ledger_state x = WS_Terminal" for j x
      using that old closed [OF pk] unfolding package_inv_of_def by (auto simp: look split: if_splits)
    moreover have "\<exists>i x. pd_finite_rule p = Some i \<and> i < length (pk_rules pk) \<and> map_of (pe_ledgers e') (pd_hop p) = Some x \<and> active x"
      if "(t, p) \<in> set (pe_pending e')" for t p
      using pend [OF pk that] old unfolding package_inv_of_def by (fastforce simp: look)
    ultimately show ?thesis using old lanes [OF pk] unfolding package_inv_of_def by meson
  qed
  have "ledger_counts e' x" if "map_of (pe_ledgers e') j = Some x" for j x
    using that fin counts same(1) by (auto simp: look finite_inv_def ledger_counts_def split: if_splits)
  with pkg fin base same show ?thesis unfolding finite_inv_def by simp
qed

lemma finite_package: "finite_inv e \<Longrightarrow> pe_package e = Some pk \<Longrightarrow> package_inv_of pk (pe_finite_lanes e) (pe_ledgers e) (pe_pending e)"
  by (simp add: finite_inv_def)

lemma call_rule_lanes: "rule_valid pk r \<Longrightarrow> \<forall>x \<in> set (fr_call_actions r). lane_action x \<longrightarrow> unat (pa_lane x) < length (pk_lanes pk)"
  and return_rule_lanes: "rule_valid pk r \<Longrightarrow> \<forall>x \<in> set (fr_return_actions r). lane_action x \<longrightarrow> unat (pa_lane x) < length (pk_lanes pk)"
  by (auto simp: rule_valid_def)

text \<open>A planned call comes from a rule of the package, from a state that is not terminal.\<close>

lemma plan_finite_Inr:
  assumes plan: "plan_finite pk lanes s h c input = Inr plan" and valid: "validate_protocol_package pk = Inr ()"
    and ok: "lane_ok (pk_lanes pk) lanes"
    and closed: "ws_state s = WS_Terminal \<Longrightarrow> ws_protocol_state s \<in> set (pk_terminal pk)"
  shows "cp_next plan \<noteq> WS_Terminal" "\<exists>i. cp_finite_rule plan = Some i \<and> i < length (pk_rules pk)"
    "lane_ok (pk_lanes pk) (cp_lanes plan)" "adds_only h (wc_connection c) lanes (cp_lanes plan)"
proof -
  obtain i a where i: "i < length (pk_rules pk)" "fr_pre (pk_rules pk ! i) = ws_protocol_state s"
    and a: "finite_actions (pk_lanes pk) h c None input (fr_call_actions (pk_rules pk ! i))
        \<lparr>as_state = ws_state s, as_lanes = lanes, as_milestones = []\<rparr> = Inr a"
    and plan': "cp_next plan = as_state a" "cp_finite_rule plan = Some i" "cp_lanes plan = as_lanes a"
    using plan by (auto simp: plan_finite_def Let_def dest!: find_SomeD split: option.splits if_splits sum.splits)
  have r: "rule_valid pk (pk_rules pk ! i)" using validated_rule [OF valid] i(1) by simp
  have "ws_state s \<noteq> WS_Terminal" using r i(2) closed by (auto simp: rule_valid_def)
  moreover note acts = finite_actions_lanes [OF a _ call_rule_lanes [OF r], simplified, OF ok]
  ultimately show "cp_next plan \<noteq> WS_Terminal" using r unfolding plan' rule_valid_def by auto
  show "\<exists>i. cp_finite_rule plan = Some i \<and> i < length (pk_rules pk)"
    "lane_ok (pk_lanes pk) (cp_lanes plan)" "adds_only h (wc_connection c) lanes (cp_lanes plan)"
    using acts i(1) plan' by simp_all
qed

lemma begun_counts:
  assumes "finite_inv e" and "map_of (pe_ledgers e) h = Some l" and "length (ld_calls l) < pe_history_limit e"
  shows "ledger_counts e (begun_ledger e l c input plan)" "ws_call_ordinal (ld_snapshot (begun_ledger e l c input plan)) \<noteq> 0"
proof -
  have l: "ws_call_ordinal (ld_snapshot l) = of_nat (length (ld_calls l))" "pe_history_limit e < 2 ^ 64"
    using assms by (simp_all add: finite_inv_def ledger_counts_def)
  have ord: "ws_call_ordinal (ld_snapshot (begun_ledger e l c input plan)) = of_nat (Suc (length (ld_calls l)))"
    by (simp add: begun_ledger_def Let_def l(1))
  then show "ledger_counts e (begun_ledger e l c input plan)" using assms(3) by (simp add: ledger_counts_def)
  have "Suc (length (ld_calls l)) < 2 ^ 64" using assms(3) l(2) by linarith
  then have "unat (of_nat (Suc (length (ld_calls l))) :: u64) = Suc (length (ld_calls l))" by (simp add: unat_of_nat del: of_nat_Suc)
  then show "ws_call_ordinal (ld_snapshot (begun_ledger e l c input plan)) \<noteq> 0" unfolding ord by auto
qed

lemma begin_history: "begin_check h c e = Inr x \<Longrightarrow> map_of (pe_ledgers e) h = Some l \<Longrightarrow> length (ld_calls l) < pe_history_limit e"
  by (auto simp: begin_check_def pe_ledger_def Let_def split: sum.splits if_splits)

lemma begin_apply_history: "pe_history_limit (snd (begin_apply h c input plan e)) = pe_history_limit e"
  by (simp add: begin_apply_def begin_lanes_def Let_def)

lemma begin_finite:
  assumes fin: "finite_inv e"
  shows "finite_inv (snd (pe_begin_call h c e))"
proof (rule begin_cases [OF prod.collapse [symmetric], of h c e])
  fix input plan th
  let ?e = "snd (pe_begin_call h c e)"
  assume chk: "begin_check h c e = Inr (input, plan)" and app: "begin_apply h c input plan e = (th, ?e)"
  obtain l where l: "map_of (pe_ledgers e) h = Some l" "ledger_conn l = wc_connection c"
    and base: "pe_package e = None \<longrightarrow> cp_lanes plan = pe_finite_lanes e"
    and pk: "\<forall>pk. pe_package e = Some pk \<longrightarrow> plan_finite pk (pe_finite_lanes e) (ld_snapshot l) h c input = Inr plan"
    using begin_check_Inr [OF chk] by metis
  note a = begin_apply_simps [OF l(1) app]
  note counts = begun_counts [OF fin l(1) begin_history [OF chk l(1)], of c input plan]
  have plan: "cp_next plan \<noteq> WS_Terminal" "\<exists>i. cp_finite_rule plan = Some i \<and> i < length (pk_rules q)"
      "lane_ok (pk_lanes q) (cp_lanes plan)" "adds_only h (wc_connection c) (pe_finite_lanes e) (cp_lanes plan)"
    if q: "pe_package e = Some q" for q
    using plan_finite_Inr [OF pk [rule_format, OF q]] finite_package [OF fin q] l(1) unfolding package_inv_of_def by blast+
  have act: "active (begun_ledger e l c input plan)" if "pe_package e = Some q" for q
    using plan(1) [OF that] counts(2) that by (simp add: active_def call_ignored_def)
  show ?thesis
  proof (rule update_finite [OF fin l(1) a(2)])
    show "pe_history_limit ?e = pe_history_limit e"
      using begin_apply_history [of h c input plan e] app by simp
    fix q t p assume q: "pe_package e = Some q" and mem: "(t, p) \<in> set (pe_pending ?e)"
    then consider "(t, p) \<in> set (pe_pending e)" | "p = begun_call e h l c input plan" by (auto simp: a(3))
    then show "(\<exists>q. (t, q) \<in> set (pe_pending e) \<and> pd_hop p = pd_hop q \<and> pd_finite_rule p = pd_finite_rule q \<and>
          (pd_hop q = h \<longrightarrow> active (begun_ledger e l c input plan))) \<or>
        pd_hop p = h \<and> active (begun_ledger e l c input plan) \<and> (\<exists>i. pd_finite_rule p = Some i \<and> i < length (pk_rules q))"
      using act [OF q] plan(2) [OF q] by cases (auto simp: begun_call_def)
  qed (use counts base plan act l(2) in \<open>auto simp: a(5,7) active_def\<close>)
qed (use fin in simp)

text \<open>Changes that leave the counters, the state and the lanes alone.\<close>

lemma touch_finite:
  assumes fin: "finite_inv e" and l: "map_of (pe_ledgers e) h = Some l"
    and ls: "pe_ledgers e' = alist_set h l' (pe_ledgers e)" and conn: "ledger_conn l' = ledger_conn l"
    and same: "pe_history_limit e' = pe_history_limit e" "pe_package e' = pe_package e" "pe_finite_lanes e' = pe_finite_lanes e"
    and kept: "ws_call_ordinal (ld_snapshot l') = ws_call_ordinal (ld_snapshot l)" "ld_calls l' = ld_calls l"
      "ledger_state l' = ledger_state l" "ws_protocol_state (ld_snapshot l') = ws_protocol_state (ld_snapshot l)"
    and pend: "\<And>t p. (t, p) \<in> set (pe_pending e') \<Longrightarrow>
      \<exists>q. (t, q) \<in> set (pe_pending e) \<and> pd_hop p = pd_hop q \<and> pd_finite_rule p = pd_finite_rule q"
  shows "finite_inv e'"
proof (rule update_finite [OF fin l ls conn same(1,2)])
  have act: "active l' = active l" by (simp add: active_def kept)
  show "ledger_counts e l'" using fin l by (simp add: finite_inv_def ledger_counts_def kept)
  fix pk assume pk: "pe_package e = Some pk"
  note inv = finite_package [OF fin pk]
  show "lane_ok (pk_lanes pk) (pe_finite_lanes e') \<and> adds_only h (ledger_conn l) (pe_finite_lanes e) (pe_finite_lanes e')"
    using inv by (simp add: same(3) package_inv_of_def adds_only_refl)
  show "active l'" if "h \<in> set (lane_owners (pe_finite_lanes e') (ledger_conn l, lane))" for lane
    using that inv l unfolding act same(3) package_inv_of_def by fastforce
  show "ws_protocol_state (ld_snapshot l') \<in> set (pk_terminal pk)" if "ledger_state l' = WS_Terminal"
    using that inv l unfolding kept package_inv_of_def by blast
  show "(\<exists>q. (t, q) \<in> set (pe_pending e) \<and> pd_hop p = pd_hop q \<and> pd_finite_rule p = pd_finite_rule q \<and> (pd_hop q = h \<longrightarrow> active l')) \<or>
      pd_hop p = h \<and> active l' \<and> (\<exists>i. pd_finite_rule p = Some i \<and> i < length (pk_rules pk))"
    if mem: "(t, p) \<in> set (pe_pending e')" for t p
  proof -
    obtain q where q: "(t, q) \<in> set (pe_pending e)" "pd_hop p = pd_hop q" "pd_finite_rule p = pd_finite_rule q"
      using pend [OF mem] by blast
    then have "pd_hop q = h \<longrightarrow> active l'" using inv l unfolding act package_inv_of_def by fastforce
    with q show ?thesis by blast
  qed
qed (simp add: same)

lemma fault_finite:
  assumes inv: "pe_inv e" and fin: "finite_inv e" and p: "map_of (pe_pending e) t = Some p"
    and p': "pd_hop p' = pd_hop p" "pd_finite_rule p' = pd_finite_rule p"
  shows "finite_inv (set_snapshot (pd_hop p) ((ld_snapshot (ledger_at e (pd_hop p)))\<lparr>ws_faulted := True\<rparr>)
    (e\<lparr>pe_pending := alist_set t p' (pe_pending e)\<rparr>))"
proof -
  obtain l where l: "map_of (pe_ledgers e) (pd_hop p) = Some l"
    using inv_pending_ledger [OF inv p] by (auto simp: pending_ok_def)
  show ?thesis
  proof (rule touch_finite [OF fin l, where l' = "l\<lparr>ld_snapshot := (ld_snapshot l)\<lparr>ws_faulted := True\<rparr>\<rparr>"])
    fix s q assume "(s, q) \<in> set (pe_pending (set_snapshot (pd_hop p) ((ld_snapshot (ledger_at e (pd_hop p)))\<lparr>ws_faulted := True\<rparr>)
      (e\<lparr>pe_pending := alist_set t p' (pe_pending e)\<rparr>)))"
    then have "(s, q) \<in> set (alist_set t p' (pe_pending e))" by (simp add: set_snapshot_def)
    from alist_set_mem [OF this] show "\<exists>r. (s, r) \<in> set (pe_pending e) \<and> pd_hop q = pd_hop r \<and> pd_finite_rule q = pd_finite_rule r"
      using map_of_SomeD [OF p] p' by blast
  qed (use l in \<open>simp_all add: set_snapshot_def ledger_at_def\<close>)
qed

lemma fail_finite:
  assumes "pe_inv e" and "finite_inv e"
  shows "finite_inv (snd (pe_fail_call t err e))"
proof (cases "map_of (pe_pending e) t")
  case (Some p)
  with fault_finite [OF assms Some, of "p\<lparr>pd_failure := Some err\<rparr>"] assms show ?thesis by (simp add: pe_fail_call_def)
qed (use assms in \<open>simp add: pe_fail_call_def\<close>)

lemma ack_finite:
  assumes "finite_inv e"
  shows "finite_inv (snd (pe_ack_cell h epoch e))"
proof -
  have "finite_inv (e\<lparr>pe_ledgers := alist_set h (l\<lparr>ld_ack := a\<rparr>) (pe_ledgers e)\<rparr>)"
    if "map_of (pe_ledgers e) h = Some l" for l a
    by (rule touch_finite [OF assms that, where l' = "l\<lparr>ld_ack := a\<rparr>"]) auto
  with ack_cases [OF prod.collapse [symmetric], of h epoch e] assms show ?thesis by auto
qed

text \<open>Settling a return: the ticket is gone, the ledger stays active unless its hop was closed.\<close>

lemma end_finite_lanes:
  assumes valid: "validate_protocol_package pk = Inr ()" and ok: "lane_ok (pk_lanes pk) lanes"
    and act: "end_finite pk p s r tm lanes = Inr (winner, a, tags)" and live: "ws_state s \<noteq> WS_Terminal"
  shows "lane_ok (pk_lanes pk) (as_lanes a)" "adds_only (pd_hop p) (wc_connection (pd_call p)) lanes (as_lanes a)"
    "as_state a = WS_Terminal \<Longrightarrow> fr_post winner \<in> set (pk_terminal pk) \<and>
      pd_hop p \<notin> set (lane_owners (as_lanes a) (wc_connection (pd_call p), lane))"
proof -
  have pick: "pick_rule (return_match (pk_rules pk ! the (pd_finite_rule p)) (pd_call p) r) (pk_rules pk) = Some winner"
    and acts: "finite_actions (pk_lanes pk) (pd_hop p) (pd_call p) (Some r) tm (fr_return_actions winner)
      \<lparr>as_state = ws_state s, as_lanes = lanes, as_milestones = pd_draft p\<rparr> = Inr a"
    using act by (auto simp: end_finite_def Let_def split: option.splits sum.splits)
  have r: "rule_valid pk winner" using validated_rule [OF valid] pick_rule_least(2) [OF pick] by blast
  note lanes = finite_actions_lanes [OF acts _ return_rule_lanes [OF r], simplified, OF ok]
  show "lane_ok (pk_lanes pk) (as_lanes a)" "adds_only (pd_hop p) (wc_connection (pd_call p)) lanes (as_lanes a)" by (fact lanes)+
  show "fr_post winner \<in> set (pk_terminal pk) \<and> pd_hop p \<notin> set (lane_owners (as_lanes a) (wc_connection (pd_call p), lane))"
    if "as_state a = WS_Terminal" using lanes(3,4) that live r unfolding rule_valid_def by blast
qed

lemma settle_finite:
  assumes inv: "pe_inv e" and fin: "finite_inv e" and p: "map_of (pe_pending e) t = Some p"
    and l: "map_of (pe_ledgers e) (pd_hop p) = Some l"
    and s: "ws_identity s = ws_identity (ld_snapshot l)" "ws_call_ordinal s = ws_call_ordinal (ld_snapshot l)"
    and e1: "pe_ledgers e1 = pe_ledgers e" "pe_pending e1 = pe_pending e" "pe_package e1 = pe_package e"
      "pe_history_limit e1 = pe_history_limit e" "pe_package e = None \<Longrightarrow> pe_finite_lanes e1 = pe_finite_lanes e"
    and lanes: "\<And>pk. pe_package e = Some pk \<Longrightarrow> lane_ok (pk_lanes pk) (pe_finite_lanes e1) \<and>
      adds_only (pd_hop p) (ledger_conn l) (pe_finite_lanes e) (pe_finite_lanes e1)"
    and closed: "\<And>pk lane. pe_package e = Some pk \<Longrightarrow> ws_state s = WS_Terminal \<Longrightarrow>
      ws_protocol_state s \<in> set (pk_terminal pk) \<and> pd_hop p \<notin> set (lane_owners (pe_finite_lanes e1) (ledger_conn l, lane))"
  shows "finite_inv (end_settle t p s e1)" (is "finite_inv ?e")
proof -
  let ?l = "l\<lparr>ld_snapshot := s\<lparr>ws_pending := False\<rparr>\<rparr>"
  have ls: "pe_ledgers ?e = alist_set (pd_hop p) ?l (pe_ledgers e)"
    using l e1(1) by (simp add: end_settle_def set_snapshot_def ledger_at_def)
  have rest: "pe_pending ?e = alist_erase t (pe_pending e)" "pe_package ?e = pe_package e" "pe_history_limit ?e = pe_history_limit e"
      "pe_finite_lanes ?e = pe_finite_lanes e1"
    using e1 by (simp_all add: end_settle_def set_snapshot_def)
  have ord: "ws_call_ordinal s \<noteq> 0" if "pe_package e = Some pk" for pk
    using finite_package [OF fin that] map_of_SomeD [OF p] l s(2) unfolding package_inv_of_def active_def by fastforce
  show ?thesis
  proof (rule update_finite [OF fin l ls])
    fix pk t' p' assume pk: "pe_package e = Some pk" and "(t', p') \<in> set (pe_pending ?e)"
    then have mem: "(t', p') \<in> set (pe_pending e)" "t' \<noteq> t" by (simp_all add: rest alist_erase_set)
    from other_hop [OF inv p mem] mem(1)
    show "(\<exists>q. (t', q) \<in> set (pe_pending e) \<and> pd_hop p' = pd_hop q \<and> pd_finite_rule p' = pd_finite_rule q \<and>
        (pd_hop q = pd_hop p \<longrightarrow> active ?l)) \<or>
      pd_hop p' = pd_hop p \<and> active ?l \<and> (\<exists>i. pd_finite_rule p' = Some i \<and> i < length (pk_rules pk))" by blast
  next
    fix pk lane assume pk: "pe_package e = Some pk"
      and own: "pd_hop p \<in> set (lane_owners (pe_finite_lanes ?e) (ledger_conn l, lane))"
    then show "active ?l" using closed [OF pk] ord [OF pk] by (auto simp: active_def rest)
  next
    show "ledger_counts e ?l" using fin l s(2) by (simp add: finite_inv_def ledger_counts_def)
  qed (use s(1) e1(5) lanes closed in \<open>simp_all add: rest\<close>)
qed

lemma end_finite_inv:
  assumes inv: "pe_inv e" and fin: "finite_inv e"
  shows "finite_inv (snd (pe_end_call t r e))"
proof (cases "map_of (pe_pending e) t")
  case (Some p)
  then obtain l where l: "map_of (pe_ledgers e) (pd_hop p) = Some l" and k: "ledger_conn l = wc_connection (pd_call p)"
    using inv_pending_ledger [OF inv] by (auto simp: pending_ok_def)
  have keep: "lane_ok (pk_lanes pk) (pe_finite_lanes e) \<and> adds_only h c (pe_finite_lanes e) (pe_finite_lanes e)"
      "ledger_state l \<noteq> WS_Terminal" "validate_protocol_package pk = Inr ()"
    if "pe_package e = Some pk" for pk h c
    using finite_package [OF fin that] map_of_SomeD [OF Some] l unfolding package_inv_of_def active_def
    by (auto simp: adds_only_refl) fastforce
  from prod.collapse [symmetric, of "pe_end_call t r e"] Some l show ?thesis
  proof (cases rule: end_cases)
    case (bad c m)
    then have "snd (pe_end_call t r e) = snd (end_bad t p r c m e)" by (simp add: bad_eq)
    then show ?thesis
      using fault_finite [OF inv fin Some, of "p\<lparr>pd_failed_return := Some r, pd_failure := Some \<lparr>code = c, message = m\<rparr>\<rparr>"]
      by (simp add: end_bad_def)
  next
    case ignored
    show ?thesis unfolding ignored(3) by (rule settle_finite [OF inv fin Some l]) (use keep in auto)
  next
    case (finite tm pk winner a tags)
    have live: "ledger_state l \<noteq> WS_Terminal" and ok: "lane_ok (pk_lanes pk) (pe_finite_lanes e)"
      and valid: "validate_protocol_package pk = Inr ()" using keep [OF finite(3)] by blast+
    note lanes = end_finite_lanes [OF valid ok finite(4) live, folded k]
    show ?thesis unfolding finite(6)
      by (rule settle_finite [OF inv fin Some l]) (use lanes finite(3) in \<open>auto simp: Let_def\<close>)
  next
    case (base tm plan)
    show ?thesis unfolding base(7)
      by (rule settle_finite [OF inv fin Some l]) (use base(3) in \<open>auto simp: Let_def return_lanes_def\<close>)
  qed (use fin in simp)
qed (use fin in \<open>simp add: pe_end_call_def\<close>)

lemma begin_any_finite: "finite_inv e \<Longrightarrow> finite_inv (snd (pe_begin_call_any c e))"
  using begin_finite by (simp add: pe_begin_call_any_def split: list.splits)

lemma apply_finite: "pe_inv e \<Longrightarrow> finite_inv e \<Longrightarrow> finite_inv (pe_apply op e)"
  by (cases op) (simp_all add: create_finite bind_finite retire_finite ignorable_finite rules_finite package_finite
    begin_finite begin_any_finite end_finite_inv fail_finite ack_finite)

lemma reachable_finite: "pe_reachable e \<Longrightarrow> finite_inv e"
proof (induction rule: pe_reachable.induct)
  case (step e op)
  then show ?case using apply_finite engine_inv by blast
qed (rule new_finite)

lemma active_kept:
  assumes "map_of (pe_ledgers e) h = Some l" and "active l"
  shows "pe_retire_ledger h e = (fail InvalidState ''ledger retains external responsibility'', e)"
    "pe_discard_unstarted_ledger h e = (fail InvalidState ''ledger has real call responsibility'', e)"
  using assms by (simp_all add: pe_retire_ledger_def pe_discard_unstarted_ledger_def pe_ledger_def active_def)

section \<open>Property\<close>

text \<open>
  Claim C28. In every reachable engine with an installed package, each lane of each connection
  has distinct owners, no more than the capacity the package gives it, and a lane index inside
  the package; each owner is a live ledger of that connection that has begun a call and is not
  terminal. So the ledgers that retiring or discarding removes own no lane, and no lane is
  leaked.
\<close>

theorem finite_lane_capacity:
  assumes "pe_reachable e" and "pe_package e = Some pk"
  shows "distinct (lane_owners (pe_finite_lanes e) (c, lane)) \<and>
    (lane_owners (pe_finite_lanes e) (c, lane) \<noteq> [] \<longrightarrow> unat lane < length (pk_lanes pk) \<and>
       length (lane_owners (pe_finite_lanes e) (c, lane)) \<le> unat (pk_lanes pk ! unat lane)) \<and>
    (\<forall>h \<in> set (lane_owners (pe_finite_lanes e) (c, lane)).
       (\<exists>l. map_of (pe_ledgers e) h = Some l \<and> ledger_conn l = c \<and> ledger_state l \<noteq> WS_Terminal \<and>
            ws_call_ordinal (ld_snapshot l) \<noteq> 0) \<and>
       pe_retire_ledger h e = (fail InvalidState ''ledger retains external responsibility'', e) \<and>
       pe_discard_unstarted_ledger h e = (fail InvalidState ''ledger has real call responsibility'', e))"
proof -
  have inv: "package_inv_of pk (pe_finite_lanes e) (pe_ledgers e) (pe_pending e)"
    by (rule finite_package [OF reachable_finite [OF assms(1)] assms(2)])
  then have ok: "lane_ok (pk_lanes pk) (pe_finite_lanes e)"
    and own: "\<forall>k h. h \<in> set (lane_owners (pe_finite_lanes e) k) \<longrightarrow>
      (\<exists>l. map_of (pe_ledgers e) h = Some l \<and> ledger_conn l = fst k \<and> active l)" unfolding package_inv_of_def by blast+
  have owner: "(\<exists>l. map_of (pe_ledgers e) h = Some l \<and> ledger_conn l = c \<and> ledger_state l \<noteq> WS_Terminal \<and>
            ws_call_ordinal (ld_snapshot l) \<noteq> 0) \<and>
       pe_retire_ledger h e = (fail InvalidState ''ledger retains external responsibility'', e) \<and>
       pe_discard_unstarted_ledger h e = (fail InvalidState ''ledger has real call responsibility'', e)"
    if mem: "h \<in> set (lane_owners (pe_finite_lanes e) (c, lane))" for h
  proof -
    obtain l where "map_of (pe_ledgers e) h = Some l" "ledger_conn l = c" "active l"
      using own [rule_format, OF mem] by auto
    with active_kept show ?thesis by (simp add: active_def)
  qed
  show ?thesis using ok [unfolded lane_ok_def, rule_format, of c lane] owner by (intro conjI ballI) simp_all
qed

definition demo_lanes_engine :: protocol_engine where
  "demo_lanes_engine = fold pe_apply [Op_package demo_package, Op_create 7 11 1 9, Op_begin_any demo_finite_call]
     (fst (the (ProtocolEngine_new 1 2 4 4 8 5)))"

lemma demo_lanes_reachable: "pe_reachable demo_lanes_engine"
proof -
  have "pe_reachable (fst (the (ProtocolEngine_new 1 2 4 4 8 5)))"
    by (rule pe_reachable.new [of 1 2 4 4 8 5 _ 6]) (simp_all add: ProtocolEngine_new_def allocate_store_incarnation_def)
  then show ?thesis unfolding demo_lanes_engine_def by (simp add: pe_reachable.step del: pe_apply.simps)
qed

lemma demo_package_sel [simp]:
  "pk_rules demo_package = [demo_rule 2, demo_rule 1]" "pk_lanes demo_package = [1]" "pk_initial demo_package = 0"
  "fr_pre (demo_rule n) = 0" "fr_flow (demo_rule n) = Forward" "fr_phase (demo_rule n) = 0"
  "fr_call_guard (demo_rule n) = Guard G_Always 0 0 []" "fr_entry_lanes (demo_rule n) = [0]"
  "fr_call_actions (demo_rule n) =
     [\<lparr>pa_kind = OpenHop, pa_lane = 0, pa_tag = []\<rparr>, \<lparr>pa_kind = AcquireLane, pa_lane = 0, pa_tag = []\<rparr>]"
  by (simp_all add: demo_package_def demo_rule_def)

lemma demo_lanes_eq:
  "pe_package demo_lanes_engine = Some demo_package"
  "lane_owners (pe_finite_lanes demo_lanes_engine) (7, 0) = [\<lparr>h_kind = HK_Hop, h_domain = 1, h_store = 5, h_slot = 0,
     h_generation = 1, h_owner = 9\<rparr>]"
  by (simp_all add: demo_lanes_engine_def ProtocolEngine_new_def allocate_store_incarnation_def pe_install_package_def
    demo_package_valid pe_create_ledger_def binding_reserved_def transport_bound_def Let_def new_ledger_def
    pe_begin_call_any_def matching_ledgers_def ledger_matches_def demo_finite_call_def pe_begin_call_def begin_check_def
    pe_ledger_def add_time_def checked_add_def plan_finite_def entry_blocked_def
    finite_actions_def finite_action_def lane_owners_def set_lane_def begin_apply_def ledger_at_def call_ignored_def)

theorem finite_lane_capacity_witness:
  "length (lane_owners (pe_finite_lanes demo_lanes_engine) (7, 0)) \<le> unat (pk_lanes demo_package ! unat (0 :: u32)) \<and>
   lane_owners (pe_finite_lanes demo_lanes_engine) (7, 0) \<noteq> []"
  using finite_lane_capacity [OF demo_lanes_reachable demo_lanes_eq(1), of 7 0] demo_lanes_eq(2) by simp

end
