(* ===== verification/Exec_IR.thy ===== *)
theory Exec_IR
  imports Common
begin

text \<open>
  The executable representation of \<open>runtime/include/leanat/exec_ir.hpp\<close>: types, instructions,
  blocks and programs of a project with its metadata, the effect and context tables of the
  opcodes and the conformance of values to types, from \<open>runtime/src/exec_ir.cpp\<close>.

  An opcode is kept as its number, because the source compares the numbers and a decoded
  descriptor may hold a number that no enumerator has. The other enumerations hold their
  declared values, so the range checks on them are left out.
\<close>

section \<open>Types\<close>

datatype type_kind =
    TK_Unit | TK_Bool | TK_Bits | TK_Fin | TK_Record | TK_Variant | TK_Vec | TK_BoundedVec | TK_Bytes | TK_Handle

record ir_type =
  ty_kind :: type_kind
  ty_bound :: u64
  ty_fields :: "u32 list"
  ty_constructors :: "u32 list list"

record reg =
  rg_id :: u32
  rg_type :: u32

section \<open>Instructions and programs\<close>

type_synonym opcode = u8

abbreviation (input) Op_Const :: opcode where "Op_Const \<equiv> 0"
abbreviation (input) Op_Move :: opcode where "Op_Move \<equiv> 1"
abbreviation (input) Op_Binary :: opcode where "Op_Binary \<equiv> 2"
abbreviation (input) Op_MakeRecord :: opcode where "Op_MakeRecord \<equiv> 3"
abbreviation (input) Op_GetField :: opcode where "Op_GetField \<equiv> 4"
abbreviation (input) Op_MakeVariant :: opcode where "Op_MakeVariant \<equiv> 5"
abbreviation (input) Op_VariantTag :: opcode where "Op_VariantTag \<equiv> 6"
abbreviation (input) Op_VariantGet :: opcode where "Op_VariantGet \<equiv> 7"
abbreviation (input) Op_MakeVec :: opcode where "Op_MakeVec \<equiv> 8"
abbreviation (input) Op_VecGet :: opcode where "Op_VecGet \<equiv> 9"
abbreviation (input) Op_VecSet :: opcode where "Op_VecSet \<equiv> 10"
abbreviation (input) Op_SelectValue :: opcode where "Op_SelectValue \<equiv> 11"
abbreviation (input) Op_LoadState :: opcode where "Op_LoadState \<equiv> 12"
abbreviation (input) Op_BufferStateWrite :: opcode where "Op_BufferStateWrite \<equiv> 13"
abbreviation (input) Op_Check :: opcode where "Op_Check \<equiv> 14"
abbreviation (input) Op_Trace :: opcode where "Op_Trace \<equiv> 15"
abbreviation (input) Op_Unary :: opcode where "Op_Unary \<equiv> 16"
abbreviation (input) Op_Compare :: opcode where "Op_Compare \<equiv> 17"
abbreviation (input) Op_Convert :: opcode where "Op_Convert \<equiv> 18"
abbreviation (input) Op_CallPure :: opcode where "Op_CallPure \<equiv> 19"
abbreviation (input) Op_GetNow :: opcode where "Op_GetNow \<equiv> 20"
abbreviation (input) Op_BufferOutputWrite :: opcode where "Op_BufferOutputWrite \<equiv> 23"
abbreviation (input) Op_PayloadGet :: opcode where "Op_PayloadGet \<equiv> 24"
abbreviation (input) Op_BufferExtensionWrite :: opcode where "Op_BufferExtensionWrite \<equiv> 27"
abbreviation (input) Op_ObjectCall :: opcode where "Op_ObjectCall \<equiv> 28"
abbreviation (input) Op_NewTransaction :: opcode where "Op_NewTransaction \<equiv> 29"
abbreviation (input) Op_CancelLocal :: opcode where "Op_CancelLocal \<equiv> 32"
abbreviation (input) Op_ResultGet :: opcode where "Op_ResultGet \<equiv> 33"
abbreviation (input) Op_ResultRelease :: opcode where "Op_ResultRelease \<equiv> 34"
abbreviation (input) Op_ScheduleEvent :: opcode where "Op_ScheduleEvent \<equiv> 35"
abbreviation (input) Op_CancelEvent :: opcode where "Op_CancelEvent \<equiv> 36"
abbreviation (input) Op_SpawnProcess :: opcode where "Op_SpawnProcess \<equiv> 37"
abbreviation (input) Op_TrySpawnProcess :: opcode where "Op_TrySpawnProcess \<equiv> 38"
abbreviation (input) Op_RegisterWait :: opcode where "Op_RegisterWait \<equiv> 39"
abbreviation (input) Op_ReadWaitResult :: opcode where "Op_ReadWaitResult \<equiv> 40"
abbreviation (input) Op_SetTransportReturn :: opcode where "Op_SetTransportReturn \<equiv> 41"
abbreviation (input) Op_DebugTransfer :: opcode where "Op_DebugTransfer \<equiv> 42"
abbreviation (input) Op_GrantRawDmi :: opcode where "Op_GrantRawDmi \<equiv> 43"
abbreviation (input) Op_DenyDmi :: opcode where "Op_DenyDmi \<equiv> 44"
abbreviation (input) Op_InvalidateRawDmi :: opcode where "Op_InvalidateRawDmi \<equiv> 45"
abbreviation (input) Op_WaitGroupNew :: opcode where "Op_WaitGroupNew \<equiv> 46"
abbreviation (input) Op_WaitGroupRelease :: opcode where "Op_WaitGroupRelease \<equiv> 49"
abbreviation (input) Op_ScopeNew :: opcode where "Op_ScopeNew \<equiv> 50"
abbreviation (input) Op_ScopeClose :: opcode where "Op_ScopeClose \<equiv> 53"
abbreviation (input) Op_SubmitTask :: opcode where "Op_SubmitTask \<equiv> 54"
abbreviation (input) Op_CancelTask :: opcode where "Op_CancelTask \<equiv> 55"
abbreviation (input) Op_TaskResultGet :: opcode where "Op_TaskResultGet \<equiv> 56"
abbreviation (input) Op_TaskResultRelease :: opcode where "Op_TaskResultRelease \<equiv> 57"
abbreviation (input) Op_RequestTaskSlot :: opcode where "Op_RequestTaskSlot \<equiv> 58"
abbreviation (input) Op_RequestManaged :: opcode where "Op_RequestManaged \<equiv> 59"
abbreviation (input) Op_ReleaseLease :: opcode where "Op_ReleaseLease \<equiv> 63"
abbreviation (input) Op_CallExternPure :: opcode where "Op_CallExternPure \<equiv> 64"
abbreviation (input) Op_Count :: opcode where "Op_Count \<equiv> 65"

datatype binary_op = AddWrap | SubWrap | MulWrap | AddChecked | DivChecked | BinEq | BinLt | BinAnd | BinOr

record instruction =
  in_op :: opcode
  in_args :: "reg list"
  in_dest :: "reg option"
  in_value :: value_t
  in_immediate :: u32
  in_binary :: binary_op
  in_text :: string
  in_source :: string

record edge =
  eg_target :: u32
  eg_args :: "reg list"

datatype term_kind = TermJump | TermBranch | TermSwitch | TermReturn | TermFail | TermTransportReturn | TermSuspend

record terminator =
  tr_kind :: term_kind
  tr_value :: reg
  tr_yes :: edge
  tr_no :: edge
  tr_cases :: "(u64 \<times> edge) list"
  tr_values :: "reg list"
  tr_error :: string

record block =
  bk_id :: u32
  bk_parameters :: "reg list"
  bk_instructions :: "instruction list"
  bk_terminator :: terminator

record frame_slot =
  fs_type :: u32
  fs_offset :: u32
  fs_align :: u32
  fs_register :: u32

abbreviation (input) Eff_StateRead :: u64 where "Eff_StateRead \<equiv> 1"
abbreviation (input) Eff_StateWrite :: u64 where "Eff_StateWrite \<equiv> 2"
abbreviation (input) Eff_OutputWrite :: u64 where "Eff_OutputWrite \<equiv> 4"
abbreviation (input) Eff_Transaction :: u64 where "Eff_Transaction \<equiv> 8"
abbreviation (input) Eff_Wait :: u64 where "Eff_Wait \<equiv> 16"
abbreviation (input) Eff_Spawn :: u64 where "Eff_Spawn \<equiv> 32"
abbreviation (input) Eff_Result :: u64 where "Eff_Result \<equiv> 64"
abbreviation (input) Eff_Object :: u64 where "Eff_Object \<equiv> 128"
abbreviation (input) Eff_Managed :: u64 where "Eff_Managed \<equiv> 256"
abbreviation (input) Eff_External :: u64 where "Eff_External \<equiv> 512"
abbreviation (input) Eff_RawDmi :: u64 where "Eff_RawDmi \<equiv> 1024"

record service_signature =
  sv_id :: u32
  sv_op :: opcode
  sv_input_types :: "u32 list"
  sv_result_types :: "u32 list"
  sv_context_mask :: u32
  sv_effect_mask :: u64
  sv_extra_fuel :: u64
  sv_provider_key :: string
  sv_provider_version :: string
  sv_abi_hash :: bytes

record program =
  pg_id :: u32
  pg_input_types :: "u32 list"
  pg_result_types :: "u32 list"
  pg_blocks :: "block list"
  pg_entry :: u32
  pg_source :: string
  pg_context :: context_kind
  pg_frame :: "frame_slot list"
  pg_frame_bytes :: u32
  pg_effect_mask :: u64
  pg_instruction_fuel :: u64
  pg_owner_policy :: string
  pg_result_lifetime_policy :: string

section \<open>Metadata\<close>

record metadata_source =
  ms_file :: string
  ms_line :: u32
  ms_column :: u32

record parameter_desc =
  pa_id :: u32
  pa_type_id :: u32
  pa_default_value :: "value_t option"
  pa_source :: metadata_source

record state_desc =
  sd_id :: u32
  sd_type_id :: u32
  sd_initial :: value_t

datatype endpoint_role = Initiator | Target

record endpoint_desc =
  ep_id :: u32
  ep_role :: endpoint_role
  ep_bus_width :: u32
  ep_max_bindings :: u32
  ep_max_outstanding :: u32
  ep_max_payload_bytes :: u32
  ep_max_byte_enable_bytes :: u32
  ep_protocol_ref :: string
  ep_source :: metadata_source

datatype port_direction = PortInput | PortOutput

record port_desc =
  po_id :: u32
  po_direction :: port_direction
  po_type_id :: u32
  po_initial :: "value_t option"
  po_source :: metadata_source

datatype process_overflow = PO_Reject | PO_AwaitSlot | PO_Queue

record process_capacity =
  pc_max_instances :: u32
  pc_frame_bytes_limit :: u32
  pc_result_capacity :: u32
  pc_overflow :: process_overflow
  pc_policy_bound :: u32

record handler_binding =
  hb_local_id :: u32
  hb_program_id :: u32
  hb_context :: context_kind
  hb_trigger :: string
  hb_endpoint :: "u32 option"
  hb_process_capacity :: "process_capacity option"
  hb_source :: string

record component_desc =
  cd_id :: u32
  cd_parameters :: "parameter_desc list"
  cd_states :: "state_desc list"
  cd_endpoints :: "endpoint_desc list"
  cd_sidebands :: "port_desc list"
  cd_reset_policy :: string
  cd_source :: string

type_synonym resolved_config = "(u32 \<times> value_t) list"

record instance_desc =
  ins_id :: u32
  ins_definition :: u32
  ins_state_base :: u32
  ins_state_count :: u32
  ins_handlers :: "handler_binding list"
  ins_resolved_config :: resolved_config
  ins_source :: string

record original_instance =
  oi_id :: u32
  oi_definition :: u32
  oi_resolved_config :: resolved_config
  oi_source :: metadata_source

record endpoint_ref =
  er_instance_id :: u32
  er_endpoint :: u32
  er_binding_index :: u32

record binding_desc =
  bd_id :: u32
  bd_source_endpoint :: endpoint_ref
  bd_sink_endpoint :: endpoint_ref
  bd_source :: metadata_source

record port_ref =
  prf_tag :: u8
  prf_instance_id :: u32
  prf_port_id :: u32

record sideband_binding =
  sb_id :: u32
  sb_source_port :: port_ref
  sb_sink_port :: port_ref
  sb_source :: metadata_source

record address_map_desc =
  am_id :: u32
  am_decoder_instance_id :: u32
  am_output_endpoint :: u32
  am_binding_index :: u32
  am_source_start :: u64
  am_size :: u64
  am_target_start :: u64
  am_alias_declared :: bool
  am_source :: metadata_source

record system_metadata =
  sm_id :: u32
  sm_original_instances :: "original_instance list"
  sm_bindings :: "binding_desc list"
  sm_top_ports :: "port_desc list"
  sm_sideband_bindings :: "sideband_binding list"
  sm_address_maps :: "address_map_desc list"
  sm_runtime_domain :: u32
  sm_source :: metadata_source

datatype metadata_literal =
  MetadataLiteral (ml_tag: u8) (ml_width: u32) (ml_value: value_t) (ml_children: "metadata_literal list")

record external_contract =
  xc_id :: u32
  xc_cpp_type :: string
  xc_header :: string
  xc_library :: string
  xc_constructor_mapping :: "(string \<times> metadata_literal) list"
  xc_requirements :: "string list"
  xc_ensures :: "string list"
  xc_assumptions :: "string list"
  xc_evidence :: "string list"
  xc_source :: metadata_source

record project =
  pj_types :: "ir_type list"
  pj_state_types :: "u32 list"
  pj_initial_state :: "value_t list"
  pj_programs :: "program list"
  pj_profile :: string
  pj_schema_major :: nat
  pj_services :: "service_signature list"
  pj_components :: "component_desc list"
  pj_instances :: "instance_desc list"
  pj_system_metadata :: "system_metadata option"
  pj_external_contracts :: "external_contract list"
  pj_capabilities :: "string list"

record limits =
  lm_max_rows :: nat
  lm_max_depth :: nat
  lm_max_work :: nat
  lm_max_value_elements :: nat
  lm_max_registers :: nat

section \<open>Effects and contexts of the opcodes\<close>

abbreviation between :: "opcode \<Rightarrow> opcode \<Rightarrow> opcode \<Rightarrow> bool" where
  "between a b opc \<equiv> a \<le> opc \<and> opc \<le> b"

definition required_effect :: "opcode \<Rightarrow> u64" where
  "required_effect opc =
     (if opc = Op_LoadState then Eff_StateRead
      else if opc = Op_BufferStateWrite then Eff_StateWrite
      else if opc = Op_BufferOutputWrite then Eff_OutputWrite
      else if between Op_PayloadGet Op_BufferExtensionWrite opc \<or> between Op_NewTransaction Op_CancelLocal opc \<or>
          opc = Op_ScheduleEvent \<or> opc = Op_CancelEvent \<or> opc = Op_SetTransportReturn then Eff_Transaction
      else if opc = Op_RegisterWait \<or> opc = Op_ReadWaitResult \<or> between Op_WaitGroupNew Op_WaitGroupRelease opc then Eff_Wait
      else if opc = Op_SpawnProcess \<or> opc = Op_TrySpawnProcess \<or> opc = Op_SubmitTask \<or> opc = Op_CancelTask \<or>
          opc = Op_RequestTaskSlot \<or> between Op_ScopeNew Op_ScopeClose opc then Eff_Spawn
      else if opc = Op_ResultGet \<or> opc = Op_ResultRelease \<or> opc = Op_TaskResultGet \<or> opc = Op_TaskResultRelease then Eff_Result
      else if opc = Op_ObjectCall \<or> opc = Op_DebugTransfer then Eff_Object
      else if between Op_RequestManaged Op_ReleaseLease opc then Eff_Managed
      else if opc = Op_CallExternPure then Eff_External
      else if opc = Op_GrantRawDmi \<or> opc = Op_DenyDmi \<or> opc = Op_InvalidateRawDmi then Eff_RawDmi
      else 0)"

definition allowed_contexts :: "opcode \<Rightarrow> u32" where
  "allowed_contexts opc =
     (if opc = Op_GetNow \<or> between Op_PayloadGet Op_BufferExtensionWrite opc then 7
      else if opc = Op_CallPure \<or> opc = Op_Unary \<or> opc = Op_Compare \<or> opc = Op_Convert then 31
      else if opc = Op_RegisterWait \<or> opc = Op_ReadWaitResult \<or> opc = Op_RequestTaskSlot \<or>
          between Op_WaitGroupNew Op_WaitGroupRelease opc then 2
      else if opc = Op_SetTransportReturn then 4
      else if opc = Op_DebugTransfer then 8
      else if opc = Op_GrantRawDmi \<or> opc = Op_DenyDmi then 16
      else if opc = Op_InvalidateRawDmi then 3
      else if opc < 12 \<or> opc = Op_Check \<or> opc = Op_Trace then 31 else 3)"

fun context_code :: "context_kind \<Rightarrow> nat" where
  "context_code CK_Timed = 0" | "context_code CK_Process = 1" | "context_code CK_Transport = 2"
| "context_code CK_Debug = 3" | "context_code CK_Dmi = 4"

fun handle_code :: "handle_kind \<Rightarrow> u64" where
  "handle_code HK_Transaction = 0" | "handle_code HK_Hop = 1" | "handle_code HK_Event = 2"
| "handle_code HK_Process = 3" | "handle_code HK_Wait = 4" | "handle_code HK_Result = 5"
| "handle_code HK_Consumer = 6" | "handle_code HK_Scope = 7" | "handle_code HK_Task = 8"
| "handle_code HK_Access = 9" | "handle_code HK_Lease = 10" | "handle_code HK_ResourceTicket = 11"
| "handle_code HK_SpawnTicket = 12" | "handle_code HK_Drain = 13" | "handle_code HK_GateTicket = 14"

text \<open>\<open>mask & (1u << context)\<close>\<close>

definition context_in :: "context_kind \<Rightarrow> u32 \<Rightarrow> bool" where
  "context_in c m \<longleftrightarrow> m AND push_bit (context_code c) 1 \<noteq> 0"

section \<open>Conformance of values\<close>

abbreviation type_at :: "project \<Rightarrow> u32 \<Rightarrow> ir_type" where
  "type_at p t \<equiv> pj_types p ! unat t"

abbreviation type_ok :: "project \<Rightarrow> u32 \<Rightarrow> bool" where
  "type_ok p t \<equiv> unat t < length (pj_types p)"

text \<open>The first argument is the depth \<open>d\<close> of the source.\<close>

primrec conforms :: "nat \<Rightarrow> project \<Rightarrow> u32 \<Rightarrow> value_t \<Rightarrow> bool" where
  "conforms 0 p t v \<longleftrightarrow> False"
| "conforms (Suc d) p t v \<longleftrightarrow> type_ok p t \<and>
     (let s = type_at p t; fields = list_all2 (conforms d p) in
      case ty_kind s of
        TK_Bytes \<Rightarrow> (case v of VBytes b \<Rightarrow> length b \<le> unat (ty_bound s) | _ \<Rightarrow> False)
      | TK_Handle \<Rightarrow> (case v of VHandle h \<Rightarrow> handle_code (h_kind h) = ty_bound s | _ \<Rightarrow> False)
      | TK_Unit \<Rightarrow> v = VUnit
      | TK_Bool \<Rightarrow> (case v of VBool _ \<Rightarrow> True | _ \<Rightarrow> False)
      | TK_Bits \<Rightarrow> (case v of VU64 n \<Rightarrow> ty_bound s \<noteq> 0 \<and> ty_bound s \<le> 64 \<and>
            (ty_bound s = 64 \<or> n < push_bit (unat (ty_bound s)) 1) | _ \<Rightarrow> False)
      | TK_Fin \<Rightarrow> (case v of VU64 n \<Rightarrow> pj_schema_major p \<ge> 5 \<and> ty_bound s = 0 \<or> n < ty_bound s | _ \<Rightarrow> False)
      | TK_Record \<Rightarrow> (case v of VArray vs \<Rightarrow> fields (ty_fields s) vs | _ \<Rightarrow> False)
      | TK_Variant \<Rightarrow>
          (case v of
             VArray [VU64 tag, VArray fs] \<Rightarrow>
               unat tag < length (ty_constructors s) \<and> fields (ty_constructors s ! unat tag) fs
           | _ \<Rightarrow> False)
      | TK_Vec \<Rightarrow>
          (case v of
             VArray vs \<Rightarrow> length (ty_fields s) = 1 \<and> length vs = unat (ty_bound s) \<and>
               list_all (conforms d p (ty_fields s ! 0)) vs
           | _ \<Rightarrow> False)
      | TK_BoundedVec \<Rightarrow>
          (case v of
             VArray vs \<Rightarrow> length (ty_fields s) = 1 \<and> length vs \<le> unat (ty_bound s) \<and>
               list_all (conforms d p (ty_fields s ! 0)) vs
           | _ \<Rightarrow> False))"

section \<open>The type graph\<close>

text \<open>
  The recursive \<open>visit\<close> of \<open>validate\<close>: colours, sizes and heights of the types, and the work
  counter that the whole validation shares. \<open>None\<close> stands for \<open>false\<close>, after which validation
  gives up. The number counts how deep the recursion may still go; the source refuses a depth
  above \<open>max_depth\<close>, and starts at depth 1.
\<close>

record visit_state =
  vs_work :: nat
  vs_colors :: "nat list"
  vs_sizes :: "nat list"
  vs_heights :: "nat list"

primrec visit_fields ::
  "(u32 \<Rightarrow> visit_state \<Rightarrow> visit_state option) \<Rightarrow> limits \<Rightarrow> u32 list \<Rightarrow> nat \<Rightarrow> nat \<Rightarrow> visit_state \<Rightarrow>
     (nat \<times> nat \<times> visit_state) option" where
  "visit_fields go l [] sz height st = Some (sz, height, st)"
| "visit_fields go l (c # cs) sz height st =
     (case go c st of
        None \<Rightarrow> None
      | Some st \<Rightarrow>
         (if vs_sizes st ! unat c > lm_max_value_elements l - sz then None
          else visit_fields go l cs (sz + vs_sizes st ! unat c) (max height (vs_heights st ! unat c + 1)) st))"

primrec visit_constructors ::
  "(u32 \<Rightarrow> visit_state \<Rightarrow> visit_state option) \<Rightarrow> limits \<Rightarrow> u32 list list \<Rightarrow> nat \<Rightarrow> nat \<Rightarrow> visit_state \<Rightarrow>
     (nat \<times> nat \<times> visit_state) option" where
  "visit_constructors go l [] mx height st = Some (mx, height, st)"
| "visit_constructors go l (fs # fss) mx height st =
     (case visit_fields go l fs 3 height st of
        None \<Rightarrow> None
      | Some (sz, height, st) \<Rightarrow> visit_constructors go l fss (max mx sz) height st)"

definition vec_children ::
  "(u32 \<Rightarrow> visit_state \<Rightarrow> visit_state option) \<Rightarrow> limits \<Rightarrow> ir_type \<Rightarrow> nat \<Rightarrow> visit_state \<Rightarrow>
     (nat \<times> nat \<times> visit_state) option" where
  "vec_children go l t n st =
     (if length (ty_fields t) \<noteq> 1 then None
      else case visit_fields go l [ty_fields t ! 0] 1 1 st of
        None \<Rightarrow> None
      | Some (sz, height, st) \<Rightarrow>
         (if n > lm_max_value_elements l div (if sz = 0 then 1 else sz) then None
          else Some (max 1 (sz * n), height, st)))"

text \<open>The children of a type: size, height and state, from the size that its kind starts with.\<close>

definition visit_children ::
  "(u32 \<Rightarrow> visit_state \<Rightarrow> visit_state option) \<Rightarrow> limits \<Rightarrow> ir_type \<Rightarrow> visit_state \<Rightarrow>
     (nat \<times> nat \<times> visit_state) option" where
  "visit_children go l t st =
     (let mx = lm_max_value_elements l; n = unat (ty_bound t) in
      case ty_kind t of
        TK_Record \<Rightarrow> visit_fields go l (ty_fields t) 1 1 st
      | TK_Variant \<Rightarrow>
          (if ty_constructors t = [] \<or> mx < 3 then None else visit_constructors go l (ty_constructors t) 3 1 st)
      | TK_Vec \<Rightarrow> vec_children go l t n st
      | TK_BoundedVec \<Rightarrow> vec_children go l t n st
      | TK_Bytes \<Rightarrow> (if n > mx - 1 then None else Some (1 + n, 1, st))
      | _ \<Rightarrow> Some (1, 1, st))"

definition type_shape_ok :: "project \<Rightarrow> limits \<Rightarrow> ir_type \<Rightarrow> bool" where
  "type_shape_ok p l t \<longleftrightarrow>
     length (ty_fields t) \<le> lm_max_rows l \<and> length (ty_constructors t) \<le> lm_max_rows l \<and>
     (\<forall>fs \<in> set (ty_constructors t). length fs \<le> lm_max_rows l) \<and>
     \<not> (pj_schema_major p = 1 \<and> ty_kind t \<in> {TK_Bytes, TK_Handle}) \<and>
     \<not> (ty_kind t = TK_Handle \<and> ty_bound t > handle_code HK_GateTicket) \<and>
     \<not> (ty_kind t = TK_Bits \<and> (ty_bound t = 0 \<or> ty_bound t > 64)) \<and>
     \<not> (ty_kind t = TK_Fin \<and> ty_bound t = 0 \<and> pj_schema_major p < 5) \<and>
     \<not> (ty_kind t \<in> {TK_Unit, TK_Bool, TK_Record, TK_Variant} \<and> ty_bound t \<noteq> 0) \<and>
     \<not> (ty_kind t \<notin> {TK_Record, TK_Vec, TK_BoundedVec} \<and> ty_fields t \<noteq> []) \<and>
     \<not> (ty_kind t \<noteq> TK_Variant \<and> ty_constructors t \<noteq> [])"

primrec visit :: "nat \<Rightarrow> project \<Rightarrow> limits \<Rightarrow> nat \<Rightarrow> u32 \<Rightarrow> visit_state \<Rightarrow> visit_state option" where
  "visit 0 p l depth t st = None"
| "visit (Suc n) p l depth t st =
     (let st = st\<lparr>vs_work := vs_work st + 1\<rparr>; i = unat t in
      if vs_work st > lm_max_work l \<or> depth > lm_max_depth l \<or> \<not> type_ok p t \<or> vs_colors st ! i = 1 then None
      else if vs_colors st ! i = 2
      then (if depth + vs_heights st ! i - 1 \<le> lm_max_depth l then Some st else None)
      else let st = st\<lparr>vs_colors := (vs_colors st)[i := 1]\<rparr> in
        if \<not> type_shape_ok p l (type_at p t) then None
        else case visit_children (visit n p l (depth + 1)) l (type_at p t) st of
          None \<Rightarrow> None
        | Some (sz, height, st) \<Rightarrow>
           (if sz > lm_max_value_elements l then None
            else Some (st\<lparr>vs_colors := (vs_colors st)[i := 2], vs_sizes := (vs_sizes st)[i := sz],
                          vs_heights := (vs_heights st)[i := height]\<rparr>)))"

primrec visit_types :: "project \<Rightarrow> limits \<Rightarrow> nat list \<Rightarrow> visit_state \<Rightarrow> visit_state option" where
  "visit_types p l [] st = Some st"
| "visit_types p l (t # ts) st =
     (case visit (lm_max_depth l) p l 1 (of_nat t) st of
        None \<Rightarrow> None
      | Some st \<Rightarrow> visit_types p l ts st)"

definition check_type_graph :: "project \<Rightarrow> limits \<Rightarrow> visit_state option" where
  "check_type_graph p l =
     (let n = length (pj_types p) in
      visit_types p l [0..<n] \<lparr>vs_work = 0, vs_colors = replicate n 0, vs_sizes = replicate n 0,
        vs_heights = replicate n 0\<rparr>)"

end
