(* ===== verification/Exec_Validate.thy ===== *)
theory Exec_Validate
  imports Exec_IR
begin

text \<open>
  \<open>validate\<close> of \<open>runtime/src/exec_ir.cpp\<close> for the service table and the programs of a project:
  closed pure callees, frames, register definitions, edges, reachability and dominance of the
  blocks, and the type check of every instruction and terminator. Each part carries the work
  counter that the validation shares; an error is the message of the first check that fails.
\<close>

definition bad :: "string \<Rightarrow> 'a expected" where
  "bad m = fail Schema m"

section \<open>Services\<close>

definition check_service :: "project \<Rightarrow> u32 list \<Rightarrow> service_signature \<Rightarrow> unit expected" where
  "check_service p seen s =
     (if sv_op s \<ge> Op_WaitGroupNew \<and> pj_profile p \<noteq> ''AT-Ext-1.1-draft''
      then fail Unsupported ''Ext service requires AT-Ext-1.1-draft profile''
      else if sv_id s \<in> set seen \<or> sv_op s < 21 \<or> sv_op s \<ge> Op_Count \<or> length (sv_result_types s) > 1 \<or>
          sv_provider_key s = [] \<or> sv_provider_version s = [] \<or> sv_context_mask s = 0 \<or>
          sv_context_mask s AND NOT (allowed_contexts (sv_op s)) \<noteq> 0 \<or>
          sv_effect_mask s AND required_effect (sv_op s) \<noteq> required_effect (sv_op s) \<or>
          sv_effect_mask s AND NOT 2047 \<noteq> 0
      then bad ''invalid service signature/effect/context''
      else if \<exists>t \<in> set (sv_input_types s). \<not> type_ok p t then bad ''service input type''
      else if \<exists>t \<in> set (sv_result_types s). \<not> type_ok p t then bad ''service result type''
      else Inr ())"

primrec check_services :: "project \<Rightarrow> u32 list \<Rightarrow> service_signature list \<Rightarrow> unit expected" where
  "check_services p seen [] = Inr ()"
| "check_services p seen (s # ss) =
     (case check_service p seen s of
        Inl e \<Rightarrow> Inl e
      | Inr _ \<Rightarrow> check_services p (sv_id s # seen) ss)"

definition find_service :: "project \<Rightarrow> u32 \<Rightarrow> service_signature option" where
  "find_service p i = find (\<lambda>s. sv_id s = i) (pj_services p)"

definition find_program :: "project \<Rightarrow> u32 \<Rightarrow> program option" where
  "find_program p i = find (\<lambda>pr. pg_id pr = i) (pj_programs p)"

definition find_block :: "program \<Rightarrow> u32 \<Rightarrow> block option" where
  "find_block pr i = find (\<lambda>b. bk_id b = i) (pg_blocks pr)"

section \<open>Pure callees\<close>

text \<open>
  \<open>closed_pure\<close>, with the colours and heights it keeps across calls and the shared work counter.
  The number counts how deep it may still recurse, as for types.
\<close>

record pure_state =
  ps_work :: nat
  ps_colors :: "u32 \<Rightarrow> nat"
  ps_heights :: "u32 \<Rightarrow> nat"

definition pure_opcode :: "opcode \<Rightarrow> bool" where
  "pure_opcode opc \<longleftrightarrow> opc \<le> 11 \<or> opc = Op_Unary \<or> opc = Op_Compare \<or> opc = Op_Convert"

primrec pure_instructions ::
  "(u32 \<Rightarrow> pure_state \<Rightarrow> pure_state option) \<Rightarrow> limits \<Rightarrow> instruction list \<Rightarrow> nat \<Rightarrow> pure_state \<Rightarrow>
     (nat \<times> pure_state) option" where
  "pure_instructions go l [] height st = Some (height, st)"
| "pure_instructions go l (i # is) height st =
     (let st = st\<lparr>ps_work := ps_work st + 1\<rparr> in
      if ps_work st > lm_max_work l then None
      else if in_op i = Op_CallPure then
        (case go (in_immediate i) st of
           None \<Rightarrow> None
         | Some st \<Rightarrow> pure_instructions go l is (max height (ps_heights st (in_immediate i) + 1)) st)
      else if \<not> pure_opcode (in_op i) then None
      else pure_instructions go l is height st)"

primrec pure_blocks ::
  "(u32 \<Rightarrow> pure_state \<Rightarrow> pure_state option) \<Rightarrow> limits \<Rightarrow> block list \<Rightarrow> nat \<Rightarrow> pure_state \<Rightarrow>
     (nat \<times> pure_state) option" where
  "pure_blocks go l [] height st = Some (height, st)"
| "pure_blocks go l (b # bs) height st =
     (if tr_kind (bk_terminator b) \<in> {TermSuspend, TermTransportReturn} then None
      else case pure_instructions go l (bk_instructions b) height st of
        None \<Rightarrow> None
      | Some (height, st) \<Rightarrow> pure_blocks go l bs height st)"

primrec closed_pure :: "nat \<Rightarrow> project \<Rightarrow> limits \<Rightarrow> nat \<Rightarrow> u32 \<Rightarrow> pure_state \<Rightarrow> pure_state option" where
  "closed_pure 0 p l depth i st = None"
| "closed_pure (Suc n) p l depth i st =
     (if depth > lm_max_depth l then None
      else let st = st\<lparr>ps_work := ps_work st + 1\<rparr> in
        if ps_work st > lm_max_work l then None
        else case find_program p i of
          None \<Rightarrow> None
        | Some target \<Rightarrow>
           (if ps_colors st i = 1 then None
            else if ps_colors st i = 2
            then (if depth + ps_heights st i - 1 \<le> lm_max_depth l then Some st else None)
            else let st = st\<lparr>ps_colors := (ps_colors st)(i := 1)\<rparr> in
              if pg_effect_mask target \<noteq> 0 \<or> pg_frame target \<noteq> [] \<or> pg_context target \<noteq> CK_Timed then None
              else case pure_blocks (closed_pure n p l (depth + 1)) l (pg_blocks target) 1 st of
                None \<Rightarrow> None
              | Some (height, st) \<Rightarrow>
                  Some (st\<lparr>ps_colors := (ps_colors st)(i := 2), ps_heights := (ps_heights st)(i := height)\<rparr>)))"

section \<open>Program headers and frames\<close>

definition check_policy :: "project \<Rightarrow> program \<Rightarrow> unit expected" where
  "check_policy p pr =
     (let policy = (pg_instruction_fuel pr \<noteq> 0 \<or> pg_owner_policy pr \<noteq> [] \<or> pg_result_lifetime_policy pr \<noteq> []) in
      if policy \<and> (pj_schema_major p < 5 \<or> pg_context pr \<noteq> CK_Process \<or> pg_instruction_fuel pr = 0)
      then bad ''process policy requires schema5 process and positive fuel''
      else if policy \<and> (pg_owner_policy pr \<noteq> ''caller'' \<or> pg_result_lifetime_policy pr \<noteq> ''until-release'')
      then fail Unsupported ''unknown process owner/result lifetime policy''
      else if pg_effect_mask pr AND NOT 2047 \<noteq> 0 then bad ''program context/effects''
      else if pj_schema_major p = 1 \<and>
          (pg_frame pr \<noteq> [] \<or> pg_frame_bytes pr \<noteq> 0 \<or> pg_effect_mask pr \<noteq> 0 \<or> pg_context pr \<noteq> CK_Timed)
      then bad ''v1 program metadata''
      else Inr ())"

definition frame_overflow :: "nat \<Rightarrow> bool" where
  "frame_overflow n \<longleftrightarrow> n > SIZE_MAX div 64"

lemma frame_overflow_code [code]: "frame_overflow n \<longleftrightarrow> int n > 288230376151711743"
  by (simp add: frame_overflow_def)

primrec check_frame :: "project \<Rightarrow> nat list \<Rightarrow> u32 \<Rightarrow> u32 list \<Rightarrow> nat \<Rightarrow> frame_slot list \<Rightarrow> unit expected" where
  "check_frame p sizes frame_bytes seen previous_end [] = Inr ()"
| "check_frame p sizes frame_bytes seen previous_end (s # ss) =
     (if \<not> type_ok p (fs_type s) \<or> fs_align s = 0 \<or> fs_align s AND (fs_align s - 1) \<noteq> 0 \<or> fs_align s > 64 \<or>
         fs_offset s mod fs_align s \<noteq> 0 \<or> unat (fs_offset s) < previous_end
      then bad ''frame layout''
      else if pj_schema_major p \<ge> 3 \<and> fs_register s \<in> set seen then bad ''duplicate frame register''
      else if frame_overflow (sizes ! unat (fs_type s)) then bad ''frame layout size overflow''
      else let width = sizes ! unat (fs_type s) * 64 in
        if width > unat frame_bytes \<or> unat (fs_offset s) > unat frame_bytes - width then bad ''frame byte bound''
        else check_frame p sizes frame_bytes (if pj_schema_major p \<ge> 3 then fs_register s # seen else seen)
          (unat (fs_offset s) + width) ss)"

definition check_header :: "project \<Rightarrow> limits \<Rightarrow> u32 list \<Rightarrow> program \<Rightarrow> unit expected" where
  "check_header p l seen pr =
     (if pg_id pr \<in> set seen \<or> pg_blocks pr = [] \<or> length (pg_blocks pr) > lm_max_rows l then bad ''program IDs/block bound''
      else if \<exists>t \<in> set (pg_input_types pr). \<not> type_ok p t then bad ''input type''
      else if \<exists>t \<in> set (pg_result_types pr). \<not> type_ok p t then bad ''result type''
      else if \<not> distinct (map bk_id (pg_blocks pr)) then bad ''duplicate block''
      else case find_block pr (pg_entry pr) of
        None \<Rightarrow> bad ''entry missing''
      | Some b \<Rightarrow>
         (if length (bk_parameters b) \<noteq> length (pg_input_types pr) then bad ''entry arity''
          else if map rg_type (bk_parameters b) \<noteq> pg_input_types pr then bad ''entry type''
          else Inr ()))"

section \<open>Register definitions\<close>

record reg_def =
  df_type :: u32
  df_block :: u32
  df_order :: nat

type_synonym reg_defs = "(u32 \<times> reg_def) list"

definition def_reg :: "project \<Rightarrow> limits \<Rightarrow> u32 \<Rightarrow> reg \<Rightarrow> nat \<Rightarrow> nat \<times> reg_defs \<Rightarrow> (nat \<times> reg_defs) option" where
  "def_reg p l b r order st =
     (case st of (work, defs) \<Rightarrow>
        (if work + 1 \<le> lm_max_work l \<and> unat (rg_id r) < lm_max_registers l \<and> type_ok p (rg_type r) \<and>
            map_of defs (rg_id r) = None
         then Some (work + 1, (rg_id r, \<lparr>df_type = rg_type r, df_block = b, df_order = order\<rparr>) # defs)
         else None))"

primrec def_params :: "project \<Rightarrow> limits \<Rightarrow> u32 \<Rightarrow> reg list \<Rightarrow> nat \<times> reg_defs \<Rightarrow> (nat \<times> reg_defs) option" where
  "def_params p l b [] st = Some st"
| "def_params p l b (r # rs) st =
     (case def_reg p l b r 0 st of None \<Rightarrow> None | Some st \<Rightarrow> def_params p l b rs st)"

primrec def_instructions ::
  "project \<Rightarrow> limits \<Rightarrow> u32 \<Rightarrow> nat \<Rightarrow> instruction list \<Rightarrow> nat \<times> reg_defs \<Rightarrow> (nat \<times> reg_defs) option" where
  "def_instructions p l b k [] st = Some st"
| "def_instructions p l b k (i # is) st =
     (case st of (work, defs) \<Rightarrow>
        (if work + 1 > lm_max_work l \<or> length (in_args i) > lm_max_rows l then None
         else case in_dest i of
           None \<Rightarrow> def_instructions p l b (k + 1) is (work + 1, defs)
         | Some r \<Rightarrow>
            (case def_reg p l b r (k + 1) (work + 1, defs) of
               None \<Rightarrow> None
             | Some st \<Rightarrow> def_instructions p l b (k + 1) is st)))"

primrec def_blocks :: "project \<Rightarrow> limits \<Rightarrow> block list \<Rightarrow> nat \<times> reg_defs \<Rightarrow> (nat \<times> reg_defs) expected" where
  "def_blocks p l [] st = Inr st"
| "def_blocks p l (b # bs) st =
     (case def_params p l (bk_id b) (bk_parameters b) st of
        None \<Rightarrow> bad ''duplicate/bad register''
      | Some st \<Rightarrow>
         (if length (bk_instructions b) > lm_max_rows l then bad ''instruction bound''
          else case def_instructions p l (bk_id b) 0 (bk_instructions b) st of
            None \<Rightarrow> bad ''duplicate/bad destination''
          | Some st \<Rightarrow> def_blocks p l bs st))"

definition check_layout :: "project \<Rightarrow> limits \<Rightarrow> nat list \<Rightarrow> program \<Rightarrow> reg_defs \<Rightarrow> unit expected" where
  "check_layout p l sizes pr defs =
     (if pj_schema_major p \<ge> 3 \<and>
         (\<exists>s \<in> set (pg_frame pr). map_option df_type (map_of defs (fs_register s)) \<noteq> Some (fs_type s))
      then bad ''frame register definition/type''
      else if sum_list (map (\<lambda>d. sizes ! unat (df_type (snd d))) defs) > lm_max_value_elements l
      then bad ''total register layout bound''
      else if length (pg_blocks pr) > lm_max_work l div length (pg_blocks pr)
      then bad ''dominance memory/work bound''
      else Inr ())"

section \<open>Edges\<close>

definition edge_ok :: "program \<Rightarrow> edge \<Rightarrow> bool" where
  "edge_ok pr e \<longleftrightarrow> (case find_block pr (eg_target e) of
     None \<Rightarrow> False
   | Some b \<Rightarrow> map rg_type (eg_args e) = map rg_type (bk_parameters b))"

text \<open>The frame slot that saves the \<open>n\<close>th live value of a suspension.\<close>

definition live_slot :: "project \<Rightarrow> program \<Rightarrow> nat \<Rightarrow> reg \<Rightarrow> frame_slot option" where
  "live_slot p pr n r =
     (if pj_schema_major p = 2 then Some (pg_frame pr ! n) else find (\<lambda>s. fs_register s = rg_id r) (pg_frame pr))"

definition suspend_live_ok :: "project \<Rightarrow> program \<Rightarrow> reg list \<Rightarrow> reg list \<Rightarrow> bool" where
  "suspend_live_ok p pr params vals \<longleftrightarrow> distinct (map rg_id vals) \<and>
     (\<forall>n < length vals. rg_type (params ! (n + 1)) = rg_type (vals ! n) \<and>
        map_option fs_type (live_slot p pr n (vals ! n)) = Some (rg_type (vals ! n)))"

text \<open>The check of a terminator: the blocks it may lead to, and the block that resumes after it.\<close>

definition check_edges :: "project \<Rightarrow> program \<Rightarrow> terminator \<Rightarrow> (u32 list \<times> u32 list) expected" where
  "check_edges p pr t =
     (case tr_kind t of
        TermJump \<Rightarrow> (if edge_ok pr (tr_yes t) then Inr ([eg_target (tr_yes t)], []) else bad ''jump edge'')
      | TermBranch \<Rightarrow>
          (if edge_ok pr (tr_yes t) \<and> edge_ok pr (tr_no t)
           then Inr ([eg_target (tr_yes t), eg_target (tr_no t)], []) else bad ''branch edge'')
      | TermSwitch \<Rightarrow>
          (if \<not> distinct (map fst (tr_cases t)) \<or> (\<exists>c \<in> set (tr_cases t). \<not> edge_ok pr (snd c))
           then bad ''switch edge/tag''
           else if \<not> edge_ok pr (tr_no t) then bad ''switch default''
           else Inr (map (\<lambda>c. eg_target (snd c)) (tr_cases t) @ [eg_target (tr_no t)], []))
      | TermReturn \<Rightarrow> Inr ([], [])
      | TermFail \<Rightarrow> Inr ([], [])
      | TermTransportReturn \<Rightarrow>
          (if pj_schema_major p < 2 \<or> pg_context pr \<noteq> CK_Transport then bad ''transport terminator context''
           else Inr ([], []))
      | TermSuspend \<Rightarrow>
          (if pj_schema_major p < 2 \<or> pg_context pr \<noteq> CK_Process \<or> pg_effect_mask pr AND Eff_Wait = 0
           then bad ''suspend context/target''
           else case find_block pr (eg_target (tr_yes t)) of
             None \<Rightarrow> bad ''suspend context/target''
           | Some b \<Rightarrow>
              (if length (bk_parameters b) \<noteq> length (tr_values t) + 1 \<or>
                  pj_schema_major p = 2 \<and> length (pg_frame pr) \<noteq> length (tr_values t)
               then bad ''suspend live/frame arity''
               else if \<not> suspend_live_ok p pr (bk_parameters b) (tr_values t) then bad ''suspend live/frame types''
               else Inr ([eg_target (tr_yes t)], [eg_target (tr_yes t)]))))"

text \<open>The predecessor pairs (target, source) and the segment roots after the entry.\<close>

primrec block_edges :: "project \<Rightarrow> program \<Rightarrow> block list \<Rightarrow> ((u32 \<times> u32) list \<times> u32 list) expected" where
  "block_edges p pr [] = Inr ([], [])"
| "block_edges p pr (b # bs) =
     (case check_edges p pr (bk_terminator b) of
        Inl e \<Rightarrow> Inl e
      | Inr (targets, roots) \<Rightarrow>
         (case block_edges p pr bs of
            Inl e \<Rightarrow> Inl e
          | Inr (pred, rs) \<Rightarrow> Inr (map (\<lambda>t. (t, bk_id b)) targets @ pred, roots @ rs)))"

definition preds :: "(u32 \<times> u32) list \<Rightarrow> u32 \<Rightarrow> u32 list" where
  "preds pred t = sort (remdups (map snd (filter (\<lambda>x. fst x = t) pred)))"

section \<open>Reachable blocks\<close>

text \<open>One pass of the first loop; \<open>None\<close> when the work limit is exceeded.\<close>

primrec reach_pass ::
  "nat \<Rightarrow> (u32 \<times> u32) list \<Rightarrow> u32 list \<Rightarrow> nat \<times> u32 set \<times> bool \<Rightarrow> (nat \<times> u32 set \<times> bool) option" where
  "reach_pass mx pred [] st = Some st"
| "reach_pass mx pred (b # bs) st =
     (case st of (work, reached, changed) \<Rightarrow>
        (if work + 1 > mx then None
         else if b \<notin> reached \<and> (\<exists>x \<in> set (preds pred b). x \<in> reached)
         then reach_pass mx pred bs (work + 1, insert b reached, True)
         else reach_pass mx pred bs (work + 1, reached, changed)))"

lemma reach_pass_work:
  "reach_pass mx pred bs (work, reached, changed) = Some (work', reached', changed') \<Longrightarrow>
   work' = work + length bs \<and> (bs \<noteq> [] \<longrightarrow> work' \<le> mx) \<and> (changed' \<longrightarrow> changed \<or> bs \<noteq> [])"
proof (induction bs arbitrary: work reached changed)
  case (Cons b bs)
  from Cons.prems have le: "\<not> work + 1 > mx" by (auto split: if_splits)
  from Cons.prems le obtain r c where rec: "reach_pass mx pred bs (work + 1, r, c) = Some (work', reached', changed')"
    by (auto split: if_splits)
  from Cons.IH [OF rec] le show ?case by (cases bs) (use rec in auto)
qed simp

function reach_loop :: "nat \<Rightarrow> (u32 \<times> u32) list \<Rightarrow> u32 list \<Rightarrow> nat \<Rightarrow> u32 set \<Rightarrow> (nat \<times> u32 set) option" where
  "reach_loop mx pred bs work reached =
     (case reach_pass mx pred bs (work, reached, False) of
        None \<Rightarrow> None
      | Some (work', reached', changed) \<Rightarrow>
         (if changed then reach_loop mx pred bs work' reached' else Some (work', reached')))"
  by pat_completeness auto
termination
proof (relation "measure (\<lambda>(mx, pred, bs, work, reached). mx - work)")
  fix mx pred bs work reached x2 work' y reached' changed
  assume "reach_pass mx pred bs (work, reached, False) = Some x2" "(work', y) = x2" "(reached', changed) = y" "changed"
  then have "reach_pass mx pred bs (work, reached, False) = Some (work', reached', True)" by auto
  from reach_pass_work [OF this]
  show "((mx, pred, bs, work', reached'), (mx, pred, bs, work, reached)) \<in> measure (\<lambda>(mx, pred, bs, work, reached). mx - work)"
    by (cases bs) auto
qed simp

declare reach_loop.simps [simp del]

section \<open>Dominance\<close>

text \<open>The intersection over the predecessors of one block, with the work it takes.\<close>

primrec dom_meet :: "nat \<Rightarrow> (u32 \<Rightarrow> u32 set) \<Rightarrow> u32 list \<Rightarrow> u32 set \<Rightarrow> nat \<Rightarrow> (nat \<times> u32 set) option" where
  "dom_meet mx doms [] acc work = Some (work, acc)"
| "dom_meet mx doms (b # bs) acc work =
     (if work + card acc > mx then None
      else dom_meet mx doms bs (Set.filter (\<lambda>x. x \<in> doms b) acc) (work + card acc))"

text \<open>One pass over all blocks; \<open>None\<close> when the work limit is exceeded.\<close>

primrec dom_pass ::
  "nat \<Rightarrow> (u32 \<times> u32) list \<Rightarrow> u32 set \<Rightarrow> u32 set \<Rightarrow> u32 list \<Rightarrow> nat \<times> (u32 \<Rightarrow> u32 set) \<times> bool \<Rightarrow>
     (nat \<times> (u32 \<Rightarrow> u32 set) \<times> bool) option" where
  "dom_pass mx pred roots al [] st = Some st"
| "dom_pass mx pred roots al (b # bs) st =
     (case st of (work, doms, changed) \<Rightarrow>
        (if b \<in> roots then dom_pass mx pred roots al bs st
         else case dom_meet mx doms (preds pred b) al work of
           None \<Rightarrow> None
         | Some (work, acc) \<Rightarrow>
            (if insert b acc \<noteq> doms b
             then dom_pass mx pred roots al bs (work, doms(b := insert b acc), True)
             else dom_pass mx pred roots al bs (work, doms, changed))))"

lemma dom_meet_work:
  "dom_meet mx doms ps acc work = Some (work', acc') \<Longrightarrow>
   work \<le> work' \<and> (ps \<noteq> [] \<longrightarrow> work' \<le> mx \<and> (acc \<noteq> {} \<and> finite acc \<longrightarrow> work < work')) \<and> (ps = [] \<longrightarrow> acc' = acc)"
proof (induction ps arbitrary: acc work)
  case (Cons p ps)
  from Cons.prems have le: "work + card acc \<le> mx"
    and rec: "dom_meet mx doms ps (Set.filter (\<lambda>x. x \<in> doms p) acc) (work + card acc) = Some (work', acc')"
    by (auto split: if_splits)
  have "acc \<noteq> {} \<and> finite acc \<longrightarrow> 0 < card acc" by (simp add: card_gt_0_iff)
  with Cons.IH [OF rec] le show ?case by (cases ps) (use rec in auto)
qed simp

definition unsettled :: "(u32 \<times> u32) list \<Rightarrow> u32 set \<Rightarrow> u32 set \<Rightarrow> u32 list \<Rightarrow> (u32 \<Rightarrow> u32 set) \<Rightarrow> bool" where
  "unsettled pred roots al bs doms \<longleftrightarrow> (\<exists>b \<in> set bs - roots. preds pred b = [] \<and> doms b \<noteq> insert b al)"

lemma dom_pass_settles:
  "dom_pass mx pred roots al bs (work, doms, changed) = Some (work', doms', changed') \<Longrightarrow>
   (\<forall>b. preds pred b = [] \<and> (b \<in> set bs - roots \<or> doms b = insert b al) \<longrightarrow> doms' b = insert b al)"
proof (induction bs arbitrary: work doms changed)
  case (Cons b bs)
  show ?case
  proof (cases "b \<in> roots")
    case True
    with Cons.prems have rec: "dom_pass mx pred roots al bs (work, doms, changed) = Some (work', doms', changed')" by simp
    from Cons.IH [OF rec] True show ?thesis by auto
  next
    case False
    with Cons.prems obtain w acc ch where meet: "dom_meet mx doms (preds pred b) al work = Some (w, acc)"
      and rec: "dom_pass mx pred roots al bs (w, doms(b := insert b acc), ch) = Some (work', doms', changed')"
      by (auto split: option.splits if_splits simp: fun_upd_triv)
    have acc: "acc = al" if "preds pred b = []" using dom_meet_work [OF meet] that by simp
    show ?thesis
    proof (intro allI impI)
      fix c
      assume c: "preds pred c = [] \<and> (c \<in> set (b # bs) - roots \<or> doms c = insert c al)"
      have "c \<in> set bs - roots \<or> (doms(b := insert b acc)) c = insert c al"
        using c acc by (cases "c = b") simp_all
      then show "doms' c = insert c al" using Cons.IH [OF rec] c by blast
    qed
  qed
qed simp

lemma dom_pass_work:
  "dom_pass mx pred roots al bs (work, doms, changed) = Some (work', doms', changed') \<Longrightarrow> set bs \<subseteq> al \<Longrightarrow> finite al \<Longrightarrow>
   work \<le> work' \<and> (work < work' \<longrightarrow> work' \<le> mx) \<and> (changed' \<longrightarrow> changed \<or> work < work' \<or> unsettled pred roots al bs doms)"
proof (induction bs arbitrary: work doms changed)
  case (Cons b bs)
  show ?case
  proof (cases "b \<in> roots")
    case True
    with Cons.prems have rec: "dom_pass mx pred roots al bs (work, doms, changed) = Some (work', doms', changed')" by simp
    from Cons.IH [OF rec] Cons.prems(2,3) show ?thesis by (auto simp: unsettled_def)
  next
    case False
    with Cons.prems(1) obtain w acc where meet: "dom_meet mx doms (preds pred b) al work = Some (w, acc)"
      and rec: "dom_pass mx pred roots al bs (w, doms(b := insert b acc), changed \<or> insert b acc \<noteq> doms b) = Some (work', doms', changed')"
      by (auto split: option.splits if_splits simp: fun_upd_triv)
    note m = dom_meet_work [OF meet]
    have sub: "set bs \<subseteq> al" using Cons.prems(2) by simp
    from Cons.IH [OF rec sub Cons.prems(3)] have ih: "w \<le> work' \<and> (w < work' \<longrightarrow> work' \<le> mx) \<and> (changed' \<longrightarrow> changed \<or> insert b acc \<noteq> doms b \<or> w < work' \<or>
        unsettled pred roots al bs (doms(b := insert b acc)))" by blast
    have al: "al \<noteq> {}" using Cons.prems(2) by auto
    show ?thesis
    proof (cases "preds pred b = []")
      case True
      then have "acc = al" "work \<le> w" using m by auto
      moreover have "w = work" using meet True by simp
      ultimately show ?thesis using ih True False by (auto simp: unsettled_def split: if_splits)
    next
      case ne: False
      then have "work < w" "w \<le> mx" using m al Cons.prems(3) by auto
      then show ?thesis using ih by auto
    qed
  qed
qed simp

text \<open>The second loop: it ends because a pass that changes something takes work or settles a block.\<close>

function dom_loop ::
  "nat \<Rightarrow> (u32 \<times> u32) list \<Rightarrow> u32 set \<Rightarrow> u32 list \<Rightarrow> nat \<Rightarrow> (u32 \<Rightarrow> u32 set) \<Rightarrow> (nat \<times> (u32 \<Rightarrow> u32 set)) option" where
  "dom_loop mx pred roots al work doms =
     (case dom_pass mx pred roots (set al) al (work, doms, False) of
        None \<Rightarrow> None
      | Some (work', doms', changed) \<Rightarrow>
         (if changed then dom_loop mx pred roots al work' doms' else Some (work', doms')))"
  by pat_completeness auto
termination
proof (relation "measure (\<lambda>(mx, pred, roots, al, work, doms).
    2 * (mx - work) + (if unsettled pred roots (set al) al doms then 1 else 0))")
  fix mx pred roots al work doms x2 work' y doms' changed
  assume "dom_pass mx pred roots (set al) al (work, doms, False) = Some x2" "(work', y) = x2" "(doms', changed) = y" "changed"
  then have pass: "dom_pass mx pred roots (set al) al (work, doms, False) = Some (work', doms', True)" by auto
  have "\<not> unsettled pred roots (set al) al doms'"
    using dom_pass_settles [OF pass] by (auto simp: unsettled_def)
  with dom_pass_work [OF pass]
  show "((mx, pred, roots, al, work', doms'), (mx, pred, roots, al, work, doms)) \<in> measure (\<lambda>(mx, pred, roots, al, work, doms).
    2 * (mx - work) + (if unsettled pred roots (set al) al doms then 1 else 0))" by auto
qed simp

declare dom_loop.simps [simp del]

end
