(* ===== verification/Exec_Metadata.thy ===== *)
theory Exec_Metadata
  imports Exec_Validate
begin

text \<open>
  \<open>validate_metadata\<close> of \<open>runtime/src/exec_metadata.cpp\<close>: the components, instances, handlers,
  bindings, ports, address maps and external contracts of a project. The first argument of the
  loops is the work limit; the number they pass on is the work counter of \<open>step\<close>.
\<close>

section \<open>Shared checks\<close>

text \<open>
  The loop that most tables share: count the entry, insert its key in a set, refuse a key that
  is there already or an entry that fails its own test.
\<close>

primrec step_all ::
  "nat \<Rightarrow> string \<Rightarrow> ('a \<Rightarrow> 'k) \<Rightarrow> ('a \<Rightarrow> bool) \<Rightarrow> 'k list \<Rightarrow> 'a list \<Rightarrow> nat \<Rightarrow> nat expected" where
  "step_all mx m key good seen [] work = Inr work"
| "step_all mx m key good seen (x # xs) work =
     (if work + 1 > mx \<or> key x \<in> set seen \<or> \<not> good x then bad m
      else step_all mx m key good (key x # seen) xs (work + 1))"

definition source_ok :: "metadata_source \<Rightarrow> bool" where
  "source_ok s \<longleftrightarrow> ms_line s \<noteq> 0 \<and> ms_column s \<noteq> 0 \<and> length (ms_file s) \<le> 65536"

lemma source_ok_code [code]:
  "source_ok s \<longleftrightarrow> ms_line s \<noteq> 0 \<and> ms_column s \<noteq> 0 \<and> int (length (ms_file s)) \<le> 65536"
  by (simp add: source_ok_def)

definition port_ok :: "project \<Rightarrow> port_desc \<Rightarrow> bool" where
  "port_ok p v \<longleftrightarrow> type_ok p (po_type_id v) \<and>
     (case po_initial v of None \<Rightarrow> True | Some x \<Rightarrow> conforms 64 p (po_type_id v) x) \<and> source_ok (po_source v)"

section \<open>Components\<close>

definition parameter_ok :: "project \<Rightarrow> parameter_desc \<Rightarrow> bool" where
  "parameter_ok p v \<longleftrightarrow> type_ok p (pa_type_id v) \<and>
     (case pa_default_value v of None \<Rightarrow> True | Some x \<Rightarrow> conforms 64 p (pa_type_id v) x) \<and> source_ok (pa_source v)"

definition endpoint_ok :: "endpoint_desc \<Rightarrow> bool" where
  "endpoint_ok e \<longleftrightarrow> ep_bus_width e \<noteq> 0 \<and> ep_bus_width e mod 8 = 0 \<and> ep_max_bindings e \<noteq> 0 \<and>
     ep_max_outstanding e \<noteq> 0 \<and> ep_protocol_ref e \<noteq> [] \<and> source_ok (ep_source e)"

definition check_component :: "project \<Rightarrow> nat \<Rightarrow> component_desc \<Rightarrow> nat \<Rightarrow> nat expected" where
  "check_component p mx c work =
     (case step_all mx ''component parameter'' pa_id (parameter_ok p) [] (cd_parameters c) work of
        Inl e \<Rightarrow> Inl e
      | Inr work \<Rightarrow> case step_all mx ''component state'' sd_id
            (\<lambda>s. conforms 64 p (sd_type_id s) (sd_initial s)) [] (cd_states c) work of
        Inl e \<Rightarrow> Inl e
      | Inr work \<Rightarrow> case step_all mx ''component endpoint'' ep_id endpoint_ok [] (cd_endpoints c) work of
        Inl e \<Rightarrow> Inl e
      | Inr work \<Rightarrow> step_all mx ''component sideband'' po_id (port_ok p) [] (cd_sidebands c) work)"

primrec check_components :: "project \<Rightarrow> nat \<Rightarrow> u32 list \<Rightarrow> component_desc list \<Rightarrow> nat \<Rightarrow> nat expected" where
  "check_components p mx seen [] work = Inr work"
| "check_components p mx seen (c # cs) work =
     (if work + 1 > mx \<or> cd_id c \<in> set seen then bad ''component ID/work''
      else case check_component p mx c (work + 1) of
        Inl e \<Rightarrow> Inl e
      | Inr work \<Rightarrow> check_components p mx (cd_id c # seen) cs work)"

definition find_component :: "project \<Rightarrow> u32 \<Rightarrow> component_desc option" where
  "find_component p i = find (\<lambda>c. cd_id c = i) (pj_components p)"

definition find_instance :: "project \<Rightarrow> u32 \<Rightarrow> instance_desc option" where
  "find_instance p i = find (\<lambda>x. ins_id x = i) (pj_instances p)"

text \<open>The tables keyed by component and local number: \<open>endpoint_table\<close> and \<open>instance_ports\<close>.\<close>

definition endpoint_at :: "project \<Rightarrow> u32 \<Rightarrow> u32 \<Rightarrow> endpoint_desc option" where
  "endpoint_at p c e = (case find_component p c of None \<Rightarrow> None | Some d \<Rightarrow> find (\<lambda>x. ep_id x = e) (cd_endpoints d))"

definition port_at :: "project \<Rightarrow> u32 \<Rightarrow> u32 \<Rightarrow> port_desc option" where
  "port_at p c i = (case find_component p c of None \<Rightarrow> None | Some d \<Rightarrow> find (\<lambda>x. po_id x = i) (cd_sidebands d))"

section \<open>Instances and handlers\<close>

definition config_entry_ok :: "project \<Rightarrow> component_desc \<Rightarrow> u32 \<times> value_t \<Rightarrow> bool" where
  "config_entry_ok p c v \<longleftrightarrow>
     (case find (\<lambda>a. pa_id a = fst v) (cd_parameters c) of
        None \<Rightarrow> False
      | Some a \<Rightarrow> conforms 64 p (pa_type_id a) (snd v))"

definition check_config :: "project \<Rightarrow> nat \<Rightarrow> component_desc \<Rightarrow> instance_desc \<Rightarrow> nat \<Rightarrow> nat expected" where
  "check_config p mx c i work =
     (let m = ''instance config/state range''; n = length (pj_state_types p) in
      if length (ins_resolved_config i) \<noteq> length (cd_parameters c) then bad m
      else case step_all mx m fst (config_entry_ok p c) [] (ins_resolved_config i) work of
        Inl e \<Rightarrow> Inl e
      | Inr work \<Rightarrow>
         (if unat (ins_state_count i) \<noteq> length (cd_states c) \<or> unat (ins_state_base i) > n \<or>
             unat (ins_state_count i) > n - unat (ins_state_base i)
          then bad m else Inr work))"

text \<open>Claim the flattened states of an instance, in order.\<close>

primrec cover_states :: "project \<Rightarrow> nat \<Rightarrow> state_desc list \<Rightarrow> bool list \<Rightarrow> bool list option" where
  "cover_states p index [] covered = Some covered"
| "cover_states p index (s # ss) covered =
     (if covered ! index \<or> pj_state_types p ! index \<noteq> sd_type_id s \<or> pj_initial_state p ! index \<noteq> sd_initial s
      then None else cover_states p (index + 1) ss (covered[index := True]))"

definition capacity_ok :: "program \<Rightarrow> process_capacity \<Rightarrow> bool" where
  "capacity_ok pr cap \<longleftrightarrow> pc_max_instances cap \<noteq> 0 \<and> pc_result_capacity cap \<noteq> 0 \<and>
     pc_frame_bytes_limit cap \<ge> pg_frame_bytes pr \<and>
     (if pc_overflow cap = PO_Reject then pc_policy_bound cap = 0 else pc_policy_bound cap \<noteq> 0)"

definition state_access_ok :: "instance_desc \<Rightarrow> instruction \<Rightarrow> bool" where
  "state_access_ok i ins \<longleftrightarrow>
     (in_op ins = Op_LoadState \<or> in_op ins = Op_BufferStateWrite \<longrightarrow>
      in_immediate ins \<ge> ins_state_base i \<and> in_immediate ins - ins_state_base i < ins_state_count i)"

primrec check_accesses :: "nat \<Rightarrow> instance_desc \<Rightarrow> instruction list \<Rightarrow> nat \<Rightarrow> nat expected" where
  "check_accesses mx i [] work = Inr work"
| "check_accesses mx i (ins # is) work =
     (if work + 1 > mx then bad ''handler instruction validation budget''
      else if \<not> state_access_ok i ins then bad ''cross-instance state access''
      else check_accesses mx i is (work + 1))"

definition check_handler :: "project \<Rightarrow> nat \<Rightarrow> instance_desc \<Rightarrow> handler_binding \<Rightarrow> program \<Rightarrow> nat \<Rightarrow> nat expected" where
  "check_handler p mx i h pr work =
     (if pg_context pr \<noteq> hb_context h then bad ''handler program context''
      else if (case hb_endpoint h of None \<Rightarrow> False | Some e \<Rightarrow> endpoint_at p (ins_definition i) e = None)
      then bad ''handler endpoint''
      else if hb_context h = CK_Process \<and> hb_process_capacity h = None then bad ''process capacity missing''
      else if hb_context h = CK_Process \<and> \<not> capacity_ok pr (the (hb_process_capacity h)) then bad ''process capacity''
      else if hb_context h \<noteq> CK_Process \<and> hb_process_capacity h \<noteq> None then bad ''nonprocess capacity''
      else check_accesses mx i (concat (map bk_instructions (pg_blocks pr))) work)"

definition handler_key :: "handler_binding \<Rightarrow> u32 \<times> context_kind \<times> u32 option" where
  "handler_key h = (hb_local_id h, hb_context h, hb_endpoint h)"

text \<open>The handlers of one instance: the work and the programs that have an owner so far.\<close>

primrec check_handlers ::
  "project \<Rightarrow> nat \<Rightarrow> instance_desc \<Rightarrow> (u32 \<times> context_kind \<times> u32 option) list \<Rightarrow> handler_binding list \<Rightarrow>
     nat \<Rightarrow> u32 list \<Rightarrow> (nat \<times> u32 list) expected" where
  "check_handlers p mx i locals [] work owned = Inr (work, owned)"
| "check_handlers p mx i locals (h # hs) work owned =
     (if work + 1 > mx \<or> handler_key h \<in> set locals \<or> hb_program_id h \<in> set owned \<or>
         find_program p (hb_program_id h) = None \<or> hb_trigger h = []
      then bad ''handler ownership/ID''
      else case check_handler p mx i h (the (find_program p (hb_program_id h))) (work + 1) of
        Inl e \<Rightarrow> Inl e
      | Inr work \<Rightarrow> check_handlers p mx i (handler_key h # locals) hs work (hb_program_id h # owned))"

primrec check_instances ::
  "project \<Rightarrow> nat \<Rightarrow> u32 list \<Rightarrow> instance_desc list \<Rightarrow> nat \<Rightarrow> u32 list \<Rightarrow> bool list \<Rightarrow>
     (nat \<times> u32 list \<times> bool list) expected" where
  "check_instances p mx seen [] work owned covered = Inr (work, owned, covered)"
| "check_instances p mx seen (i # is) work owned covered =
     (if work + 1 > mx \<or> ins_id i \<in> set seen then bad ''instance ID/definition''
      else case find_component p (ins_definition i) of
        None \<Rightarrow> bad ''instance ID/definition''
      | Some c \<Rightarrow> case check_config p mx c i (work + 1) of
        Inl e \<Rightarrow> Inl e
      | Inr work \<Rightarrow> case cover_states p (unat (ins_state_base i)) (cd_states c) covered of
        None \<Rightarrow> bad ''flattened instance state mismatch/overlap''
      | Some covered \<Rightarrow> case check_handlers p mx i [] (ins_handlers i) work owned of
        Inl e \<Rightarrow> Inl e
      | Inr (work, owned) \<Rightarrow> check_instances p mx (ins_id i # seen) is work owned covered)"

section \<open>The selected system\<close>

primrec check_originals :: "project \<Rightarrow> nat \<Rightarrow> u32 list \<Rightarrow> original_instance list \<Rightarrow> nat \<Rightarrow> nat expected" where
  "check_originals p mx seen [] work = Inr work"
| "check_originals p mx seen (i # is) work =
     (if work + 1 > mx \<or> oi_id i \<in> set seen \<or> find_instance p (oi_id i) = None \<or> \<not> source_ok (oi_source i)
      then bad ''original instance identity''
      else let resolved = the (find_instance p (oi_id i)) in
        if oi_definition i \<noteq> ins_definition resolved \<or> oi_resolved_config i \<noteq> ins_resolved_config resolved
        then bad ''original/resolved instance mismatch''
        else check_originals p mx (oi_id i # seen) is (work + 1))"

definition meta_endpoint :: "project \<Rightarrow> nat \<Rightarrow> endpoint_ref \<Rightarrow> nat \<Rightarrow> (nat \<times> endpoint_desc) option" where
  "meta_endpoint p mx r work =
     (case find_instance p (er_instance_id r) of
        None \<Rightarrow> None
      | Some i \<Rightarrow>
         (if work + 1 > mx then None
          else case endpoint_at p (ins_definition i) (er_endpoint r) of
            None \<Rightarrow> None
          | Some e \<Rightarrow> if er_binding_index r < ep_max_bindings e then Some (work + 1, e) else None))"

definition endpoints_match :: "endpoint_desc \<Rightarrow> endpoint_desc \<Rightarrow> bool" where
  "endpoints_match a z \<longleftrightarrow> ep_role a = Initiator \<and> ep_role z = Target \<and> ep_bus_width a = ep_bus_width z \<and>
     ep_protocol_ref a = ep_protocol_ref z"

primrec check_bindings ::
  "project \<Rightarrow> nat \<Rightarrow> u32 list \<Rightarrow> binding_desc list \<Rightarrow> nat \<Rightarrow> endpoint_ref list \<Rightarrow> (nat \<times> endpoint_ref list) expected" where
  "check_bindings p mx seen [] work used = Inr (work, used)"
| "check_bindings p mx seen (b # bs) work used =
     (if work + 1 > mx \<or> bd_id b \<in> set seen \<or> \<not> source_ok (bd_source b) then bad ''binding ID''
      else case meta_endpoint p mx (bd_source_endpoint b) (work + 1) of
        None \<Rightarrow> bad ''binding endpoint role/width/protocol''
      | Some (work, a) \<Rightarrow> case meta_endpoint p mx (bd_sink_endpoint b) work of
        None \<Rightarrow> bad ''binding endpoint role/width/protocol''
      | Some (work, z) \<Rightarrow>
         (if \<not> endpoints_match a z then bad ''binding endpoint role/width/protocol''
          else if bd_source_endpoint b \<in> set used \<or> bd_sink_endpoint b \<in> set (bd_source_endpoint b # used)
          then bad ''duplicate endpoint binding index''
          else check_bindings p mx (bd_id b # seen) bs work (bd_sink_endpoint b # bd_source_endpoint b # used)))"

definition lookup_port :: "project \<Rightarrow> system_metadata \<Rightarrow> nat \<Rightarrow> port_ref \<Rightarrow> nat \<Rightarrow> (nat \<times> port_desc) option" where
  "lookup_port p sys mx r work =
     (if work + 1 > mx then None
      else map_option (Pair (work + 1))
        (if prf_tag r = 0
         then (if prf_instance_id r \<noteq> 0 then None else find (\<lambda>v. po_id v = prf_port_id r) (sm_top_ports sys))
         else if prf_tag r = 1
         then (case find_instance p (prf_instance_id r) of
                 None \<Rightarrow> None
               | Some i \<Rightarrow> port_at p (ins_definition i) (prf_port_id r))
         else None))"

definition sideband_ok :: "sideband_binding \<Rightarrow> port_desc \<Rightarrow> port_desc \<Rightarrow> bool" where
  "sideband_ok b a z \<longleftrightarrow> po_type_id a = po_type_id z \<and>
     po_direction a = (if prf_tag (sb_source_port b) = 0 then PortInput else PortOutput) \<and>
     po_direction z = (if prf_tag (sb_sink_port b) = 0 then PortOutput else PortInput)"

primrec check_sidebands ::
  "project \<Rightarrow> system_metadata \<Rightarrow> nat \<Rightarrow> u32 list \<Rightarrow> sideband_binding list \<Rightarrow> nat \<Rightarrow> port_ref list \<Rightarrow> nat expected" where
  "check_sidebands p sys mx seen [] work drivers = Inr work"
| "check_sidebands p sys mx seen (b # bs) work drivers =
     (if work + 1 > mx \<or> sb_id b \<in> set seen \<or> \<not> source_ok (sb_source b) then bad ''sideband binding ID''
      else case lookup_port p sys mx (sb_source_port b) (work + 1) of
        None \<Rightarrow> bad ''sideband direction/type/driver''
      | Some (work, a) \<Rightarrow> case lookup_port p sys mx (sb_sink_port b) work of
        None \<Rightarrow> bad ''sideband direction/type/driver''
      | Some (work, z) \<Rightarrow>
         (if \<not> sideband_ok b a z \<or> sb_sink_port b \<in> set drivers then bad ''sideband direction/type/driver''
          else check_sidebands p sys mx (sb_id b # seen) bs work (sb_sink_port b # drivers)))"

section \<open>Address maps\<close>

definition map_range_ok :: "address_map_desc \<Rightarrow> bool" where
  "map_range_ok m \<longleftrightarrow> am_size m \<noteq> 0 \<and> source_ok (am_source m) \<and>
     isl (checked_add (am_source_start m) (am_size m)) = False \<and>
     isl (checked_add (am_target_start m) (am_size m)) = False"

definition map_output :: "address_map_desc \<Rightarrow> endpoint_ref" where
  "map_output m = \<lparr>er_instance_id = am_decoder_instance_id m, er_endpoint = am_output_endpoint m,
     er_binding_index = am_binding_index m\<rparr>"

definition maps_alias :: "address_map_desc \<Rightarrow> address_map_desc \<Rightarrow> bool" where
  "maps_alias a m \<longleftrightarrow> am_decoder_instance_id a = am_decoder_instance_id m \<and>
     am_source_start a < am_source_start m + am_size m \<and> am_source_start m < am_source_start a + am_size a \<and>
     \<not> (am_alias_declared a \<and> am_alias_declared m)"

primrec check_aliases :: "nat \<Rightarrow> address_map_desc \<Rightarrow> address_map_desc list \<Rightarrow> nat \<Rightarrow> nat expected" where
  "check_aliases mx m [] work = Inr work"
| "check_aliases mx m (a # as) work =
     (if work + 1 > mx then bad ''address map validation budget''
      else if maps_alias a m then bad ''undeclared address alias''
      else check_aliases mx m as (work + 1))"

text \<open>\<open>passed\<close> holds the maps that the loop has passed.\<close>

primrec check_maps ::
  "project \<Rightarrow> nat \<Rightarrow> endpoint_ref list \<Rightarrow> address_map_desc list \<Rightarrow> address_map_desc list \<Rightarrow> nat \<Rightarrow> nat expected" where
  "check_maps p mx used passed [] work = Inr work"
| "check_maps p mx used passed (m # ms) work =
     (if work + 1 > mx \<or> am_id m \<in> set (map am_id passed) \<or> \<not> map_range_ok m then bad ''address map range''
      else case meta_endpoint p mx (map_output m) (work + 1) of
        None \<Rightarrow> bad ''address map output binding''
      | Some (work, e) \<Rightarrow>
         (if ep_role e \<noteq> Initiator \<or> map_output m \<notin> set used then bad ''address map output binding''
          else case check_aliases mx m passed work of
            Inl e \<Rightarrow> Inl e
          | Inr work \<Rightarrow> check_maps p mx used (passed @ [m]) ms work))"

section \<open>External contracts\<close>

text \<open>The shape of a literal without its children.\<close>

definition literal_shape_ok :: "limits \<Rightarrow> metadata_literal \<Rightarrow> bool" where
  "literal_shape_ok l v \<longleftrightarrow>
     (let tag = ml_tag v in
      tag \<le> 7 \<and> length (ml_children v) \<le> lm_max_rows l \<and> (tag = 2 \<or> ml_width v = 0) \<and>
      (tag = 3 \<or> tag = 4 \<or> tag = 5 \<or> ml_children v = []) \<and>
      (if tag = 0 \<or> tag = 3 \<or> tag = 5 then ml_value v = VUnit
       else if tag = 1 then (case ml_value v of VBool _ \<Rightarrow> True | _ \<Rightarrow> False)
       else if tag = 2 then
         (case ml_value v of
            VU64 n \<Rightarrow> ml_width v \<noteq> 0 \<and> ml_width v \<le> 64 \<and> (ml_width v < 64 \<longrightarrow> n < push_bit (unat (ml_width v)) 1)
          | _ \<Rightarrow> False)
       else if tag = 4 then (case ml_value v of VU64 _ \<Rightarrow> True | _ \<Rightarrow> False)
       else if tag = 6 then (case ml_value v of VBytes b \<Rightarrow> length b \<le> lm_max_value_elements l | _ \<Rightarrow> False)
       else (case ml_value v of VHandle _ \<Rightarrow> True | _ \<Rightarrow> False)))"

fun literal :: "limits \<Rightarrow> metadata_literal \<Rightarrow> nat \<Rightarrow> nat \<Rightarrow> nat option"
and literals :: "limits \<Rightarrow> metadata_literal list \<Rightarrow> nat \<Rightarrow> nat \<Rightarrow> nat option" where
  "literal l (MetadataLiteral tag w v cs) depth work =
     (if work + 1 > lm_max_work l \<or> depth > lm_max_depth l \<or> \<not> literal_shape_ok l (MetadataLiteral tag w v cs)
      then None else literals l cs (depth + 1) (work + 1))"
| "literals l [] depth work = Some work"
| "literals l (c # cs) depth work =
     (case literal l c depth work of None \<Rightarrow> None | Some work \<Rightarrow> literals l cs depth work)"

primrec check_mapping :: "limits \<Rightarrow> string list \<Rightarrow> (string \<times> metadata_literal) list \<Rightarrow> nat \<Rightarrow> nat expected" where
  "check_mapping l keys [] work = Inr work"
| "check_mapping l keys (v # vs) work =
     (if work + 1 > lm_max_work l \<or> fst v = [] \<or> fst v \<in> set keys then bad ''external constructor key''
      else case literal l (snd v) 1 (work + 1) of
        None \<Rightarrow> bad ''external constructor key''
      | Some work \<Rightarrow> check_mapping l (fst v # keys) vs work)"

primrec check_contracts :: "limits \<Rightarrow> u32 list \<Rightarrow> external_contract list \<Rightarrow> nat \<Rightarrow> nat expected" where
  "check_contracts l seen [] work = Inr work"
| "check_contracts l seen (e # es) work =
     (if work + 1 > lm_max_work l \<or> xc_id e \<in> set seen \<or> xc_cpp_type e = [] \<or> xc_header e = [] \<or>
         \<not> source_ok (xc_source e)
      then bad ''external contract identity''
      else case check_mapping l [] (xc_constructor_mapping e) (work + 1) of
        Inl err \<Rightarrow> Inl err
      | Inr work \<Rightarrow> check_contracts l (xc_id e # seen) es work)"

section \<open>The whole check\<close>

definition check_system :: "project \<Rightarrow> limits \<Rightarrow> system_metadata \<Rightarrow> nat \<Rightarrow> unit expected" where
  "check_system p l sys work =
     (let mx = lm_max_work l in
      if \<not> source_ok (sm_source sys) \<or> length (sm_original_instances sys) \<noteq> length (pj_instances p)
      then bad ''selected system instance shape''
      else case check_originals p mx [] (sm_original_instances sys) work of
        Inl e \<Rightarrow> Inl e
      | Inr work \<Rightarrow> case check_bindings p mx [] (sm_bindings sys) work [] of
        Inl e \<Rightarrow> Inl e
      | Inr (work, used) \<Rightarrow> case step_all mx ''top port'' po_id (port_ok p) [] (sm_top_ports sys) work of
        Inl e \<Rightarrow> Inl e
      | Inr work \<Rightarrow> case check_sidebands p sys mx [] (sm_sideband_bindings sys) work [] of
        Inl e \<Rightarrow> Inl e
      | Inr work \<Rightarrow> case check_maps p mx used [] (sm_address_maps sys) work of
        Inl e \<Rightarrow> Inl e
      | Inr work \<Rightarrow> case check_contracts l [] (pj_external_contracts p) work of
        Inl e \<Rightarrow> Inl e
      | Inr work \<Rightarrow>
         (if [] \<in> set (pj_capabilities p) \<or> \<not> distinct (pj_capabilities p) then bad ''capability identity''
          else Inr ()))"

definition no_metadata :: "project \<Rightarrow> bool" where
  "no_metadata p \<longleftrightarrow> pj_components p = [] \<and> pj_instances p = [] \<and> pj_system_metadata p = None \<and>
     pj_external_contracts p = [] \<and> pj_capabilities p = []"

definition validate_metadata :: "project \<Rightarrow> limits \<Rightarrow> unit expected" where
  "validate_metadata p l =
     (if pj_schema_major p < 4 then (if no_metadata p then Inr () else bad ''metadata requires schema4'')
      else if pj_schema_major p \<ge> 5 \<and> no_metadata p then Inr ()
      else case pj_system_metadata p of
        None \<Rightarrow> bad ''schema4 requires selected system metadata''
      | Some sys \<Rightarrow>
         (if length (pj_components p) > lm_max_rows l \<or> length (pj_instances p) > lm_max_rows l \<or>
             length (pj_external_contracts p) > lm_max_rows l \<or> length (pj_capabilities p) > lm_max_rows l
          then bad ''metadata table bound''
          else case check_components p (lm_max_work l) [] (pj_components p) 0 of
            Inl e \<Rightarrow> Inl e
          | Inr work \<Rightarrow>
             (case check_instances p (lm_max_work l) [] (pj_instances p) work []
                 (replicate (length (pj_state_types p)) False) of
                Inl e \<Rightarrow> Inl e
              | Inr (work, owned, covered) \<Rightarrow>
                 (if length owned \<noteq> length (pj_programs p) \<or> False \<in> set covered
                  then bad ''unowned flattened program/state''
                  else check_system p l sys work))))"

end
