(* ===== verification/Exec_Typing.thy ===== *)
theory Exec_Typing
  imports Exec_Validate Exec_Metadata
begin

text \<open>
  The last part of \<open>validate\<close> of \<open>runtime/src/exec_ir.cpp\<close>: the use of registers, the type check of
  every instruction and terminator, and the validation of a whole project. \<open>pure_state\<close> carries
  the shared work counter and what is known of pure callees from one program to the next.
\<close>

section \<open>Instructions\<close>

definition reg_usable :: "reg_defs \<Rightarrow> (u32 \<Rightarrow> u32 set) \<Rightarrow> u32 \<Rightarrow> nat \<Rightarrow> reg \<Rightarrow> bool" where
  "reg_usable defs doms b order r \<longleftrightarrow>
     (case map_of defs (rg_id r) of
        None \<Rightarrow> False
      | Some d \<Rightarrow> df_type d = rg_type r \<and> df_block d \<in> doms b \<and> (df_block d \<noteq> b \<or> df_order d < order))"

abbreviation kind_of :: "project \<Rightarrow> reg \<Rightarrow> type_kind" where
  "kind_of p r \<equiv> ty_kind (type_at p (rg_type r))"

abbreviation bound_of :: "project \<Rightarrow> reg \<Rightarrow> u64" where
  "bound_of p r \<equiv> ty_bound (type_at p (rg_type r))"

definition dest_type :: "instruction \<Rightarrow> u32 \<Rightarrow> bool" where
  "dest_type i t \<longleftrightarrow> (case in_dest i of None \<Rightarrow> False | Some d \<Rightarrow> rg_type d = t)"

definition dest_kind :: "project \<Rightarrow> instruction \<Rightarrow> type_kind \<Rightarrow> bool" where
  "dest_kind p i k \<longleftrightarrow> (case in_dest i of None \<Rightarrow> False | Some d \<Rightarrow> kind_of p d = k)"

definition dest_bound :: "project \<Rightarrow> instruction \<Rightarrow> u64" where
  "dest_bound p i = (case in_dest i of None \<Rightarrow> 0 | Some d \<Rightarrow> bound_of p d)"

definition binary_ok :: "project \<Rightarrow> instruction \<Rightarrow> reg \<Rightarrow> bool" where
  "binary_ok p i a =
     (case in_binary i of
        BinEq \<Rightarrow> dest_kind p i TK_Bool
      | BinAnd \<Rightarrow> kind_of p a = TK_Bool \<and> dest_type i (rg_type a)
      | BinOr \<Rightarrow> kind_of p a = TK_Bool \<and> dest_type i (rg_type a)
      | BinLt \<Rightarrow> (kind_of p a = TK_Bits \<or> pj_schema_major p \<ge> 5 \<and> kind_of p a = TK_Fin) \<and> dest_kind p i TK_Bool
      | _ \<Rightarrow> kind_of p a = TK_Bits \<and> dest_type i (rg_type a))"

text \<open>The field types that a constructing instruction needs.\<close>

definition made_types :: "project \<Rightarrow> instruction \<Rightarrow> u32 list option" where
  "made_types p i =
     (case in_dest i of
        None \<Rightarrow> None
      | Some d \<Rightarrow>
         (let s = type_at p (rg_type d); n = length (in_args i) in
          if in_op i = Op_MakeRecord \<and> ty_kind s = TK_Record then Some (ty_fields s)
          else if in_op i = Op_MakeVariant \<and> ty_kind s = TK_Variant \<and>
              unat (in_immediate i) < length (ty_constructors s)
          then Some (ty_constructors s ! unat (in_immediate i))
          else if in_op i = Op_MakeVec \<and>
              (ty_kind s = TK_Vec \<and> n = unat (ty_bound s) \<or> ty_kind s = TK_BoundedVec \<and> n \<le> unat (ty_bound s))
          then Some (replicate n (ty_fields s ! 0))
          else None))"

definition vec_index_ok :: "project \<Rightarrow> reg \<Rightarrow> bool" where
  "vec_index_ok p r \<longleftrightarrow>
     kind_of p r = TK_Bits \<and> (pj_schema_major p \<ge> 5 \<or> bound_of p r = 64) \<or>
     pj_schema_major p \<ge> 5 \<and> kind_of p r = TK_Fin"

definition instr_shape_ok :: "project \<Rightarrow> limits \<Rightarrow> instruction \<Rightarrow> bool" where
  "instr_shape_ok p l i =
     (let opc = in_op i; a = in_args i; n = length a; d = (in_dest i \<noteq> None); imm = in_immediate i;
          s = type_at p (rg_type (a ! 0)) in
      if opc = Op_Unary then
        pj_schema_major p \<ge> 2 \<and> n = 1 \<and> d \<and> dest_type i (rg_type (a ! 0)) \<and>
        (if imm = 0 then kind_of p (a ! 0) = TK_Bool else imm \<le> 2 \<and> kind_of p (a ! 0) = TK_Bits)
      else if opc = Op_Compare then
        pj_schema_major p \<ge> 2 \<and> n = 2 \<and> d \<and> rg_type (a ! 0) = rg_type (a ! 1) \<and> dest_kind p i TK_Bool \<and>
        imm \<le> 5 \<and> (imm \<le> 1 \<or> kind_of p (a ! 0) = TK_Bits)
      else if opc = Op_Convert then
        pj_schema_major p \<ge> 2 \<and> n = 1 \<and> d \<and> kind_of p (a ! 0) = TK_Bits \<and> dest_kind p i TK_Bits \<and> imm \<le> 2 \<and>
        (if imm = 0 then bound_of p (a ! 0) \<le> dest_bound p i else bound_of p (a ! 0) \<ge> dest_bound p i)
      else if opc = Op_GetNow then n = 0 \<and> d \<and> dest_kind p i TK_Bits \<and> dest_bound p i = 64
      else if opc = Op_Const then
        n = 0 \<and> (case in_dest i of None \<Rightarrow> False | Some r \<Rightarrow> conforms (lm_max_depth l) p (rg_type r) (in_value i))
      else if opc = Op_Move then n = 1 \<and> d \<and> dest_type i (rg_type (a ! 0))
      else if opc = Op_Binary then n = 2 \<and> d \<and> rg_type (a ! 0) = rg_type (a ! 1) \<and> binary_ok p i (a ! 0)
      else if opc = Op_SelectValue then
        n = 3 \<and> d \<and> kind_of p (a ! 0) = TK_Bool \<and> rg_type (a ! 1) = rg_type (a ! 2) \<and> dest_type i (rg_type (a ! 1))
      else if opc = Op_MakeRecord \<or> opc = Op_MakeVariant \<or> opc = Op_MakeVec then
        made_types p i = Some (map rg_type a)
      else if opc = Op_GetField then
        n = 1 \<and> d \<and> ty_kind s = TK_Record \<and> unat imm < length (ty_fields s) \<and> dest_type i (ty_fields s ! unat imm)
      else if opc = Op_VariantTag then
        n = 1 \<and> d \<and> ty_kind s = TK_Variant \<and> dest_kind p i TK_Bits \<and> dest_bound p i = 64
      else if opc = Op_VariantGet then
        n = 1 \<and> d \<and> (let tag = unat (drop_bit 16 imm); field = unat (imm AND 65535) in
          ty_kind s = TK_Variant \<and> tag < length (ty_constructors s) \<and> field < length (ty_constructors s ! tag) \<and>
          dest_type i (ty_constructors s ! tag ! field))
      else if opc = Op_VecGet then
        n = 2 \<and> d \<and> (ty_kind s = TK_Vec \<or> ty_kind s = TK_BoundedVec) \<and> vec_index_ok p (a ! 1) \<and>
        dest_type i (ty_fields s ! 0)
      else if opc = Op_VecSet then
        n = 3 \<and> d \<and> (ty_kind s = TK_Vec \<or> ty_kind s = TK_BoundedVec) \<and> vec_index_ok p (a ! 1) \<and>
        dest_type i (rg_type (a ! 0)) \<and> rg_type (a ! 2) = ty_fields s ! 0
      else if opc = Op_LoadState then
        n = 0 \<and> d \<and> unat imm < length (pj_state_types p) \<and> dest_type i (pj_state_types p ! unat imm)
      else if opc = Op_BufferStateWrite then
        n = 1 \<and> \<not> d \<and> unat imm < length (pj_state_types p) \<and> rg_type (a ! 0) = pj_state_types p ! unat imm
      else if opc = Op_Check then n = 1 \<and> \<not> d \<and> kind_of p (a ! 0) = TK_Bool
      else if opc = Op_Trace then \<not> d
      else False)"

section \<open>Calls\<close>

text \<open>A callee that \<open>closed_pure\<close> accepts is in the table, so \<open>program_map.at\<close> finds it.\<close>

definition check_call :: "project \<Rightarrow> limits \<Rightarrow> instruction \<Rightarrow> pure_state \<Rightarrow> pure_state expected" where
  "check_call p l i st =
     (if pj_schema_major p < 2 then bad ''callPure body missing/impure/cyclic''
      else case closed_pure (lm_max_depth l) p l 1 (in_immediate i) st of
        None \<Rightarrow> bad ''callPure body missing/impure/cyclic''
      | Some st \<Rightarrow>
         (case find_program p (in_immediate i) of
            None \<Rightarrow> bad ''callPure body missing/impure/cyclic''
          | Some callee \<Rightarrow>
             (if length (in_args i) \<noteq> length (pg_input_types callee) \<or> length (pg_result_types callee) \<noteq> 1 \<or>
                 \<not> dest_type i (pg_result_types callee ! 0)
              then bad ''callPure signature''
              else if map rg_type (in_args i) \<noteq> pg_input_types callee then bad ''callPure argument''
              else Inr st)))"

definition is_service :: "opcode \<Rightarrow> bool" where
  "is_service opc \<longleftrightarrow> opc \<ge> 16 \<and> opc \<noteq> Op_GetNow \<and> opc \<noteq> Op_Unary \<and> opc \<noteq> Op_Compare \<and> opc \<noteq> Op_Convert"

definition check_service_call :: "project \<Rightarrow> program \<Rightarrow> instruction \<Rightarrow> unit expected" where
  "check_service_call p pr i =
     (if pj_schema_major p < 2 then fail Unsupported ''opcode requires v2 service schema''
      else case find_service p (in_immediate i) of
        None \<Rightarrow> bad ''missing/mismatched service signature''
      | Some s \<Rightarrow>
         (if sv_op s \<noteq> in_op i then bad ''missing/mismatched service signature''
          else if \<not> context_in (pg_context pr) (sv_context_mask s) \<or>
              pg_effect_mask pr AND sv_effect_mask s \<noteq> sv_effect_mask s \<or>
              length (in_args i) \<noteq> length (sv_input_types s) \<or> (in_dest i \<noteq> None) \<noteq> (sv_result_types s \<noteq> [])
          then bad ''service call shape/context/effect''
          else if map rg_type (in_args i) \<noteq> sv_input_types s then bad ''service argument type''
          else if in_dest i \<noteq> None \<and> \<not> dest_type i (sv_result_types s ! 0) then bad ''service result type''
          else Inr ()))"

definition check_instruction ::
  "project \<Rightarrow> limits \<Rightarrow> program \<Rightarrow> reg_defs \<Rightarrow> (u32 \<Rightarrow> u32 set) \<Rightarrow> block \<Rightarrow> nat \<Rightarrow> instruction \<Rightarrow> pure_state \<Rightarrow>
     pure_state expected" where
  "check_instruction p l pr defs doms b k i st =
     (let st = st\<lparr>ps_work := ps_work st + 1\<rparr>; effect = required_effect (in_op i) in
      if ps_work st > lm_max_work l then bad ''validation work limit''
      else if in_op i = Op_SetTransportReturn \<and>
          (k + 1 \<noteq> length (bk_instructions b) \<or> tr_kind (bk_terminator b) \<noteq> TermTransportReturn)
      then bad ''prepared transport reply must terminate immediately''
      else if in_op i \<noteq> Op_Const \<and> in_value i \<noteq> VUnit then bad ''noncanonical instruction fields''
      else if \<exists>a \<in> set (in_args i). \<not> reg_usable defs doms (bk_id b) (k + 1) a
      then bad ''undefined/non-dominating operand''
      else if pj_schema_major p \<ge> 2 \<and>
          (pg_effect_mask pr AND effect \<noteq> effect \<or> \<not> context_in (pg_context pr) (allowed_contexts (in_op i)))
      then bad ''program opcode effect/context''
      else if in_op i = Op_CallPure then check_call p l i st
      else if is_service (in_op i) then
        (case check_service_call p pr i of Inl e \<Rightarrow> Inl e | Inr _ \<Rightarrow> Inr st)
      else if in_op i = Op_GetNow \<and> pj_schema_major p < 2 then fail Unsupported ''getNow requires v2''
      else if \<not> instr_shape_ok p l i then bad ''instruction type/arity/immediate mismatch''
      else Inr st)"

primrec check_instructions ::
  "project \<Rightarrow> limits \<Rightarrow> program \<Rightarrow> reg_defs \<Rightarrow> (u32 \<Rightarrow> u32 set) \<Rightarrow> block \<Rightarrow> nat \<Rightarrow> instruction list \<Rightarrow> pure_state \<Rightarrow>
     pure_state expected" where
  "check_instructions p l pr defs doms b k [] st = Inr st"
| "check_instructions p l pr defs doms b k (i # is) st =
     (case check_instruction p l pr defs doms b k i st of
        Inl e \<Rightarrow> Inl e
      | Inr st \<Rightarrow> check_instructions p l pr defs doms b (k + 1) is st)"

section \<open>Terminators\<close>

definition check_switch :: "project \<Rightarrow> (reg \<Rightarrow> bool) \<Rightarrow> terminator \<Rightarrow> unit expected" where
  "check_switch p use t =
     (let v = tr_value t; edgeuse = (\<lambda>e. list_all use (eg_args e)) in
      if \<not> use v \<or> kind_of p v \<noteq> TK_Bits \<or> \<not> edgeuse (tr_no t) then bad ''switch value''
      else if \<exists>c \<in> set (tr_cases t). \<not> edgeuse (snd c) \<or>
          bound_of p v < 64 \<and> fst c \<ge> push_bit (unat (bound_of p v)) 1
      then bad ''switch case operand/range''
      else Inr ())"

definition check_return :: "project \<Rightarrow> program \<Rightarrow> (reg \<Rightarrow> bool) \<Rightarrow> terminator \<Rightarrow> unit expected" where
  "check_return p pr use t =
     (if pj_schema_major p \<ge> 2 \<and> pg_context pr = CK_Transport then bad ''transport program requires transport return''
      else if length (tr_values t) \<noteq> length (pg_result_types pr) then bad ''return arity''
      else if \<not> list_all use (tr_values t) \<or> map rg_type (tr_values t) \<noteq> pg_result_types pr then bad ''return type''
      else Inr ())"

definition check_transport_return :: "program \<Rightarrow> (reg \<Rightarrow> bool) \<Rightarrow> block \<Rightarrow> unit expected" where
  "check_transport_return pr use b =
     (let t = bk_terminator b; is = bk_instructions b; prepared = List.last is in
      if \<not> use (tr_value t) \<or> length (pg_result_types pr) \<noteq> 1 \<or> rg_type (tr_value t) \<noteq> pg_result_types pr ! 0 \<or>
         is = [] \<or> in_op prepared \<noteq> Op_SetTransportReturn \<or> length (in_args prepared) \<noteq> 1 \<or>
         rg_id (in_args prepared ! 0) \<noteq> rg_id (tr_value t)
      then bad ''transport return value/preparation''
      else Inr ())"

definition check_terminator ::
  "project \<Rightarrow> program \<Rightarrow> reg_defs \<Rightarrow> (u32 \<Rightarrow> u32 set) \<Rightarrow> block \<Rightarrow> unit expected" where
  "check_terminator p pr defs doms b =
     (let t = bk_terminator b; use = reg_usable defs doms (bk_id b) (length (bk_instructions b) + 1);
          edgeuse = (\<lambda>e. list_all use (eg_args e)) in
      case tr_kind t of
        TermJump \<Rightarrow> (if edgeuse (tr_yes t) then Inr () else bad ''edge operand'')
      | TermBranch \<Rightarrow>
          (if use (tr_value t) \<and> kind_of p (tr_value t) = TK_Bool \<and> edgeuse (tr_yes t) \<and> edgeuse (tr_no t)
           then Inr () else bad ''branch condition/operand'')
      | TermSwitch \<Rightarrow> check_switch p use t
      | TermReturn \<Rightarrow> check_return p pr use t
      | TermFail \<Rightarrow> Inr ()
      | TermTransportReturn \<Rightarrow> check_transport_return pr use b
      | TermSuspend \<Rightarrow>
          (if \<not> use (tr_value t) \<or> kind_of p (tr_value t) \<noteq> TK_Handle \<or> bound_of p (tr_value t) \<noteq> handle_code HK_Wait
           then bad ''suspend wait handle''
           else if \<not> list_all use (tr_values t) then bad ''suspend undefined live register''
           else Inr ()))"

primrec check_blocks ::
  "project \<Rightarrow> limits \<Rightarrow> program \<Rightarrow> reg_defs \<Rightarrow> (u32 \<Rightarrow> u32 set) \<Rightarrow> block list \<Rightarrow> pure_state \<Rightarrow> pure_state expected" where
  "check_blocks p l pr defs doms [] st = Inr st"
| "check_blocks p l pr defs doms (b # bs) st =
     (case check_instructions p l pr defs doms b 0 (bk_instructions b) st of
        Inl e \<Rightarrow> Inl e
      | Inr st \<Rightarrow>
         (case check_terminator p pr defs doms b of
            Inl e \<Rightarrow> Inl e
          | Inr _ \<Rightarrow> check_blocks p l pr defs doms bs st))"

section \<open>Programs and projects\<close>

text \<open>Reachability and dominance of one program: the work so far and the dominators of each block.\<close>

definition check_flow :: "project \<Rightarrow> limits \<Rightarrow> program \<Rightarrow> nat \<Rightarrow> (nat \<times> (u32 \<Rightarrow> u32 set)) expected" where
  "check_flow p l pr work =
     (let ids = map bk_id (pg_blocks pr); al = sort ids in
      case block_edges p pr (pg_blocks pr) of
        Inl e \<Rightarrow> Inl e
      | Inr (pred, resumed) \<Rightarrow>
         (let roots = insert (pg_entry pr) (set resumed) in
          case reach_loop (lm_max_work l) pred ids work {pg_entry pr} of
            None \<Rightarrow> bad ''validation work limit''
          | Some (work, reached) \<Rightarrow>
             (if reached \<noteq> set ids then bad ''unreachable block''
              else case dom_loop (lm_max_work l) pred roots al work (\<lambda>b. if b \<in> roots then {b} else set al) of
                None \<Rightarrow> bad ''dominance work limit''
              | Some st \<Rightarrow> Inr st)))"

definition validate_program ::
  "project \<Rightarrow> limits \<Rightarrow> nat list \<Rightarrow> u32 list \<Rightarrow> program \<Rightarrow> pure_state \<Rightarrow> pure_state expected" where
  "validate_program p l sizes seen pr st =
     (case check_policy p pr of
        Inl e \<Rightarrow> Inl e
      | Inr _ \<Rightarrow> if length (pg_frame pr) > lm_max_rows l then bad ''frame slot bound''
      else case check_frame p sizes (pg_frame_bytes pr) [] 0 (pg_frame pr) of
        Inl e \<Rightarrow> Inl e
      | Inr _ \<Rightarrow> case check_header p l seen pr of
        Inl e \<Rightarrow> Inl e
      | Inr _ \<Rightarrow> case def_blocks p l (pg_blocks pr) (ps_work st, []) of
        Inl e \<Rightarrow> Inl e
      | Inr (work, defs) \<Rightarrow> case check_layout p l sizes pr defs of
        Inl e \<Rightarrow> Inl e
      | Inr _ \<Rightarrow> case check_flow p l pr work of
        Inl e \<Rightarrow> Inl e
      | Inr (work, doms) \<Rightarrow> check_blocks p l pr defs doms (pg_blocks pr) (st\<lparr>ps_work := work\<rparr>))"

primrec validate_programs ::
  "project \<Rightarrow> limits \<Rightarrow> nat list \<Rightarrow> u32 list \<Rightarrow> program list \<Rightarrow> pure_state \<Rightarrow> pure_state expected" where
  "validate_programs p l sizes seen [] st = Inr st"
| "validate_programs p l sizes seen (pr # prs) st =
     (case validate_program p l sizes seen pr st of
        Inl e \<Rightarrow> Inl e
      | Inr st \<Rightarrow> validate_programs p l sizes (pg_id pr # seen) prs st)"

definition check_tables :: "project \<Rightarrow> limits \<Rightarrow> unit expected" where
  "check_tables p l =
     (if lm_max_depth l = 0 \<or> lm_max_value_elements l = 0 \<or> lm_max_work l = 0 \<or> lm_max_registers l = 0
      then bad ''zero validation budget''
      else if pj_schema_major p < 1 \<or> pj_schema_major p > 5 then fail Unsupported ''schema version''
      else if pj_schema_major p = 1 \<and> pj_services p \<noteq> [] then bad ''v1 service table''
      else if length (pj_types p) > lm_max_rows l \<or> length (pj_programs p) > lm_max_rows l \<or>
          length (pj_state_types p) > lm_max_rows l
      then bad ''table bound''
      else Inr ())"

definition check_state :: "project \<Rightarrow> limits \<Rightarrow> unit expected" where
  "check_state p l =
     (if length (pj_state_types p) \<noteq> length (pj_initial_state p) then bad ''state shape''
      else if \<not> list_all2 (conforms (lm_max_depth l) p) (pj_state_types p) (pj_initial_state p)
      then bad ''state value type''
      else if length (pj_services p) > lm_max_rows l then bad ''service table bound''
      else Inr ())"

definition validate :: "project \<Rightarrow> limits \<Rightarrow> project expected" where
  "validate p l0 =
     (let l = l0\<lparr>lm_max_depth := min (lm_max_depth l0) 64\<rparr> in
      case check_tables p l of
        Inl e \<Rightarrow> Inl e
      | Inr _ \<Rightarrow> case check_type_graph p l of
        None \<Rightarrow> bad ''invalid/cyclic/oversized type graph''
      | Some vs \<Rightarrow> case check_state p l of
        Inl e \<Rightarrow> Inl e
      | Inr _ \<Rightarrow> case check_services p [] (pj_services p) of
        Inl e \<Rightarrow> Inl e
      | Inr _ \<Rightarrow> if \<not> distinct (map pg_id (pj_programs p)) then bad ''duplicate program''
      else case validate_programs p l (vs_sizes vs) [] (pj_programs p)
          \<lparr>ps_work = vs_work vs, ps_colors = (\<lambda>_. 0), ps_heights = (\<lambda>_. 0)\<rparr> of
        Inl e \<Rightarrow> Inl e
      | Inr st \<Rightarrow> case validate_metadata p (l\<lparr>lm_max_work := lm_max_work l - ps_work st\<rparr>) of
        Inl e \<Rightarrow> Inl e
      | Inr _ \<Rightarrow> Inr p)"

end
