(* ===== verification/Interpreter.thy ===== *)
theory Interpreter
  imports Exec_Typing Event_Txn Numeric
begin

text \<open>
  The interpreter of \<open>runtime/include/leanat/interpreter.hpp\<close> and \<open>runtime/src/interpreter.cpp\<close>: it
  runs one segment of a validated program over an event transaction, counting fuel, until the
  segment returns, fails or suspends.

  The virtual methods of \<open>InterpreterBackend\<close> are the fields of \<open>backend\<close>; they report errors by
  value. The observer is not modelled: it cannot influence the execution. A standard exception
  (\<open>std::out_of_range\<close>, \<open>std::bad_variant_access\<close>) is the outcome \<open>Threw\<close>, which the source turns
  into an error whose text holds the library's \<open>what()\<close>; undefined behaviour (an index outside of
  a vector, a null pointer, a shift by the width or more) is the outcome \<open>Undef\<close>.

  A run takes a clock, which every instruction and every terminator decreases by one, as it does
  the fuel. With a clock above the fuel it never runs out (\<open>run_clock\<close> in the properties), so
  \<open>execute_at\<close> takes one more than the fuel.
\<close>

unbundle bit_operations_syntax

section \<open>Data\<close>

record trace_event =
  te_kind :: string
  te_ready :: ready_key
  te_instance :: instance_id
  te_connection :: connection_id
  te_values :: "value_t list"

datatype segment_kind = Returned | Failed | Suspended | TransportReturned

record segment_result =
  sr_kind :: segment_kind
  sr_values :: "value_t list"
  sr_error :: string
  sr_fuel_used :: u64
  sr_traces :: "trace_event list"
  sr_suspended_wait :: "handle option"
  sr_resume_block :: u32
  sr_live_values :: "value_t list"

record suspension_token =
  st_process :: handle
  st_wait :: handle
  st_ordinal :: u64

record resume_input =
  ri_program :: u32
  ri_block :: u32
  ri_arguments :: "value_t list"

record 'x backend =
  be_check_signature :: "service_signature \<Rightarrow> unit expected"
  be_invoke :: "service_signature \<Rightarrow> value_t list \<Rightarrow> execution_context \<Rightarrow> event_txn \<Rightarrow> 'x world \<Rightarrow>
    value_t list expected \<times> event_txn \<times> 'x world"
  be_prepare_suspend :: "handle \<Rightarrow> u32 \<Rightarrow> value_t list \<Rightarrow> u32 \<Rightarrow> execution_context \<Rightarrow> event_txn \<Rightarrow> 'x world \<Rightarrow>
    unit expected \<times> event_txn \<times> 'x world"
  be_prepare_resume :: "suspension_token \<Rightarrow> execution_context \<Rightarrow> event_txn \<Rightarrow> 'x world \<Rightarrow>
    resume_input expected \<times> event_txn \<times> 'x world"

datatype exn = OutOfRange | BadVariantAccess

text \<open>
  The interpreter object. The last three fields are its surroundings: the sizes of the platform,
  the virtual methods of the staged participants, and the texts of the library's exceptions.
\<close>

record 'x interpreter =
  ip_project :: project
  ip_state :: "nat option list"
  ip_backend :: "'x backend option"
  ip_platform :: platform
  ip_ops :: "'x participant_ops"
  ip_what :: "exn \<Rightarrow> string"

datatype 'a vm_step = Fine 'a | Abort error | Threw exn | Undef

text \<open>
  The outcome of an activation. \<open>Caught x e\<close> is the return of the error \<open>e\<close> that reports the exception
  \<open>x\<close>; it is kept apart from the errors that the interpreter raises itself.
\<close>

datatype run_result = Finished "segment_result expected" | Caught exn error | UndefinedBehaviour | ClockOut

type_synonym regs = "u32 \<Rightarrow> value_t option"

text \<open>The locals of \<open>execute_at\<close> that change, with the fuel, the transaction and the world.\<close>

record 'x vm =
  vm_regs :: regs
  vm_traces :: "trace_event list"
  vm_trace_bytes :: nat
  vm_fuel :: u64
  vm_txn :: event_txn
  vm_world :: "'x world"

text \<open>The parameters of \<open>execute_at\<close>, the program it found and the fuel it started with.\<close>

record activation =
  av_id :: u32
  av_program :: program
  av_context :: execution_context
  av_depth :: nat
  av_pure :: bool
  av_initial :: u64

section \<open>Plumbing\<close>

definition and_then :: "'a vm_step \<Rightarrow> ('a \<Rightarrow> 'b vm_step) \<Rightarrow> 'b vm_step" where
  "and_then m f = (case m of Fine x \<Rightarrow> f x | Abort e \<Rightarrow> Abort e | Threw x \<Rightarrow> Threw x | Undef \<Rightarrow> Undef)"

definition stop :: "error_code \<Rightarrow> string \<Rightarrow> 'a vm_step" where
  "stop c m = Abort \<lparr>code = c, message = m\<rparr>"

definition of_expected :: "'a expected \<Rightarrow> 'a vm_step" where
  "of_expected r = (case r of Inl e \<Rightarrow> Abort e | Inr x \<Rightarrow> Fine x)"

text \<open>\<open>FuelCounter::consume\<close>\<close>

definition consume :: "u64 \<Rightarrow> u64 \<Rightarrow> u64 expected" where
  "consume amount remaining =
     (if remaining < amount then fail FuelExhausted ''instruction fuel exhausted'' else Inr (remaining - amount))"

text \<open>\<open>std::to_string\<close> on an unsigned number\<close>

fun decimal :: "nat \<Rightarrow> string" where
  "decimal n = (if n < 10 then [char_of (48 + n)] else decimal (n div 10) @ [char_of (48 + n mod 10)])"

declare decimal.simps [simp del]

definition program_location :: "u32 \<Rightarrow> string" where
  "program_location i = ''program '' @ decimal (unat i)"

definition instruction_location :: "activation \<Rightarrow> block \<Rightarrow> instruction \<Rightarrow> string" where
  "instruction_location av b i = program_location (av_id av) @ '', block '' @ decimal (unat (bk_id b)) @
     '', opcode '' @ decimal (unat (in_op i)) @ '', '' @ in_source i"

definition terminator_location :: "activation \<Rightarrow> block \<Rightarrow> string" where
  "terminator_location av b = program_location (av_id av) @ '', block '' @ decimal (unat (bk_id b)) @ '', terminator''"

definition located :: "string \<Rightarrow> error \<Rightarrow> error" where
  "located loc e = e\<lparr>message := message e @ '' ('' @ loc @ '')''\<rparr>"

definition vm_discard :: "'x interpreter \<Rightarrow> 'x vm \<Rightarrow> 'x vm" where
  "vm_discard ip vm =
     (case et_discard (ip_ops ip) (vm_txn vm) (vm_world vm) of (_, t, w) \<Rightarrow> vm\<lparr>vm_txn := t, vm_world := w\<rparr>)"

text \<open>\<open>abort\<close>, and the handlers of a standard exception\<close>

definition abort_run :: "'x interpreter \<Rightarrow> string \<Rightarrow> error \<Rightarrow> 'x vm \<Rightarrow> run_result \<times> 'x vm" where
  "abort_run ip loc e vm = (Finished (Inl (located loc e)), vm_discard ip vm)"

definition catch_run :: "'x interpreter \<Rightarrow> exn \<Rightarrow> 'x vm \<Rightarrow> run_result \<times> 'x vm" where
  "catch_run ip x vm =
     (Caught x \<lparr>code = InvalidState, message = ''interpreter invariant: '' @ ip_what ip x\<rparr>, vm_discard ip vm)"

section \<open>Registers and values\<close>

definition read_reg :: "regs \<Rightarrow> reg \<Rightarrow> value_t vm_step" where
  "read_reg regs r = (case regs (rg_id r) of None \<Rightarrow> Threw OutOfRange | Some v \<Rightarrow> Fine v)"

primrec read_all :: "regs \<Rightarrow> reg list \<Rightarrow> value_t list vm_step" where
  "read_all regs [] = Fine []"
| "read_all regs (r # rs) =
     and_then (read_reg regs r) (\<lambda>v. and_then (read_all regs rs) (\<lambda>vs. Fine (v # vs)))"

definition arg :: "regs \<Rightarrow> instruction \<Rightarrow> nat \<Rightarrow> value_t vm_step" where
  "arg regs i n = (if n < length (in_args i) then read_reg regs (in_args i ! n) else Undef)"

fun std_get_bool :: "value_t \<Rightarrow> bool vm_step" where
  "std_get_bool (VBool b) = Fine b" | "std_get_bool _ = Threw BadVariantAccess"

fun std_get_u64 :: "value_t \<Rightarrow> u64 vm_step" where
  "std_get_u64 (VU64 n) = Fine n" | "std_get_u64 _ = Threw BadVariantAccess"

fun std_get_array :: "value_t \<Rightarrow> value_t list vm_step" where
  "std_get_array (VArray a) = Fine a" | "std_get_array _ = Threw BadVariantAccess"

fun std_get_handle :: "value_t \<Rightarrow> handle vm_step" where
  "std_get_handle (VHandle h) = Fine h" | "std_get_handle _ = Threw BadVariantAccess"

text \<open>\<open>operator[]\<close> and \<open>at\<close> of a vector\<close>

definition index_of :: "'a list \<Rightarrow> nat \<Rightarrow> 'a vm_step" where
  "index_of xs n = (if n < length xs then Fine (xs ! n) else Undef)"

definition at :: "'a list \<Rightarrow> nat \<Rightarrow> 'a vm_step" where
  "at xs n = (if n < length xs then Fine (xs ! n) else Threw OutOfRange)"

definition arg_type :: "project \<Rightarrow> instruction \<Rightarrow> ir_type vm_step" where
  "arg_type p i = and_then (index_of (in_args i) 0) (\<lambda>r. index_of (pj_types p) (unat (rg_type r)))"

section \<open>Computing instructions\<close>

definition numeric_op :: "project \<Rightarrow> regs \<Rightarrow> instruction \<Rightarrow> value_t vm_step" where
  "numeric_op p regs i =
     and_then (arg_type p i) (\<lambda>type.
       let width = (if ty_kind type = TK_Bits then ucast (ty_bound type) else 0) in
       if in_op i = Op_Unary
       then and_then (arg regs i 0) (\<lambda>a. of_expected (eval_unary (in_immediate i) a width))
       else if in_op i = Op_Compare
       then and_then (arg regs i 0) (\<lambda>a. and_then (arg regs i 1) (\<lambda>b.
              of_expected (eval_compare (in_immediate i) a b width)))
       else case in_dest i of
         None \<Rightarrow> Undef
       | Some d \<Rightarrow> and_then (index_of (pj_types p) (unat (rg_type d))) (\<lambda>dt.
           and_then (arg regs i 0) (\<lambda>a.
             of_expected (eval_convert (in_immediate i) a width (ucast (ty_bound dt))))))"

definition arith :: "binary_op \<Rightarrow> u64 \<Rightarrow> u64 \<Rightarrow> u64 \<Rightarrow> value_t vm_step" where
  "arith bop m x y =
     (case bop of
        AddWrap \<Rightarrow> Fine (VU64 ((x + y) AND m))
      | SubWrap \<Rightarrow> Fine (VU64 ((x - y) AND m))
      | MulWrap \<Rightarrow> Fine (VU64 ((x * y) AND m))
      | AddChecked \<Rightarrow> if y > m - x then stop Overflow ''checked addition'' else Fine (VU64 (x + y))
      | DivChecked \<Rightarrow> if y = 0 then stop InvalidArgument ''division by zero'' else Fine (VU64 (x div y))
      | _ \<Rightarrow> stop Unsupported ''binary opcode'')"

definition binary_value :: "project \<Rightarrow> instruction \<Rightarrow> value_t \<Rightarrow> value_t \<Rightarrow> value_t vm_step" where
  "binary_value p i a b =
     (if in_binary i = BinEq then Fine (VBool (a = b))
      else if in_binary i = BinAnd \<or> in_binary i = BinOr
      then and_then (std_get_bool a) (\<lambda>x. and_then (std_get_bool b) (\<lambda>y.
             Fine (VBool (if in_binary i = BinAnd then x \<and> y else x \<or> y))))
      else and_then (std_get_u64 a) (\<lambda>x. and_then (std_get_u64 b) (\<lambda>y.
             if in_binary i = BinLt then Fine (VBool (x < y))
             else and_then (arg_type p i) (\<lambda>type.
               let w = ty_bound type in
               if w > 64 then Undef
               else arith (in_binary i) (if w = 64 then UINT64_MAX else push_bit (unat w) 1 - 1) x y))))"

definition variant_get :: "instruction \<Rightarrow> value_t \<Rightarrow> value_t vm_step" where
  "variant_get i v =
     and_then (std_get_array v) (\<lambda>a. and_then (index_of a 0) (\<lambda>h. and_then (std_get_u64 h) (\<lambda>tag.
       if tag \<noteq> ucast (drop_bit 16 (in_immediate i)) then stop TypeMismatch ''variant tag mismatch''
       else and_then (index_of a 1) (\<lambda>c. and_then (std_get_array c) (\<lambda>fs. at fs (unat (in_immediate i AND 65535)))))))"

definition vec_op :: "regs \<Rightarrow> instruction \<Rightarrow> value_t vm_step" where
  "vec_op regs i =
     and_then (arg regs i 0) (\<lambda>v. and_then (std_get_array v) (\<lambda>a.
       and_then (arg regs i 1) (\<lambda>x. and_then (std_get_u64 x) (\<lambda>n.
         if unat n \<ge> length a then stop InvalidArgument ''vector index out of range''
         else if in_op i = Op_VecGet then Fine (a ! unat n)
         else and_then (arg regs i 2) (\<lambda>y. Fine (VArray (a[unat n := y])))))))"

text \<open>The instructions that only compute \<open>out\<close>.\<close>

definition compute :: "project \<Rightarrow> execution_context \<Rightarrow> regs \<Rightarrow> instruction \<Rightarrow> value_t vm_step" where
  "compute p ctx regs i =
     (let opc = in_op i in
      if opc = Op_Unary \<or> opc = Op_Compare \<or> opc = Op_Convert then numeric_op p regs i
      else if opc = Op_GetNow then Fine (VU64 (rk_time (ec_ready ctx)))
      else if opc = Op_Const then Fine (in_value i)
      else if opc = Op_Move then arg regs i 0
      else if opc = Op_Binary then and_then (arg regs i 0) (\<lambda>a. and_then (arg regs i 1) (binary_value p i a))
      else if opc = Op_SelectValue
      then and_then (arg regs i 0) (\<lambda>c. and_then (std_get_bool c) (\<lambda>b. arg regs i (if b then 1 else 2)))
      else if opc = Op_MakeRecord \<or> opc = Op_MakeVec then and_then (read_all regs (in_args i)) (\<lambda>a. Fine (VArray a))
      else if opc = Op_MakeVariant
      then and_then (read_all regs (in_args i)) (\<lambda>a. Fine (VArray [VU64 (ucast (in_immediate i)), VArray a]))
      else if opc = Op_GetField
      then and_then (arg regs i 0) (\<lambda>v. and_then (std_get_array v) (\<lambda>a. at a (unat (in_immediate i))))
      else if opc = Op_VariantTag
      then and_then (arg regs i 0) (\<lambda>v. and_then (std_get_array v) (\<lambda>a. index_of a 0))
      else if opc = Op_VariantGet then and_then (arg regs i 0) (variant_get i)
      else vec_op regs i)"

definition computing :: "opcode \<Rightarrow> bool" where
  "computing opc \<longleftrightarrow> opc \<le> Op_SelectValue \<or> opc \<in> {Op_Unary, Op_Compare, Op_Convert, Op_GetNow}"

section \<open>Instructions with effects\<close>

fun trace_size :: "platform \<Rightarrow> value_t \<Rightarrow> nat" where
  "trace_size pf (VBytes b) = sizeof_Value pf + length b"
| "trace_size pf (VArray a) = sizeof_Value pf + sum_list (map (trace_size pf) a)"
| "trace_size pf v = sizeof_Value pf"

primrec trace_values :: "platform \<Rightarrow> regs \<Rightarrow> reg list \<Rightarrow> nat \<Rightarrow> (nat \<times> value_t list) vm_step" where
  "trace_values pf regs [] n = Fine (n, [])"
| "trace_values pf regs (r # rs) n =
     and_then (read_reg regs r) (\<lambda>v.
       if trace_size pf v > 1048576 - n then stop Capacity ''trace value budget''
       else and_then (trace_values pf regs rs (n + trace_size pf v)) (\<lambda>(n, vs). Fine (n, v # vs)))"

definition exec_trace :: "'x interpreter \<Rightarrow> execution_context \<Rightarrow> instruction \<Rightarrow> 'x vm \<Rightarrow> value_t vm_step \<times> 'x vm" where
  "exec_trace ip ctx i vm =
     (if length (vm_traces vm) \<ge> 65536 \<or> length (in_text i) > 1048576 - vm_trace_bytes vm
      then (stop Capacity ''trace budget'', vm)
      else case trace_values (ip_platform ip) (vm_regs vm) (in_args i) (vm_trace_bytes vm + length (in_text i)) of
        Fine (n, vs) \<Rightarrow>
          (Fine VUnit, vm\<lparr>vm_trace_bytes := n, vm_traces := vm_traces vm @
             [\<lparr>te_kind = in_text i, te_ready = ec_ready ctx, te_instance = ec_instance ctx,
               te_connection = ec_connection ctx, te_values = vs\<rparr>]\<rparr>)
      | Abort e \<Rightarrow> (Abort e, vm)
      | Threw x \<Rightarrow> (Threw x, vm)
      | Undef \<Rightarrow> (Undef, vm))"

text \<open>\<open>*state_[i.immediate]\<close>\<close>

definition state_cell :: "'x interpreter \<Rightarrow> instruction \<Rightarrow> nat vm_step" where
  "state_cell ip i =
     and_then (index_of (ip_state ip) (unat (in_immediate i))) (\<lambda>c. case c of None \<Rightarrow> Undef | Some a \<Rightarrow> Fine a)"

definition exec_state :: "'x interpreter \<Rightarrow> instruction \<Rightarrow> 'x vm \<Rightarrow> value_t vm_step \<times> 'x vm" where
  "exec_state ip i vm =
     (if in_op i = Op_LoadState
      then (and_then (state_cell ip i) (\<lambda>c. of_expected (et_read (vm_world vm) (vm_txn vm) c)), vm)
      else case and_then (state_cell ip i) (\<lambda>c. and_then (arg (vm_regs vm) i 0) (\<lambda>v. Fine (c, v))) of
        Fine (c, v) \<Rightarrow>
          (case et_buffer (ip_platform ip) (vm_world vm) c v (vm_txn vm) of
             (r, t) \<Rightarrow> (and_then (of_expected r) (\<lambda>_. Fine VUnit), vm\<lparr>vm_txn := t\<rparr>))
      | Abort e \<Rightarrow> (Abort e, vm)
      | Threw x \<Rightarrow> (Threw x, vm)
      | Undef \<Rightarrow> (Undef, vm))"

definition exec_service :: "'x interpreter \<Rightarrow> activation \<Rightarrow> instruction \<Rightarrow> 'x vm \<Rightarrow> value_t vm_step \<times> 'x vm" where
  "exec_service ip av i vm =
     (case (ip_backend ip, if av_pure av then None else find_service (ip_project ip) (in_immediate i)) of
        (Some be, Some s) \<Rightarrow>
         (case consume (sv_extra_fuel s) (vm_fuel vm) of
            Inl e \<Rightarrow> (Abort e, vm)
          | Inr fuel \<Rightarrow>
             (case read_all (vm_regs vm) (in_args i) of
                Fine inputs \<Rightarrow>
                 (case be_invoke be s inputs (av_context av) (vm_txn vm) (vm_world vm) of
                    (r, t, w) \<Rightarrow>
                     (let vm = vm\<lparr>vm_fuel := fuel, vm_txn := t, vm_world := w\<rparr> in
                      case r of
                        Inl e \<Rightarrow> (Abort e, vm)
                      | Inr vs \<Rightarrow>
                         (if length vs \<noteq> length (sv_result_types s)
                          then (stop TypeMismatch ''service result arity'', vm)
                          else if in_dest i = None then (Fine VUnit, vm)
                          else (index_of vs 0, vm))))
              | Abort e \<Rightarrow> (Abort e, vm\<lparr>vm_fuel := fuel\<rparr>)
              | Threw x \<Rightarrow> (Threw x, vm\<lparr>vm_fuel := fuel\<rparr>)
              | Undef \<Rightarrow> (Undef, vm\<lparr>vm_fuel := fuel\<rparr>)))
      | _ \<Rightarrow> (stop Unsupported ''service binding unavailable'', vm))"

text \<open>The switch over the opcodes, the call of a pure program apart.\<close>

definition exec_instruction :: "'x interpreter \<Rightarrow> activation \<Rightarrow> instruction \<Rightarrow> 'x vm \<Rightarrow> value_t vm_step \<times> 'x vm" where
  "exec_instruction ip av i vm =
     (if computing (in_op i) then (compute (ip_project ip) (av_context av) (vm_regs vm) i, vm)
      else if in_op i = Op_LoadState \<or> in_op i = Op_BufferStateWrite then exec_state ip i vm
      else if in_op i = Op_Check
      then (and_then (arg (vm_regs vm) i 0) (\<lambda>v. and_then (std_get_bool v) (\<lambda>b.
              if b then Fine VUnit else stop InvalidState (in_text i))), vm)
      else if in_op i = Op_Trace then exec_trace ip (av_context av) i vm
      else exec_service ip av i vm)"

section \<open>Entering a program\<close>

definition last_program :: "project \<Rightarrow> u32 \<Rightarrow> program option" where
  "last_program p i = find (\<lambda>pr. pg_id pr = i) (rev (pj_programs p))"

definition program_owner :: "project \<Rightarrow> u32 \<Rightarrow> instance_desc option" where
  "program_owner p i = find (\<lambda>x. \<exists>h \<in> set (ins_handlers x). hb_program_id h = i) (rev (pj_instances p))"

definition check_owner :: "project \<Rightarrow> u32 \<Rightarrow> execution_context \<Rightarrow> bool \<Rightarrow> unit expected" where
  "check_owner p i ctx pure =
     (if \<not> (pj_schema_major p \<ge> 4 \<and> (pj_schema_major p = 4 \<or> pj_system_metadata p \<noteq> None)) then Inr ()
      else if map_option sm_runtime_domain (pj_system_metadata p) \<noteq> Some (ec_domain ctx)
      then fail WrongDomain ''program runtime domain mismatch''
      else if \<not> pure \<and> map_option ins_id (program_owner p i) \<noteq> Some (ec_instance ctx)
      then fail WrongOwner ''program instance mismatch''
      else Inr ())"

primrec check_signatures :: "'x backend option \<Rightarrow> service_signature list \<Rightarrow> unit expected" where
  "check_signatures be [] = Inr ()"
| "check_signatures be (s # ss) =
     (case be of
        None \<Rightarrow> fail Unsupported ''service backend unavailable''
      | Some b \<Rightarrow> (case be_check_signature b s of Inl e \<Rightarrow> Inl e | Inr _ \<Rightarrow> check_signatures be ss))"

definition state_bound :: "project \<Rightarrow> 'x world \<Rightarrow> u32 \<Rightarrow> nat option \<Rightarrow> bool" where
  "state_bound p w t c \<longleftrightarrow> (case c of None \<Rightarrow> False | Some a \<Rightarrow> conforms 64 p t (vc_value (cell_of w a)))"

definition check_entry ::
  "'x interpreter \<Rightarrow> program \<Rightarrow> value_t list \<Rightarrow> 'x world \<Rightarrow> u32 option \<Rightarrow> block expected" where
  "check_entry ip pr args w start =
     (let p = ip_project ip; entry = (case start of None \<Rightarrow> pg_entry pr | Some b \<Rightarrow> b) in
      case find (\<lambda>b. bk_id b = entry) (rev (pg_blocks pr)) of
        None \<Rightarrow> fail InvalidState ''resume block missing''
      | Some b \<Rightarrow>
         (if length args \<noteq> length (bk_parameters b) then fail TypeMismatch ''input arity''
          else if \<not> list_all2 (\<lambda>r v. conforms 64 p (rg_type r) v) (bk_parameters b) args
          then fail TypeMismatch ''input type''
          else if length (ip_state ip) \<noteq> length (pj_state_types p) then fail InvalidState ''state binding shape''
          else if \<not> list_all2 (state_bound p w) (pj_state_types p) (ip_state ip)
          then fail TypeMismatch ''state binding type''
          else Inr b))"

text \<open>The checks of \<open>execute_at\<close> before its loop, in order.\<close>

definition enter ::
  "'x interpreter \<Rightarrow> u32 \<Rightarrow> execution_context \<Rightarrow> value_t list \<Rightarrow> event_txn \<Rightarrow> 'x world \<Rightarrow> u32 option \<Rightarrow> nat \<Rightarrow> bool \<Rightarrow>
     (program \<times> block) expected" where
  "enter ip i ctx args t w start call_depth pure =
     (let p = ip_project ip in
      case last_program p i of
        None \<Rightarrow> fail InvalidArgument ''program not found''
      | Some pr \<Rightarrow> case check_owner p i ctx pure of
        Inl e \<Rightarrow> Inl e
      | Inr _ \<Rightarrow>
        if call_depth > 64 then fail Capacity ''pure call depth bound''
        else if ctx \<noteq> et_context t then fail WrongOwner ''execution/transaction context mismatch''
        else if pj_schema_major p = 1 \<and> ec_kind ctx \<noteq> CK_Timed \<and> ec_kind ctx \<noteq> CK_Process
        then fail Unsupported ''v1 programs require a timed or process context''
        else if pj_schema_major p \<ge> 2 \<and> \<not> pure \<and> ec_kind ctx \<noteq> pg_context pr
        then fail InvalidState ''program context mismatch''
        else case (if pure then Inr () else check_signatures (ip_backend ip) (pj_services p)) of
          Inl e \<Rightarrow> Inl e
        | Inr _ \<Rightarrow> case check_entry ip pr args w start of
          Inl e \<Rightarrow> Inl e
        | Inr b \<Rightarrow> Inr (pr, b))"

text \<open>Assign values to the parameters of a block; \<open>parameters[i]\<close> past the end is undefined.\<close>

primrec assign_params :: "reg list \<Rightarrow> value_t list \<Rightarrow> regs \<Rightarrow> regs vm_step" where
  "assign_params ps [] regs = Fine regs"
| "assign_params ps (v # vs) regs =
     (case ps of [] \<Rightarrow> Undef | r # rs \<Rightarrow> assign_params rs vs (regs(rg_id r \<mapsto> v)))"

section \<open>Terminators\<close>

datatype transfer = Goto edge | Halt segment_result

text \<open>The fuel used so far, with the traces, in a result of the given kind.\<close>

definition segment_of :: "segment_kind \<Rightarrow> activation \<Rightarrow> 'x vm \<Rightarrow> segment_result" where
  "segment_of k av vm = \<lparr>sr_kind = k, sr_values = [], sr_error = [], sr_fuel_used = av_initial av - vm_fuel vm,
     sr_traces = vm_traces vm, sr_suspended_wait = None, sr_resume_block = 0, sr_live_values = []\<rparr>"

text \<open>The wait, the live values and the type of the wait result that a suspension hands over.\<close>

definition suspend_args :: "program \<Rightarrow> terminator \<Rightarrow> regs \<Rightarrow> (handle \<times> value_t list \<times> u32) vm_step" where
  "suspend_args pr t regs =
     and_then (read_reg regs (tr_value t)) (\<lambda>v. and_then (std_get_handle v) (\<lambda>wait.
       and_then (read_all regs (tr_values t)) (\<lambda>saved.
         case find_block pr (eg_target (tr_yes t)) of
           None \<Rightarrow> Threw OutOfRange
         | Some b \<Rightarrow> and_then (index_of (bk_parameters b) 0) (\<lambda>r. Fine (wait, saved, rg_type r)))))"

definition exec_suspend ::
  "'x interpreter \<Rightarrow> activation \<Rightarrow> terminator \<Rightarrow> 'x vm \<Rightarrow> transfer vm_step \<times> 'x vm" where
  "exec_suspend ip av t vm =
     (case ip_backend ip of
        None \<Rightarrow> (stop Unsupported ''suspend backend unavailable'', vm)
      | Some be \<Rightarrow>
         (case suspend_args (av_program av) t (vm_regs vm) of
            Fine (wait, saved, type) \<Rightarrow>
             (case be_prepare_suspend be wait (eg_target (tr_yes t)) saved type (av_context av) (vm_txn vm) (vm_world vm) of
                (r, tx, w) \<Rightarrow>
                 (let vm = vm\<lparr>vm_txn := tx, vm_world := w\<rparr> in
                  (and_then (of_expected r) (\<lambda>_. Fine (Halt ((segment_of Suspended av vm)
                     \<lparr>sr_suspended_wait := Some wait, sr_resume_block := eg_target (tr_yes t), sr_live_values := saved\<rparr>))), vm)))
          | Abort e \<Rightarrow> (Abort e, vm)
          | Threw x \<Rightarrow> (Threw x, vm)
          | Undef \<Rightarrow> (Undef, vm)))"

definition exec_terminator ::
  "'x interpreter \<Rightarrow> activation \<Rightarrow> terminator \<Rightarrow> 'x vm \<Rightarrow> transfer vm_step \<times> 'x vm" where
  "exec_terminator ip av t vm =
     (let read = read_reg (vm_regs vm) in
      case tr_kind t of
        TermTransportReturn \<Rightarrow>
          (and_then (read (tr_value t)) (\<lambda>v. Fine (Halt ((segment_of TransportReturned av vm)\<lparr>sr_values := [v]\<rparr>))), vm)
      | TermSuspend \<Rightarrow> exec_suspend ip av t vm
      | TermJump \<Rightarrow> (Fine (Goto (tr_yes t)), vm)
      | TermBranch \<Rightarrow>
          (and_then (read (tr_value t)) (\<lambda>v. and_then (std_get_bool v) (\<lambda>b.
             Fine (Goto (if b then tr_yes t else tr_no t)))), vm)
      | TermSwitch \<Rightarrow>
          (and_then (read (tr_value t)) (\<lambda>v. and_then (std_get_u64 v) (\<lambda>tag.
             Fine (Goto (case map_of (tr_cases t) tag of None \<Rightarrow> tr_no t | Some e \<Rightarrow> e)))), vm)
      | TermReturn \<Rightarrow>
          (and_then (read_all (vm_regs vm) (tr_values t)) (\<lambda>vs.
             Fine (Halt ((segment_of Returned av vm)\<lparr>sr_values := vs\<rparr>))), vm)
      | TermFail \<Rightarrow>
          (let vm = vm_discard ip vm in (Fine (Halt ((segment_of Failed av vm)\<lparr>sr_error := tr_error t\<rparr>)), vm)))"

text \<open>Follow an edge: the arguments are read before any parameter is assigned.\<close>

definition follow :: "program \<Rightarrow> edge \<Rightarrow> regs \<Rightarrow> (block \<times> regs) vm_step" where
  "follow pr e regs =
     and_then (read_all regs (eg_args e)) (\<lambda>incoming.
       case find_block pr (eg_target e) of
         None \<Rightarrow> Threw OutOfRange
       | Some b \<Rightarrow> and_then (assign_params (bk_parameters b) incoming regs) (\<lambda>regs. Fine (b, regs)))"

section \<open>The loop\<close>

text \<open>The activation of a program that has been entered, with its own registers and traces.\<close>

definition activate ::
  "u32 \<Rightarrow> program \<Rightarrow> execution_context \<Rightarrow> nat \<Rightarrow> bool \<Rightarrow> block \<Rightarrow> value_t list \<Rightarrow> 'x vm \<Rightarrow> activation \<times> 'x vm" where
  "activate i pr ctx call_depth pure b args vm =
     (\<lparr>av_id = i, av_program = pr, av_context = ctx, av_depth = call_depth, av_pure = pure, av_initial = vm_fuel vm\<rparr>,
      vm\<lparr>vm_regs := map_of (rev (zip (map rg_id (bk_parameters b)) args)), vm_traces := [], vm_trace_bytes := 0\<rparr>)"

text \<open>
  What \<open>CallPure\<close> makes of the result of its callee, back in the caller's locals: a value or an
  error of this instruction, or an outcome to pass on.
\<close>

definition returned_value :: "run_result \<Rightarrow> value_t vm_step + run_result" where
  "returned_value r =
     (case r of
        Finished (Inl e) \<Rightarrow> Inl (Abort e)
      | Finished (Inr s) \<Rightarrow>
          Inl (if sr_kind s \<noteq> Returned \<or> length (sr_values s) \<noteq> 1
               then stop InvalidState (''pure call failed: '' @ sr_error s)
               else Fine (sr_values s ! 0))
      | _ \<Rightarrow> Inr r)"

definition call_pure ::
  "'x interpreter \<Rightarrow> (activation \<Rightarrow> block \<Rightarrow> 'x vm \<Rightarrow> run_result \<times> 'x vm) \<Rightarrow> activation \<Rightarrow> instruction \<Rightarrow> 'x vm \<Rightarrow>
     (value_t vm_step + run_result) \<times> 'x vm" where
  "call_pure ip go av i vm =
     (case read_all (vm_regs vm) (in_args i) of
        Fine inputs \<Rightarrow>
         (case enter ip (in_immediate i) (av_context av) inputs (vm_txn vm) (vm_world vm) None (av_depth av + 1) True of
            Inl e \<Rightarrow> (Inl (Abort (located (program_location (in_immediate i)) e)), vm_discard ip vm)
          | Inr (pr, b) \<Rightarrow>
             (case activate (in_immediate i) pr (av_context av) (av_depth av + 1) True b inputs vm of
                (av', vm0) \<Rightarrow>
                 (case go av' b vm0 of
                    (r, vm') \<Rightarrow> (returned_value r,
                      vm'\<lparr>vm_regs := vm_regs vm, vm_traces := vm_traces vm, vm_trace_bytes := vm_trace_bytes vm\<rparr>))))
      | Abort e \<Rightarrow> (Inl (Abort e), vm)
      | Threw x \<Rightarrow> (Inl (Threw x), vm)
      | Undef \<Rightarrow> (Inl Undef, vm))"

text \<open>An exception in a callee: the caller aborts with the error that reports it.\<close>

definition pass_on :: "'x interpreter \<Rightarrow> string \<Rightarrow> run_result \<Rightarrow> 'x vm \<Rightarrow> run_result \<times> 'x vm" where
  "pass_on ip loc r vm = (case r of Caught x e \<Rightarrow> (Caught x (located loc e), vm_discard ip vm) | _ \<Rightarrow> (r, vm))"

text \<open>Store the computed value, if the instruction has a destination.\<close>

definition store_out :: "project \<Rightarrow> instruction \<Rightarrow> value_t \<Rightarrow> regs \<Rightarrow> regs vm_step" where
  "store_out p i out regs =
     (case in_dest i of
        None \<Rightarrow> Fine regs
      | Some d \<Rightarrow>
         (if conforms 64 p (rg_type d) out then Fine (regs(rg_id d \<mapsto> out))
          else stop TypeMismatch ''computed value type''))"

text \<open>
  One activation from instruction \<open>k\<close> of block \<open>b\<close> on; past the last instruction comes the
  terminator.
\<close>

primrec run :: "nat \<Rightarrow> 'x interpreter \<Rightarrow> activation \<Rightarrow> block \<Rightarrow> nat \<Rightarrow> 'x vm \<Rightarrow> run_result \<times> 'x vm" where
  "run 0 ip av b k vm = (ClockOut, vm)"
| "run (Suc n) ip av b k vm =
     (if k < length (bk_instructions b) then
        (let i = bk_instructions b ! k; loc = instruction_location av b i in
         case consume 1 (vm_fuel vm) of
           Inl e \<Rightarrow> abort_run ip loc e vm
         | Inr fuel \<Rightarrow>
            (case (if in_op i = Op_CallPure
                   then call_pure ip (\<lambda>av b. run n ip av b 0) av i (vm\<lparr>vm_fuel := fuel\<rparr>)
                   else apfst Inl (exec_instruction ip av i (vm\<lparr>vm_fuel := fuel\<rparr>))) of
               (Inr r, vm) \<Rightarrow> pass_on ip loc r vm
             | (Inl out, vm) \<Rightarrow>
                (case and_then out (\<lambda>v. store_out (ip_project ip) i v (vm_regs vm)) of
                   Fine regs \<Rightarrow> run n ip av b (k + 1) (vm\<lparr>vm_regs := regs\<rparr>)
                 | Abort e \<Rightarrow> abort_run ip loc e vm
                 | Threw x \<Rightarrow> catch_run ip x vm
                 | Undef \<Rightarrow> (UndefinedBehaviour, vm))))
      else
        (case consume 1 (vm_fuel vm) of
           Inl e \<Rightarrow> abort_run ip (terminator_location av b) e vm
         | Inr fuel \<Rightarrow>
            (case exec_terminator ip av (bk_terminator b) (vm\<lparr>vm_fuel := fuel\<rparr>) of
               (out, vm) \<Rightarrow>
                (case out of
                   Fine (Halt r) \<Rightarrow> (Finished (Inr r), vm)
                 | Fine (Goto e) \<Rightarrow>
                    (case follow (av_program av) e (vm_regs vm) of
                       Fine (b, regs) \<Rightarrow> run n ip av b 0 (vm\<lparr>vm_regs := regs\<rparr>)
                     | Abort e \<Rightarrow> abort_run ip (terminator_location av b) e vm
                     | Threw x \<Rightarrow> catch_run ip x vm
                     | Undef \<Rightarrow> (UndefinedBehaviour, vm))
                 | Abort e \<Rightarrow> abort_run ip (terminator_location av b) e vm
                 | Threw x \<Rightarrow> catch_run ip x vm
                 | Undef \<Rightarrow> (UndefinedBehaviour, vm)))))"

definition execute_at ::
  "'x interpreter \<Rightarrow> u32 \<Rightarrow> execution_context \<Rightarrow> value_t list \<Rightarrow> u32 option \<Rightarrow> 'x vm \<Rightarrow> run_result \<times> 'x vm" where
  "execute_at ip i ctx args start vm =
     (case enter ip i ctx args (vm_txn vm) (vm_world vm) start 0 False of
        Inl e \<Rightarrow> abort_run ip (program_location i) e vm
      | Inr (pr, b) \<Rightarrow>
         (case activate i pr ctx 0 False b args vm of
            (av, vm) \<Rightarrow> run (unat (vm_fuel vm) + 1) ip av b 0 vm))"

section \<open>Segments\<close>

text \<open>\<open>bounded_segment\<close>: a program with its own fuel limit gets at most that much of the caller's.\<close>

definition bounded_segment ::
  "project \<Rightarrow> u32 \<Rightarrow> ('x vm \<Rightarrow> run_result \<times> 'x vm) \<Rightarrow> 'x vm \<Rightarrow> run_result \<times> 'x vm" where
  "bounded_segment p i invoke vm =
     (case last_program p i of
        None \<Rightarrow> invoke vm
      | Some pr \<Rightarrow>
         (if pj_schema_major p < 5 \<or> pg_instruction_fuel pr = 0 then invoke vm
          else let caller = vm_fuel vm; available = min caller (pg_instruction_fuel pr) in
            case invoke (vm\<lparr>vm_fuel := available\<rparr>) of
              (r, vm) \<Rightarrow> (r, vm\<lparr>vm_fuel := caller - (available - vm_fuel vm)\<rparr>)))"

definition execute_segment ::
  "'x interpreter \<Rightarrow> u32 \<Rightarrow> execution_context \<Rightarrow> value_t list \<Rightarrow> 'x vm \<Rightarrow> run_result \<times> 'x vm" where
  "execute_segment ip i ctx args vm =
     bounded_segment (ip_project ip) i (execute_at ip i ctx args None) vm"

definition resume_segment ::
  "'x interpreter \<Rightarrow> suspension_token \<Rightarrow> execution_context \<Rightarrow> 'x vm \<Rightarrow> run_result \<times> 'x vm" where
  "resume_segment ip token ctx vm =
     (let refuse = (\<lambda>c m. (Finished (fail c m), vm_discard ip vm)) in
      if ec_kind ctx \<noteq> CK_Process \<or> ctx \<noteq> et_context (vm_txn vm)
      then refuse WrongOwner ''resume execution/transaction context mismatch''
      else if h_kind (st_process token) \<noteq> HK_Process \<or> h_kind (st_wait token) \<noteq> HK_Wait
      then refuse TypeMismatch ''suspension token handle kinds''
      else if h_domain (st_process token) \<noteq> ec_domain ctx \<or> h_domain (st_wait token) \<noteq> ec_domain ctx
      then refuse WrongDomain ''suspension token domain''
      else case ip_backend ip of
        None \<Rightarrow> refuse Unsupported ''resume backend unavailable''
      | Some be \<Rightarrow>
         (case be_prepare_resume be token ctx (vm_txn vm) (vm_world vm) of
            (r, t, w) \<Rightarrow>
             (let vm = vm\<lparr>vm_txn := t, vm_world := w\<rparr> in
              case r of
                Inl e \<Rightarrow> (Finished (Inl e), vm_discard ip vm)
              | Inr ri \<Rightarrow>
                  bounded_segment (ip_project ip) (ri_program ri)
                    (execute_at ip (ri_program ri) ctx (ri_arguments ri) (Some (ri_block ri))) vm)))"

end
