(* ===== verification/Exec_Flow.thy ===== *)
theory Exec_Flow
  imports Exec_Typing
begin

text \<open>
  What the validation of a program establishes, in the form that the safety of its execution
  needs: the register definitions are those of the blocks, dominators shrink along edges, and
  every instruction and terminator has passed its check (\<open>typed_program\<close>).
\<close>

section \<open>Register definitions\<close>

primrec instr_defs :: "u32 \<Rightarrow> nat \<Rightarrow> instruction list \<Rightarrow> reg_defs" where
  "instr_defs b k [] = []"
| "instr_defs b k (i # is) =
     (case in_dest i of None \<Rightarrow> [] | Some r \<Rightarrow> [(rg_id r, \<lparr>df_type = rg_type r, df_block = b, df_order = k + 1\<rparr>)]) @
     instr_defs b (k + 1) is"

definition param_defs :: "u32 \<Rightarrow> reg list \<Rightarrow> reg_defs" where
  "param_defs b rs = map (\<lambda>r. (rg_id r, \<lparr>df_type = rg_type r, df_block = b, df_order = 0\<rparr>)) rs"

definition block_defs :: "block \<Rightarrow> reg_defs" where
  "block_defs b = param_defs (bk_id b) (bk_parameters b) @ instr_defs (bk_id b) 0 (bk_instructions b)"

definition defs_grow :: "project \<Rightarrow> reg_defs \<Rightarrow> reg_defs \<Rightarrow> reg_defs \<Rightarrow> bool" where
  "defs_grow p new ds ds' \<longleftrightarrow> set ds' = set new \<union> set ds \<and> (distinct (map fst ds) \<longrightarrow> distinct (map fst ds')) \<and>
     (\<forall>d \<in> set new. type_ok p (df_type (snd d)))"

lemma defs_grow_nil [simp]: "defs_grow p [] ds ds"
  by (simp add: defs_grow_def)

lemma defs_grow_append: "defs_grow p n1 ds ds1 \<Longrightarrow> defs_grow p n2 ds1 ds2 \<Longrightarrow> defs_grow p (n1 @ n2) ds ds2"
  by (auto simp: defs_grow_def)

lemma defs_grow_Cons: "defs_grow p [x] ds ds1 \<Longrightarrow> defs_grow p n2 ds1 ds2 \<Longrightarrow> defs_grow p (x # n2) ds ds2"
  using defs_grow_append [of p "[x]"] by simp

lemma def_reg_grow:
  "def_reg p l b r k (w, ds) = Some (w', ds') \<Longrightarrow>
   defs_grow p [(rg_id r, \<lparr>df_type = rg_type r, df_block = b, df_order = k\<rparr>)] ds ds'"
  by (auto simp: def_reg_def defs_grow_def map_of_eq_None_iff split: if_splits)

lemma def_params_grow:
  "def_params p l b rs (w, ds) = Some (w', ds') \<Longrightarrow> defs_grow p (param_defs b rs) ds ds'"
proof (induction rs arbitrary: w ds)
  case (Cons r rs)
  then obtain w1 ds1 where one: "def_reg p l b r 0 (w, ds) = Some (w1, ds1)"
    and rest: "def_params p l b rs (w1, ds1) = Some (w', ds')" by (auto split: option.splits)
  from defs_grow_Cons [OF def_reg_grow [OF one] Cons.IH [OF rest]] show ?case by (simp add: param_defs_def)
qed (simp add: param_defs_def)

lemma def_instructions_grow:
  "def_instructions p l b k is (w, ds) = Some (w', ds') \<Longrightarrow> defs_grow p (instr_defs b k is) ds ds'"
proof (induction "is" arbitrary: k w ds)
  case (Cons i "is")
  show ?case
  proof (cases "in_dest i")
    case None
    with Cons.prems have "def_instructions p l b (k + 1) is (w + 1, ds) = Some (w', ds')" by (simp split: if_splits)
    from Cons.IH [OF this] None show ?thesis by simp
  next
    case (Some r)
    with Cons.prems obtain w1 ds1 where one: "def_reg p l b r (k + 1) (w + 1, ds) = Some (w1, ds1)"
      and rest: "def_instructions p l b (k + 1) is (w1, ds1) = Some (w', ds')" by (auto split: option.splits if_splits)
    from defs_grow_Cons [OF def_reg_grow [OF one] Cons.IH [OF rest]] Some show ?thesis by simp
  qed
qed simp

lemma def_blocks_grow:
  "def_blocks p l bs (w, ds) = Inr (w', ds') \<Longrightarrow> defs_grow p (concat (map block_defs bs)) ds ds'"
proof (induction bs arbitrary: w ds)
  case (Cons b bs)
  then obtain w1 ds1 w2 ds2 where ps: "def_params p l (bk_id b) (bk_parameters b) (w, ds) = Some (w1, ds1)"
    and "is": "def_instructions p l (bk_id b) 0 (bk_instructions b) (w1, ds1) = Some (w2, ds2)"
    and rest: "def_blocks p l bs (w2, ds2) = Inr (w', ds')"
    by (auto simp: bad_def split: option.splits if_splits)
  from defs_grow_append [OF defs_grow_append [OF def_params_grow [OF ps] def_instructions_grow [OF "is"]] Cons.IH [OF rest]]
  show ?case by (simp add: block_defs_def)
qed simp

lemma instr_defs_iff:
  "(x, d) \<in> set (instr_defs b k is) \<longleftrightarrow>
   (\<exists>j < length is. \<exists>r. in_dest (is ! j) = Some r \<and> x = rg_id r \<and>
      d = \<lparr>df_type = rg_type r, df_block = b, df_order = k + j + 1\<rparr>)"
proof (induction "is" arbitrary: k)
  case (Cons i "is")
  show ?case unfolding length_Cons Ex_less_Suc2 nth_Cons_0 nth_Cons_Suc
    by (cases "in_dest i") (auto simp: Cons.IH)
qed simp

section \<open>Dominators\<close>

lemma dom_meet_subset:
  "dom_meet mx doms ps acc work = Some (work', acc') \<Longrightarrow> acc' \<subseteq> acc \<and> (\<forall>c \<in> set ps. acc' \<subseteq> doms c)"
proof (induction ps arbitrary: acc work)
  case (Cons c ps)
  then have "dom_meet mx doms ps (Set.filter (\<lambda>x. x \<in> doms c) acc) (work + card acc) = Some (work', acc')"
    by (simp split: if_splits)
  from Cons.IH [OF this] show ?case by auto
qed simp

lemma dom_pass_Cons:
  assumes "x \<notin> roots" "dom_pass mx pred roots al (x # bs) (work, doms, changed) = Some r"
  obtains w acc where "dom_meet mx doms (preds pred x) al work = Some (w, acc)"
    "dom_pass mx pred roots al bs (w, doms(x := insert x acc), changed \<or> insert x acc \<noteq> doms x) = Some r"
proof -
  from assms obtain w acc where meet: "dom_meet mx doms (preds pred x) al work = Some (w, acc)"
    by (simp split: option.splits prod.splits)
  moreover have "dom_pass mx pred roots al bs (w, doms(x := insert x acc), changed \<or> insert x acc \<noteq> doms x) = Some r"
  proof (cases "insert x acc = doms x")
    case True
    then show ?thesis using assms meet by (simp add: fun_upd_idem)
  next
    case False
    then show ?thesis using assms meet by simp
  qed
  ultimately show thesis by (rule that)
qed

lemma dom_pass_changed: "dom_pass mx pred roots al bs (work, doms, True) = Some (work', doms', changed') \<Longrightarrow> changed'"
proof (induction bs arbitrary: work doms)
  case (Cons x bs)
  show ?case
  proof (cases "x \<in> roots")
    case False
    from Cons.prems show ?thesis by (rule dom_pass_Cons [OF False]) (simp, erule Cons.IH)
  qed (use Cons in simp)
qed simp

lemma dom_pass_fixed:
  "dom_pass mx pred roots al bs (work, doms, changed) = Some (work', doms', False) \<Longrightarrow>
   doms' = doms \<and> (\<forall>b \<in> set bs - roots. \<forall>c \<in> set (preds pred b). doms b \<subseteq> insert b (doms c))"
proof (induction bs arbitrary: work changed)
  case (Cons b bs)
  show ?case
  proof (cases "b \<in> roots")
    case True
    with Cons.prems have "dom_pass mx pred roots al bs (work, doms, changed) = Some (work', doms', False)" by simp
    from Cons.IH [OF this] True show ?thesis by auto
  next
    case False
    from Cons.prems obtain w acc where meet: "dom_meet mx doms (preds pred b) al work = Some (w, acc)"
      and step: "dom_pass mx pred roots al bs (w, doms(b := insert b acc), changed \<or> insert b acc \<noteq> doms b) = Some (work', doms', False)"
      by (rule dom_pass_Cons [OF False])
    have eq: "insert b acc = doms b"
    proof (rule ccontr)
      assume "insert b acc \<noteq> doms b"
      then have "dom_pass mx pred roots al bs (w, doms(b := insert b acc), True) = Some (work', doms', False)" using step by simp
      then show False using dom_pass_changed by blast
    qed
    with step have rec: "dom_pass mx pred roots al bs (w, doms, changed) = Some (work', doms', False)" by (simp add: fun_upd_idem)
    have "doms b \<subseteq> insert b (doms c)" if "c \<in> set (preds pred b)" for c
      using dom_meet_subset [OF meet] eq that by blast
    with Cons.IH [OF rec] show ?thesis by simp blast
  qed
qed simp

lemma dom_pass_roots:
  "dom_pass mx pred roots al bs (work, doms, changed) = Some (work', doms', changed') \<Longrightarrow> b \<in> roots \<Longrightarrow> doms' b = doms b"
proof (induction bs arbitrary: work doms changed)
  case (Cons x bs)
  show ?case
  proof (cases "x \<in> roots")
    case True
    with Cons.prems show ?thesis using Cons.IH [of work doms changed] by simp
  next
    case False
    from Cons.prems(1) obtain w acc ch where
      "dom_pass mx pred roots al bs (w, doms(x := insert x acc), ch) = Some (work', doms', changed')"
      by (rule dom_pass_Cons [OF False]) blast
    from Cons.IH [OF this Cons.prems(2)] False Cons.prems(2) show ?thesis by (auto simp: fun_upd_def split: if_splits)
  qed
qed simp

lemma dom_loop_sound:
  "dom_loop mx pred roots al work doms = Some (work', doms') \<Longrightarrow>
   (\<forall>b \<in> roots. doms' b = doms b) \<and>
   (\<forall>b \<in> set al - roots. \<forall>c \<in> set (preds pred b). doms' b \<subseteq> insert b (doms' c))"
proof (induction mx pred roots al work doms rule: dom_loop.induct)
  case (1 mx pred roots al work doms)
  from "1.prems" obtain w1 d1 ch where pass: "dom_pass mx pred roots (set al) al (work, doms, False) = Some (w1, d1, ch)"
    and rest: "(if ch then dom_loop mx pred roots al w1 d1 else Some (w1, d1)) = Some (work', doms')"
    by (subst (asm) dom_loop.simps) (auto split: option.splits)
  note keep = dom_pass_roots [OF pass]
  show ?case
  proof (cases ch)
    case True
    with rest have "dom_loop mx pred roots al w1 d1 = Some (work', doms')" by simp
    from "1.IH" [OF pass refl refl True this] keep show ?thesis by auto
  next
    case False
    with rest have "d1 = doms'" by simp
    with dom_pass_fixed [of mx pred roots "set al" al work doms False w1 d1] pass False show ?thesis by auto
  qed
qed

section \<open>Edges\<close>

lemma preds_iff [simp]: "c \<in> set (preds pred b) \<longleftrightarrow> (b, c) \<in> set pred"
  by (force simp: preds_def)

text \<open>The targets of a terminator, and the block where a suspension resumes.\<close>

definition targets :: "terminator \<Rightarrow> edge list" where
  "targets t =
     (case tr_kind t of
        TermJump \<Rightarrow> [tr_yes t]
      | TermBranch \<Rightarrow> [tr_yes t, tr_no t]
      | TermSwitch \<Rightarrow> map snd (tr_cases t) @ [tr_no t]
      | _ \<Rightarrow> [])"

lemma check_edges_targets:
  "check_edges p pr t = Inr (ts, roots) \<Longrightarrow>
   (\<forall>e \<in> set (targets t). eg_target e \<in> set ts \<and> edge_ok pr e) \<and>
   (tr_kind t = TermSuspend \<longrightarrow> eg_target (tr_yes t) \<in> set roots)"
  by (force simp: check_edges_def targets_def bad_def split: term_kind.splits if_splits option.splits)

lemma block_edges_sound:
  "block_edges p pr bs = Inr (pred, roots) \<Longrightarrow> b \<in> set bs \<Longrightarrow>
   \<exists>ts rs. check_edges p pr (bk_terminator b) = Inr (ts, rs) \<and> set rs \<subseteq> set roots \<and>
     (\<forall>t \<in> set ts. (t, bk_id b) \<in> set pred)"
proof (induction bs arbitrary: pred roots)
  case (Cons c bs)
  then obtain ts rs pred' roots' where c: "check_edges p pr (bk_terminator c) = Inr (ts, rs)"
    and rest: "block_edges p pr bs = Inr (pred', roots')"
    and eq: "pred = map (\<lambda>t. (t, bk_id c)) ts @ pred'" "roots = rs @ roots'"
    by (auto split: sum.splits)
  show ?case
  proof (cases "b = c")
    case True
    with c eq show ?thesis by auto
  next
    case False
    with Cons.prems(2) have "b \<in> set bs" by simp
    from Cons.IH [OF rest this] eq show ?thesis by auto
  qed
qed simp

section \<open>Instructions\<close>

definition instr_ok :: "project \<Rightarrow> limits \<Rightarrow> instruction \<Rightarrow> bool" where
  "instr_ok p l i \<longleftrightarrow>
     (if in_op i = Op_CallPure then True
      else if is_service (in_op i)
      then (\<exists>s. find_service p (in_immediate i) = Some s \<and> (in_dest i \<noteq> None \<longrightarrow> sv_result_types s \<noteq> []))
      else instr_shape_ok p l i)"

lemma check_instruction_ok:
  "check_instruction p l pr defs doms b k i st = Inr st' \<Longrightarrow>
   (\<forall>r \<in> set (in_args i). reg_usable defs doms (bk_id b) (k + 1) r) \<and> instr_ok p l i"
  by (auto simp: check_instruction_def instr_ok_def check_service_call_def bad_def Let_def
      split: if_splits sum.splits option.splits)

lemma check_instructions_ok:
  "check_instructions p l pr defs doms b k is st = Inr st' \<Longrightarrow> j < length is \<Longrightarrow>
   (\<forall>r \<in> set (in_args (is ! j)). reg_usable defs doms (bk_id b) (k + j + 1) r) \<and> instr_ok p l (is ! j)"
proof (induction "is" arbitrary: k j st)
  case (Cons i "is")
  then obtain st1 where one: "check_instruction p l pr defs doms b k i st = Inr st1"
    and rest: "check_instructions p l pr defs doms b (k + 1) is st1 = Inr st'" by (auto split: sum.splits)
  show ?case
  proof (cases j)
    case 0
    then show ?thesis using check_instruction_ok [OF one] by simp
  next
    case (Suc j')
    with Cons.prems(2) have "j' < length is" by simp
    from Cons.IH [OF rest this] Suc show ?thesis by simp
  qed
qed simp

lemma check_blocks_ok:
  "check_blocks p l pr defs doms bs st = Inr st' \<Longrightarrow> b \<in> set bs \<Longrightarrow>
   (\<exists>s s'. check_instructions p l pr defs doms b 0 (bk_instructions b) s = Inr s') \<and>
   check_terminator p pr defs doms b = Inr ()"
proof (induction bs arbitrary: st)
  case (Cons c bs)
  then obtain st1 where c: "check_instructions p l pr defs doms c 0 (bk_instructions c) st = Inr st1"
      "check_terminator p pr defs doms c = Inr ()"
    and rest: "check_blocks p l pr defs doms bs st1 = Inr st'" by (auto split: sum.splits)
  then show ?case using Cons.IH [OF rest] Cons.prems(2) by auto
qed simp

section \<open>Programs\<close>

text \<open>The blocks where a segment of the program may start.\<close>

definition segment_roots :: "program \<Rightarrow> u32 set" where
  "segment_roots pr = insert (pg_entry pr)
     {eg_target (tr_yes (bk_terminator b)) | b. b \<in> set (pg_blocks pr) \<and> tr_kind (bk_terminator b) = TermSuspend}"

definition typed_program :: "project \<Rightarrow> limits \<Rightarrow> program \<Rightarrow> reg_defs \<Rightarrow> (u32 \<Rightarrow> u32 set) \<Rightarrow> bool" where
  "typed_program p l pr defs doms \<longleftrightarrow>
     distinct (map bk_id (pg_blocks pr)) \<and> distinct (map fst defs) \<and>
     set defs = (\<Union>b \<in> set (pg_blocks pr). set (block_defs b)) \<and> (\<forall>d \<in> set defs. type_ok p (df_type (snd d))) \<and>
     (\<forall>b \<in> segment_roots pr. doms b \<subseteq> {b}) \<and>
     (\<forall>b \<in> set (pg_blocks pr).
        (\<forall>e \<in> set (targets (bk_terminator b)). edge_ok pr e \<and> doms (eg_target e) \<subseteq> insert (eg_target e) (doms (bk_id b))) \<and>
        (\<exists>ts rs. check_edges p pr (bk_terminator b) = Inr (ts, rs)) \<and>
        (\<forall>k < length (bk_instructions b).
           (\<forall>r \<in> set (in_args (bk_instructions b ! k)). reg_usable defs doms (bk_id b) (k + 1) r) \<and>
           instr_ok p l (bk_instructions b ! k)) \<and>
        check_terminator p pr defs doms b = Inr ())"

lemma find_block_Some: "find_block pr i = Some b \<Longrightarrow> b \<in> set (pg_blocks pr) \<and> bk_id b = i"
  unfolding find_block_def by (rule find_SomeD)

lemma edge_target_block: "edge_ok pr e \<Longrightarrow> eg_target e \<in> set (map bk_id (pg_blocks pr))"
  by (auto simp: edge_ok_def split: option.splits dest!: find_block_Some intro: image_eqI [OF sym])

lemma check_flow_sound:
  assumes flow: "check_flow p l pr work = Inr (work', doms)"
  shows "(\<forall>b \<in> segment_roots pr. doms b \<subseteq> {b}) \<and>
    (\<forall>b \<in> set (pg_blocks pr).
       (\<forall>e \<in> set (targets (bk_terminator b)). edge_ok pr e \<and> doms (eg_target e) \<subseteq> insert (eg_target e) (doms (bk_id b))) \<and>
       (\<exists>ts rs. check_edges p pr (bk_terminator b) = Inr (ts, rs)))"
proof -
  define al where "al = sort (map bk_id (pg_blocks pr))"
  from flow obtain pred resumed w1 roots where be: "block_edges p pr (pg_blocks pr) = Inr (pred, resumed)"
    and roots: "roots = insert (pg_entry pr) (set resumed)"
    and dl: "dom_loop (lm_max_work l) pred roots al w1 (\<lambda>b. if b \<in> roots then {b} else set al) = Some (work', doms)"
    unfolding check_flow_def Let_def bad_def al_def [symmetric]
    by (simp split: sum.splits option.splits if_splits prod.splits)
  note dom = dom_loop_sound [OF dl]
  have root: "doms b \<subseteq> {b}" if "b \<in> roots" for b using dom that by auto
  have sub: "segment_roots pr \<subseteq> roots"
  proof
    fix c assume "c \<in> segment_roots pr"
    then consider "c = pg_entry pr" | b where "b \<in> set (pg_blocks pr)" "tr_kind (bk_terminator b) = TermSuspend"
      "c = eg_target (tr_yes (bk_terminator b))" by (auto simp: segment_roots_def)
    then show "c \<in> roots"
    proof cases
      case 2
      from block_edges_sound [OF be 2(1)] check_edges_targets 2 show ?thesis by (fastforce simp: roots)
    qed (simp add: roots)
  qed
  have edges: "edge_ok pr e \<and> doms (eg_target e) \<subseteq> insert (eg_target e) (doms (bk_id b))"
    if b: "b \<in> set (pg_blocks pr)" and e: "e \<in> set (targets (bk_terminator b))" for b e
  proof -
    from block_edges_sound [OF be b] obtain ts rs where ts: "check_edges p pr (bk_terminator b) = Inr (ts, rs)"
      and pred: "\<forall>t \<in> set ts. (t, bk_id b) \<in> set pred" by blast
    from check_edges_targets [OF ts] e have ok: "edge_ok pr e" and t: "eg_target e \<in> set ts" by auto
    then have "bk_id b \<in> set (preds pred (eg_target e))" using pred by simp
    moreover have "eg_target e \<in> set al" using edge_target_block [OF ok] by (simp add: al_def)
    ultimately show ?thesis using dom root ok by (cases "eg_target e \<in> roots") blast+
  qed
  show ?thesis using root sub edges block_edges_sound [OF be] by (intro conjI ballI) (blast | meson)+
qed

lemma validate_program_typed:
  assumes ok: "validate_program p l sizes seen pr st = Inr st'"
  shows "\<exists>defs doms. typed_program p l pr defs doms"
proof -
  from ok obtain w defs w' doms s where header: "check_header p l seen pr = Inr ()"
    and defs: "def_blocks p l (pg_blocks pr) (ps_work st, []) = Inr (w, defs)"
    and flow: "check_flow p l pr w = Inr (w', doms)"
    and blocks: "check_blocks p l pr defs doms (pg_blocks pr) s = Inr st'"
    by (auto simp: validate_program_def bad_def split: sum.splits if_splits)
  have "distinct (map bk_id (pg_blocks pr))"
    using header by (auto simp: check_header_def bad_def split: if_splits)
  moreover have "defs_grow p (concat (map block_defs (pg_blocks pr))) [] defs"
    by (rule def_blocks_grow [OF defs])
  moreover have "(\<forall>k < length (bk_instructions b).
        (\<forall>r \<in> set (in_args (bk_instructions b ! k)). reg_usable defs doms (bk_id b) (k + 1) r) \<and>
        instr_ok p l (bk_instructions b ! k)) \<and> check_terminator p pr defs doms b = Inr ()"
    if "b \<in> set (pg_blocks pr)" for b
    using check_blocks_ok [OF blocks that] check_instructions_ok [of p l pr defs doms b 0 "bk_instructions b"] by auto
  ultimately have "typed_program p l pr defs doms"
    using check_flow_sound [OF flow] unfolding typed_program_def defs_grow_def by auto
  then show ?thesis by blast
qed

lemma validate_programs_typed:
  "validate_programs p l sizes seen prs st = Inr st' \<Longrightarrow> pr \<in> set prs \<Longrightarrow> \<exists>defs doms. typed_program p l pr defs doms"
proof (induction prs arbitrary: seen st)
  case (Cons x prs)
  then obtain st1 where one: "validate_program p l sizes seen x st = Inr st1"
    and rest: "validate_programs p l sizes (pg_id x # seen) prs st1 = Inr st'" by (auto split: sum.splits)
  then show ?case using Cons.IH [OF rest] Cons.prems(2) validate_program_typed [OF one] by auto
qed simp

definition effective_limits :: "limits \<Rightarrow> limits" where
  "effective_limits l = l\<lparr>lm_max_depth := min (lm_max_depth l) 64\<rparr>"

lemma validate_typed:
  assumes ok: "validate p l = Inr q" and pr: "pr \<in> set (pj_programs p)"
  shows "\<exists>defs doms. typed_program p (effective_limits l) pr defs doms"
proof -
  from ok obtain sizes st st' where "validate_programs p (effective_limits l) sizes [] (pj_programs p) st = Inr st'"
    by (auto simp: validate_def effective_limits_def bad_def Let_def split: sum.splits option.splits if_splits)
  from validate_programs_typed [OF this pr] show ?thesis .
qed

end
