(* ===== verification/Interpreter_Safety.thy ===== *)
theory Interpreter_Safety
  imports Interpreter Exec_Flow
begin

text \<open>
  A segment of a validated program never raises an exception and never does anything undefined:
  the definition of a register dominates its uses, so every register that an instruction reads
  holds a value of its declared type, and the shape check of the instruction does the rest.
\<close>

lemma unat_ucast_up: "unat (ucast (w :: u32) :: u64) = unat w"
proof -
  have "unat w < 2 ^ 64" using unsigned_less [of w, where ?'a = nat] by simp
  then show ?thesis by (simp add: unsigned_ucast_eq take_bit_nat_eq_self)
qed

section \<open>Safe steps\<close>

definition step_safe :: "'a vm_step \<Rightarrow> bool" where
  "step_safe m \<longleftrightarrow> (\<exists>x. m = Fine x) \<or> (\<exists>e. m = Abort e)"

lemma step_safe_simps [simp]:
  "step_safe (Fine x)" "step_safe (Abort e)" "\<not> step_safe (Threw y)" "\<not> step_safe Undef"
  "step_safe (stop c m)" "step_safe (of_expected r)"
  by (auto simp: step_safe_def stop_def of_expected_def split: sum.splits)

lemma and_then_simps [simp]:
  "and_then (Fine x) f = f x" "and_then (Abort e) f = Abort e" "and_then (Threw y) f = Threw y"
  "and_then Undef f = Undef" "and_then (stop c m) f = stop c m"
  by (simp_all add: and_then_def stop_def)

lemma and_then_Fine: "and_then m f = Fine y \<longleftrightarrow> (\<exists>x. m = Fine x \<and> f x = Fine y)"
  by (cases m) auto

lemma step_safe_and_then:
  "step_safe m \<Longrightarrow> (\<And>x. m = Fine x \<Longrightarrow> step_safe (f x)) \<Longrightarrow> step_safe (and_then m f)"
  by (cases m) auto

lemma stop_not_Fine [simp]: "stop c m \<noteq> Fine x" "Fine x \<noteq> stop c m"
  by (simp_all add: stop_def)

section \<open>Values of a type\<close>

lemma conforms_type_ok: "conforms d p t v \<Longrightarrow> type_ok p t"
  by (cases d) auto

lemma conforms_Bool: "conforms d p t v \<Longrightarrow> ty_kind (type_at p t) = TK_Bool \<Longrightarrow> \<exists>b. v = VBool b"
  by (cases d; cases v) (auto simp: Let_def)

lemma conforms_Bits:
  "conforms d p t v \<Longrightarrow> ty_kind (type_at p t) = TK_Bits \<Longrightarrow> (\<exists>n. v = VU64 n) \<and> ty_bound (type_at p t) \<le> 64"
  by (cases d; cases v) (auto simp: Let_def)

lemma conforms_Fin: "conforms d p t v \<Longrightarrow> ty_kind (type_at p t) = TK_Fin \<Longrightarrow> \<exists>n. v = VU64 n"
  by (cases d; cases v) (auto simp: Let_def)

lemma conforms_Handle:
  "conforms d p t v \<Longrightarrow> ty_kind (type_at p t) = TK_Handle \<Longrightarrow>
   \<exists>h. v = VHandle h \<and> handle_code (h_kind h) = ty_bound (type_at p t)"
  by (cases d; cases v) (auto simp: Let_def)

lemma conforms_Record:
  "conforms d p t v \<Longrightarrow> ty_kind (type_at p t) = TK_Record \<Longrightarrow>
   \<exists>vs. v = VArray vs \<and> length vs = length (ty_fields (type_at p t))"
  by (cases d; cases v) (auto simp: Let_def dest: list_all2_lengthD)

lemma conforms_Vec:
  "conforms d p t v \<Longrightarrow> ty_kind (type_at p t) = TK_Vec \<or> ty_kind (type_at p t) = TK_BoundedVec \<Longrightarrow> \<exists>vs. v = VArray vs"
  by (cases d; cases v) (auto simp: Let_def)

lemma conforms_Variant:
  assumes c: "conforms d p t v" and k: "ty_kind (type_at p t) = TK_Variant"
  obtains tag fs where "v = VArray [VU64 tag, VArray fs]" "unat tag < length (ty_constructors (type_at p t))"
    "length fs = length (ty_constructors (type_at p t) ! unat tag)"
proof -
  from c obtain d' where d: "d = Suc d'" by (cases d) auto
  from c k obtain vs where v: "v = VArray vs" by (cases v) (auto simp: d Let_def)
  from c k obtain x xs where x: "vs = x # xs" by (cases vs) (auto simp: d v Let_def)
  from c k obtain tag where tag: "x = VU64 tag" by (cases x) (auto simp: d v x Let_def)
  from c k obtain y ys where y: "xs = y # ys" by (cases xs) (auto simp: d v x tag Let_def)
  from c k obtain fs where fs: "y = VArray fs" by (cases y) (auto simp: d v x tag y Let_def)
  from c k have "ys = []" by (cases ys) (auto simp: d v x tag y fs Let_def)
  then have vs: "vs = [VU64 tag, VArray fs]" by (simp add: x tag y fs)
  show thesis
  proof (rule that)
    show "v = VArray [VU64 tag, VArray fs]" by (simp add: v vs)
    show "unat tag < length (ty_constructors (type_at p t))" using c k by (simp add: d v vs Let_def)
    show "length fs = length (ty_constructors (type_at p t) ! unat tag)"
      using c k by (auto simp: d v vs Let_def dest: list_all2_lengthD)
  qed
qed

section \<open>Registers\<close>

definition has_value :: "project \<Rightarrow> regs \<Rightarrow> reg \<Rightarrow> bool" where
  "has_value p regs r \<longleftrightarrow> (\<exists>v. regs (rg_id r) = Some v \<and> conforms 64 p (rg_type r) v)"

lemma has_valueE:
  assumes "has_value p regs r"
  obtains v where "read_reg regs r = Fine v" "conforms 64 p (rg_type r) v"
  using assms by (auto simp: has_value_def read_reg_def)

lemma read_all_ok:
  "\<forall>r \<in> set rs. has_value p regs r \<Longrightarrow>
   \<exists>vs. read_all regs rs = Fine vs \<and> list_all2 (\<lambda>r v. conforms 64 p (rg_type r) v) rs vs"
proof (induction rs)
  case (Cons r rs)
  then obtain v vs where "read_reg regs r = Fine v" "conforms 64 p (rg_type r) v" "read_all regs rs = Fine vs"
    "list_all2 (\<lambda>r v. conforms 64 p (rg_type r) v) rs vs" by (auto elim: has_valueE)
  then show ?case by simp
qed simp

text \<open>The operands of an instruction, when its registers hold values.\<close>

lemma arg_value:
  assumes "\<forall>r \<in> set (in_args i). has_value p regs r" "n < length (in_args i)"
  obtains v where "arg regs i n = Fine v" "conforms 64 p (rg_type (in_args i ! n)) v"
proof -
  have "has_value p regs (in_args i ! n)" using assms by simp
  then show thesis by (rule has_valueE) (rule that, simp_all add: arg_def assms)
qed

lemma arg_type_value:
  assumes "\<forall>r \<in> set (in_args i). has_value p regs r" "0 < length (in_args i)"
  shows "arg_type p i = Fine (type_at p (rg_type (in_args i ! 0)))"
proof -
  obtain v where "conforms 64 p (rg_type (in_args i ! 0)) v" using arg_value [OF assms] .
  then have "type_ok p (rg_type (in_args i ! 0))" by (rule conforms_type_ok)
  then show ?thesis using assms(2) by (simp add: arg_type_def index_of_def)
qed

section \<open>Computing instructions\<close>

lemma numeric_safe:
  assumes shape: "instr_shape_ok p l i" and opc: "in_op i \<in> {Op_Unary, Op_Compare, Op_Convert}"
    and args: "\<forall>r \<in> set (in_args i). has_value p regs r"
    and dst: "\<forall>d. in_dest i = Some d \<longrightarrow> type_ok p (rg_type d)"
  shows "step_safe (numeric_op p regs i)"
proof -
  have n: "0 < length (in_args i)" "in_op i = Op_Compare \<longrightarrow> 1 < length (in_args i)" "in_dest i \<noteq> None"
    using shape opc by (auto simp: instr_shape_ok_def Let_def)
  obtain a where a: "arg regs i 0 = Fine a" using arg_value [OF args n(1)] .
  have b: "step_safe (arg regs i 1)" if "in_op i = Op_Compare"
    using arg_value [OF args, of 1] n(2) that by force
  obtain d where d: "in_dest i = Some d" using n(3) by auto
  then have "index_of (pj_types p) (unat (rg_type d)) = Fine (type_at p (rg_type d))"
    using dst by (simp add: index_of_def)
  then show ?thesis
    using opc by (auto simp: numeric_op_def arg_type_value [OF args n(1)] a d Let_def intro!: step_safe_and_then b simp del: One_nat_def)
qed

lemma binary_safe:
  assumes shape: "instr_shape_ok p l i" and opc: "in_op i = Op_Binary"
    and args: "\<forall>r \<in> set (in_args i). has_value p regs r"
    and a: "conforms 64 p (rg_type (in_args i ! 0)) a" and b: "conforms 64 p (rg_type (in_args i ! 1)) b"
  shows "step_safe (binary_value p i a b)"
proof -
  let ?k = "kind_of p (in_args i ! 0)"
  have n: "0 < length (in_args i)" and same: "rg_type (in_args i ! 0) = rg_type (in_args i ! 1)"
    and ok: "binary_ok p i (in_args i ! 0)" using shape opc by (auto simp: instr_shape_ok_def Let_def)
  have bool: "\<exists>x y. a = VBool x \<and> b = VBool y" if "?k = TK_Bool"
    using conforms_Bool [OF a] conforms_Bool [OF b] that same by auto
  have num: "\<exists>x y. a = VU64 x \<and> b = VU64 y" if "?k = TK_Bits \<or> ?k = TK_Fin"
    using conforms_Bits [OF a] conforms_Bits [OF b] conforms_Fin [OF a] conforms_Fin [OF b] that same by auto
  have w: "\<not> 64 < bound_of p (in_args i ! 0)" if "?k = TK_Bits"
    using conforms_Bits [OF a] that by auto
  have ar: "step_safe (arith c m x y)" for c m x y
    by (auto simp: arith_def split: binary_op.splits)
  show ?thesis
    using ok bool num w
    by (cases "in_binary i") (auto simp: binary_ok_def binary_value_def arg_type_value [OF args n] Let_def ar)
qed

lemma variant_safe:
  assumes shape: "instr_shape_ok p l i" and opc: "in_op i = Op_VariantGet"
    and a: "conforms 64 p (rg_type (in_args i ! 0)) a"
  shows "step_safe (variant_get i a)"
proof -
  let ?s = "type_at p (rg_type (in_args i ! 0))"
  have k: "ty_kind ?s = TK_Variant"
    and field: "unat (in_immediate i AND 65535) < length (ty_constructors ?s ! unat (drop_bit 16 (in_immediate i)))"
    using shape opc by (auto simp: instr_shape_ok_def Let_def)
  from a k obtain tag fs where v: "a = VArray [VU64 tag, VArray fs]"
    and len: "length fs = length (ty_constructors ?s ! unat tag)" by (rule conforms_Variant)
  have "unat (ucast (drop_bit 16 (in_immediate i)) :: u64) = unat (drop_bit 16 (in_immediate i))"
    by (rule unat_ucast_up)
  then show ?thesis using field len by (auto simp: variant_get_def v index_of_def at_def)
qed

lemma vec_safe:
  assumes shape: "instr_shape_ok p l i" and opc: "in_op i = Op_VecGet \<or> in_op i = Op_VecSet"
    and args: "\<forall>r \<in> set (in_args i). has_value p regs r"
  shows "step_safe (vec_op regs i)"
proof -
  have n: "0 < length (in_args i)" "1 < length (in_args i)" "in_op i = Op_VecSet \<longrightarrow> 2 < length (in_args i)"
    and k: "kind_of p (in_args i ! 0) = TK_Vec \<or> kind_of p (in_args i ! 0) = TK_BoundedVec"
    and idx: "kind_of p (in_args i ! 1) = TK_Bits \<or> kind_of p (in_args i ! 1) = TK_Fin"
    using shape opc by (auto simp: instr_shape_ok_def Let_def vec_index_ok_def)
  obtain v where v: "arg regs i 0 = Fine v" "conforms 64 p (rg_type (in_args i ! 0)) v" using arg_value [OF args n(1)] .
  obtain x where x: "arg regs i 1 = Fine x" "conforms 64 p (rg_type (in_args i ! 1)) x" using arg_value [OF args n(2)] .
  from conforms_Vec [OF v(2) k] obtain vs where vs: "v = VArray vs" ..
  from conforms_Bits [OF x(2)] conforms_Fin [OF x(2)] idx obtain m where m: "x = VU64 m" by auto
  have y: "step_safe (arg regs i 2)" if "in_op i = Op_VecSet"
    using arg_value [OF args, of 2] n(3) that by force
  show ?thesis using opc by (auto simp: vec_op_def v(1) x(1) vs m intro!: step_safe_and_then y simp del: One_nat_def)
qed


lemma select_safe:
  assumes shape: "instr_shape_ok p l i" and opc: "in_op i = Op_SelectValue"
    and args: "\<forall>r \<in> set (in_args i). has_value p regs r"
  shows "step_safe (and_then (arg regs i 0) (\<lambda>c. and_then (std_get_bool c) (\<lambda>b. arg regs i (if b then 1 else 2))))"
proof -
  have n: "length (in_args i) = 3" and k: "kind_of p (in_args i ! 0) = TK_Bool"
    using shape opc by (auto simp: instr_shape_ok_def Let_def)
  obtain v where v: "arg regs i 0 = Fine v" "conforms 64 p (rg_type (in_args i ! 0)) v"
    using arg_value [OF args, of 0] n by auto
  from conforms_Bool [OF v(2) k] obtain b where "v = VBool b" ..
  moreover have "step_safe (arg regs i m)" if "m < 3" for m
    using arg_value [OF args, of m] that n by force
  ultimately show ?thesis by (simp add: v(1) del: One_nat_def)
qed

lemma field_safe:
  assumes shape: "instr_shape_ok p l i" and args: "\<forall>r \<in> set (in_args i). has_value p regs r"
  shows "in_op i = Op_GetField \<Longrightarrow>
      step_safe (and_then (arg regs i 0) (\<lambda>v. and_then (std_get_array v) (\<lambda>a. at a (unat (in_immediate i)))))"
    and "in_op i = Op_VariantTag \<Longrightarrow>
      step_safe (and_then (arg regs i 0) (\<lambda>v. and_then (std_get_array v) (\<lambda>a. index_of a 0)))"
    and "in_op i = Op_VariantGet \<Longrightarrow> step_safe (and_then (arg regs i 0) (variant_get i))"
proof -
  have val: "\<exists>v. arg regs i 0 = Fine v \<and> conforms 64 p (rg_type (in_args i ! 0)) v" if "length (in_args i) = 1"
    using arg_value [OF args, of 0] that by auto
  show "step_safe (and_then (arg regs i 0) (\<lambda>v. and_then (std_get_array v) (\<lambda>a. at a (unat (in_immediate i)))))"
    if opc: "in_op i = Op_GetField"
  proof -
    have n: "length (in_args i) = 1" and k: "kind_of p (in_args i ! 0) = TK_Record"
      and m: "unat (in_immediate i) < length (ty_fields (type_at p (rg_type (in_args i ! 0))))"
      using shape opc by (auto simp: instr_shape_ok_def Let_def)
    from val [OF n] obtain v where v: "arg regs i 0 = Fine v" "conforms 64 p (rg_type (in_args i ! 0)) v" by blast
    from conforms_Record [OF v(2) k] show ?thesis using m by (auto simp: v(1) at_def)
  qed
  show "step_safe (and_then (arg regs i 0) (\<lambda>v. and_then (std_get_array v) (\<lambda>a. index_of a 0)))"
    if opc: "in_op i = Op_VariantTag"
  proof -
    have n: "length (in_args i) = 1" and k: "kind_of p (in_args i ! 0) = TK_Variant"
      using shape opc by (auto simp: instr_shape_ok_def Let_def)
    from val [OF n] obtain v where v: "arg regs i 0 = Fine v" "conforms 64 p (rg_type (in_args i ! 0)) v" by blast
    from v(2) k obtain tag fs where "v = VArray [VU64 tag, VArray fs]" by (rule conforms_Variant)
    then show ?thesis by (simp add: v(1) index_of_def)
  qed
  show "step_safe (and_then (arg regs i 0) (variant_get i))" if opc: "in_op i = Op_VariantGet"
  proof -
    have n: "length (in_args i) = 1" using shape opc by (auto simp: instr_shape_ok_def Let_def)
    from val [OF n] show ?thesis using variant_safe [OF shape opc] by auto
  qed
qed

lemma compute_safe:
  assumes shape: "instr_shape_ok p l i" and comp: "computing (in_op i)"
    and args: "\<forall>r \<in> set (in_args i). has_value p regs r"
    and dst: "\<forall>d. in_dest i = Some d \<longrightarrow> type_ok p (rg_type d)"
  shows "step_safe (compute p ctx regs i)"
proof -
  have arg_safe: "step_safe (arg regs i n)" if "n < length (in_args i)" for n
    using arg_value [OF args that] by force
  have all_safe: "step_safe (and_then (read_all regs (in_args i)) (\<lambda>a. Fine (f a)))" for f :: "value_t list \<Rightarrow> value_t"
    using read_all_ok [OF args] by auto
  have move: "step_safe (arg regs i 0)" if "in_op i = Op_Move"
    using shape that by (intro arg_safe) (simp add: instr_shape_ok_def Let_def)
  have bin: "step_safe (and_then (arg regs i 0) (\<lambda>a. and_then (arg regs i 1) (binary_value p i a)))"
    if opc: "in_op i = Op_Binary"
  proof -
    have n: "0 < length (in_args i)" "1 < length (in_args i)" using shape opc by (auto simp: instr_shape_ok_def Let_def)
    obtain a where a: "arg regs i 0 = Fine a" "conforms 64 p (rg_type (in_args i ! 0)) a" using arg_value [OF args n(1)] .
    obtain b where b: "arg regs i 1 = Fine b" "conforms 64 p (rg_type (in_args i ! 1)) b" using arg_value [OF args n(2)] .
    show ?thesis using binary_safe [OF shape opc args a(2) b(2)] by (simp add: a(1) b(1) del: One_nat_def)
  qed
  have rest: "in_op i = Op_VecGet \<or> in_op i = Op_VecSet"
    if "in_op i \<notin> {Op_Unary, Op_Compare, Op_Convert, Op_GetNow, Op_Const, Op_Move, Op_Binary, Op_SelectValue,
        Op_MakeRecord, Op_MakeVec, Op_MakeVariant, Op_GetField, Op_VariantTag, Op_VariantGet}"
    using shape comp that by (auto simp: instr_shape_ok_def Let_def computing_def split: if_splits)
  show ?thesis
    unfolding compute_def Let_def
    using numeric_safe [OF shape _ args dst] move bin select_safe [OF shape _ args] all_safe field_safe [OF shape args]
      vec_safe [OF shape _ args] rest
    by (simp del: One_nat_def)
qed

section \<open>Instructions\<close>

definition state_ok :: "'x interpreter \<Rightarrow> bool" where
  "state_ok ip \<longleftrightarrow> length (ip_state ip) = length (pj_state_types (ip_project ip)) \<and> None \<notin> set (ip_state ip)"

lemma state_cell_safe:
  assumes "state_ok ip" "unat (in_immediate i) < length (pj_state_types (ip_project ip))"
  obtains c where "state_cell ip i = Fine c"
proof -
  have "ip_state ip ! unat (in_immediate i) \<noteq> None" using assms by (auto simp: state_ok_def in_set_conv_nth)
  then obtain c where "ip_state ip ! unat (in_immediate i) = Some c" by auto
  then show thesis using assms by (intro that) (simp add: state_cell_def state_ok_def index_of_def)
qed

lemma trace_values_safe: "\<forall>r \<in> set rs. has_value p regs r \<Longrightarrow> step_safe (trace_values pf regs rs n)"
proof (induction rs arbitrary: n)
  case (Cons r rs)
  then obtain v where "read_reg regs r = Fine v" by (auto elim: has_valueE)
  then show ?case using Cons by (auto intro!: step_safe_and_then split: prod.splits)
qed simp

lemma exec_trace_safe:
  "\<forall>r \<in> set (in_args i). has_value p (vm_regs vm) r \<Longrightarrow> step_safe (fst (exec_trace ip ctx i vm))"
  using trace_values_safe [of "in_args i" p "vm_regs vm" "ip_platform ip" "vm_trace_bytes vm + length (in_text i)"]
  by (auto simp: exec_trace_def split: vm_step.splits)

lemma exec_state_safe:
  assumes st: "state_ok ip" and shape: "instr_shape_ok (ip_project ip) l i"
    and opc: "in_op i = Op_LoadState \<or> in_op i = Op_BufferStateWrite"
    and args: "\<forall>r \<in> set (in_args i). has_value (ip_project ip) (vm_regs vm) r"
  shows "step_safe (fst (exec_state ip i vm))"
proof -
  have n: "unat (in_immediate i) < length (pj_state_types (ip_project ip))"
    and one: "in_op i = Op_BufferStateWrite \<longrightarrow> 0 < length (in_args i)"
    using shape opc by (auto simp: instr_shape_ok_def Let_def)
  obtain c where c: "state_cell ip i = Fine c" using state_cell_safe [OF st n] .
  show ?thesis
  proof (cases "in_op i = Op_LoadState")
    case False
    then obtain v where "arg (vm_regs vm) i 0 = Fine v" using arg_value [OF args] one opc by blast
    then show ?thesis using False
      by (auto simp: exec_state_def c intro!: step_safe_and_then split: prod.splits)
  qed (simp add: exec_state_def c)
qed

lemma exec_service_safe:
  assumes ok: "in_dest i \<noteq> None \<longrightarrow> sv_result_types (the (find_service (ip_project ip) (in_immediate i))) \<noteq> []"
    and args: "\<forall>r \<in> set (in_args i). has_value (ip_project ip) (vm_regs vm) r"
  shows "step_safe (fst (exec_service ip av i vm))"
proof -
  from read_all_ok [OF args] obtain vs where "read_all (vm_regs vm) (in_args i) = Fine vs" by blast
  then show ?thesis using ok
    by (auto simp: exec_service_def index_of_def Let_def split: option.splits sum.splits prod.splits if_splits)
qed

lemma exec_check_safe:
  assumes shape: "instr_shape_ok p l i" and opc: "in_op i = Op_Check"
    and args: "\<forall>r \<in> set (in_args i). has_value p regs r"
  shows "step_safe (and_then (arg regs i 0) (\<lambda>v. and_then (std_get_bool v) (\<lambda>b.
      if b then Fine VUnit else stop InvalidState (in_text i))))"
proof -
  have n: "0 < length (in_args i)" and k: "kind_of p (in_args i ! 0) = TK_Bool"
    using shape opc by (auto simp: instr_shape_ok_def Let_def)
  obtain v where v: "arg regs i 0 = Fine v" "conforms 64 p (rg_type (in_args i ! 0)) v" using arg_value [OF args n] .
  from conforms_Bool [OF v(2) k] obtain b where "v = VBool b" ..
  then show ?thesis by (simp add: v(1))
qed

lemma shape_opcode:
  "instr_shape_ok p l i \<Longrightarrow> computing (in_op i) \<or> in_op i \<in> {Op_LoadState, Op_BufferStateWrite, Op_Check, Op_Trace}"
  by (auto simp: instr_shape_ok_def Let_def computing_def split: if_splits)

lemma service_opcode:
  assumes "is_service opc"
  shows "\<not> computing opc \<and> opc \<notin> {Op_LoadState, Op_BufferStateWrite, Op_Check, Op_Trace}"
proof -
  have ge: "16 \<le> opc" and "opc \<notin> {Op_Unary, Op_Compare, Op_Convert, Op_GetNow}"
    using assms by (auto simp: is_service_def)
  moreover have "\<not> opc \<le> 11"
  proof
    assume "opc \<le> 11"
    with ge have "(16 :: opcode) \<le> 11" by (rule order_trans)
    then show False by simp
  qed
  moreover have "opc \<notin> {Op_LoadState, Op_BufferStateWrite, Op_Check, Op_Trace}" using ge by auto
  ultimately show ?thesis by (simp add: computing_def)
qed

lemma exec_instruction_safe:
  assumes st: "state_ok ip" and ok: "instr_ok (ip_project ip) l i" and call: "in_op i \<noteq> Op_CallPure"
    and args: "\<forall>r \<in> set (in_args i). has_value (ip_project ip) (vm_regs vm) r"
    and dst: "\<forall>d. in_dest i = Some d \<longrightarrow> type_ok (ip_project ip) (rg_type d)"
  shows "step_safe (fst (exec_instruction ip av i vm))"
proof (cases "is_service (in_op i)")
  case True
  have "in_dest i \<noteq> None \<longrightarrow> sv_result_types (the (find_service (ip_project ip) (in_immediate i))) \<noteq> []"
    using ok True call by (auto simp: instr_ok_def)
  then show ?thesis using exec_service_safe [OF _ args] service_opcode [OF True] by (simp add: exec_instruction_def)
next
  case False
  then have shape: "instr_shape_ok (ip_project ip) l i" using ok call by (simp add: instr_ok_def)
  consider (comp) "computing (in_op i)"
    | (state) "\<not> computing (in_op i)" "in_op i = Op_LoadState \<or> in_op i = Op_BufferStateWrite"
    | (check) "\<not> computing (in_op i)" "in_op i = Op_Check"
    | (trace) "\<not> computing (in_op i)" "in_op i = Op_Trace"
    using shape_opcode [OF shape] by blast
  then show ?thesis
  proof cases
    case comp
    then show ?thesis using compute_safe [OF shape comp args dst] by (simp add: exec_instruction_def)
  next
    case state
    then show ?thesis using exec_state_safe [OF st shape state(2) args] by (simp add: exec_instruction_def)
  next
    case check
    then show ?thesis using exec_check_safe [OF shape check(2) args] by (simp add: exec_instruction_def)
  next
    case trace
    then show ?thesis using exec_trace_safe [OF args] by (simp add: exec_instruction_def)
  qed
qed

lemma exec_instruction_regs [simp]: "vm_regs (snd (exec_instruction ip av i vm)) = vm_regs vm"
  by (auto simp: exec_instruction_def exec_state_def exec_trace_def exec_service_def Let_def
      split: vm_step.splits prod.splits option.splits sum.splits)

end
