(* ===== verification/Exec_Sample.thy ===== *)
theory Exec_Sample
  imports Interpreter
begin

text \<open>
  A small project that validates, with a suspending process program and a timed program that
  calls a pure one, and an interpreter for it. The properties are applied to it.
\<close>

definition sample_reg :: "u32 \<Rightarrow> u32 \<Rightarrow> reg" where
  "sample_reg i t = \<lparr>rg_id = i, rg_type = t\<rparr>"

definition sample_op :: "opcode \<Rightarrow> reg list \<Rightarrow> reg option \<Rightarrow> u32 \<Rightarrow> instruction" where
  "sample_op opc args dest imm = \<lparr>in_op = opc, in_args = args, in_dest = dest, in_value = VUnit, in_immediate = imm,
     in_binary = AddWrap, in_text = [], in_source = ''model.lean:1''\<rparr>"

definition sample_edge :: "u32 \<Rightarrow> edge" where
  "sample_edge t = \<lparr>eg_target = t, eg_args = []\<rparr>"

definition sample_term :: "term_kind \<Rightarrow> reg \<Rightarrow> u32 \<Rightarrow> reg list \<Rightarrow> terminator" where
  "sample_term k v t vs = \<lparr>tr_kind = k, tr_value = v, tr_yes = sample_edge t, tr_no = sample_edge 0, tr_cases = [],
     tr_values = vs, tr_error = []\<rparr>"

definition sample_program :: "u32 \<Rightarrow> context_kind \<Rightarrow> u64 \<Rightarrow> u32 list \<Rightarrow> frame_slot list \<Rightarrow> block list \<Rightarrow> program" where
  "sample_program i c eff inputs frame blocks = \<lparr>pg_id = i, pg_input_types = inputs, pg_result_types = [0], pg_blocks = blocks,
     pg_entry = 0, pg_source = [], pg_context = c, pg_frame = frame, pg_frame_bytes = 64, pg_effect_mask = eff,
     pg_instruction_fuel = 0, pg_owner_policy = [], pg_result_lifetime_policy = []\<rparr>"

text \<open>Type 0 is an 8-bit number, type 1 the handle of a wait.\<close>

definition sample_type :: "type_kind \<Rightarrow> u64 \<Rightarrow> ir_type" where
  "sample_type k n = \<lparr>ty_kind = k, ty_bound = n, ty_fields = [], ty_constructors = []\<rparr>"

text \<open>Add the input to itself, wait, and return the sum.\<close>

definition sample_process :: program where
  "sample_process = sample_program 0 CK_Process 16 [1, 0] [\<lparr>fs_type = 0, fs_offset = 0, fs_align = 8, fs_register = 2\<rparr>]
     [\<lparr>bk_id = 0, bk_parameters = [sample_reg 0 1, sample_reg 1 0],
       bk_instructions = [sample_op Op_Binary [sample_reg 1 0, sample_reg 1 0] (Some (sample_reg 2 0)) 0],
       bk_terminator = sample_term TermSuspend (sample_reg 0 1) 1 [sample_reg 2 0]\<rparr>,
      \<lparr>bk_id = 1, bk_parameters = [sample_reg 3 0, sample_reg 4 0], bk_instructions = [],
       bk_terminator = sample_term TermReturn (sample_reg 0 0) 0 [sample_reg 4 0]\<rparr>]"

text \<open>Double the input in a pure callee.\<close>

definition sample_caller :: program where
  "sample_caller = sample_program 1 CK_Timed 0 [0] []
     [\<lparr>bk_id = 0, bk_parameters = [sample_reg 0 0],
       bk_instructions = [sample_op Op_CallPure [sample_reg 0 0] (Some (sample_reg 1 0)) 2],
       bk_terminator = sample_term TermReturn (sample_reg 0 0) 0 [sample_reg 1 0]\<rparr>]"

definition sample_pure :: program where
  "sample_pure = sample_program 2 CK_Timed 0 [0] []
     [\<lparr>bk_id = 0, bk_parameters = [sample_reg 0 0],
       bk_instructions = [sample_op Op_Binary [sample_reg 0 0, sample_reg 0 0] (Some (sample_reg 1 0)) 0],
       bk_terminator = sample_term TermReturn (sample_reg 0 0) 0 [sample_reg 1 0]\<rparr>]"

definition sample_project :: project where
  "sample_project = \<lparr>pj_types = [sample_type TK_Bits 8, sample_type TK_Handle 4], pj_state_types = [], pj_initial_state = [],
     pj_programs = [sample_process, sample_caller, sample_pure], pj_profile = ''AT-Core-1.1-draft'', pj_schema_major = 2,
     pj_services = [], pj_components = [], pj_instances = [], pj_system_metadata = None, pj_external_contracts = [],
     pj_capabilities = []\<rparr>"

definition sample_limits :: limits where
  "sample_limits = \<lparr>lm_max_rows = 16, lm_max_depth = 4, lm_max_work = 200, lm_max_value_elements = 64, lm_max_registers = 16\<rparr>"

definition sample_backend :: "unit backend" where
  "sample_backend = \<lparr>be_check_signature = (\<lambda>_. Inr ()), be_invoke = (\<lambda>_ _ _ t w. (Inr [], t, w)),
     be_prepare_suspend = (\<lambda>_ _ _ _ _ t w. (Inr (), t, w)),
     be_prepare_resume = (\<lambda>_ _ t w. (fail Unsupported ''resume adapter unavailable'', t, w))\<rparr>"

definition sample_sizes :: platform where
  "sample_sizes = \<lparr>sizeof_Value = 40, sizeof_ptr = 8, sizeof_extension = 56, sizeof_PayloadSnapshot = 144,
     sizeof_ResponseSnapshot = 88, sizeof_SendIntent = 240, bytes_capacity = length, array_capacity = length,
     string_capacity = length\<rparr>"

definition sample_participants :: "unit participant_ops" where
  "sample_participants = \<lparr>po_reserved_bytes = (\<lambda>_ _. 0), po_identity = (\<lambda>_ _. None), po_validate = (\<lambda>_ _. Inr ()),
     po_validate_prepare = (\<lambda>_ _. Inr ()), po_apply = (\<lambda>_ w. w), po_discard = (\<lambda>_ w. w)\<rparr>"

definition sample_interpreter :: "unit interpreter" where
  "sample_interpreter = \<lparr>ip_project = sample_project, ip_state = [], ip_backend = Some sample_backend,
     ip_platform = sample_sizes, ip_ops = sample_participants, ip_what = (\<lambda>_. [])\<rparr>"

definition sample_context :: "context_kind \<Rightarrow> execution_context" where
  "sample_context k = \<lparr>ec_kind = k, ec_domain = 0, ec_instance = 0, ec_connection = 0, ec_ready = ReadyKey 0 0, ec_owner = 0,
     ec_epoch = 0\<rparr>"

definition sample_cell :: versioned_cell where
  "sample_cell = \<lparr>vc_value = VUnit, vc_version = 0, vc_epoch = 0, vc_stable_bytes = False, vc_epoch_independent = True\<rparr>"

definition sample_vm :: "context_kind \<Rightarrow> unit vm" where
  "sample_vm k = \<lparr>vm_regs = (\<lambda>_. None), vm_traces = [], vm_trace_bytes = 0, vm_fuel = 9,
     vm_txn = EventTxn_new 0 \<lparr>sb_writes = 1, sb_actions = 0, sb_bytes = 0, sb_events = 0\<rparr> (sample_context k),
     vm_world = \<lparr>w_cells = (\<lambda>_. sample_cell), w_queues = (\<lambda>_. undefined), w_ext = ()\<rparr>\<rparr>"

definition sample_wait :: value_t where
  "sample_wait = VHandle \<lparr>h_kind = HK_Wait, h_domain = 0, h_store = 0, h_slot = 0, h_generation = 0, h_owner = 0\<rparr>"


lemma sample_validates: "\<not> isl (validate sample_project sample_limits)"
  by code_simp

lemma sample_valid:
  "validate (ip_project sample_interpreter) sample_limits = Inr (projr (validate sample_project sample_limits))"
  using sample_validates by (simp add: sample_interpreter_def)

definition sample_call :: "run_result \<times> unit vm" where
  "sample_call = execute_segment sample_interpreter 1 (sample_context CK_Timed) [VU64 200] (sample_vm CK_Timed)"

definition sample_wait_segment :: "run_result \<times> unit vm" where
  "sample_wait_segment =
     execute_segment sample_interpreter 0 (sample_context CK_Process) [sample_wait, VU64 200] (sample_vm CK_Process)"

definition sample_result :: "segment_kind \<Rightarrow> value_t list \<Rightarrow> u64 \<Rightarrow> segment_result" where
  "sample_result k vs n = \<lparr>sr_kind = k, sr_values = vs, sr_error = [], sr_fuel_used = n, sr_traces = [],
     sr_suspended_wait = None, sr_resume_block = 0, sr_live_values = []\<rparr>"

lemma sample_call_result: "fst sample_call = Finished (Inr (sample_result Returned [VU64 144] 4))"
  by code_simp

lemma sample_wait_result: "fst sample_wait_segment = Finished (Inr ((sample_result Suspended [] 2)
    \<lparr>sr_suspended_wait := Some \<lparr>h_kind = HK_Wait, h_domain = 0, h_store = 0, h_slot = 0, h_generation = 0, h_owner = 0\<rparr>,
      sr_resume_block := 1, sr_live_values := [VU64 144]\<rparr>))"
  by code_simp

lemma sample_segments:
  "execute_segment sample_interpreter 1 (sample_context CK_Timed) [VU64 200] (sample_vm CK_Timed) =
     (Finished (Inr (sample_result Returned [VU64 144] 4)), snd sample_call)"
  "execute_segment sample_interpreter 0 (sample_context CK_Process) [sample_wait, VU64 200] (sample_vm CK_Process) =
     (Finished (Inr ((sample_result Suspended [] 2)
    \<lparr>sr_suspended_wait := Some \<lparr>h_kind = HK_Wait, h_domain = 0, h_store = 0, h_slot = 0, h_generation = 0, h_owner = 0\<rparr>,
      sr_resume_block := 1, sr_live_values := [VU64 144]\<rparr>)), snd sample_wait_segment)"
  by (simp_all add: sample_call_result [symmetric] sample_wait_result [symmetric] prod.collapse
      flip: sample_call_def sample_wait_segment_def)

end
