(* ===== verification/Interpreter_Props.thy ===== *)
theory Interpreter_Props
  imports Interpreter_Safety Exec_Sample
begin

text \<open>
  The properties of whole segments: safety of validated programs, typed results and resumption,
  termination within the fuel, and what happens to the transaction.
\<close>

section \<open>The registers that a block may use\<close>

definition regs_ok :: "project \<Rightarrow> reg_defs \<Rightarrow> (u32 \<Rightarrow> u32 set) \<Rightarrow> u32 \<Rightarrow> nat \<Rightarrow> regs \<Rightarrow> bool" where
  "regs_ok p defs doms b k regs \<longleftrightarrow>
     (\<forall>x d. map_of defs x = Some d \<and> df_block d \<in> doms b \<and> (df_block d = b \<longrightarrow> df_order d \<le> k) \<longrightarrow>
        (\<exists>v. regs x = Some v \<and> conforms 64 p (df_type d) v))"

lemma usable_has_value: "regs_ok p defs doms b k regs \<Longrightarrow> reg_usable defs doms b (k + 1) r \<Longrightarrow> has_value p regs r"
  unfolding regs_ok_def reg_usable_def has_value_def by (fastforce split: option.splits)

lemma typed_defs_iff:
  assumes "typed_program p l pr defs doms"
  shows "map_of defs x = Some d \<longleftrightarrow> (\<exists>b \<in> set (pg_blocks pr). (x, d) \<in> set (block_defs b))"
  using assms by (auto simp: typed_program_def)

text \<open>The definitions of one block: its parameters have order 0, its instructions come after.\<close>

lemma block_defs_iff:
  "(x, d) \<in> set (block_defs b) \<longleftrightarrow>
   (\<exists>r \<in> set (bk_parameters b). x = rg_id r \<and> d = \<lparr>df_type = rg_type r, df_block = bk_id b, df_order = 0\<rparr>) \<or>
   (\<exists>j < length (bk_instructions b). \<exists>r. in_dest (bk_instructions b ! j) = Some r \<and> x = rg_id r \<and>
      d = \<lparr>df_type = rg_type r, df_block = bk_id b, df_order = j + 1\<rparr>)"
  by (auto simp: block_defs_def param_defs_def instr_defs_iff)

lemma block_unique:
  assumes "typed_program p l pr defs doms" "b \<in> set (pg_blocks pr)" "c \<in> set (pg_blocks pr)" "bk_id b = bk_id c"
  shows "b = c"
proof -
  have "inj_on bk_id (set (pg_blocks pr))" using assms(1) by (simp add: typed_program_def distinct_map)
  then show ?thesis using assms by (auto dest: inj_onD)
qed

lemma def_in_block:
  assumes typed: "typed_program p l pr defs doms" and d: "map_of defs x = Some d"
    and b: "b \<in> set (pg_blocks pr)" "df_block d = bk_id b"
  shows "(x, d) \<in> set (block_defs b)"
proof -
  from d typed_defs_iff [OF typed] obtain c where c: "c \<in> set (pg_blocks pr)" "(x, d) \<in> set (block_defs c)" by auto
  then have "bk_id c = bk_id b" using b(2) by (auto simp: block_defs_iff)
  with block_unique [OF typed c(1) b(1)] c(2) show ?thesis by simp
qed

lemma find_rev_block:
  assumes typed: "typed_program p l pr defs doms"
  shows "find (\<lambda>b. bk_id b = i) (rev (pg_blocks pr)) = Some b \<longleftrightarrow> find_block pr i = Some b"
proof -
  have find: "find (\<lambda>b. bk_id b = i) bs = Some b \<longleftrightarrow> b \<in> set bs \<and> bk_id b = i"
    if "set bs = set (pg_blocks pr)" for bs
  proof
    assume "find (\<lambda>b. bk_id b = i) bs = Some b"
    then show "b \<in> set bs \<and> bk_id b = i" by (auto simp: find_Some_iff)
  next
    assume b: "b \<in> set bs \<and> bk_id b = i"
    then obtain c where c: "find (\<lambda>b. bk_id b = i) bs = Some c"
      by (cases "find (\<lambda>b. bk_id b = i) bs") (auto simp: find_None_iff)
    then have "c \<in> set bs" "bk_id c = i" by (auto simp: find_Some_iff)
    with b have "c = b" using block_unique [OF typed, of c b] that by auto
    with c show "find (\<lambda>b. bk_id b = i) bs = Some b" by simp
  qed
  show ?thesis using find [of "rev (pg_blocks pr)"] find [of "pg_blocks pr"] by (simp add: find_block_def)
qed

text \<open>After an instruction, its destination is defined too.\<close>

lemma regs_ok_store:
  assumes typed: "typed_program p l pr defs doms" and b: "b \<in> set (pg_blocks pr)"
    and k: "k < length (bk_instructions b)" and regs: "regs_ok p defs doms (bk_id b) k regs"
    and out: "store_out p (bk_instructions b ! k) v regs = Fine regs'"
  shows "regs_ok p defs doms (bk_id b) (k + 1) regs'"
  unfolding regs_ok_def
proof (intro allI impI, elim conjE)
  fix x d
  assume d: "map_of defs x = Some d" "df_block d \<in> doms (bk_id b)" "df_block d = bk_id b \<longrightarrow> df_order d \<le> k + 1"
  have dest_def: "map_of defs (rg_id r) = Some \<lparr>df_type = rg_type r, df_block = bk_id b, df_order = k + 1\<rparr>"
    if "in_dest (bk_instructions b ! k) = Some r" for r
    unfolding typed_defs_iff [OF typed] block_defs_iff using b k that by blast
  show "\<exists>v. regs' x = Some v \<and> conforms 64 p (df_type d) v"
  proof (cases "\<exists>r. in_dest (bk_instructions b ! k) = Some r \<and> rg_id r = x")
    case True
    then obtain r where r: "in_dest (bk_instructions b ! k) = Some r" "rg_id r = x" by blast
    with dest_def d(1) have "df_type d = rg_type r" by auto
    then show ?thesis using out r by (auto simp: store_out_def split: if_splits)
  next
    case False
    have "df_order d \<le> k" if here: "df_block d = bk_id b"
    proof (rule ccontr)
      assume "\<not> df_order d \<le> k"
      with d(3) here have "df_order d = k + 1" by simp
      with def_in_block [OF typed d(1) b here] False show False by (auto simp: block_defs_iff)
    qed
    then have "\<exists>v. regs x = Some v \<and> conforms 64 p (df_type d) v" using regs d unfolding regs_ok_def by blast
    moreover have "regs' x = regs x" using out False by (auto simp: store_out_def split: option.splits if_splits)
    ultimately show ?thesis by simp
  qed
qed

text \<open>Values for the parameters of a block: each is set, and nothing else is.\<close>

definition params_set :: "project \<Rightarrow> reg list \<Rightarrow> regs \<Rightarrow> regs \<Rightarrow> bool" where
  "params_set p ps regs regs' \<longleftrightarrow>
     (\<forall>x. (regs' x = regs x \<and> x \<notin> rg_id ` set ps) \<or>
          (\<exists>r \<in> set ps. \<exists>v. rg_id r = x \<and> regs' x = Some v \<and> conforms 64 p (rg_type r) v))"

lemma assign_params_ok:
  "list_all2 (\<lambda>r v. conforms 64 p (rg_type r) v) ps vs \<Longrightarrow>
   \<exists>regs'. assign_params ps vs regs = Fine regs' \<and> params_set p ps regs regs'"
proof (induction ps vs arbitrary: regs rule: list_all2_induct)
  case Nil
  then show ?case by (simp add: params_set_def)
next
  case (Cons r rs v vs)
  from Cons.IH obtain regs' where "assign_params rs vs (regs(rg_id r \<mapsto> v)) = Fine regs'"
    and set: "params_set p rs (regs(rg_id r \<mapsto> v)) regs'" by blast
  moreover have "params_set p (r # rs) regs regs'"
    unfolding params_set_def
  proof
    fix x
    from set consider (kept) "regs' x = (regs(rg_id r \<mapsto> v)) x" "x \<notin> rg_id ` set rs"
      | (later) s w where "s \<in> set rs" "rg_id s = x" "regs' x = Some w" "conforms 64 p (rg_type s) w"
      unfolding params_set_def by blast
    then show "(regs' x = regs x \<and> x \<notin> rg_id ` set (r # rs)) \<or>
        (\<exists>s \<in> set (r # rs). \<exists>w. rg_id s = x \<and> regs' x = Some w \<and> conforms 64 p (rg_type s) w)"
    proof cases
      case kept
      then show ?thesis using Cons.hyps by (cases "x = rg_id r") auto
    qed auto
  qed
  ultimately show ?case by auto
qed

lemma assign_params_map:
  "length ps = length vs \<Longrightarrow> assign_params ps vs regs = Fine (regs ++ map_of (rev (zip (map rg_id ps) vs)))"
  by (induction ps vs arbitrary: regs rule: list_induct2) (simp_all add: map_add_assoc [symmetric])

lemma entry_regs_set:
  assumes "list_all2 (\<lambda>r v. conforms 64 p (rg_type r) v) ps vs"
  shows "params_set p ps Map.empty (map_of (rev (zip (map rg_id ps) vs)))"
  using assign_params_ok [OF assms, of Map.empty] assign_params_map [of ps vs Map.empty] list_all2_lengthD [OF assms]
  by auto

text \<open>Entering a block: its dominators other than itself hold their registers already.\<close>

lemma regs_ok_enter:
  assumes typed: "typed_program p l pr defs doms" and c: "c \<in> set (pg_blocks pr)"
    and set: "params_set p (bk_parameters c) regs regs'"
    and before: "\<And>x d. map_of defs x = Some d \<Longrightarrow> df_block d \<in> doms (bk_id c) \<Longrightarrow> df_block d \<noteq> bk_id c \<Longrightarrow>
      \<exists>v. regs x = Some v \<and> conforms 64 p (df_type d) v"
  shows "regs_ok p defs doms (bk_id c) 0 regs'"
  unfolding regs_ok_def
proof (intro allI impI, elim conjE)
  fix x d
  assume d: "map_of defs x = Some d" "df_block d \<in> doms (bk_id c)" "df_block d = bk_id c \<longrightarrow> df_order d \<le> 0"
  from set consider (kept) "regs' x = regs x" "x \<notin> rg_id ` set (bk_parameters c)"
    | (param) r v where "r \<in> set (bk_parameters c)" "rg_id r = x" "regs' x = Some v" "conforms 64 p (rg_type r) v"
    unfolding params_set_def by blast
  then show "\<exists>v. regs' x = Some v \<and> conforms 64 p (df_type d) v"
  proof cases
    case kept
    have "df_block d \<noteq> bk_id c"
    proof
      assume here: "df_block d = bk_id c"
      from def_in_block [OF typed d(1) c here] d(3) here kept(2) show False by (auto simp: block_defs_iff)
    qed
    from before [OF d(1,2) this] kept(1) show ?thesis by simp
  next
    case param
    have "map_of defs x = Some \<lparr>df_type = rg_type r, df_block = bk_id c, df_order = 0\<rparr>"
      unfolding typed_defs_iff [OF typed] block_defs_iff using c param(1,2) by blast
    with d(1) param show ?thesis by auto
  qed
qed

lemma regs_ok_root:
  assumes typed: "typed_program p l pr defs doms" and c: "c \<in> set (pg_blocks pr)" "bk_id c \<in> segment_roots pr"
    and set: "params_set p (bk_parameters c) regs regs'"
  shows "regs_ok p defs doms (bk_id c) 0 regs'"
proof (rule regs_ok_enter [OF typed c(1) set])
  fix x d
  assume "df_block d \<in> doms (bk_id c)" "df_block d \<noteq> bk_id c"
  moreover have "doms (bk_id c) \<subseteq> {bk_id c}" using typed c(2) by (auto simp: typed_program_def)
  ultimately show "\<exists>v. regs x = Some v \<and> conforms 64 p (df_type d) v" by auto
qed

lemma regs_ok_edge:
  assumes typed: "typed_program p l pr defs doms" and b: "b \<in> set (pg_blocks pr)"
    and e: "e \<in> set (targets (bk_terminator b))" and c: "find_block pr (eg_target e) = Some c"
    and regs: "regs_ok p defs doms (bk_id b) (length (bk_instructions b)) regs"
    and set: "params_set p (bk_parameters c) regs regs'"
  shows "regs_ok p defs doms (bk_id c) 0 regs'"
proof (rule regs_ok_enter [OF typed _ set])
  from find_block_Some [OF c] have cc: "c \<in> set (pg_blocks pr)" "bk_id c = eg_target e" by auto
  show "c \<in> set (pg_blocks pr)" by (rule cc)
  fix x d
  assume d: "map_of defs x = Some d" "df_block d \<in> doms (bk_id c)" "df_block d \<noteq> bk_id c"
  have "doms (bk_id c) \<subseteq> insert (bk_id c) (doms (bk_id b))"
    using typed b e by (auto simp: typed_program_def cc)
  with d have "df_block d \<in> doms (bk_id b)" by auto
  moreover have "df_order d \<le> length (bk_instructions b)" if "df_block d = bk_id b"
    using def_in_block [OF typed d(1) b that] by (auto simp: block_defs_iff)
  ultimately show "\<exists>v. regs x = Some v \<and> conforms 64 p (df_type d) v" using regs d(1) unfolding regs_ok_def by blast
qed


section \<open>Terminators\<close>

lemma conforms_map_types:
  "list_all2 (\<lambda>r v. conforms 64 p (rg_type r) v) rs vs \<longleftrightarrow> list_all2 (conforms 64 p) (map rg_type rs) vs"
  by (simp add: list_all2_map1)

text \<open>What a result tells: typed values, or a block to resume at with typed live values.\<close>

definition result_ok :: "project \<Rightarrow> program \<Rightarrow> segment_result \<Rightarrow> bool" where
  "result_ok p pr s \<longleftrightarrow>
     (case sr_kind s of
        Returned \<Rightarrow> list_all2 (conforms 64 p) (pg_result_types pr) (sr_values s)
      | TransportReturned \<Rightarrow> list_all2 (conforms 64 p) (pg_result_types pr) (sr_values s)
      | Suspended \<Rightarrow>
          (\<exists>b h. find_block pr (sr_resume_block s) = Some b \<and> sr_resume_block s \<in> segment_roots pr \<and>
             sr_suspended_wait s = Some h \<and> h_kind h = HK_Wait \<and> bk_parameters b \<noteq> [] \<and>
             list_all2 (conforms 64 p) (map rg_type (tl (bk_parameters b))) (sr_live_values s))
      | Failed \<Rightarrow> True)"

definition transfer_ok :: "project \<Rightarrow> program \<Rightarrow> block \<Rightarrow> regs \<Rightarrow> transfer vm_step \<Rightarrow> bool" where
  "transfer_ok p pr b regs out \<longleftrightarrow> step_safe out \<and>
     (\<forall>e. out = Fine (Goto e) \<longrightarrow> e \<in> set (targets (bk_terminator b)) \<and> (\<forall>r \<in> set (eg_args e). has_value p regs r)) \<and>
     (\<forall>s. out = Fine (Halt s) \<longrightarrow> result_ok p pr s)"

lemma transfer_ok_simps [simp]:
  "transfer_ok p pr b regs (Abort err)" "transfer_ok p pr b regs (stop c m)"
  "transfer_ok p pr b regs (Fine (Goto e)) \<longleftrightarrow>
     e \<in> set (targets (bk_terminator b)) \<and> (\<forall>r \<in> set (eg_args e). has_value p regs r)"
  "transfer_ok p pr b regs (Fine (Halt s)) \<longleftrightarrow> result_ok p pr s"
  by (auto simp: transfer_ok_def)

lemma handle_code_inj: "handle_code k = handle_code k' \<Longrightarrow> k = k'"
  by (cases k; cases k') simp_all

lemma suspend_ok:
  assumes kind: "tr_kind (bk_terminator b) = TermSuspend" and b: "b \<in> set (pg_blocks pr)"
    and edges: "check_edges p pr (bk_terminator b) = Inr (ts, rs)" and av: "av_program av = pr"
    and wait: "has_value p (vm_regs vm) (tr_value (bk_terminator b))" "kind_of p (tr_value (bk_terminator b)) = TK_Handle"
      "bound_of p (tr_value (bk_terminator b)) = handle_code HK_Wait"
    and saved: "\<forall>r \<in> set (tr_values (bk_terminator b)). has_value p (vm_regs vm) r"
  shows "transfer_ok p pr b regs (fst (exec_suspend ip av (bk_terminator b) vm))"
proof -
  let ?t = "bk_terminator b"
  from wait(1) obtain v where v: "read_reg (vm_regs vm) (tr_value ?t) = Fine v" "conforms 64 p (rg_type (tr_value ?t)) v"
    by (rule has_valueE)
  from conforms_Handle [OF v(2) wait(2)] wait(3) obtain h where h: "v = VHandle h" "h_kind h = HK_Wait"
    using handle_code_inj by force
  from read_all_ok [OF saved] obtain vs where vs: "read_all (vm_regs vm) (tr_values ?t) = Fine vs"
    "list_all2 (\<lambda>r v. conforms 64 p (rg_type r) v) (tr_values ?t) vs" by blast
  from edges kind obtain c where c: "find_block pr (eg_target (tr_yes ?t)) = Some c"
    and len: "length (bk_parameters c) = length (tr_values ?t) + 1"
    and types: "\<forall>n < length (tr_values ?t). rg_type (bk_parameters c ! (n + 1)) = rg_type (tr_values ?t ! n)"
    by (auto simp: check_edges_def bad_def suspend_live_ok_def split: if_splits option.splits)
  from len obtain r0 rest where ps: "bk_parameters c = r0 # rest" by (cases "bk_parameters c") auto
  have "map rg_type rest = map rg_type (tr_values ?t)"
    using len types by (auto simp: ps list_eq_iff_nth_eq)
  then have live: "list_all2 (conforms 64 p) (map rg_type (tl (bk_parameters c))) vs"
    using vs(2) by (simp add: conforms_map_types ps)
  have root: "eg_target (tr_yes ?t) \<in> segment_roots pr" using b kind by (auto simp: segment_roots_def)
  show ?thesis
    by (auto simp: exec_suspend_def suspend_args_def v(1) h vs(1) av c index_of_def ps of_expected_def Let_def result_ok_def
        root live [unfolded ps, simplified] segment_of_def split: option.splits prod.splits sum.splits)
qed

lemma exec_terminator_ok:
  assumes typed: "typed_program p l pr defs doms" and b: "b \<in> set (pg_blocks pr)" and av: "av_program av = pr"
    and regs: "regs_ok p defs doms (bk_id b) (length (bk_instructions b)) (vm_regs vm)"
  shows "transfer_ok p pr b (vm_regs vm) (fst (exec_terminator ip av (bk_terminator b) vm))"
proof -
  let ?t = "bk_terminator b" and ?has = "has_value p (vm_regs vm)"
  have use: "?has r" if "reg_usable defs doms (bk_id b) (length (bk_instructions b) + 1) r" for r
    by (rule usable_has_value [OF regs that])
  then have uses: "\<forall>r \<in> set rs. ?has r" if "list_all (reg_usable defs doms (bk_id b) (length (bk_instructions b) + 1)) rs" for rs
    using that by (auto simp: list_all_iff)
  have check: "check_terminator p pr defs doms b = Inr ()" using typed b by (auto simp: typed_program_def)
  note chk = check [unfolded check_terminator_def Let_def bad_def]
  show ?thesis
  proof (cases "tr_kind ?t")
    case TermJump
    then show ?thesis using chk uses by (auto simp: exec_terminator_def targets_def split: if_splits)
  next
    case TermBranch
    from chk TermBranch have "?has (tr_value ?t)" "kind_of p (tr_value ?t) = TK_Bool"
      and edges: "\<forall>r \<in> set (eg_args (tr_yes ?t)). ?has r" "\<forall>r \<in> set (eg_args (tr_no ?t)). ?has r"
      using use uses by (auto split: if_splits)
    then obtain c where "read_reg (vm_regs vm) (tr_value ?t) = Fine (VBool c)"
      by (metis has_valueE conforms_Bool)
    then show ?thesis using TermBranch edges by (simp add: exec_terminator_def targets_def)
  next
    case TermSwitch
    from chk TermSwitch have "?has (tr_value ?t)" "kind_of p (tr_value ?t) = TK_Bits"
      and edges: "\<forall>r \<in> set (eg_args (tr_no ?t)). ?has r" "\<forall>c \<in> set (tr_cases ?t). \<forall>r \<in> set (eg_args (snd c)). ?has r"
      using use uses by (auto simp: check_switch_def Let_def bad_def split: if_splits)
    then obtain n where "read_reg (vm_regs vm) (tr_value ?t) = Fine (VU64 n)"
      by (metis has_valueE conforms_Bits)
    then show ?thesis using TermSwitch edges
      by (force simp: exec_terminator_def targets_def split: option.splits dest!: map_of_SomeD)
  next
    case TermReturn
    from chk TermReturn have "\<forall>r \<in> set (tr_values ?t). ?has r" and types: "map rg_type (tr_values ?t) = pg_result_types pr"
      using uses by (auto simp: check_return_def bad_def split: if_splits)
    from read_all_ok [OF this(1)] obtain vs where "read_all (vm_regs vm) (tr_values ?t) = Fine vs"
      "list_all2 (conforms 64 p) (map rg_type (tr_values ?t)) vs" unfolding conforms_map_types by blast
    then show ?thesis using TermReturn types by (simp add: exec_terminator_def result_ok_def segment_of_def)
  next
    case TermFail
    then show ?thesis by (simp add: exec_terminator_def result_ok_def segment_of_def Let_def)
  next
    case TermTransportReturn
    from chk TermTransportReturn have "?has (tr_value ?t)" and types: "pg_result_types pr = [rg_type (tr_value ?t)]"
      using use by (auto simp: check_transport_return_def Let_def bad_def length_Suc_conv split: if_splits)
    then show ?thesis using TermTransportReturn
      by (auto elim!: has_valueE simp: exec_terminator_def result_ok_def segment_of_def)
  next
    case TermSuspend
    from chk TermSuspend have "?has (tr_value ?t)" "kind_of p (tr_value ?t) = TK_Handle"
      "bound_of p (tr_value ?t) = handle_code HK_Wait" "\<forall>r \<in> set (tr_values ?t). ?has r"
      using use uses by (auto split: if_splits)
    moreover obtain ts rs where "check_edges p pr ?t = Inr (ts, rs)" using typed b by (auto simp: typed_program_def)
    ultimately show ?thesis using suspend_ok [OF TermSuspend b _ av] TermSuspend by (simp add: exec_terminator_def)
  qed
qed

lemma exec_terminator_goto:
  "exec_terminator ip av t vm = (Fine (Goto e), vm') \<Longrightarrow> vm' = vm"
  by (auto simp: exec_terminator_def exec_suspend_def Let_def and_then_Fine of_expected_def
      split: term_kind.splits option.splits vm_step.splits prod.splits sum.splits)

lemma follow_ok:
  assumes ok: "edge_ok pr e" and args: "\<forall>r \<in> set (eg_args e). has_value p regs r"
  obtains c regs' where "follow pr e regs = Fine (c, regs')" "find_block pr (eg_target e) = Some c"
    "params_set p (bk_parameters c) regs regs'"
proof -
  from ok obtain c where c: "find_block pr (eg_target e) = Some c"
    and types: "map rg_type (eg_args e) = map rg_type (bk_parameters c)" by (auto simp: edge_ok_def split: option.splits)
  from read_all_ok [OF args] obtain vs where vs: "read_all regs (eg_args e) = Fine vs"
    and "list_all2 (\<lambda>r v. conforms 64 p (rg_type r) v) (bk_parameters c) vs" unfolding conforms_map_types types by blast
  from assign_params_ok [OF this(2), of regs] obtain regs' where
    "assign_params (bk_parameters c) vs regs = Fine regs'" "params_set p (bk_parameters c) regs regs'" by blast
  then show thesis by (intro that) (simp_all add: follow_def vs c)
qed


section \<open>Safety\<close>

definition run_ok :: "project \<Rightarrow> program \<Rightarrow> run_result \<Rightarrow> bool" where
  "run_ok p pr r \<longleftrightarrow>
     (case r of Finished (Inl _) \<Rightarrow> True | Finished (Inr s) \<Rightarrow> result_ok p pr s | ClockOut \<Rightarrow> True | _ \<Rightarrow> False)"

lemma run_ok_simps [simp]:
  "run_ok p pr (Finished (Inl e))" "run_ok p pr (Finished (Inr s)) \<longleftrightarrow> result_ok p pr s"
  "run_ok p pr ClockOut" "\<not> run_ok p pr (Caught x e)" "\<not> run_ok p pr UndefinedBehaviour"
  "run_ok p pr (fst (abort_run ip loc e vm))"
  by (simp_all add: run_ok_def abort_run_def)

definition typed_project :: "project \<Rightarrow> limits \<Rightarrow> bool" where
  "typed_project p l \<longleftrightarrow> (\<forall>pr \<in> set (pj_programs p). \<exists>defs doms. typed_program p l pr defs doms)"

lemma enter_ok:
  assumes "enter ip i ctx args t w start call_depth pure = Inr (pr, b)"
  shows "last_program (ip_project ip) i = Some pr" "pr \<in> set (pj_programs (ip_project ip))"
    "find (\<lambda>b. bk_id b = (case start of None \<Rightarrow> pg_entry pr | Some x \<Rightarrow> x)) (rev (pg_blocks pr)) = Some b"
    "list_all2 (\<lambda>r v. conforms 64 (ip_project ip) (rg_type r) v) (bk_parameters b) args" "state_ok ip"
proof -
  from assms have pr: "last_program (ip_project ip) i = Some pr" and entry: "check_entry ip pr args w start = Inr b"
    by (auto simp: enter_def Let_def split: option.splits sum.splits if_splits)
  show "last_program (ip_project ip) i = Some pr" by (rule pr)
  then show "pr \<in> set (pj_programs (ip_project ip))" by (auto simp: last_program_def dest: find_SomeD)
  show "find (\<lambda>b. bk_id b = (case start of None \<Rightarrow> pg_entry pr | Some x \<Rightarrow> x)) (rev (pg_blocks pr)) = Some b"
    "list_all2 (\<lambda>r v. conforms 64 (ip_project ip) (rg_type r) v) (bk_parameters b) args"
    using entry by (auto simp: check_entry_def Let_def split: option.splits if_splits)
  have bound: "list_all2 (state_bound (ip_project ip) w) (pj_state_types (ip_project ip)) (ip_state ip)"
    using entry by (auto simp: check_entry_def Let_def split: option.splits if_splits)
  then have "None \<notin> set (ip_state ip)"
    by (fastforce simp: list_all2_conv_all_nth in_set_conv_nth state_bound_def split: option.splits)
  then show "state_ok ip" using list_all2_lengthD [OF bound] by (simp add: state_ok_def)
qed

text \<open>An activation that starts at a segment root has the registers it needs.\<close>

lemma activate_regs_ok:
  assumes typed: "typed_program (ip_project ip) l pr defs doms"
    and e: "enter ip i ctx args t w start call_depth pure = Inr (pr, b)"
    and root: "bk_id b \<in> segment_roots pr" and av: "activate i pr ctx call_depth pure b args vm = (av, vm')"
  shows "b \<in> set (pg_blocks pr)" "av_program av = pr" "regs_ok (ip_project ip) defs doms (bk_id b) 0 (vm_regs vm')"
proof -
  show b: "b \<in> set (pg_blocks pr)" using enter_ok(3) [OF e] find_rev_block [OF typed] find_block_Some by blast
  show "av_program av = pr" using av by (auto simp: activate_def)
  have "vm_regs vm' = map_of (rev (zip (map rg_id (bk_parameters b)) args))" using av by (auto simp: activate_def)
  then show "regs_ok (ip_project ip) defs doms (bk_id b) 0 (vm_regs vm')"
    using regs_ok_root [OF typed b root entry_regs_set [OF enter_ok(4) [OF e]]] by simp
qed

lemma enter_root: "enter ip i ctx args t w None call_depth pure = Inr (pr, b) \<Longrightarrow> bk_id b \<in> segment_roots pr"
  using enter_ok(3) by (fastforce simp: segment_roots_def find_Some_iff)

lemma call_pure_ok:
  assumes args: "\<forall>r \<in> set (in_args i). has_value (ip_project ip) (vm_regs vm) r"
    and proj: "typed_project (ip_project ip) l" and st: "state_ok ip"
    and go: "\<And>av b vm defs doms. typed_program (ip_project ip) l (av_program av) defs doms \<Longrightarrow> b \<in> set (pg_blocks (av_program av)) \<Longrightarrow>
      regs_ok (ip_project ip) defs doms (bk_id b) 0 (vm_regs vm) \<Longrightarrow> run_ok (ip_project ip) (av_program av) (fst (go av b vm))"
    and res: "call_pure ip go av i vm = (res, vm')"
  shows "res = Inr ClockOut \<or> (\<exists>out. res = Inl out \<and> step_safe out)" "vm_regs vm' = vm_regs vm"
proof -
  from read_all_ok [OF args] obtain vs where vs: "read_all (vm_regs vm) (in_args i) = Fine vs" by blast
  show "vm_regs vm' = vm_regs vm" using res
    by (auto simp: call_pure_def vs vm_discard_def split: sum.splits prod.splits)
  show "res = Inr ClockOut \<or> (\<exists>out. res = Inl out \<and> step_safe out)"
  proof (cases "enter ip (in_immediate i) (av_context av) vs (vm_txn vm) (vm_world vm) None (av_depth av + 1) True")
    case (Inl e)
    then show ?thesis using res by (auto simp: call_pure_def vs)
  next
    case (Inr prb)
    obtain pr b where prb: "prb = (pr, b)" by fastforce
    note e = Inr [unfolded prb]
    obtain av' vm0 where av: "activate (in_immediate i) pr (av_context av) (av_depth av + 1) True b vs vm = (av', vm0)" by fastforce
    from proj enter_ok(2) [OF e] obtain defs doms where typed: "typed_program (ip_project ip) l pr defs doms"
      by (auto simp: typed_project_def)
    note a = activate_regs_ok [OF typed e enter_root [OF e] av]
    obtain r vm1 where r: "go av' b vm0 = (r, vm1)" by fastforce
    have "run_ok (ip_project ip) pr r" using go [of av' defs doms b vm0] typed a r by simp
    then have "returned_value r = Inr ClockOut \<or> (\<exists>out. returned_value r = Inl out \<and> step_safe out)"
      by (auto simp: returned_value_def split: run_result.splits sum.splits)
    moreover have "res = returned_value r" using res e av r by (simp add: call_pure_def vs)
    ultimately show ?thesis by simp
  qed
qed

lemma apfst_eq: "apfst f x = (r, y) \<longleftrightarrow> r = f (fst x) \<and> y = snd x"
  by (cases x) auto

lemma store_out_safe: "step_safe (store_out p i v regs)"
  by (auto simp: store_out_def split: option.splits)

lemma typed_instruction:
  assumes typed: "typed_program p l pr defs doms" and b: "b \<in> set (pg_blocks pr)" and k: "k < length (bk_instructions b)"
    and regs: "regs_ok p defs doms (bk_id b) k regs"
  shows "\<forall>r \<in> set (in_args (bk_instructions b ! k)). has_value p regs r" "instr_ok p l (bk_instructions b ! k)"
    "\<forall>d. in_dest (bk_instructions b ! k) = Some d \<longrightarrow> type_ok p (rg_type d)"
proof -
  have ok: "(\<forall>r \<in> set (in_args (bk_instructions b ! k)). reg_usable defs doms (bk_id b) (k + 1) r) \<and>
      instr_ok p l (bk_instructions b ! k)" using typed b k by (auto simp: typed_program_def)
  then show "\<forall>r \<in> set (in_args (bk_instructions b ! k)). has_value p regs r" using usable_has_value [OF regs] by blast
  show "instr_ok p l (bk_instructions b ! k)" using ok by blast
  show "\<forall>d. in_dest (bk_instructions b ! k) = Some d \<longrightarrow> type_ok p (rg_type d)"
  proof (intro allI impI)
    fix d
    assume "in_dest (bk_instructions b ! k) = Some d"
    then have "(rg_id d, \<lparr>df_type = rg_type d, df_block = bk_id b, df_order = k + 1\<rparr>) \<in> set (block_defs b)"
      using k by (auto simp: block_defs_iff)
    then show "type_ok p (rg_type d)" using typed b by (force simp: typed_program_def)
  qed
qed

text \<open>One instruction, when the rest of the run is safe.\<close>

lemma run_instruction_safe:
  assumes proj: "typed_project (ip_project ip) l" and st: "state_ok ip"
    and IH: "\<And>av b k vm defs doms. typed_program (ip_project ip) l (av_program av) defs doms \<Longrightarrow>
      b \<in> set (pg_blocks (av_program av)) \<Longrightarrow> regs_ok (ip_project ip) defs doms (bk_id b) k (vm_regs vm) \<Longrightarrow>
      k \<le> length (bk_instructions b) \<Longrightarrow> run_ok (ip_project ip) (av_program av) (fst (run n ip av b k vm))"
    and typed: "typed_program (ip_project ip) l (av_program av) defs doms" and b: "b \<in> set (pg_blocks (av_program av))"
    and regs: "regs_ok (ip_project ip) defs doms (bk_id b) k (vm_regs vm)" and k: "k < length (bk_instructions b)"
  shows "run_ok (ip_project ip) (av_program av) (fst (run (Suc n) ip av b k vm))"
proof (cases "consume 1 (vm_fuel vm)")
  case (Inl e)
  then show ?thesis using k by (simp add: Let_def)
next
  case (Inr fuel)
  let ?p = "ip_project ip" and ?i = "bk_instructions b ! k" and ?vm = "vm\<lparr>vm_fuel := fuel\<rparr>" and ?go = "\<lambda>av b. run n ip av b 0"
  note ins = typed_instruction [OF typed b k regs]
  obtain res vm1 where res: "(if in_op ?i = Op_CallPure then call_pure ip ?go av ?i ?vm
      else apfst Inl (exec_instruction ip av ?i ?vm)) = (res, vm1)" by fastforce
  have safe: "(res = Inr ClockOut \<or> (\<exists>out. res = Inl out \<and> step_safe out)) \<and> vm_regs vm1 = vm_regs vm"
  proof (cases "in_op ?i = Op_CallPure")
    case True
    with res have call: "call_pure ip ?go av ?i ?vm = (res, vm1)" by simp
    show ?thesis using call_pure_ok [OF _ proj st IH call] ins(1) by simp
  next
    case False
    with res have "res = Inl (fst (exec_instruction ip av ?i ?vm))" "vm1 = snd (exec_instruction ip av ?i ?vm)"
      by (auto simp: apfst_eq)
    then show ?thesis using exec_instruction_safe [OF st ins(2) False, of ?vm av] ins(1,3) by simp
  qed
  show ?thesis
  proof (cases res)
    case (Inr r)
    with safe k \<open>consume 1 (vm_fuel vm) = Inr fuel\<close> res show ?thesis by (simp add: Let_def pass_on_def)
  next
    case out: (Inl out)
    with safe have "step_safe (and_then out (\<lambda>v. store_out ?p ?i v (vm_regs vm1)))"
      by (auto intro!: step_safe_and_then store_out_safe)
    moreover have "run_ok ?p (av_program av) (fst (run n ip av b (k + 1) (vm1\<lparr>vm_regs := regs'\<rparr>)))"
      if "and_then out (\<lambda>v. store_out ?p ?i v (vm_regs vm1)) = Fine regs'" for regs'
    proof -
      from that obtain v where "store_out ?p ?i v (vm_regs vm) = Fine regs'" using safe by (auto simp: and_then_Fine)
      from regs_ok_store [OF typed b k regs this] k show ?thesis by (intro IH [OF typed b]) simp_all
    qed
    ultimately show ?thesis using k \<open>consume 1 (vm_fuel vm) = Inr fuel\<close> res out by (auto simp: Let_def step_safe_def)
  qed
qed

lemma run_terminator_safe:
  assumes IH: "\<And>b vm. b \<in> set (pg_blocks (av_program av)) \<Longrightarrow> regs_ok (ip_project ip) defs doms (bk_id b) 0 (vm_regs vm) \<Longrightarrow>
      run_ok (ip_project ip) (av_program av) (fst (run n ip av b 0 vm))"
    and typed: "typed_program (ip_project ip) l (av_program av) defs doms" and b: "b \<in> set (pg_blocks (av_program av))"
    and regs: "regs_ok (ip_project ip) defs doms (bk_id b) (length (bk_instructions b)) (vm_regs vm)"
  shows "run_ok (ip_project ip) (av_program av) (fst (run (Suc n) ip av b (length (bk_instructions b)) vm))"
proof (cases "consume 1 (vm_fuel vm)")
  case (Inr fuel)
  let ?p = "ip_project ip" and ?pr = "av_program av" and ?vm = "vm\<lparr>vm_fuel := fuel\<rparr>"
  obtain out vm1 where t: "exec_terminator ip av (bk_terminator b) ?vm = (out, vm1)" by fastforce
  have ok: "transfer_ok ?p ?pr b (vm_regs vm) out"
    using exec_terminator_ok [OF typed b refl, of ?vm ip] regs t by simp
  have goto: "run_ok ?p ?pr (fst (run (Suc n) ip av b (length (bk_instructions b)) vm))" if out: "out = Fine (Goto e)" for e
  proof -
    from t out have vm1: "vm1 = ?vm" using exec_terminator_goto by blast
    from ok out have e: "e \<in> set (targets (bk_terminator b))" and args: "\<forall>r \<in> set (eg_args e). has_value ?p (vm_regs vm) r" by auto
    have "edge_ok ?pr e" using typed b e by (auto simp: typed_program_def)
    from this args obtain c regs' where f: "follow ?pr e (vm_regs vm) = Fine (c, regs')"
      "find_block ?pr (eg_target e) = Some c" "params_set ?p (bk_parameters c) (vm_regs vm) regs'" by (rule follow_ok)
    from regs_ok_edge [OF typed b e f(2) regs f(3)]
    have "run_ok ?p ?pr (fst (run n ip av c 0 (vm1\<lparr>vm_regs := regs'\<rparr>)))"
      using find_block_Some [OF f(2)] by (intro IH) simp_all
    then show ?thesis using Inr t out f(1) by (simp add: vm1)
  qed
  show ?thesis
  proof (cases out)
    case (Fine x)
    then show ?thesis using goto ok Inr t by (cases x) auto
  qed (use ok Inr t in \<open>auto simp: transfer_ok_def\<close>)
qed simp

lemma run_safe:
  assumes proj: "typed_project (ip_project ip) l" and st: "state_ok ip"
  shows "typed_program (ip_project ip) l (av_program av) defs doms \<Longrightarrow> b \<in> set (pg_blocks (av_program av)) \<Longrightarrow>
    regs_ok (ip_project ip) defs doms (bk_id b) k (vm_regs vm) \<Longrightarrow> k \<le> length (bk_instructions b) \<Longrightarrow>
    run_ok (ip_project ip) (av_program av) (fst (run n ip av b k vm))"
proof (induction n arbitrary: av b k vm defs doms)
  case (Suc n)
  show ?case
  proof (cases "k < length (bk_instructions b)")
    case True
    show ?thesis by (rule run_instruction_safe [OF proj st Suc.IH Suc.prems(1-3) True])
  next
    case False
    then have len: "k = length (bk_instructions b)" using Suc.prems(4) by simp
    have IH: "run_ok (ip_project ip) (av_program av) (fst (run n ip av c 0 vm'))"
      if "c \<in> set (pg_blocks (av_program av))" "regs_ok (ip_project ip) defs doms (bk_id c) 0 (vm_regs vm')" for c vm'
      by (rule Suc.IH [OF Suc.prems(1) that]) simp
    show ?thesis unfolding len
      by (rule run_terminator_safe [where l = l and defs = defs and doms = doms])
        (use IH Suc.prems(1-3) len in simp_all)
  qed
qed simp


section \<open>Fuel and the clock\<close>

lemma consume_unat: "consume a f = Inr f' \<Longrightarrow> unat a \<le> unat f \<and> unat f' = unat f - unat a"
  by (auto simp: consume_def unat_sub not_less word_le_nat_alt split: if_splits)

lemma consume_le: "consume a f = Inr f' \<Longrightarrow> f' \<le> f"
  by (auto simp: word_le_nat_alt dest: consume_unat)

lemma discard_fuel [simp]: "vm_fuel (vm_discard ip vm) = vm_fuel vm"
  by (simp add: vm_discard_def split: prod.splits)

lemma abort_simps [simp]:
  "fst (abort_run ip loc e vm) \<noteq> ClockOut" "vm_fuel (snd (abort_run ip loc e vm)) = vm_fuel vm"
  "fst (catch_run ip x vm) \<noteq> ClockOut" "vm_fuel (snd (catch_run ip x vm)) = vm_fuel vm"
  "fst (pass_on ip loc r vm) = ClockOut \<longleftrightarrow> r = ClockOut" "vm_fuel (snd (pass_on ip loc r vm)) = vm_fuel vm"
  by (auto simp: abort_run_def catch_run_def pass_on_def split: run_result.splits)

lemma exec_instruction_fuel: "vm_fuel (snd (exec_instruction ip av i vm)) \<le> vm_fuel vm"
  by (auto simp: exec_instruction_def exec_state_def exec_trace_def exec_service_def Let_def dest: consume_le
      split: vm_step.splits prod.splits option.splits sum.splits)

lemma exec_terminator_fuel [simp]: "vm_fuel (snd (exec_terminator ip av t vm)) = vm_fuel vm"
  by (auto simp: exec_terminator_def exec_suspend_def Let_def
      split: term_kind.splits option.splits vm_step.splits prod.splits)

lemma call_pure_fuel:
  assumes "\<And>av b vm. vm_fuel (snd (go av b vm)) \<le> vm_fuel vm"
  shows "vm_fuel (snd (call_pure ip go av i vm)) \<le> vm_fuel vm"
proof -
  have "vm_fuel vm' \<le> vm_fuel vm" if "activate j pr ctx d True b args vm = (av', vm0)" "go av' b vm0 = (r, vm')"
    for j pr ctx d b args av' vm0 r vm'
    using assms [of av' b vm0] that by (auto simp: activate_def)
  then show ?thesis by (auto simp: call_pure_def split: vm_step.splits sum.splits prod.splits)
qed

lemma returned_clock: "returned_value r = Inr ClockOut \<longleftrightarrow> r = ClockOut"
  by (auto simp: returned_value_def split: run_result.splits sum.splits)

lemma call_pure_clock:
  assumes "\<And>av b vm'. vm_fuel vm' = vm_fuel vm \<Longrightarrow> fst (go av b vm') \<noteq> ClockOut"
  shows "fst (call_pure ip go av i vm) \<noteq> Inr ClockOut"
proof -
  have "r \<noteq> ClockOut" if "activate j pr ctx d True b args vm = (av', vm0)" "go av' b vm0 = (r, vm')"
    for j pr ctx d b args av' vm0 r vm'
    using assms [of vm0 av' b] that by (auto simp: activate_def)
  then show ?thesis by (auto simp: call_pure_def returned_clock split: vm_step.splits sum.splits prod.splits)
qed

lemma run_fuel: "vm_fuel (snd (run n ip av b k vm)) \<le> vm_fuel vm"
proof (induction n arbitrary: av b k vm)
  case (Suc n)
  show ?case
  proof (cases "consume 1 (vm_fuel vm)")
    case (Inr fuel)
    let ?i = "bk_instructions b ! k" and ?vm = "vm\<lparr>vm_fuel := fuel\<rparr>"
    have le: "fuel \<le> vm_fuel vm" by (rule consume_le [OF Inr])
    obtain res vm1 where res: "(if in_op ?i = Op_CallPure then call_pure ip (\<lambda>av b. run n ip av b 0) av ?i ?vm
        else apfst Inl (exec_instruction ip av ?i ?vm)) = (res, vm1)" by fastforce
    have "vm_fuel vm1 \<le> fuel"
      using res call_pure_fuel [where go = "\<lambda>av b. run n ip av b 0", OF Suc.IH, of ip av ?i ?vm]
        exec_instruction_fuel [of ip av ?i ?vm]
      by (auto simp: apfst_eq split: if_splits)
    then have body: "vm_fuel vm1 \<le> vm_fuel vm" "vm_fuel (snd (run n ip av b (k + 1) (vm1\<lparr>vm_regs := regs\<rparr>))) \<le> vm_fuel vm" for regs
      using le Suc.IH [of av b "k + 1" "vm1\<lparr>vm_regs := regs\<rparr>"] by auto
    obtain out vm2 where t: "exec_terminator ip av (bk_terminator b) ?vm = (out, vm2)" by fastforce
    then have "vm_fuel vm2 = fuel" using exec_terminator_fuel [of ip av "bk_terminator b" ?vm] by simp
    then have next_block: "vm_fuel vm2 \<le> vm_fuel vm" "vm_fuel (snd (run n ip av c 0 (vm2\<lparr>vm_regs := regs\<rparr>))) \<le> vm_fuel vm" for c regs
      using le Suc.IH [of av c 0 "vm2\<lparr>vm_regs := regs\<rparr>"] by auto
    show ?thesis using Inr res t body next_block
      by (auto simp: Let_def split: sum.splits vm_step.splits transfer.splits prod.splits)
  qed (simp add: Let_def)
qed simp

text \<open>A clock above the fuel never runs out.\<close>

lemma run_clock: "unat (vm_fuel vm) < n \<Longrightarrow> fst (run n ip av b k vm) \<noteq> ClockOut"
proof (induction n arbitrary: av b k vm)
  case (Suc n)
  show ?case
  proof (cases "consume 1 (vm_fuel vm)")
    case (Inr fuel)
    let ?i = "bk_instructions b ! k" and ?vm = "vm\<lparr>vm_fuel := fuel\<rparr>" and ?go = "\<lambda>av b. run n ip av b 0"
    have lt: "unat fuel < n" using consume_unat [OF Inr] Suc.prems by auto
    obtain res vm1 where res: "(if in_op ?i = Op_CallPure then call_pure ip ?go av ?i ?vm
        else apfst Inl (exec_instruction ip av ?i ?vm)) = (res, vm1)" by fastforce
    have "vm_fuel vm1 \<le> fuel"
      using res call_pure_fuel [where go = ?go, OF run_fuel, of ip av ?i ?vm] exec_instruction_fuel [of ip av ?i ?vm]
      by (auto simp: apfst_eq split: if_splits)
    then have body: "fst (run n ip av b (k + 1) (vm1\<lparr>vm_regs := regs\<rparr>)) \<noteq> ClockOut" for regs
      using lt by (intro Suc.IH) (simp add: word_le_nat_alt)
    have "res \<noteq> Inr ClockOut"
      using res call_pure_clock [where go = ?go, of ?vm ip av ?i] Suc.IH lt by (auto simp: apfst_eq split: if_splits)
    moreover obtain out vm2 where t: "exec_terminator ip av (bk_terminator b) ?vm = (out, vm2)" by fastforce
    then have "vm_fuel vm2 = fuel" using exec_terminator_fuel [of ip av "bk_terminator b" ?vm] by simp
    then have next_block: "fst (run n ip av c 0 (vm2\<lparr>vm_regs := regs\<rparr>)) \<noteq> ClockOut" for c regs
      using lt by (intro Suc.IH) simp
    ultimately show ?thesis using Inr res t body next_block
      by (auto simp: Let_def split: sum.splits vm_step.splits transfer.splits prod.splits)
  qed (simp add: Let_def)
qed simp


text \<open>A larger clock gives the same run.\<close>

lemma call_pure_more:
  assumes go: "\<And>av b vm. fst (go av b vm) \<noteq> ClockOut \<Longrightarrow> go' av b vm = go av b vm"
    and ok: "fst (call_pure ip go av i vm) \<noteq> Inr ClockOut"
  shows "call_pure ip go' av i vm = call_pure ip go av i vm"
proof -
  have "go' av' b vm0 = go av' b vm0" if "returned_value (fst (go av' b vm0)) \<noteq> Inr ClockOut" for av' b vm0
    using go [of av' b vm0] that by (simp add: returned_clock)
  then show ?thesis using ok by (fastforce simp: call_pure_def split: vm_step.splits sum.splits prod.splits)
qed

lemma run_more: "fst (run n ip av b k vm) \<noteq> ClockOut \<Longrightarrow> run (n + m) ip av b k vm = run n ip av b k vm"
proof (induction n arbitrary: av b k vm)
  case (Suc n)
  show ?case
  proof (cases "consume 1 (vm_fuel vm)")
    case (Inr fuel)
    let ?i = "bk_instructions b ! k" and ?vm = "vm\<lparr>vm_fuel := fuel\<rparr>"
    let ?step = "\<lambda>n. if in_op ?i = Op_CallPure then call_pure ip (\<lambda>av b. run n ip av b 0) av ?i ?vm
        else apfst Inl (exec_instruction ip av ?i ?vm)"
    show ?thesis
    proof (cases "k < length (bk_instructions b)")
      case True
      obtain res vm1 where res: "?step n = (res, vm1)" by fastforce
      have "res \<noteq> Inr ClockOut" using Suc.prems True Inr res by (auto simp: Let_def)
      then have "?step (n + m) = (res, vm1)"
        using call_pure_more [of "\<lambda>av b. run n ip av b 0" "\<lambda>av b. run (n + m) ip av b 0"] Suc.IH res by auto
      then show ?thesis using Suc True Inr res
        by (auto simp: Let_def split: sum.splits vm_step.splits)
    next
      case False
      then show ?thesis using Suc Inr by (auto split: prod.splits vm_step.splits transfer.splits)
    qed
  qed (use Suc in \<open>simp add: Let_def\<close>)
qed simp

section \<open>Claims\<close>

lemma validate_typed_project: "validate p l = Inr q \<Longrightarrow> typed_project p (effective_limits l)"
  unfolding typed_project_def by (blast intro: validate_typed)

lemma execute_at_ok:
  assumes valid: "validate (ip_project ip) l = Inr q"
    and start: "\<And>pr b. enter ip i ctx args (vm_txn vm) (vm_world vm) start 0 False = Inr (pr, b) \<Longrightarrow> bk_id b \<in> segment_roots pr"
    and res: "execute_at ip i ctx args start vm = (r, vm')"
  shows "\<exists>x. r = Finished x \<and> (\<forall>s. x = Inr s \<longrightarrow>
    (\<exists>pr. last_program (ip_project ip) i = Some pr \<and> result_ok (ip_project ip) pr s))"
proof (cases "enter ip i ctx args (vm_txn vm) (vm_world vm) start 0 False")
  case (Inl e)
  then show ?thesis using res by (auto simp: execute_at_def abort_run_def)
next
  case (Inr prb)
  obtain pr b where prb: "prb = (pr, b)" by fastforce
  note e = Inr [unfolded prb]
  note proj = validate_typed_project [OF valid]
  obtain av vm0 where av: "activate i pr ctx 0 False b args vm = (av, vm0)" by fastforce
  from proj enter_ok(2) [OF e] obtain defs doms where typed: "typed_program (ip_project ip) (effective_limits l) pr defs doms"
    by (auto simp: typed_project_def)
  note a = activate_regs_ok [OF typed e start [OF e] av]
  have run: "run (unat (vm_fuel vm0) + 1) ip av b 0 vm0 = (r, vm')" using res e av by (simp add: execute_at_def)
  have "run_ok (ip_project ip) pr r"
    using run_safe [OF proj enter_ok(5) [OF e], of av defs doms b 0 vm0 "unat (vm_fuel vm0) + 1"] a typed run by simp
  moreover have "r \<noteq> ClockOut" using run_clock [of vm0 "unat (vm_fuel vm0) + 1" ip av b 0] run by simp
  ultimately show ?thesis using enter_ok(1) [OF e] by (auto simp: run_ok_def split: run_result.splits sum.splits)
qed

lemma bounded_segment_result:
  assumes "bounded_segment p i invoke vm = (r, vm')"
  obtains vm1 vm2 where "invoke vm1 = (r, vm2)" "vm_txn vm1 = vm_txn vm" "vm_world vm1 = vm_world vm"
    "vm_txn vm' = vm_txn vm2" "vm_world vm' = vm_world vm2"
  using assms by (auto simp: bounded_segment_def Let_def split: option.splits if_splits prod.splits)

lemma execute_segment_ok:
  assumes valid: "validate (ip_project ip) l = Inr q" and res: "execute_segment ip i ctx args vm = (r, vm')"
  shows "\<exists>x. r = Finished x \<and> (\<forall>s. x = Inr s \<longrightarrow>
    (\<exists>pr. last_program (ip_project ip) i = Some pr \<and> result_ok (ip_project ip) pr s))"
proof -
  from res obtain vm1 vm2 where at: "execute_at ip i ctx args None vm1 = (r, vm2)"
    unfolding execute_segment_def by (rule bounded_segment_result)
  show ?thesis by (rule execute_at_ok [OF valid enter_root at])
qed

text \<open>
  Claim C1. A segment of a validated project runs without an exception and without undefined
  behaviour, whatever the program, arguments, backend, state and fuel: it ends with a result or
  with an error that the interpreter raises on purpose.
\<close>

theorem validated_segment_safe:
  assumes "validate (ip_project ip) l = Inr q"
  shows "\<exists>res vm'. execute_segment ip i ctx args vm = (Finished res, vm')"
  using execute_segment_ok [OF assms] by (metis surj_pair)

theorem validated_segment_safe_witness:
  "\<exists>res vm'. execute_segment sample_interpreter 1 (sample_context CK_Timed) [VU64 200] (sample_vm CK_Timed) = (Finished res, vm')"
  by (rule validated_segment_safe [OF sample_valid])

text \<open>
  Claim C7. The interpreter ends, also on programs that were not validated: with a clock above the
  fuel every run finishes, and a larger clock gives the same run.
\<close>

theorem interpreter_terminates:
  "fst (run (unat (vm_fuel vm) + 1 + m) ip av b k vm) \<noteq> ClockOut \<and>
   run (unat (vm_fuel vm) + 1 + m) ip av b k vm = run (unat (vm_fuel vm) + 1) ip av b k vm"
  using run_clock [of vm "unat (vm_fuel vm) + 1 + m" ip av b k] run_clock [of vm "unat (vm_fuel vm) + 1" ip av b k]
    run_more [of "unat (vm_fuel vm) + 1" ip av b k vm m] by simp

text \<open>
  Claim C29. The values that a segment of a validated project returns have the result types of its
  program.
\<close>

theorem segment_results_typed:
  assumes "validate (ip_project ip) l = Inr q"
    and "execute_segment ip i ctx args vm = (Finished (Inr s), vm')" "sr_kind s \<in> {Returned, TransportReturned}"
  shows "\<exists>pr. last_program (ip_project ip) i = Some pr \<and>
    list_all2 (conforms 64 (ip_project ip)) (pg_result_types pr) (sr_values s)"
  using execute_segment_ok [OF assms(1,2)] assms(3) by (auto simp: result_ok_def)

theorem segment_results_typed_witness:
  "\<exists>pr. last_program sample_project 1 = Some pr \<and> list_all2 (conforms 64 sample_project) (pg_result_types pr) [VU64 144]"
  using segment_results_typed [OF sample_valid sample_segments(1)] by (simp add: sample_result_def sample_interpreter_def)

text \<open>
  Claim C9. A segment that suspends can be resumed: at the block it names, with the live values it
  saved and a wait result of the type of the block's first parameter, the arguments pass the
  entry check (over bound state), and the resumed segment is safe.
\<close>

theorem suspended_segment_resumes:
  assumes valid: "validate (ip_project ip) l = Inr q"
    and seg: "execute_segment ip i ctx args vm = (Finished (Inr s), vm')" "sr_kind s = Suspended"
  shows "\<exists>pr b. last_program (ip_project ip) i = Some pr \<and> find_block pr (sr_resume_block s) = Some b \<and> bk_parameters b \<noteq> [] \<and>
    (\<forall>w world. conforms 64 (ip_project ip) (rg_type (hd (bk_parameters b))) w \<and>
       list_all2 (state_bound (ip_project ip) world) (pj_state_types (ip_project ip)) (ip_state ip) \<longrightarrow>
       check_entry ip pr (w # sr_live_values s) world (Some (sr_resume_block s)) = Inr b) \<and>
    (\<forall>args ctx vm. \<exists>res vm'. execute_at ip i ctx args (Some (sr_resume_block s)) vm = (Finished res, vm'))"
proof -
  from execute_segment_ok [OF valid seg(1)] seg(2) obtain pr b where pr: "last_program (ip_project ip) i = Some pr"
    and b: "find_block pr (sr_resume_block s) = Some b" and root: "sr_resume_block s \<in> segment_roots pr"
    and ps: "bk_parameters b \<noteq> []"
    and live: "list_all2 (conforms 64 (ip_project ip)) (map rg_type (tl (bk_parameters b))) (sr_live_values s)"
    by (auto simp: result_ok_def)
  have "pr \<in> set (pj_programs (ip_project ip))" using pr by (auto simp: last_program_def dest: find_SomeD)
  with validate_typed [OF valid] obtain defs doms where typed: "typed_program (ip_project ip) (effective_limits l) pr defs doms"
    by blast
  have entry: "check_entry ip pr (w # sr_live_values s) world (Some (sr_resume_block s)) = Inr b"
    if "conforms 64 (ip_project ip) (rg_type (hd (bk_parameters b))) w"
      "list_all2 (state_bound (ip_project ip) world) (pj_state_types (ip_project ip)) (ip_state ip)" for w world
  proof -
    have "list_all2 (\<lambda>r v. conforms 64 (ip_project ip) (rg_type r) v) (bk_parameters b) (w # sr_live_values s)"
      using that(1) live ps by (cases "bk_parameters b") (simp_all add: conforms_map_types)
    moreover from this have "length (w # sr_live_values s) = length (bk_parameters b)" by (simp add: list_all2_lengthD)
    moreover have "find (\<lambda>b. bk_id b = sr_resume_block s) (rev (pg_blocks pr)) = Some b"
      using find_rev_block [OF typed] b by simp
    ultimately show ?thesis using that(2) list_all2_lengthD [OF that(2)] by (simp add: check_entry_def)
  qed
  have safe: "\<exists>res vm'. execute_at ip i ctx args (Some (sr_resume_block s)) vm = (Finished res, vm')" for args ctx vm
  proof -
    obtain r vm1 where r: "execute_at ip i ctx args (Some (sr_resume_block s)) vm = (r, vm1)" by fastforce
    have "bk_id c \<in> segment_roots pr'"
      if "enter ip i ctx args (vm_txn vm) (vm_world vm) (Some (sr_resume_block s)) 0 False = Inr (pr', c)" for pr' c
      using enter_ok(1,3) [OF that] pr root by (auto dest!: find_SomeD)
    from execute_at_ok [OF valid this r] r show ?thesis by auto
  qed
  show ?thesis using pr b ps entry safe by blast
qed

theorem suspended_segment_resumes_witness:
  "\<exists>res vm'. execute_at sample_interpreter 0 (sample_context CK_Process) [VU64 7, VU64 144] (Some 1) (sample_vm CK_Process) =
     (Finished res, vm')"
  using suspended_segment_resumes [OF sample_valid sample_segments(2)] by (simp add: sample_result_def) blast

lemma execute_at_fuel: "vm_fuel (snd (execute_at ip i ctx args start vm)) \<le> vm_fuel vm"
proof (cases "enter ip i ctx args (vm_txn vm) (vm_world vm) start 0 False")
  case (Inr prb)
  obtain pr b where prb: "prb = (pr, b)" by fastforce
  obtain av vm0 where av: "activate i pr ctx 0 False b args vm = (av, vm0)" by fastforce
  then have "vm_fuel vm0 = vm_fuel vm" by (auto simp: activate_def)
  then show ?thesis using run_fuel [of "unat (vm_fuel vm0) + 1" ip av b 0 vm0]
    by (simp add: execute_at_def Inr prb av del: run.simps)
qed (simp add: execute_at_def)

text \<open>
  A segment never uses more fuel than it is given, and a program with its own fuel limit
  never more than that.
\<close>

theorem segment_fuel_bound:
  assumes "execute_segment ip i ctx args vm = (r, vm')"
  shows "vm_fuel vm' \<le> vm_fuel vm \<and>
    (\<forall>pr. last_program (ip_project ip) i = Some pr \<and> pj_schema_major (ip_project ip) \<ge> 5 \<and> pg_instruction_fuel pr \<noteq> 0 \<longrightarrow>
       vm_fuel vm - vm_fuel vm' \<le> pg_instruction_fuel pr)"
proof -
  let ?go = "execute_at ip i ctx args None"
  show ?thesis
  proof (cases "\<exists>pr. last_program (ip_project ip) i = Some pr \<and> pj_schema_major (ip_project ip) \<ge> 5 \<and> pg_instruction_fuel pr \<noteq> 0")
    case False
    then have "?go vm = (r, vm')"
      using assms by (auto simp: execute_segment_def bounded_segment_def split: option.splits if_splits)
    then show ?thesis using execute_at_fuel [of ip i ctx args None vm] False by auto
  next
    case True
    then obtain pr where pr: "last_program (ip_project ip) i = Some pr" "pj_schema_major (ip_project ip) \<ge> 5"
      "pg_instruction_fuel pr \<noteq> 0" by blast
    define a where "a = min (vm_fuel vm) (pg_instruction_fuel pr)"
    obtain r1 vm1 where go: "?go (vm\<lparr>vm_fuel := a\<rparr>) = (r1, vm1)" by fastforce
    then have le: "vm_fuel vm1 \<le> a" using execute_at_fuel [of ip i ctx args None "vm\<lparr>vm_fuel := a\<rparr>"] by simp
    have vm': "vm_fuel vm' = vm_fuel vm - (a - vm_fuel vm1)"
      using assms pr go by (auto simp: execute_segment_def bounded_segment_def a_def Let_def)
    have "a \<le> vm_fuel vm" "a \<le> pg_instruction_fuel pr" by (simp_all add: a_def)
    then show ?thesis using pr le unfolding vm'
      by (auto simp: word_le_nat_alt unat_sub)
  qed
qed


theorem segment_fuel_bound_witness: "vm_fuel (snd sample_call) \<le> 9"
  using segment_fuel_bound [OF sample_segments(1)] by (simp add: sample_vm_def)

end
