(* ===== verification/Interpreter_Txn.thy ===== *)
theory Interpreter_Txn
  imports Interpreter_Props
begin

text \<open>
  What a segment does to its transaction: it buffers, and a segment that ends in an error or in
  \<open>Fail\<close> discards everything it prepared.
\<close>

section \<open>The transaction\<close>

definition txn_open :: "event_txn \<Rightarrow> bool" where
  "txn_open t \<longleftrightarrow> \<not> et_closed t \<and> \<not> et_committed t"

text \<open>A discarded segment: closed, with nothing left to apply.\<close>

definition txn_clean :: "event_txn \<Rightarrow> bool" where
  "txn_clean t \<longleftrightarrow> et_closed t \<and> \<not> et_committed t \<and> et_writes t = [] \<and> et_actions t = [] \<and> et_events t = [] \<and>
     et_cancels t = [] \<and> et_participants t = []"

text \<open>
  What the header asks of a backend: its operations only prepare effects through the transaction.
  They leave it open and leave the cells alone.
\<close>

definition backend_prepares :: "'x backend \<Rightarrow> bool" where
  "backend_prepares be \<longleftrightarrow>
     (\<forall>s vs ctx t w r t' w'. txn_open t \<and> be_invoke be s vs ctx t w = (r, t', w') \<longrightarrow>
        txn_open t' \<and> w_cells w' = w_cells w) \<and>
     (\<forall>h b vs ty ctx t w r t' w'. txn_open t \<and> be_prepare_suspend be h b vs ty ctx t w = (r, t', w') \<longrightarrow>
        txn_open t' \<and> w_cells w' = w_cells w)"

lemma backend_prepares_simps:
  assumes "backend_prepares be" "txn_open t"
  shows "be_invoke be s vs ctx t w = (r, t', w') \<Longrightarrow> txn_open t' \<and> w_cells w' = w_cells w"
    and "be_prepare_suspend be h b vs ty ctx t w = (r', t', w') \<Longrightarrow> txn_open t' \<and> w_cells w' = w_cells w"
  using assms unfolding backend_prepares_def by blast+

definition surroundings_ok :: "'x interpreter \<Rightarrow> bool" where
  "surroundings_ok ip \<longleftrightarrow> (\<forall>be. ip_backend ip = Some be \<longrightarrow> backend_prepares be) \<and>
     (\<forall>p w. w_cells (po_discard (ip_ops ip) p w) = w_cells w)"

definition same_cells :: "'x vm \<Rightarrow> 'x vm \<Rightarrow> bool" where
  "same_cells vm vm' \<longleftrightarrow> w_cells (vm_world vm') = w_cells (vm_world vm)"

lemma discard_clean:
  assumes "surroundings_ok ip" "txn_open (vm_txn vm) \<or> txn_clean (vm_txn vm)"
  shows "txn_clean (vm_txn (vm_discard ip vm))" "w_cells (vm_world (vm_discard ip vm)) = w_cells (vm_world vm)"
proof -
  have ps: "w_cells (fold (po_discard (ip_ops ip)) ps w) = w_cells w" for ps and w :: "'a world"
    using assms(1) by (induction ps arbitrary: w) (simp_all add: surroundings_ok_def)
  have es: "w_cells (destroy_events es w) = w_cells w" for es and w :: "'a world"
    unfolding destroy_events_def by (induction es arbitrary: w) (auto simp: set_queue_def split: option.splits)
  show "txn_clean (vm_txn (vm_discard ip vm))" "w_cells (vm_world (vm_discard ip vm)) = w_cells (vm_world vm)"
    using assms(2) by (auto simp: vm_discard_def et_discard_def txn_open_def txn_clean_def es ps discard_participants_def
        split: prod.splits)
qed


lemma same_cells_simps [simp]: "same_cells vm vm"
  by (simp add: same_cells_def)

lemma same_cells_trans: "same_cells a b \<Longrightarrow> same_cells b c \<Longrightarrow> same_cells a c"
  by (simp add: same_cells_def)

lemma et_buffer_open: "et_buffer pf w c v t = (r, t') \<Longrightarrow> txn_open t \<Longrightarrow> txn_open t'"
  by (auto simp: et_buffer_def txn_open_def Let_def split: option.splits if_splits)

lemma exec_instruction_txn:
  assumes ok: "surroundings_ok ip" and op: "txn_open (vm_txn vm)"
  shows "txn_open (vm_txn (snd (exec_instruction ip av i vm))) \<and> same_cells vm (snd (exec_instruction ip av i vm))"
proof -
  have state: "txn_open (vm_txn (snd (exec_state ip i vm))) \<and> same_cells vm (snd (exec_state ip i vm))"
  proof (cases "in_op i = Op_LoadState")
    case False
    show ?thesis
    proof (cases "and_then (state_cell ip i) (\<lambda>c. and_then (arg (vm_regs vm) i 0) (\<lambda>v. Fine (c, v)))")
      case (Fine cv)
      obtain c v where cv: "cv = (c, v)" by fastforce
      obtain r t' where b: "et_buffer (ip_platform ip) (vm_world vm) c v (vm_txn vm) = (r, t')" by fastforce
      from et_buffer_open [OF b op] show ?thesis by (simp add: exec_state_def False Fine cv b same_cells_def)
    qed (simp_all add: exec_state_def False op)
  qed (simp add: exec_state_def op)
  have trace: "txn_open (vm_txn (snd (exec_trace ip ctx i vm))) \<and> same_cells vm (snd (exec_trace ip ctx i vm))" for ctx
    using op by (auto simp: exec_trace_def same_cells_def split: vm_step.splits)
  have "txn_open t' \<and> w_cells w' = w_cells (vm_world vm)"
    if "ip_backend ip = Some be" "be_invoke be s vs ctx (vm_txn vm) (vm_world vm) = (r, t', w')" for be s vs ctx r t' w'
    using backend_prepares_simps(1) [OF _ op that(2)] ok that(1) by (simp add: surroundings_ok_def)
  then have service: "txn_open (vm_txn (snd (exec_service ip av i vm))) \<and> same_cells vm (snd (exec_service ip av i vm))"
    using op by (auto simp: exec_service_def same_cells_def Let_def split: option.splits sum.splits vm_step.splits prod.splits)
  show ?thesis using op state trace service by (simp add: exec_instruction_def)
qed

text \<open>How a segment leaves its transaction, by its outcome.\<close>

definition txn_after :: "run_result \<Rightarrow> event_txn \<Rightarrow> bool" where
  "txn_after r t =
     (case r of
        Finished (Inl _) \<Rightarrow> txn_clean t
      | Finished (Inr s) \<Rightarrow> (if sr_kind s = Failed then txn_clean t else txn_open t)
      | Caught _ _ \<Rightarrow> txn_clean t
      | _ \<Rightarrow> True)"

definition run_txn :: "'x vm \<Rightarrow> run_result \<times> 'x vm \<Rightarrow> bool" where
  "run_txn vm res \<longleftrightarrow> txn_after (fst res) (vm_txn (snd res)) \<and> same_cells vm (snd res)"

lemma abort_txn:
  assumes "surroundings_ok ip" "txn_open (vm_txn vm1) \<or> txn_clean (vm_txn vm1)" "same_cells vm vm1"
  shows "run_txn vm (abort_run ip loc e vm1)" "run_txn vm (catch_run ip x vm1)"
    "run_txn vm (Caught y err, vm_discard ip vm1)"
  using discard_clean [OF assms(1,2)] assms(3)
  by (simp_all add: run_txn_def abort_run_def catch_run_def txn_after_def same_cells_def)

text \<open>After a call: open when it gives a value, else open or discarded.\<close>

definition call_txn :: "value_t vm_step + run_result \<Rightarrow> event_txn \<Rightarrow> bool" where
  "call_txn res t =
     (case res of
        Inl (Fine _) \<Rightarrow> txn_open t
      | Inl _ \<Rightarrow> txn_open t \<or> txn_clean t
      | Inr r \<Rightarrow> txn_after r t)"

lemma returned_txn: "txn_after r t \<Longrightarrow> call_txn (returned_value r) t"
  by (auto simp: txn_after_def call_txn_def returned_value_def stop_def split: run_result.splits sum.splits if_splits)

lemma call_pure_txn:
  assumes ok: "surroundings_ok ip" and op: "txn_open (vm_txn vm)"
    and go: "\<And>av b vm'. txn_open (vm_txn vm') \<Longrightarrow> run_txn vm' (go av b vm')"
  shows "call_txn (fst (call_pure ip go av i vm)) (vm_txn (snd (call_pure ip go av i vm))) \<and>
    same_cells vm (snd (call_pure ip go av i vm))"
proof -
  have callee: "call_txn (returned_value r) (vm_txn vm') \<and> same_cells vm vm'"
    if "activate j pr ctx d True b args vm = (av', vm0)" "go av' b vm0 = (r, vm')" for j pr ctx d b args av' vm0 r vm'
  proof -
    have "vm_txn vm0 = vm_txn vm" "vm_world vm0 = vm_world vm" using that(1) by (auto simp: activate_def)
    then show ?thesis using go [of vm0 av' b] op that(2) returned_txn by (auto simp: run_txn_def same_cells_def)
  qed
  have "call_txn (Inl (Abort e)) (vm_txn (vm_discard ip vm)) \<and> same_cells vm (vm_discard ip vm)" for e
    using discard_clean [OF ok] op by (simp add: call_txn_def same_cells_def)
  moreover have "call_txn (Inl m) (vm_txn vm)" for m using op by (auto simp: call_txn_def split: vm_step.splits)
  ultimately show ?thesis using callee
    by (auto simp: call_pure_def same_cells_def split: vm_step.splits sum.splits prod.splits)
qed

lemma exec_suspend_txn:
  assumes ok: "surroundings_ok ip" and op: "txn_open (vm_txn vm)" and t: "exec_suspend ip av t vm = (out, vm')"
  shows "same_cells vm vm' \<and> txn_open (vm_txn vm') \<and> (\<forall>x. out = Fine x \<longrightarrow> (\<exists>s. x = Halt s \<and> sr_kind s = Suspended))"
proof -
  have prepare: "txn_open t' \<and> w_cells w' = w_cells (vm_world vm)"
    if "ip_backend ip = Some be" "be_prepare_suspend be h b vs ty ctx (vm_txn vm) (vm_world vm) = (r, t', w')"
    for be h b vs ty ctx r t' w'
    using backend_prepares_simps(2) [OF _ op that(2)] ok that(1) by (simp add: surroundings_ok_def)
  show ?thesis
  proof (cases "ip_backend ip")
    case None
    then show ?thesis using op t by (auto simp: exec_suspend_def)
  next
    case (Some be)
    show ?thesis
    proof (cases "suspend_args (av_program av) t (vm_regs vm)")
      case (Fine x)
      obtain h vs ty where x: "x = (h, vs, ty)" by (cases x) auto
      obtain r t' w' where p: "be_prepare_suspend be h (eg_target (tr_yes t)) vs ty (av_context av) (vm_txn vm) (vm_world vm) = (r, t', w')"
        by (metis surj_pair)
      have "out = and_then (of_expected r) (\<lambda>_. Fine (Halt ((segment_of Suspended av (vm\<lparr>vm_txn := t', vm_world := w'\<rparr>))
          \<lparr>sr_suspended_wait := Some h, sr_resume_block := eg_target (tr_yes t), sr_live_values := vs\<rparr>)))"
        "vm' = vm\<lparr>vm_txn := t', vm_world := w'\<rparr>"
        using t by (auto simp: exec_suspend_def Some Fine x p Let_def)
      then show ?thesis using prepare [OF Some p] by (auto simp: and_then_Fine same_cells_def segment_of_def)
    qed (use op t in \<open>auto simp: exec_suspend_def Some\<close>)
  qed
qed

lemma exec_terminator_txn:
  assumes ok: "surroundings_ok ip" and op: "txn_open (vm_txn vm)" and t: "exec_terminator ip av t vm = (out, vm')"
  shows "same_cells vm vm' \<and> (case out of Fine (Halt s) \<Rightarrow> txn_after (Finished (Inr s)) (vm_txn vm') | _ \<Rightarrow> txn_open (vm_txn vm'))"
proof -
  show ?thesis
  proof (cases "tr_kind t = TermSuspend")
    case True
    then have "exec_suspend ip av t vm = (out, vm')" using t by (simp add: exec_terminator_def Let_def)
    from exec_suspend_txn [OF ok op this] show ?thesis by (auto simp: txn_after_def split: vm_step.splits transfer.splits)
  next
    case running: False
    show ?thesis
    proof (cases "tr_kind t = TermFail")
      case True
      then show ?thesis using t op discard_clean [OF ok]
        by (auto simp: exec_terminator_def Let_def txn_after_def segment_of_def same_cells_def)
    next
      case False
      have "vm' = vm" using t running False by (cases "tr_kind t") (simp_all add: exec_terminator_def Let_def)
      moreover have "sr_kind s \<noteq> Failed" if "out = Fine (Halt s)" for s
        using t running False that
        by (cases "tr_kind t") (auto simp: exec_terminator_def Let_def and_then_Fine segment_of_def)
      ultimately show ?thesis using op by (auto simp: txn_after_def split: vm_step.splits transfer.splits)
    qed
  qed
qed


lemma run_txn_step:
  "run_txn vm1 res \<Longrightarrow> same_cells vm vm1 \<Longrightarrow> run_txn vm res"
  by (auto simp: run_txn_def intro: same_cells_trans)

lemma run_instruction_txn:
  assumes ok: "surroundings_ok ip" and op: "txn_open (vm_txn vm)"
    and IH: "\<And>av b k vm. txn_open (vm_txn vm) \<Longrightarrow> run_txn vm (run n ip av b k vm)" and k: "k < length (bk_instructions b)"
  shows "run_txn vm (run (Suc n) ip av b k vm)"
proof (cases "consume 1 (vm_fuel vm)")
  case (Inl e)
  then show ?thesis using k abort_txn(1) [OF ok, of vm vm] op by (simp add: Let_def)
next
  case (Inr fuel)
  let ?i = "bk_instructions b ! k" and ?vm = "vm\<lparr>vm_fuel := fuel\<rparr>" and ?go = "\<lambda>av b. run n ip av b 0"
  obtain res vm1 where res: "(if in_op ?i = Op_CallPure then call_pure ip ?go av ?i ?vm
      else apfst Inl (exec_instruction ip av ?i ?vm)) = (res, vm1)" by fastforce
  have "call_txn res (vm_txn vm1) \<and> same_cells vm vm1"
  proof (cases "in_op ?i = Op_CallPure")
    case True
    then show ?thesis using call_pure_txn [OF ok, of ?vm ?go av ?i] op IH res by (simp add: same_cells_def)
  next
    case False
    then show ?thesis using exec_instruction_txn [OF ok, of ?vm av ?i] op res
      by (auto simp: apfst_eq same_cells_def call_txn_def split: vm_step.splits)
  qed
  then have txn: "call_txn res (vm_txn vm1)" and cells: "same_cells vm vm1" by auto
  show ?thesis
  proof (cases res)
    case r: (Inr r)
    then have "run_txn vm (pass_on ip (instruction_location av b ?i) r vm1)"
      using txn cells abort_txn(3) [OF ok _ cells]
      by (auto simp: pass_on_def call_txn_def txn_after_def run_txn_def split: run_result.splits sum.splits if_splits)
    then show ?thesis using k Inr res r by (simp add: Let_def)
  next
    case out: (Inl out)
    have live: "txn_open (vm_txn vm1) \<or> txn_clean (vm_txn vm1)"
      using txn out by (auto simp: call_txn_def split: vm_step.splits)
    have "run_txn vm (run n ip av b (k + 1) (vm1\<lparr>vm_regs := regs\<rparr>))"
      if "and_then out (\<lambda>v. store_out (ip_project ip) ?i v (vm_regs vm1)) = Fine regs" for regs
    proof -
      have "txn_open (vm_txn vm1)" using that txn out by (auto simp: and_then_Fine call_txn_def)
      then show ?thesis using IH [of "vm1\<lparr>vm_regs := regs\<rparr>" av b "k + 1"] cells by (simp add: run_txn_def same_cells_def)
    qed
    moreover have "run_txn vm (UndefinedBehaviour, vm1)" using cells by (simp add: run_txn_def txn_after_def)
    ultimately show ?thesis using k Inr res out abort_txn(1,2) [OF ok live cells] by (simp add: Let_def split: vm_step.splits)
  qed
qed

lemma run_terminator_txn:
  assumes ok: "surroundings_ok ip" and op: "txn_open (vm_txn vm)"
    and IH: "\<And>av b k vm. txn_open (vm_txn vm) \<Longrightarrow> run_txn vm (run n ip av b k vm)" and k: "\<not> k < length (bk_instructions b)"
  shows "run_txn vm (run (Suc n) ip av b k vm)"
proof (cases "consume 1 (vm_fuel vm)")
  case (Inl e)
  then show ?thesis using k abort_txn(1) [OF ok, of vm vm] op by simp
next
  case (Inr fuel)
  let ?vm = "vm\<lparr>vm_fuel := fuel\<rparr>"
  obtain out vm1 where t: "exec_terminator ip av (bk_terminator b) ?vm = (out, vm1)" by fastforce
  from exec_terminator_txn [OF ok _ t] op have cells: "same_cells vm vm1"
    and txn: "case out of Fine (Halt s) \<Rightarrow> txn_after (Finished (Inr s)) (vm_txn vm1) | _ \<Rightarrow> txn_open (vm_txn vm1)"
    by (auto simp: same_cells_def)
  have ub: "run_txn vm (UndefinedBehaviour, vm1)" using cells by (simp add: run_txn_def txn_after_def)
  show ?thesis
  proof (cases "\<exists>s. out = Fine (Halt s)")
    case True
    then show ?thesis using k Inr t txn cells by (auto simp: run_txn_def)
  next
    case False
    then have op1: "txn_open (vm_txn vm1)" using txn by (auto split: vm_step.splits transfer.splits)
    note ends = abort_txn(1,2) [OF ok disjI1 [OF op1] cells]
    have "run_txn vm (run n ip av c 0 (vm1\<lparr>vm_regs := regs\<rparr>))" for c regs
      using IH [of "vm1\<lparr>vm_regs := regs\<rparr>" av c 0] op1 cells by (simp add: run_txn_def same_cells_def)
    then show ?thesis using k Inr t False ends ub
      by (auto split: vm_step.splits transfer.splits prod.splits)
  qed
qed

lemma run_txn_ok: "surroundings_ok ip \<Longrightarrow> txn_open (vm_txn vm) \<Longrightarrow> run_txn vm (run n ip av b k vm)"
proof (induction n arbitrary: av b k vm)
  case 0
  then show ?case by (simp add: run_txn_def txn_after_def)
next
  case (Suc n)
  show ?case
    by (cases "k < length (bk_instructions b)")
      (rule run_instruction_txn run_terminator_txn, use Suc in \<open>simp_all del: run.simps\<close>)+
qed

lemma execute_at_txn:
  assumes ok: "surroundings_ok ip" and op: "txn_open (vm_txn vm)"
  shows "run_txn vm (execute_at ip i ctx args start vm)"
proof (cases "enter ip i ctx args (vm_txn vm) (vm_world vm) start 0 False")
  case (Inl e)
  then show ?thesis using abort_txn(1) [OF ok, of vm vm] op by (simp add: execute_at_def)
next
  case (Inr prb)
  obtain pr b where prb: "prb = (pr, b)" by fastforce
  obtain av vm0 where av: "activate i pr ctx 0 False b args vm = (av, vm0)" by fastforce
  then have "vm_txn vm0 = vm_txn vm" "vm_world vm0 = vm_world vm" by (auto simp: activate_def)
  then show ?thesis using run_txn_ok [OF ok, of vm0 "unat (vm_fuel vm0) + 1" av b 0] op
    by (simp add: execute_at_def Inr prb av run_txn_def same_cells_def del: run.simps)
qed

text \<open>
  Claim C10. Over a backend that only prepares effects, a segment never writes a cell. When it ends in
  an error, or the program fails, the transaction is closed with every write, action, event,
  cancellation and participant dropped; when it returns or suspends, the transaction is still
  open.
\<close>

theorem segment_transaction:
  assumes "surroundings_ok ip" "txn_open (vm_txn vm)"
    and "execute_segment ip i ctx args vm = (Finished res, vm')"
  shows "w_cells (vm_world vm') = w_cells (vm_world vm) \<and>
    (case res of
       Inl _ \<Rightarrow> txn_clean (vm_txn vm')
     | Inr s \<Rightarrow> if sr_kind s = Failed then txn_clean (vm_txn vm') else txn_open (vm_txn vm'))"
proof -
  from assms(3) obtain vm1 vm2 where "execute_at ip i ctx args None vm1 = (Finished res, vm2)"
    and eq: "vm_txn vm1 = vm_txn vm" "vm_world vm1 = vm_world vm" "vm_txn vm' = vm_txn vm2" "vm_world vm' = vm_world vm2"
    unfolding execute_segment_def by (rule bounded_segment_result)
  with execute_at_txn [OF assms(1), of vm1 i ctx args None] assms(2)
  have "txn_after (Finished res) (vm_txn vm2)" "same_cells vm1 vm2" by (simp_all add: run_txn_def)
  then show ?thesis by (simp add: txn_after_def same_cells_def eq split: sum.splits)
qed


lemma sample_surroundings: "surroundings_ok sample_interpreter"
  by (auto simp: surroundings_ok_def sample_interpreter_def backend_prepares_def sample_backend_def sample_participants_def)

theorem segment_transaction_witness:
  "w_cells (vm_world (snd sample_call)) 0 = sample_cell \<and> txn_open (vm_txn (snd sample_call))"
  using segment_transaction [OF sample_surroundings _ sample_segments(1)]
  by (simp add: sample_vm_def sample_result_def txn_open_def EventTxn_new_def)

end
