(* ===== verification/Metadata_Props.thy ===== *)
theory Metadata_Props
  imports Exec_Flow Exec_Sample
begin

text \<open>
  What validated metadata promises about a system: every program has one owner and touches only
  the state of its owner, endpoint slots are bound once and to a matching partner, and the
  address maps of a decoder overlap only where both sides declare it.
\<close>

section \<open>Instances\<close>

definition state_range :: "instance_desc \<Rightarrow> nat set" where
  "state_range i = {unat (ins_state_base i) ..< unat (ins_state_base i) + unat (ins_state_count i)}"

lemma cover_states_ok:
  "cover_states p k ss cov = Some cov' \<Longrightarrow> k + length ss \<le> length cov \<Longrightarrow>
   length cov' = length cov \<and> (\<forall>x < length cov. cov' ! x = (cov ! x \<or> x \<in> {k ..< k + length ss})) \<and>
   (\<forall>x \<in> {k ..< k + length ss}. \<not> cov ! x)"
proof (induction ss arbitrary: k cov)
  case (Cons s ss)
  from Cons.prems(1) have free: "\<not> cov ! k" and rec: "cover_states p (k + 1) ss (cov[k := True]) = Some cov'"
    by (auto split: if_splits)
  have "k + 1 + length ss \<le> length (cov[k := True])" using Cons.prems(2) by simp
  from Cons.IH [OF rec this] have ih: "length cov' = length cov"
    "\<forall>x < length cov. cov' ! x = (cov[k := True] ! x \<or> x \<in> {k + 1 ..< k + 1 + length ss})"
    "\<forall>x \<in> {k + 1 ..< k + 1 + length ss}. \<not> cov[k := True] ! x" by simp_all
  have "cov' ! x = (cov ! x \<or> x \<in> {k ..< k + length (s # ss)})" if "x < length cov" for x
    using ih(2) that by (cases "x = k") (auto simp: nth_list_update)
  moreover have "\<not> cov ! x" if "x \<in> {k ..< k + length (s # ss)}" for x
    using ih(3) free that by (cases "x = k") (auto simp: nth_list_update)
  ultimately show ?case using ih(1) by simp
qed auto

lemma check_accesses_ok: "check_accesses mx i is work = Inr work' \<Longrightarrow> \<forall>ins \<in> set is. state_access_ok i ins"
  by (induction "is" arbitrary: work) (auto simp: bad_def split: if_splits)

text \<open>A handler that passed its check: its program exists and stays inside its instance.\<close>

definition handler_ok :: "project \<Rightarrow> instance_desc \<Rightarrow> handler_binding \<Rightarrow> bool" where
  "handler_ok p i h \<longleftrightarrow> (\<exists>pr. find_program p (hb_program_id h) = Some pr \<and> pg_context pr = hb_context h \<and>
     (\<forall>b \<in> set (pg_blocks pr). \<forall>ins \<in> set (bk_instructions b). state_access_ok i ins))"

lemma check_handlers_ok:
  "check_handlers p mx i locals hs work owned = Inr (work', owned') \<Longrightarrow>
   (\<forall>h \<in> set hs. handler_ok p i h) \<and> owned' = rev (map hb_program_id hs) @ owned \<and> (distinct owned \<longrightarrow> distinct owned')"
proof (induction hs arbitrary: locals work owned)
  case (Cons h hs)
  then obtain pr w1 where new: "hb_program_id h \<notin> set owned" and pr: "find_program p (hb_program_id h) = Some pr"
    and h: "check_handler p mx i h pr (work + 1) = Inr w1"
    and rest: "check_handlers p mx i (handler_key h # locals) hs w1 (hb_program_id h # owned) = Inr (work', owned')"
    by (auto simp: bad_def split: if_splits sum.splits)
  from h have "pg_context pr = hb_context h" and "\<exists>w. check_accesses mx i (concat (map bk_instructions (pg_blocks pr))) w = Inr w1"
    by (auto simp: check_handler_def bad_def split: if_splits)
  then have "handler_ok p i h" using pr check_accesses_ok unfolding handler_ok_def by fastforce
  with Cons.IH [OF rest] have all: "\<forall>x \<in> set (h # hs). handler_ok p i x" by simp
  have eq: "owned' = rev (map hb_program_id (h # hs)) @ owned" using Cons.IH [OF rest] by simp
  have "distinct owned \<longrightarrow> distinct owned'" using conjunct2 [OF conjunct2 [OF Cons.IH [OF rest]]] new by simp
  with all eq show ?case by blast
qed simp

definition instance_ok :: "project \<Rightarrow> instance_desc \<Rightarrow> bool" where
  "instance_ok p i \<longleftrightarrow> (\<forall>h \<in> set (ins_handlers i). handler_ok p i h) \<and>
     state_range i \<subseteq> {..< length (pj_state_types p)}"

lemma check_config_ok:
  "check_config p mx c i work = Inr work' \<Longrightarrow>
   unat (ins_state_count i) = length (cd_states c) \<and>
   unat (ins_state_base i) + length (cd_states c) \<le> length (pj_state_types p)"
  by (auto simp: check_config_def bad_def Let_def split: if_splits sum.splits)

lemma check_instances_Cons:
  assumes "check_instances p mx seen (i # is) work owned covered = Inr res"
  obtains c w1 cov1 w2 owned1 where "check_config p mx c i (work + 1) = Inr w1"
    "cover_states p (unat (ins_state_base i)) (cd_states c) covered = Some cov1"
    "check_handlers p mx i [] (ins_handlers i) w1 owned = Inr (w2, owned1)"
    "check_instances p mx (ins_id i # seen) is w2 owned1 cov1 = Inr res"
  using assms by (auto simp: bad_def split: if_splits sum.splits option.splits prod.splits)

text \<open>The programs of an instance, and that no two instances share one.\<close>

definition owned_by :: "instance_desc \<Rightarrow> u32 set" where
  "owned_by i = hb_program_id ` set (ins_handlers i)"

lemma check_instances_owned:
  "check_instances p mx seen is work owned covered = Inr (work', owned', covered') \<Longrightarrow> distinct owned \<Longrightarrow>
   distinct owned' \<and> set owned' = set owned \<union> (\<Union>i \<in> set is. owned_by i) \<and>
   (\<forall>i \<in> set is. (\<forall>h \<in> set (ins_handlers i). handler_ok p i h) \<and> owned_by i \<inter> set owned = {}) \<and>
   sorted_wrt (\<lambda>i j. owned_by i \<inter> owned_by j = {}) is"
proof (induction "is" arbitrary: seen work owned covered)
  case (Cons i "is")
  from Cons.prems(1) obtain c w1 cov1 w2 owned1 where hs: "check_handlers p mx i [] (ins_handlers i) w1 owned = Inr (w2, owned1)"
    and rest: "check_instances p mx (ins_id i # seen) is w2 owned1 cov1 = Inr (work', owned', covered')"
    by (rule check_instances_Cons)
  note one = check_handlers_ok [OF hs]
  have h: "\<forall>h \<in> set (ins_handlers i). handler_ok p i h" by (rule conjunct1 [OF one])
  have eq: "owned1 = rev (map hb_program_id (ins_handlers i)) @ owned" using one by blast
  have d: "distinct owned1" using one Cons.prems(2) by blast
  have set1: "set owned1 = owned_by i \<union> set owned" and new: "owned_by i \<inter> set owned = {}" using d unfolding eq by (auto simp: owned_by_def)
  have ih: "distinct owned'" "set owned' = owned_by i \<union> set owned \<union> (\<Union>j \<in> set is. owned_by j)"
    "\<forall>j \<in> set is. (\<forall>h \<in> set (ins_handlers j). handler_ok p j h) \<and> owned_by j \<inter> (owned_by i \<union> set owned) = {}"
    "sorted_wrt (\<lambda>i j. owned_by i \<inter> owned_by j = {}) is" using Cons.IH [OF rest d] by (simp_all add: set1)
  show ?case using ih h new by (auto simp: disjoint_iff)
qed simp

lemma check_instances_states:
  "check_instances p mx seen is work owned covered = Inr (work', owned', covered') \<Longrightarrow>
   length covered = length (pj_state_types p) \<Longrightarrow>
   length covered' = length covered \<and> (\<forall>i \<in> set is. state_range i \<subseteq> {..< length covered}) \<and>
   (\<forall>x < length covered. covered' ! x = (covered ! x \<or> (\<exists>i \<in> set is. x \<in> state_range i))) \<and>
   (\<forall>i \<in> set is. \<forall>x \<in> state_range i. \<not> covered ! x) \<and>
   sorted_wrt (\<lambda>i j. state_range i \<inter> state_range j = {}) is"
proof (induction "is" arbitrary: seen work owned covered)
  case (Cons i "is")
  from Cons.prems(1) obtain c w1 cov1 w2 owned1 where config: "check_config p mx c i (work + 1) = Inr w1"
    and cover: "cover_states p (unat (ins_state_base i)) (cd_states c) covered = Some cov1"
    and rest: "check_instances p mx (ins_id i # seen) is w2 owned1 cov1 = Inr (work', owned', covered')"
    by (rule check_instances_Cons)
  from check_config_ok [OF config] have range: "state_range i = {unat (ins_state_base i) ..< unat (ins_state_base i) + length (cd_states c)}"
    and le: "unat (ins_state_base i) + length (cd_states c) \<le> length covered"
    using Cons.prems(2) by (simp_all add: state_range_def)
  from cover_states_ok [OF cover le] have cov: "length cov1 = length covered"
    "\<forall>x < length covered. cov1 ! x = (covered ! x \<or> x \<in> state_range i)" "\<forall>x \<in> state_range i. \<not> covered ! x"
    unfolding range by auto
  have inside: "state_range i \<subseteq> {..< length covered}" using le by (auto simp: range)
  have "length cov1 = length (pj_state_types p)" using cov(1) Cons.prems(2) by simp
  from Cons.IH [OF rest this] have ih: "length covered' = length covered" "\<forall>j \<in> set is. state_range j \<subseteq> {..< length covered}"
    "\<forall>x < length covered. covered' ! x = (cov1 ! x \<or> (\<exists>j \<in> set is. x \<in> state_range j))"
    "\<forall>j \<in> set is. \<forall>x \<in> state_range j. \<not> cov1 ! x" "sorted_wrt (\<lambda>i j. state_range i \<inter> state_range j = {}) is"
    by (simp_all add: cov(1))
  have later: "x \<notin> state_range i \<and> \<not> covered ! x" if "j \<in> set is" "x \<in> state_range j" for j x
    using ih(2,4) cov(2) that by blast
  show ?case using ih cov inside later by (auto simp: disjoint_iff)
qed simp


section \<open>Bindings\<close>

text \<open>An endpoint slot of the system, with the descriptor of its component.\<close>

definition slot_endpoint :: "project \<Rightarrow> endpoint_ref \<Rightarrow> endpoint_desc option" where
  "slot_endpoint p r =
     (case find_instance p (er_instance_id r) of
        None \<Rightarrow> None
      | Some i \<Rightarrow> endpoint_at p (ins_definition i) (er_endpoint r))"

lemma meta_endpoint_ok:
  "meta_endpoint p mx r work = Some (work', e) \<Longrightarrow> slot_endpoint p r = Some e \<and> er_binding_index r < ep_max_bindings e"
  by (auto simp: meta_endpoint_def slot_endpoint_def split: option.splits if_splits)

definition binding_ok :: "project \<Rightarrow> binding_desc \<Rightarrow> bool" where
  "binding_ok p b \<longleftrightarrow> (\<exists>a z. slot_endpoint p (bd_source_endpoint b) = Some a \<and> slot_endpoint p (bd_sink_endpoint b) = Some z \<and>
     endpoints_match a z \<and> er_binding_index (bd_source_endpoint b) < ep_max_bindings a \<and>
     er_binding_index (bd_sink_endpoint b) < ep_max_bindings z)"

definition binding_slots :: "binding_desc list \<Rightarrow> endpoint_ref list" where
  "binding_slots bs = concat (map (\<lambda>b. [bd_source_endpoint b, bd_sink_endpoint b]) bs)"

lemma check_bindings_ok:
  "check_bindings p mx seen bs work used = Inr (work', used') \<Longrightarrow>
   (\<forall>b \<in> set bs. binding_ok p b) \<and> set used' = set used \<union> set (binding_slots bs) \<and>
   distinct (binding_slots bs) \<and> set (binding_slots bs) \<inter> set used = {}"
proof (induction bs arbitrary: seen work used)
  case (Cons b bs)
  then obtain w1 a w2 z where src: "meta_endpoint p mx (bd_source_endpoint b) (work + 1) = Some (w1, a)"
    and snk: "meta_endpoint p mx (bd_sink_endpoint b) w1 = Some (w2, z)" and m: "endpoints_match a z"
    and new: "bd_source_endpoint b \<notin> set used" "bd_sink_endpoint b \<notin> set (bd_source_endpoint b # used)"
    and rest: "check_bindings p mx (bd_id b # seen) bs w2 (bd_sink_endpoint b # bd_source_endpoint b # used) = Inr (work', used')"
    by (auto simp: bad_def split: if_splits option.splits)
  have "binding_ok p b" using meta_endpoint_ok [OF src] meta_endpoint_ok [OF snk] m by (auto simp: binding_ok_def)
  with Cons.IH [OF rest] new show ?case by (auto simp: binding_slots_def)
qed (simp add: binding_slots_def)

section \<open>Address maps\<close>

definition map_range :: "address_map_desc \<Rightarrow> nat set" where
  "map_range m = {unat (am_source_start m) ..< unat (am_source_start m) + unat (am_size m)}"

lemma map_range_end:
  assumes "map_range_ok m"
  shows "unat (am_source_start m + am_size m) = unat (am_source_start m) + unat (am_size m)"
proof -
  have "\<not> am_size m > UINT64_MAX - am_source_start m"
    using assms by (auto simp: map_range_ok_def checked_add_def split: if_splits)
  then have "unat (am_source_start m) + unat (am_size m) < 2 ^ 64"
    unfolding word_le_minus_iff_no_overflow by simp
  then show ?thesis using unat_add_lem [of "am_source_start m" "am_size m"] by simp
qed

lemma check_aliases_ok: "check_aliases mx m as work = Inr work' \<Longrightarrow> \<forall>a \<in> set as. \<not> maps_alias a m"
  by (induction as arbitrary: work) (auto simp: bad_def split: if_splits)

lemma check_maps_ok:
  "check_maps p mx used passed ms work = Inr work' \<Longrightarrow>
   (\<forall>m \<in> set ms. map_range_ok m \<and> map_output m \<in> set used \<and> (\<forall>a \<in> set passed. \<not> maps_alias a m)) \<and>
   sorted_wrt (\<lambda>a m. \<not> maps_alias a m) ms"
proof (induction ms arbitrary: passed work)
  case (Cons m ms)
  then obtain w1 e w2 where "map_range_ok m" "map_output m \<in> set used"
    and al: "check_aliases mx m passed w1 = Inr w2"
    and rest: "check_maps p mx used (passed @ [m]) ms w2 = Inr work'"
    by (auto simp: bad_def split: if_splits option.splits sum.splits)
  with check_aliases_ok [OF al] Cons.IH [OF rest] show ?case by auto
qed simp

lemma maps_alias_ranges:
  assumes "map_range_ok a" "map_range_ok m" "\<not> maps_alias a m" "am_decoder_instance_id a = am_decoder_instance_id m"
    and x: "x \<in> map_range a" "x \<in> map_range m"
  shows "am_alias_declared a \<and> am_alias_declared m"
proof -
  have "am_source_start a < am_source_start m + am_size m" "am_source_start m < am_source_start a + am_size a"
    using x map_range_end [OF assms(1)] map_range_end [OF assms(2)] by (auto simp: word_less_nat_alt map_range_def)
  then show ?thesis using assms(3,4) by (simp add: maps_alias_def)
qed

section \<open>A small system\<close>

text \<open>Two instances of one component, each with a program that reads its own state, bound to each other.\<close>

definition pair_source :: metadata_source where
  "pair_source = \<lparr>ms_file = ''model.lean'', ms_line = 1, ms_column = 1\<rparr>"

definition pair_program :: "u32 \<Rightarrow> program" where
  "pair_program n = sample_program n CK_Timed 1 [] []
     [\<lparr>bk_id = 0, bk_parameters = [], bk_instructions = [sample_op Op_LoadState [] (Some (sample_reg 0 0)) n],
       bk_terminator = sample_term TermReturn (sample_reg 0 0) 0 [sample_reg 0 0]\<rparr>]"

definition pair_endpoint :: "u32 \<Rightarrow> endpoint_role \<Rightarrow> endpoint_desc" where
  "pair_endpoint n role = \<lparr>ep_id = n, ep_role = role, ep_bus_width = 32, ep_max_bindings = 1, ep_max_outstanding = 1,
     ep_max_payload_bytes = 4, ep_max_byte_enable_bytes = 4, ep_protocol_ref = ''at'', ep_source = pair_source\<rparr>"

definition pair_component :: component_desc where
  "pair_component = \<lparr>cd_id = 0, cd_parameters = [], cd_states = [\<lparr>sd_id = 0, sd_type_id = 0, sd_initial = VU64 0\<rparr>],
     cd_endpoints = [pair_endpoint 0 Initiator, pair_endpoint 1 Target], cd_sidebands = [], cd_reset_policy = [], cd_source = []\<rparr>"

definition pair_instance :: "u32 \<Rightarrow> instance_desc" where
  "pair_instance n = \<lparr>ins_id = n, ins_definition = 0, ins_state_base = n, ins_state_count = 1,
     ins_handlers = [\<lparr>hb_local_id = 0, hb_program_id = n, hb_context = CK_Timed, hb_trigger = ''start'', hb_endpoint = None,
       hb_process_capacity = None, hb_source = []\<rparr>], ins_resolved_config = [], ins_source = []\<rparr>"

definition pair_slot :: "u32 \<Rightarrow> u32 \<Rightarrow> endpoint_ref" where
  "pair_slot i e = \<lparr>er_instance_id = i, er_endpoint = e, er_binding_index = 0\<rparr>"

definition pair_map :: "u32 \<Rightarrow> u64 \<Rightarrow> address_map_desc" where
  "pair_map n start = \<lparr>am_id = n, am_decoder_instance_id = 0, am_output_endpoint = 0, am_binding_index = 0,
     am_source_start = start, am_size = 16, am_target_start = 0, am_alias_declared = True, am_source = pair_source\<rparr>"

definition pair_system :: system_metadata where
  "pair_system = \<lparr>sm_id = 0, sm_original_instances = map (\<lambda>n. \<lparr>oi_id = n, oi_definition = 0, oi_resolved_config = [],
       oi_source = pair_source\<rparr>) [0, 1],
     sm_bindings = [\<lparr>bd_id = 0, bd_source_endpoint = pair_slot 0 0, bd_sink_endpoint = pair_slot 1 1, bd_source = pair_source\<rparr>],
     sm_top_ports = [], sm_sideband_bindings = [], sm_address_maps = [pair_map 0 0, pair_map 1 8], sm_runtime_domain = 0,
     sm_source = pair_source\<rparr>"

definition pair_project :: project where
  "pair_project = \<lparr>pj_types = [sample_type TK_Bits 8], pj_state_types = [0, 0], pj_initial_state = [VU64 0, VU64 0],
     pj_programs = [pair_program 0, pair_program 1], pj_profile = ''AT-Core-1.1-draft'', pj_schema_major = 4,
     pj_services = [], pj_components = [pair_component], pj_instances = [pair_instance 0, pair_instance 1],
     pj_system_metadata = Some pair_system, pj_external_contracts = [], pj_capabilities = []\<rparr>"

lemma pair_validates: "\<not> isl (validate pair_project sample_limits)"
  by code_simp

lemma pair_valid: "validate pair_project sample_limits = Inr (projr (validate pair_project sample_limits))"
  using pair_validates by simp

lemma pair_metadata: "pj_system_metadata pair_project = Some pair_system"
  by (simp add: pair_project_def)

section \<open>Claims\<close>

lemma sorted_wrt_pair:
  "sorted_wrt R xs \<Longrightarrow> (\<And>x y. R x y \<Longrightarrow> R y x) \<Longrightarrow> x \<in> set xs \<Longrightarrow> y \<in> set xs \<Longrightarrow> x \<noteq> y \<Longrightarrow> R x y"
  by (induction xs) auto

lemma validate_instances:
  assumes "validate p l = Inr q" "pj_system_metadata p = Some sys"
  obtains mx w w' owned covered where "distinct (map pg_id (pj_programs p))"
    "check_instances p mx [] (pj_instances p) w [] (replicate (length (pj_state_types p)) False) = Inr (w', owned, covered)"
    "length owned = length (pj_programs p)" "False \<notin> set covered"
proof -
  from assms(1) obtain l' where ids: "distinct (map pg_id (pj_programs p))" and m: "validate_metadata p l' = Inr ()"
    by (auto simp: validate_def bad_def Let_def split: sum.splits option.splits if_splits)
  from m assms(2) obtain w w' owned covered where
    "check_instances p (lm_max_work l') [] (pj_instances p) w [] (replicate (length (pj_state_types p)) False) = Inr (w', owned, covered)"
    "length owned = length (pj_programs p)" "False \<notin> set covered"
    by (auto simp: validate_metadata_def bad_def no_metadata_def split: sum.splits if_splits)
  with ids show thesis by (rule that)
qed

lemma validate_system:
  assumes "validate p l = Inr q" "pj_system_metadata p = Some sys"
  obtains mx w1 w2 w3 w4 used where "check_bindings p mx [] (sm_bindings sys) w1 [] = Inr (w2, used)"
    "check_maps p mx used [] (sm_address_maps sys) w3 = Inr w4"
proof -
  from assms(1) obtain l' where m: "validate_metadata p l' = Inr ()"
    by (auto simp: validate_def bad_def Let_def split: sum.splits option.splits if_splits)
  with assms(2) obtain w where "check_system p l' sys w = Inr ()"
    by (auto simp: validate_metadata_def bad_def no_metadata_def split: sum.splits if_splits)
  then show thesis using that by (auto simp: check_system_def bad_def Let_def split: sum.splits if_splits)
qed

lemma state_access_range:
  assumes "state_access_ok i ins" "in_op ins = Op_LoadState \<or> in_op ins = Op_BufferStateWrite"
  shows "unat (in_immediate ins) \<in> state_range i"
proof -
  have le: "ins_state_base i \<le> in_immediate ins" and lt: "in_immediate ins - ins_state_base i < ins_state_count i"
    using assms by (auto simp: state_access_ok_def)
  have "unat (in_immediate ins - ins_state_base i) = unat (in_immediate ins) - unat (ins_state_base i)"
    using le by (rule unat_sub)
  then show ?thesis using le lt by (auto simp: state_range_def word_less_nat_alt word_le_nat_alt)
qed

text \<open>
  Claim C4. In a validated project with system metadata, the instances partition the flattened
  state; every program belongs to exactly one instance, and each of its state reads and writes
  stays in the state of that instance.
\<close>

theorem state_isolation:
  assumes valid: "validate p l = Inr q" and sys: "pj_system_metadata p = Some sys"
  shows "(\<forall>pr \<in> set (pj_programs p). \<exists>i \<in> set (pj_instances p). pg_id pr \<in> owned_by i \<and>
      (\<forall>b \<in> set (pg_blocks pr). \<forall>ins \<in> set (bk_instructions b). in_op ins = Op_LoadState \<or> in_op ins = Op_BufferStateWrite \<longrightarrow>
         unat (in_immediate ins) \<in> state_range i)) \<and>
    (\<forall>i \<in> set (pj_instances p). \<forall>j \<in> set (pj_instances p). i \<noteq> j \<longrightarrow>
       state_range i \<inter> state_range j = {} \<and> owned_by i \<inter> owned_by j = {}) \<and>
    (\<Union>i \<in> set (pj_instances p). state_range i) = {..< length (pj_state_types p)}"
proof -
  from valid sys obtain mx w w' owned covered where ids: "distinct (map pg_id (pj_programs p))"
    and inst: "check_instances p mx [] (pj_instances p) w [] (replicate (length (pj_state_types p)) False) = Inr (w', owned, covered)"
    and len: "length owned = length (pj_programs p)" and cov: "False \<notin> set covered" by (rule validate_instances)
  from check_instances_owned [OF inst] have d: "distinct owned" and set: "set owned = (\<Union>i \<in> set (pj_instances p). owned_by i)"
    and hs: "\<forall>i \<in> set (pj_instances p). \<forall>h \<in> set (ins_handlers i). handler_ok p i h"
    and own: "sorted_wrt (\<lambda>i j. owned_by i \<inter> owned_by j = {}) (pj_instances p)" by auto
  from check_instances_states [OF inst] cov have part: "(\<Union>i \<in> set (pj_instances p). state_range i) = {..< length (pj_state_types p)}"
    and states: "sorted_wrt (\<lambda>i j. state_range i \<inter> state_range j = {}) (pj_instances p)"
    by (auto simp: in_set_conv_nth)
  have found: "j \<in> pg_id ` set (pj_programs p)" if "find_program p j = Some pr" for j pr
    using find_SomeD [OF that [unfolded find_program_def]] by auto
  have "set owned \<subseteq> pg_id ` set (pj_programs p)"
    using hs found by (fastforce simp: set owned_by_def handler_ok_def)
  moreover have "card (set owned) = card (pg_id ` set (pj_programs p))"
    using d ids len distinct_card [OF d] distinct_card [OF ids] by simp
  ultimately have all: "set owned = pg_id ` set (pj_programs p)" by (intro card_subset_eq) auto
  have "\<exists>i \<in> set (pj_instances p). pg_id pr \<in> owned_by i \<and> (\<forall>b \<in> set (pg_blocks pr). \<forall>ins \<in> set (bk_instructions b).
      in_op ins = Op_LoadState \<or> in_op ins = Op_BufferStateWrite \<longrightarrow> unat (in_immediate ins) \<in> state_range i)"
    if pr: "pr \<in> set (pj_programs p)" for pr
  proof -
    have "pg_id pr \<in> set owned" using all pr by simp
    then obtain i h where i: "i \<in> set (pj_instances p)" and h: "h \<in> set (ins_handlers i)" "hb_program_id h = pg_id pr"
      by (auto simp: set owned_by_def)
    have "handler_ok p i h" using hs i h(1) by blast
    then obtain pr' where pr': "find_program p (pg_id pr) = Some pr'"
      and acc: "\<forall>b \<in> set (pg_blocks pr'). \<forall>ins \<in> set (bk_instructions b). state_access_ok i ins"
      unfolding handler_ok_def h(2) by blast
    from pr' have "pr' \<in> set (pj_programs p)" "pg_id pr' = pg_id pr" by (auto simp: find_program_def dest!: find_SomeD)
    then have "pr' = pr" using ids pr by (auto simp: distinct_map dest: inj_onD)
    with acc i h state_access_range show ?thesis by (auto simp: owned_by_def intro!: bexI [of _ i] rev_image_eqI)
  qed
  then show ?thesis using sorted_wrt_pair [OF states] sorted_wrt_pair [OF own] part by (auto simp: Int_commute)
qed

theorem state_isolation_witness: "state_range (pair_instance 0) \<union> state_range (pair_instance 1) = {..< 2}"
  using state_isolation [OF pair_valid pair_metadata] by (simp add: pair_project_def)



text \<open>
  In a validated project no endpoint slot is bound twice, and every binding joins an
  initiator to a target of the same bus width and protocol, at indices that both allow.
\<close>

theorem bindings_exclusive:
  assumes valid: "validate p l = Inr q" and sys: "pj_system_metadata p = Some sys"
  shows "distinct (binding_slots (sm_bindings sys)) \<and> (\<forall>b \<in> set (sm_bindings sys). binding_ok p b)"
proof -
  from valid sys obtain mx w1 w2 used where bs: "check_bindings p mx [] (sm_bindings sys) w1 [] = Inr (w2, used)"
    by (rule validate_system)
  from check_bindings_ok [OF bs] show ?thesis by simp
qed


theorem bindings_exclusive_witness: "distinct [pair_slot 0 0, pair_slot 1 1]"
  using bindings_exclusive [OF pair_valid pair_metadata] by (simp add: pair_system_def binding_slots_def)

end
