(* ===== verification/Cancel_Scope.thy ===== *)
theory Cancel_Scope
  imports Event_Txn
begin

text \<open>
  The store of cancellation scopes of \<open>runtime/include/leanat/cancel_scope.hpp\<close> and
  \<open>runtime/src/cancel_scope.cpp\<close>: a tree of scopes, each owning the handles of the work
  started in it, and the cancellation of a scope with everything below it by a plan of cleanup
  actions.

  A pointer to a record is its index in the vector of records. The transaction that a prepared
  copy of the store belongs to is only compared with null, so its address stands for it. The
  executor that \<open>apply\<close> calls works on other components; it is an argument that carries the
  state of those components.
\<close>

section \<open>Data\<close>

datatype scope_state = SS_Open | SS_Cancelling | SS_Cancelled | SS_Closed

datatype owned_kind =
    OK_ChildScope | OK_Task | OK_Wait | OK_BusinessEvent | OK_TxnDemand | OK_SpawnTicket
  | OK_RequestGateTicket | OK_Access | OK_Lease | OK_ResultConsumer

datatype cancel_action_kind = CA_DropLocal | CA_CancelChild | CA_ReleaseConsumer | CA_TransferToDrain

record scope_owned =
  so_handle :: handle
  so_kind :: owned_kind
  so_published :: bool

record scope_cancel_action =
  sa_id :: u64
  sa_scope :: handle
  sa_owned :: scope_owned
  sa_kind :: cancel_action_kind
  sa_applied :: bool

record scope_cancel_plan =
  cp_scope :: handle
  cp_reason :: string
  cp_actions :: "scope_cancel_action list"

record scope_record =
  sr_generation :: u64
  sr_used :: bool
  sr_parent :: handle
  sr_state :: scope_state
  sr_entries :: "scope_owned list"
  sr_plan :: "scope_cancel_plan option"

record scope_observer =
  ob_id :: u64
  ob_source :: handle
  ob_process :: handle
  ob_wait :: handle

record scope_store =
  cs_domain :: domain_id
  cs_store :: u32
  cs_entries :: nat
  cs_actions :: nat
  cs_observers :: nat
  cs_sequence :: u64
  cs_records :: "scope_record list"
  cs_observations :: "scope_observer list"
  cs_pending :: nat
  cs_transaction :: "nat option"
  cs_allocation :: u64

definition empty_record :: scope_record where
  "empty_record = \<lparr>sr_generation = 1, sr_used = False, sr_parent = default_handle,
     sr_state = SS_Open, sr_entries = [], sr_plan = None\<rparr>"

abbreviation record_at :: "scope_store \<Rightarrow> nat \<Rightarrow> scope_record" where
  "record_at s i \<equiv> cs_records s ! i"

definition upd_record :: "nat \<Rightarrow> (scope_record \<Rightarrow> scope_record) \<Rightarrow> scope_store \<Rightarrow> scope_store" where
  "upd_record i f s = s\<lparr>cs_records := (cs_records s)[i := f (record_at s i)]\<rparr>"

section \<open>Identity and ownership\<close>

definition CancelScopeStore_new ::
  "domain_id \<Rightarrow> nat \<Rightarrow> nat \<Rightarrow> nat \<Rightarrow> nat \<Rightarrow> nat \<Rightarrow> scope_store option \<times> nat" where
  "CancelScopeStore_new d n e a ob next =
     (case allocate_store_incarnation next of
        None \<Rightarrow> (None, next)
      | Some (store, next') \<Rightarrow>
         (if n = 0 then (None, next')
          else (Some \<lparr>cs_domain = d, cs_store = store, cs_entries = e, cs_actions = a,
                  cs_observers = ob, cs_sequence = 0,
                  cs_records = (replicate n empty_record)[0 := empty_record\<lparr>sr_used := True\<rparr>],
                  cs_observations = [], cs_pending = 0, cs_transaction = None,
                  cs_allocation = 2\<rparr>, next')))"

text \<open>The handle that the code builds for the record at an index.\<close>

definition scope_handle :: "scope_store \<Rightarrow> nat \<Rightarrow> handle" where
  "scope_handle s i = \<lparr>h_kind = HK_Scope, h_domain = cs_domain s, h_store = cs_store s,
     h_slot = of_nat i, h_generation = sr_generation (record_at s i), h_owner = 0\<rparr>"

definition cs_root :: "scope_store \<Rightarrow> handle" where
  "cs_root s = scope_handle s 0"

definition cs_get :: "scope_store \<Rightarrow> handle \<Rightarrow> nat expected" where
  "cs_get s h =
     (if cs_pending s \<noteq> 0 \<and> cs_transaction s = None
      then fail InvalidState ''scope transaction pending''
      else if h_domain h \<noteq> cs_domain s then fail WrongDomain ''scope domain''
      else if h_kind h \<noteq> HK_Scope \<or> h_store h \<noteq> cs_store s \<or>
              unat (h_slot h) \<ge> length (cs_records s) \<or>
              \<not> sr_used (record_at s (unat (h_slot h))) \<or>
              sr_generation (record_at s (unat (h_slot h))) \<noteq> h_generation h
      then fail StaleHandle ''scope identity''
      else if h_owner h \<noteq> 0 then fail WrongOwner ''scope handle owner''
      else Inr (unat (h_slot h)))"

definition owns :: "scope_record \<Rightarrow> handle \<Rightarrow> bool" where
  "owns r h \<longleftrightarrow> list_ex (\<lambda>e. so_handle e = h) (sr_entries r)"

definition cs_owner_of :: "scope_store \<Rightarrow> handle \<Rightarrow> handle option" where
  "cs_owner_of s obj =
     (if h_kind obj = HK_Scope
      then (case cs_get s obj of Inr _ \<Rightarrow> Some obj | Inl _ \<Rightarrow> None)
      else map_option (scope_handle s)
        (find (\<lambda>i. sr_used (record_at s i) \<and> owns (record_at s i) obj) [0..<length (cs_records s)]))"

text \<open>
  The loops of \<open>inside\<close> and \<open>frozen\<close> walk towards the root, at most once per record; the counter
  is the number of iterations left.
\<close>

primrec inside_loop :: "scope_store \<Rightarrow> nat \<Rightarrow> handle \<Rightarrow> handle \<Rightarrow> bool" where
  "inside_loop s 0 h ancestor = False"
| "inside_loop s (Suc k) h ancestor =
     (if h = ancestor then True
      else case cs_get s h of
        Inl _ \<Rightarrow> False
      | Inr i \<Rightarrow> if h_slot h = 0 then False else inside_loop s k (sr_parent (record_at s i)) ancestor)"

definition cs_inside :: "scope_store \<Rightarrow> handle \<Rightarrow> handle \<Rightarrow> bool" where
  "cs_inside s h ancestor = inside_loop s (length (cs_records s)) h ancestor"

primrec frozen_loop :: "scope_store \<Rightarrow> nat \<Rightarrow> handle \<Rightarrow> bool" where
  "frozen_loop s 0 h = True"
| "frozen_loop s (Suc k) h =
     (case cs_get s h of
        Inl _ \<Rightarrow> True
      | Inr i \<Rightarrow>
          if sr_state (record_at s i) \<noteq> SS_Open then True
          else if h_slot h = 0 then False
          else frozen_loop s k (sr_parent (record_at s i)))"

definition cs_frozen :: "scope_store \<Rightarrow> handle \<Rightarrow> bool" where
  "cs_frozen s h = frozen_loop s (length (cs_records s)) h"

section \<open>Building the tree\<close>

definition open_child :: "handle \<Rightarrow> u64 \<Rightarrow> scope_record \<Rightarrow> scope_record" where
  "open_child parent gen r = r\<lparr>sr_generation := gen, sr_used := True, sr_parent := parent,
     sr_state := SS_Open, sr_plan := None, sr_entries := []\<rparr>"

definition push_entry :: "scope_owned \<Rightarrow> scope_record \<Rightarrow> scope_record" where
  "push_entry e r = r\<lparr>sr_entries := sr_entries r @ [e]\<rparr>"

definition cs_create :: "handle \<Rightarrow> scope_store \<Rightarrow> handle expected \<times> scope_store" where
  "cs_create parent s =
     (case cs_get s parent of
        Inl e \<Rightarrow> (Inl e, s)
      | Inr p \<Rightarrow>
         (if cs_frozen s parent then (fail InvalidState ''scope frozen'', s)
          else if length (sr_entries (record_at s p)) \<ge> cs_entries s
          then (fail Capacity ''scope owner entries'', s)
          else case find (\<lambda>i. \<not> sr_used (record_at s i) \<and> sr_generation (record_at s i) \<noteq> UINT64_MAX)
                      [1..<length (cs_records s)] of
            None \<Rightarrow> (fail Capacity ''scope slots'', s)
          | Some i \<Rightarrow>
             (if cs_allocation s = UINT64_MAX then (fail Overflow ''scope generation'', s)
              else
               (let s1 = (upd_record i (open_child parent (cs_allocation s)) s)
                           \<lparr>cs_allocation := cs_allocation s + 1\<rparr>;
                    h = scope_handle s1 i in
                (Inr h, upd_record p
                   (push_entry \<lparr>so_handle = h, so_kind = OK_ChildScope, so_published = False\<rparr>) s1)))))"

definition cs_attach :: "scope_owned \<Rightarrow> handle \<Rightarrow> scope_store \<Rightarrow> unit expected \<times> scope_store" where
  "cs_attach x h s =
     (case cs_get s h of
        Inl e \<Rightarrow> (Inl e, s)
      | Inr r \<Rightarrow>
         (if h_domain (so_handle x) \<noteq> cs_domain s then (fail WrongDomain ''owned domain'', s)
          else if cs_frozen s h then (fail InvalidState ''scope frozen'', s)
          else if so_kind x = OK_ChildScope
          then (fail InvalidArgument ''child scopes attach through create'', s)
          else if list_ex (\<lambda>q. owns q (so_handle x)) (cs_records s)
          then (fail Duplicate ''owned handle already attached'', s)
          else if length (sr_entries (record_at s r)) \<ge> cs_entries s
          then (fail Capacity ''owner entries'', s)
          else (Inr (), upd_record r (push_entry x) s)))"

definition find_entry :: "handle \<Rightarrow> scope_record \<Rightarrow> scope_owned option" where
  "find_entry h r = find (\<lambda>e. so_handle e = h) (sr_entries r)"

definition drop_entry :: "scope_owned \<Rightarrow> scope_record \<Rightarrow> scope_record" where
  "drop_entry e r = r\<lparr>sr_entries := remove1 e (sr_entries r)\<rparr>"

definition set_parent :: "handle \<Rightarrow> scope_record \<Rightarrow> scope_record" where
  "set_parent p r = r\<lparr>sr_parent := p\<rparr>"

text \<open>The two searches for an observer that would be cancelled together with its source.\<close>

definition owner_inside :: "scope_store \<Rightarrow> handle option \<Rightarrow> handle \<Rightarrow> bool" where
  "owner_inside s ow source = (case ow of Some h \<Rightarrow> cs_inside s h source | None \<Rightarrow> False)"

definition observer_captured :: "scope_store \<Rightarrow> bool" where
  "observer_captured s = list_ex (\<lambda>ob.
     owner_inside s (cs_owner_of s (ob_process ob)) (ob_source ob) \<or>
     owner_inside s (cs_owner_of s (ob_wait ob)) (ob_source ob)) (cs_observations s)"

definition transfer_captured :: "scope_store \<Rightarrow> handle \<Rightarrow> handle \<Rightarrow> bool" where
  "transfer_captured s obj dest = list_ex (\<lambda>ob.
     owner_inside s (if ob_process ob = obj then Some dest else cs_owner_of s (ob_process ob)) (ob_source ob) \<or>
     owner_inside s (if ob_wait ob = obj then Some dest else cs_owner_of s (ob_wait ob)) (ob_source ob))
       (cs_observations s)"

text \<open>
  The block of \<open>transfer\<close> for a child scope: the new parent is set, the observers are checked
  against it and the old parent is put back.
\<close>

definition child_transfer_check :: "scope_store \<Rightarrow> handle \<Rightarrow> handle \<Rightarrow> unit expected" where
  "child_transfer_check s obj dest =
     (if cs_inside s dest obj then fail InvalidArgument ''scope cycle''
      else case cs_get s obj of
        Inl e \<Rightarrow> Inl e
      | Inr child \<Rightarrow>
         (if observer_captured (upd_record child (set_parent dest) s)
          then fail InvalidArgument ''observer enters cancellation closure''
          else Inr ()))"

definition cs_transfer :: "handle \<Rightarrow> handle \<Rightarrow> handle \<Rightarrow> scope_store \<Rightarrow> unit expected \<times> scope_store" where
  "cs_transfer obj src dest s =
     (case cs_get s src of
        Inl e \<Rightarrow> (Inl e, s)
      | Inr a \<Rightarrow>
      (case cs_get s dest of
        Inl e \<Rightarrow> (Inl e, s)
      | Inr b \<Rightarrow>
      (case find_entry obj (record_at s a) of
        None \<Rightarrow> (fail WrongOwner ''transfer owner'', s)
      | Some it \<Rightarrow>
         (if cs_frozen s src \<or> cs_frozen s dest then (fail InvalidState ''frozen transfer'', s)
          else if src = dest then (Inr (), s)
          else if length (sr_entries (record_at s b)) \<ge> cs_entries s
          then (fail Capacity ''target owner entries'', s)
          else case (if so_kind it = OK_ChildScope then child_transfer_check s obj dest else Inr ()) of
            Inl e \<Rightarrow> (Inl e, s)
          | Inr _ \<Rightarrow>
             (if transfer_captured s obj dest
              then (fail InvalidArgument ''observer enters cancellation closure'', s)
              else
               (let s1 = upd_record b (push_entry it) s;
                    s2 = (if so_kind it = OK_ChildScope
                          then upd_record (unat (h_slot obj)) (set_parent dest) s1 else s1) in
                (Inr (), upd_record a (drop_entry it) s2)))))))"

fun replace_entry :: "handle \<Rightarrow> scope_owned \<Rightarrow> scope_owned list \<Rightarrow> scope_owned list" where
  "replace_entry h x [] = []"
| "replace_entry h x (e # es) = (if so_handle e = h then x # es else e # replace_entry h x es)"

definition cs_replace_owned ::
  "handle \<Rightarrow> scope_owned \<Rightarrow> handle \<Rightarrow> scope_store \<Rightarrow> unit expected \<times> scope_store" where
  "cs_replace_owned old x h s =
     (case cs_get s h of
        Inl e \<Rightarrow> (Inl e, s)
      | Inr r \<Rightarrow>
         (if cs_frozen s h then (fail InvalidState ''scope frozen'', s)
          else if h_domain (so_handle x) \<noteq> cs_domain s \<or> so_kind x = OK_ChildScope
          then (fail InvalidArgument ''replacement owner'', s)
          else if \<not> owns (record_at s r) old then (fail WrongOwner ''replacement source'', s)
          else if list_ex (\<lambda>q. owns q (so_handle x)) (cs_records s)
          then (fail Duplicate ''replacement already owned'', s)
          else (Inr (), upd_record r (\<lambda>q. q\<lparr>sr_entries := replace_entry old x (sr_entries q)\<rparr>) s)))"

definition cs_detach_completed :: "handle \<Rightarrow> handle \<Rightarrow> scope_store \<Rightarrow> unit expected \<times> scope_store" where
  "cs_detach_completed obj h s =
     (case cs_get s h of
        Inl e \<Rightarrow> (Inl e, s)
      | Inr r \<Rightarrow>
         (if sr_state (record_at s r) = SS_Cancelling
          then (fail InvalidState ''cancel plan owns cleanup'', s)
          else case find_entry obj (record_at s r) of
            None \<Rightarrow> (fail WrongOwner ''completed owner'', s)
          | Some it \<Rightarrow>
             (if so_kind it = OK_ChildScope then (fail InvalidState ''child must close'', s)
              else (Inr (), upd_record r (drop_entry it) s))))"

section \<open>Cancellation\<close>

text \<open>The first loop of \<open>cancel\<close>: the open scopes below the cancelled one and their entry count.\<close>

primrec cancel_closure ::
  "scope_store \<Rightarrow> handle \<Rightarrow> nat list \<Rightarrow> nat list \<Rightarrow> nat \<Rightarrow> (nat list \<times> nat) expected" where
  "cancel_closure s h [] closure count = Inr (closure, count)"
| "cancel_closure s h (i # is) closure count =
     (if sr_used (record_at s i) \<and> cs_inside s (scope_handle s i) h \<and> sr_state (record_at s i) = SS_Open
      then (if length (sr_entries (record_at s i)) > cs_actions s - min (cs_actions s) count
            then fail Capacity ''cancel action budget''
            else cancel_closure s h is (closure @ [i]) (count + length (sr_entries (record_at s i))))
      else cancel_closure s h is closure count)"

definition action_kind :: "scope_owned \<Rightarrow> cancel_action_kind" where
  "action_kind e =
     (if so_kind e = OK_ResultConsumer then CA_ReleaseConsumer
      else if so_kind e = OK_ChildScope \<or> so_kind e = OK_Task then CA_CancelChild
      else if so_published e then CA_TransferToDrain
      else CA_DropLocal)"

primrec plan_actions :: "handle \<Rightarrow> u64 \<Rightarrow> scope_owned list \<Rightarrow> scope_cancel_action list" where
  "plan_actions h sq [] = []"
| "plan_actions h sq (e # es) =
     \<lparr>sa_id = sq + 1, sa_scope = h, sa_owned = e, sa_kind = action_kind e, sa_applied = False\<rparr>
       # plan_actions h (sq + 1) es"

definition plan_scope :: "string \<Rightarrow> nat \<Rightarrow> scope_store \<Rightarrow> scope_store" where
  "plan_scope reason i s =
     (let r = record_at s i; h = scope_handle s i in
      (upd_record i (\<lambda>q. q\<lparr>
         sr_plan := Some \<lparr>cp_scope = h, cp_reason = reason,
           cp_actions = plan_actions h (cs_sequence s) (sr_entries r)\<rparr>,
         sr_state := if sr_entries r = [] then SS_Cancelled else SS_Cancelling\<rparr>) s)
       \<lparr>cs_sequence := cs_sequence s + of_nat (length (sr_entries r))\<rparr>)"

definition cs_cancel ::
  "handle \<Rightarrow> string \<Rightarrow> scope_store \<Rightarrow> scope_cancel_plan expected \<times> scope_store" where
  "cs_cancel h reason s =
     (if length reason > 256 then (fail Capacity ''cancel reason bytes'', s)
      else case cs_get s h of
        Inl e \<Rightarrow> (Inl e, s)
      | Inr r \<Rightarrow>
         (case sr_plan (record_at s r) of
            Some p \<Rightarrow> (Inr p, s)
          | None \<Rightarrow>
             (if sr_state (record_at s r) \<noteq> SS_Open then (fail InvalidState ''scope closed'', s)
              else case cancel_closure s h [0..<length (cs_records s)] [] 0 of
                Inl e \<Rightarrow> (Inl e, s)
              | Inr (closure, count) \<Rightarrow>
                 (if count > unat (UINT64_MAX - cs_sequence s)
                  then (fail Overflow ''cancel sequence'', s)
                  else (let s' = fold (plan_scope reason) closure s in
                        (Inr (the (sr_plan (record_at s' r))), s'))))))"

fun mark_applied :: "u64 \<Rightarrow> scope_cancel_action list \<Rightarrow> scope_cancel_action list" where
  "mark_applied k [] = []"
| "mark_applied k (a # as) =
     (if sa_id a = k then a\<lparr>sa_applied := True\<rparr> # as else a # mark_applied k as)"

definition settle_action :: "scope_cancel_plan \<Rightarrow> scope_cancel_action \<Rightarrow> scope_record \<Rightarrow> scope_record" where
  "settle_action p a r =
     (let es = filter (\<lambda>e. so_handle e \<noteq> so_handle (sa_owned a)) (sr_entries r) in
      r\<lparr>sr_plan := Some (p\<lparr>cp_actions := mark_applied (sa_id a) (cp_actions p)\<rparr>),
        sr_entries := es,
        sr_state := if es = [] then SS_Cancelled else sr_state r\<rparr>)"

definition cs_apply ::
  "handle \<Rightarrow> u64 \<Rightarrow> (scope_cancel_action \<Rightarrow> 'x \<Rightarrow> unit expected \<times> 'x) option \<Rightarrow> scope_store \<Rightarrow> 'x \<Rightarrow>
     unit expected \<times> scope_store \<times> 'x" where
  "cs_apply h k fn s x =
     (case cs_get s h of
        Inl e \<Rightarrow> (Inl e, s, x)
      | Inr r \<Rightarrow>
         (case sr_plan (record_at s r) of
            None \<Rightarrow> (fail InvalidState ''no cancellation plan'', s, x)
          | Some p \<Rightarrow>
             (case find (\<lambda>a. sa_id a = k) (cp_actions p) of
                None \<Rightarrow> (fail InvalidArgument ''cancel action identity'', s, x)
              | Some a \<Rightarrow>
                 (if sa_applied a then (Inr (), s, x)
                  else case fn of
                    None \<Rightarrow> (fail InvalidArgument ''missing cleanup executor'', s, x)
                  | Some f \<Rightarrow>
                     (case f a x of
                        (Inl e, x') \<Rightarrow> (Inl e, s, x')
                      | (Inr _, x') \<Rightarrow> (Inr (), upd_record r (settle_action p a) s, x'))))))"

definition drop_handle :: "handle \<Rightarrow> scope_record \<Rightarrow> scope_record" where
  "drop_handle h r = r\<lparr>sr_entries := filter (\<lambda>e. so_handle e \<noteq> h) (sr_entries r)\<rparr>"

definition retire_record :: "scope_record \<Rightarrow> scope_record" where
  "retire_record r = r\<lparr>sr_state := SS_Closed, sr_used := False,
     sr_generation := if sr_generation r \<noteq> UINT64_MAX then sr_generation r + 1 else sr_generation r\<rparr>"

definition cs_close :: "handle \<Rightarrow> scope_store \<Rightarrow> unit expected \<times> scope_store" where
  "cs_close h s =
     (case cs_get s h of
        Inl e \<Rightarrow> (Inl e, s)
      | Inr r \<Rightarrow>
         (if h_slot h = 0 then (fail InvalidState ''runtime root cannot close'', s)
          else if sr_state (record_at s r) = SS_Cancelling \<or> sr_entries (record_at s r) \<noteq> []
          then (fail InvalidState ''scope not empty'', s)
          else if list_ex (\<lambda>c. sr_used c \<and> sr_parent c = h) (cs_records s)
          then (fail InvalidState ''scope has live child scopes'', s)
          else if list_ex (\<lambda>ob. ob_source ob = h \<or> ob_process ob = h \<or> ob_wait ob = h) (cs_observations s)
          then (fail InvalidState ''scope observation retained'', s)
          else (let s1 = (case cs_get s (sr_parent (record_at s r)) of
                            Inl _ \<Rightarrow> s
                          | Inr p \<Rightarrow> upd_record p (drop_handle h) s) in
                (Inr (), upd_record r retire_record s1))))"

section \<open>Inspection and observers\<close>

definition cs_state :: "handle \<Rightarrow> scope_store \<Rightarrow> scope_state expected" where
  "cs_state h s = (case cs_get s h of Inl e \<Rightarrow> Inl e | Inr r \<Rightarrow> Inr (sr_state (record_at s r)))"

definition cs_validate_owner :: "handle \<Rightarrow> bool \<Rightarrow> scope_store \<Rightarrow> unit expected" where
  "cs_validate_owner h require_open s =
     (case cs_get s h of
        Inl e \<Rightarrow> Inl e
      | Inr _ \<Rightarrow> if require_open \<and> cs_frozen s h
                 then fail Cancelled ''scope cancellation closure frozen'' else Inr ())"

definition cs_observe_cancel ::
  "handle \<Rightarrow> handle \<Rightarrow> handle \<Rightarrow> scope_store \<Rightarrow> u64 expected \<times> scope_store" where
  "cs_observe_cancel source process wait s =
     (case cs_get s source of
        Inl e \<Rightarrow> (Inl e, s)
      | Inr _ \<Rightarrow>
         (case (cs_owner_of s process, cs_owner_of s wait) of
            (Some po, Some wo) \<Rightarrow>
             (if cs_inside s po source \<or> cs_inside s wo source
              then (fail InvalidArgument ''observer cancelled with source'', s)
              else if length (cs_observations s) \<ge> cs_observers s
              then (fail Capacity ''cancel observers'', s)
              else if cs_sequence s = UINT64_MAX then (fail Overflow ''observer sequence'', s)
              else (Inr (cs_sequence s + 1),
                    s\<lparr>cs_sequence := cs_sequence s + 1,
                      cs_observations := cs_observations s @
                        [\<lparr>ob_id = cs_sequence s + 1, ob_source = source, ob_process = process,
                          ob_wait = wait\<rparr>]\<rparr>))
          | _ \<Rightarrow> (fail StaleHandle ''observer ownership'', s)))"

definition cs_release_observer :: "u64 \<Rightarrow> scope_store \<Rightarrow> unit expected \<times> scope_store" where
  "cs_release_observer k s =
     (case find (\<lambda>ob. ob_id ob = k) (cs_observations s) of
        None \<Rightarrow> (fail StaleHandle ''observer'', s)
      | Some ob \<Rightarrow> (Inr (), s\<lparr>cs_observations := remove1 ob (cs_observations s)\<rparr>))"

definition cs_cancel_reason :: "handle \<Rightarrow> scope_store \<Rightarrow> string option expected" where
  "cs_cancel_reason h s =
     (case cs_get s h of
        Inl e \<Rightarrow> Inl e
      | Inr r \<Rightarrow> Inr (map_option cp_reason (sr_plan (record_at s r))))"

record scope_snapshot =
  sc_identity :: handle
  sc_parent :: handle
  sc_state :: scope_state
  sc_owned :: "scope_owned list"
  sc_plan :: "scope_cancel_plan option"

record scopes_snapshot =
  sn_scopes :: "scope_snapshot list"
  sn_observers :: "scope_observer list"
  sn_sequence :: u64

definition cs_snapshot :: "scope_store \<Rightarrow> scopes_snapshot expected" where
  "cs_snapshot s =
     (if cs_pending s \<noteq> 0 then fail NotReady ''scope snapshot transaction pending''
      else Inr \<lparr>sn_scopes = map (\<lambda>i. let r = record_at s i in
                   \<lparr>sc_identity = scope_handle s i, sc_parent = sr_parent r, sc_state = sr_state r,
                    sc_owned = sr_entries r, sc_plan = sr_plan r\<rparr>)
                   (filter (\<lambda>i. sr_used (record_at s i)) [0..<length (cs_records s)]),
                sn_observers = cs_observations s, sn_sequence = cs_sequence s\<rparr>)"

end
