(* ===== verification/Cancel_Scope_Inv.thy ===== *)
theory Cancel_Scope_Inv
  imports Cancel_Scope
begin

text \<open>
  The invariant of the scope store: the parents of the live scopes form a tree below the root,
  a handle has at most one owner, a scope below a cancelled scope is cancelled, plans cover what
  the scope still owns, and no observer lies below the scope it observes. The lemmas here show
  what \<open>get\<close>, \<open>inside\<close> and \<open>frozen\<close> compute on such a store.
\<close>

section \<open>Live scopes and the parent relation\<close>

definition live_at :: "scope_store \<Rightarrow> handle \<Rightarrow> nat \<Rightarrow> bool" where
  "live_at s h i \<longleftrightarrow> i < length (cs_records s) \<and> sr_used (record_at s i) \<and> h = scope_handle s i"

definition accessible :: "scope_store \<Rightarrow> bool" where
  "accessible s \<longleftrightarrow> cs_pending s = 0 \<or> cs_transaction s \<noteq> None"

definition small :: "scope_store \<Rightarrow> bool" where
  "small s \<longleftrightarrow> 0 < length (cs_records s) \<and> length (cs_records s) \<le> 2 ^ 32"

text \<open>The edges from a live scope to the live scope that its parent handle names.\<close>

definition pedges :: "scope_store \<Rightarrow> (nat \<times> nat) set" where
  "pedges s = {(i, p). i < length (cs_records s) \<and> sr_used (record_at s i) \<and> i \<noteq> 0 \<and>
                 live_at s (sr_parent (record_at s i)) p}"

lemma unat_slot: "i < 2 ^ 32 \<Longrightarrow> unat (of_nat i :: u32) = i"
  by (simp add: unat_of_nat take_bit_nat_eq_self)

lemma slot_of_handle: "small s \<Longrightarrow> i < length (cs_records s) \<Longrightarrow> unat (h_slot (scope_handle s i)) = i"
  by (simp add: scope_handle_def small_def unat_slot)

lemma live_at_unique: "small s \<Longrightarrow> live_at s h i \<Longrightarrow> live_at s h j \<Longrightarrow> i = j"
  by (metis live_at_def slot_of_handle)

lemma live_slot: "small s \<Longrightarrow> live_at s h i \<Longrightarrow> unat (h_slot h) = i"
  by (auto simp: live_at_def slot_of_handle)

lemma live_slot_0: "small s \<Longrightarrow> live_at s h i \<Longrightarrow> h_slot h = 0 \<longleftrightarrow> i = 0"
  using live_slot by (metis unat_0 unat_eq_zero)

lemma live_kind: "live_at s h i \<Longrightarrow> h_kind h = HK_Scope"
  by (simp add: live_at_def scope_handle_def)

lemma cs_get_iff: "small s \<Longrightarrow> cs_get s h = Inr i \<longleftrightarrow> accessible s \<and> live_at s h i"
  by (cases h)
    (auto simp: cs_get_def accessible_def live_at_def scope_handle_def small_def unat_slot)

lemma cs_get_live: "small s \<Longrightarrow> accessible s \<Longrightarrow> live_at s h i \<Longrightarrow> cs_get s h = Inr i"
  by (simp add: cs_get_iff)

lemma pedges_iff:
  "(i, p) \<in> pedges s \<longleftrightarrow> i < length (cs_records s) \<and> sr_used (record_at s i) \<and> i \<noteq> 0 \<and>
     live_at s (sr_parent (record_at s i)) p"
  by (simp add: pedges_def)

lemma pedges_functional: "small s \<Longrightarrow> (i, p) \<in> pedges s \<Longrightarrow> (i, q) \<in> pedges s \<Longrightarrow> p = q"
  by (auto simp: pedges_iff intro: live_at_unique)

lemma pedges_bounded: "pedges s \<subseteq> {1..<length (cs_records s)} \<times> {..<length (cs_records s)}"
  by (auto simp: pedges_def live_at_def)

lemma finite_pedges: "finite (pedges s)"
  by (rule finite_subset [OF pedges_bounded]) simp

lemma card_pedges: "small s \<Longrightarrow> card (pedges s) < length (cs_records s)"
proof -
  assume sm: "small s"
  have inj: "inj_on fst (pedges s)"
    by (auto simp: inj_on_def dest: pedges_functional [OF sm])
  have "fst ` pedges s \<subseteq> {1..<length (cs_records s)}"
    using pedges_bounded by fastforce
  hence "card (pedges s) \<le> card {1..<length (cs_records s)}"
    by (metis inj card_image card_mono finite_atLeastLessThan)
  thus ?thesis using sm unfolding small_def card_atLeastLessThan by linarith
qed

lemma pedges_path_bound:
  "small s \<Longrightarrow> (i, j) \<in> (pedges s)\<^sup>* \<Longrightarrow> \<exists>m < length (cs_records s). (i, j) \<in> pedges s ^^ m"
  using card_pedges [of s] le_less_trans by (auto simp: rtrancl_finite_eq_relpow [OF finite_pedges])

lemma relpow_Suc_front: "(i, j) \<in> R ^^ Suc m \<longleftrightarrow> (\<exists>p. (i, p) \<in> R \<and> (p, j) \<in> R ^^ m)"
  by (metis relpow_Suc_D2 relpow_Suc_I2)

lemma relpow_less_Suc:
  "(\<exists>m < Suc k. (i, j) \<in> R ^^ m) \<longleftrightarrow> i = j \<or> (\<exists>p. (i, p) \<in> R \<and> (\<exists>m < k. (p, j) \<in> R ^^ m))"
  unfolding Ex_less_Suc2 relpow_Suc_front by auto

section \<open>The walks towards the root\<close>

lemma inside_loop_iff:
  assumes sm: "small s" and acc: "accessible s" and j: "live_at s a j"
  shows "live_at s h i \<Longrightarrow> inside_loop s k h a \<longleftrightarrow> (\<exists>m < k. (i, j) \<in> pedges s ^^ m)"
proof (induction k arbitrary: h i)
  case (Suc k)
  have get: "cs_get s h = Inr i" by (rule cs_get_live [OF sm acc Suc.prems])
  have same: "h = a \<longleftrightarrow> i = j"
    using Suc.prems j live_at_unique [OF sm] by (auto simp: live_at_def)
  show ?case
  proof (cases "\<exists>p. live_at s (sr_parent (record_at s i)) p")
    case True
    then obtain p where p: "live_at s (sr_parent (record_at s i)) p" by blast
    have "(i, q) \<in> pedges s \<longleftrightarrow> i \<noteq> 0 \<and> q = p" for q
      using Suc.prems p live_at_unique [OF sm p] by (auto simp: pedges_iff live_at_def)
    then show ?thesis
      unfolding relpow_less_Suc
      using same get live_slot_0 [OF sm Suc.prems] Suc.IH [OF p] by simp
  next
    case none: False
    have "\<not> inside_loop s k (sr_parent (record_at s i)) a"
      using none j by (cases k) (auto simp: cs_get_iff [OF sm] split: sum.splits)
    then show ?thesis
      unfolding relpow_less_Suc
      using none same get by (auto simp: pedges_iff)
  qed
qed simp

lemma inside_iff:
  assumes "small s" "accessible s" "live_at s h i" "live_at s a j"
  shows "cs_inside s h a \<longleftrightarrow> (i, j) \<in> (pedges s)\<^sup>*"
  using inside_loop_iff [OF assms(1,2,4,3)] pedges_path_bound [OF assms(1)] relpow_imp_rtrancl
  by (metis cs_inside_def)

section \<open>The invariant\<close>

definition scope_tree :: "scope_store \<Rightarrow> bool" where
  "scope_tree s \<longleftrightarrow> small s \<and> sr_used (record_at s 0) \<and> acyclic (pedges s) \<and>
     (\<forall>i < length (cs_records s). sr_used (record_at s i) \<and> i \<noteq> 0 \<longrightarrow>
        (\<exists>p. (i, p) \<in> pedges s \<and>
           (sr_state (record_at s p) \<noteq> SS_Open \<longrightarrow> sr_state (record_at s i) \<noteq> SS_Open)))"

definition generations_ok :: "scope_store \<Rightarrow> bool" where
  "generations_ok s \<longleftrightarrow> (\<forall>i < length (cs_records s).
     sr_generation (record_at s i) \<le> cs_allocation s \<and>
     (sr_used (record_at s i) \<longrightarrow> sr_generation (record_at s i) < cs_allocation s))"

definition entry_ok :: "scope_store \<Rightarrow> nat \<Rightarrow> scope_owned \<Rightarrow> bool" where
  "entry_ok s i e \<longleftrightarrow>
     (if so_kind e = OK_ChildScope
      then (\<exists>c. live_at s (so_handle e) c \<and> c \<noteq> 0 \<and> sr_parent (record_at s c) = scope_handle s i)
      else h_kind (so_handle e) \<noteq> HK_Scope)"

definition sole_owner :: "scope_store \<Rightarrow> bool" where
  "sole_owner s \<longleftrightarrow> (\<forall>i < length (cs_records s). \<forall>j < length (cs_records s). \<forall>h.
     owns (record_at s i) h \<longrightarrow> owns (record_at s j) h \<longrightarrow> i = j)"

definition ownership_ok :: "scope_store \<Rightarrow> bool" where
  "ownership_ok s \<longleftrightarrow> sole_owner s \<and>
     (\<forall>i < length (cs_records s).
        distinct (map so_handle (sr_entries (record_at s i))) \<and>
        length (sr_entries (record_at s i)) \<le> cs_entries s \<and>
        (\<not> sr_used (record_at s i) \<longrightarrow> sr_entries (record_at s i) = []) \<and>
        (\<forall>e \<in> set (sr_entries (record_at s i)). entry_ok s i e))"

definition plan_ok :: "handle \<Rightarrow> scope_cancel_plan \<Rightarrow> scope_record \<Rightarrow> bool" where
  "plan_ok h p r \<longleftrightarrow> cp_scope p = h \<and> distinct (map sa_id (cp_actions p)) \<and>
     distinct (map (\<lambda>a. so_handle (sa_owned a)) (cp_actions p)) \<and>
     (\<forall>a \<in> set (cp_actions p). sa_scope a = h \<and> sa_kind a = action_kind (sa_owned a)) \<and>
     (\<forall>e \<in> set (sr_entries r). \<exists>a \<in> set (cp_actions p). \<not> sa_applied a \<and> sa_owned a = e) \<and>
     (sr_state r = SS_Cancelled \<longrightarrow> sr_entries r = []) \<and>
     (sr_state r = SS_Cancelling \<longrightarrow> (\<exists>a \<in> set (cp_actions p). \<not> sa_applied a))"

definition record_plan_ok :: "handle \<Rightarrow> scope_record \<Rightarrow> bool" where
  "record_plan_ok h r \<longleftrightarrow>
     (case sr_plan r of
        None \<Rightarrow> sr_state r = SS_Open
      | Some p \<Rightarrow> (sr_state r = SS_Cancelling \<or> sr_state r = SS_Cancelled) \<and> plan_ok h p r)"

definition plans_ok :: "scope_store \<Rightarrow> bool" where
  "plans_ok s \<longleftrightarrow> (\<forall>i < length (cs_records s).
     sr_used (record_at s i) \<longrightarrow> record_plan_ok (scope_handle s i) (record_at s i))"

text \<open>The scope that answers for a handle: the scope itself, or the one that owns the handle.\<close>

definition owned_at :: "scope_store \<Rightarrow> handle \<Rightarrow> nat \<Rightarrow> bool" where
  "owned_at s h i \<longleftrightarrow>
     (if h_kind h = HK_Scope then live_at s h i
      else i < length (cs_records s) \<and> sr_used (record_at s i) \<and> owns (record_at s i) h)"

definition party_ok :: "scope_store \<Rightarrow> nat \<Rightarrow> handle \<Rightarrow> bool" where
  "party_ok s j h \<longleftrightarrow> (h_kind h = HK_Scope \<longrightarrow> (\<exists>i. live_at s h i)) \<and>
     (\<forall>i. owned_at s h i \<longrightarrow> (i, j) \<notin> (pedges s)\<^sup>*)"

definition observer_ok :: "scope_store \<Rightarrow> scope_observer \<Rightarrow> bool" where
  "observer_ok s ob \<longleftrightarrow> (\<exists>j. live_at s (ob_source ob) j \<and> party_ok s j (ob_process ob) \<and> party_ok s j (ob_wait ob))"

definition observers_ok :: "scope_store \<Rightarrow> bool" where
  "observers_ok s \<longleftrightarrow> length (cs_observations s) \<le> cs_observers s \<and>
     (\<forall>ob \<in> set (cs_observations s). observer_ok s ob)"

definition scope_inv :: "scope_store \<Rightarrow> bool" where
  "scope_inv s \<longleftrightarrow> scope_tree s \<and> generations_ok s \<and> ownership_ok s \<and> plans_ok s \<and> observers_ok s"

lemmas scope_inv_defs =
  scope_inv_def scope_tree_def generations_ok_def ownership_ok_def plans_ok_def observers_ok_def

lemma scope_tree_small [dest]: "scope_tree s \<Longrightarrow> small s"
  by (simp add: scope_tree_def)

lemma tree_reaches_root:
  assumes "scope_tree s" "live_at s h i"
  shows "(i, 0) \<in> (pedges s)\<^sup>*"
proof -
  have "wf ((pedges s)\<inverse>)"
    using assms(1) by (simp add: scope_tree_def finite_pedges finite_acyclic_wf_converse)
  moreover have "sr_used (record_at s i) \<and> i < length (cs_records s)"
    using assms(2) by (simp add: live_at_def)
  ultimately show ?thesis
  proof (induction i rule: wf_induct_rule)
    case (less i)
    show ?case
    proof (cases "i = 0")
      case False
      then obtain p where "(i, p) \<in> pedges s"
        using assms(1) less.prems by (auto simp: scope_tree_def)
      then show ?thesis
        using less.IH [of p] by (auto simp: pedges_iff live_at_def intro: converse_rtrancl_into_rtrancl)
    qed simp
  qed
qed

lemma tree_parent_open:
  assumes "scope_tree s" "(i, p) \<in> pedges s" "sr_state (record_at s i) = SS_Open"
  shows "sr_state (record_at s p) = SS_Open"
  using assms pedges_functional [OF scope_tree_small [OF assms(1)] assms(2)]
  by (auto simp: scope_tree_def pedges_iff)

lemma tree_ancestor_open:
  assumes "scope_tree s" "(i, j) \<in> (pedges s)\<^sup>*" "sr_state (record_at s i) = SS_Open"
  shows "sr_state (record_at s j) = SS_Open"
  using assms(2,3) by (induction rule: converse_rtrancl_induct) (auto dest: tree_parent_open [OF assms(1)])

lemma open_not_frozen_loop:
  assumes tree: "scope_tree s" and acc: "accessible s"
  shows "live_at s h i \<Longrightarrow> (i, 0) \<in> pedges s ^^ m \<Longrightarrow> m < k \<Longrightarrow>
    sr_state (record_at s i) = SS_Open \<Longrightarrow> \<not> frozen_loop s k h"
proof (induction m arbitrary: h i k)
  case (0 h i k)
  then show ?case
    using cs_get_live [OF scope_tree_small [OF tree] acc] live_slot_0 [OF scope_tree_small [OF tree]]
    by (cases k) auto
next
  case (Suc m h i k)
  obtain p where p: "(i, p) \<in> pedges s" "(p, 0) \<in> pedges s ^^ m"
    using Suc.prems(2) by (auto simp only: relpow_Suc_front)
  have "\<not> frozen_loop s (k - 1) (sr_parent (record_at s i))"
    using p Suc.prems tree_parent_open [OF tree p(1)] by (intro Suc.IH [of _ p]) (auto simp: pedges_iff)
  then show ?case
    using Suc.prems cs_get_live [OF scope_tree_small [OF tree] acc Suc.prems(1)] by (cases k) auto
qed

lemma frozen_iff:
  assumes "scope_tree s" "accessible s" "live_at s h i"
  shows "cs_frozen s h \<longleftrightarrow> sr_state (record_at s i) \<noteq> SS_Open"
proof -
  have sm: "small s" using assms(1) by blast
  obtain m where "m < length (cs_records s)" "(i, 0) \<in> pedges s ^^ m"
    using pedges_path_bound [OF sm tree_reaches_root [OF assms(1,3)]] by blast
  moreover have "sr_state (record_at s i) \<noteq> SS_Open \<Longrightarrow> frozen_loop s k h" for k
    using cs_get_live [OF sm assms(2,3)] by (cases k) auto
  ultimately show ?thesis
    using open_not_frozen_loop [OF assms] by (auto simp: cs_frozen_def)
qed

lemma owns_iff: "owns r h \<longleftrightarrow> h \<in> so_handle ` set (sr_entries r)"
  by (auto simp: owns_def list_ex_iff)

lemma sole_ownerD:
  "sole_owner s \<Longrightarrow> i < length (cs_records s) \<Longrightarrow> j < length (cs_records s) \<Longrightarrow>
   owns (record_at s i) h \<Longrightarrow> owns (record_at s j) h \<Longrightarrow> i = j"
  unfolding sole_owner_def by blast

lemma owned_at_unique:
  assumes "small s" "sole_owner s" "owned_at s h i" "owned_at s h j"
  shows "i = j"
  using assms(3,4) live_at_unique [OF assms(1)] sole_ownerD [OF assms(2)]
  by (auto simp: owned_at_def split: if_splits)

lemma owner_of_iff:
  assumes sm: "small s" and own: "sole_owner s" and acc: "accessible s"
  shows "cs_owner_of s h = Some ow \<longleftrightarrow> (\<exists>i. owned_at s h i \<and> ow = scope_handle s i)"
proof (cases "h_kind h = HK_Scope")
  case True
  then show ?thesis
    using acc by (auto simp: cs_owner_of_def owned_at_def cs_get_iff [OF sm] live_at_def split: sum.splits)
      (metis cs_get_live [OF sm acc] live_at_def sum.distinct(1))
next
  case False
  have "find (\<lambda>i. sr_used (record_at s i) \<and> owns (record_at s i) h) [0..<length (cs_records s)] = Some i
          \<longleftrightarrow> owned_at s h i" for i
  proof
    assume "find (\<lambda>i. sr_used (record_at s i) \<and> owns (record_at s i) h) [0..<length (cs_records s)] = Some i"
    then show "owned_at s h i" using False by (auto simp: owned_at_def dest!: find_SomeD)
  next
    assume at: "owned_at s h i"
    then obtain k where k: "find (\<lambda>i. sr_used (record_at s i) \<and> owns (record_at s i) h) [0..<length (cs_records s)] = Some k"
      using False by (cases "find (\<lambda>i. sr_used (record_at s i) \<and> owns (record_at s i) h) [0..<length (cs_records s)]")
        (auto simp: find_None_iff owned_at_def)
    then have "owned_at s h k" using False by (auto simp: owned_at_def dest!: find_SomeD)
    then show "find (\<lambda>i. sr_used (record_at s i) \<and> owns (record_at s i) h) [0..<length (cs_records s)] = Some i"
      using k owned_at_unique [OF sm own at] by simp
  qed
  then show ?thesis
    using False by (auto simp: cs_owner_of_def)
qed

lemma owned_at_live: "owned_at s h i \<Longrightarrow> live_at s (scope_handle s i) i"
  by (auto simp: owned_at_def live_at_def split: if_splits)

lemma owner_inside_iff:
  assumes sm: "small s" and own: "sole_owner s" and acc: "accessible s" and j: "live_at s a j"
  shows "owner_inside s (cs_owner_of s h) a \<longleftrightarrow> (\<exists>i. owned_at s h i \<and> (i, j) \<in> (pedges s)\<^sup>*)"
proof (cases "cs_owner_of s h")
  case None
  then have "\<not> owned_at s h i" for i
    using owner_of_iff [OF sm own acc, of h] by fastforce
  then show ?thesis by (simp add: owner_inside_def None)
next
  case (Some ow)
  then obtain i where i: "owned_at s h i" "ow = scope_handle s i"
    using owner_of_iff [OF sm own acc] by blast
  have "owner_inside s (cs_owner_of s h) a \<longleftrightarrow> (i, j) \<in> (pedges s)\<^sup>*"
    using inside_iff [OF sm acc owned_at_live [OF i(1)] j] by (simp add: owner_inside_def Some i(2))
  then show ?thesis
    using i(1) owned_at_unique [OF sm own i(1)] by blast
qed

end
