(* ===== verification/Cancel_Scope_Steps.thy ===== *)
theory Cancel_Scope_Steps
  imports Cancel_Scope_Inv
begin

text \<open>
  Every operation of the scope store keeps the invariant. Most operations change one record and
  leave identities and parents alone; \<open>keeps_tree\<close> names that, and \<open>upd_keeps_inv\<close> reduces their
  proofs to conditions on the changed record.
\<close>

section \<open>Changes of one record\<close>

definition keeps_tree :: "(scope_record \<Rightarrow> scope_record) \<Rightarrow> bool" where
  "keeps_tree f \<longleftrightarrow> (\<forall>r. sr_generation (f r) = sr_generation r \<and> sr_used (f r) = sr_used r \<and>
     sr_parent (f r) = sr_parent r)"

lemma upd_record_simps [simp]:
  "cs_domain (upd_record i f s) = cs_domain s" "cs_store (upd_record i f s) = cs_store s"
  "cs_entries (upd_record i f s) = cs_entries s" "cs_actions (upd_record i f s) = cs_actions s"
  "cs_observers (upd_record i f s) = cs_observers s" "cs_sequence (upd_record i f s) = cs_sequence s"
  "cs_observations (upd_record i f s) = cs_observations s" "cs_pending (upd_record i f s) = cs_pending s"
  "cs_transaction (upd_record i f s) = cs_transaction s" "cs_allocation (upd_record i f s) = cs_allocation s"
  "length (cs_records (upd_record i f s)) = length (cs_records s)"
  by (simp_all add: upd_record_def)

lemma record_at_upd:
  "record_at (upd_record i f s) j = (if i = j \<and> j < length (cs_records s) then f (record_at s i) else record_at s j)"
  by (auto simp: upd_record_def nth_update_total)

lemma upd_record_commute:
  "i \<noteq> j \<Longrightarrow> upd_record i f (upd_record j g s) = upd_record j g (upd_record i f s)"
  by (simp add: upd_record_def list_update_swap)

lemma keeps_treeD:
  assumes "keeps_tree f"
  shows "sr_generation (f r) = sr_generation r" "sr_used (f r) = sr_used r" "sr_parent (f r) = sr_parent r"
  using assms by (simp_all add: keeps_tree_def)

lemma keeps_handle: "keeps_tree f \<Longrightarrow> scope_handle (upd_record i f s) j = scope_handle s j"
  by (simp add: scope_handle_def record_at_upd keeps_treeD)

lemma keeps_used: "keeps_tree f \<Longrightarrow> sr_used (record_at (upd_record i f s) j) \<longleftrightarrow> sr_used (record_at s j)"
  by (simp add: record_at_upd keeps_treeD)

lemma keeps_parent: "keeps_tree f \<Longrightarrow> sr_parent (record_at (upd_record i f s) j) = sr_parent (record_at s j)"
  by (simp add: record_at_upd keeps_treeD)

lemma keeps_live: "keeps_tree f \<Longrightarrow> live_at (upd_record i f s) = live_at s"
  by (intro ext) (simp add: live_at_def keeps_handle keeps_used)

lemma keeps_edges: "keeps_tree f \<Longrightarrow> pedges (upd_record i f s) = pedges s"
  by (simp add: pedges_def keeps_live keeps_used keeps_parent)

lemma keeps_small: "small (upd_record i f s) \<longleftrightarrow> small s"
  by (simp add: small_def)

lemma keeps_entry_ok: "keeps_tree f \<Longrightarrow> entry_ok (upd_record i f s) = entry_ok s"
  by (intro ext) (simp add: entry_ok_def keeps_live keeps_handle keeps_parent)

lemmas keeps_simps =
  keeps_handle keeps_used keeps_parent keeps_live keeps_edges keeps_small keeps_entry_ok

lemma keeps_owned_at:
  assumes "keeps_tree f"
  shows "owned_at (upd_record i f s) h j \<longleftrightarrow>
    (if j = i \<and> h_kind h \<noteq> HK_Scope \<and> i < length (cs_records s)
     then sr_used (record_at s i) \<and> owns (f (record_at s i)) h else owned_at s h j)"
  using assms by (auto simp: owned_at_def keeps_simps record_at_upd keeps_treeD)

section \<open>The parts of the invariant under such a change\<close>

lemma tree_upd:
  assumes "scope_tree s" "keeps_tree f"
    and "sr_state (f (record_at s i)) = SS_Open \<longleftrightarrow> sr_state (record_at s i) = SS_Open"
  shows "scope_tree (upd_record i f s)"
proof -
  have "sr_state (record_at (upd_record i f s) j) = SS_Open \<longleftrightarrow> sr_state (record_at s j) = SS_Open" for j
    using assms(3) by (auto simp: record_at_upd)
  then show ?thesis
    using assms(1,2) by (simp add: scope_tree_def keeps_simps)
qed

lemma generations_upd:
  assumes "generations_ok s" "keeps_tree f"
  shows "generations_ok (upd_record i f s)"
  using assms by (auto simp: generations_ok_def keeps_simps record_at_upd keeps_treeD)

lemma sole_owner_upd:
  assumes own: "sole_owner s" and i: "i < length (cs_records s)"
    and new: "\<And>h. owns (f (record_at s i)) h \<Longrightarrow> owns (record_at s i) h \<or> (\<forall>r \<in> set (cs_records s). \<not> owns r h)"
  shows "sole_owner (upd_record i f s)"
  unfolding sole_owner_def
proof (intro allI impI)
  fix j k h
  assume j: "j < length (cs_records (upd_record i f s))" and k: "k < length (cs_records (upd_record i f s))"
    and oj: "owns (record_at (upd_record i f s) j) h" and ok: "owns (record_at (upd_record i f s) k) h"
  have other: "owns (record_at s m) h \<Longrightarrow> m < length (cs_records s) \<Longrightarrow> owns (f (record_at s i)) h \<Longrightarrow> m = i" for m
    using new [of h] own i sole_ownerD [OF own, of m i h] by (meson nth_mem)
  show "j = k"
    using oj ok j k other [of j] other [of k] sole_ownerD [OF own, of j k h]
    by (auto simp: record_at_upd split: if_splits)
qed

lemma ownership_upd:
  assumes "ownership_ok s" "keeps_tree f" "i < length (cs_records s)" "sr_used (record_at s i)"
    and "\<And>h. owns (f (record_at s i)) h \<Longrightarrow> owns (record_at s i) h \<or> (\<forall>r \<in> set (cs_records s). \<not> owns r h)"
    and "distinct (map so_handle (sr_entries (f (record_at s i))))"
    and "length (sr_entries (f (record_at s i))) \<le> cs_entries s"
    and "\<And>e. e \<in> set (sr_entries (f (record_at s i))) \<Longrightarrow> entry_ok s i e"
  shows "ownership_ok (upd_record i f s)"
  using assms sole_owner_upd [of s i f]
  by (simp add: ownership_ok_def keeps_simps record_at_upd keeps_treeD)

lemma plans_upd:
  assumes "plans_ok s" "keeps_tree f"
    and "sr_used (record_at s i) \<Longrightarrow> record_plan_ok (scope_handle s i) (f (record_at s i))"
  shows "plans_ok (upd_record i f s)"
  using assms by (auto simp: plans_ok_def keeps_simps record_at_upd keeps_treeD)

definition captures :: "scope_store \<Rightarrow> nat \<Rightarrow> handle \<Rightarrow> bool" where
  "captures s i h \<longleftrightarrow> (\<exists>ob \<in> set (cs_observations s). \<exists>j. live_at s (ob_source ob) j \<and>
     (ob_process ob = h \<or> ob_wait ob = h) \<and> (i, j) \<in> (pedges s)\<^sup>*)"

lemma party_upd:
  assumes "party_ok s j h" "keeps_tree f"
    and "owns (f (record_at s i)) h \<Longrightarrow> \<not> owns (record_at s i) h \<Longrightarrow> (i, j) \<notin> (pedges s)\<^sup>*"
  shows "party_ok (upd_record i f s) j h"
proof -
  have "(k, j) \<notin> (pedges s)\<^sup>*" if "owned_at (upd_record i f s) h k" for k
  proof (cases "owned_at s h k")
    case True
    then show ?thesis using assms(1) by (simp add: party_ok_def)
  next
    case False
    then show ?thesis
      using that assms(3) unfolding keeps_owned_at [OF assms(2)]
      by (auto simp: owned_at_def split: if_splits)
  qed
  then show ?thesis
    using assms(1) by (simp add: party_ok_def keeps_live [OF assms(2)] keeps_edges [OF assms(2)])
qed

lemma observers_upd:
  assumes obs: "observers_ok s" and keep: "keeps_tree f"
    and new: "\<And>h. owns (f (record_at s i)) h \<Longrightarrow> owns (record_at s i) h \<or> \<not> captures s i h"
  shows "observers_ok (upd_record i f s)"
proof -
  have "observer_ok (upd_record i f s) ob" if ob: "ob \<in> set (cs_observations s)" for ob
  proof -
    obtain j where j: "live_at s (ob_source ob) j" "party_ok s j (ob_process ob)" "party_ok s j (ob_wait ob)"
      using obs ob by (auto simp: observers_ok_def observer_ok_def)
    have "party_ok (upd_record i f s) j h" if "h = ob_process ob \<or> h = ob_wait ob" for h
      using that j ob new [of h] by (intro party_upd keep) (auto simp: captures_def)
    then show ?thesis
      using j(1) by (auto simp: observer_ok_def keeps_live [OF keep])
  qed
  then show ?thesis using obs by (simp add: observers_ok_def)
qed

lemma upd_keeps_inv:
  assumes inv: "scope_inv s" and keep: "keeps_tree f"
    and i: "i < length (cs_records s)" "sr_used (record_at s i)"
    and state: "sr_state (f (record_at s i)) = SS_Open \<longleftrightarrow> sr_state (record_at s i) = SS_Open"
    and new: "\<And>h. owns (f (record_at s i)) h \<Longrightarrow>
        owns (record_at s i) h \<or> (\<forall>r \<in> set (cs_records s). \<not> owns r h) \<and> \<not> captures s i h"
    and entries: "distinct (map so_handle (sr_entries (f (record_at s i))))"
        "length (sr_entries (f (record_at s i))) \<le> cs_entries s"
        "\<And>e. e \<in> set (sr_entries (f (record_at s i))) \<Longrightarrow> entry_ok s i e"
    and plan: "record_plan_ok (scope_handle s i) (f (record_at s i))"
  shows "scope_inv (upd_record i f s)"
proof -
  have "scope_tree (upd_record i f s)" "generations_ok (upd_record i f s)"
      "plans_ok (upd_record i f s)"
    using inv state plan by (auto simp: scope_inv_def intro: tree_upd generations_upd plans_upd keep)
  moreover have "ownership_ok (upd_record i f s)"
    using inv new entries by (intro ownership_upd keep i) (auto simp: scope_inv_def)
  moreover have "observers_ok (upd_record i f s)"
    using inv new by (intro observers_upd keep) (auto simp: scope_inv_def)
  ultimately show ?thesis by (simp add: scope_inv_def)
qed

section \<open>Attaching, replacing, detaching and applying\<close>

lemma keeps_tree_intros:
  "keeps_tree (push_entry e)" "keeps_tree (drop_entry e)" "keeps_tree (drop_handle h)"
  "keeps_tree (settle_action p a)" "keeps_tree (\<lambda>q. q\<lparr>sr_entries := g (sr_entries q)\<rparr>)"
  by (simp_all add: keeps_tree_def push_entry_def drop_entry_def drop_handle_def settle_action_def Let_def)

lemma owns_push [simp]: "owns (push_entry e r) h \<longleftrightarrow> owns r h \<or> h = so_handle e"
  by (auto simp: owns_iff push_entry_def)

lemma entries_push [simp]:
  "sr_entries (push_entry e r) = sr_entries r @ [e]" "sr_state (push_entry e r) = sr_state r"
  "sr_plan (push_entry e r) = sr_plan r"
  by (simp_all add: push_entry_def)

definition unobserved :: "scope_store \<Rightarrow> handle \<Rightarrow> bool" where
  "unobserved s h \<longleftrightarrow> (\<forall>ob \<in> set (cs_observations s). ob_process ob \<noteq> h \<and> ob_wait ob \<noteq> h)"

lemma unobserved_not_captured: "unobserved s h \<Longrightarrow> \<not> captures s i h"
  by (auto simp: unobserved_def captures_def)

lemma inv_small [dest]: "scope_inv s \<Longrightarrow> small s"
  by (simp add: scope_inv_def scope_tree_def)

lemma inv_tree [dest]: "scope_inv s \<Longrightarrow> scope_tree s"
  by (simp add: scope_inv_def)

lemma inv_sole [dest]: "scope_inv s \<Longrightarrow> sole_owner s"
  by (simp add: scope_inv_def ownership_ok_def)

lemma inv_get:
  assumes "scope_inv s" "cs_get s h = Inr i"
  shows "accessible s" "live_at s h i" "i < length (cs_records s)" "sr_used (record_at s i)"
    "h = scope_handle s i" "cs_frozen s h \<longleftrightarrow> sr_state (record_at s i) \<noteq> SS_Open"
  using assms cs_get_iff [OF inv_small [OF assms(1)]] frozen_iff [OF inv_tree [OF assms(1)]]
  by (auto simp: live_at_def)

lemma inv_record:
  assumes "scope_inv s" "i < length (cs_records s)"
  shows "distinct (map so_handle (sr_entries (record_at s i)))"
    "length (sr_entries (record_at s i)) \<le> cs_entries s"
    "e \<in> set (sr_entries (record_at s i)) \<Longrightarrow> entry_ok s i e"
    "sr_used (record_at s i) \<Longrightarrow> record_plan_ok (scope_handle s i) (record_at s i)"
  using assms by (auto simp: scope_inv_def ownership_ok_def plans_ok_def)

lemma open_record_plan:
  "record_plan_ok h r \<Longrightarrow> sr_state r = SS_Open \<Longrightarrow> sr_plan r = None"
  by (auto simp: record_plan_ok_def split: option.splits)

lemma push_keeps_inv:
  assumes inv: "scope_inv s" and i: "i < length (cs_records s)" "sr_used (record_at s i)"
    and op: "sr_state (record_at s i) = SS_Open"
    and free: "\<forall>r \<in> set (cs_records s). \<not> owns r (so_handle x)" "\<not> captures s i (so_handle x)"
    and room: "length (sr_entries (record_at s i)) < cs_entries s" and x: "entry_ok s i x"
  shows "scope_inv (upd_record i (push_entry x) s)"
proof (rule upd_keeps_inv [OF inv keeps_tree_intros(1) i])
  have "\<not> owns (record_at s i) (so_handle x)" using free(1) i(1) by simp
  then show "distinct (map so_handle (sr_entries (push_entry x (record_at s i))))"
    using inv_record(1) [OF inv i(1)] by (auto simp: owns_iff)
  show "record_plan_ok (scope_handle s i) (push_entry x (record_at s i))"
    using open_record_plan [OF inv_record(4) [OF inv i] op] op by (simp add: record_plan_ok_def)
qed (use free room x inv_record(3) [OF inv i(1)] in auto)

lemma attach_inv:
  assumes inv: "scope_inv s" and x: "h_kind (so_handle x) \<noteq> HK_Scope" "unobserved s (so_handle x)"
  shows "scope_inv (snd (cs_attach x h s))"
proof -
  have "scope_inv (upd_record r (push_entry x) s)"
    if "cs_get s h = Inr r" "\<not> cs_frozen s h" "so_kind x \<noteq> OK_ChildScope"
      "\<not> list_ex (\<lambda>q. owns q (so_handle x)) (cs_records s)" "length (sr_entries (record_at s r)) < cs_entries s" for r
    using that inv_get [OF inv that(1)] unobserved_not_captured [OF x(2)] x(1)
    by (intro push_keeps_inv inv) (auto simp: list_ex_iff entry_ok_def)
  then show ?thesis using inv by (auto simp: cs_attach_def split: sum.splits)
qed

text \<open>Removing entries of a scope that has no plan, or settling an action of its plan.\<close>

lemma shrink_keeps_inv:
  assumes inv: "scope_inv s" and keep: "keeps_tree f"
    and i: "i < length (cs_records s)" "sr_used (record_at s i)"
    and state: "sr_state (f (record_at s i)) = SS_Open \<longleftrightarrow> sr_state (record_at s i) = SS_Open"
    and sub: "set (sr_entries (f (record_at s i))) \<subseteq> set (sr_entries (record_at s i))"
      "length (sr_entries (f (record_at s i))) \<le> length (sr_entries (record_at s i))"
      "distinct (map so_handle (sr_entries (f (record_at s i))))"
    and plan: "record_plan_ok (scope_handle s i) (f (record_at s i))"
  shows "scope_inv (upd_record i f s)"
proof (rule upd_keeps_inv [OF inv keep i state _ sub(3) _ _ plan])
  show "length (sr_entries (f (record_at s i))) \<le> cs_entries s"
    using inv_record(2) [OF inv i(1)] sub(2) by simp
qed (use sub inv_record(3) [OF inv i(1)] in \<open>auto simp: owns_iff\<close>)

lemma distinct_remove1_map: "distinct (map f xs) \<Longrightarrow> distinct (map f (remove1 x xs))"
  using set_remove1_subset by (induction xs) fastforce+

lemma plan_ok_shrink:
  assumes "plan_ok h p r" "set (sr_entries r') \<subseteq> set (sr_entries r)" "sr_state r' = sr_state r"
  shows "plan_ok h p r'"
  using assms by (auto simp: plan_ok_def)

lemma record_plan_shrink:
  assumes "record_plan_ok h r" "set (sr_entries r') \<subseteq> set (sr_entries r)" "sr_state r' = sr_state r" "sr_plan r' = sr_plan r"
  shows "record_plan_ok h r'"
  using assms plan_ok_shrink [OF _ assms(2,3)] by (auto simp: record_plan_ok_def split: option.splits)

lemma drop_entry_keeps_inv:
  assumes inv: "scope_inv s" and i: "i < length (cs_records s)" "sr_used (record_at s i)"
  shows "scope_inv (upd_record i (drop_entry e) s)"
proof (rule shrink_keeps_inv [OF inv keeps_tree_intros(2) i])
  show "set (sr_entries (drop_entry e (record_at s i))) \<subseteq> set (sr_entries (record_at s i))"
    by (simp add: drop_entry_def set_remove1_subset)
  then show "record_plan_ok (scope_handle s i) (drop_entry e (record_at s i))"
    by (rule record_plan_shrink [OF inv_record(4) [OF inv i]]) (simp_all add: drop_entry_def)
qed (use inv_record(1) [OF inv i(1)] in \<open>simp_all add: drop_entry_def distinct_remove1_map length_remove1\<close>)

lemma drop_handle_keeps_inv:
  assumes inv: "scope_inv s" and i: "i < length (cs_records s)" "sr_used (record_at s i)"
  shows "scope_inv (upd_record i (drop_handle h) s)"
  by (rule shrink_keeps_inv [OF inv keeps_tree_intros(3) i])
    (use inv_record [OF inv i(1)] i(2) in \<open>auto simp: drop_handle_def distinct_map_filter intro: record_plan_shrink\<close>)

lemma detach_inv:
  assumes inv: "scope_inv s"
  shows "scope_inv (snd (cs_detach_completed obj h s))"
  using inv drop_entry_keeps_inv [OF inv] inv_get(3,4) [OF inv]
  by (auto simp: cs_detach_completed_def split: sum.splits option.splits)

lemma set_replace_entry: "set (replace_entry h x es) \<subseteq> insert x (set es)"
  by (induction es) auto

lemma length_replace_entry [simp]: "length (replace_entry h x es) = length es"
  by (induction es) auto

lemma distinct_replace_entry:
  "distinct (map so_handle es) \<Longrightarrow> so_handle x \<notin> so_handle ` set es \<Longrightarrow>
   distinct (map so_handle (replace_entry h x es))"
  using set_replace_entry by (induction es) fastforce+

lemma replace_inv:
  assumes inv: "scope_inv s" and x: "h_kind (so_handle x) \<noteq> HK_Scope" "unobserved s (so_handle x)"
  shows "scope_inv (snd (cs_replace_owned old x h s))"
proof -
  let ?f = "\<lambda>q. q\<lparr>sr_entries := replace_entry old x (sr_entries q)\<rparr>"
  have "scope_inv (upd_record r ?f s)"
    if g: "cs_get s h = Inr r" and t: "\<not> cs_frozen s h" "so_kind x \<noteq> OK_ChildScope"
      "\<not> list_ex (\<lambda>q. owns q (so_handle x)) (cs_records s)" for r
  proof (rule upd_keeps_inv [OF inv keeps_tree_intros(5)])
    show r: "r < length (cs_records s)" "sr_used (record_at s r)" using inv_get [OF inv g] by auto
    have free: "\<forall>q \<in> set (cs_records s). \<not> owns q (so_handle x)" using t(3) by (auto simp: list_ex_iff)
    have op: "sr_state (record_at s r) = SS_Open" using inv_get(6) [OF inv g] t(1) by simp
    show "owns (?f (record_at s r)) k \<Longrightarrow> owns (record_at s r) k \<or>
        (\<forall>q \<in> set (cs_records s). \<not> owns q k) \<and> \<not> captures s r k" for k
    proof -
      assume "owns (?f (record_at s r)) k"
      then have "owns (record_at s r) k \<or> k = so_handle x"
        using set_replace_entry [of old x "sr_entries (record_at s r)"] by (auto simp: owns_iff)
      then show ?thesis using free unobserved_not_captured [OF x(2)] by blast
    qed
    show "distinct (map so_handle (sr_entries (?f (record_at s r))))"
      using distinct_replace_entry [OF inv_record(1) [OF inv r(1)]] free nth_mem [OF r(1)] by (simp add: owns_iff)
    show "entry_ok s r e" if "e \<in> set (sr_entries (?f (record_at s r)))" for e
      using that set_replace_entry [of old x "sr_entries (record_at s r)"] inv_record(3) [OF inv r(1), of e] x(1) t(2)
      by (auto simp: entry_ok_def)
    show "record_plan_ok (scope_handle s r) (?f (record_at s r))"
      using open_record_plan [OF inv_record(4) [OF inv r] op] op by (simp add: record_plan_ok_def)
  qed (use inv_record(2) [OF inv] inv_get(3) [OF inv g] in auto)
  then show ?thesis using inv by (auto simp: cs_replace_owned_def split: sum.splits)
qed

lemma mark_applied_maps [simp]:
  "map sa_id (mark_applied k as) = map sa_id as"
  "map (\<lambda>a. so_handle (sa_owned a)) (mark_applied k as) = map (\<lambda>a. so_handle (sa_owned a)) as"
  by (induction as) auto

lemma mark_applied_mem:
  "a \<in> set (mark_applied k as) \<Longrightarrow> a \<in> set as \<or> (\<exists>b \<in> set as. sa_id b = k \<and> a = b\<lparr>sa_applied := True\<rparr>)"
  by (induction as) (auto split: if_splits)

lemma mark_applied_other: "a \<in> set as \<Longrightarrow> sa_id a \<noteq> k \<Longrightarrow> a \<in> set (mark_applied k as)"
  by (induction as) auto

lemma settle_plan_ok:
  assumes plan: "sr_plan r = Some p" "record_plan_ok h r" and a: "a \<in> set (cp_actions p)" "\<not> sa_applied a"
  shows "record_plan_ok h (settle_action p a r)"
proof -
  let ?es = "filter (\<lambda>e. so_handle e \<noteq> so_handle (sa_owned a)) (sr_entries r)"
  have ok: "plan_ok h p r" and st: "sr_state r = SS_Cancelling \<or> sr_state r = SS_Cancelled"
    using plan by (simp_all add: record_plan_ok_def)
  have covered: "\<exists>b \<in> set (mark_applied (sa_id a) (cp_actions p)). \<not> sa_applied b \<and> sa_owned b = e"
    if e: "e \<in> set ?es" for e
  proof -
    have "e \<in> set (sr_entries r)" using e by simp
    then obtain b where b: "b \<in> set (cp_actions p)" "\<not> sa_applied b" "sa_owned b = e"
      using ok unfolding plan_ok_def by blast
    have "inj_on sa_id (set (cp_actions p))" using ok by (simp add: plan_ok_def distinct_map)
    then have "sa_id b \<noteq> sa_id a"
      using a(1) b e by (auto dest: inj_onD)
    then show ?thesis using b mark_applied_other by blast
  qed
  let ?p = "p\<lparr>cp_actions := mark_applied (sa_id a) (cp_actions p)\<rparr>"
  have acts: "\<forall>b \<in> set (cp_actions ?p). sa_scope b = h \<and> sa_kind b = action_kind (sa_owned b)"
    using ok by (auto simp: plan_ok_def dest!: mark_applied_mem)
  have empty: "sr_state r = SS_Cancelled \<longrightarrow> ?es = []" using ok by (simp add: plan_ok_def)
  have some: "?es \<noteq> [] \<longrightarrow> (\<exists>b \<in> set (cp_actions ?p). \<not> sa_applied b)"
    using covered by (metis list.set_sel(1) scope_cancel_plan.select_convs(3) scope_cancel_plan.surjective
        scope_cancel_plan.update_convs(3))
  have "plan_ok h ?p (settle_action p a r)"
    unfolding plan_ok_def
    using ok covered acts empty some by (simp add: plan_ok_def settle_action_def Let_def)
  then show ?thesis
    using st by (simp add: record_plan_ok_def settle_action_def Let_def)
qed

lemma scope_apply_inv:
  assumes inv: "scope_inv s"
  shows "scope_inv (fst (snd (cs_apply h k fn s x)))"
proof -
  have "scope_inv (upd_record r (settle_action p a) s)"
    if g: "cs_get s h = Inr r" and p: "sr_plan (record_at s r) = Some p"
      and a: "find (\<lambda>a. sa_id a = k) (cp_actions p) = Some a" "\<not> sa_applied a" for r p a
  proof (rule shrink_keeps_inv [OF inv keeps_tree_intros(4) inv_get(3,4) [OF inv g]])
    have ok: "record_plan_ok (scope_handle s r) (record_at s r)"
      by (rule inv_record(4) [OF inv inv_get(3,4) [OF inv g]])
    show "record_plan_ok (scope_handle s r) (settle_action p a (record_at s r))"
      using settle_plan_ok [OF p ok] find_SomeD [OF a(1)] a(2) by blast
    show "sr_state (settle_action p a (record_at s r)) = SS_Open \<longleftrightarrow> sr_state (record_at s r) = SS_Open"
      using ok p by (auto simp: record_plan_ok_def settle_action_def Let_def)
    show "distinct (map so_handle (sr_entries (settle_action p a (record_at s r))))"
      using inv_record(1) [OF inv inv_get(3) [OF inv g]] by (simp add: settle_action_def Let_def distinct_map_filter)
  qed (auto simp: settle_action_def Let_def)
  then show ?thesis
    using inv by (auto simp: cs_apply_def split: sum.splits option.splits prod.splits)
qed

section \<open>Observers\<close>

lemma observers_change:
  assumes "scope_inv s" "length obs \<le> cs_observers s" "\<forall>ob \<in> set obs. observer_ok s ob"
  shows "scope_inv (s\<lparr>cs_observations := obs\<rparr>)"
proof -
  let ?s = "s\<lparr>cs_observations := obs\<rparr>"
  have eq: "scope_handle ?s = scope_handle s" by (rule ext) (simp add: scope_handle_def)
  have live: "live_at ?s = live_at s" by (intro ext) (simp add: live_at_def eq)
  have edges: "pedges ?s = pedges s" by (simp add: pedges_def live)
  have "party_ok ?s = party_ok s" by (intro ext) (simp add: party_ok_def owned_at_def live edges)
  then have "observer_ok ?s = observer_ok s" by (intro ext) (simp add: observer_ok_def live)
  moreover have "entry_ok ?s = entry_ok s" by (intro ext) (simp add: entry_ok_def live eq)
  ultimately show ?thesis
    using assms by (simp add: scope_inv_defs small_def edges eq sole_owner_def)
qed

lemma sequence_change: "scope_inv (s\<lparr>cs_sequence := k\<rparr>) \<longleftrightarrow> scope_inv s"
proof -
  let ?s = "s\<lparr>cs_sequence := k\<rparr>"
  have eq: "scope_handle ?s = scope_handle s" by (rule ext) (simp add: scope_handle_def)
  have live: "live_at ?s = live_at s" by (intro ext) (simp add: live_at_def eq)
  have edges: "pedges ?s = pedges s" by (simp add: pedges_def live)
  have "party_ok ?s = party_ok s" by (intro ext) (simp add: party_ok_def owned_at_def live edges)
  then have "observer_ok ?s = observer_ok s" by (intro ext) (simp add: observer_ok_def live)
  moreover have "entry_ok ?s = entry_ok s" by (intro ext) (simp add: entry_ok_def live eq)
  ultimately show ?thesis
    by (simp add: scope_inv_defs small_def edges eq sole_owner_def)
qed

lemma owner_party:
  assumes inv: "scope_inv s" and acc: "accessible s" and j: "live_at s a j"
    and ow: "cs_owner_of s h = Some ow" "\<not> cs_inside s ow a"
  shows "party_ok s j h"
proof -
  have "\<not> owner_inside s (cs_owner_of s h) a" using ow by (simp add: owner_inside_def)
  then have "(i, j) \<notin> (pedges s)\<^sup>*" if "owned_at s h i" for i
    using that owner_inside_iff [OF inv_small [OF inv] inv_sole [OF inv] acc j] by blast
  moreover have "\<exists>i. owned_at s h i"
    using ow(1) owner_of_iff [OF inv_small [OF inv] inv_sole [OF inv] acc] by blast
  ultimately show ?thesis by (auto simp: party_ok_def owned_at_def)
qed

lemma observe_inv:
  assumes inv: "scope_inv s"
  shows "scope_inv (snd (cs_observe_cancel source process wait s))"
proof -
  let ?ob = "\<lparr>ob_id = cs_sequence s + 1, ob_source = source, ob_process = process, ob_wait = wait\<rparr>"
  have "scope_inv (s\<lparr>cs_sequence := cs_sequence s + 1, cs_observations := cs_observations s @ [?ob]\<rparr>)"
    if g: "cs_get s source = Inr r" and o: "cs_owner_of s process = Some po" "cs_owner_of s wait = Some wo"
      and t: "\<not> cs_inside s po source" "\<not> cs_inside s wo source" "length (cs_observations s) < cs_observers s" for r po wo
  proof -
    have "observer_ok s ?ob"
      using owner_party [OF inv inv_get(1,2) [OF inv g] o(1) t(1)] owner_party [OF inv inv_get(1,2) [OF inv g] o(2) t(2)]
        inv_get(2) [OF inv g] by (auto simp: observer_ok_def)
    then have "scope_inv (s\<lparr>cs_observations := cs_observations s @ [?ob]\<rparr>)"
      using t(3) inv by (intro observers_change inv) (auto simp: scope_inv_def observers_ok_def)
    moreover have "s\<lparr>cs_sequence := cs_sequence s + 1, cs_observations := cs_observations s @ [?ob]\<rparr> =
        s\<lparr>cs_observations := cs_observations s @ [?ob], cs_sequence := cs_sequence s + 1\<rparr>"
      by simp
    ultimately show ?thesis by (simp only: sequence_change)
  qed
  then show ?thesis
    using inv by (auto simp: cs_observe_cancel_def split: sum.splits option.splits)
qed

lemma release_observer_inv:
  assumes inv: "scope_inv s"
  shows "scope_inv (snd (cs_release_observer k s))"
proof -
  have "scope_inv (s\<lparr>cs_observations := remove1 ob (cs_observations s)\<rparr>)" for ob
    using inv set_remove1_subset [of ob "cs_observations s"]
    by (intro observers_change inv) (auto simp: scope_inv_def observers_ok_def length_remove1)
  then show ?thesis using inv by (auto simp: cs_release_observer_def split: option.splits)
qed

end
