(* ===== verification/Cancel_Scope_Tree.thy ===== *)
theory Cancel_Scope_Tree
  imports Cancel_Scope_Steps
begin

text \<open>
  The operations that change the shape of the scope tree keep the invariant: creating a child,
  moving an owned handle or a whole subtree to another scope, and closing a scope.
\<close>

section \<open>Moving\<close>

lemma acyclic_subset_insert:
  assumes "acyclic E" "E' \<subseteq> E" "(b, c) \<notin> E\<^sup>*"
  shows "acyclic (insert (c, b) E')"
proof -
  have "(b, c) \<notin> E'\<^sup>*" using assms(2,3) rtrancl_mono by blast
  then show ?thesis using acyclic_subset [OF assms(1,2)] by (simp add: acyclic_insert)
qed

lemma set_parent_simps [simp]:
  "sr_generation (set_parent p r) = sr_generation r" "sr_used (set_parent p r) = sr_used r"
  "sr_state (set_parent p r) = sr_state r" "sr_entries (set_parent p r) = sr_entries r"
  "sr_plan (set_parent p r) = sr_plan r" "sr_parent (set_parent p r) = p" "owns (set_parent p r) = owns r"
  by (auto simp: set_parent_def owns_def fun_eq_iff)

lemma reparent_handle [simp]: "scope_handle (upd_record c (set_parent p) s) = scope_handle s"
  by (rule ext) (simp add: scope_handle_def record_at_upd)

lemma reparent_live [simp]: "live_at (upd_record c (set_parent p) s) = live_at s"
  by (intro ext) (simp add: live_at_def record_at_upd)

lemma reparent_owned [simp]: "owned_at (upd_record c (set_parent p) s) = owned_at s"
  by (intro ext) (simp add: owned_at_def record_at_upd)

lemma reparent_owns [simp]: "owns (record_at (upd_record c (set_parent p) s) i) = owns (record_at s i)"
  by (simp add: record_at_upd)

lemma record_plan_cong:
  assumes "sr_plan r = sr_plan r'" "sr_state r = sr_state r'" "sr_entries r = sr_entries r'"
  shows "record_plan_ok h r \<longleftrightarrow> record_plan_ok h r'"
  using assms by (simp add: record_plan_ok_def plan_ok_def split: option.splits)

lemma reparent_edges:
  assumes "small s" "live_at s hc c" "c \<noteq> 0" "live_at s p b"
  shows "pedges (upd_record c (set_parent p) s) = insert (c, b) {(x, q) \<in> pedges s. x \<noteq> c}"
  using assms live_at_unique [OF assms(1) assms(4)]
  by (auto simp: pedges_def record_at_upd live_at_def split: if_splits)

lemma reparent_inv:
  assumes inv: "scope_inv s" and c: "live_at s hc c" "c \<noteq> 0"
    and b: "live_at s p b" "sr_state (record_at s b) = SS_Open" and nocycle: "(b, c) \<notin> (pedges s)\<^sup>*"
    and unowned: "\<forall>r \<in> set (cs_records s). \<not> owns r hc"
    and obs: "\<forall>ob \<in> set (cs_observations s). observer_ok (upd_record c (set_parent p) s) ob"
  shows "scope_inv (upd_record c (set_parent p) s)"
proof -
  let ?s = "upd_record c (set_parent p) s"
  note edges = reparent_edges [OF inv_small [OF inv] c b(1)]
  have st: "sr_state (record_at ?s i) = sr_state (record_at s i)" "sr_used (record_at ?s i) = sr_used (record_at s i)"
      "sr_entries (record_at ?s i) = sr_entries (record_at s i)" "sr_generation (record_at ?s i) = sr_generation (record_at s i)" 
      "owns (record_at ?s i) = owns (record_at s i)" "sr_plan (record_at ?s i) = sr_plan (record_at s i)" for i
    by (simp_all add: record_at_upd)
  have "acyclic (pedges ?s)"
    using inv nocycle unfolding edges
    by (intro acyclic_subset_insert [of "pedges s"]) (auto simp: scope_inv_def scope_tree_def)
  moreover have "\<exists>q. (i, q) \<in> pedges ?s \<and> (sr_state (record_at s q) \<noteq> SS_Open \<longrightarrow> sr_state (record_at s i) \<noteq> SS_Open)"
    if "i < length (cs_records s)" "sr_used (record_at s i)" "i \<noteq> 0" for i
    using that inv b(2) unfolding edges by (cases "i = c") (auto simp: scope_inv_def scope_tree_def)
  ultimately have "scope_tree ?s"
    using inv by (simp add: scope_inv_def scope_tree_def st small_def)
  moreover have "entry_ok ?s i e" if i: "i < length (cs_records s)" "e \<in> set (sr_entries (record_at s i))" for i e
  proof -
    have "owns (record_at s i) (so_handle e)" using i(2) by (auto simp: owns_iff)
    then have "so_handle e \<noteq> hc" using unowned i(1) by auto
    then have "k \<noteq> c" if "live_at s (so_handle e) k" for k
      using that c(1) by (auto simp: live_at_def)
    then have "record_at ?s k = record_at s k" if "live_at s (so_handle e) k" for k
      using that by (auto simp: record_at_upd)
    then show ?thesis
      using inv_record(3) [OF inv i] unfolding entry_ok_def reparent_live reparent_handle by (metis (no_types, lifting))
  qed
  then have "ownership_ok ?s"
    using inv by (simp add: scope_inv_def ownership_ok_def sole_owner_def st)
  moreover have "record_plan_ok h (record_at ?s i) \<longleftrightarrow> record_plan_ok h (record_at s i)" for h i
    by (rule record_plan_cong) (simp_all add: st)
  then have "plans_ok ?s" "generations_ok ?s"
    using inv by (simp_all add: scope_inv_def plans_ok_def generations_ok_def st)
  moreover have "observers_ok ?s" using inv obs by (simp add: scope_inv_def observers_ok_def)
  ultimately show ?thesis by (simp add: scope_inv_def)
qed

lemma drop_owns: "owns (drop_entry e r) h \<Longrightarrow> owns r h"
  using set_remove1_subset [of e "sr_entries r"] by (auto simp: owns_iff drop_entry_def)

lemma dropped_unowned:
  assumes inv: "scope_inv s" and a: "a < length (cs_records s)" and it: "it \<in> set (sr_entries (record_at s a))"
  shows "\<forall>r \<in> set (cs_records (upd_record a (drop_entry it) s)). \<not> owns r (so_handle it)"
proof
  fix r assume "r \<in> set (cs_records (upd_record a (drop_entry it) s))"
  then obtain k where k: "k < length (cs_records s)" "r = record_at (upd_record a (drop_entry it) s) k"
    by (metis in_set_conv_nth upd_record_simps(11))
  have inj: "inj_on so_handle (set (sr_entries (record_at s a)))" and "distinct (sr_entries (record_at s a))"
    using inv_record(1) [OF inv a] by (simp_all add: distinct_map)
  then have "set (remove1 it (sr_entries (record_at s a))) = set (sr_entries (record_at s a)) - {it}"
    by (simp add: set_remove1_eq)
  then have "so_handle it \<notin> so_handle ` set (remove1 it (sr_entries (record_at s a)))"
    using inj it by (auto dest: inj_onD)
  moreover have "owns (record_at s a) (so_handle it)" using it by (auto simp: owns_iff)
  ultimately show "\<not> owns r (so_handle it)"
    using k sole_ownerD [OF inv_sole [OF inv] k(1) a, of "so_handle it"]
    by (cases "k = a") (simp_all add: record_at_upd owns_iff drop_entry_def, blast)
qed

text \<open>What the searches for a captured observer mean on a store that satisfies the invariant.\<close>

lemma captures_keep:
  assumes "keeps_tree f"
  shows "captures (upd_record i f s) = captures s"
  using assms by (intro ext) (simp add: captures_def keeps_simps)

lemma transfer_not_captured:
  assumes inv: "scope_inv s" and acc: "accessible s" and b: "live_at s dest b"
    and t: "\<not> transfer_captured s obj dest"
  shows "\<not> captures s b obj"
proof
  assume "captures s b obj"
  then obtain ob j where ob: "ob \<in> set (cs_observations s)" "live_at s (ob_source ob) j"
      "ob_process ob = obj \<or> ob_wait ob = obj" "(b, j) \<in> (pedges s)\<^sup>*"
    by (auto simp: captures_def)
  then have "cs_inside s dest (ob_source ob)"
    using inside_iff [OF inv_small [OF inv] acc b] by blast
  then show False
    using t ob(1,3) by (auto simp: transfer_captured_def list_ex_iff owner_inside_def)
qed

lemma not_captured_observers:
  assumes sm: "small s" and own: "sole_owner s" and acc: "accessible s"
    and ob: "ob \<in> set (cs_observations s)" "live_at s (ob_source ob) j"
      "h = ob_process ob \<or> h = ob_wait ob" and t: "\<not> observer_captured s" and at: "owned_at s h i"
  shows "(i, j) \<notin> (pedges s)\<^sup>*"
proof -
  have "\<not> owner_inside s (cs_owner_of s h) (ob_source ob)"
    using t ob(1,3) by (auto simp: observer_captured_def list_ex_iff)
  then show ?thesis using owner_inside_iff [OF sm own acc ob(2)] at by blast
qed

lemma move_handle_inv:
  assumes inv: "scope_inv s" and acc: "accessible s" and ab: "live_at s src a" "live_at s dest b" "src \<noteq> dest"
    and it: "it \<in> set (sr_entries (record_at s a))" "so_kind it \<noteq> OK_ChildScope"
    and op: "sr_state (record_at s b) = SS_Open" and room: "length (sr_entries (record_at s b)) < cs_entries s"
    and t: "\<not> transfer_captured s (so_handle it) dest"
  shows "scope_inv (upd_record a (drop_entry it) (upd_record b (push_entry it) s))"
proof -
  let ?s = "upd_record a (drop_entry it) s"
  have a: "a < length (cs_records s)" "sr_used (record_at s a)" and b: "b < length (cs_records s)" "sr_used (record_at s b)"
    using ab by (auto simp: live_at_def)
  have ne: "a \<noteq> b" using ab by (auto simp: live_at_def)
  have rb: "record_at ?s b = record_at s b" using ne by (simp add: record_at_upd)
  have "entry_ok s a it" by (rule inv_record(3) [OF inv a(1) it(1)])
  then have "entry_ok ?s b it"
    using it(2) by (simp add: keeps_entry_ok keeps_tree_intros entry_ok_def)
  then have "scope_inv (upd_record b (push_entry it) ?s)"
    using transfer_not_captured [OF inv acc ab(2) t] dropped_unowned [OF inv a(1) it(1)] op room b
    by (intro push_keeps_inv drop_entry_keeps_inv inv a)
      (simp_all add: rb captures_keep keeps_tree_intros)
  then show ?thesis by (simp add: upd_record_commute [OF ne])
qed

lemma drop_observer_ok:
  assumes "observer_ok s ob"
  shows "observer_ok (upd_record a (drop_entry it) s) ob"
proof -
  have "party_ok (upd_record a (drop_entry it) s) j h" if "party_ok s j h" for j h
    by (rule party_upd [OF that keeps_tree_intros(2)]) (simp add: drop_owns)
  then show ?thesis
    using assms by (auto simp: observer_ok_def keeps_live [OF keeps_tree_intros(2)])
qed

lemma reparent_observer_ok:
  assumes inv: "scope_inv s" and acc: "accessible s" and ob: "ob \<in> set (cs_observations s)"
    and t: "\<not> observer_captured (upd_record c (set_parent dest) s)"
  shows "observer_ok (upd_record c (set_parent dest) s) ob"
proof -
  let ?t = "upd_record c (set_parent dest) s"
  obtain j where j: "live_at s (ob_source ob) j" "party_ok s j (ob_process ob)" "party_ok s j (ob_wait ob)"
    using inv ob by (auto simp: scope_inv_def observers_ok_def observer_ok_def)
  have st: "small ?t" "sole_owner ?t" "accessible ?t"
    using inv_small [OF inv] inv_sole [OF inv] acc by (simp_all add: small_def sole_owner_def accessible_def)
  have "party_ok ?t j h" if h: "h = ob_process ob \<or> h = ob_wait ob" for h
  proof -
    have "(i, j) \<notin> (pedges ?t)\<^sup>*" if "owned_at s h i" for i
      using not_captured_observers [OF st, of ob j h i] ob j(1) h t that by simp
    moreover have "h_kind h = HK_Scope \<longrightarrow> (\<exists>i. live_at s h i)" using j h by (auto simp: party_ok_def)
    ultimately show ?thesis by (simp add: party_ok_def)
  qed
  then show ?thesis using j(1) by (auto simp: observer_ok_def)
qed

lemma child_position:
  assumes inv: "scope_inv s" and a: "live_at s src a"
    and it: "it \<in> set (sr_entries (record_at s a))" "so_kind it = OK_ChildScope" and c: "live_at s (so_handle it) c"
  shows "c \<noteq> 0" "sr_parent (record_at s c) = scope_handle s a" "(c, a) \<in> pedges s" "a \<noteq> c"
proof -
  have "entry_ok s a it" using inv_record(3) [OF inv _ it(1)] a by (simp add: live_at_def)
  then show c0: "c \<noteq> 0" and pc: "sr_parent (record_at s c) = scope_handle s a"
    using it(2) live_at_unique [OF inv_small [OF inv] c] by (auto simp: entry_ok_def)
  show e: "(c, a) \<in> pedges s" using c a c0 pc by (simp add: pedges_iff live_at_def)
  show "a \<noteq> c" using inv e by (auto simp: scope_inv_def scope_tree_def acyclic_def)
qed

lemma child_not_captured:
  assumes inv: "scope_inv s" and c: "live_at s h c" "(c, b) \<in> pedges s"
  shows "\<not> captures s b h"
proof
  assume "captures s b h"
  then obtain ob j where ob: "ob \<in> set (cs_observations s)" "live_at s (ob_source ob) j"
      "h = ob_process ob \<or> h = ob_wait ob" "(b, j) \<in> (pedges s)\<^sup>*"
    by (auto simp: captures_def)
  have "owned_at s h c" using c live_kind [OF c(1)] by (simp add: owned_at_def)
  moreover have "party_ok s j h"
  proof -
    obtain j' where j': "live_at s (ob_source ob) j'" "party_ok s j' (ob_process ob)" "party_ok s j' (ob_wait ob)"
      using inv ob(1) unfolding scope_inv_def observers_ok_def observer_ok_def by blast
    have "j' = j" by (rule live_at_unique [OF inv_small [OF inv] j'(1) ob(2)])
    then show ?thesis using j' ob(3) by blast
  qed
  ultimately have "(c, j) \<notin> (pedges s)\<^sup>*" by (simp add: party_ok_def)
  then show False using ob(4) c(2) by (meson converse_rtrancl_into_rtrancl)
qed

lemma move_child_inv:
  assumes inv: "scope_inv s" and acc: "accessible s" and ab: "live_at s src a" "live_at s dest b" "src \<noteq> dest"
    and it: "it \<in> set (sr_entries (record_at s a))" "so_kind it = OK_ChildScope" and c: "live_at s (so_handle it) c"
    and op: "sr_state (record_at s b) = SS_Open" and room: "length (sr_entries (record_at s b)) < cs_entries s"
    and t: "\<not> cs_inside s dest (so_handle it)" "\<not> observer_captured (upd_record c (set_parent dest) s)"
  shows "scope_inv (upd_record a (drop_entry it) (upd_record c (set_parent dest) (upd_record b (push_entry it) s)))"
proof -
  let ?s = "upd_record a (drop_entry it) s"
  let ?c = "upd_record c (set_parent dest) ?s"
  note keep = keeps_tree_intros(2) and pos = child_position [OF inv ab(1) it c]
  have a: "a < length (cs_records s)" "sr_used (record_at s a)" and b: "b < length (cs_records s)" "sr_used (record_at s b)"
    using ab by (simp_all add: live_at_def)
  have ne: "a \<noteq> b" using ab by (auto simp: live_at_def)
  have cb: "(b, c) \<notin> (pedges s)\<^sup>*" using t(1) inside_iff [OF inv_small [OF inv] acc ab(2) c] by simp
  then have bc: "b \<noteq> c" by auto
  have rb: "record_at ?s b = record_at s b" "record_at ?c b = record_at s b" using ne bc by (simp_all add: record_at_upd)
  have live: "live_at ?s (so_handle it) c" "live_at ?s dest b" using c ab(2) by (simp_all add: keeps_live [OF keep])
  have swap: "?c = upd_record a (drop_entry it) (upd_record c (set_parent dest) s)"
    by (rule upd_record_commute) (use pos(4) in simp)
  have obs: "\<forall>ob \<in> set (cs_observations ?s). observer_ok ?c ob"
    using reparent_observer_ok [OF inv acc _ t(2)] unfolding swap by (auto intro: drop_observer_ok)
  have unowned: "\<forall>r \<in> set (cs_records ?s). \<not> owns r (so_handle it)" by (rule dropped_unowned [OF inv a(1) it(1)])
  have inv_c: "scope_inv ?c"
    by (rule reparent_inv [OF drop_entry_keeps_inv [OF inv a] live(1) pos(1) live(2) _ _ unowned obs])
      (simp_all add: rb op keeps_edges [OF keep] cb)
  have "(c, b) \<in> pedges ?c"
    using reparent_edges [OF inv_small [OF drop_entry_keeps_inv [OF inv a]] live(1) pos(1) live(2)] by simp
  then have "\<not> captures ?c b (so_handle it)" using child_not_captured [OF inv_c] live(1) by simp
  moreover have "record_at ?c c = set_parent dest (record_at s c)" "scope_handle ?c b = dest"
    using c ab(2) pos(4) by (simp_all add: record_at_upd live_at_def keeps_handle [OF keep])
  then have "entry_ok ?c b it"
    using it(2) live(1) pos(1) by (auto simp: entry_ok_def)
  moreover have "\<forall>r \<in> set (cs_records ?c). \<not> owns r (so_handle it)"
    using unowned by (metis in_set_conv_nth reparent_owns upd_record_simps(11))
  ultimately have "scope_inv (upd_record b (push_entry it) ?c)"
    using b op room by (intro push_keeps_inv inv_c) (simp_all add: rb)
  then show ?thesis
    using ne bc pos(4) by (simp add: upd_record_commute [of c b] upd_record_commute [of a b] upd_record_commute [of a c])
qed

lemma transfer_inv:
  assumes inv: "scope_inv s"
  shows "scope_inv (snd (cs_transfer obj src dest s))"
proof (cases "\<exists>s'. cs_transfer obj src dest s = (Inr (), s')")
  case True
  then obtain s' where r: "cs_transfer obj src dest s = (Inr (), s')" by blast
  obtain a b it where g: "cs_get s src = Inr a" "cs_get s dest = Inr b" "find_entry obj (record_at s a) = Some it"
    using r by (auto simp: cs_transfer_def split: sum.splits option.splits)
  note ia = inv_get [OF inv g(1)] and ib = inv_get [OF inv g(2)]
  have it: "it \<in> set (sr_entries (record_at s a))" "so_handle it = obj"
    using g(3) by (auto simp: find_entry_def dest: find_SomeD)
  show ?thesis
  proof (cases "src = dest")
    case True
    then show ?thesis using r g inv by (simp add: cs_transfer_def split: if_splits)
  next
    case ne: False
    have chk: "(if so_kind it = OK_ChildScope then child_transfer_check s obj dest else Inr ()) = Inr ()"
      "\<not> transfer_captured s obj dest" "sr_state (record_at s b) = SS_Open"
      "length (sr_entries (record_at s b)) < cs_entries s"
      using r g ne ib(6) by (auto simp: cs_transfer_def split: if_splits sum.splits)
    show ?thesis
    proof (cases "so_kind it = OK_ChildScope")
      case True
      then obtain c where c: "cs_get s obj = Inr c" "\<not> cs_inside s dest obj"
          "\<not> observer_captured (upd_record c (set_parent dest) s)"
        using chk(1) by (auto simp: child_transfer_check_def split: if_splits sum.splits)
      have "unat (h_slot obj) = c" by (rule live_slot [OF inv_small [OF inv] inv_get(2) [OF inv c(1)]])
      then show ?thesis
        using move_child_inv [OF inv ia(1,2) ib(2) ne it(1) True] it(2) inv_get(2) [OF inv c(1)] c chk r g ne True
        by (auto simp: cs_transfer_def Let_def split: if_splits)
    next
      case False
      then show ?thesis
        using move_handle_inv [OF inv ia(1,2) ib(2) ne it(1) False] it(2) chk r g ne
        by (auto simp: cs_transfer_def Let_def split: if_splits)
    qed
  qed
next
  case False
  then have "snd (cs_transfer obj src dest s) = s"
    by (auto simp: cs_transfer_def Let_def split: sum.splits option.splits if_splits)
  then show ?thesis using inv by simp
qed

end
