(* ===== verification/Cancel_Scope_Life.thy ===== *)
theory Cancel_Scope_Life
  imports Cancel_Scope_Tree
begin

text \<open>
  Creating, closing and cancelling scopes keeps the invariant of the scope store.
\<close>

section \<open>Creating a child\<close>

definition added_scope :: "nat \<Rightarrow> handle \<Rightarrow> scope_store \<Rightarrow> scope_store" where
  "added_scope i parent s =
     (upd_record i (open_child parent (cs_allocation s)) s)\<lparr>cs_allocation := cs_allocation s + 1\<rparr>"

lemma added_simps [simp]:
  "cs_domain (added_scope i h s) = cs_domain s" "cs_store (added_scope i h s) = cs_store s"
  "cs_entries (added_scope i h s) = cs_entries s" "cs_observers (added_scope i h s) = cs_observers s"
  "cs_observations (added_scope i h s) = cs_observations s"
  "cs_allocation (added_scope i h s) = cs_allocation s + 1"
  "length (cs_records (added_scope i h s)) = length (cs_records s)"
  by (simp_all add: added_scope_def)

lemma record_at_added:
  "record_at (added_scope i h s) j =
     (if i = j \<and> j < length (cs_records s) then open_child h (cs_allocation s) (record_at s i) else record_at s j)"
  by (simp add: added_scope_def record_at_upd)

lemma added_handle: "j \<noteq> i \<Longrightarrow> scope_handle (added_scope i h s) j = scope_handle s j"
  by (simp add: scope_handle_def record_at_added)

lemma added_live:
  assumes "i < length (cs_records s)" "\<not> sr_used (record_at s i)"
  shows "live_at (added_scope i h s) x j \<longleftrightarrow>
    (if j = i then x = scope_handle (added_scope i h s) i else live_at s x j)"
  using assms by (auto simp: live_at_def added_handle record_at_added open_child_def)

lemma inv_root: "scope_inv s \<Longrightarrow> sr_used (record_at s 0)"
  by (simp add: scope_inv_def scope_tree_def)

lemma inv_acyclic: "scope_inv s \<Longrightarrow> acyclic (pedges s)"
  by (simp add: scope_inv_def scope_tree_def)

lemma inv_parent:
  assumes "scope_inv s" "k < length (cs_records s)" "sr_used (record_at s k)" "k \<noteq> 0"
  shows "\<exists>q. (k, q) \<in> pedges s \<and> (sr_state (record_at s q) \<noteq> SS_Open \<longrightarrow> sr_state (record_at s k) \<noteq> SS_Open)"
  using assms unfolding scope_inv_def scope_tree_def by blast

lemma added_live_old:
  assumes inv: "scope_inv s" and i: "i < length (cs_records s)" "\<not> sr_used (record_at s i)" and r: "live_at s x r"
  shows "live_at (added_scope i h s) x q \<longleftrightarrow> q = r"
proof -
  have "unat (h_slot (scope_handle (added_scope i h s) i)) = i"
    using slot_of_handle [of "added_scope i h s" i] inv_small [OF inv] i(1) by (simp add: small_def)
  moreover have "unat (h_slot x) = r" "r \<noteq> i"
    using live_slot [OF inv_small [OF inv] r] r i(2) by (auto simp: live_at_def)
  ultimately have "x \<noteq> scope_handle (added_scope i h s) i" by metis
  then show ?thesis
    using r \<open>r \<noteq> i\<close> live_at_unique [OF inv_small [OF inv] r, of q] unfolding added_live [OF i] by auto
qed

lemma added_edges:
  assumes inv: "scope_inv s" and i: "i < length (cs_records s)" "\<not> sr_used (record_at s i)" and p: "live_at s h p"
  shows "pedges (added_scope i h s) = insert (i, p) (pedges s)"
proof -
  have i0: "i \<noteq> 0" using inv_root [OF inv] i(2) by metis
  have "(k, q) \<in> pedges (added_scope i h s) \<longleftrightarrow> (k, q) \<in> insert (i, p) (pedges s)" for k q
  proof (cases "k = i")
    case True
    then show ?thesis
      using i i0 added_live_old [OF inv i p] by (simp add: pedges_iff record_at_added open_child_def)
  next
    case False
    show ?thesis
    proof (cases "k < length (cs_records s) \<and> sr_used (record_at s k) \<and> k \<noteq> 0")
      case True
      then obtain r where r: "live_at s (sr_parent (record_at s k)) r"
        using inv by (auto simp: scope_inv_def scope_tree_def pedges_iff)
      show ?thesis
        using False True added_live_old [OF inv i r] live_at_unique [OF inv_small [OF inv] r, of q] r
        by (auto simp: pedges_iff record_at_added)
    qed (use False in \<open>auto simp: pedges_iff record_at_added\<close>)
  qed
  then show ?thesis by auto
qed

lemma no_path_to_unused:
  assumes "(k, j) \<in> (insert (i, p) (pedges s))\<^sup>*" "k \<noteq> i" "\<not> sr_used (record_at s i)" "p \<noteq> i"
  shows "j \<noteq> i \<and> (k, j) \<in> (pedges s)\<^sup>*"
  using assms(1)
proof (induction rule: rtrancl_induct)
  case (step y z)
  then have "(y, z) \<in> pedges s" by auto
  moreover have "z \<noteq> i" using \<open>(y, z) \<in> pedges s\<close> assms(3) by (auto simp: pedges_iff live_at_def)
  ultimately show ?case using step.IH by (meson rtrancl.rtrancl_into_rtrancl)
qed (use assms in auto)

lemma added_tree:
  assumes inv: "scope_inv s" and i: "i < length (cs_records s)" "\<not> sr_used (record_at s i)"
    and p: "live_at s h p" "sr_state (record_at s p) = SS_Open"
  shows "scope_tree (added_scope i h s)"
proof -
  let ?s = "added_scope i h s"
  note edges = added_edges [OF inv i p(1)]
  have pi: "p \<noteq> i" using p i(2) by (auto simp: live_at_def)
  have i0: "i \<noteq> 0" using inv_root [OF inv] i(2) by metis
  have "(p, i) \<notin> (pedges s)\<^sup>*"
  proof
    assume "(p, i) \<in> (pedges s)\<^sup>*"
    then have "(p, i) \<in> (insert (i, p) (pedges s))\<^sup>*" using rtrancl_mono [OF subset_insertI] by blast
    from no_path_to_unused [OF this pi i(2) pi] show False by simp
  qed
  then have "acyclic (pedges ?s)"
    unfolding edges using inv by (simp add: scope_inv_def scope_tree_def acyclic_insert)
  moreover have "\<exists>q. (k, q) \<in> pedges ?s \<and> (sr_state (record_at ?s q) \<noteq> SS_Open \<longrightarrow> sr_state (record_at ?s k) \<noteq> SS_Open)"
    if k: "k < length (cs_records s)" "sr_used (record_at ?s k)" "k \<noteq> 0" for k
  proof (cases "k = i")
    case True
    then show ?thesis using pi p(2) by (intro exI [of _ p]) (simp add: edges record_at_added)
  next
    case False
    then have "sr_used (record_at s k)" using k(2) by (simp add: record_at_added)
    then obtain q where q: "(k, q) \<in> pedges s" "sr_state (record_at s q) \<noteq> SS_Open \<longrightarrow> sr_state (record_at s k) \<noteq> SS_Open"
      using inv_parent [OF inv k(1) _ k(3)] by blast
    have "q \<noteq> i" using q(1) i(2) by (auto simp: pedges_iff live_at_def)
    then have "record_at ?s q = record_at s q" "record_at ?s k = record_at s k"
      using False by (simp_all add: record_at_added)
    then show ?thesis using q by (intro exI [of _ q]) (simp add: edges)
  qed
  moreover have "sr_used (record_at ?s 0)" using inv_root [OF inv] i0 by (simp add: record_at_added)
  ultimately show ?thesis
    using inv_small [OF inv] by (simp add: scope_tree_def small_def)
qed

lemma added_party:
  assumes inv: "scope_inv s" and i: "i < length (cs_records s)" "\<not> sr_used (record_at s i)"
    and p: "live_at s h p" and ok: "party_ok s j x"
  shows "party_ok (added_scope i h s) j x"
proof -
  let ?s = "added_scope i h s"
  have pi: "p \<noteq> i" using p i(2) by (auto simp: live_at_def)
  have old: "owned_at s x k \<and> k \<noteq> i" if k: "owned_at ?s x k" for k
  proof (cases "h_kind x = HK_Scope")
    case True
    then obtain m where m: "live_at s x m" using ok by (auto simp: party_ok_def)
    then have "m \<noteq> i" using i(2) by (auto simp: live_at_def)
    then have "live_at ?s x m" using m i by (simp add: added_live)
    moreover have "live_at ?s x k" using k True by (simp add: owned_at_def)
    moreover have "small ?s" using inv_small [OF inv] by (simp add: small_def)
    ultimately have "k = m" using live_at_unique by blast
    then show ?thesis using m \<open>m \<noteq> i\<close> True by (simp add: owned_at_def)
  next
    case False
    then show ?thesis
      using k i by (auto simp: owned_at_def record_at_added owns_def open_child_def split: if_splits)
  qed
  have "(k, j) \<notin> (pedges ?s)\<^sup>*" if "owned_at ?s x k" for k
    using old [OF that] ok no_path_to_unused [of k j i p s] i(2) pi
    unfolding added_edges [OF inv i p] party_ok_def by blast
  moreover have "\<exists>m. live_at ?s x m" if sc: "h_kind x = HK_Scope"
  proof -
    obtain m where m: "live_at s x m" using sc ok by (auto simp: party_ok_def)
    moreover have "m \<noteq> i" using m i(2) by (auto simp: live_at_def)
    ultimately show ?thesis using i by (auto simp: added_live)
  qed
  ultimately show ?thesis by (simp add: party_ok_def)
qed

lemma added_entry_ok:
  assumes inv: "scope_inv s" and i: "i < length (cs_records s)" "\<not> sr_used (record_at s i)"
    and k: "k \<noteq> i" and ok: "entry_ok s k e"
  shows "entry_ok (added_scope i h s) k e"
proof (cases "so_kind e = OK_ChildScope")
  case True
  then obtain c where c: "live_at s (so_handle e) c" "c \<noteq> 0" "sr_parent (record_at s c) = scope_handle s k"
    using ok by (auto simp: entry_ok_def)
  then have "c \<noteq> i" using i(2) by (auto simp: live_at_def)
  then show ?thesis
    using True c k i by (auto simp: entry_ok_def added_live added_handle record_at_added intro!: exI [of _ c])
qed (use ok in \<open>simp add: entry_ok_def\<close>)

lemma added_inv:
  assumes inv: "scope_inv s" and i: "i < length (cs_records s)" "\<not> sr_used (record_at s i)"
    and p: "live_at s h p" "sr_state (record_at s p) = SS_Open" and room: "cs_allocation s \<noteq> UINT64_MAX"
  shows "scope_inv (added_scope i h s)"
proof -
  let ?s = "added_scope i h s"
  have empty: "sr_entries (record_at s i) = []" using inv i by (simp add: scope_inv_def ownership_ok_def)
  have ent: "sr_entries (record_at ?s k) = sr_entries (record_at s k)" for k
    using empty by (auto simp: record_at_added open_child_def)
  then have owns: "owns (record_at ?s k) = owns (record_at s k)" for k by (simp add: owns_def fun_eq_iff)
  have gen: "x < cs_allocation s + 1" if "x \<le> cs_allocation s" for x
    using that not_max_lessI [OF room] by (meson order.strict_trans1)
  have gens: "generations_ok ?s"
    using inv gen by (auto simp: scope_inv_def generations_ok_def record_at_added open_child_def less_imp_le)
  have "entry_ok ?s k e" if "k < length (cs_records s)" "e \<in> set (sr_entries (record_at s k))" for k e
    using that empty added_entry_ok [OF inv i _ inv_record(3) [OF inv that]] by (cases "k = i") auto
  moreover have "sole_owner ?s" using inv_sole [OF inv] by (simp add: sole_owner_def owns)
  moreover have "sr_used (record_at ?s k)" if "sr_used (record_at s k)" for k
    using that i(2) by (auto simp: record_at_added open_child_def)
  ultimately have "ownership_ok ?s"
    using inv empty unfolding scope_inv_def ownership_ok_def ent by (metis added_simps(3,7))
  moreover have "record_plan_ok (scope_handle ?s k) (record_at ?s k)"
    if "k < length (cs_records s)" "sr_used (record_at ?s k)" for k
    using that inv_record(4) [OF inv that(1)]
    by (cases "k = i") (simp_all add: record_at_added added_handle record_plan_ok_def open_child_def)
  then have "plans_ok ?s" by (simp add: plans_ok_def)
  moreover have "observer_ok ?s ob" if ob: "observer_ok s ob" for ob
  proof -
    obtain j where j: "live_at s (ob_source ob) j" "party_ok s j (ob_process ob)" "party_ok s j (ob_wait ob)"
      using ob by (auto simp: observer_ok_def)
    then have "j \<noteq> i" using i(2) by (auto simp: live_at_def)
    then show ?thesis
      using j i added_party [OF inv i p(1)] by (auto simp: observer_ok_def added_live intro!: exI [of _ j])
  qed
  then have "observers_ok ?s" using inv by (simp add: scope_inv_def observers_ok_def)
  ultimately show ?thesis using gens added_tree [OF inv i p] by (simp add: scope_inv_def)
qed

lemma create_success:
  assumes inv: "scope_inv s" and r: "cs_create parent s = (Inr h, s')"
  obtains i p where "cs_get s parent = Inr p" "sr_state (record_at s p) = SS_Open" "i < length (cs_records s)"
    "\<not> sr_used (record_at s i)" "i \<noteq> 0" "cs_allocation s \<noteq> UINT64_MAX" "length (sr_entries (record_at s p)) < cs_entries s"
    "h = scope_handle (added_scope i parent s) i"
    "s' = upd_record p (push_entry \<lparr>so_handle = h, so_kind = OK_ChildScope, so_published = False\<rparr>) (added_scope i parent s)"
proof -
  obtain p where p: "cs_get s parent = Inr p" using r by (auto simp: cs_create_def split: sum.splits)
  obtain i where i: "find (\<lambda>i. \<not> sr_used (record_at s i) \<and> sr_generation (record_at s i) \<noteq> UINT64_MAX)
      [1..<length (cs_records s)] = Some i"
    using r p by (auto simp: cs_create_def split: if_splits option.splits)
  from find_SomeD [OF i] have "i < length (cs_records s)" "i \<noteq> 0" "\<not> sr_used (record_at s i)" by auto
  then show thesis
    using that [of p i] r p i inv_get(6) [OF inv p]
    by (auto simp: cs_create_def added_scope_def Let_def split: if_splits)
qed

lemma scope_create_inv:
  assumes inv: "scope_inv s"
  shows "scope_inv (snd (cs_create parent s))"
proof (cases "fst (cs_create parent s)")
  case (Inl e)
  then have "snd (cs_create parent s) = s"
    by (auto simp: cs_create_def Let_def split: sum.splits option.splits if_splits)
  then show ?thesis using inv by simp
next
  case (Inr h)
  then obtain i p where r: "cs_get s parent = Inr p" "sr_state (record_at s p) = SS_Open" "i < length (cs_records s)"
      "\<not> sr_used (record_at s i)" "i \<noteq> 0" "cs_allocation s \<noteq> UINT64_MAX" "length (sr_entries (record_at s p)) < cs_entries s"
      "h = scope_handle (added_scope i parent s) i"
      "snd (cs_create parent s) = upd_record p (push_entry \<lparr>so_handle = h, so_kind = OK_ChildScope, so_published = False\<rparr>) (added_scope i parent s)"
    using create_success [OF inv, of parent h "snd (cs_create parent s)"] by (metis prod.collapse)
  let ?s = "added_scope i parent s"
  note p = inv_get [OF inv r(1)]
  have inv': "scope_inv ?s" by (rule added_inv [OF inv r(3,4) p(2) r(2,6)])
  have pi: "p \<noteq> i" using p(4) r(4) by metis
  have live: "live_at ?s h i" using r(3,4,8) by (simp add: added_live)
  have edge: "(i, p) \<in> pedges ?s" by (simp add: added_edges [OF inv r(3,4) p(2)])
  have "\<not> owns (record_at ?s k) h" if k: "k < length (cs_records s)" for k
  proof
    assume "owns (record_at ?s k) h"
    then obtain e where e: "e \<in> set (sr_entries (record_at ?s k))" "so_handle e = h" by (auto simp: owns_iff)
    have "k \<noteq> i" using e(1) r(3) by (auto simp: record_at_added open_child_def)
    then have "entry_ok s k e" using inv_record(3) [OF inv k] e(1) by (simp add: record_at_added)
    then obtain c where "live_at s h c"
      using e(2) live_kind [OF live] by (auto simp: entry_ok_def split: if_splits)
    then show False using live r(4) added_live_old [OF inv r(3,4), of h c parent i] by (auto simp: live_at_def)
  qed
  then have "\<forall>r \<in> set (cs_records ?s). \<not> owns r h" by (metis added_simps(7) in_set_conv_nth)
  moreover have "entry_ok ?s p \<lparr>so_handle = h, so_kind = OK_ChildScope, so_published = False\<rparr>"
    using live r(3,5) p(5) pi by (auto simp: entry_ok_def record_at_added open_child_def added_handle)
  ultimately show ?thesis
    unfolding r(9)
    by (intro push_keeps_inv inv')
      (use p r(2,7) pi child_not_captured [OF inv' live edge] in \<open>simp_all add: record_at_added\<close>)
qed

section \<open>Closing a scope\<close>

lemma retired_simps [simp]:
  "sr_used (retire_record q) = False" "sr_entries (retire_record q) = sr_entries q"
  "owns (retire_record q) = owns q"
  by (auto simp: retire_record_def owns_def fun_eq_iff)

lemma retired_handle: "j \<noteq> r \<Longrightarrow> scope_handle (upd_record r retire_record s) j = scope_handle s j"
  by (simp add: scope_handle_def record_at_upd)

lemma retired_live: "live_at (upd_record r retire_record s) x j \<longleftrightarrow> j \<noteq> r \<and> live_at s x j"
  by (cases "j = r") (auto simp: live_at_def retired_handle record_at_upd)

lemma retired_edges:
  assumes "live_at s h r" "\<forall>k < length (cs_records s). sr_used (record_at s k) \<longrightarrow> sr_parent (record_at s k) \<noteq> h"
  shows "pedges (upd_record r retire_record s) = {(k, q) \<in> pedges s. k \<noteq> r}"
proof -
  have "q \<noteq> r" if "(k, q) \<in> pedges s" for k q
    using that assms by (auto simp: pedges_iff live_at_def)
  then have "(k, q) \<in> pedges (upd_record r retire_record s) \<longleftrightarrow> (k, q) \<in> pedges s \<and> k \<noteq> r" for k q
    unfolding pedges_iff retired_live by (cases "k = r") (auto simp: record_at_upd)
  then show ?thesis by auto
qed

lemma retired_tree:
  assumes inv: "scope_inv s" and r: "live_at s h r" "r \<noteq> 0"
    and child: "\<forall>k < length (cs_records s). sr_used (record_at s k) \<longrightarrow> sr_parent (record_at s k) \<noteq> h"
  shows "scope_tree (upd_record r retire_record s)"
proof -
  let ?s = "upd_record r retire_record s"
  note edges = retired_edges [OF r(1) child]
  have "acyclic (pedges ?s)"
    unfolding edges by (rule acyclic_subset [OF inv_acyclic [OF inv]]) blast
  moreover have "\<exists>q. (k, q) \<in> pedges ?s \<and> (sr_state (record_at ?s q) \<noteq> SS_Open \<longrightarrow> sr_state (record_at ?s k) \<noteq> SS_Open)"
    if k: "k < length (cs_records s)" "sr_used (record_at ?s k)" "k \<noteq> 0" for k
  proof -
    have kr: "k \<noteq> r" using k by (auto simp: record_at_upd)
    then have "sr_used (record_at s k)" using k(2) by (simp add: record_at_upd)
    then obtain q where q: "(k, q) \<in> pedges s" "sr_state (record_at s q) \<noteq> SS_Open \<longrightarrow> sr_state (record_at s k) \<noteq> SS_Open"
      using inv_parent [OF inv k(1) _ k(3)] by blast
    have "q \<noteq> r" using q(1) child r(1) unfolding pedges_iff live_at_def by metis
    then have "record_at ?s q = record_at s q" "record_at ?s k = record_at s k"
      using kr by (simp_all add: record_at_upd)
    then show ?thesis using q kr by (intro exI [of _ q]) (simp add: edges)
  qed
  moreover have "sr_used (record_at ?s 0)" using inv_root [OF inv] r(2) by (simp add: record_at_upd)
  ultimately show ?thesis
    using inv_small [OF inv] by (simp add: scope_tree_def small_def)
qed

lemma retired_observer:
  assumes inv: "scope_inv s" and r: "live_at s h r"
    and child: "\<forall>k < length (cs_records s). sr_used (record_at s k) \<longrightarrow> sr_parent (record_at s k) \<noteq> h"
    and ob: "observer_ok s ob" "ob_source ob \<noteq> h" "ob_process ob \<noteq> h" "ob_wait ob \<noteq> h"
  shows "observer_ok (upd_record r retire_record s) ob"
proof -
  let ?s = "upd_record r retire_record s"
  obtain j where j: "live_at s (ob_source ob) j" "party_ok s j (ob_process ob)" "party_ok s j (ob_wait ob)"
    using ob(1) by (auto simp: observer_ok_def)
  have ne: "k \<noteq> r" if "live_at s x k" "x \<noteq> h" for x k using that r by (auto simp: live_at_def)
  have sub: "(pedges ?s)\<^sup>* \<subseteq> (pedges s)\<^sup>*" by (rule rtrancl_mono) (auto simp: retired_edges [OF r child])
  have "party_ok ?s j x" if x: "party_ok s j x" "x \<noteq> h" for x
  proof -
    have "owned_at s x k" if "owned_at ?s x k" for k
      using that by (auto simp: owned_at_def retired_live record_at_upd split: if_splits)
    then have "(k, j) \<notin> (pedges ?s)\<^sup>*" if "owned_at ?s x k" for k
      using that x(1) sub unfolding party_ok_def by blast
    moreover have "\<exists>k. live_at ?s x k" if "h_kind x = HK_Scope"
      using that x ne unfolding party_ok_def retired_live by blast
    ultimately show ?thesis by (simp add: party_ok_def)
  qed
  then show ?thesis
    using j ob(2-4) ne [OF j(1) ob(2)] by (auto simp: observer_ok_def retired_live intro!: exI [of _ j])
qed

lemma scope_retire_inv:
  assumes inv: "scope_inv s" and r: "live_at s h r" "r \<noteq> 0" "sr_entries (record_at s r) = []"
    and child: "\<forall>k < length (cs_records s). sr_used (record_at s k) \<longrightarrow> sr_parent (record_at s k) \<noteq> h"
    and unowned: "\<forall>k < length (cs_records s). \<not> owns (record_at s k) h"
    and obs: "\<forall>ob \<in> set (cs_observations s). ob_source ob \<noteq> h \<and> ob_process ob \<noteq> h \<and> ob_wait ob \<noteq> h"
  shows "scope_inv (upd_record r retire_record s)"
proof -
  let ?s = "upd_record r retire_record s"
  have rl: "r < length (cs_records s)" "sr_used (record_at s r)" using r(1) by (simp_all add: live_at_def)
  have ent: "sr_entries (record_at ?s k) = sr_entries (record_at s k)" for k by (simp add: record_at_upd)
  then have owns: "owns (record_at ?s k) = owns (record_at s k)" for k by (simp add: owns_def fun_eq_iff)
  have "sr_generation (record_at s r) < cs_allocation s"
    using inv rl by (simp add: scope_inv_def generations_ok_def)
  then have "sr_generation (retire_record (record_at s r)) \<le> cs_allocation s"
    by (auto simp: retire_record_def inc_le)
  then have gens: "generations_ok ?s"
    using inv by (auto simp: scope_inv_def generations_ok_def record_at_upd)
  have "entry_ok ?s k e" if k: "k < length (cs_records s)" "e \<in> set (sr_entries (record_at s k))" for k e
  proof -
    have kr: "k \<noteq> r" using k(2) r(3) by auto
    have "so_handle e \<noteq> h" using unowned k by (auto simp: owns_iff)
    then have "c \<noteq> r \<and> record_at ?s c = record_at s c" if "live_at s (so_handle e) c" for c
      using that r(1) by (auto simp: live_at_def record_at_upd)
    then show ?thesis
      using inv_record(3) [OF inv k] unfolding entry_ok_def retired_live retired_handle [OF kr]
      by (metis (no_types, lifting))
  qed
  moreover have "sole_owner ?s" using inv_sole [OF inv] by (simp add: sole_owner_def owns)
  moreover have "\<not> sr_used (record_at s k) \<or> k = r" if "\<not> sr_used (record_at ?s k)" for k
    using that by (auto simp: record_at_upd split: if_splits)
  ultimately have own: "ownership_ok ?s"
    using inv r(3) unfolding scope_inv_def ownership_ok_def ent by (metis upd_record_simps(3,11))
  have "record_plan_ok (scope_handle ?s k) (record_at ?s k)"
    if "k < length (cs_records s)" "sr_used (record_at ?s k)" for k
    using that inv_record(4) [OF inv that(1)] rl
    by (cases "k = r") (simp_all add: record_at_upd retired_handle)
  then have "plans_ok ?s" by (simp add: plans_ok_def)
  moreover have "observers_ok ?s"
    using inv obs retired_observer [OF inv r(1) child] by (simp add: scope_inv_def observers_ok_def)
  ultimately show ?thesis
    using gens own retired_tree [OF inv r(1,2) child] by (simp add: scope_inv_def)
qed

lemma scope_owner_is_parent:
  assumes inv: "scope_inv s" and h: "live_at s h r" and k: "k < length (cs_records s)" "owns (record_at s k) h"
  shows "sr_parent (record_at s r) = scope_handle s k"
proof -
  obtain e where e: "e \<in> set (sr_entries (record_at s k))" "so_handle e = h" using k(2) by (auto simp: owns_iff)
  then show ?thesis
    using inv_record(3) [OF inv k(1) e(1)] live_kind [OF h] live_at_unique [OF inv_small [OF inv] h]
    by (auto simp: entry_ok_def split: if_splits)
qed

lemma close_inv:
  assumes inv: "scope_inv s"
  shows "scope_inv (snd (cs_close h s))"
proof (cases "fst (cs_close h s)")
  case (Inl e)
  then have "snd (cs_close h s) = s"
    by (auto simp: cs_close_def Let_def split: sum.splits if_splits)
  then show ?thesis using inv by simp
next
  case (Inr u)
  then obtain r where r: "cs_get s h = Inr r" by (auto simp: cs_close_def split: sum.splits)
  note g = inv_get [OF inv r]
  have c: "r \<noteq> 0" "sr_entries (record_at s r) = []" "\<forall>q \<in> set (cs_records s). sr_used q \<longrightarrow> sr_parent q \<noteq> h"
      "\<forall>ob \<in> set (cs_observations s). ob_source ob \<noteq> h \<and> ob_process ob \<noteq> h \<and> ob_wait ob \<noteq> h"
    using Inr r live_slot_0 [OF inv_small [OF inv] g(2)]
    by (auto simp: cs_close_def list_ex_iff Let_def split: if_splits)
  obtain p where p: "(r, p) \<in> pedges s" using inv_parent [OF inv g(3,4) c(1)] by blast
  then have lp: "live_at s (sr_parent (record_at s r)) p" by (simp add: pedges_iff)
  have pl: "p < length (cs_records s)" "sr_used (record_at s p)" using lp by (simp_all add: live_at_def)
  have pr: "p \<noteq> r" using p inv by (auto simp: scope_inv_def scope_tree_def acyclic_def)
  let ?s = "upd_record p (drop_handle h) s"
  note keep = keeps_tree_intros(3)
  have res: "snd (cs_close h s) = upd_record r retire_record ?s"
    using Inr r cs_get_live [OF inv_small [OF inv] g(1) lp] by (auto simp: cs_close_def Let_def split: if_splits)
  have "\<not> owns (record_at ?s k) h" if k: "k < length (cs_records s)" for k
  proof (cases "k = p")
    case True
    then show ?thesis using pl by (auto simp: record_at_upd owns_iff drop_handle_def)
  next
    case False
    then have "\<not> owns (record_at s k) h"
      using scope_owner_is_parent [OF inv g(2) k] lp k pl slot_of_handle [OF inv_small [OF inv]] by (metis live_at_def)
    then show ?thesis using False by (simp add: record_at_upd)
  qed
  moreover have "sr_parent (record_at ?s k) \<noteq> h" if "k < length (cs_records s)" "sr_used (record_at ?s k)" for k
    using that c(3) by (simp add: keeps_used [OF keep] keeps_parent [OF keep])
  moreover have "sr_entries (record_at ?s r) = []" "live_at ?s h r"
    using c(2) pr g(2) by (simp_all add: record_at_upd keeps_live [OF keep])
  ultimately show ?thesis
    unfolding res using c(1,4) by (intro scope_retire_inv [where h = h] drop_handle_keeps_inv inv pl) simp_all
qed

section \<open>Cancelling\<close>

lemma plan_actions_owned [simp]: "map sa_owned (plan_actions h q es) = es"
  by (induction es arbitrary: q) auto

lemma plan_actions_ids:
  "map sa_id (plan_actions h q es) = map (\<lambda>n. q + of_nat (Suc n)) [0..<length es]"
proof (induction es arbitrary: q)
  case (Cons e es)
  have "map (\<lambda>n. q + of_nat (Suc n)) [0..<Suc (length es)] =
      (q + 1) # map (\<lambda>n. q + 1 + of_nat (Suc n)) [0..<length es]"
    by (subst upt_conv_Cons) (simp_all add: map_Suc_upt [symmetric] o_def add.assoc del: upt_Suc)
  then show ?case using Cons by simp
qed simp

lemma plan_actions_distinct:
  assumes "length es < 2 ^ 64"
  shows "distinct (map sa_id (plan_actions h q es))"
  unfolding plan_actions_ids distinct_map
proof (intro conjI inj_onI)
  fix m n assume "m \<in> set [0..<length es]" "n \<in> set [0..<length es]"
    and "q + of_nat (Suc m) = q + of_nat (Suc n)"
  then have "(of_nat (Suc m) :: u64) = of_nat (Suc n)" "Suc m < 2 ^ 64 + 1" "Suc n < 2 ^ 64 + 1" "m < 2 ^ 64" "n < 2 ^ 64"
    using assms by (auto simp del: of_nat_Suc)
  then have "(of_nat m :: u64) = of_nat n" by simp
  then have "unat (of_nat m :: u64) = unat (of_nat n :: u64)" by simp
  then show "m = n" using \<open>m < 2 ^ 64\<close> \<open>n < 2 ^ 64\<close> by (simp add: unat_of_nat take_bit_nat_eq_self)
qed simp

lemma plan_actions_mem:
  "a \<in> set (plan_actions h q es) \<Longrightarrow>
   sa_scope a = h \<and> sa_owned a \<in> set es \<and> sa_kind a = action_kind (sa_owned a) \<and> \<not> sa_applied a"
  by (induction es arbitrary: q) auto

text \<open>The record of a scope after \<open>cancel\<close> made its plan from a sequence number.\<close>

definition planned :: "string \<Rightarrow> handle \<Rightarrow> u64 \<Rightarrow> scope_record \<Rightarrow> scope_record" where
  "planned reason h q r = r\<lparr>
     sr_plan := Some \<lparr>cp_scope = h, cp_reason = reason, cp_actions = plan_actions h q (sr_entries r)\<rparr>,
     sr_state := if sr_entries r = [] then SS_Cancelled else SS_Cancelling\<rparr>"

lemma planned_simps [simp]:
  "sr_generation (planned reason h q r) = sr_generation r" "sr_used (planned reason h q r) = sr_used r"
  "sr_parent (planned reason h q r) = sr_parent r" "sr_entries (planned reason h q r) = sr_entries r"
  "sr_state (planned reason h q r) \<noteq> SS_Open"
  by (simp_all add: planned_def)

lemma planned_ok:
  assumes "distinct (map so_handle (sr_entries r))" "length (sr_entries r) < 2 ^ 64"
  shows "record_plan_ok h (planned reason h q r)"
proof -
  let ?as = "plan_actions h q (sr_entries r)"
  have "map (\<lambda>a. so_handle (sa_owned a)) ?as = map so_handle (map sa_owned ?as)"
    by (simp add: comp_def del: plan_actions_owned)
  then have handles: "map (\<lambda>a. so_handle (sa_owned a)) ?as = map so_handle (sr_entries r)" by simp
  have covered: "\<exists>a \<in> set ?as. \<not> sa_applied a \<and> sa_owned a = e" if "e \<in> set (sr_entries r)" for e
  proof -
    have "e \<in> set (map sa_owned ?as)" using that by simp
    then obtain a where "a \<in> set ?as" "sa_owned a = e" by (auto simp del: plan_actions_owned)
    then show ?thesis using plan_actions_mem by blast
  qed
  have "\<forall>a \<in> set ?as. sa_scope a = h \<and> sa_kind a = action_kind (sa_owned a)" using plan_actions_mem by blast
  moreover have "\<exists>a \<in> set ?as. \<not> sa_applied a" if "sr_entries r \<noteq> []"
    using covered [of "hd (sr_entries r)"] that by auto
  ultimately show ?thesis
    using assms(1) handles covered plan_actions_distinct [OF assms(2)]
    by (simp add: record_plan_ok_def planned_def plan_ok_def)
qed

definition same_frame :: "scope_store \<Rightarrow> scope_store \<Rightarrow> bool" where
  "same_frame s s' \<longleftrightarrow> cs_domain s' = cs_domain s \<and> cs_store s' = cs_store s \<and> cs_entries s' = cs_entries s \<and>
     cs_actions s' = cs_actions s \<and> cs_observers s' = cs_observers s \<and> cs_observations s' = cs_observations s \<and>
     cs_pending s' = cs_pending s \<and> cs_transaction s' = cs_transaction s \<and> cs_allocation s' = cs_allocation s \<and>
     length (cs_records s') = length (cs_records s)"

lemma plan_scope_frame: "same_frame s (plan_scope reason i s)"
  by (simp add: same_frame_def plan_scope_def Let_def)

lemma fold_plan_scope:
  assumes "distinct is" "\<forall>i \<in> set is. i < length (cs_records s)"
  shows "same_frame s (fold (plan_scope reason) is s) \<and>
    (\<exists>q. \<forall>j. record_at (fold (plan_scope reason) is s) j =
      (if j \<in> set is then planned reason (scope_handle s j) (q j) (record_at s j) else record_at s j))"
  using assms
proof (induction "is" arbitrary: s)
  case Nil
  then show ?case by (simp add: same_frame_def)
next
  case (Cons i "is")
  let ?s = "plan_scope reason i s"
  note frame = plan_scope_frame [of s reason i]
  have rec: "record_at ?s j = (if j = i then planned reason (scope_handle s i) (cs_sequence s) (record_at s i) else record_at s j)" for j
    using Cons.prems(2) by (auto simp: plan_scope_def Let_def upd_record_def nth_update_total planned_def)
  have hd: "scope_handle ?s j = scope_handle s j" for j
    using frame unfolding scope_handle_def rec by (simp add: same_frame_def)
  obtain q where q: "\<forall>j. record_at (fold (plan_scope reason) is ?s) j =
        (if j \<in> set is then planned reason (scope_handle ?s j) (q j) (record_at ?s j) else record_at ?s j)"
      "same_frame ?s (fold (plan_scope reason) is ?s)"
    using Cons.IH [of ?s] Cons.prems frame by (auto simp: same_frame_def)
  have "record_at (fold (plan_scope reason) (i # is) s) j =
      (if j \<in> set (i # is) then planned reason (scope_handle s j) ((q(i := cs_sequence s)) j) (record_at s j) else record_at s j)" for j
    using q(1) Cons.prems(1) by (auto simp: rec hd)
  moreover have "same_frame s (fold (plan_scope reason) (i # is) s)"
    using q(2) frame by (simp add: same_frame_def)
  ultimately show ?case by blast
qed

text \<open>The scopes that \<open>cancel\<close> plans for.\<close>

definition cancelled_by :: "scope_store \<Rightarrow> handle \<Rightarrow> nat \<Rightarrow> bool" where
  "cancelled_by s h i \<longleftrightarrow> sr_used (record_at s i) \<and> cs_inside s (scope_handle s i) h \<and>
     sr_state (record_at s i) = SS_Open"

lemma cancel_closure_result:
  assumes "cancel_closure s h is cl n = Inr (cl', n')"
  shows "cl' = cl @ filter (cancelled_by s h) is \<and>
    n' = n + (\<Sum>i\<leftarrow>filter (cancelled_by s h) is. length (sr_entries (record_at s i))) \<and>
    (n \<le> cs_actions s \<longrightarrow> n' \<le> cs_actions s)"
  using assms
proof (induction "is" arbitrary: cl n)
  case (Cons i "is")
  show ?case
  proof (cases "cancelled_by s h i")
    case True
    then have "cancel_closure s h is (cl @ [i]) (n + length (sr_entries (record_at s i))) = Inr (cl', n')"
      "length (sr_entries (record_at s i)) \<le> cs_actions s - min (cs_actions s) n"
      using Cons.prems by (auto simp: cancelled_by_def split: if_splits)
    with Cons.IH [OF this(1)] True show ?thesis by auto
  next
    case False
    then show ?thesis using Cons.IH [of cl n] Cons.prems by (auto simp: cancelled_by_def split: if_splits)
  qed
qed simp

lemma cancel_success:
  assumes inv: "scope_inv s" and g: "cs_get s h = Inr r" and p: "sr_plan (record_at s r) = None"
    and c: "cs_cancel h reason s = (Inr plan, s')"
  obtains cl q where "cl = filter (cancelled_by s h) [0..<length (cs_records s)]"
    "s' = fold (plan_scope reason) cl s" "same_frame s s'"
    "\<forall>j. record_at s' j = (if j \<in> set cl then planned reason (scope_handle s j) (q j) (record_at s j) else record_at s j)"
    "(\<Sum>i\<leftarrow>cl. length (sr_entries (record_at s i))) \<le> cs_actions s"
    "(\<Sum>i\<leftarrow>cl. length (sr_entries (record_at s i))) < 2 ^ 64" "r \<in> set cl" "plan = the (sr_plan (record_at s' r))"
proof -
  obtain cl n where cl: "cancel_closure s h [0..<length (cs_records s)] [] 0 = Inr (cl, n)"
      "n \<le> unat (UINT64_MAX - cs_sequence s)" "s' = fold (plan_scope reason) cl s"
      "plan = the (sr_plan (record_at s' r))" "sr_state (record_at s r) = SS_Open"
    using c g p by (auto simp: cs_cancel_def Let_def split: if_splits sum.splits)
  have res: "cl = filter (cancelled_by s h) [0..<length (cs_records s)]"
      "n = (\<Sum>i\<leftarrow>cl. length (sr_entries (record_at s i)))" "n \<le> cs_actions s"
    using cancel_closure_result [OF cl(1)] by simp_all
  have "unat (UINT64_MAX - cs_sequence s) < 2 ^ 64" using unsigned_less [of "UINT64_MAX - cs_sequence s"] by simp
  then have n: "n < 2 ^ 64" using cl(2) by simp
  have "cancelled_by s h r"
    using inv_get(4,5) [OF inv g] cl(5) inside_iff [OF inv_small [OF inv] inv_get(1,2,2) [OF inv g]]
    by (simp add: cancelled_by_def)
  then have r: "r \<in> set cl" using res(1) inv_get(3) [OF inv g] by simp
  have cl_ok: "distinct cl" "\<forall>i \<in> set cl. i < length (cs_records s)" by (simp_all add: res(1))
  then obtain q where q: "\<forall>j. record_at s' j =
      (if j \<in> set cl then planned reason (scope_handle s j) (q j) (record_at s j) else record_at s j)"
    using fold_plan_scope [OF cl_ok] unfolding cl(3) by blast
  have "same_frame s s'" using fold_plan_scope [OF cl_ok] unfolding cl(3) by blast
  then show thesis
    by (rule that [OF res(1) cl(3) _ q]) (use res n r cl(4) in simp_all)
qed

lemma same_frame_tree:
  assumes f: "same_frame s s'"
    and r: "\<And>j. sr_generation (record_at s' j) = sr_generation (record_at s j) \<and>
      sr_used (record_at s' j) = sr_used (record_at s j) \<and> sr_parent (record_at s' j) = sr_parent (record_at s j) \<and>
      sr_entries (record_at s' j) = sr_entries (record_at s j)"
  shows "scope_handle s' = scope_handle s" "live_at s' = live_at s" "pedges s' = pedges s" "entry_ok s' = entry_ok s"
    "owned_at s' = owned_at s" "ownership_ok s' = ownership_ok s" "generations_ok s' = generations_ok s"
    "observers_ok s' = observers_ok s"
proof -
  show h: "scope_handle s' = scope_handle s" using f r by (auto simp: scope_handle_def same_frame_def)
  show l: "live_at s' = live_at s" using f r by (intro ext) (simp add: live_at_def h same_frame_def)
  show e: "pedges s' = pedges s" using f r by (simp add: pedges_def l same_frame_def)
  show eo: "entry_ok s' = entry_ok s" using r by (intro ext) (simp add: entry_ok_def l h)
  have ow: "owns (record_at s' j) = owns (record_at s j)" for j using r by (simp add: owns_def fun_eq_iff)
  show oa: "owned_at s' = owned_at s" using f r by (intro ext) (simp add: owned_at_def l ow same_frame_def)
  show "ownership_ok s' = ownership_ok s"
    using f r by (simp add: ownership_ok_def sole_owner_def ow eo same_frame_def)
  show "generations_ok s' = generations_ok s" using f r by (simp add: generations_ok_def same_frame_def)
  have "party_ok s' = party_ok s" by (intro ext) (simp add: party_ok_def oa l e)
  then have "observer_ok s' = observer_ok s" by (intro ext) (simp add: observer_ok_def l)
  then show "observers_ok s' = observers_ok s" using f by (simp add: observers_ok_def same_frame_def)
qed

lemma length_entry_le_sum:
  "i \<in> set xs \<Longrightarrow> f i \<le> (\<Sum>x\<leftarrow>xs. f x :: nat)"
  by (rule member_le_sum_list) simp_all

lemma cancelled_by_iff:
  assumes inv: "scope_inv s" and g: "cs_get s h = Inr r" and i: "i < length (cs_records s)"
  shows "cancelled_by s h i \<longleftrightarrow>
    sr_used (record_at s i) \<and> sr_state (record_at s i) = SS_Open \<and> (i, r) \<in> (pedges s)\<^sup>*"
  using inside_iff [OF inv_small [OF inv] inv_get(1) [OF inv g] _ inv_get(2) [OF inv g], of "scope_handle s i" i] i
  by (auto simp: cancelled_by_def live_at_def)

lemma cancel_inv:
  assumes inv: "scope_inv s"
  shows "scope_inv (snd (cs_cancel h reason s))"
proof (cases "\<exists>r plan. cs_get s h = Inr r \<and> sr_plan (record_at s r) = None \<and> fst (cs_cancel h reason s) = Inr plan")
  case False
  then have "snd (cs_cancel h reason s) = s"
    by (auto simp: cs_cancel_def Let_def split: sum.splits option.splits if_splits)
  then show ?thesis using inv by simp
next
  case True
  then obtain r plan where g: "cs_get s h = Inr r" and p: "sr_plan (record_at s r) = None"
    and c: "cs_cancel h reason s = (Inr plan, snd (cs_cancel h reason s))" by (metis prod.collapse)
  let ?s = "snd (cs_cancel h reason s)"
  from inv g p c obtain cl q where cl: "cl = filter (cancelled_by s h) [0..<length (cs_records s)]"
    and "?s = fold (plan_scope reason) cl s" and frame: "same_frame s ?s"
    and rec: "\<forall>j. record_at ?s j = (if j \<in> set cl then planned reason (scope_handle s j) (q j) (record_at s j) else record_at s j)"
    and "(\<Sum>i\<leftarrow>cl. length (sr_entries (record_at s i))) \<le> cs_actions s"
    and few: "(\<Sum>i\<leftarrow>cl. length (sr_entries (record_at s i))) < 2 ^ 64"
    and "r \<in> set cl" and "plan = the (sr_plan (record_at ?s r))"
    by (rule cancel_success)
  have keep: "sr_generation (record_at ?s j) = sr_generation (record_at s j) \<and>
      sr_used (record_at ?s j) = sr_used (record_at s j) \<and> sr_parent (record_at ?s j) = sr_parent (record_at s j) \<and>
      sr_entries (record_at ?s j) = sr_entries (record_at s j)" for j
    by (simp add: rec)
  have in_cl: "i \<in> set cl \<longleftrightarrow> i < length (cs_records s) \<and> sr_used (record_at s i) \<and>
      sr_state (record_at s i) = SS_Open \<and> (i, r) \<in> (pedges s)\<^sup>*" for i
    using cancelled_by_iff [OF inv g, of i] by (auto simp: cl)
  note same = same_frame_tree [OF frame keep]
  have len: "length (cs_records ?s) = length (cs_records s)" using frame by (simp add: same_frame_def)
  have "\<exists>u. (k, u) \<in> pedges s \<and> (sr_state (record_at ?s u) \<noteq> SS_Open \<longrightarrow> sr_state (record_at ?s k) \<noteq> SS_Open)"
    if k: "k < length (cs_records s)" "sr_used (record_at s k)" "k \<noteq> 0" for k
  proof -
    obtain u where u: "(k, u) \<in> pedges s" "sr_state (record_at s u) \<noteq> SS_Open \<longrightarrow> sr_state (record_at s k) \<noteq> SS_Open"
      using inv_parent [OF inv k] by blast
    have "sr_state (record_at ?s k) \<noteq> SS_Open" if "sr_state (record_at ?s u) \<noteq> SS_Open"
    proof (cases "k \<in> set cl")
      case False
      have "u \<notin> set cl \<or> sr_state (record_at s k) \<noteq> SS_Open"
        using False k u(1) in_cl [of k] in_cl [of u] by (meson converse_rtrancl_into_rtrancl)
      then show ?thesis using False that u(2) by (auto simp: rec)
    qed (simp add: rec)
    then show ?thesis using u(1) by blast
  qed
  then have tree: "scope_tree ?s"
    using inv_small [OF inv] inv_acyclic [OF inv] inv_root [OF inv] keep
    by (simp add: scope_tree_def same(3) len small_def)
  have "record_plan_ok (scope_handle s k) (record_at ?s k)" if k: "k < length (cs_records s)" "sr_used (record_at s k)" for k
  proof (cases "k \<in> set cl")
    case True
    have "length (sr_entries (record_at s k)) < 2 ^ 64"
      using few length_entry_le_sum [OF True, of "\<lambda>i. length (sr_entries (record_at s i))"] by linarith
    then show ?thesis using True planned_ok [OF inv_record(1) [OF inv k(1)]] by (simp add: rec)
  qed (use inv_record(4) [OF inv k] in \<open>simp add: rec\<close>)
  then have "plans_ok ?s" using keep by (simp add: plans_ok_def len same(1))
  then show ?thesis using tree inv same(6-8) by (simp add: scope_inv_def)
qed

end
