(* ===== verification/Cancel_Scope_Props.thy ===== *)
theory Cancel_Scope_Props
  imports Cancel_Scope_Life
begin

text \<open>
  The properties of the scope store: its invariant in every reachable state, what cancelling a
  scope does to the scopes below it, that a cancelled scope stays frozen and a closed one stale
  for ever, that applying the plan completes the cancellation, and that observers are not
  cancelled together with the scope they observe.
\<close>

section \<open>Histories\<close>

text \<open>
  One successful or failing call. What a caller attaches is the handle of some work, not of a
  scope, and is not a handle that an observer already waits on.
\<close>

inductive scope_step :: "scope_store \<Rightarrow> scope_store \<Rightarrow> bool" where
  create: "scope_step s (snd (cs_create parent s))"
| attach: "h_kind (so_handle x) \<noteq> HK_Scope \<Longrightarrow> unobserved s (so_handle x) \<Longrightarrow> scope_step s (snd (cs_attach x h s))"
| transfer: "scope_step s (snd (cs_transfer obj src dest s))"
| replace: "h_kind (so_handle x) \<noteq> HK_Scope \<Longrightarrow> unobserved s (so_handle x) \<Longrightarrow>
    scope_step s (snd (cs_replace_owned old x h s))"
| detach: "scope_step s (snd (cs_detach_completed obj h s))"
| cancel: "scope_step s (snd (cs_cancel h reason s))"
| apply_action: "scope_step s (fst (snd (cs_apply h k (fn :: (scope_cancel_action \<Rightarrow> unit \<Rightarrow> unit expected \<times> unit) option) s x)))"
| close: "scope_step s (snd (cs_close h s))"
| observe: "scope_step s (snd (cs_observe_cancel source process wait s))"
| release: "scope_step s (snd (cs_release_observer k s))"

inductive scope_reachable :: "scope_store \<Rightarrow> bool" where
  new: "CancelScopeStore_new d n e a ob next = (Some s, next') \<Longrightarrow> n \<le> 2 ^ 32 \<Longrightarrow> scope_reachable s"
| step: "scope_reachable s \<Longrightarrow> scope_step s s' \<Longrightarrow> scope_reachable s'"

lemma scope_new_inv:
  assumes "CancelScopeStore_new d n e a ob next = (Some s, next')" "n \<le> 2 ^ 32"
  shows "scope_inv s" "cs_pending s = 0"
proof -
  have s: "0 < n" "length (cs_records s) = n" "cs_allocation s = 2" "cs_observations s = []" "cs_pending s = 0"
    and rec: "\<And>i. i < n \<Longrightarrow> record_at s i = (if i = 0 then empty_record\<lparr>sr_used := True\<rparr> else empty_record)"
    using assms(1) by (auto simp: CancelScopeStore_new_def nth_list_update split: option.splits prod.splits if_splits)
  have edges: "pedges s = {}" using s rec by (auto simp: pedges_def empty_record_def)
  have "scope_tree s" using s rec assms(2) by (simp add: scope_tree_def small_def edges acyclic_def empty_record_def)
  moreover have "generations_ok s" using s rec by (simp add: generations_ok_def empty_record_def)
  moreover have "ownership_ok s"
    using s rec by (simp add: ownership_ok_def sole_owner_def empty_record_def owns_def)
  moreover have "plans_ok s" using s rec by (simp add: plans_ok_def record_plan_ok_def empty_record_def)
  moreover have "observers_ok s" using s by (simp add: observers_ok_def)
  ultimately show "scope_inv s" "cs_pending s = 0" using s by (simp_all add: scope_inv_def)
qed

lemma step_inv: "scope_step s s' \<Longrightarrow> scope_inv s \<Longrightarrow> scope_inv s'"
  by (induction rule: scope_step.induct)
    (simp_all add: scope_create_inv attach_inv transfer_inv replace_inv detach_inv cancel_inv scope_apply_inv close_inv
       observe_inv release_observer_inv)

lemma fold_plan_pending: "cs_pending (fold (plan_scope reason) is s) = cs_pending s"
  by (induction "is" arbitrary: s) (simp_all add: plan_scope_def Let_def)

lemma step_pending: "scope_step s s' \<Longrightarrow> cs_pending s' = cs_pending s"
proof (induction rule: scope_step.induct)
  case (cancel s h reason)
  then show ?case by (auto simp: cs_cancel_def Let_def fold_plan_pending split: sum.splits option.splits)
qed (auto simp: cs_create_def cs_attach_def cs_transfer_def cs_replace_owned_def cs_detach_completed_def cs_apply_def
    cs_close_def cs_observe_cancel_def cs_release_observer_def Let_def split: sum.splits option.splits prod.splits)

lemma scope_store_inv: "scope_reachable s \<Longrightarrow> scope_inv s \<and> cs_pending s = 0"
  by (induction rule: scope_reachable.induct) (simp_all add: scope_new_inv step_inv step_pending)

lemma reachable_facts:
  assumes "scope_reachable s"
  shows "scope_inv s" "accessible s"
  using scope_store_inv [OF assms] by (simp_all add: accessible_def)

section \<open>Frozen for ever\<close>

text \<open>
  No call reopens a scope: an open scope of the new state was open before or has a generation
  that had not been issued before.
\<close>

definition no_revival :: "scope_store \<Rightarrow> scope_store \<Rightarrow> bool" where
  "no_revival s s' \<longleftrightarrow> cs_domain s' = cs_domain s \<and> cs_store s' = cs_store s \<and>
     length (cs_records s') = length (cs_records s) \<and> cs_allocation s \<le> cs_allocation s' \<and>
     (\<forall>i < length (cs_records s). sr_used (record_at s' i) \<longrightarrow> sr_state (record_at s' i) = SS_Open \<longrightarrow>
        cs_allocation s \<le> sr_generation (record_at s' i) \<or>
        sr_used (record_at s i) \<and> sr_state (record_at s i) = SS_Open \<and>
        sr_generation (record_at s' i) = sr_generation (record_at s i))"

lemma no_revival_refl [simp]: "no_revival s s"
  by (simp add: no_revival_def)

lemma no_revival_trans:
  assumes "no_revival s t" "no_revival t u"
  shows "no_revival s u"
  unfolding no_revival_def
proof (intro conjI allI impI)
  show "cs_allocation s \<le> cs_allocation u" using assms by (auto simp: no_revival_def)
  fix i assume i: "i < length (cs_records s)" and u: "sr_used (record_at u i)" "sr_state (record_at u i) = SS_Open"
  have "i < length (cs_records t)" using assms(1) i by (simp add: no_revival_def)
  then have "cs_allocation t \<le> sr_generation (record_at u i) \<or> sr_used (record_at t i) \<and>
      sr_state (record_at t i) = SS_Open \<and> sr_generation (record_at u i) = sr_generation (record_at t i)"
    using assms(2) u by (simp add: no_revival_def)
  then show "cs_allocation s \<le> sr_generation (record_at u i) \<or> sr_used (record_at s i) \<and>
      sr_state (record_at s i) = SS_Open \<and> sr_generation (record_at u i) = sr_generation (record_at s i)"
    using assms(1) i by (auto simp: no_revival_def)
qed (use assms in \<open>simp_all add: no_revival_def\<close>)

lemma no_revival_upd:
  assumes "\<And>r. sr_used (f r) \<Longrightarrow> sr_state (f r) = SS_Open \<Longrightarrow>
      sr_used r \<and> sr_state r = SS_Open \<and> sr_generation (f r) = sr_generation r"
  shows "no_revival s (upd_record i f s)"
  using assms by (auto simp: no_revival_def record_at_upd)

lemma no_revival_fields:
  "no_revival s (s\<lparr>cs_sequence := k, cs_observations := obs\<rparr>)" "no_revival s (s\<lparr>cs_observations := obs\<rparr>)"
  "no_revival s (s\<lparr>cs_sequence := k\<rparr>)"
  by (simp_all add: no_revival_def)

lemma no_revival_records:
  "no_revival s (upd_record i (push_entry e) s)" "no_revival s (upd_record i (drop_entry e) s)"
  "no_revival s (upd_record i (drop_handle h) s)" "no_revival s (upd_record i (set_parent h) s)"
  "no_revival s (upd_record i retire_record s)" "no_revival s (upd_record i (settle_action p a) s)"
  "no_revival s (upd_record i (\<lambda>q. q\<lparr>sr_entries := g (sr_entries q)\<rparr>) s)"
  by (rule no_revival_upd;
      auto simp: push_entry_def drop_entry_def drop_handle_def retire_record_def settle_action_def Let_def
        split: if_splits)+

lemmas no_revival_after = no_revival_records [THEN no_revival_trans [rotated]]

lemma no_revival_plan: "no_revival s (plan_scope reason i s)"
proof -
  have "no_revival s (upd_record i (planned reason (scope_handle s i) (cs_sequence s)) s)"
    by (rule no_revival_upd) simp
  then show ?thesis
    by (simp add: no_revival_def plan_scope_def Let_def upd_record_def nth_update_total planned_def cong: if_cong)
qed

lemma no_revival_fold: "no_revival s (fold (plan_scope reason) is s)"
  by (induction "is" arbitrary: s) (auto intro: no_revival_trans no_revival_plan)

lemma no_revival_added:
  assumes "cs_allocation s \<noteq> UINT64_MAX"
  shows "no_revival s (added_scope i h s)"
  using not_max_lessI [OF assms] by (auto simp: no_revival_def record_at_added open_child_def less_imp_le)

lemma step_no_revival: "scope_step s s' \<Longrightarrow> no_revival s s'"
proof (induction rule: scope_step.induct)
  case (create s parent)
  then show ?case
    by (auto simp: cs_create_def Let_def added_scope_def [symmetric] split: sum.splits option.splits
        intro!: no_revival_after no_revival_added)
next
  case (transfer s obj src dest)
  then show ?case
    by (auto simp: cs_transfer_def Let_def split: sum.splits option.splits
        intro!: no_revival_after)
next
  case (close s h)
  then show ?case
    by (auto simp: cs_close_def Let_def split: sum.splits intro!: no_revival_after)
next
  case (cancel s h reason)
  then show ?case
    by (auto simp: cs_cancel_def Let_def no_revival_fold split: sum.splits option.splits)
qed (auto simp: cs_attach_def cs_replace_owned_def cs_detach_completed_def cs_apply_def
    cs_observe_cancel_def cs_release_observer_def no_revival_records no_revival_fields
    split: sum.splits option.splits prod.splits)

lemma steps_no_revival: "scope_step\<^sup>*\<^sup>* s s' \<Longrightarrow> no_revival s s'"
  by (induction rule: rtranclp_induct) (auto intro: no_revival_trans step_no_revival)

lemma steps_reachable: "scope_step\<^sup>*\<^sup>* s s' \<Longrightarrow> scope_reachable s \<Longrightarrow> scope_reachable s'"
  by (induction rule: rtranclp_induct) (auto intro: scope_reachable.step)

text \<open>A handle that was issued and names no open scope is refused from then on.\<close>

lemma refused_for_ever:
  assumes reach: "scope_reachable s'" and nr: "no_revival s s'"
    and issued: "h_generation h < cs_allocation s" and dead: "\<And>i. live_at s h i \<Longrightarrow> sr_state (record_at s i) \<noteq> SS_Open"
  shows "isl (cs_validate_owner h True s') \<and> isl (fst (cs_create h s')) \<and> isl (fst (cs_attach x h s')) \<and>
    isl (fst (cs_transfer obj src h s'))"
proof (cases "cs_get s' h")
  case (Inl e)
  then show ?thesis
    by (auto simp: cs_validate_owner_def cs_create_def cs_attach_def cs_transfer_def split: sum.splits)
next
  case (Inr i)
  note inv = reachable_facts(1) [OF reach]
  note g = inv_get [OF inv Inr]
  have "sr_state (record_at s' i) \<noteq> SS_Open"
  proof
    assume op: "sr_state (record_at s' i) = SS_Open"
    have "i < length (cs_records s)" "h_generation h = sr_generation (record_at s' i)"
      using nr g(3,5) by (simp_all add: no_revival_def scope_handle_def)
    then have "sr_used (record_at s i)" "sr_state (record_at s i) = SS_Open"
        "sr_generation (record_at s' i) = sr_generation (record_at s i)"
      using nr g(4) op issued by (auto simp: no_revival_def)
    moreover then have "h = scope_handle s i"
      using nr g(5) by (simp add: no_revival_def scope_handle_def)
    ultimately show False
      using dead [of i] \<open>i < length (cs_records s)\<close> by (simp add: live_at_def)
  qed
  then have "cs_frozen s' h" using g(6) by simp
  then show ?thesis
    using Inr by (auto simp: cs_validate_owner_def cs_create_def cs_attach_def cs_transfer_def split: sum.splits option.splits)
qed

section \<open>A sample store\<close>

definition demo_task :: scope_owned where
  "demo_task = \<lparr>so_handle = \<lparr>h_kind = HK_Task, h_domain = 1, h_store = 9, h_slot = 0, h_generation = 1, h_owner = 0\<rparr>,
     so_kind = OK_Task, so_published = False\<rparr>"

definition demo_wait :: scope_owned where
  "demo_wait = \<lparr>so_handle = \<lparr>h_kind = HK_Wait, h_domain = 1, h_store = 9, h_slot = 1, h_generation = 1, h_owner = 0\<rparr>,
     so_kind = OK_Wait, so_published = True\<rparr>"

definition demo_scope_handle :: "u32 \<Rightarrow> u64 \<Rightarrow> handle" where
  "demo_scope_handle i g = \<lparr>h_kind = HK_Scope, h_domain = 1, h_store = 7, h_slot = i, h_generation = g, h_owner = 0\<rparr>"

abbreviation demo_child :: handle where
  "demo_child \<equiv> demo_scope_handle 1 2"

definition demo_owned_scope :: "handle \<Rightarrow> scope_owned" where
  "demo_owned_scope h = \<lparr>so_handle = h, so_kind = OK_ChildScope, so_published = False\<rparr>"

definition demo_record :: "u64 \<Rightarrow> handle \<Rightarrow> scope_owned list \<Rightarrow> scope_record" where
  "demo_record g p es = \<lparr>sr_generation = g, sr_used = True, sr_parent = p, sr_state = SS_Open, sr_entries = es, sr_plan = None\<rparr>"

definition demo_store :: "scope_record list \<Rightarrow> u64 \<Rightarrow> scope_store" where
  "demo_store rs g = \<lparr>cs_domain = 1, cs_store = 7, cs_entries = 4, cs_actions = 8, cs_observers = 2, cs_sequence = 0,
     cs_records = rs, cs_observations = [], cs_pending = 0, cs_transaction = None, cs_allocation = g\<rparr>"

definition demo_scopes0 :: scope_store where
  "demo_scopes0 = demo_store [demo_record 1 default_handle [], empty_record, empty_record] 2"

definition demo_scopes1 :: scope_store where
  "demo_scopes1 = demo_store [demo_record 1 default_handle [demo_owned_scope demo_child],
     demo_record 2 (demo_scope_handle 0 1) [], empty_record] 3"

definition demo_scopes2 :: scope_store where
  "demo_scopes2 = demo_store [demo_record 1 default_handle [demo_owned_scope demo_child],
     demo_record 2 (demo_scope_handle 0 1) [demo_task], empty_record] 3"

definition demo_scopes3 :: scope_store where
  "demo_scopes3 = demo_store [demo_record 1 default_handle [demo_owned_scope demo_child],
     demo_record 2 (demo_scope_handle 0 1) [demo_task, demo_owned_scope (demo_scope_handle 2 3)],
     demo_record 3 demo_child []] 4"

definition demo_scopes4 :: scope_store where
  "demo_scopes4 = demo_store [demo_record 1 default_handle [demo_owned_scope demo_child, demo_wait],
     demo_record 2 (demo_scope_handle 0 1) [demo_task, demo_owned_scope (demo_scope_handle 2 3)],
     demo_record 3 demo_child []] 4"

text \<open>The root owns a waiting process; its child owns a task and a grandchild and is observed.\<close>

definition demo_scopes :: scope_store where
  "demo_scopes = demo_scopes4\<lparr>cs_sequence := 1, cs_observations :=
     [\<lparr>ob_id = 1, ob_source = demo_child, ob_process = so_handle demo_wait, ob_wait = so_handle demo_wait\<rparr>]\<rparr>"

definition demo_plan :: scope_cancel_plan where
  "demo_plan = \<lparr>cp_scope = demo_child, cp_reason = ''stop'', cp_actions =
     [\<lparr>sa_id = 2, sa_scope = demo_child, sa_owned = demo_task, sa_kind = CA_CancelChild, sa_applied = False\<rparr>,
      \<lparr>sa_id = 3, sa_scope = demo_child, sa_owned = demo_owned_scope (demo_scope_handle 2 3), sa_kind = CA_CancelChild,
       sa_applied = False\<rparr>]\<rparr>"

definition demo_cancelled :: scope_store where
  "demo_cancelled = demo_scopes\<lparr>cs_sequence := 3, cs_records :=
     [demo_record 1 default_handle [demo_owned_scope demo_child, demo_wait],
      (demo_record 2 (demo_scope_handle 0 1) [demo_task, demo_owned_scope (demo_scope_handle 2 3)])
        \<lparr>sr_state := SS_Cancelling, sr_plan := Some demo_plan\<rparr>,
      (demo_record 3 demo_child [])\<lparr>sr_state := SS_Cancelled,
         sr_plan := Some \<lparr>cp_scope = demo_scope_handle 2 3, cp_reason = ''stop'', cp_actions = []\<rparr>\<rparr>]\<rparr>"

lemma demo_scope_new: "CancelScopeStore_new 1 3 4 8 2 7 = (Some demo_scopes0, 8)"
  by (simp add: CancelScopeStore_new_def allocate_store_incarnation_def demo_scopes0_def demo_store_def demo_record_def
      empty_record_def numeral_3_eq_3)

text \<open>The comparison of the action count with the sequence numbers left, over integers.\<close>

lemma cs_cancel_code [code]:
  "cs_cancel h reason s =
     (if length reason > 256 then (fail Capacity ''cancel reason bytes'', s)
      else case cs_get s h of
        Inl e \<Rightarrow> (Inl e, s)
      | Inr r \<Rightarrow>
         (case sr_plan (record_at s r) of
            Some p \<Rightarrow> (Inr p, s)
          | None \<Rightarrow>
             (if sr_state (record_at s r) \<noteq> SS_Open then (fail InvalidState ''scope closed'', s)
              else case cancel_closure s h [0..<length (cs_records s)] [] 0 of
                Inl e \<Rightarrow> (Inl e, s)
              | Inr (closure, count) \<Rightarrow>
                 (if int count > uint (UINT64_MAX - cs_sequence s)
                  then (fail Overflow ''cancel sequence'', s)
                  else (let s' = fold (plan_scope reason) closure s in
                        (Inr (the (sr_plan (record_at s' r))), s'))))))"
proof -
  have eq: "int n > uint w \<longleftrightarrow> n > unat w" for n and w :: u64
    by (metis of_nat_less_iff uint_nat)
  show ?thesis unfolding cs_cancel_def eq by (rule refl)
qed

lemma demo_scope_steps:
  "cs_create (cs_root demo_scopes0) demo_scopes0 = (Inr demo_child, demo_scopes1)"
  "cs_attach demo_task demo_child demo_scopes1 = (Inr (), demo_scopes2)"
  "cs_create demo_child demo_scopes2 = (Inr (demo_scope_handle 2 3), demo_scopes3)"
  "cs_attach demo_wait (cs_root demo_scopes0) demo_scopes3 = (Inr (), demo_scopes4)"
  "cs_observe_cancel demo_child (so_handle demo_wait) (so_handle demo_wait) demo_scopes4 = (Inr 1, demo_scopes)"
  "cs_cancel demo_child ''stop'' demo_scopes = (Inr demo_plan, demo_cancelled)"
  by code_simp+

lemma demo_scope_values:
  "unobserved demo_scopes1 (so_handle demo_task)" "unobserved demo_scopes3 (so_handle demo_wait)"
  "h_kind (so_handle demo_task) = HK_Task" "h_kind (so_handle demo_wait) = HK_Wait"
  "cs_get demo_scopes demo_child = Inr 1" "sr_plan (record_at demo_scopes 1) = None"
  "sr_used (record_at demo_scopes 2)" "cs_inside demo_scopes (scope_handle demo_scopes 2) demo_child"
  "cs_get demo_cancelled demo_child = Inr 1" "sr_plan (record_at demo_cancelled 1) = Some demo_plan"
  "2 < length (cs_records demo_scopes)" "sr_state (record_at demo_scopes 2) = SS_Open"
  "sr_entries (record_at demo_scopes 2) = []" "cs_get demo_scopes (scope_handle demo_scopes 2) = Inr 2"
  by code_simp+

lemma demo_scopes_reachable: "scope_reachable demo_scopes"
proof -
  have "scope_reachable demo_scopes0" by (rule scope_reachable.new [OF demo_scope_new]) simp
  then have "scope_reachable demo_scopes1"
    by (rule scope_reachable.step) (metis demo_scope_steps(1) scope_step.create snd_conv)
  then have "scope_reachable demo_scopes2"
    by (rule scope_reachable.step)
      (use scope_step.attach [OF _ demo_scope_values(1), of demo_child] in \<open>simp add: demo_scope_steps demo_scope_values\<close>)
  then have "scope_reachable demo_scopes3"
    by (rule scope_reachable.step) (metis demo_scope_steps(3) scope_step.create snd_conv)
  then have "scope_reachable demo_scopes4"
    by (rule scope_reachable.step)
      (use scope_step.attach [OF _ demo_scope_values(2), of "cs_root demo_scopes0"] in \<open>simp add: demo_scope_steps demo_scope_values\<close>)
  then show ?thesis
    by (rule scope_reachable.step) (metis demo_scope_steps(5) scope_step.observe snd_conv)
qed

section \<open>Properties\<close>



lemma cancel_success_record:
  assumes inv: "scope_inv s" and "cs_get s h = Inr r" "sr_plan (record_at s r) = None"
    and "cs_cancel h reason s = (Inr plan, s')" "i < length (cs_records s)"
  shows "if sr_used (record_at s i) \<and> cs_inside s (scope_handle s i) h \<and> sr_state (record_at s i) = SS_Open
      then sr_state (record_at s' i) = (if sr_entries (record_at s i) = [] then SS_Cancelled else SS_Cancelling)
      else record_at s' i = record_at s i"
proof -
  from inv assms(2-4) obtain cl q where cl: "cl = filter (cancelled_by s h) [0..<length (cs_records s)]"
    and "s' = fold (plan_scope reason) cl s" and "same_frame s s'"
    and rec: "\<forall>j. record_at s' j = (if j \<in> set cl then planned reason (scope_handle s j) (q j) (record_at s j) else record_at s j)"
    and "(\<Sum>i\<leftarrow>cl. length (sr_entries (record_at s i))) \<le> cs_actions s"
    and "(\<Sum>i\<leftarrow>cl. length (sr_entries (record_at s i))) < 2 ^ 64"
    and "r \<in> set cl" and "plan = the (sr_plan (record_at s' r))"
    by (rule cancel_success)
  have "i \<in> set cl \<longleftrightarrow> sr_used (record_at s i) \<and> cs_inside s (scope_handle s i) h \<and> sr_state (record_at s i) = SS_Open"
    using assms(5) by (simp add: cl cancelled_by_def)
  then show ?thesis using rec by (simp add: planned_def)
qed

text \<open>
  Claim C33. Cancelling an open scope plans the cleanup of the whole subtree and of nothing
  else: each open scope inside it gets one action per owned handle, in order, and stops being
  open; every other record is unchanged; the number of actions respects the limit; and
  cancelling again returns the same plan without any change.
\<close>

theorem cancel_closes_subtree:
  assumes "scope_reachable s" "cs_get s h = Inr r" "sr_plan (record_at s r) = None"
    and "cs_cancel h reason s = (Inr plan, s')" "i < length (cs_records s)" "length again \<le> 256"
  shows "(if sr_used (record_at s i) \<and> cs_inside s (scope_handle s i) h \<and> sr_state (record_at s i) = SS_Open
      then (\<exists>p. sr_plan (record_at s' i) = Some p \<and> cp_scope p = scope_handle s i \<and> cp_reason p = reason \<and>
         map sa_owned (cp_actions p) = sr_entries (record_at s i) \<and>
         (\<forall>a \<in> set (cp_actions p). sa_kind a = action_kind (sa_owned a) \<and> \<not> sa_applied a)) \<and>
         sr_entries (record_at s' i) = sr_entries (record_at s i) \<and>
         sr_state (record_at s' i) = (if sr_entries (record_at s i) = [] then SS_Cancelled else SS_Cancelling)
      else record_at s' i = record_at s i) \<and>
    (\<Sum>j\<leftarrow>filter (cancelled_by s h) [0..<length (cs_records s)]. length (sr_entries (record_at s j))) \<le> cs_actions s \<and>
    sr_plan (record_at s' r) = Some plan \<and> cs_cancel h again s' = (Inr plan, s')"
proof -
  note inv = reachable_facts(1) [OF assms(1)]
  from inv assms(2-4) obtain cl q where cl: "cl = filter (cancelled_by s h) [0..<length (cs_records s)]"
    and "s' = fold (plan_scope reason) cl s" and frame: "same_frame s s'"
    and rec: "\<forall>j. record_at s' j = (if j \<in> set cl then planned reason (scope_handle s j) (q j) (record_at s j) else record_at s j)"
    and few: "(\<Sum>i\<leftarrow>cl. length (sr_entries (record_at s i))) \<le> cs_actions s"
    and "(\<Sum>i\<leftarrow>cl. length (sr_entries (record_at s i))) < 2 ^ 64"
    and r: "r \<in> set cl" and plan: "plan = the (sr_plan (record_at s' r))"
    by (rule cancel_success)
  have "i \<in> set cl \<longleftrightarrow> sr_used (record_at s i) \<and> cs_inside s (scope_handle s i) h \<and> sr_state (record_at s i) = SS_Open"
    using assms(5) by (simp add: cl cancelled_by_def)
  moreover have p: "sr_plan (record_at s' r) = Some plan" using plan rec r by (simp add: planned_def)
  moreover have "cs_get s' h = Inr r"
    using assms(2) frame rec by (auto simp: cs_get_def same_frame_def split: if_splits)
  then have "cs_cancel h again s' = (Inr plan, s')" using p assms(6) by (simp add: cs_cancel_def)
  ultimately show ?thesis
    using few rec plan_actions_mem unfolding cl by (auto simp: planned_def)
qed

theorem cancel_closes_subtree_witness:
  "sr_state (record_at demo_cancelled 2) = SS_Cancelled \<and>
   cs_cancel demo_child ''again'' demo_cancelled = (Inr demo_plan, demo_cancelled)"
  using cancel_closes_subtree [OF demo_scopes_reachable demo_scope_values(5,6) demo_scope_steps(6) demo_scope_values(11),
      of "''again''"] demo_scope_values(7,8,12,13) by simp

lemma cancel_not_open:
  assumes inv: "scope_inv s" and acc: "accessible s" and g: "cs_get s x = Inr i"
    and c: "cs_cancel h reason s = (Inr plan, s')" "cs_inside s x h"
  shows "sr_state (record_at s' i) \<noteq> SS_Open"
proof -
  note gi = inv_get [OF inv g]
  obtain r where r: "cs_get s h = Inr r" using c by (auto simp: cs_cancel_def split: if_splits sum.splits)
  have in_h: "(i, r) \<in> (pedges s)\<^sup>*"
    using c inside_iff [OF inv_small [OF inv] acc gi(2) inv_get(2) [OF inv r]] by simp
  show ?thesis
  proof (cases "sr_plan (record_at s r)")
    case None
    then show ?thesis
      using cancel_success_record [OF inv r None c(1) gi(3)] c(2) gi(4,5) by (auto split: if_splits)
  next
    case (Some p)
    then have "s' = s" using c r by (auto simp: cs_cancel_def split: if_splits)
    moreover have "sr_state (record_at s r) \<noteq> SS_Open"
      using inv_record(4) [OF inv inv_get(3,4) [OF inv r]] Some by (auto simp: record_plan_ok_def)
    ultimately show ?thesis using tree_ancestor_open [OF inv_tree [OF inv] in_h] by blast
  qed
qed

lemma close_not_used:
  assumes "scope_inv s" "cs_get s x = Inr i" "cs_close x s = (Inr (), s')"
  shows "\<not> sr_used (record_at s' i)"
  using assms inv_get(3) [OF assms(1,2)]
  by (auto simp: cs_close_def Let_def record_at_upd split: if_splits sum.splits)



section \<open>Completing a cancellation\<close>

text \<open>An executor that succeeds and records the actions it was called with.\<close>

definition recording :: "(scope_cancel_action \<Rightarrow> scope_cancel_action list \<Rightarrow> unit expected \<times> scope_cancel_action list) option" where
  "recording = Some (\<lambda>a l. (Inr (), l @ [a]))"

primrec apply_all ::
  "handle \<Rightarrow> u64 list \<Rightarrow> scope_store \<Rightarrow> scope_cancel_action list \<Rightarrow> scope_store \<times> scope_cancel_action list" where
  "apply_all h [] s l = (s, l)"
| "apply_all h (k # ks) s l = (case cs_apply h k recording s l of (_, s', l') \<Rightarrow> apply_all h ks s' l')"

lemma mark_applied_map:
  "distinct (map sa_id as) \<Longrightarrow> mark_applied k as = map (\<lambda>a. if sa_id a = k then a\<lparr>sa_applied := True\<rparr> else a) as"
proof (induction as)
  case (Cons a as)
  show ?case
  proof (cases "sa_id a = k")
    case True
    then have "k \<notin> sa_id ` set as" using Cons.prems by simp
    then have "\<forall>b \<in> set as. sa_id b \<noteq> k" by (metis image_eqI)
    then have "map (\<lambda>b. if sa_id b = k then b\<lparr>sa_applied := True\<rparr> else b) as = as" by (simp add: map_idI)
    then show ?thesis using True by simp
  qed (use Cons in simp)
qed simp

lemma mark_applied_again:
  assumes "find (\<lambda>a. sa_id a = k) as = Some a" "sa_applied a"
  shows "mark_applied k as = as"
  using assms by (induction as) (auto split: if_splits)

text \<open>One call of \<open>apply\<close> with this executor.\<close>

lemma apply_one:
  assumes inv: "scope_inv s" and g: "cs_get s h = Inr r" and p: "sr_plan (record_at s r) = Some p"
    and a: "find (\<lambda>a. sa_id a = k) (cp_actions p) = Some a"
  obtains s' where "cs_apply h k recording s l = (Inr (), s', if sa_applied a then l else l @ [a])"
    "scope_inv s'" "cs_get s' h = Inr r" "sr_plan (record_at s' r) = Some (p\<lparr>cp_actions := mark_applied k (cp_actions p)\<rparr>)"
    "\<forall>j. j \<noteq> r \<longrightarrow> record_at s' j = record_at s j"
proof (cases "sa_applied a")
  case True
  have "p\<lparr>cp_actions := mark_applied k (cp_actions p)\<rparr> = p" using mark_applied_again [OF a True] by simp
  then show ?thesis
    using that [of s] True inv g p a by (simp add: cs_apply_def recording_def)
next
  case False
  let ?s = "upd_record r (settle_action p a) s"
  have k: "sa_id a = k" using find_SomeD [OF a] by simp
  have ap: "cs_apply h k recording s l = (Inr (), ?s, l @ [a])"
    using g p a False by (simp add: cs_apply_def recording_def)
  have inv': "scope_inv ?s" using scope_apply_inv [OF inv, of h k recording l] ap by simp
  have "live_at ?s h r" using inv_get(2) [OF inv g] by (simp add: keeps_live keeps_tree_intros)
  moreover have "accessible ?s" using inv_get(1) [OF inv g] by (simp add: accessible_def)
  ultimately have "cs_get ?s h = Inr r" by (intro cs_get_live inv_small inv')
  then show ?thesis
    using that [of ?s] ap inv' False inv_get(3) [OF inv g] k
    by (simp add: record_at_upd settle_action_def Let_def)
qed

lemma settled_plan:
  assumes "plan_ok h p r" "\<forall>a \<in> set (cp_actions p). sa_applied a"
    and "sr_state r = SS_Cancelling \<or> sr_state r = SS_Cancelled"
  shows "sr_state r = SS_Cancelled \<and> sr_entries r = []"
  using assms by (auto simp: plan_ok_def)

lemma cp_actions_upd: "cp_actions (p\<lparr>cp_actions := xs\<rparr>) = xs" "p\<lparr>cp_actions := xs, cp_actions := ys\<rparr> = p\<lparr>cp_actions := ys\<rparr>"
  by simp_all

lemma marked_open:
  "{b \<in> set (map (\<lambda>a. if sa_id a = k then a\<lparr>sa_applied := True\<rparr> else a) as). \<not> sa_applied b \<and> sa_id b \<in> K} =
   {b \<in> set as. \<not> sa_applied b \<and> sa_id b \<in> K \<and> sa_id b \<noteq> k}"
proof (rule set_eqI, rule iffI)
  fix b assume "b \<in> {b \<in> set (map (\<lambda>a. if sa_id a = k then a\<lparr>sa_applied := True\<rparr> else a) as). \<not> sa_applied b \<and> sa_id b \<in> K}"
  then obtain a where a: "a \<in> set as" "b = (if sa_id a = k then a\<lparr>sa_applied := True\<rparr> else a)" "\<not> sa_applied b" "sa_id b \<in> K"
    by fastforce
  then have "sa_id a \<noteq> k" by (cases "sa_id a = k") simp_all
  then show "b \<in> {b \<in> set as. \<not> sa_applied b \<and> sa_id b \<in> K \<and> sa_id b \<noteq> k}" using a by simp
next
  fix b assume "b \<in> {b \<in> set as. \<not> sa_applied b \<and> sa_id b \<in> K \<and> sa_id b \<noteq> k}"
  then show "b \<in> {b \<in> set (map (\<lambda>a. if sa_id a = k then a\<lparr>sa_applied := True\<rparr> else a) as). \<not> sa_applied b \<and> sa_id b \<in> K}"
    by simp
qed

lemma open_calls:
  assumes d: "distinct d" "set d = {b \<in> A. \<not> sa_applied b \<and> sa_id b \<in> K \<and> sa_id b \<noteq> k}"
    and a: "a \<in> A" "sa_id a = k" and only: "\<And>b. b \<in> A \<Longrightarrow> sa_id b = k \<Longrightarrow> b = a"
  shows "distinct ((if sa_applied a then [] else [a]) @ d) \<and>
    set ((if sa_applied a then [] else [a]) @ d) = {b \<in> A. \<not> sa_applied b \<and> (sa_id b = k \<or> sa_id b \<in> K)}"
proof
  show "distinct ((if sa_applied a then [] else [a]) @ d)" using d a by simp
  have "{b \<in> A. \<not> sa_applied b \<and> (sa_id b = k \<or> sa_id b \<in> K)} =
      {b \<in> A. \<not> sa_applied b \<and> sa_id b = k} \<union> set d" unfolding d(2) by blast
  moreover have "b \<in> A \<and> \<not> sa_applied b \<and> sa_id b = k \<longleftrightarrow> \<not> sa_applied a \<and> b = a" for b
    using a only by blast
  then have "{b \<in> A. \<not> sa_applied b \<and> sa_id b = k} = (if sa_applied a then {} else {a})" by simp
  ultimately show "set ((if sa_applied a then [] else [a]) @ d) =
      {b \<in> A. \<not> sa_applied b \<and> (sa_id b = k \<or> sa_id b \<in> K)}" by simp
qed

lemma apply_all_result:
  assumes "scope_inv s" "cs_get s h = Inr r" "sr_plan (record_at s r) = Some p"
    and "set ks \<subseteq> sa_id ` set (cp_actions p)" "apply_all h ks s l = (s', l')"
  shows "scope_inv s' \<and> cs_get s' h = Inr r \<and> (\<forall>j. j \<noteq> r \<longrightarrow> record_at s' j = record_at s j) \<and>
    sr_plan (record_at s' r) =
      Some (p\<lparr>cp_actions := map (\<lambda>a. if sa_id a \<in> set ks then a\<lparr>sa_applied := True\<rparr> else a) (cp_actions p)\<rparr>) \<and>
    (\<exists>d. l' = l @ d \<and> distinct d \<and> set d = {a \<in> set (cp_actions p). \<not> sa_applied a \<and> sa_id a \<in> set ks})"
  using assms
proof (induction ks arbitrary: s l p)
  case Nil
  then show ?case by simp
next
  case (Cons k ks)
  have pk: "distinct (map sa_id (cp_actions p))"
    using inv_record(4) [OF Cons.prems(1) inv_get(3,4) [OF Cons.prems(1,2)]] Cons.prems(3)
    by (simp add: record_plan_ok_def plan_ok_def)
  obtain a where a: "find (\<lambda>a. sa_id a = k) (cp_actions p) = Some a"
    using Cons.prems(4) by (cases "find (\<lambda>a. sa_id a = k) (cp_actions p)") (auto simp: find_None_iff)
  have am: "a \<in> set (cp_actions p)" "sa_id a = k" using find_SomeD [OF a] by auto
  have inj: "inj_on sa_id (set (cp_actions p))" using pk by (simp add: distinct_map)
  have only: "b = a" if "b \<in> set (cp_actions p)" "sa_id b = k" for b
    by (rule inj_onD [OF inj _ that(1) am(1)]) (simp only: that(2) am(2))
  obtain s1 where s1: "cs_apply h k recording s l = (Inr (), s1, if sa_applied a then l else l @ [a])"
    "scope_inv s1" "cs_get s1 h = Inr r" "sr_plan (record_at s1 r) = Some (p\<lparr>cp_actions := mark_applied k (cp_actions p)\<rparr>)"
    "\<forall>j. j \<noteq> r \<longrightarrow> record_at s1 j = record_at s j"
    by (rule apply_one [OF Cons.prems(1-3) a])
  let ?m = "map (\<lambda>a. if sa_id a = k then a\<lparr>sa_applied := True\<rparr> else a) (cp_actions p)"
  have mark: "mark_applied k (cp_actions p) = ?m" by (rule mark_applied_map [OF pk])
  have "map sa_id ?m = map sa_id (cp_actions p)"
    unfolding map_map by (rule map_cong [OF refl]) simp
  then have "set (map sa_id ?m) = set (map sa_id (cp_actions p))" by (rule arg_cong)
  then have "sa_id ` set ?m = sa_id ` set (cp_actions p)" by (simp only: set_map)
  then have "set ks \<subseteq> sa_id ` set (cp_actions (p\<lparr>cp_actions := ?m\<rparr>))"
    using Cons.prems(4) unfolding cp_actions_upd by (simp only: list.set insert_subset)
  moreover have "apply_all h ks s1 (if sa_applied a then l else l @ [a]) = (s', l')"
    using Cons.prems(5) unfolding apply_all.simps s1(1) by simp
  ultimately have ih: "scope_inv s' \<and> cs_get s' h = Inr r \<and> (\<forall>j. j \<noteq> r \<longrightarrow> record_at s' j = record_at s1 j) \<and>
      sr_plan (record_at s' r) = Some (p\<lparr>cp_actions := ?m, cp_actions :=
        map (\<lambda>a. if sa_id a \<in> set ks then a\<lparr>sa_applied := True\<rparr> else a) (cp_actions (p\<lparr>cp_actions := ?m\<rparr>))\<rparr>) \<and>
      (\<exists>d. l' = (if sa_applied a then l else l @ [a]) @ d \<and> distinct d \<and>
         set d = {a \<in> set (cp_actions (p\<lparr>cp_actions := ?m\<rparr>)). \<not> sa_applied a \<and> sa_id a \<in> set ks})"
    by (rule Cons.IH [OF s1(2,3) s1(4) [unfolded mark]])
  have sel: "cp_actions (p\<lparr>cp_actions := ?m\<rparr>) = ?m" by simp
  have left: "{b \<in> set ?m. \<not> sa_applied b \<and> sa_id b \<in> set ks} = {b \<in> set (cp_actions p). \<not> sa_applied b \<and> sa_id b \<in> set ks \<and> sa_id b \<noteq> k}"
    by (rule marked_open)
  obtain d where d: "l' = (if sa_applied a then l else l @ [a]) @ d" "distinct d"
      "set d = {b \<in> set (cp_actions p). \<not> sa_applied b \<and> sa_id b \<in> set ks \<and> sa_id b \<noteq> k}"
    using ih [THEN conjunct2, THEN conjunct2, THEN conjunct2, THEN conjunct2] unfolding sel left by (elim exE conjE)
  have calls: "\<exists>d. l' = l @ d \<and> distinct d \<and> set d = {b \<in> set (cp_actions p). \<not> sa_applied b \<and> sa_id b \<in> set (k # ks)}"
  proof (intro exI conjI)
    show "l' = l @ ((if sa_applied a then [] else [a]) @ d)" using d(1) by simp
    have "distinct ((if sa_applied a then [] else [a]) @ d) \<and> set ((if sa_applied a then [] else [a]) @ d) =
        {b \<in> set (cp_actions p). \<not> sa_applied b \<and> (sa_id b = k \<or> sa_id b \<in> set ks)}"
      by (rule open_calls [OF d(2,3) am only])
    then show "distinct ((if sa_applied a then [] else [a]) @ d)" "set ((if sa_applied a then [] else [a]) @ d) =
        {b \<in> set (cp_actions p). \<not> sa_applied b \<and> sa_id b \<in> set (k # ks)}" by simp_all
  qed
  have both: "map (\<lambda>a. if sa_id a \<in> set ks then a\<lparr>sa_applied := True\<rparr> else a) ?m =
      map (\<lambda>a. if sa_id a \<in> set (k # ks) then a\<lparr>sa_applied := True\<rparr> else a) (cp_actions p)"
    unfolding map_map by (rule map_cong [OF refl]) simp
  have "sr_plan (record_at s' r) =
      Some (p\<lparr>cp_actions := map (\<lambda>a. if sa_id a \<in> set (k # ks) then a\<lparr>sa_applied := True\<rparr> else a) (cp_actions p)\<rparr>)"
    using ih [THEN conjunct2, THEN conjunct2, THEN conjunct2, THEN conjunct1] unfolding cp_actions_upd both .
  moreover have "\<forall>j. j \<noteq> r \<longrightarrow> record_at s' j = record_at s j"
    using ih [THEN conjunct2, THEN conjunct2, THEN conjunct1] s1(5) by simp
  ultimately show ?case using calls ih [THEN conjunct1] ih [THEN conjunct2, THEN conjunct1] by (intro conjI)
qed



text \<open>
  Cancelling an observed scope does not cancel its observer: the scope that answers
  for the observing process or wait keeps its record.
\<close>

theorem observer_not_cancelled:
  assumes "scope_reachable s" "ob \<in> set (cs_observations s)" "party = ob_process ob \<or> party = ob_wait ob"
    and "cs_owner_of s party = Some (scope_handle s i)" "i < length (cs_records s)"
    and "cs_cancel (ob_source ob) reason s = (Inr plan, s')"
  shows "record_at s' i = record_at s i"
proof -
  note inv = reachable_facts(1) [OF assms(1)] and acc = reachable_facts(2) [OF assms(1)]
  obtain j where j: "live_at s (ob_source ob) j" "party_ok s j (ob_process ob)" "party_ok s j (ob_wait ob)"
    using inv assms(2) by (auto simp: scope_inv_def observers_ok_def observer_ok_def)
  obtain k where k: "owned_at s party k" "scope_handle s i = scope_handle s k"
    using owner_of_iff [OF inv_small [OF inv] inv_sole [OF inv] acc] assms(4) by blast
  then have "k = i"
    using slot_of_handle [OF inv_small [OF inv]] owned_at_live [OF k(1)] assms(5) by (metis live_at_def)
  then have out: "(i, j) \<notin> (pedges s)\<^sup>*" "live_at s (scope_handle s i) i"
    using j k(1) assms(3) owned_at_live [OF k(1)] by (auto simp: party_ok_def)
  have r: "cs_get s (ob_source ob) = Inr j" by (rule cs_get_live [OF inv_small [OF inv] acc j(1)])
  show ?thesis
  proof (cases "sr_plan (record_at s j)")
    case None
    have "\<not> cs_inside s (scope_handle s i) (ob_source ob)"
      using out inside_iff [OF inv_small [OF inv] acc out(2) j(1)] by simp
    then show ?thesis using cancel_success_record [OF inv r None assms(6,5)] by simp
  next
    case (Some p)
    then show ?thesis using assms(6) r by (auto simp: cs_cancel_def split: if_splits)
  qed
qed

theorem observer_not_cancelled_witness: "record_at demo_cancelled 0 = record_at demo_scopes 0"
proof -
  have "cs_observations demo_scopes =
      [\<lparr>ob_id = 1, ob_source = demo_child, ob_process = so_handle demo_wait, ob_wait = so_handle demo_wait\<rparr>]"
      "cs_owner_of demo_scopes (so_handle demo_wait) = Some (scope_handle demo_scopes 0)" "0 < length (cs_records demo_scopes)"
    by code_simp+
  then show ?thesis
    using observer_not_cancelled [OF demo_scopes_reachable, of
        "\<lparr>ob_id = 1, ob_source = demo_child, ob_process = so_handle demo_wait, ob_wait = so_handle demo_wait\<rparr>"
        "so_handle demo_wait" 0 "''stop''" demo_plan demo_cancelled] demo_scope_steps(6) by simp
qed

text \<open>
  The check that \<open>transfer\<close> makes for observers is missing in \<open>attach\<close>: a handle that an
  observer waits on can be detached from its scope and attached to the observed one, after which
  cancelling the source plans to clean up its own observer. The step relation above excludes it.
\<close>

lemma attach_captures_observer:
  "fst (cs_transfer (so_handle demo_wait) (cs_root demo_scopes) demo_child demo_scopes) =
     fail InvalidArgument ''observer enters cancellation closure'' \<and>
   (let s1 = snd (cs_detach_completed (so_handle demo_wait) (cs_root demo_scopes) demo_scopes);
        (r, s2) = cs_attach demo_wait demo_child s1 in r = Inr () \<and> observer_captured s2)"
  by code_simp

end
