(* ===== verification/Result_Store.thy ===== *)
theory Result_Store
  imports Objects
begin

text \<open>
  The result store of \<open>runtime/include/leanat/result_store.hpp\<close> and the first part of
  \<open>runtime/src/result_store.cpp\<close>: reserved results that a producer publishes once, consumers that
  hold them by capability handles, pins that keep a value alive, and the transactional operations
  that work on a staged copy of the registry.

  The two generation counters are shared by every copy of the registry (the source holds them by
  \<open>shared_ptr\<close>); the counters of the store are the current ones, and an operation on a staged copy
  reads and advances those. The destructor of a pin's guard is the operation \<open>rs_unpin\<close>.
\<close>

section \<open>Data\<close>

record result_handle =
  rh_result :: handle
  rh_consumer :: handle

record result_create =
  rc_source :: handle
  rc_type :: u32
  rc_max_bytes :: nat
  rc_producer_owner :: u64
  rc_consumer_owner :: u64

record publication_context =
  pb_source :: handle
  pb_ready :: ready_key
  pb_validated :: bool

record publication_receipt =
  pr_result :: handle
  pr_ready :: ready_key

record reserved_result =
  rv_reservation :: handle
  rv_consumer :: result_handle

record result_ownership =
  ro_consumer_count :: nat
  ro_pin_count :: nat
  ro_published :: bool
  ro_owner_released :: bool
  ro_publishing :: bool

record result_subscription =
  sub_consumer :: result_handle
  sub_latched_ready :: "ready_key option"

record result_slot =
  sl_used :: bool
  sl_producer :: bool
  sl_publishing :: bool
  sl_gen :: u64
  sl_create :: result_create
  sl_value :: "value_t option"
  sl_ready :: ready_key
  sl_consumers :: nat
  sl_pins :: nat

record result_consumer =
  cn_active :: bool
  cn_generation :: u64
  cn_owner :: u64
  cn_result :: handle

record result_impl =
  ri_next_consumer :: u64
  ri_next_result :: u64
  ri_version :: u64
  ri_slots :: "result_slot list"
  ri_consumers :: "result_consumer list"
  ri_pin_limit :: nat
  ri_pin_count :: nat
  ri_domain :: domain_id
  ri_store :: u32

definition default_create :: result_create where
  "default_create = \<lparr>rc_source = default_handle, rc_type = 0, rc_max_bytes = 4096, rc_producer_owner = 0,
     rc_consumer_owner = 0\<rparr>"

definition free_slot :: result_slot where
  "free_slot = \<lparr>sl_used = False, sl_producer = False, sl_publishing = False, sl_gen = 0, sl_create = default_create,
     sl_value = None, sl_ready = ReadyKey 0 0, sl_consumers = 0, sl_pins = 0\<rparr>"

definition free_consumer :: result_consumer where
  "free_consumer = \<lparr>cn_active = False, cn_generation = 0, cn_owner = 0, cn_result = default_handle\<rparr>"

abbreviation slot_at :: "result_impl \<Rightarrow> nat \<Rightarrow> result_slot" where
  "slot_at s i \<equiv> ri_slots s ! i"

abbreviation consumer_at :: "result_impl \<Rightarrow> nat \<Rightarrow> result_consumer" where
  "consumer_at s i \<equiv> ri_consumers s ! i"

definition upd_slot_at :: "nat \<Rightarrow> (result_slot \<Rightarrow> result_slot) \<Rightarrow> result_impl \<Rightarrow> result_impl" where
  "upd_slot_at i f s = s\<lparr>ri_slots := (ri_slots s)[i := f (slot_at s i)]\<rparr>"

definition upd_consumer_at :: "nat \<Rightarrow> (result_consumer \<Rightarrow> result_consumer) \<Rightarrow> result_impl \<Rightarrow> result_impl" where
  "upd_consumer_at i f s = s\<lparr>ri_consumers := (ri_consumers s)[i := f (consumer_at s i)]\<rparr>"

definition bump_version :: "result_impl \<Rightarrow> result_impl" where
  "bump_version s = s\<lparr>ri_version := ri_version s + 1\<rparr>"

section \<open>The registry\<close>

text \<open>The constructor: the store identity is allocated before the capacities are checked.\<close>

definition ResultStore_new ::
  "nat \<Rightarrow> nat \<Rightarrow> nat \<Rightarrow> domain_id \<Rightarrow> nat \<Rightarrow> result_impl option \<times> nat" where
  "ResultStore_new n c p d next =
     (case allocate_store_incarnation next of
        None \<Rightarrow> (None, next)
      | Some (store, next') \<Rightarrow>
         (if n = 0 \<or> c = 0 \<or> p = 0 \<or> n > UINT32_MAX \<or> c > UINT32_MAX then (None, next')
          else (Some \<lparr>ri_next_consumer = 0, ri_next_result = 0, ri_version = 0, ri_slots = replicate n free_slot,
                  ri_consumers = replicate c free_consumer, ri_pin_limit = p, ri_pin_count = 0,
                  ri_domain = d, ri_store = store\<rparr>, next')))"

definition impl_result :: "result_impl \<Rightarrow> handle \<Rightarrow> nat expected" where
  "impl_result s h =
     (if h_domain h \<noteq> ri_domain s then fail WrongDomain ''result domain''
      else if h_kind h \<noteq> HK_Result \<or> h_store h \<noteq> ri_store s \<or> unat (h_slot h) \<ge> length (ri_slots s)
      then fail StaleHandle ''result identity''
      else let x = slot_at s (unat (h_slot h)) in
        if \<not> sl_used x \<or> sl_gen x \<noteq> h_generation h then fail StaleHandle ''result generation''
        else if h_owner h \<noteq> rc_producer_owner (sl_create x) then fail WrongOwner ''result producer''
        else Inr (unat (h_slot h)))"

definition impl_consumer :: "result_impl \<Rightarrow> result_handle \<Rightarrow> nat expected" where
  "impl_consumer s h =
     (case impl_result s (rh_result h) of
        Inl e \<Rightarrow> Inl e
      | Inr _ \<Rightarrow>
         (let c = rh_consumer h in
          if h_domain c \<noteq> ri_domain s \<or> h_kind c \<noteq> HK_Consumer \<or> h_store c \<noteq> ri_store s \<or>
             unat (h_slot c) \<ge> length (ri_consumers s)
          then fail StaleHandle ''consumer identity''
          else let x = consumer_at s (unat (h_slot c)) in
            if cn_generation x \<noteq> h_generation c then fail StaleHandle ''consumer generation''
            else if cn_owner x \<noteq> h_owner c then fail WrongOwner ''consumer owner''
            else if \<not> cn_active x then fail AlreadyReleased ''consumer consumed''
            else if cn_result x \<noteq> rh_result h then fail StaleHandle ''consumer result mismatch''
            else Inr (unat (h_slot c))))"

definition impl_collect :: "nat \<Rightarrow> result_impl \<Rightarrow> result_impl" where
  "impl_collect i s =
     (let x = slot_at s i in
      if sl_used x \<and> \<not> sl_producer x \<and> sl_consumers x = 0 \<and> sl_pins x = 0 \<and> \<not> sl_publishing x
      then upd_slot_at i (\<lambda>x. x\<lparr>sl_used := False, sl_value := None\<rparr>) s
      else s)"

definition consumer_handle :: "result_impl \<Rightarrow> nat \<Rightarrow> u64 \<Rightarrow> u64 \<Rightarrow> handle" where
  "consumer_handle s i gen owner = \<lparr>h_kind = HK_Consumer, h_domain = ri_domain s, h_store = ri_store s,
     h_slot = of_nat i, h_generation = gen, h_owner = owner\<rparr>"

text \<open>The loop of \<open>add\<close>: the first inactive consumer slot, while the counter is not exhausted.\<close>

definition impl_add :: "handle \<Rightarrow> u64 \<Rightarrow> result_impl \<Rightarrow> result_handle expected \<times> result_impl" where
  "impl_add r owner s =
     (case find (\<lambda>i. \<not> cn_active (consumer_at s i) \<and> ri_next_consumer s \<noteq> UINT64_MAX)
             [0..<length (ri_consumers s)] of
        None \<Rightarrow> (fail Capacity ''consumer capacity'', s)
      | Some i \<Rightarrow>
         (let gen = ri_next_consumer s + 1;
              s1 = upd_consumer_at i (\<lambda>c. c\<lparr>cn_active := True, cn_generation := gen, cn_owner := owner,
                      cn_result := r\<rparr>) (s\<lparr>ri_next_consumer := gen\<rparr>);
              s2 = bump_version (upd_slot_at (unat (h_slot r)) (\<lambda>x. x\<lparr>sl_consumers := sl_consumers x + 1\<rparr>) s1) in
          (Inr \<lparr>rh_result = r, rh_consumer = consumer_handle s i gen owner\<rparr>, s2)))"

definition result_handle_at :: "result_impl \<Rightarrow> nat \<Rightarrow> handle" where
  "result_handle_at s i = \<lparr>h_kind = HK_Result, h_domain = ri_domain s, h_store = ri_store s, h_slot = of_nat i,
     h_generation = sl_gen (slot_at s i), h_owner = rc_producer_owner (sl_create (slot_at s i))\<rparr>"

section \<open>Direct operations\<close>

definition claim_slot :: "u64 \<Rightarrow> result_create \<Rightarrow> result_slot \<Rightarrow> result_slot" where
  "claim_slot gen c x = x\<lparr>sl_used := True, sl_producer := True, sl_gen := gen, sl_create := c, sl_consumers := 0,
     sl_pins := 0, sl_value := None\<rparr>"

definition rs_reserve :: "result_create \<Rightarrow> result_impl \<Rightarrow> reserved_result expected \<times> result_impl" where
  "rs_reserve c s =
     (case find (\<lambda>i. \<not> (sl_used (slot_at s i) \<or> ri_next_result s = UINT64_MAX)) [0..<length (ri_slots s)] of
        None \<Rightarrow> (fail Capacity ''result capacity'', s)
      | Some i \<Rightarrow>
         (let gen = ri_next_result s + 1;
              s1 = upd_slot_at i (claim_slot gen c) (s\<lparr>ri_next_result := gen\<rparr>);
              r = result_handle_at s1 i in
          case impl_add r (rc_consumer_owner c) s1 of
            (Inl e, s2) \<Rightarrow> (Inl e, upd_slot_at i (\<lambda>x. x\<lparr>sl_used := False, sl_producer := False\<rparr>) s2)
          | (Inr h, s2) \<Rightarrow> (Inr \<lparr>rv_reservation = r, rv_consumer = h\<rparr>, s2)))"

definition rs_publish ::
  "platform \<Rightarrow> handle \<Rightarrow> value_t \<Rightarrow> publication_context \<Rightarrow> result_impl \<Rightarrow>
     publication_receipt expected \<times> result_impl" where
  "rs_publish pf h v c s =
     (case impl_result s h of
        Inl e \<Rightarrow> (Inl e, s)
      | Inr i \<Rightarrow>
         (let x = slot_at s i in
          if \<not> sl_producer x then (fail InvalidState ''producer released'', s)
          else if sl_value x \<noteq> None \<or> sl_publishing x then (fail Duplicate ''result published'', s)
          else if \<not> pb_validated c \<or> pb_source c \<noteq> rc_source (sl_create x)
          then (fail InvalidArgument ''publication context'', s)
          else if owned_value_bytes pf v = SIZE_MAX \<or> owned_value_bytes pf v > rc_max_bytes (sl_create x)
          then (fail Capacity ''result bytes'', s)
          else (Inr \<lparr>pr_result = h, pr_ready = pb_ready c\<rparr>,
                bump_version (upd_slot_at i (\<lambda>x. x\<lparr>sl_value := Some v, sl_ready := pb_ready c\<rparr>) s))))"

definition rs_retain :: "result_handle \<Rightarrow> u64 \<Rightarrow> result_impl \<Rightarrow> result_handle expected \<times> result_impl" where
  "rs_retain h owner s =
     (case impl_consumer s h of Inl e \<Rightarrow> (Inl e, s) | Inr _ \<Rightarrow> impl_add (rh_result h) owner s)"

definition rs_subscribe :: "handle \<Rightarrow> u64 \<Rightarrow> result_impl \<Rightarrow> result_subscription expected \<times> result_impl" where
  "rs_subscribe h owner s =
     (case impl_result s h of
        Inl e \<Rightarrow> (Inl e, s)
      | Inr i \<Rightarrow>
         (case impl_add h owner s of
            (Inl e, s1) \<Rightarrow> (Inl e, s1)
          | (Inr c, s1) \<Rightarrow>
             (let x = slot_at s1 i in
              (Inr \<lparr>sub_consumer = c, sub_latched_ready = (if sl_value x = None then None else Some (sl_ready x))\<rparr>, s1))))"

definition rs_read :: "platform \<Rightarrow> result_handle \<Rightarrow> nat \<Rightarrow> result_impl \<Rightarrow> value_t expected" where
  "rs_read pf h capacity s =
     (case impl_consumer s h of
        Inl e \<Rightarrow> Inl e
      | Inr _ \<Rightarrow>
         (case sl_value (slot_at s (unat (h_slot (rh_result h)))) of
            None \<Rightarrow> fail NotReady ''result reserved''
          | Some v \<Rightarrow> if owned_value_bytes pf v > capacity then fail Capacity ''destination capacity'' else Inr v))"

definition drop_consumer :: "nat \<Rightarrow> nat \<Rightarrow> result_impl \<Rightarrow> result_impl" where
  "drop_consumer c i s = upd_slot_at i (\<lambda>x. x\<lparr>sl_consumers := sl_consumers x - 1\<rparr>)
     (upd_consumer_at c (\<lambda>x. x\<lparr>cn_active := False\<rparr>) s)"

definition rs_release :: "result_handle \<Rightarrow> result_impl \<Rightarrow> unit expected \<times> result_impl" where
  "rs_release h s =
     (case impl_consumer s h of
        Inl e \<Rightarrow> (Inl e, s)
      | Inr c \<Rightarrow>
         (let i = unat (h_slot (rh_result h)) in
          (Inr (), impl_collect i (drop_consumer c i (bump_version s)))))"

definition rs_take :: "platform \<Rightarrow> result_handle \<Rightarrow> nat \<Rightarrow> result_impl \<Rightarrow> value_t expected \<times> result_impl" where
  "rs_take pf h capacity s =
     (case rs_read pf h capacity s of
        Inl e \<Rightarrow> (Inl e, s)
      | Inr v \<Rightarrow>
         (case rs_release h s of
            (Inl e, s1) \<Rightarrow> (Inl e, s1)
          | (Inr _, s1) \<Rightarrow> (Inr v, s1)))"

definition rs_release_owner :: "handle \<Rightarrow> result_impl \<Rightarrow> unit expected \<times> result_impl" where
  "rs_release_owner h s =
     (case impl_result s h of
        Inl e \<Rightarrow> (Inl e, s)
      | Inr i \<Rightarrow>
         (if \<not> sl_producer (slot_at s i) then (fail AlreadyReleased ''producer released'', s)
          else (Inr (), impl_collect i (upd_slot_at i (\<lambda>x. x\<lparr>sl_producer := False\<rparr>) (bump_version s)))))"

text \<open>\<open>pin\<close> gives the value and the slot that its guard will unpin.\<close>

definition rs_pin :: "result_handle \<Rightarrow> result_impl \<Rightarrow> (value_t \<times> nat) expected \<times> result_impl" where
  "rs_pin h s =
     (case impl_consumer s h of
        Inl e \<Rightarrow> (Inl e, s)
      | Inr _ \<Rightarrow>
         (let i = unat (h_slot (rh_result h)) in
          case sl_value (slot_at s i) of
            None \<Rightarrow> (fail NotReady ''result reserved'', s)
          | Some v \<Rightarrow>
             (if ri_pin_count s = ri_pin_limit s then (fail Capacity ''pin capacity'', s)
              else (Inr (v, i), (upd_slot_at i (\<lambda>x. x\<lparr>sl_pins := sl_pins x + 1\<rparr>) (bump_version s))
                      \<lparr>ri_pin_count := ri_pin_count s + 1\<rparr>))))"

definition rs_unpin :: "nat \<Rightarrow> result_impl \<Rightarrow> result_impl" where
  "rs_unpin i s = impl_collect i (upd_slot_at i (\<lambda>x. x\<lparr>sl_pins := sl_pins x - 1\<rparr>)
     ((bump_version s)\<lparr>ri_pin_count := ri_pin_count s - 1\<rparr>))"

text \<open>\<open>prepare_publish\<close> and the participant \<open>Publish\<close> that it gives to the caller.\<close>

record prepared_publish =
  pq_handle :: handle
  pq_context :: publication_context
  pq_value :: "value_t option"
  pq_done :: bool

definition rs_prepare_publish ::
  "platform \<Rightarrow> handle \<Rightarrow> value_t \<Rightarrow> publication_context \<Rightarrow> result_impl \<Rightarrow>
     prepared_publish expected \<times> result_impl" where
  "rs_prepare_publish pf h v c s =
     (case impl_result s h of
        Inl e \<Rightarrow> (Inl e, s)
      | Inr i \<Rightarrow>
         (let x = slot_at s i in
          if \<not> sl_producer x \<or> sl_value x \<noteq> None \<or> sl_publishing x
          then (fail InvalidState ''result producer state'', s)
          else if \<not> pb_validated c \<or> pb_source c \<noteq> rc_source (sl_create x)
          then (fail InvalidArgument ''publication context'', s)
          else if owned_value_bytes pf v = SIZE_MAX \<or> owned_value_bytes pf v > rc_max_bytes (sl_create x)
          then (fail Capacity ''result bytes'', s)
          else (Inr \<lparr>pq_handle = h, pq_context = c, pq_value = Some v, pq_done = False\<rparr>,
                bump_version (upd_slot_at i (\<lambda>x. x\<lparr>sl_publishing := True\<rparr>) s))))"

definition publish_validate :: "prepared_publish \<Rightarrow> result_impl \<Rightarrow> unit expected" where
  "publish_validate p s =
     (if pq_done p then fail InvalidState ''publication closed''
      else case impl_result s (pq_handle p) of
        Inl e \<Rightarrow> Inl e
      | Inr i \<Rightarrow>
         (if \<not> sl_producer (slot_at s i) \<or> sl_value (slot_at s i) \<noteq> None
          then fail InvalidState ''publication conflict'' else Inr ()))"

definition publish_apply :: "prepared_publish \<Rightarrow> result_impl \<Rightarrow> prepared_publish \<times> result_impl" where
  "publish_apply p s =
     (p\<lparr>pq_value := None, pq_done := True\<rparr>,
      bump_version (upd_slot_at (unat (h_slot (pq_handle p)))
        (\<lambda>x. x\<lparr>sl_value := pq_value p, sl_ready := pb_ready (pq_context p), sl_publishing := False\<rparr>) s))"

definition publish_discard :: "prepared_publish \<Rightarrow> result_impl \<Rightarrow> prepared_publish \<times> result_impl" where
  "publish_discard p s =
     (p\<lparr>pq_value := None, pq_done := True\<rparr>,
      if pq_done p then s
      else case impl_result s (pq_handle p) of
        Inl _ \<Rightarrow> s
      | Inr i \<Rightarrow> impl_collect i (bump_version (upd_slot_at i (\<lambda>x. x\<lparr>sl_publishing := False\<rparr>) s)))"

definition rs_published_ready :: "result_handle \<Rightarrow> result_impl \<Rightarrow> ready_key expected" where
  "rs_published_ready h s =
     (case impl_consumer s h of
        Inl e \<Rightarrow> Inl e
      | Inr _ \<Rightarrow>
         (let x = slot_at s (unat (h_slot (rh_result h))) in
          if sl_value x = None then fail NotReady ''result reserved'' else Inr (sl_ready x)))"

definition rs_occupied :: "result_impl \<Rightarrow> nat" where
  "rs_occupied s = length (filter sl_used (ri_slots s))"

definition rs_describe :: "result_handle \<Rightarrow> result_impl \<Rightarrow> result_create expected" where
  "rs_describe h s =
     (case impl_consumer s h of
        Inl e \<Rightarrow> Inl e
      | Inr _ \<Rightarrow> Inr (sl_create (slot_at s (unat (h_slot (rh_result h))))))"

definition rs_inspect_ownership :: "handle \<Rightarrow> result_impl \<Rightarrow> result_ownership expected" where
  "rs_inspect_ownership h s =
     (case impl_result s h of
        Inl e \<Rightarrow> Inl e
      | Inr i \<Rightarrow>
         (let x = slot_at s i in
          Inr \<lparr>ro_consumer_count = sl_consumers x, ro_pin_count = sl_pins x, ro_published = (sl_value x \<noteq> None),
               ro_owner_released = (\<not> sl_producer x), ro_publishing = sl_publishing x\<rparr>))"

definition rs_alive :: "handle \<Rightarrow> result_impl \<Rightarrow> bool" where
  "rs_alive h s = (case impl_result s h of Inl _ \<Rightarrow> False | Inr _ \<Rightarrow> True)"

record result_slot_snapshot =
  ss_identity :: handle
  ss_alive :: bool
  ss_producer_alive :: bool
  ss_publishing :: bool
  ss_create :: result_create
  ss_value :: "value_t option"
  ss_ready :: "ready_key option"
  ss_consumer_count :: nat
  ss_pin_count :: nat

record result_store_snapshot =
  sn_result_slots :: "result_slot_snapshot list"
  sn_consumer_slots :: "(handle \<times> handle \<times> bool) list"
  sn_next_result_generation :: u64
  sn_next_consumer_generation :: u64
  sn_pin_count :: nat
  sn_pin_limit :: nat

definition rs_snapshot :: "result_impl \<Rightarrow> result_store_snapshot" where
  "rs_snapshot s =
     \<lparr>sn_result_slots = map (\<lambda>i. let x = slot_at s i in
         \<lparr>ss_identity = result_handle_at s i, ss_alive = sl_used x, ss_producer_alive = sl_producer x,
          ss_publishing = sl_publishing x, ss_create = sl_create x, ss_value = sl_value x,
          ss_ready = (if sl_value x = None then None else Some (sl_ready x)), ss_consumer_count = sl_consumers x,
          ss_pin_count = sl_pins x\<rparr>) [0..<length (ri_slots s)],
      sn_consumer_slots = map (\<lambda>i. let x = consumer_at s i in
         (consumer_handle s i (cn_generation x) (cn_owner x), cn_result x, cn_active x)) [0..<length (ri_consumers s)],
      sn_next_result_generation = ri_next_result s, sn_next_consumer_generation = ri_next_consumer s,
      sn_pin_count = ri_pin_count s, sn_pin_limit = ri_pin_limit s\<rparr>"

end
