(* ===== verification/Result_Store_Inv.thy ===== *)
theory Result_Store_Inv
  imports Result_Store
begin

text \<open>
  The invariant of the result registry: a slot counts exactly the active consumers that name it,
  it is in use exactly while a producer, a consumer, a pin or a pending publication refers to it,
  values stay within their bounds, and generations never run ahead of the counters.
\<close>

section \<open>Updates\<close>

lemma upd_slot_simps [simp]:
  "ri_next_consumer (upd_slot_at i f s) = ri_next_consumer s" "ri_next_result (upd_slot_at i f s) = ri_next_result s"
  "ri_version (upd_slot_at i f s) = ri_version s" "ri_consumers (upd_slot_at i f s) = ri_consumers s"
  "ri_pin_limit (upd_slot_at i f s) = ri_pin_limit s" "ri_pin_count (upd_slot_at i f s) = ri_pin_count s"
  "ri_domain (upd_slot_at i f s) = ri_domain s" "ri_store (upd_slot_at i f s) = ri_store s"
  "length (ri_slots (upd_slot_at i f s)) = length (ri_slots s)"
  by (simp_all add: upd_slot_at_def)

lemma upd_consumer_simps [simp]:
  "ri_next_consumer (upd_consumer_at i g s) = ri_next_consumer s" "ri_next_result (upd_consumer_at i g s) = ri_next_result s"
  "ri_version (upd_consumer_at i g s) = ri_version s" "ri_slots (upd_consumer_at i g s) = ri_slots s"
  "ri_pin_limit (upd_consumer_at i g s) = ri_pin_limit s" "ri_pin_count (upd_consumer_at i g s) = ri_pin_count s"
  "ri_domain (upd_consumer_at i g s) = ri_domain s" "ri_store (upd_consumer_at i g s) = ri_store s"
  "length (ri_consumers (upd_consumer_at i g s)) = length (ri_consumers s)"
  by (simp_all add: upd_consumer_at_def)

lemma bump_simps [simp]:
  "ri_next_consumer (bump_version s) = ri_next_consumer s" "ri_next_result (bump_version s) = ri_next_result s"
  "ri_slots (bump_version s) = ri_slots s" "ri_consumers (bump_version s) = ri_consumers s"
  "ri_pin_limit (bump_version s) = ri_pin_limit s" "ri_pin_count (bump_version s) = ri_pin_count s"
  "ri_domain (bump_version s) = ri_domain s" "ri_store (bump_version s) = ri_store s"
  "ri_version (bump_version s) = ri_version s + 1"
  by (simp_all add: bump_version_def)

lemma slot_at_upd:
  "slot_at (upd_slot_at i f s) j = (if i = j \<and> j < length (ri_slots s) then f (slot_at s i) else slot_at s j)"
  by (auto simp: upd_slot_at_def nth_update_total)

lemma consumer_at_upd:
  "consumer_at (upd_consumer_at i g s) j =
     (if i = j \<and> j < length (ri_consumers s) then g (consumer_at s i) else consumer_at s j)"
  by (auto simp: upd_consumer_at_def nth_update_total)

section \<open>The invariant\<close>

text \<open>The active consumers of the result in a slot.\<close>

definition holders :: "result_impl \<Rightarrow> nat \<Rightarrow> nat set" where
  "holders s i = {c. c < length (ri_consumers s) \<and> cn_active (consumer_at s c) \<and>
     unat (h_slot (cn_result (consumer_at s c))) = i}"

definition referenced :: "result_slot \<Rightarrow> bool" where
  "referenced x \<longleftrightarrow> sl_producer x \<or> 0 < sl_consumers x \<or> 0 < sl_pins x \<or> sl_publishing x"

text \<open>Between the loss of a reference and the call of \<open>collect\<close> one slot may be unreferenced and in use.\<close>

definition slot_ok :: "platform \<Rightarrow> nat set \<Rightarrow> result_impl \<Rightarrow> nat \<Rightarrow> result_slot \<Rightarrow> bool" where
  "slot_ok pf ex s i x \<longleftrightarrow>
     sl_consumers x = card (holders s i) \<and> sl_gen x \<le> ri_next_result s \<and>
     (referenced x \<longrightarrow> sl_used x) \<and> (sl_used x \<longrightarrow> referenced x \<or> i \<in> ex) \<and>
     (\<forall>v. sl_value x = Some v \<longrightarrow> sl_used x \<and> \<not> sl_publishing x \<and> owned_value_bytes pf v \<le> rc_max_bytes (sl_create x))"

definition consumer_ok :: "result_impl \<Rightarrow> result_consumer \<Rightarrow> bool" where
  "consumer_ok s c \<longleftrightarrow> cn_generation c \<le> ri_next_consumer s \<and>
     (cn_active c \<longrightarrow> (\<exists>i < length (ri_slots s). sl_used (slot_at s i) \<and> cn_result c = result_handle_at s i))"

definition registry_inv :: "platform \<Rightarrow> nat set \<Rightarrow> result_impl \<Rightarrow> bool" where
  "registry_inv pf ex s \<longleftrightarrow> length (ri_slots s) < 2 ^ 32 \<and> length (ri_consumers s) < 2 ^ 32 \<and>
     (\<forall>i < length (ri_slots s). slot_ok pf ex s i (slot_at s i)) \<and>
     (\<forall>c < length (ri_consumers s). consumer_ok s (consumer_at s c)) \<and>
     ri_pin_count s = (\<Sum>x\<leftarrow>ri_slots s. sl_pins x) \<and> ri_pin_count s \<le> ri_pin_limit s"

abbreviation result_inv :: "platform \<Rightarrow> result_impl \<Rightarrow> bool" where
  "result_inv pf s \<equiv> registry_inv pf {} s"

lemma unat_index: "i < 2 ^ 32 \<Longrightarrow> unat (of_nat i :: u32) = i"
  by (simp add: unat_of_nat take_bit_nat_eq_self)

lemma impl_result_iff:
  assumes "length (ri_slots s) < 2 ^ 32"
  shows "impl_result s h = Inr i \<longleftrightarrow> i < length (ri_slots s) \<and> sl_used (slot_at s i) \<and> h = result_handle_at s i"
  using assms by (cases h) (auto simp: impl_result_def result_handle_at_def Let_def unat_index)

lemma impl_consumer_iff:
  assumes "length (ri_slots s) < 2 ^ 32" "length (ri_consumers s) < 2 ^ 32"
  shows "impl_consumer s h = Inr c \<longleftrightarrow> c < length (ri_consumers s) \<and> cn_active (consumer_at s c) \<and>
    cn_result (consumer_at s c) = rh_result h \<and>
    rh_consumer h = consumer_handle s c (cn_generation (consumer_at s c)) (cn_owner (consumer_at s c)) \<and>
    (\<exists>i. impl_result s (rh_result h) = Inr i)"
  using assms by (cases "rh_consumer h")
    (auto simp: impl_consumer_def consumer_handle_def Let_def unat_index split: sum.splits)

lemma finite_holders [simp]: "finite (holders s i)"
  by (rule finite_subset [of _ "{..<length (ri_consumers s)}"]) (auto simp: holders_def)

lemma sum_pins_upd:
  assumes "i < length xs"
  shows "(\<Sum>x\<leftarrow>xs[i := y]. sl_pins x) + sl_pins (xs ! i) = (\<Sum>x\<leftarrow>xs. sl_pins x) + sl_pins y"
  using assms
proof (induction xs arbitrary: i)
  case (Cons x xs)
  then show ?case by (cases i) auto
qed simp

lemma pins_le_sum: "i < length xs \<Longrightarrow> sl_pins (xs ! i) \<le> (\<Sum>x\<leftarrow>xs. sl_pins x)"
  using sum_pins_upd [of i xs "(xs ! i)\<lparr>sl_pins := 0\<rparr>"] by simp

text \<open>A slot of the registry and the index that a valid consumer handle gives.\<close>

lemma inv_consumer:
  assumes inv: "registry_inv pf ex s" and h: "impl_consumer s h = Inr c"
  obtains i where "i < length (ri_slots s)" "sl_used (slot_at s i)" "rh_result h = result_handle_at s i"
    "unat (h_slot (rh_result h)) = i" "c \<in> holders s i" "0 < sl_consumers (slot_at s i)"
    "rh_consumer h = consumer_handle s c (cn_generation (consumer_at s c)) (cn_owner (consumer_at s c))"
proof -
  have len: "length (ri_slots s) < 2 ^ 32" "length (ri_consumers s) < 2 ^ 32" using inv by (simp_all add: registry_inv_def)
  obtain i where i: "impl_result s (rh_result h) = Inr i" and c: "c < length (ri_consumers s)"
      "cn_active (consumer_at s c)" "cn_result (consumer_at s c) = rh_result h"
      "rh_consumer h = consumer_handle s c (cn_generation (consumer_at s c)) (cn_owner (consumer_at s c))"
    using h impl_consumer_iff [OF len] by blast
  have r: "i < length (ri_slots s)" "sl_used (slot_at s i)" "rh_result h = result_handle_at s i"
    using i impl_result_iff [OF len(1)] by auto
  have slot: "unat (h_slot (rh_result h)) = i" using r len by (simp add: result_handle_at_def unat_index)
  then have hold: "c \<in> holders s i" using c by (simp add: holders_def)
  then have "0 < card (holders s i)" by (auto simp: card_gt_0_iff)
  then have "0 < sl_consumers (slot_at s i)" using inv r(1) by (simp add: registry_inv_def slot_ok_def)
  then show thesis using that r slot hold c(4) by blast
qed

lemma inv_lengths:
  assumes "registry_inv pf ex s"
  shows "length (ri_slots s) < 2 ^ 32" "length (ri_consumers s) < 2 ^ 32"
  using assms by (simp_all add: registry_inv_def)

lemma inv_slot: "registry_inv pf ex s \<Longrightarrow> i < length (ri_slots s) \<Longrightarrow> slot_ok pf ex s i (slot_at s i)"
  by (simp add: registry_inv_def)

lemma inv_active:
  assumes "registry_inv pf ex s" "c < length (ri_consumers s)"
  shows "consumer_ok s (consumer_at s c)"
  using assms by (simp add: registry_inv_def)

lemma result_handle_slot:
  "i < 2 ^ 32 \<Longrightarrow> unat (h_slot (result_handle_at s i)) = i"
  by (simp add: result_handle_at_def unat_index)

section \<open>Changes of one slot\<close>

lemma upd_slot_inv:
  assumes inv: "registry_inv pf ex s" and i: "i < length (ri_slots s)"
    and ok: "slot_ok pf ex' s i (f (slot_at s i))" and ex: "ex - {i} \<subseteq> ex'"
    and held: "holders s i \<noteq> {} \<Longrightarrow> sl_used (f (slot_at s i)) \<and> sl_gen (f (slot_at s i)) = sl_gen (slot_at s i) \<and>
      rc_producer_owner (sl_create (f (slot_at s i))) = rc_producer_owner (sl_create (slot_at s i))"
    and pc: "pc + sl_pins (slot_at s i) = ri_pin_count s + sl_pins (f (slot_at s i))" "pc \<le> ri_pin_limit s"
  shows "registry_inv pf ex' ((upd_slot_at i f s)\<lparr>ri_pin_count := pc\<rparr>)"
proof -
  let ?s = "(upd_slot_at i f s)\<lparr>ri_pin_count := pc\<rparr>"
  note len = inv_lengths [OF inv]
  have hold: "holders ?s = holders s" by (rule ext) (simp add: holders_def)
  have at: "slot_at (upd_slot_at i f s) j = (if j = i then f (slot_at s i) else slot_at s j)" for j
    using i by (auto simp: slot_at_upd)
  have "slot_ok pf ex' ?s j (slot_at (upd_slot_at i f s) j)" if "j < length (ri_slots s)" for j
  proof (cases "j = i")
    case True
    then show ?thesis using ok by (simp add: at slot_ok_def hold)
  next
    case False
    then have "j \<in> ex \<Longrightarrow> j \<in> ex'" using ex by blast
    then show ?thesis using False inv_slot [OF inv that] by (simp add: at slot_ok_def hold) blast
  qed
  moreover have "consumer_ok ?s (consumer_at s c)" if c: "c < length (ri_consumers s)" for c
  proof (cases "cn_active (consumer_at s c)")
    case True
    then obtain k where k: "k < length (ri_slots s)" "sl_used (slot_at s k)" "cn_result (consumer_at s c) = result_handle_at s k"
      using inv_active [OF inv c] by (auto simp: consumer_ok_def)
    have "c \<in> holders s k" using c True k len result_handle_slot [of k s] by (simp add: holders_def)
    then have "k = i \<Longrightarrow> holders s i \<noteq> {}" by blast
    then have "sl_used (slot_at (upd_slot_at i f s) k)" "result_handle_at ?s k = result_handle_at s k"
      using held k(2) by (simp_all add: at result_handle_at_def)
    then show ?thesis using inv_active [OF inv c] k(1,3) unfolding consumer_ok_def by auto
  qed (use inv_active [OF inv c] in \<open>simp add: consumer_ok_def\<close>)
  moreover have "pc = (\<Sum>x\<leftarrow>ri_slots (upd_slot_at i f s). sl_pins x)"
    using sum_pins_upd [OF i, of "f (slot_at s i)"] pc(1) inv by (simp add: upd_slot_at_def registry_inv_def)
  ultimately show ?thesis using len pc(2) by (simp add: registry_inv_def)
qed

lemma bump_inv [simp]: "registry_inv pf ex (bump_version s) \<longleftrightarrow> registry_inv pf ex s"
proof -
  have "holders (bump_version s) = holders s" "result_handle_at (bump_version s) = result_handle_at s"
    by (auto simp: holders_def result_handle_at_def fun_eq_iff)
  then show ?thesis by (simp add: registry_inv_def slot_ok_def consumer_ok_def)
qed

lemma pin_count_same: "(upd_slot_at i f s)\<lparr>ri_pin_count := ri_pin_count s\<rparr> = upd_slot_at i f s"
  by (simp add: upd_slot_at_def)

text \<open>The case that leaves the pins alone.\<close>

lemma upd_slot_inv_pins:
  assumes "registry_inv pf ex s" "i < length (ri_slots s)"
    and "slot_ok pf ex' s i (f (slot_at s i))" "ex - {i} \<subseteq> ex'"
    and "holders s i \<noteq> {} \<Longrightarrow> sl_used (f (slot_at s i)) \<and> sl_gen (f (slot_at s i)) = sl_gen (slot_at s i) \<and>
      rc_producer_owner (sl_create (f (slot_at s i))) = rc_producer_owner (sl_create (slot_at s i))"
    and "sl_pins (f (slot_at s i)) = sl_pins (slot_at s i)"
  shows "registry_inv pf ex' (upd_slot_at i f s)"
proof -
  have "registry_inv pf ex' ((upd_slot_at i f s)\<lparr>ri_pin_count := ri_pin_count s\<rparr>)"
    using assms by (intro upd_slot_inv [of pf ex]) (auto simp: registry_inv_def)
  then show ?thesis by (simp add: pin_count_same)
qed

lemma collect_inv:
  assumes inv: "registry_inv pf {i} s" and i: "i < length (ri_slots s)"
  shows "result_inv pf (impl_collect i s)"
proof (cases "sl_used (slot_at s i) \<and> \<not> referenced (slot_at s i)")
  case True
  have "sl_consumers (slot_at s i) = card (holders s i)" using inv_slot [OF inv i] by (simp add: slot_ok_def)
  then have none: "holders s i = {}" using True by (simp add: referenced_def)
  have "result_inv pf (upd_slot_at i (\<lambda>x. x\<lparr>sl_used := False, sl_value := None\<rparr>) s)"
    using inv_slot [OF inv i] True none
    by (intro upd_slot_inv_pins [OF inv i]) (auto simp: slot_ok_def referenced_def)
  then show ?thesis using True by (simp add: impl_collect_def Let_def referenced_def)
next
  case False
  then have same: "impl_collect i s = s" by (auto simp: impl_collect_def Let_def referenced_def)
  have "slot_ok pf {} s j (slot_at s j)" if "j < length (ri_slots s)" for j
    using inv_slot [OF inv that] False by (auto simp: slot_ok_def)
  then show ?thesis using inv unfolding same by (simp add: registry_inv_def)
qed

end
