(* ===== verification/Result_Store_Steps.thy ===== *)
theory Result_Store_Steps
  imports Result_Store_Inv
begin

text \<open>
  Every operation of the result store keeps the invariant of its registry.
\<close>

section \<open>Consumers\<close>

lemma findD:
  assumes "find P [0..<n] = Some i"
  shows "i < n" "P i"
  using assms by (auto simp: find_Some_iff)

text \<open>The registry after a consumer slot has been filled for the result in slot \<open>i\<close>.\<close>

definition with_consumer :: "nat \<Rightarrow> handle \<Rightarrow> u64 \<Rightarrow> nat \<Rightarrow> result_impl \<Rightarrow> result_impl" where
  "with_consumer c r owner i s =
     bump_version (upd_slot_at i (\<lambda>x. x\<lparr>sl_consumers := sl_consumers x + 1\<rparr>)
       (upd_consumer_at c (\<lambda>x. x\<lparr>cn_active := True, cn_generation := ri_next_consumer s + 1, cn_owner := owner,
            cn_result := r\<rparr>) (s\<lparr>ri_next_consumer := ri_next_consumer s + 1\<rparr>)))"

lemma impl_add_cases:
  assumes "impl_add r owner s = (res, s')"
  obtains (full) "res = fail Capacity ''consumer capacity''" "s' = s"
    | (added) c where "c < length (ri_consumers s)" "\<not> cn_active (consumer_at s c)" "ri_next_consumer s \<noteq> UINT64_MAX"
        "s' = with_consumer c r owner (unat (h_slot r)) s"
        "res = Inr \<lparr>rh_result = r, rh_consumer = consumer_handle s c (ri_next_consumer s + 1) owner\<rparr>"
proof (cases "find (\<lambda>i. \<not> cn_active (consumer_at s i) \<and> ri_next_consumer s \<noteq> UINT64_MAX) [0..<length (ri_consumers s)]")
  case None
  then show thesis using assms full by (simp add: impl_add_def)
next
  case (Some c)
  note f = findD [OF Some]
  have "s' = with_consumer c r owner (unat (h_slot r)) s"
      "res = Inr \<lparr>rh_result = r, rh_consumer = consumer_handle s c (ri_next_consumer s + 1) owner\<rparr>"
    using assms Some by (auto simp: impl_add_def Let_def with_consumer_def)
  then show thesis using f added by blast
qed

lemma with_consumer_simps:
  "ri_next_consumer (with_consumer c r owner i s) = ri_next_consumer s + 1"
  "ri_next_result (with_consumer c r owner i s) = ri_next_result s"
  "ri_pin_limit (with_consumer c r owner i s) = ri_pin_limit s" "ri_pin_count (with_consumer c r owner i s) = ri_pin_count s"
  "ri_domain (with_consumer c r owner i s) = ri_domain s" "ri_store (with_consumer c r owner i s) = ri_store s"
  "length (ri_slots (with_consumer c r owner i s)) = length (ri_slots s)"
  "length (ri_consumers (with_consumer c r owner i s)) = length (ri_consumers s)"
  by (simp_all add: with_consumer_def)

lemma with_consumer_slot:
  "slot_at (with_consumer c r owner i s) j =
     (if i = j \<and> j < length (ri_slots s) then (slot_at s i)\<lparr>sl_consumers := sl_consumers (slot_at s i) + 1\<rparr> else slot_at s j)"
  by (simp add: with_consumer_def slot_at_upd)

lemma with_consumer_consumer:
  "consumer_at (with_consumer c r owner i s) k =
     (if c = k \<and> k < length (ri_consumers s)
      then \<lparr>cn_active = True, cn_generation = ri_next_consumer s + 1, cn_owner = owner, cn_result = r\<rparr> else consumer_at s k)"
  by (simp add: with_consumer_def consumer_at_upd)

lemma with_consumer_handle: "result_handle_at (with_consumer c r owner i s) j = result_handle_at s j"
  by (simp add: result_handle_at_def with_consumer_simps with_consumer_slot)

lemma with_consumer_holders:
  assumes "c < length (ri_consumers s)" "\<not> cn_active (consumer_at s c)"
  shows "holders (with_consumer c r owner i s) j =
    (if unat (h_slot r) = j then insert c (holders s j) else holders s j)"
  using assms by (auto simp: holders_def with_consumer_simps with_consumer_consumer split: if_splits)

lemma sum_pins_same:
  assumes "\<And>i. i < length xs \<Longrightarrow> sl_pins (xs ! i) = sl_pins (ys ! i)" "length xs = length ys"
  shows "(\<Sum>x\<leftarrow>xs. sl_pins x) = (\<Sum>x\<leftarrow>ys. sl_pins x)"
proof -
  have "map sl_pins xs = map sl_pins ys" using assms by (auto intro: nth_equalityI)
  then show ?thesis by simp
qed

lemma with_consumer_inv:
  assumes inv: "registry_inv pf ex s" and i: "i < length (ri_slots s)" "sl_used (slot_at s i)"
    and c: "c < length (ri_consumers s)" "\<not> cn_active (consumer_at s c)" and room: "ri_next_consumer s \<noteq> UINT64_MAX"
  shows "registry_inv pf (ex - {i}) (with_consumer c (result_handle_at s i) owner i s)"
proof -
  let ?s = "with_consumer c (result_handle_at s i) owner i s"
  note len = inv_lengths [OF inv]
  have ri: "unat (h_slot (result_handle_at s i)) = i" using i len by (simp add: result_handle_slot)
  note hold = with_consumer_holders [OF c, of "result_handle_at s i" owner i, unfolded ri]
  have "c \<notin> holders s i" using c by (simp add: holders_def)
  then have card: "card (insert c (holders s i)) = card (holders s i) + 1" by simp
  have "slot_ok pf (ex - {i}) ?s j (slot_at ?s j)" if j: "j < length (ri_slots s)" for j
    using inv_slot [OF inv j] i card
    by (cases "j = i") (auto simp: slot_ok_def with_consumer_slot with_consumer_simps hold referenced_def)
  moreover have "consumer_ok ?s (consumer_at ?s k)" if k: "k < length (ri_consumers s)" for k
  proof (cases "k = c")
    case True
    then show ?thesis using c i
      by (auto simp: consumer_ok_def with_consumer_consumer with_consumer_simps with_consumer_handle with_consumer_slot)
  next
    case False
    have le: "cn_generation (consumer_at s k) \<le> ri_next_consumer s + 1"
      using inv_active [OF inv k] succ_le [OF room] by (auto simp: consumer_ok_def)
    show ?thesis using False inv_active [OF inv k] le
      by (auto simp: consumer_ok_def with_consumer_consumer with_consumer_simps with_consumer_handle with_consumer_slot)
  qed
  moreover have "(\<Sum>x\<leftarrow>ri_slots ?s. sl_pins x) = (\<Sum>x\<leftarrow>ri_slots s. sl_pins x)"
    by (rule sum_pins_same) (simp_all add: with_consumer_simps with_consumer_slot)
  ultimately show ?thesis using inv by (simp add: registry_inv_def with_consumer_simps)
qed

lemma registry_inv_mono: "registry_inv pf ex s \<Longrightarrow> ex \<subseteq> ex' \<Longrightarrow> registry_inv pf ex' s"
  by (auto simp: registry_inv_def slot_ok_def)

lemma impl_add_inv:
  assumes inv: "registry_inv pf ex s" and r: "impl_result s r = Inr i" and add: "impl_add r owner s = (res, s')"
  shows "registry_inv pf ex s'" and "res = Inr h \<Longrightarrow> registry_inv pf (ex - {i}) s'"
proof -
  note len = inv_lengths [OF inv]
  have i: "i < length (ri_slots s)" "sl_used (slot_at s i)" "r = result_handle_at s i"
    using r impl_result_iff [OF len(1)] by auto
  have ri: "unat (h_slot (result_handle_at s i)) = i" using i len by (simp add: result_handle_slot)
  have added: "registry_inv pf (ex - {i}) s'" if "s' \<noteq> s \<or> res = Inr h" for h using add
    by (cases rule: impl_add_cases) (use that with_consumer_inv [OF inv i(1,2)] in \<open>simp_all add: i(3) ri fail_def\<close>)
  show "registry_inv pf (ex - {i}) s'" if "res = Inr h" using added that by blast
  show "registry_inv pf ex s'"
    using inv added registry_inv_mono [of pf "ex - {i}" s' ex] by (cases "s' = s") auto
qed

lemma drop_consumer_inv:
  assumes inv: "registry_inv pf ex s" and c: "c \<in> holders s i" and i: "i < length (ri_slots s)"
  shows "registry_inv pf (insert i ex) (drop_consumer c i s)"
proof -
  let ?s = "drop_consumer c i s"
  have sl: "slot_at ?s j = (if j = i then (slot_at s i)\<lparr>sl_consumers := sl_consumers (slot_at s i) - 1\<rparr> else slot_at s j)" for j
    using i by (simp add: drop_consumer_def slot_at_upd)
  have cc: "c < length (ri_consumers s)" using c by (simp add: holders_def)
  have cn: "consumer_at ?s k = (if k = c then (consumer_at s c)\<lparr>cn_active := False\<rparr> else consumer_at s k)" for k
    using cc by (simp add: drop_consumer_def consumer_at_upd)
  have simps: "length (ri_slots ?s) = length (ri_slots s)" "length (ri_consumers ?s) = length (ri_consumers s)"
      "ri_next_result ?s = ri_next_result s" "ri_next_consumer ?s = ri_next_consumer s" "ri_pin_count ?s = ri_pin_count s"
      "ri_pin_limit ?s = ri_pin_limit s" "ri_domain ?s = ri_domain s" "ri_store ?s = ri_store s"
    by (simp_all add: drop_consumer_def)
  have hold: "holders ?s j = holders s j - {c}" for j by (auto simp: holders_def simps cn split: if_splits)
  have other: "c \<notin> holders s j" if "j \<noteq> i" for j using c that by (simp add: holders_def)
  have rh: "result_handle_at ?s j = result_handle_at s j" for j by (simp add: result_handle_at_def simps sl)
  have "slot_ok pf (insert i ex) ?s j (slot_at ?s j)" if j: "j < length (ri_slots s)" for j
  proof (cases "j = i")
    case True
    have "card (holders s i - {c}) = card (holders s i) - 1" using c by simp
    then show ?thesis using inv_slot [OF inv i] True by (auto simp: slot_ok_def sl simps hold referenced_def)
  next
    case False
    have "holders s j - {c} = holders s j" using other [OF False] by simp
    then show ?thesis using inv_slot [OF inv j] False by (auto simp: slot_ok_def sl simps hold)
  qed
  moreover have "consumer_ok ?s (consumer_at ?s k)" if k: "k < length (ri_consumers s)" for k
    using inv_active [OF inv k] by (auto simp: consumer_ok_def cn simps rh sl)
  moreover have "(\<Sum>x\<leftarrow>ri_slots ?s. sl_pins x) = (\<Sum>x\<leftarrow>ri_slots s. sl_pins x)"
    by (rule sum_pins_same) (simp_all add: simps sl)
  ultimately show ?thesis using inv by (simp add: registry_inv_def simps)
qed

section \<open>Operations\<close>

lemma fresh_result_inv:
  assumes inv: "registry_inv pf ex s" and room: "ri_next_result s \<noteq> UINT64_MAX"
  shows "registry_inv pf ex (s\<lparr>ri_next_result := ri_next_result s + 1\<rparr>)"
proof -
  let ?s = "s\<lparr>ri_next_result := ri_next_result s + 1\<rparr>"
  have hold: "holders ?s i = holders s i" "result_handle_at ?s i = result_handle_at s i" for i
    by (auto simp: holders_def result_handle_at_def)
  have "sl_gen (slot_at s i) \<le> ri_next_result s + 1" if "i < length (ri_slots s)" for i
    using inv_slot [OF inv that] succ_le [OF room] by (auto simp: slot_ok_def)
  then show ?thesis using inv by (simp add: registry_inv_def slot_ok_def consumer_ok_def hold)
qed

lemma unused_slot:
  assumes "registry_inv pf ex s" "i < length (ri_slots s)" "\<not> sl_used (slot_at s i)"
  shows "holders s i = {}" "\<not> referenced (slot_at s i)"
    "sl_consumers (slot_at s i) = 0" "sl_pins (slot_at s i) = 0" "\<not> sl_publishing (slot_at s i)"
  using inv_slot [OF assms(1,2)] assms(3) by (auto simp: slot_ok_def referenced_def)

lemma claim_inv:
  assumes inv: "result_inv pf s" and i: "i < length (ri_slots s)" "\<not> sl_used (slot_at s i)"
    and room: "ri_next_result s \<noteq> UINT64_MAX"
  shows "result_inv pf (upd_slot_at i (claim_slot (ri_next_result s + 1) c) (s\<lparr>ri_next_result := ri_next_result s + 1\<rparr>))"
proof -
  let ?s = "s\<lparr>ri_next_result := ri_next_result s + 1\<rparr>"
  note fresh = fresh_result_inv [OF inv room]
  have un: "i < length (ri_slots ?s)" "\<not> sl_used (slot_at ?s i)" using i by simp_all
  note free = unused_slot [OF fresh un]
  show ?thesis using free
    by (intro upd_slot_inv_pins [OF fresh un(1)]) (simp_all add: slot_ok_def claim_slot_def referenced_def)
qed

lemma rs_reserve_inv:
  assumes inv: "result_inv pf s"
  shows "result_inv pf (snd (rs_reserve c s))"
proof (cases "find (\<lambda>i. \<not> (sl_used (slot_at s i) \<or> ri_next_result s = UINT64_MAX)) [0..<length (ri_slots s)]")
  case None
  then show ?thesis using inv by (simp add: rs_reserve_def)
next
  case (Some i)
  note f = findD [OF Some]
  let ?s = "upd_slot_at i (claim_slot (ri_next_result s + 1) c) (s\<lparr>ri_next_result := ri_next_result s + 1\<rparr>)"
  let ?r = "result_handle_at ?s i"
  have inv1: "result_inv pf ?s" using claim_inv [OF inv f(1)] f(2) by blast
  have sl: "sl_used (slot_at ?s i)" "i < length (ri_slots ?s)" using f(1) by (simp_all add: slot_at_upd claim_slot_def)
  have r: "impl_result ?s ?r = Inr i" using impl_result_iff [OF inv_lengths(1) [OF inv1]] sl by blast
  obtain res s2 where add: "impl_add ?r (rc_consumer_owner c) ?s = (res, s2)" by fastforce
  show ?thesis
  proof (cases res)
    case (Inr h)
    then show ?thesis using Some add impl_add_inv(1) [OF inv1 r add] by (simp add: rs_reserve_def Let_def)
  next
    case (Inl e)
    have s2: "s2 = ?s" using add by (cases rule: impl_add_cases) (use Inl in simp_all)
    let ?f = "\<lambda>x. x\<lparr>sl_used := False, sl_producer := False\<rparr>"
    have x: "sl_consumers (slot_at ?s i) = 0" "sl_pins (slot_at ?s i) = 0" "sl_value (slot_at ?s i) = None"
        "sl_publishing (slot_at ?s i) = sl_publishing (slot_at s i)"
      using f(1) by (simp_all add: slot_at_upd claim_slot_def)
    have np: "\<not> sl_publishing (slot_at ?s i)" using unused_slot [OF inv f(1)] f(2) x(4) by blast
    have none: "holders ?s i = {}" using inv_slot [OF inv1 sl(2)] x(1) by (simp add: slot_ok_def)
    have "result_inv pf (upd_slot_at i ?f ?s)"
      using x(1-3) np none inv_slot [OF inv1 sl(2)]
      by (intro upd_slot_inv_pins [OF inv1 sl(2)]) (simp_all add: slot_ok_def referenced_def)
    then show ?thesis using Some add Inl s2 by (simp add: rs_reserve_def Let_def)
  qed
qed

lemma rs_publish_inv:
  assumes inv: "result_inv pf s"
  shows "result_inv pf (snd (rs_publish pf h v c s))"
proof (cases "fst (rs_publish pf h v c s)")
  case (Inl e)
  then show ?thesis using inv by (auto simp: rs_publish_def Let_def split: sum.splits if_splits)
next
  case (Inr rcpt)
  then obtain i where r: "impl_result s h = Inr i" and p: "sl_producer (slot_at s i)" "sl_value (slot_at s i) = None"
      "\<not> sl_publishing (slot_at s i)" "owned_value_bytes pf v \<le> rc_max_bytes (sl_create (slot_at s i))"
      "snd (rs_publish pf h v c s) =
         bump_version (upd_slot_at i (\<lambda>x. x\<lparr>sl_value := Some v, sl_ready := pb_ready c\<rparr>) s)"
    by (auto simp: rs_publish_def Let_def fail_def split: sum.splits if_splits)
  have i: "i < length (ri_slots s)" "sl_used (slot_at s i)" using r impl_result_iff [OF inv_lengths(1) [OF inv]] by auto
  have "result_inv pf (upd_slot_at i (\<lambda>x. x\<lparr>sl_value := Some v, sl_ready := pb_ready c\<rparr>) s)"
    using inv_slot [OF inv i(1)] i(2) p(1-4)
    by (intro upd_slot_inv_pins [OF inv i(1)]) (simp_all add: slot_ok_def referenced_def)
  then show ?thesis by (simp add: p(5))
qed

lemma rs_retain_inv:
  assumes inv: "result_inv pf s"
  shows "result_inv pf (snd (rs_retain h owner s))"
proof (cases "impl_consumer s h")
  case (Inr c)
  then obtain i where "impl_result s (rh_result h) = Inr i" by (auto simp: impl_consumer_def split: sum.splits)
  from impl_add_inv(1) [OF inv this prod.collapse [symmetric]] show ?thesis using Inr by (simp add: rs_retain_def)
qed (simp add: rs_retain_def inv)

lemma rs_subscribe_inv:
  assumes inv: "result_inv pf s"
  shows "result_inv pf (snd (rs_subscribe h owner s))"
proof (cases "impl_result s h")
  case (Inr i)
  from impl_add_inv(1) [OF inv this prod.collapse [symmetric], of owner] show ?thesis
    using Inr by (auto simp: rs_subscribe_def Let_def split: prod.splits sum.splits)
qed (simp add: rs_subscribe_def inv)

lemma rs_release_inv:
  assumes inv: "result_inv pf s"
  shows "result_inv pf (snd (rs_release h s))"
proof (cases "impl_consumer s h")
  case (Inr c)
  from inv Inr obtain i where i: "i < length (ri_slots s)" "unat (h_slot (rh_result h)) = i" "c \<in> holders s i"
    by (rule inv_consumer)
  have "c \<in> holders (bump_version s) i" using i(3) by (simp add: holders_def)
  with drop_consumer_inv [of pf "{}" "bump_version s" c i] inv i(1)
  have "registry_inv pf {i} (drop_consumer c i (bump_version s))" by simp
  moreover have "i < length (ri_slots (drop_consumer c i (bump_version s)))" using i(1) by (simp add: drop_consumer_def)
  ultimately show ?thesis using Inr i(2) collect_inv by (simp add: rs_release_def Let_def)
qed (simp add: rs_release_def inv)

lemma rs_take_inv:
  assumes "result_inv pf s"
  shows "result_inv pf (snd (rs_take pf h capacity s))"
  using assms rs_release_inv [OF assms, of h] by (auto simp: rs_take_def split: sum.splits prod.splits)

lemma rs_release_owner_inv:
  assumes inv: "result_inv pf s"
  shows "result_inv pf (snd (rs_release_owner h s))"
proof (cases "impl_result s h")
  case (Inr i)
  have i: "i < length (ri_slots s)" "sl_used (slot_at s i)" using Inr impl_result_iff [OF inv_lengths(1) [OF inv]] by auto
  let ?s = "upd_slot_at i (\<lambda>x. x\<lparr>sl_producer := False\<rparr>) (bump_version s)"
  have inv': "result_inv pf (bump_version s)" and i': "i < length (ri_slots (bump_version s))" using inv i by simp_all
  have "registry_inv pf {i} ?s"
    using inv_slot [OF inv' i'] i(2)
    by (intro upd_slot_inv_pins [OF inv' i']) (simp_all add: slot_ok_def referenced_def)
  then have "result_inv pf (impl_collect i ?s)" using i' by (intro collect_inv) simp_all
  then show ?thesis using Inr inv by (simp add: rs_release_owner_def)
qed (simp add: rs_release_owner_def inv)

lemma rs_pin_inv:
  assumes inv: "result_inv pf s" and pin: "rs_pin h s = (Inr (v, i), s')"
  shows "result_inv pf s'" "i < length (ri_slots s)" "sl_used (slot_at s i)" "sl_value (slot_at s i) = Some v"
    "s' = (upd_slot_at i (\<lambda>x. x\<lparr>sl_pins := sl_pins x + 1\<rparr>) (bump_version s))\<lparr>ri_pin_count := ri_pin_count s + 1\<rparr>"
proof -
  from pin obtain c where c: "impl_consumer s h = Inr c" and v: "sl_value (slot_at s i) = Some v"
    and slot: "unat (h_slot (rh_result h)) = i" and room: "ri_pin_count s \<noteq> ri_pin_limit s"
    and s': "s' = (upd_slot_at i (\<lambda>x. x\<lparr>sl_pins := sl_pins x + 1\<rparr>) (bump_version s))\<lparr>ri_pin_count := ri_pin_count s + 1\<rparr>"
    by (auto simp: rs_pin_def fail_def Let_def split: sum.splits option.splits if_splits)
  from inv c obtain j where "j < length (ri_slots s)" "sl_used (slot_at s j)" "unat (h_slot (rh_result h)) = j"
    by (rule inv_consumer)
  with slot have i: "i < length (ri_slots s)" "sl_used (slot_at s i)" by simp_all
  have inv': "result_inv pf (bump_version s)" and i': "i < length (ri_slots (bump_version s))" using inv i by simp_all
  have "ri_pin_count s + 1 \<le> ri_pin_limit s" using inv room by (simp add: registry_inv_def)
  then show "result_inv pf s'" using inv_slot [OF inv' i'] i(2) unfolding s'
    by (intro upd_slot_inv [OF inv' i']) (auto simp: slot_ok_def referenced_def)
  show "i < length (ri_slots s)" "sl_used (slot_at s i)" "sl_value (slot_at s i) = Some v" by (fact i v)+
  show "s' = (upd_slot_at i (\<lambda>x. x\<lparr>sl_pins := sl_pins x + 1\<rparr>) (bump_version s))\<lparr>ri_pin_count := ri_pin_count s + 1\<rparr>"
    by (fact s')
qed

text \<open>A guard that is given up lowers the count of its slot, which is positive.\<close>

lemma rs_unpin_inv:
  assumes inv: "result_inv pf s" and i: "i < length (ri_slots s)" and pos: "0 < sl_pins (slot_at s i)"
  shows "result_inv pf (rs_unpin i s)"
proof -
  have inv': "result_inv pf (bump_version s)" and i': "i < length (ri_slots (bump_version s))" using inv i by simp_all
  have "sl_pins (slot_at s i) \<le> ri_pin_count s" using inv pins_le_sum [OF i] by (simp add: registry_inv_def)
  moreover have "ri_pin_count s \<le> ri_pin_limit s" using inv by (simp add: registry_inv_def)
  moreover have "sl_used (slot_at s i)" using inv_slot [OF inv i] pos by (simp add: slot_ok_def referenced_def)
  ultimately have "registry_inv pf {i}
      ((upd_slot_at i (\<lambda>x. x\<lparr>sl_pins := sl_pins x - 1\<rparr>) (bump_version s))\<lparr>ri_pin_count := ri_pin_count s - 1\<rparr>)"
    using inv_slot [OF inv' i'] pos
    by (intro upd_slot_inv [OF inv' i']) (auto simp: slot_ok_def referenced_def)
  moreover have "(upd_slot_at i (\<lambda>x. x\<lparr>sl_pins := sl_pins x - 1\<rparr>) (bump_version s))\<lparr>ri_pin_count := ri_pin_count s - 1\<rparr> =
      upd_slot_at i (\<lambda>x. x\<lparr>sl_pins := sl_pins x - 1\<rparr>) ((bump_version s)\<lparr>ri_pin_count := ri_pin_count s - 1\<rparr>)"
    by (simp add: upd_slot_at_def)
  ultimately show ?thesis using i unfolding rs_unpin_def by (intro collect_inv) simp_all
qed

lemma rs_prepare_publish_Inr:
  assumes "rs_prepare_publish pf h v c s = (Inr p, s')"
  obtains i where "impl_result s h = Inr i" "sl_producer (slot_at s i)" "sl_value (slot_at s i) = None"
    "\<not> sl_publishing (slot_at s i)" "owned_value_bytes pf v \<le> rc_max_bytes (sl_create (slot_at s i))"
    "p = \<lparr>pq_handle = h, pq_context = c, pq_value = Some v, pq_done = False\<rparr>"
    "s' = bump_version (upd_slot_at i (\<lambda>x. x\<lparr>sl_publishing := True\<rparr>) s)"
  using assms by (auto simp: rs_prepare_publish_def Let_def fail_def split: sum.splits if_splits)

lemma rs_prepare_publish_inv:
  assumes inv: "result_inv pf s" and prep: "rs_prepare_publish pf h v c s = (Inr p, s')"
  shows "result_inv pf s'"
proof -
  from prep obtain i where r: "impl_result s h = Inr i" and x: "sl_value (slot_at s i) = None"
      "s' = bump_version (upd_slot_at i (\<lambda>x. x\<lparr>sl_publishing := True\<rparr>) s)"
    by (rule rs_prepare_publish_Inr)
  have i: "i < length (ri_slots s)" "sl_used (slot_at s i)" using r impl_result_iff [OF inv_lengths(1) [OF inv]] by auto
  have "result_inv pf (upd_slot_at i (\<lambda>x. x\<lparr>sl_publishing := True\<rparr>) s)"
    using inv_slot [OF inv i(1)] i(2) x(1)
    by (intro upd_slot_inv_pins [OF inv i(1)]) (simp_all add: slot_ok_def referenced_def)
  then show ?thesis by (simp add: x)
qed

lemma publish_apply_inv:
  assumes inv: "result_inv pf s" and i: "i < length (ri_slots s)" and h: "pq_handle p = result_handle_at s i"
    and ok: "publish_validate p s = Inr ()" and v: "pq_value p = Some v"
      "owned_value_bytes pf v \<le> rc_max_bytes (sl_create (slot_at s i))"
  shows "result_inv pf (snd (publish_apply p s))"
proof -
  note len = inv_lengths [OF inv]
  have ri: "unat (h_slot (result_handle_at s i)) = i" using i len by (simp add: result_handle_slot)
  obtain j where "impl_result s (pq_handle p) = Inr j" "sl_producer (slot_at s j)"
    using ok by (auto simp: publish_validate_def fail_def split: if_splits sum.splits)
  moreover from this have "j = i" "sl_used (slot_at s i)"
    using impl_result_iff [OF len(1)] len ri h by (metis order.strict_trans result_handle_slot)+
  ultimately have p: "sl_producer (slot_at s i)" "sl_used (slot_at s i)" by simp_all
  have "result_inv pf (upd_slot_at i
      (\<lambda>x. x\<lparr>sl_value := pq_value p, sl_ready := pb_ready (pq_context p), sl_publishing := False\<rparr>) s)"
    using inv_slot [OF inv i] p v
    by (intro upd_slot_inv_pins [OF inv i]) (simp_all add: slot_ok_def referenced_def)
  then show ?thesis by (simp add: publish_apply_def h ri)
qed

lemma publish_discard_inv:
  assumes inv: "result_inv pf s"
  shows "result_inv pf (snd (publish_discard p s))"
proof (cases "pq_done p \<or> isl (impl_result s (pq_handle p))")
  case True
  then show ?thesis using inv by (auto simp: publish_discard_def split: sum.splits)
next
  case False
  then obtain i where r: "impl_result s (pq_handle p) = Inr i" by (cases "impl_result s (pq_handle p)") auto
  have i: "i < length (ri_slots s)" "sl_used (slot_at s i)" using r impl_result_iff [OF inv_lengths(1) [OF inv]] by auto
  have "registry_inv pf {i} (upd_slot_at i (\<lambda>x. x\<lparr>sl_publishing := False\<rparr>) s)"
    using inv_slot [OF inv i(1)] i(2)
    by (intro upd_slot_inv_pins [OF inv i(1)]) (auto simp: slot_ok_def referenced_def)
  then have "result_inv pf (impl_collect i (bump_version (upd_slot_at i (\<lambda>x. x\<lparr>sl_publishing := False\<rparr>) s)))"
    using i(1) by (intro collect_inv) simp_all
  then show ?thesis using False r by (simp add: publish_discard_def)
qed

end
