(* ===== verification/Result_Store_Life.thy ===== *)
theory Result_Store_Life
  imports Result_Store_Steps
begin

text \<open>
  How the registry changes over time: generations only grow, and within a generation a published
  value stays as it is and a released consumer stays released.
\<close>

section \<open>The order on registries\<close>

definition slot_next :: "result_slot \<Rightarrow> result_slot \<Rightarrow> bool" where
  "slot_next x y \<longleftrightarrow> sl_gen x < sl_gen y \<or>
     sl_gen y = sl_gen x \<and> sl_create y = sl_create x \<and>
     (sl_used y \<longrightarrow> sl_used x \<and> (sl_value x \<noteq> None \<longrightarrow> sl_value y = sl_value x \<and> sl_ready y = sl_ready x))"

definition consumer_next :: "result_consumer \<Rightarrow> result_consumer \<Rightarrow> bool" where
  "consumer_next x y \<longleftrightarrow> cn_generation x < cn_generation y \<or>
     cn_generation y = cn_generation x \<and> cn_owner y = cn_owner x \<and> cn_result y = cn_result x \<and>
     (cn_active y \<longrightarrow> cn_active x)"

definition same_shape :: "result_impl \<Rightarrow> result_impl \<Rightarrow> bool" where
  "same_shape s s' \<longleftrightarrow> length (ri_slots s') = length (ri_slots s) \<and> length (ri_consumers s') = length (ri_consumers s) \<and>
     ri_domain s' = ri_domain s \<and> ri_store s' = ri_store s \<and> ri_pin_limit s' = ri_pin_limit s"

definition advance :: "result_impl \<Rightarrow> result_impl \<Rightarrow> bool" where
  "advance s s' \<longleftrightarrow> same_shape s s' \<and> ri_next_result s \<le> ri_next_result s' \<and> ri_next_consumer s \<le> ri_next_consumer s' \<and>
     (\<forall>i < length (ri_slots s). slot_next (slot_at s i) (slot_at s' i)) \<and>
     (\<forall>c < length (ri_consumers s). consumer_next (consumer_at s c) (consumer_at s' c))"

lemma slot_next_refl [simp]: "slot_next x x"
  by (simp add: slot_next_def)

lemma consumer_next_refl [simp]: "consumer_next x x"
  by (simp add: consumer_next_def)

lemma slot_next_trans: "slot_next x y \<Longrightarrow> slot_next y z \<Longrightarrow> slot_next x z"
  unfolding slot_next_def by (elim disjE conjE) (auto dest: less_trans)

lemma consumer_next_trans: "consumer_next x y \<Longrightarrow> consumer_next y z \<Longrightarrow> consumer_next x z"
  unfolding consumer_next_def by (elim disjE conjE) (auto dest: less_trans)

lemma advance_refl [simp]: "advance s s"
  by (simp add: advance_def same_shape_def)

lemma advance_trans:
  assumes "advance s s'" "advance s' s''"
  shows "advance s s''"
proof -
  have "slot_next (slot_at s i) (slot_at s'' i)" if "i < length (ri_slots s)" for i
    by (rule slot_next_trans [of _ "slot_at s' i"]) (use assms that in \<open>simp_all add: advance_def same_shape_def\<close>)
  moreover have "consumer_next (consumer_at s c) (consumer_at s'' c)" if "c < length (ri_consumers s)" for c
    by (rule consumer_next_trans [of _ "consumer_at s' c"]) (use assms that in \<open>simp_all add: advance_def same_shape_def\<close>)
  ultimately show ?thesis using assms by (auto simp: advance_def same_shape_def)
qed

lemma advance_slot:
  assumes "slot_next (slot_at s i) (f (slot_at s i))"
  shows "advance s (upd_slot_at i f s)"
  using assms by (auto simp: advance_def same_shape_def slot_at_upd)

lemma advance_pins [simp]: "advance s (s'\<lparr>ri_pin_count := n\<rparr>) \<longleftrightarrow> advance s s'"
  by (simp add: advance_def same_shape_def)

lemma advance_bump [simp]: "advance s (bump_version s') \<longleftrightarrow> advance s s'" "advance (bump_version s) s' \<longleftrightarrow> advance s s'"
  by (simp_all add: advance_def same_shape_def)

lemma advance_collect: "advance s (impl_collect i s)"
  by (auto simp: impl_collect_def Let_def slot_next_def intro!: advance_slot)

lemma advance_consumer:
  assumes inv: "registry_inv pf ex s" and c: "c < length (ri_consumers s)" and room: "ri_next_consumer s \<noteq> UINT64_MAX"
  shows "advance s (with_consumer c r owner i s)"
proof -
  have "cn_generation (consumer_at s c) < ri_next_consumer s + 1"
    using inv_active [OF inv c] not_max_lessI [OF room] by (auto simp: consumer_ok_def)
  then show ?thesis using succ_le [OF room]
    by (auto simp: advance_def same_shape_def with_consumer_simps with_consumer_slot with_consumer_consumer
        slot_next_def consumer_next_def)
qed

lemma advance_add:
  assumes "registry_inv pf ex s" "impl_add r owner s = (res, s')"
  shows "advance s s'"
  using assms(2) by (cases rule: impl_add_cases) (use assms(1) advance_consumer in auto)

lemma advance_drop: "advance s (drop_consumer c i s)"
proof -
  have "advance s (upd_consumer_at c (\<lambda>x. x\<lparr>cn_active := False\<rparr>) s)"
    by (auto simp: advance_def same_shape_def consumer_at_upd consumer_next_def)
  moreover have "advance (upd_consumer_at c (\<lambda>x. x\<lparr>cn_active := False\<rparr>) s) (drop_consumer c i s)"
    unfolding drop_consumer_def by (rule advance_slot) (simp add: slot_next_def)
  ultimately show ?thesis by (rule advance_trans)
qed

section \<open>Every operation advances the registry\<close>

lemma advance_reserve:
  assumes inv: "result_inv pf s"
  shows "advance s (snd (rs_reserve c s))"
proof (cases "find (\<lambda>i. \<not> (sl_used (slot_at s i) \<or> ri_next_result s = UINT64_MAX)) [0..<length (ri_slots s)]")
  case None
  then show ?thesis by (simp add: rs_reserve_def)
next
  case (Some i)
  note f = findD [OF Some]
  let ?s = "upd_slot_at i (claim_slot (ri_next_result s + 1) c) (s\<lparr>ri_next_result := ri_next_result s + 1\<rparr>)"
  let ?r = "result_handle_at ?s i" and ?f = "\<lambda>x. x\<lparr>sl_used := False, sl_producer := False\<rparr>"
  have room: "ri_next_result s \<noteq> UINT64_MAX" using f by blast
  have inv1: "result_inv pf ?s" using claim_inv [OF inv f(1)] f(2) by blast
  have "sl_gen (slot_at s i) < ri_next_result s + 1"
    using inv_slot [OF inv f(1)] not_max_lessI [OF room] by (auto simp: slot_ok_def)
  then have "advance s ?s" using succ_le [OF room]
    by (auto simp: advance_def same_shape_def slot_at_upd slot_next_def claim_slot_def)
  moreover obtain res s2 where add: "impl_add ?r (rc_consumer_owner c) ?s = (res, s2)" by fastforce
  moreover note advance_add [OF inv1 add]
  ultimately have s2: "advance s s2" using advance_trans by blast
  have undo: "advance s2 (upd_slot_at i ?f s2)" by (rule advance_slot) (simp add: slot_next_def)
  have "snd (rs_reserve c s) = s2 \<or> snd (rs_reserve c s) = upd_slot_at i ?f s2"
    using Some add by (cases res) (simp_all add: rs_reserve_def Let_def)
  then show ?thesis using s2 advance_trans [OF s2 undo] by auto
qed

lemma advance_publish: "advance s (snd (rs_publish pf h v c s))"
  by (auto simp: rs_publish_def Let_def slot_next_def intro!: advance_slot split: sum.splits)

lemma advance_retain: "result_inv pf s \<Longrightarrow> advance s (snd (rs_retain h owner s))"
  using advance_add [OF _ prod.collapse [symmetric]] by (auto simp: rs_retain_def split: sum.splits)

lemma advance_subscribe: "result_inv pf s \<Longrightarrow> advance s (snd (rs_subscribe h owner s))"
  using advance_add [OF _ prod.collapse [symmetric], of pf "{}" s h owner]
  by (auto simp: rs_subscribe_def Let_def split: sum.splits prod.splits)

lemma advance_release: "advance s (snd (rs_release h s))"
proof -
  have "advance s (impl_collect i (drop_consumer c i (bump_version s)))" for c i
    using advance_trans [OF advance_drop advance_collect, of "bump_version s"] by simp
  then show ?thesis by (simp add: rs_release_def Let_def split: sum.splits)
qed

lemma advance_take: "advance s (snd (rs_take pf h n s))"
  using advance_release [of s h] by (auto simp: rs_take_def split: sum.splits prod.splits)

lemma advance_release_owner: "advance s (snd (rs_release_owner h s))"
proof -
  have "advance s (impl_collect i (upd_slot_at i (\<lambda>x. x\<lparr>sl_producer := False\<rparr>) (bump_version s)))" for i
    using advance_trans [OF advance_slot advance_collect, of "bump_version s" i "\<lambda>x. x\<lparr>sl_producer := False\<rparr>"]
    by (simp add: slot_next_def)
  then show ?thesis by (auto simp: rs_release_owner_def split: sum.splits)
qed

lemma advance_pin: "advance s (snd (rs_pin h s))"
  using advance_slot [of "bump_version s"] 
  by (auto simp: rs_pin_def Let_def slot_next_def split: sum.splits option.splits)

lemma advance_unpin: "advance s (rs_unpin i s)"
proof -
  let ?s = "(bump_version s)\<lparr>ri_pin_count := ri_pin_count s - 1\<rparr>"
  have "advance ?s (rs_unpin i s)"
    unfolding rs_unpin_def by (rule advance_trans [OF advance_slot advance_collect]) (simp add: slot_next_def)
  moreover have "advance s ?s" by simp
  ultimately show ?thesis by (rule advance_trans [rotated])
qed

lemma advance_prepare_publish: "advance s (snd (rs_prepare_publish pf h v c s))"
  by (auto simp: rs_prepare_publish_def Let_def slot_next_def intro!: advance_slot split: sum.splits)

lemma advance_publish_discard: "advance s (snd (publish_discard p s))"
proof -
  have "advance s (impl_collect i (bump_version (upd_slot_at i (\<lambda>x. x\<lparr>sl_publishing := False\<rparr>) s)))" for i
    by (rule advance_trans [OF advance_slot [of s i "\<lambda>x. x\<lparr>sl_publishing := False\<rparr>"]])
      (use advance_collect [of "bump_version (upd_slot_at i (\<lambda>x. x\<lparr>sl_publishing := False\<rparr>) s)" i] in \<open>simp_all add: slot_next_def\<close>)
  then show ?thesis by (auto simp: publish_discard_def split: sum.splits)
qed

lemma advance_publish_apply:
  assumes "publish_validate p s = Inr ()"
  shows "advance s (snd (publish_apply p s))"
proof -
  obtain i where "impl_result s (pq_handle p) = Inr i" "sl_value (slot_at s i) = None"
    using assms by (auto simp: publish_validate_def fail_def split: if_splits sum.splits)
  moreover from this have "i = unat (h_slot (pq_handle p))"
    by (auto simp: impl_result_def Let_def fail_def split: if_splits)
  ultimately show ?thesis by (auto simp: publish_apply_def slot_next_def intro!: advance_slot)
qed

end
