(* ===== verification/Result_Store_Props.thy ===== *)
theory Result_Store_Props
  imports Result_Store_Life
begin

text \<open>
  What the result store promises in every state that its operations, the guards of pinned views
  and prepared publications can reach: exact reference counts, slots in use exactly while something
  refers to them, values that never change once published, publication at most once, and consumer
  handles that never become valid again.
\<close>

section \<open>Pins and prepared publications\<close>

definition keeps :: "result_slot \<Rightarrow> result_slot \<Rightarrow> bool" where
  "keeps x y \<longleftrightarrow> sl_publishing y = sl_publishing x \<and> (sl_publishing x \<longrightarrow> sl_gen y = sl_gen x \<and> sl_create y = sl_create x)"

definition quiet :: "result_slot \<Rightarrow> result_slot \<Rightarrow> bool" where
  "quiet x y \<longleftrightarrow> sl_pins y = sl_pins x \<and> keeps x y"

definition slotwise :: "(result_slot \<Rightarrow> result_slot \<Rightarrow> bool) \<Rightarrow> result_impl \<Rightarrow> result_impl \<Rightarrow> bool" where
  "slotwise R s s' \<longleftrightarrow> same_shape s s' \<and> (\<forall>i < length (ri_slots s). R (slot_at s i) (slot_at s' i))"

text \<open>The guards that are alive, one entry each, and the publications that are still prepared.\<close>

definition pins_ok :: "result_impl \<Rightarrow> nat list \<Rightarrow> bool" where
  "pins_ok s g \<longleftrightarrow> set g \<subseteq> {..<length (ri_slots s)} \<and> (\<forall>i < length (ri_slots s). sl_pins (slot_at s i) = count_list g i)"

definition publication_ok :: "platform \<Rightarrow> result_impl \<Rightarrow> prepared_publish \<Rightarrow> bool" where
  "publication_ok pf s p \<longleftrightarrow> \<not> pq_done p \<and> (\<exists>i < length (ri_slots s). pq_handle p = result_handle_at s i \<and>
     sl_publishing (slot_at s i) \<and>
     (\<exists>v. pq_value p = Some v \<and> owned_value_bytes pf v \<le> rc_max_bytes (sl_create (slot_at s i))))"

definition pubs_ok :: "platform \<Rightarrow> result_impl \<Rightarrow> prepared_publish list \<Rightarrow> bool" where
  "pubs_ok pf s q \<longleftrightarrow> distinct (map pq_handle q) \<and> (\<forall>p \<in> set q. publication_ok pf s p) \<and>
     (\<forall>i < length (ri_slots s). sl_publishing (slot_at s i) \<longrightarrow> (\<exists>p \<in> set q. pq_handle p = result_handle_at s i))"

lemma quiet_refl [simp]: "quiet x x" "keeps x x"
  by (simp_all add: quiet_def keeps_def)

lemma quiet_trans: "quiet x y \<Longrightarrow> quiet y z \<Longrightarrow> quiet x z"
  by (simp add: quiet_def keeps_def)

lemma slotwise_refl [simp]: "slotwise quiet s s"
  by (simp add: slotwise_def same_shape_def)

lemma slotwise_trans: "slotwise quiet s s' \<Longrightarrow> slotwise quiet s' s'' \<Longrightarrow> slotwise quiet s s''"
  unfolding slotwise_def same_shape_def using quiet_trans by (metis (no_types))

lemma slotwise_bump [simp]: "slotwise R s (bump_version s') \<longleftrightarrow> slotwise R s s'"
    "slotwise R (bump_version s) s' \<longleftrightarrow> slotwise R s s'"
  by (simp_all add: slotwise_def same_shape_def)

lemma slotwise_upd: "(\<And>x. R x x) \<Longrightarrow> R (slot_at s i) (f (slot_at s i)) \<Longrightarrow> slotwise R s (upd_slot_at i f s)"
  by (simp add: slotwise_def same_shape_def slot_at_upd)

lemma slotwise_collect: "slotwise quiet s (impl_collect i s)"
  by (auto simp: impl_collect_def Let_def quiet_def keeps_def intro!: slotwise_upd)

lemma slotwise_add:
  assumes "impl_add r owner s = (res, s')"
  shows "slotwise quiet s s'"
  using assms by (cases rule: impl_add_cases)
    (simp_all add: slotwise_def same_shape_def with_consumer_simps with_consumer_slot quiet_def keeps_def)

lemma slotwise_drop: "slotwise quiet s (drop_consumer c i s)"
  by (simp add: slotwise_def same_shape_def drop_consumer_def slot_at_upd quiet_def keeps_def)

lemma quiet_reserve:
  assumes inv: "result_inv pf s"
  shows "slotwise quiet s (snd (rs_reserve c s))"
proof (cases "find (\<lambda>i. \<not> (sl_used (slot_at s i) \<or> ri_next_result s = UINT64_MAX)) [0..<length (ri_slots s)]")
  case None
  then show ?thesis by (simp add: rs_reserve_def)
next
  case (Some i)
  note f = findD [OF Some]
  let ?s = "upd_slot_at i (claim_slot (ri_next_result s + 1) c) (s\<lparr>ri_next_result := ri_next_result s + 1\<rparr>)"
  let ?f = "\<lambda>x. x\<lparr>sl_used := False, sl_producer := False\<rparr>"
  have "sl_pins (slot_at s i) = 0" "\<not> sl_publishing (slot_at s i)" using unused_slot [OF inv f(1)] f(2) by blast+
  then have 1: "slotwise quiet s ?s"
    by (simp add: slotwise_def same_shape_def slot_at_upd quiet_def keeps_def claim_slot_def)
  obtain res s2 where add: "impl_add (result_handle_at ?s i) (rc_consumer_owner c) ?s = (res, s2)" by fastforce
  have 2: "slotwise quiet s s2" by (rule slotwise_trans [OF 1 slotwise_add [OF add]])
  moreover have "slotwise quiet s2 (upd_slot_at i ?f s2)"
    by (rule slotwise_upd) (simp_all add: quiet_def keeps_def)
  moreover have "snd (rs_reserve c s) = s2 \<or> snd (rs_reserve c s) = upd_slot_at i ?f s2"
    using Some add by (cases res) (simp_all add: rs_reserve_def Let_def)
  ultimately show ?thesis using slotwise_trans by metis
qed

lemma quiet_publish: "slotwise quiet s (snd (rs_publish pf h v c s))"
  by (auto simp: rs_publish_def Let_def quiet_def keeps_def intro!: slotwise_upd split: sum.splits)

lemma quiet_retain: "slotwise quiet s (snd (rs_retain h owner s))"
  using slotwise_add [OF prod.collapse [symmetric]] by (auto simp: rs_retain_def split: sum.splits)

lemma quiet_subscribe: "slotwise quiet s (snd (rs_subscribe h owner s))"
  using slotwise_add [where r = h and owner = owner and s = s, OF prod.collapse [symmetric]]
  by (auto simp: rs_subscribe_def Let_def split: sum.splits prod.splits)

lemma quiet_release: "slotwise quiet s (snd (rs_release h s))"
  using slotwise_trans [OF slotwise_drop slotwise_collect, of "bump_version s"]
  by (simp add: rs_release_def Let_def split: sum.splits)

lemma quiet_take: "slotwise quiet s (snd (rs_take pf h n s))"
  using quiet_release [of s h] by (auto simp: rs_take_def split: sum.splits prod.splits)

lemma quiet_release_owner: "slotwise quiet s (snd (rs_release_owner h s))"
proof -
  have "slotwise quiet s (impl_collect i (upd_slot_at i (\<lambda>x. x\<lparr>sl_producer := False\<rparr>) (bump_version s)))" for i
    by (rule slotwise_trans [OF slotwise_upd slotwise_collect, of "bump_version s", simplified])
      (simp_all add: quiet_def keeps_def)
  then show ?thesis by (auto simp: rs_release_owner_def split: sum.splits)
qed

lemma pins_ok_quiet: "slotwise quiet s s' \<Longrightarrow> pins_ok s g \<Longrightarrow> pins_ok s' g"
  by (simp add: pins_ok_def slotwise_def same_shape_def quiet_def)

lemma pubs_ok_keeps:
  assumes kept: "slotwise keeps s s'" and ok: "pubs_ok pf s q"
  shows "pubs_ok pf s' q"
proof -
  have len: "length (ri_slots s') = length (ri_slots s)" using kept by (simp add: slotwise_def same_shape_def)
  have same: "result_handle_at s' i = result_handle_at s i" "sl_create (slot_at s' i) = sl_create (slot_at s i)"
      "sl_publishing (slot_at s' i)" if "i < length (ri_slots s)" "sl_publishing (slot_at s i)" for i
    using kept that by (simp_all add: slotwise_def same_shape_def keeps_def result_handle_at_def)
  have pub: "sl_publishing (slot_at s' i) = sl_publishing (slot_at s i)" if "i < length (ri_slots s)" for i
    using kept that by (simp add: slotwise_def keeps_def)
  have "publication_ok pf s' p" if "publication_ok pf s p" for p
    using that len same unfolding publication_ok_def by metis
  then show ?thesis using ok len same(1) pub unfolding pubs_ok_def by metis
qed

lemma slotwise_quiet_keeps: "slotwise quiet s s' \<Longrightarrow> slotwise keeps s s'"
  by (simp add: slotwise_def quiet_def)

section \<open>Reachable stores\<close>

lemma count_list_remove1: "count_list (remove1 x xs) y = (if x = y then count_list xs y - 1 else count_list xs y)"
  by (induction xs) auto

lemma pins_ok_pin:
  assumes "pins_ok s g" "i < length (ri_slots s)"
  shows "pins_ok ((upd_slot_at i (\<lambda>x. x\<lparr>sl_pins := sl_pins x + 1\<rparr>) (bump_version s))\<lparr>ri_pin_count := n\<rparr>) (i # g)"
  using assms by (simp add: pins_ok_def slot_at_upd)

lemma pins_ok_unpin:
  assumes ok: "pins_ok s g" and i: "i \<in> set g"
  shows "pins_ok (rs_unpin i s) (remove1 i g)"
proof -
  let ?s = "upd_slot_at i (\<lambda>x. x\<lparr>sl_pins := sl_pins x - 1\<rparr>) ((bump_version s)\<lparr>ri_pin_count := ri_pin_count s - 1\<rparr>)"
  have "pins_ok ?s (remove1 i g)"
    using ok set_remove1_subset [of i g] by (auto simp: pins_ok_def slot_at_upd count_list_remove1)
  from pins_ok_quiet [OF slotwise_collect this] show ?thesis by (simp add: rs_unpin_def)
qed

lemma keeps_pins:
  "slotwise keeps s ((upd_slot_at i (\<lambda>x. x\<lparr>sl_pins := f x\<rparr>) (bump_version s))\<lparr>ri_pin_count := n\<rparr>)"
  by (simp add: slotwise_def same_shape_def slot_at_upd keeps_def)

lemma slotwise_keeps_trans: "slotwise keeps s s' \<Longrightarrow> slotwise keeps s' s'' \<Longrightarrow> slotwise keeps s s''"
  by (simp add: slotwise_def same_shape_def keeps_def)

lemma keeps_unpin: "slotwise keeps s (rs_unpin i s)"
proof -
  let ?s = "upd_slot_at i (\<lambda>x. x\<lparr>sl_pins := sl_pins x - 1\<rparr>) ((bump_version s)\<lparr>ri_pin_count := ri_pin_count s - 1\<rparr>)"
  have "slotwise keeps s ?s" by (simp add: slotwise_def same_shape_def slot_at_upd keeps_def)
  from slotwise_keeps_trans [OF this slotwise_quiet_keeps [OF slotwise_collect]] show ?thesis by (simp add: rs_unpin_def)
qed

lemma valid_handle:
  assumes "result_inv pf s" "impl_result s h = Inr i"
  shows "i < length (ri_slots s)" "sl_used (slot_at s i)" "h = result_handle_at s i" "unat (h_slot h) = i"
  using assms impl_result_iff [OF inv_lengths(1) [OF assms(1)]] inv_lengths(1) [OF assms(1)]
  by (auto simp: result_handle_slot)

lemma handles_differ:
  assumes "length (ri_slots s) < 2 ^ 32" "i < length (ri_slots s)" "j < length (ri_slots s)"
    "result_handle_at s i = result_handle_at s j"
  shows "i = j"
  by (metis assms order.strict_trans result_handle_slot)

text \<open>A publication is prepared: its slot is marked, and no other publication names it.\<close>

lemma pubs_ok_prepare:
  assumes inv: "result_inv pf s" and ok: "pubs_ok pf s q" and prep: "rs_prepare_publish pf h v c s = (Inr p, s')"
  shows "pubs_ok pf s' (p # q)"
proof -
  from prep obtain i where r: "impl_result s h = Inr i" and x: "\<not> sl_publishing (slot_at s i)"
      "owned_value_bytes pf v \<le> rc_max_bytes (sl_create (slot_at s i))"
      "p = \<lparr>pq_handle = h, pq_context = c, pq_value = Some v, pq_done = False\<rparr>"
      "s' = bump_version (upd_slot_at i (\<lambda>x. x\<lparr>sl_publishing := True\<rparr>) s)"
    by (rule rs_prepare_publish_Inr)
  note i = valid_handle [OF inv r] and len = inv_lengths(1) [OF inv]
  have at: "slot_at s' j = (if j = i then (slot_at s i)\<lparr>sl_publishing := True\<rparr> else slot_at s j)" for j
    using i(1) by (simp add: x(4) slot_at_upd)
  have hd: "result_handle_at s' j = result_handle_at s j" and ln: "length (ri_slots s') = length (ri_slots s)" for j
    using i(1) by (simp_all add: x(4) result_handle_at_def slot_at_upd)
  have fresh: "pq_handle p' \<noteq> h" if "p' \<in> set q" for p'
  proof
    assume eq: "pq_handle p' = h"
    obtain j where j: "j < length (ri_slots s)" "pq_handle p' = result_handle_at s j" "sl_publishing (slot_at s j)"
      using ok \<open>p' \<in> set q\<close> unfolding pubs_ok_def publication_ok_def by meson
    have "j = i" by (rule handles_differ [OF len j(1) i(1)]) (metis j(2) eq i(3))
    then show False using x(1) j(3) by simp
  qed
  have old: "publication_ok pf s' p'" if p': "p' \<in> set q" for p'
  proof -
    obtain j v' where j: "j < length (ri_slots s)" "pq_handle p' = result_handle_at s j" "sl_publishing (slot_at s j)"
        "pq_value p' = Some v'" "owned_value_bytes pf v' \<le> rc_max_bytes (sl_create (slot_at s j))" "\<not> pq_done p'"
      using ok p' unfolding pubs_ok_def publication_ok_def by meson
    then have "j \<noteq> i" using x(1) by blast
    then have "slot_at s' j = slot_at s j" by (simp add: at)
    then show ?thesis using j unfolding publication_ok_def ln hd by metis
  qed
  have h: "pq_handle p = result_handle_at s' i" by (simp add: x(3) i(3) hd)
  have "sl_publishing (slot_at s' i)" "sl_create (slot_at s' i) = sl_create (slot_at s i)" by (simp_all add: at)
  then have new: "publication_ok pf s' p"
    using i(1) x(2) h unfolding publication_ok_def ln by (intro conjI exI [of _ i]) (simp_all add: x(3))
  have cover: "\<exists>p' \<in> set (p # q). pq_handle p' = result_handle_at s' j"
    if j: "j < length (ri_slots s')" "sl_publishing (slot_at s' j)" for j
  proof (cases "j = i")
    case False
    then have "sl_publishing (slot_at s j)" using j(2) by (simp add: at)
    then show ?thesis using ok j(1) unfolding pubs_ok_def ln hd by (meson list.set_intros(2))
  qed (simp add: h)
  have "distinct (map pq_handle (p # q))" using ok fresh unfolding pubs_ok_def x(3) by force
  then show ?thesis using old new cover unfolding pubs_ok_def by (metis set_ConsD)
qed

text \<open>A publication ends, by its commit or by being given up: its slot is no longer marked.\<close>

lemma pubs_ok_end:
  assumes len: "length (ri_slots s) < 2 ^ 32" and ok: "pubs_ok pf s q" and p: "p \<in> set q"
    and i: "i < length (ri_slots s)" "pq_handle p = result_handle_at s i"
    and ln: "same_shape s s'" and off: "\<not> sl_publishing (slot_at s' i)"
    and rest: "\<And>j. j < length (ri_slots s) \<Longrightarrow> j \<noteq> i \<Longrightarrow> slot_at s' j = slot_at s j"
  shows "pubs_ok pf s' (remove1 p q)"
proof -
  have n: "length (ri_slots s') = length (ri_slots s)" using ln by (simp add: same_shape_def)
  have dist: "distinct q" "distinct (map pq_handle q)" using ok by (auto simp: pubs_ok_def distinct_map)
  have mem: "set (remove1 p q) = set q - {p}" using dist(1) by (simp add: set_remove1_eq)
  have same: "result_handle_at s' j = result_handle_at s j" if "j < length (ri_slots s)" "j \<noteq> i" for j
    using rest [OF that] ln by (simp add: result_handle_at_def same_shape_def)
  have other: "pq_handle p' \<noteq> pq_handle p" if "p' \<in> set q - {p}" for p'
    using dist(2) p that by (auto simp: distinct_map inj_on_def)
  have "publication_ok pf s' p'" if p': "p' \<in> set q - {p}" for p'
  proof -
    obtain j v where j: "j < length (ri_slots s)" "pq_handle p' = result_handle_at s j" "sl_publishing (slot_at s j)"
        "pq_value p' = Some v" "owned_value_bytes pf v \<le> rc_max_bytes (sl_create (slot_at s j))" "\<not> pq_done p'"
      using ok p' by (auto simp: pubs_ok_def publication_ok_def)
    have "j \<noteq> i" using other [OF p'] i(2) j(2) by auto
    then show ?thesis using j same [OF j(1)] rest [OF j(1)] n by (auto simp: publication_ok_def)
  qed
  moreover have "\<exists>p' \<in> set q - {p}. pq_handle p' = result_handle_at s' j"
    if j: "j < length (ri_slots s)" "sl_publishing (slot_at s' j)" for j
  proof -
    have "j \<noteq> i" using j off by auto
    then obtain p' where p': "p' \<in> set q" "pq_handle p' = result_handle_at s j"
      using ok j rest [OF j(1)] by (auto simp: pubs_ok_def)
    moreover have "p' \<noteq> p" using p'(2) i handles_differ [OF len j(1) i(1)] \<open>j \<noteq> i\<close> by auto
    ultimately show ?thesis using same [OF j(1) \<open>j \<noteq> i\<close>] by auto
  qed
  moreover have "distinct (map pq_handle (remove1 p q))"
    using dist mem by (simp add: distinct_map inj_on_def distinct_remove1)
  ultimately show ?thesis by (simp add: pubs_ok_def mem n)
qed

text \<open>
  A store with the slots of the guards that are alive and the publications that are prepared.
\<close>

type_synonym store_state = "result_impl \<times> nat list \<times> prepared_publish list"

inductive rs_step :: "platform \<Rightarrow> store_state \<Rightarrow> store_state \<Rightarrow> bool" for pf where
  reserve: "rs_step pf (s, g, q) (snd (rs_reserve c s), g, q)"
| publish: "rs_step pf (s, g, q) (snd (rs_publish pf h v c s), g, q)"
| retain: "rs_step pf (s, g, q) (snd (rs_retain rh owner s), g, q)"
| subscribe: "rs_step pf (s, g, q) (snd (rs_subscribe h owner s), g, q)"
| release: "rs_step pf (s, g, q) (snd (rs_release rh s), g, q)"
| take: "rs_step pf (s, g, q) (snd (rs_take pf rh n s), g, q)"
| release_owner: "rs_step pf (s, g, q) (snd (rs_release_owner h s), g, q)"
| pin: "rs_pin rh s = (Inr (v, i), s') \<Longrightarrow> rs_step pf (s, g, q) (s', i # g, q)"
| unpin: "i \<in> set g \<Longrightarrow> rs_step pf (s, g, q) (rs_unpin i s, remove1 i g, q)"
| prepare: "rs_prepare_publish pf h v c s = (Inr p, s') \<Longrightarrow> rs_step pf (s, g, q) (s', g, p # q)"
| commit: "p \<in> set q \<Longrightarrow> publish_validate p s = Inr () \<Longrightarrow> rs_step pf (s, g, q) (snd (publish_apply p s), g, remove1 p q)"
| discard: "p \<in> set q \<Longrightarrow> rs_step pf (s, g, q) (snd (publish_discard p s), g, remove1 p q)"

inductive rs_reachable :: "platform \<Rightarrow> store_state \<Rightarrow> bool" for pf where
  new: "ResultStore_new n c p d k = (Some s, k') \<Longrightarrow> rs_reachable pf (s, [], [])"
| step: "rs_reachable pf st \<Longrightarrow> rs_step pf st st' \<Longrightarrow> rs_reachable pf st'"

definition store_inv :: "platform \<Rightarrow> store_state \<Rightarrow> bool" where
  "store_inv pf st = (case st of (s, g, q) \<Rightarrow> result_inv pf s \<and> pins_ok s g \<and> pubs_ok pf s q)"

lemma store_inv_quiet:
  assumes "store_inv pf (s, g, q)" "slotwise quiet s s'" "result_inv pf s'"
  shows "store_inv pf (s', g, q)"
  using assms pins_ok_quiet [OF assms(2)] pubs_ok_keeps [OF slotwise_quiet_keeps [OF assms(2)]]
  by (simp add: store_inv_def)

lemma store_inv_impl: "store_inv pf (s, g, q) \<Longrightarrow> result_inv pf s"
  by (simp add: store_inv_def)

lemmas store_inv_quiet_steps =
  store_inv_quiet [OF _ quiet_reserve rs_reserve_inv] store_inv_quiet [OF _ quiet_publish rs_publish_inv]
  store_inv_quiet [OF _ quiet_retain rs_retain_inv] store_inv_quiet [OF _ quiet_subscribe rs_subscribe_inv]
  store_inv_quiet [OF _ quiet_release rs_release_inv] store_inv_quiet [OF _ quiet_take rs_take_inv]
  store_inv_quiet [OF _ quiet_release_owner rs_release_owner_inv]

lemma store_inv_pin:
  assumes inv: "store_inv pf (s, g, q)" and pin: "rs_pin rh s = (Inr (v, i), s')"
  shows "store_inv pf (s', i # g, q)"
proof -
  have "result_inv pf s" using inv by (simp add: store_inv_def)
  note p = rs_pin_inv [OF this pin]
  then show ?thesis using inv pins_ok_pin [of s g i] pubs_ok_keeps [OF keeps_pins] unfolding p(5)
    by (simp add: store_inv_def)
qed

lemma store_inv_unpin:
  assumes inv: "store_inv pf (s, g, q)" and i: "i \<in> set g"
  shows "store_inv pf (rs_unpin i s, remove1 i g, q)"
proof -
  have ok: "result_inv pf s" "pins_ok s g" "pubs_ok pf s q" using inv by (simp_all add: store_inv_def)
  then have "i < length (ri_slots s)" "0 < sl_pins (slot_at s i)"
    using i count_list_0_iff [of g i] by (auto simp: pins_ok_def)
  from rs_unpin_inv [OF ok(1) this] show ?thesis
    using pins_ok_unpin [OF ok(2) i] pubs_ok_keeps [OF keeps_unpin ok(3)] by (simp add: store_inv_def)
qed

text \<open>The slot that a prepared publication marks.\<close>

lemma pending_slot:
  assumes inv: "store_inv pf (s, g, q)" and p: "p \<in> set q"
  obtains i v where "i < length (ri_slots s)" "pq_handle p = result_handle_at s i" "impl_result s (pq_handle p) = Inr i"
    "sl_publishing (slot_at s i)" "pq_value p = Some v" "owned_value_bytes pf v \<le> rc_max_bytes (sl_create (slot_at s i))"
    "\<not> pq_done p" "unat (h_slot (pq_handle p)) = i"
proof -
  have ok: "result_inv pf s" "pubs_ok pf s q" using inv by (simp_all add: store_inv_def)
  obtain i v where i: "i < length (ri_slots s)" "pq_handle p = result_handle_at s i" "sl_publishing (slot_at s i)"
      "pq_value p = Some v" "owned_value_bytes pf v \<le> rc_max_bytes (sl_create (slot_at s i))" "\<not> pq_done p"
    using ok(2) p unfolding pubs_ok_def publication_ok_def by meson
  have "sl_used (slot_at s i)" using inv_slot [OF ok(1) i(1)] i(3) by (simp add: slot_ok_def referenced_def)
  then have r: "impl_result s (pq_handle p) = Inr i" using impl_result_iff [OF inv_lengths(1) [OF ok(1)]] i(1,2) by blast
  show thesis by (rule that [OF i(1,2) r i(3-6) valid_handle(4) [OF ok(1) r]])
qed

lemma store_inv_commit:
  assumes inv: "store_inv pf (s, g, q)" and p: "p \<in> set q" and valid: "publish_validate p s = Inr ()"
  shows "store_inv pf (snd (publish_apply p s), g, remove1 p q)"
proof -
  have ok: "result_inv pf s" "pins_ok s g" "pubs_ok pf s q" using inv by (simp_all add: store_inv_def)
  from inv p obtain i v where i: "i < length (ri_slots s)" "pq_handle p = result_handle_at s i"
      "pq_value p = Some v" "owned_value_bytes pf v \<le> rc_max_bytes (sl_create (slot_at s i))"
      "unat (h_slot (pq_handle p)) = i"
    by (rule pending_slot)
  let ?f = "\<lambda>x. x\<lparr>sl_value := pq_value p, sl_ready := pb_ready (pq_context p), sl_publishing := False\<rparr>"
  have s': "snd (publish_apply p s) = bump_version (upd_slot_at i ?f s)" by (simp add: publish_apply_def i(5))
  have "result_inv pf (snd (publish_apply p s))" by (rule publish_apply_inv [OF ok(1) i(1,2) valid i(3,4)])
  moreover have "pins_ok (snd (publish_apply p s)) g" using ok(2) by (simp add: s' pins_ok_def slot_at_upd)
  moreover have "pubs_ok pf (snd (publish_apply p s)) (remove1 p q)"
    by (rule pubs_ok_end [OF inv_lengths(1) [OF ok(1)] ok(3) p i(1,2)])
      (use i(1) in \<open>simp_all add: s' same_shape_def slot_at_upd\<close>)
  ultimately show ?thesis by (simp add: store_inv_def)
qed

lemma store_inv_discard:
  assumes inv: "store_inv pf (s, g, q)" and p: "p \<in> set q"
  shows "store_inv pf (snd (publish_discard p s), g, remove1 p q)"
proof -
  have ok: "result_inv pf s" "pins_ok s g" "pubs_ok pf s q" using inv by (simp_all add: store_inv_def)
  from inv p obtain i where i: "i < length (ri_slots s)" "pq_handle p = result_handle_at s i"
      "impl_result s (pq_handle p) = Inr i" "\<not> pq_done p"
    by (rule pending_slot)
  let ?s = "bump_version (upd_slot_at i (\<lambda>x. x\<lparr>sl_publishing := False\<rparr>) s)"
  have s': "snd (publish_discard p s) = impl_collect i ?s" using i by (simp add: publish_discard_def)
  have "pins_ok ?s g" using ok(2) by (simp add: pins_ok_def slot_at_upd)
  then have "pins_ok (snd (publish_discard p s)) g" unfolding s' by (rule pins_ok_quiet [OF slotwise_collect])
  moreover have "pubs_ok pf ?s (remove1 p q)"
    by (rule pubs_ok_end [OF inv_lengths(1) [OF ok(1)] ok(3) p i(1,2)])
      (use i(1) in \<open>simp_all add: same_shape_def slot_at_upd\<close>)
  then have "pubs_ok pf (snd (publish_discard p s)) (remove1 p q)" unfolding s'
    by (rule pubs_ok_keeps [OF slotwise_quiet_keeps [OF slotwise_collect]])
  moreover note publish_discard_inv [OF ok(1)]
  ultimately show ?thesis by (simp add: store_inv_def)
qed

lemma store_inv_step:
  assumes "rs_step pf st st'" "store_inv pf st"
  shows "store_inv pf st'"
  using assms
proof (cases rule: rs_step.cases)
  case (pin rh s v i s' g q)
  then show ?thesis using assms(2) store_inv_pin by blast
next
  case (unpin i g s q)
  then show ?thesis using assms(2) store_inv_unpin by blast
next
  case (prepare h v c s p s' g q)
  have ok: "result_inv pf s" "pins_ok s g" "pubs_ok pf s q" using assms(2) prepare(1) by (simp_all add: store_inv_def)
  have "slotwise (\<lambda>x y. sl_pins y = sl_pins x) s s'" using prepare(3)
    by (rule rs_prepare_publish_Inr) (simp add: slotwise_def same_shape_def slot_at_upd)
  then have "pins_ok s' g" using ok(2) by (simp add: pins_ok_def slotwise_def same_shape_def)
  then show ?thesis using rs_prepare_publish_inv [OF ok(1) prepare(3)] pubs_ok_prepare [OF ok(1,3) prepare(3)] prepare(2)
    by (simp add: store_inv_def)
next
  case (commit p q s g)
  then show ?thesis using assms(2) store_inv_commit by blast
next
  case (discard p q s g)
  then show ?thesis using assms(2) store_inv_discard by blast
qed (use assms(2) in \<open>auto intro: store_inv_quiet_steps store_inv_impl\<close>)

lemma store_inv_new:
  assumes "ResultStore_new n c p d k = (Some s, k')"
  shows "store_inv pf (s, [], [])"
proof -
  have n: "n \<le> UINT32_MAX" "c \<le> UINT32_MAX" and s: "ri_slots s = replicate n free_slot" "ri_consumers s = replicate c free_consumer"
      "ri_pin_count s = 0"
    using assms by (auto simp: ResultStore_new_def split: option.splits if_splits)
  have "holders s i = {}" for i by (auto simp: holders_def s free_consumer_def)
  moreover have "(\<Sum>x\<leftarrow>replicate n free_slot. sl_pins x) = 0" by (induction n) (simp_all add: free_slot_def)
  ultimately show ?thesis using n
    by (simp add: store_inv_def registry_inv_def pins_ok_def pubs_ok_def slot_ok_def consumer_ok_def s referenced_def)
      (simp add: free_slot_def free_consumer_def)
qed

lemma store_reachable_inv: "rs_reachable pf st \<Longrightarrow> store_inv pf st"
  by (induction rule: rs_reachable.induct) (auto intro: store_inv_new store_inv_step)

lemma advance_step:
  assumes "rs_step pf st st'" "store_inv pf st"
  shows "advance (fst st) (fst st')"
  using assms
proof (cases rule: rs_step.cases)
  case (pin rh s v i s' g q)
  then show ?thesis using advance_pin [of s rh] by simp
next
  case (prepare h v c s p s' g q)
  then show ?thesis using advance_prepare_publish [of s pf h v c] by simp
qed (use assms(2) in \<open>auto intro: advance_reserve advance_publish advance_retain advance_subscribe advance_release
      advance_take advance_release_owner advance_unpin advance_publish_apply advance_publish_discard store_inv_impl\<close>)

lemma advance_run:
  assumes "(rs_step pf)\<^sup>*\<^sup>* st st'" "store_inv pf st"
  shows "store_inv pf st' \<and> advance (fst st) (fst st')"
  using assms(1)
proof (induction rule: rtranclp_induct)
  case base
  show ?case using assms(2) by simp
next
  case (step y z)
  then show ?case using store_inv_step [OF step.hyps(2)] advance_step [OF step.hyps(2)] advance_trans by blast
qed

text \<open>A handle that is valid before and after names one generation of one slot.\<close>

lemma same_generation:
  assumes inv: "result_inv pf s" "result_inv pf s'" and adv: "advance s s'"
    and r: "impl_result s h = Inr i" "impl_result s' h = Inr i'"
  shows "i' = i" "sl_value (slot_at s i) \<noteq> None \<Longrightarrow> sl_value (slot_at s' i) = sl_value (slot_at s i)"
    "sl_value (slot_at s i) \<noteq> None \<Longrightarrow> sl_ready (slot_at s' i) = sl_ready (slot_at s i)"
proof -
  note v = valid_handle [OF inv(1) r(1)] and v' = valid_handle [OF inv(2) r(2)]
  show i': "i' = i" using v(4) v'(4) by simp
  have "result_handle_at s' i = result_handle_at s i" using v(3) v'(3) i' by simp
  then have "sl_gen (slot_at s' i) = sl_gen (slot_at s i)" by (simp add: result_handle_at_def)
  moreover have "slot_next (slot_at s i) (slot_at s' i)" using adv v(1) by (simp add: advance_def)
  ultimately show "sl_value (slot_at s i) \<noteq> None \<Longrightarrow> sl_value (slot_at s' i) = sl_value (slot_at s i)"
      "sl_value (slot_at s i) \<noteq> None \<Longrightarrow> sl_ready (slot_at s' i) = sl_ready (slot_at s i)"
    using v'(2) i' by (auto simp: slot_next_def)
qed

lemma consumer_result:
  assumes "impl_consumer s h = Inr c"
  obtains i where "impl_result s (rh_result h) = Inr i" "i = unat (h_slot (rh_result h))"
  using assms by (auto simp: impl_consumer_def impl_result_def Let_def fail_def split: sum.splits if_splits)

lemma rs_read_Inr:
  "rs_read pf h n s = Inr v \<longleftrightarrow> (\<exists>c. impl_consumer s h = Inr c) \<and>
     sl_value (slot_at s (unat (h_slot (rh_result h)))) = Some v \<and> owned_value_bytes pf v \<le> n"
  by (auto simp: rs_read_def fail_def split: sum.splits option.splits)

lemma sum_pins_guards:
  assumes "pins_ok s g"
  shows "(\<Sum>x\<leftarrow>ri_slots s. sl_pins x) = length g"
proof -
  have "(\<Sum>x\<leftarrow>ri_slots s. sl_pins x) = (\<Sum>i \<in> {0..<length (ri_slots s)}. sl_pins (slot_at s i))"
    by (simp add: sum_list_sum_nth)
  also have "\<dots> = (\<Sum>i \<in> {..<length (ri_slots s)}. count_list g i)"
    using assms by (intro sum.cong) (auto simp: pins_ok_def)
  also have "\<dots> = length g" using assms by (intro sum_count_set) (auto simp: pins_ok_def)
  finally show ?thesis .
qed

text \<open>What the state of one slot says about the references that are alive.\<close>

definition slot_accounted :: "platform \<Rightarrow> store_state \<Rightarrow> nat \<Rightarrow> bool" where
  "slot_accounted pf st i = (case st of (s, g, q) \<Rightarrow>
     (let x = slot_at s i in
      sl_consumers x = card (holders s i) \<and> sl_pins x = count_list g i \<and>
      (sl_publishing x \<longleftrightarrow> (\<exists>p \<in> set q. pq_handle p = result_handle_at s i)) \<and>
      (sl_used x \<longleftrightarrow> sl_producer x \<or> holders s i \<noteq> {} \<or> i \<in> set g \<or> sl_publishing x) \<and>
      (\<forall>v. sl_value x = Some v \<longrightarrow> sl_used x \<and> owned_value_bytes pf v \<le> rc_max_bytes (sl_create x))))"

lemma inv_accounted:
  assumes "store_inv pf (s, g, q)" and i: "i < length (ri_slots s)"
  shows "slot_accounted pf (s, g, q) i"
proof -
  have inv: "result_inv pf s" and pins: "pins_ok s g" and pubs: "pubs_ok pf s q"
    using assms(1) by (simp_all add: store_inv_def)
  note ok = inv_slot [OF inv i]
  have cons: "sl_consumers (slot_at s i) = card (holders s i)"
    and val: "\<forall>v. sl_value (slot_at s i) = Some v \<longrightarrow>
      sl_used (slot_at s i) \<and> owned_value_bytes pf v \<le> rc_max_bytes (sl_create (slot_at s i))"
    using ok by (simp_all add: slot_ok_def)
  have cnt: "sl_pins (slot_at s i) = count_list g i" using pins i by (simp add: pins_ok_def)
  have "sl_publishing (slot_at s i)" if p: "p \<in> set q" "pq_handle p = result_handle_at s i" for p
  proof -
    obtain j where "j < length (ri_slots s)" "pq_handle p = result_handle_at s j" "sl_publishing (slot_at s j)"
      using pubs p(1) unfolding pubs_ok_def publication_ok_def by meson
    then show ?thesis using handles_differ [OF inv_lengths(1) [OF inv] i] p(2) by metis
  qed
  then have pub: "sl_publishing (slot_at s i) \<longleftrightarrow> (\<exists>p \<in> set q. pq_handle p = result_handle_at s i)"
    using pubs i unfolding pubs_ok_def by meson
  have "sl_used (slot_at s i) \<longleftrightarrow> sl_producer (slot_at s i) \<or> holders s i \<noteq> {} \<or> i \<in> set g \<or> sl_publishing (slot_at s i)"
    using ok cons cnt count_list_0_iff [of g i] by (auto simp: slot_ok_def referenced_def card_gt_0_iff)
  then show ?thesis unfolding slot_accounted_def prod.case Let_def using cons val cnt pub by blast
qed

section \<open>Properties\<close>

text \<open>
  Claim C36. In every reachable store each slot counts exactly the active consumers that name it and
  the guards that pin it, it is marked as publishing exactly while a prepared publication for it
  exists, and it is in use exactly while a producer, a consumer, a guard or a prepared publication
  refers to it: no slot leaks and none is freed too early. A value is held only by a slot in use and
  within the bytes that were reserved for it, every active consumer names a slot in use by its
  current handle, and the number of pins is within the limit.
\<close>

theorem result_store_invariant:
  assumes "rs_reachable pf (s, g, q)"
  shows "(\<forall>i < length (ri_slots s). slot_accounted pf (s, g, q) i) \<and>
    (\<forall>c < length (ri_consumers s). cn_active (consumer_at s c) \<longrightarrow>
      (\<exists>i < length (ri_slots s). sl_used (slot_at s i) \<and> cn_result (consumer_at s c) = result_handle_at s i)) \<and>
    ri_pin_count s = length g \<and> length g \<le> ri_pin_limit s"
proof -
  have st: "store_inv pf (s, g, q)" by (rule store_reachable_inv [OF assms])
  then have inv: "result_inv pf s" and pins: "pins_ok s g" by (simp_all add: store_inv_def)
  have "\<exists>i < length (ri_slots s). sl_used (slot_at s i) \<and> cn_result (consumer_at s c) = result_handle_at s i"
    if "c < length (ri_consumers s)" "cn_active (consumer_at s c)" for c
    using inv_active [OF inv that(1)] that(2) by (simp add: consumer_ok_def)
  moreover have "ri_pin_count s = length g" "length g \<le> ri_pin_limit s"
    using inv sum_pins_guards [OF pins] by (simp_all add: registry_inv_def)
  ultimately show ?thesis using inv_accounted [OF st] by blast
qed


text \<open>
  A result is published at most once: after a successful publication every other attempt to
  publish under the same handle is refused, directly or prepared, whatever happens in between.
\<close>

theorem published_once:
  assumes "rs_reachable pf (s, g, q)" "rs_publish pf h v c s = (Inr receipt, s1)"
    and "(rs_step pf)\<^sup>*\<^sup>* (s1, g, q) (s', g', q')"
  shows "\<exists>e e'. rs_publish pf h v' c' s' = (Inl e, s') \<and> rs_prepare_publish pf h v' c' s' = (Inl e', s')"
proof -
  have inv: "store_inv pf (s, g, q)" by (rule store_reachable_inv [OF assms(1)])
  have "store_inv pf (s1, g, q)" using store_inv_step [OF rs_step.publish inv, of h v c] assms(2) by simp
  note run = advance_run [OF assms(3) this]
  have ok: "result_inv pf s1" "result_inv pf s'" "advance s1 s'"
    using run \<open>store_inv pf (s1, g, q)\<close> by (simp_all add: store_inv_def)
  obtain i where r: "impl_result s h = Inr i" and s1: "s1 = bump_version (upd_slot_at i (\<lambda>x. x\<lparr>sl_value := Some v, sl_ready := pb_ready c\<rparr>) s)"
    using assms(2) by (auto simp: rs_publish_def Let_def fail_def split: sum.splits if_splits)
  have i: "i < length (ri_slots s)" "sl_used (slot_at s i)" "h = result_handle_at s i"
    using valid_handle [OF store_inv_impl [OF inv] r] by auto
  have "result_handle_at s1 i = result_handle_at s i" "sl_used (slot_at s1 i)" "i < length (ri_slots s1)"
    using i by (simp_all add: s1 result_handle_at_def slot_at_upd)
  then have r1: "impl_result s1 h = Inr i" using impl_result_iff [OF inv_lengths(1) [OF ok(1)]] i(3) by metis
  have v1: "sl_value (slot_at s1 i) \<noteq> None" using i(1) by (simp add: s1 slot_at_upd)
  show ?thesis
  proof (cases "impl_result s' h")
    case (Inr i')
    then have "sl_value (slot_at s' i') \<noteq> None" using same_generation [OF ok r1 Inr] v1 by simp
    then show ?thesis using Inr by (simp add: rs_publish_def rs_prepare_publish_def Let_def fail_def)
  qed (simp add: rs_publish_def rs_prepare_publish_def)
qed


section \<open>A small store\<close>

text \<open>One result slot and two consumers; a result is reserved, published, retained and released.\<close>

definition demo_create :: result_create where
  "demo_create = \<lparr>rc_source = default_handle, rc_type = 0, rc_max_bytes = 64, rc_producer_owner = 7, rc_consumer_owner = 8\<rparr>"

definition demo_result :: handle where
  "demo_result = \<lparr>h_kind = HK_Result, h_domain = 0, h_store = 5, h_slot = 0, h_generation = 1, h_owner = 7\<rparr>"

definition demo_consumer :: "u32 \<Rightarrow> u64 \<Rightarrow> u64 \<Rightarrow> result_handle" where
  "demo_consumer i gen owner = \<lparr>rh_result = demo_result, rh_consumer = \<lparr>h_kind = HK_Consumer, h_domain = 0, h_store = 5,
     h_slot = i, h_generation = gen, h_owner = owner\<rparr>\<rparr>"

definition demo_publication :: publication_context where
  "demo_publication = \<lparr>pb_source = default_handle, pb_ready = ReadyKey 3 0, pb_validated = True\<rparr>"

definition demo_registry :: "u64 \<Rightarrow> u64 \<Rightarrow> result_slot \<Rightarrow> result_consumer list \<Rightarrow> result_impl" where
  "demo_registry n v x cs = \<lparr>ri_next_consumer = n, ri_next_result = (if n = 0 then 0 else 1), ri_version = v, ri_slots = [x],
     ri_consumers = cs, ri_pin_limit = 1, ri_pin_count = 0, ri_domain = 0, ri_store = 5\<rparr>"

definition demo_result_slot :: "value_t option \<Rightarrow> nat \<Rightarrow> result_slot" where
  "demo_result_slot v n = \<lparr>sl_used = True, sl_producer = True, sl_publishing = False, sl_gen = 1, sl_create = demo_create,
     sl_value = v, sl_ready = (if v = None then ReadyKey 0 0 else ReadyKey 3 0), sl_consumers = n, sl_pins = 0\<rparr>"

definition demo_holder :: "bool \<Rightarrow> u64 \<Rightarrow> u64 \<Rightarrow> result_consumer" where
  "demo_holder a gen owner = \<lparr>cn_active = a, cn_generation = gen, cn_owner = owner, cn_result = demo_result\<rparr>"

definition demo_empty :: result_impl where
  "demo_empty = demo_registry 0 0 free_slot [free_consumer, free_consumer]"

definition demo_result_reserved :: result_impl where
  "demo_result_reserved = demo_registry 1 1 (demo_result_slot None 1) [demo_holder True 1 8, free_consumer]"

definition demo_published :: result_impl where
  "demo_published = demo_registry 1 2 (demo_result_slot (Some (VU64 42)) 1) [demo_holder True 1 8, free_consumer]"

definition demo_retained :: result_impl where
  "demo_retained = demo_registry 2 3 (demo_result_slot (Some (VU64 42)) 2) [demo_holder True 1 8, demo_holder True 2 9]"

definition demo_released :: result_impl where
  "demo_released = demo_registry 2 4 (demo_result_slot (Some (VU64 42)) 1) [demo_holder False 1 8, demo_holder True 2 9]"

lemmas demo_result_defs = demo_create_def demo_result_def demo_consumer_def demo_publication_def demo_registry_def demo_result_slot_def
  demo_holder_def demo_empty_def demo_result_reserved_def demo_published_def demo_retained_def demo_released_def

lemmas registry_defs = upd_slot_at_def upd_consumer_at_def bump_version_def impl_result_def impl_consumer_def impl_add_def
  result_handle_at_def consumer_handle_def Let_def

lemma demo_new_store: "ResultStore_new 1 2 1 0 5 = (Some demo_empty, 6)"
  by (simp add: ResultStore_new_def allocate_store_incarnation_def demo_empty_def demo_registry_def numeral_2_eq_2)

lemma demo_reserve: "rs_reserve demo_create demo_empty =
    (Inr \<lparr>rv_reservation = demo_result, rv_consumer = demo_consumer 0 1 8\<rparr>, demo_result_reserved)"
  by (simp add: rs_reserve_def claim_slot_def registry_defs demo_result_defs free_slot_def free_consumer_def)

lemma demo_value_bytes: "owned_value_bytes demo_pf (VU64 n) = 40"
  by (simp add: owned_value_bytes_def bounded_value_bytes_def visit_frame_def size_add_def demo_pf_def)

lemma demo_publish: "rs_publish demo_pf demo_result (VU64 42) demo_publication demo_result_reserved =
    (Inr \<lparr>pr_result = demo_result, pr_ready = ReadyKey 3 0\<rparr>, demo_published)"
  by (simp add: rs_publish_def demo_value_bytes registry_defs demo_result_defs)

lemma demo_retain: "rs_retain (demo_consumer 0 1 8) 9 demo_published = (Inr (demo_consumer 1 2 9), demo_retained)"
  by (simp add: rs_retain_def registry_defs demo_result_defs free_consumer_def)

lemma demo_release: "rs_release (demo_consumer 0 1 8) demo_retained = (Inr (), demo_released)"
  by (simp add: rs_release_def drop_consumer_def impl_collect_def registry_defs demo_result_defs)

lemma demo_read: "rs_read demo_pf (demo_consumer 0 1 8) 64 demo_published = Inr (VU64 42)"
  by (simp add: rs_read_def demo_value_bytes registry_defs demo_result_defs)

lemma demo_reachable_reserved: "rs_reachable demo_pf (demo_result_reserved, [], [])"
  using rs_reachable.step [OF rs_reachable.new [OF demo_new_store] rs_step.reserve, of demo_pf demo_create] demo_reserve by simp

lemma demo_reachable_published: "rs_reachable demo_pf (demo_published, [], [])"
  using rs_reachable.step [OF demo_reachable_reserved rs_step.publish, of demo_result "VU64 42" demo_publication] demo_publish
  by simp

lemma demo_step_retain: "rs_step demo_pf (demo_published, [], []) (demo_retained, [], [])"
  using rs_step.retain [of demo_pf demo_published "[]" "[]" "demo_consumer 0 1 8" 9] demo_retain by simp

lemma demo_step_release: "rs_step demo_pf (demo_retained, [], []) (demo_released, [], [])"
  using rs_step.release [of demo_pf demo_retained "[]" "[]" "demo_consumer 0 1 8"] demo_release by simp

theorem result_store_invariant_witness:
  "rs_reachable demo_pf (demo_published, [], []) \<and> slot_accounted demo_pf (demo_published, [], []) 0"
  using result_store_invariant [OF demo_reachable_published] demo_reachable_published
  by (simp add: demo_published_def demo_registry_def)


theorem published_once_witness:
  "\<exists>e. rs_publish demo_pf demo_result (VU64 1) demo_publication demo_retained = (Inl e, demo_retained)"
  using published_once [OF demo_reachable_reserved demo_publish r_into_rtranclp [of "rs_step demo_pf", OF demo_step_retain],
    of "VU64 1" demo_publication] by blast


end
