(* ===== verification/Result_Txn.thy ===== *)
theory Result_Txn
  imports Result_Store_Props
begin

text \<open>
  The transactional operations of the result store, from \<open>runtime/src/result_store.cpp\<close>: a segment
  works on a copy of the registry, which the participant \<open>Staged\<close> holds and swaps in when the
  segment commits; a prepared publication is the participant \<open>Publish\<close>.

  The world holds the store and the participants, by the addresses that \<open>std::make_unique\<close> gives
  them. The generation counters are shared by the store and all its copies; they are kept in the
  store, and \<open>shared\<close> reads a copy with the current counters.
\<close>

section \<open>Data\<close>

record result_sizes =
  sizeof_Staged :: nat
  sizeof_Impl :: nat
  sizeof_Slot :: nat
  sizeof_Consumer :: nat
  sizeof_Publish :: nat

record staged =
  sg_snapshot :: result_impl
  sg_version :: u64
  sg_done :: bool
  sg_extra_bytes :: nat

datatype result_participant = Staged staged | Publish prepared_publish

record result_ext =
  rx_this :: nat
  rx_store :: result_impl
  rx_heap :: "result_participant list"

type_synonym rworld = "result_ext world"

abbreviation store_of :: "rworld \<Rightarrow> result_impl" where
  "store_of w \<equiv> rx_store (w_ext w)"

abbreviation heap_of :: "rworld \<Rightarrow> result_participant list" where
  "heap_of w \<equiv> rx_heap (w_ext w)"

definition set_store :: "result_impl \<Rightarrow> rworld \<Rightarrow> rworld" where
  "set_store s w = w\<lparr>w_ext := (w_ext w)\<lparr>rx_store := s\<rparr>\<rparr>"

definition set_heap :: "result_participant list \<Rightarrow> rworld \<Rightarrow> rworld" where
  "set_heap h w = w\<lparr>w_ext := (w_ext w)\<lparr>rx_heap := h\<rparr>\<rparr>"

text \<open>A copy of the registry with the counters of the store, and the counters it leaves behind.\<close>

definition shared :: "result_impl \<Rightarrow> result_impl \<Rightarrow> result_impl" where
  "shared s x = x\<lparr>ri_next_consumer := ri_next_consumer s, ri_next_result := ri_next_result s\<rparr>"

section \<open>Participants\<close>

definition required_bytes :: "platform \<Rightarrow> result_sizes \<Rightarrow> result_impl \<Rightarrow> nat" where
  "required_bytes pf sz s =
     (let tot = sizeof_Staged sz + sizeof_Impl sz + 4 * sizeof_ptr pf in
      if length (ri_slots s) > (SIZE_MAX - tot) div sizeof_Slot sz then SIZE_MAX
      else let tot = tot + length (ri_slots s) * sizeof_Slot sz in
        if length (ri_consumers s) > (SIZE_MAX - tot) div sizeof_Consumer sz then SIZE_MAX
        else tot + length (ri_consumers s) * sizeof_Consumer sz)"

fun participant_bytes :: "platform \<Rightarrow> result_sizes \<Rightarrow> result_participant \<Rightarrow> nat" where
  "participant_bytes pf sz (Staged g) =
     (let base = required_bytes pf sz (sg_snapshot g) in
      if sg_extra_bytes g > SIZE_MAX - base then SIZE_MAX else base + sg_extra_bytes g)"
| "participant_bytes pf sz (Publish p) =
     (let bytes = (case pq_value p of Some v \<Rightarrow> bounded_value_bytes pf v | None \<Rightarrow> 0);
          fixed = sizeof_Publish sz + 4 * sizeof_ptr pf in
      if bytes > SIZE_MAX - fixed then SIZE_MAX else fixed + bytes)"

fun participant_validate :: "result_participant \<Rightarrow> rworld \<Rightarrow> unit expected" where
  "participant_validate (Staged g) w =
     (if sg_done g \<or> ri_version (store_of w) \<noteq> sg_version g then fail InvalidState ''result store version conflict''
      else if ri_version (store_of w) = UINT64_MAX then fail Overflow ''result version exhausted''
      else Inr ())"
| "participant_validate (Publish p) w = publish_validate p (store_of w)"

text \<open>\<open>apply\<close> and \<open>discard\<close>, with what becomes of the participant.\<close>

fun participant_apply :: "result_participant \<Rightarrow> result_impl \<Rightarrow> result_participant \<times> result_impl" where
  "participant_apply (Staged g) s =
     (Staged (g\<lparr>sg_snapshot := (sg_snapshot g)\<lparr>ri_slots := ri_slots s, ri_consumers := ri_consumers s\<rparr>, sg_done := True\<rparr>),
      bump_version (s\<lparr>ri_slots := ri_slots (sg_snapshot g), ri_consumers := ri_consumers (sg_snapshot g)\<rparr>))"
| "participant_apply (Publish p) s = (case publish_apply p s of (p', s') \<Rightarrow> (Publish p', s'))"

fun participant_discard :: "result_participant \<Rightarrow> result_impl \<Rightarrow> result_participant \<times> result_impl" where
  "participant_discard (Staged g) s = (Staged (g\<lparr>sg_done := True\<rparr>), s)"
| "participant_discard (Publish p) s = (case publish_discard p s of (p', s') \<Rightarrow> (Publish p', s'))"

definition participant_at :: "nat \<Rightarrow> rworld \<Rightarrow> result_participant option" where
  "participant_at a w = (if a < length (heap_of w) then Some (heap_of w ! a) else None)"

definition update_participant :: "nat \<Rightarrow> result_participant \<times> result_impl \<Rightarrow> rworld \<Rightarrow> rworld" where
  "update_participant a x w = set_store (snd x) (set_heap ((heap_of w)[a := fst x]) w)"

definition result_ops :: "platform \<Rightarrow> result_sizes \<Rightarrow> result_ext participant_ops" where
  "result_ops pf sz =
     \<lparr>po_reserved_bytes = \<lambda>a w. (case participant_at a w of Some p \<Rightarrow> participant_bytes pf sz p | None \<Rightarrow> 0),
      po_identity = \<lambda>a w. (case participant_at a w of Some (Staged _) \<Rightarrow> Some (rx_this (w_ext w)) | _ \<Rightarrow> None),
      po_validate = \<lambda>a w. (case participant_at a w of Some p \<Rightarrow> participant_validate p w | None \<Rightarrow> Inr ()),
      po_validate_prepare = \<lambda>a w. (case participant_at a w of Some p \<Rightarrow> participant_validate p w | None \<Rightarrow> Inr ()),
      po_apply = \<lambda>a w. (case participant_at a w of
          Some p \<Rightarrow> update_participant a (participant_apply p (store_of w)) w | None \<Rightarrow> w),
      po_discard = \<lambda>a w. (case participant_at a w of
          Some p \<Rightarrow> update_participant a (participant_discard p (store_of w)) w | None \<Rightarrow> w)\<rparr>"

interpretation rp: participants "result_ops pf sz" for pf sz
  by unfold_locales
    (auto simp: result_ops_def update_participant_def set_store_def set_heap_def split: option.splits)

text \<open>\<open>prepare_publish\<close> gives the caller a participant that it stages itself.\<close>

definition alloc_participant :: "result_participant \<Rightarrow> rworld \<Rightarrow> nat \<times> rworld" where
  "alloc_participant p w = (length (heap_of w), set_heap (heap_of w @ [p]) w)"

definition prepare_publish :: "platform \<Rightarrow> handle \<Rightarrow> value_t \<Rightarrow> publication_context \<Rightarrow> rworld \<Rightarrow> nat expected \<times> rworld" where
  "prepare_publish pf h v c w =
     (case rs_prepare_publish pf h v c (store_of w) of
        (Inl e, s) \<Rightarrow> (Inl e, set_store s w)
      | (Inr p, s) \<Rightarrow> (case alloc_participant (Publish p) (set_store s w) of (a, w') \<Rightarrow> (Inr a, w')))"

section \<open>Staging\<close>

text \<open>The participant of the store that the segment staged last.\<close>

definition staged_last :: "platform \<Rightarrow> result_sizes \<Rightarrow> event_txn \<Rightarrow> rworld \<Rightarrow> nat option" where
  "staged_last pf sz t w = et_participant (result_ops pf sz) w (Some (rx_this (w_ext w))) t"

definition snapshot_of :: "nat \<Rightarrow> rworld \<Rightarrow> result_impl" where
  "snapshot_of a w = (case participant_at a w of Some (Staged g) \<Rightarrow> sg_snapshot g | _ \<Rightarrow> store_of w)"

text \<open>The registry as the segment sees it.\<close>

definition txn_view :: "platform \<Rightarrow> result_sizes \<Rightarrow> event_txn \<Rightarrow> rworld \<Rightarrow> result_impl" where
  "txn_view pf sz t w =
     (case staged_last pf sz t w of
        None \<Rightarrow> store_of w
      | Some a \<Rightarrow> shared (store_of w) (snapshot_of a w))"

definition rs_stage ::
  "platform \<Rightarrow> result_sizes \<Rightarrow> nat \<Rightarrow> event_txn \<Rightarrow> rworld \<Rightarrow> nat expected \<times> event_txn \<times> rworld" where
  "rs_stage pf sz extra t w =
     (if \<exists>x \<in> set (ri_slots (store_of w)). sl_publishing x
      then (fail InvalidState ''publication and registry transaction conflict'', t, w)
      else let base = txn_view pf sz t w; bytes = required_bytes pf sz base in
        if bytes = SIZE_MAX \<or> extra > SIZE_MAX - bytes \<or> bytes + extra > et_remaining_bytes t
        then (fail Capacity ''result registry snapshot bytes'', t, w)
        else case alloc_participant (Staged \<lparr>sg_snapshot = base, sg_version = ri_version (store_of w), sg_done = False,
                sg_extra_bytes = extra\<rparr>) w of
          (a, w1) \<Rightarrow>
           (case et_stage_participant (result_ops pf sz) (Some a) t w1 of
              (Inl e, t2, w2) \<Rightarrow> (Inl e, t2, w2)
            | (Inr _, t2, w2) \<Rightarrow> (Inr a, t2, w2)))"

text \<open>An operation on the copy of a staged participant; the counters go back to the store.\<close>

definition on_snapshot :: "nat \<Rightarrow> (result_impl \<Rightarrow> 'r expected \<times> result_impl) \<Rightarrow> rworld \<Rightarrow> 'r expected \<times> rworld" where
  "on_snapshot a f w =
     (case participant_at a w of
        Some (Staged g) \<Rightarrow>
         (case f (shared (store_of w) (sg_snapshot g)) of
            (r, x) \<Rightarrow> (r, set_store (shared x (store_of w)) (set_heap ((heap_of w)[a := Staged (g\<lparr>sg_snapshot := x\<rparr>)]) w)))
      | _ \<Rightarrow> (fail InvalidState [], w))"

text \<open>
  The frame of the transactional operations: checkpoint, stage a copy, work on it, and roll back
  when the work is refused.
\<close>

definition prepare_op ::
  "platform \<Rightarrow> result_sizes \<Rightarrow> nat \<Rightarrow> (result_impl \<Rightarrow> 'r expected \<times> result_impl) \<Rightarrow> ('r, result_ext) step" where
  "prepare_op pf sz extra f t w =
     (case et_checkpoint t of
        Inl e \<Rightarrow> (Inl e, t, w)
      | Inr cp \<Rightarrow>
         (case rs_stage pf sz extra t w of
            (Inl e, t1, w1) \<Rightarrow> (Inl e, t1, w1)
          | (Inr a, t1, w1) \<Rightarrow>
             (case on_snapshot a f w1 of
                (Inl e, w2) \<Rightarrow> (Inl e, roll_back (result_ops pf sz) cp t1 w2)
              | (Inr r, w2) \<Rightarrow> (Inr r, t1, w2))))"

text \<open>\<open>prepare_release\<close> and \<open>prepare_transfer\<close> work on the copy themselves.\<close>

definition staged_release :: "result_handle \<Rightarrow> result_impl \<Rightarrow> unit expected \<times> result_impl" where
  "staged_release h s =
     (case impl_consumer s h of
        Inl e \<Rightarrow> (Inl e, s)
      | Inr c \<Rightarrow>
         (let i = unat (h_slot (rh_result h)) in (Inr (), impl_collect i (drop_consumer c i s))))"

definition staged_transfer :: "result_handle \<Rightarrow> u64 \<Rightarrow> result_impl \<Rightarrow> result_handle expected \<times> result_impl" where
  "staged_transfer h owner s =
     (case impl_consumer s h of
        Inl e \<Rightarrow> (Inl e, s)
      | Inr c \<Rightarrow>
         (case impl_add (rh_result h) owner s of
            (Inl e, s') \<Rightarrow> (Inl e, s')
          | (Inr n, s') \<Rightarrow> (Inr n, drop_consumer c (unat (h_slot (rh_result h))) s')))"

definition prepare_retain ::
  "platform \<Rightarrow> result_sizes \<Rightarrow> result_handle \<Rightarrow> u64 \<Rightarrow> (result_handle, result_ext) step" where
  "prepare_retain pf sz h owner = prepare_op pf sz 0 (rs_retain h owner)"

definition prepare_release :: "platform \<Rightarrow> result_sizes \<Rightarrow> result_handle \<Rightarrow> (unit, result_ext) step" where
  "prepare_release pf sz h = prepare_op pf sz 0 (staged_release h)"

definition prepare_transfer ::
  "platform \<Rightarrow> result_sizes \<Rightarrow> result_handle \<Rightarrow> u64 \<Rightarrow> (result_handle, result_ext) step" where
  "prepare_transfer pf sz h owner = prepare_op pf sz 0 (staged_transfer h owner)"

definition prepare_reserve :: "platform \<Rightarrow> result_sizes \<Rightarrow> result_create \<Rightarrow> (reserved_result, result_ext) step" where
  "prepare_reserve pf sz c = prepare_op pf sz 0 (rs_reserve c)"

definition prepare_release_owner :: "platform \<Rightarrow> result_sizes \<Rightarrow> handle \<Rightarrow> (unit, result_ext) step" where
  "prepare_release_owner pf sz h = prepare_op pf sz 0 (rs_release_owner h)"

definition prepare_publish_in ::
  "platform \<Rightarrow> result_sizes \<Rightarrow> handle \<Rightarrow> value_t \<Rightarrow> publication_context \<Rightarrow> (publication_receipt, result_ext) step" where
  "prepare_publish_in pf sz h v c t w =
     (if pb_ready c \<noteq> ec_ready (et_context t)
      then (fail InvalidArgument ''publication differs from segment ReadyKey'', t, w)
      else let bytes = bounded_value_bytes pf v in
        if bytes = SIZE_MAX \<or> bytes > SIZE_MAX - 4 * sizeof_ptr pf
        then (fail Capacity ''publication value bounds'', t, w)
        else prepare_op pf sz (bytes + 4 * sizeof_ptr pf) (rs_publish pf h v c) t w)"

section \<open>Reading through the segment\<close>

definition prepare_read ::
  "platform \<Rightarrow> result_sizes \<Rightarrow> event_txn \<Rightarrow> result_handle \<Rightarrow> nat \<Rightarrow> rworld \<Rightarrow> value_t expected" where
  "prepare_read pf sz t h n w =
     (if et_closed t then fail InvalidState ''closed result segment'' else rs_read pf h n (txn_view pf sz t w))"

definition prepare_ready ::
  "platform \<Rightarrow> result_sizes \<Rightarrow> event_txn \<Rightarrow> result_handle \<Rightarrow> rworld \<Rightarrow> ready_key expected" where
  "prepare_ready pf sz t h w =
     (if et_closed t then fail InvalidState ''closed result segment'' else rs_published_ready h (txn_view pf sz t w))"

definition prepare_alive :: "platform \<Rightarrow> result_sizes \<Rightarrow> event_txn \<Rightarrow> handle \<Rightarrow> rworld \<Rightarrow> bool expected" where
  "prepare_alive pf sz t h w =
     (if et_closed t then fail InvalidState ''closed result segment'' else Inr (rs_alive h (txn_view pf sz t w)))"

definition prepare_describe ::
  "platform \<Rightarrow> result_sizes \<Rightarrow> event_txn \<Rightarrow> result_handle \<Rightarrow> rworld \<Rightarrow> result_create expected" where
  "prepare_describe pf sz t h w =
     (if et_closed t then fail InvalidState ''closed result segment'' else rs_describe h (txn_view pf sz t w))"

end
