(* ===== verification/Result_Txn_Props.thy ===== *)
theory Result_Txn_Props
  imports Result_Txn
begin

text \<open>
  The transactional operations of the result store refine the direct ones: what a segment prepares
  changes its own view of the registry exactly as the direct operation would, leaves the registry
  itself alone, and becomes the registry when the segment commits.
\<close>

section \<open>The view of a segment\<close>

lemma set_store_simps [simp]:
  "store_of (set_store s w) = s" "heap_of (set_store s w) = heap_of w" "rx_this (w_ext (set_store s w)) = rx_this (w_ext w)"
  "w_cells (set_store s w) = w_cells w" "w_queues (set_store s w) = w_queues w"
  by (simp_all add: set_store_def)

lemma set_heap_simps [simp]:
  "store_of (set_heap h w) = store_of w" "heap_of (set_heap h w) = h" "rx_this (w_ext (set_heap h w)) = rx_this (w_ext w)"
  "w_cells (set_heap h w) = w_cells w" "w_queues (set_heap h w) = w_queues w" "set_heap h (set_heap h' w) = set_heap h w"
  "set_store s (set_heap h w) = set_heap h (set_store s w)" "set_store (store_of w) w = w"
  by (simp_all add: set_heap_def set_store_def)

lemma shared_simps [simp]:
  "shared s s = s" "shared s (shared s' x) = shared s x" "shared (shared x s) y = shared x y"
  "ri_slots (shared s x) = ri_slots x" "ri_consumers (shared s x) = ri_consumers x" "ri_version (shared s x) = ri_version x"
  "ri_pin_count (shared s x) = ri_pin_count x" "ri_next_result (shared s x) = ri_next_result s"
  "ri_next_consumer (shared s x) = ri_next_consumer s"
  by (simp_all add: shared_def)

text \<open>A segment in which every participant is a copy of the registry.\<close>

definition parts_staged :: "event_txn \<Rightarrow> rworld \<Rightarrow> bool" where
  "parts_staged t w \<longleftrightarrow> distinct (et_participants t) \<and>
     (\<forall>a \<in> set (et_participants t). a < length (heap_of w) \<and> (\<exists>g. heap_of w ! a = Staged g))"

lemma staged_last_eq:
  assumes "parts_staged t w"
  shows "staged_last pf sz t w = (if et_participants t = [] then None else Some (last (et_participants t)))"
proof (cases "et_participants t" rule: rev_cases)
  case (snoc ps a)
  then have "a < length (heap_of w)" "\<exists>g. heap_of w ! a = Staged g" using assms by (auto simp: parts_staged_def)
  then show ?thesis
    by (auto simp: staged_last_def et_participant_def snoc result_ops_def participant_at_def)
qed (simp add: staged_last_def et_participant_def)

lemma txn_view_eq:
  assumes "parts_staged t w"
  shows "txn_view pf sz t w = (if et_participants t = [] then store_of w
    else shared (store_of w) (snapshot_of (last (et_participants t)) w))"
  by (simp add: txn_view_def staged_last_eq [OF assms])

lemma shared_view: "shared (store_of w) (txn_view pf sz t w) = txn_view pf sz t w"
  by (simp add: txn_view_def split: option.splits)

text \<open>Later participants and new counters do not change what the older copies hold.\<close>

lemma parts_staged_heap:
  assumes "parts_staged t w"
  shows "parts_staged t (set_heap (heap_of w @ tail) (set_store s w))"
  using assms by (auto simp: parts_staged_def nth_append)

lemma view_heap:
  assumes ps: "parts_staged t w"
  shows "txn_view pf sz t (set_heap (heap_of w @ tail) (set_store (shared x (store_of w)) w)) =
    shared x (txn_view pf sz t w)"
proof (cases "et_participants t = []")
  case False
  let ?a = "last (et_participants t)"
  have "?a \<in> set (et_participants t)" using False by simp
  then have a: "?a < length (heap_of w)" "\<exists>g. heap_of w ! ?a = Staged g" using ps by (auto simp: parts_staged_def)
  then have "snapshot_of ?a (set_heap (heap_of w @ tail) (set_store (shared x (store_of w)) w)) = snapshot_of ?a w"
    by (auto simp: snapshot_of_def participant_at_def nth_append)
  then show ?thesis using False by (simp add: txn_view_eq [OF ps] txn_view_eq [OF parts_staged_heap [OF ps]])
qed (simp add: txn_view_eq [OF ps] txn_view_eq [OF parts_staged_heap [OF ps]])

lemma view_heap_same:
  assumes "parts_staged t w"
  shows "txn_view pf sz t (set_heap (heap_of w @ tail) w) = txn_view pf sz t w"
  using view_heap [OF assms, of pf sz tail "store_of w"] by (simp add: shared_view)

section \<open>Staging a copy\<close>

definition with_participant :: "nat \<Rightarrow> nat \<Rightarrow> event_txn \<Rightarrow> event_txn" where
  "with_participant a n t = t\<lparr>et_participants := et_participants t @ [a],
     et_participant_bytes := et_participant_bytes t @ [n], et_bytes := et_bytes t + n\<rparr>"

lemma stage_participant_cases:
  assumes "et_stage_participant ops (Some p) t w = (r, t', w')"
  obtains (refused) e where "r = Inl e" "t' = t" "w' = po_discard ops p w"
    | (staged) n where "r = Inr ()" "t' = with_participant p n t" "w' = w"
proof -
  have "(\<exists>e. (r, t', w') = (Inl e, t, po_discard ops p w)) \<or> (\<exists>n. (r, t', w') = (Inr (), with_participant p n t, w))"
    unfolding assms [symmetric] et_stage_participant_def with_participant_def Let_def fail_def option.case
    by (simp split: sum.split) blast
  then show thesis using that by auto
qed

definition fresh_copy :: "platform \<Rightarrow> result_sizes \<Rightarrow> nat \<Rightarrow> event_txn \<Rightarrow> rworld \<Rightarrow> staged" where
  "fresh_copy pf sz extra t w = \<lparr>sg_snapshot = txn_view pf sz t w, sg_version = ri_version (store_of w), sg_done = False,
     sg_extra_bytes = extra\<rparr>"

lemma rs_stage_cases:
  assumes st: "rs_stage pf sz extra t w = (res, t1, w1)"
  obtains (refused) e tail where "res = Inl e" "t1 = t" "w1 = set_heap (heap_of w @ tail) w"
    | (copied) n where "res = Inr (length (heap_of w))" "w1 = set_heap (heap_of w @ [Staged (fresh_copy pf sz extra t w)]) w"
        "t1 = with_participant (length (heap_of w)) n t"
proof -
  let ?a = "length (heap_of w)" and ?g = "fresh_copy pf sz extra t w"
  let ?w = "set_heap (heap_of w @ [Staged ?g]) w"
  have same: "set_heap (heap_of w @ []) w = w" by (simp add: set_heap_def)
  have dis: "po_discard (result_ops pf sz) ?a ?w = set_heap (heap_of w @ [Staged (?g\<lparr>sg_done := True\<rparr>)]) w"
    by (simp add: result_ops_def participant_at_def update_participant_def)
  obtain r2 t2 w2 where sp: "et_stage_participant (result_ops pf sz) (Some ?a) t ?w = (r2, t2, w2)" by (metis prod_cases3)
  have "(\<exists>e. (res, t1, w1) = (Inl e, t, w)) \<or>
      (res, t1, w1) = (case r2 of Inl e \<Rightarrow> (Inl e, t2, w2) | Inr _ \<Rightarrow> (Inr ?a, t2, w2))"
    unfolding st [symmetric] rs_stage_def Let_def alloc_participant_def fail_def fresh_copy_def [symmetric] prod.case sp
    by (simp split: sum.split)
  then show thesis
  proof
    assume "\<exists>e. (res, t1, w1) = (Inl e, t, w)"
    then show thesis using refused [of _ "[]"] same by auto
  next
    assume late: "(res, t1, w1) = (case r2 of Inl e \<Rightarrow> (Inl e, t2, w2) | Inr _ \<Rightarrow> (Inr ?a, t2, w2))"
    from sp show thesis
    proof (cases rule: stage_participant_cases)
      case (refused e)
      then have "res = Inl e" "t1 = t" "w1 = po_discard (result_ops pf sz) ?a ?w" using late by simp_all
      then show thesis using that(1) unfolding dis by blast
    next
      case (staged n)
      then have "res = Inr ?a" "t1 = with_participant ?a n t" "w1 = ?w" using late by simp_all
      then show thesis using copied by blast
    qed
  qed
qed

section \<open>Refinement\<close>

text \<open>What other segments can see of the registry.\<close>

definition published_same :: "rworld \<Rightarrow> rworld \<Rightarrow> bool" where
  "published_same w w' \<longleftrightarrow> ri_slots (store_of w') = ri_slots (store_of w) \<and> ri_consumers (store_of w') = ri_consumers (store_of w) \<and>
     ri_version (store_of w') = ri_version (store_of w) \<and> ri_pin_count (store_of w') = ri_pin_count (store_of w)"

lemma prepare_op_cases:
  assumes ps: "parts_staged t w" and op: "prepare_op pf sz extra f t w = (res, t', w')"
  obtains (refused) e tail where "res = Inl e" "t' = t" "w' = set_heap (heap_of w @ tail) w"
    | (failed) e x tail where "res = Inl e" "f (txn_view pf sz t w) = (Inl e, x)" "t' = t"
        "w' = set_heap (heap_of w @ tail) (set_store (shared x (store_of w)) w)"
    | (prepared) r x g n where "res = Inr r" "f (txn_view pf sz t w) = (Inr r, x)"
        "t' = with_participant (length (heap_of w)) n t" "sg_snapshot g = x"
        "sg_version g = ri_version (store_of w)" "\<not> sg_done g"
        "w' = set_heap (heap_of w @ [Staged g]) (set_store (shared x (store_of w)) w)"
proof (cases "et_checkpoint t")
  case (Inl e)
  then show thesis using op refused [of e "[]"] by (simp add: prepare_op_def set_heap_def)
next
  case (Inr cp)
  obtain r1 t1 w1 where st: "rs_stage pf sz extra t w = (r1, t1, w1)" by (metis prod_cases3)
  from st show thesis
  proof (cases rule: rs_stage_cases)
    case (refused e tail)
    then have "res = Inl e" "t' = t" "w' = set_heap (heap_of w @ tail) w" using op Inr st by (auto simp: prepare_op_def)
    then show thesis by (rule that(1))
  next
    case (copied n)
    let ?a = "length (heap_of w)" and ?g = "fresh_copy pf sz extra t w"
    obtain r x where f: "f (txn_view pf sz t w) = (r, x)" by fastforce
    let ?g' = "?g\<lparr>sg_snapshot := x\<rparr>"
    let ?w2 = "set_heap (heap_of w @ [Staged ?g']) (set_store (shared x (store_of w)) w)"
    have "shared (store_of w) (sg_snapshot ?g) = txn_view pf sz t w" by (simp add: fresh_copy_def shared_view)
    then have on: "on_snapshot ?a f w1 = (r, ?w2)"
      by (simp add: on_snapshot_def copied(2) participant_at_def f)
    show thesis
    proof (cases r)
      case (Inl e)
      have "extends t t1 []" by (simp add: copied(3) with_participant_def extends_def)
      from rollback_extends [OF this Inr, of "result_ops pf sz" ?w2]
      have "roll_back (result_ops pf sz) cp t1 ?w2 = (t, po_discard (result_ops pf sz) ?a ?w2)"
        by (simp add: roll_back_def copied(3) with_participant_def discard_participants_def destroy_events_def)
      also have "po_discard (result_ops pf sz) ?a ?w2 =
          set_heap (heap_of w @ [Staged (?g'\<lparr>sg_done := True\<rparr>)]) (set_store (shared x (store_of w)) w)"
        by (simp add: result_ops_def participant_at_def update_participant_def)
      finally have "prepare_op pf sz extra f t w =
          (Inl e, t, set_heap (heap_of w @ [Staged (?g'\<lparr>sg_done := True\<rparr>)]) (set_store (shared x (store_of w)) w))"
        by (simp add: prepare_op_def Inr st copied(1) on Inl)
      then show thesis using op f Inl by (intro failed [of e x]) auto
    next
      case (Inr y)
      have "prepare_op pf sz extra f t w = (Inr y, t1, ?w2)"
        by (simp add: prepare_op_def \<open>et_checkpoint t = Inr cp\<close> st copied(1) on Inr)
      then show thesis using op f Inr copied(3) by (intro prepared [of y x n ?g']) (auto simp: fresh_copy_def)
    qed
  qed
qed

text \<open>A segment whose view of the registry satisfies the invariant.\<close>

definition staged_ok :: "platform \<Rightarrow> result_sizes \<Rightarrow> event_txn \<Rightarrow> rworld \<Rightarrow> bool" where
  "staged_ok pf sz t w \<longleftrightarrow> parts_staged t w \<and> result_inv pf (txn_view pf sz t w)"

definition unversioned :: "result_impl \<Rightarrow> result_impl" where
  "unversioned s = s\<lparr>ri_version := 0\<rparr>"

text \<open>
  A prepared operation refines a direct one: when it succeeds it gives the result of the direct
  operation on the view of the segment and changes the view alike, up to the version; when it is
  refused the segment is as before and the view has changed in its counters only. Neither way can
  anybody else see a difference.
\<close>

definition op_outcome ::
  "platform \<Rightarrow> result_sizes \<Rightarrow> (result_impl \<Rightarrow> 'r expected \<times> result_impl) \<Rightarrow> event_txn \<Rightarrow> rworld \<Rightarrow>
     'r expected \<times> event_txn \<times> rworld \<Rightarrow> bool" where
  "op_outcome pf sz f t w out = (case out of (res, t', w') \<Rightarrow>
     staged_ok pf sz t' w' \<and> published_same w w' \<and>
     (case res of
        Inr r \<Rightarrow> fst (f (txn_view pf sz t w)) = Inr r \<and>
          unversioned (txn_view pf sz t' w') = unversioned (snd (f (txn_view pf sz t w)))
      | Inl e \<Rightarrow> t' = t \<and> txn_view pf sz t' w' = shared (store_of w') (txn_view pf sz t w)))"

definition op_refines ::
  "platform \<Rightarrow> result_sizes \<Rightarrow> ('r, result_ext) step \<Rightarrow> (result_impl \<Rightarrow> 'r expected \<times> result_impl) \<Rightarrow> bool" where
  "op_refines pf sz p f \<longleftrightarrow> (\<forall>t w. staged_ok pf sz t w \<longrightarrow> op_outcome pf sz f t w (p t w))"

lemma shared_inv:
  assumes inv: "registry_inv pf ex x" and le: "ri_next_result x \<le> ri_next_result s" "ri_next_consumer x \<le> ri_next_consumer s"
  shows "registry_inv pf ex (shared s x)"
proof -
  have same: "holders (shared s x) i = holders x i" "result_handle_at (shared s x) i = result_handle_at x i" for i
    by (auto simp: holders_def result_handle_at_def shared_def)
  have "slot_ok pf ex (shared s x) i (slot_at x i)" if "i < length (ri_slots x)" for i
    using inv_slot [OF inv that] le(1) by (auto simp: slot_ok_def same)
  moreover have "consumer_ok (shared s x) (consumer_at x c)" if "c < length (ri_consumers x)" for c
    using inv_active [OF inv that] le(2) by (auto simp: consumer_ok_def same)
  moreover have "ri_pin_limit (shared s x) = ri_pin_limit x" by (simp add: shared_def)
  ultimately show ?thesis using inv by (simp add: registry_inv_def)
qed

lemma prepare_op_refines:
  assumes f: "\<And>s. result_inv pf s \<Longrightarrow> result_inv pf (snd (f s)) \<and> advance s (snd (f s))"
  shows "op_refines pf sz (prepare_op pf sz extra f) f"
  unfolding op_refines_def
proof (intro allI impI)
  fix t w
  assume ok: "staged_ok pf sz t w"
  have ps: "parts_staged t w" and inv: "result_inv pf (txn_view pf sz t w)" using ok by (simp_all add: staged_ok_def)
  note nxt = f [OF inv]
  obtain res t' w' where op: "prepare_op pf sz extra f t w = (res, t', w')" by (metis prod_cases3)
  from ps op have "op_outcome pf sz f t w (res, t', w')"
  proof (cases rule: prepare_op_cases)
    case (refused e tail)
    have "parts_staged t w'" using parts_staged_heap [OF ps, of tail "store_of w"] by (simp add: refused(3))
    then show ?thesis using inv view_heap_same [OF ps, of pf sz tail]
      by (simp add: op_outcome_def refused staged_ok_def published_same_def shared_view)
  next
    case (failed e x tail)
    have v: "txn_view pf sz t w' = shared x (txn_view pf sz t w)" unfolding failed(4) by (rule view_heap [OF ps])
    have "result_inv pf (shared x (txn_view pf sz t w))"
      by (rule shared_inv [OF inv]) (use nxt failed(2) in \<open>simp_all add: advance_def\<close>)
    moreover have "parts_staged t w'" unfolding failed(4) by (rule parts_staged_heap [OF ps])
    ultimately show ?thesis using v by (simp add: op_outcome_def failed(1,3) staged_ok_def published_same_def) (simp add: failed(4))
  next
    case (prepared r x g n)
    have "length (heap_of w) \<notin> set (et_participants t)" using ps by (auto simp: parts_staged_def)
    then have ps': "parts_staged t' w'"
      using ps by (auto simp: parts_staged_def prepared(3,7) with_participant_def nth_append)
    have "snapshot_of (length (heap_of w)) w' = x"
      by (simp add: snapshot_of_def participant_at_def prepared(4,7))
    moreover have "et_participants t' = et_participants t @ [length (heap_of w)]" "shared (store_of w') x = x"
      by (simp_all add: prepared(3,7) with_participant_def)
    ultimately have v: "txn_view pf sz t' w' = x" using txn_view_eq [OF ps', of pf sz] by simp
    then show ?thesis using ps' nxt prepared(2) v
      by (simp add: op_outcome_def prepared(1) staged_ok_def published_same_def) (simp add: prepared(7))
  qed
  then show "op_outcome pf sz f t w (prepare_op pf sz extra f t w)" by (simp only: op)
qed

section \<open>The operations\<close>

lemma op_refines_cong:
  assumes "op_refines pf sz p f"
    and "\<And>s. result_inv pf s \<Longrightarrow> fst (f' s) = fst (f s) \<and> unversioned (snd (f' s)) = unversioned (snd (f s))"
  shows "op_refines pf sz p f'"
proof -
  have "op_outcome pf sz f' t w (p t w)" if ok: "staged_ok pf sz t w" for t w
  proof -
    obtain res t' w' where p: "p t w = (res, t', w')" by (metis prod_cases3)
    have "op_outcome pf sz f t w (p t w)" using assms(1) ok by (simp add: op_refines_def)
    moreover have "fst (f' (txn_view pf sz t w)) = fst (f (txn_view pf sz t w))"
        "unversioned (snd (f' (txn_view pf sz t w))) = unversioned (snd (f (txn_view pf sz t w)))"
      using assms(2) ok by (simp_all add: staged_ok_def)
    ultimately show ?thesis unfolding p op_outcome_def prod.case by (cases res) auto
  qed
  then show ?thesis by (simp add: op_refines_def)
qed

lemma unversioned_bump [simp]:
  "unversioned (bump_version s) = unversioned s"
  "unversioned (impl_collect i (drop_consumer c i (bump_version s))) = unversioned (impl_collect i (drop_consumer c i s))"
  by (simp_all add: unversioned_def bump_version_def impl_collect_def drop_consumer_def upd_slot_at_def upd_consumer_at_def Let_def)

lemma staged_release_release:
  "fst (rs_release h s) = fst (staged_release h s) \<and> unversioned (snd (rs_release h s)) = unversioned (snd (staged_release h s))"
  by (simp add: rs_release_def staged_release_def Let_def split: sum.splits)

lemma staged_release_inv:
  assumes "result_inv pf s"
  shows "result_inv pf (snd (staged_release h s)) \<and> advance s (snd (staged_release h s))"
proof -
  have "bump_version (snd (staged_release h s)) = snd (rs_release h s) \<or> snd (staged_release h s) = s"
    by (auto simp: rs_release_def staged_release_def Let_def bump_version_def impl_collect_def drop_consumer_def upd_slot_at_def
        upd_consumer_at_def split: sum.splits)
  then show ?thesis using rs_release_inv [OF assms, of h] advance_release [of s h] assms advance_refl
    by (metis advance_bump(1) bump_inv)
qed

text \<open>A transfer retains for the new owner and releases the old consumer.\<close>

definition rs_transfer :: "result_handle \<Rightarrow> u64 \<Rightarrow> result_impl \<Rightarrow> result_handle expected \<times> result_impl" where
  "rs_transfer h owner s =
     (case rs_retain h owner s of
        (Inl e, s1) \<Rightarrow> (Inl e, s1)
      | (Inr n, s1) \<Rightarrow>
         (case rs_release h s1 of
            (Inl e, s2) \<Rightarrow> (Inl e, s2)
          | (Inr _, s2) \<Rightarrow> (Inr n, s2)))"

lemma still_valid_after_add:
  assumes c: "impl_consumer s h = Inr c" and add: "impl_add (rh_result h) owner s = (Inr n, s1)"
  shows "impl_consumer s1 h = Inr c"
  using add
proof (cases rule: impl_add_cases)
  case (added k)
  obtain i where i: "impl_result s (rh_result h) = Inr i" using c by (auto simp: impl_consumer_def split: sum.splits)
  have r: "impl_result s1 (rh_result h) = Inr i"
    using i unfolding added(4) impl_result_def
    by (simp add: Let_def fail_def with_consumer_simps with_consumer_slot split: if_splits)
  have cs: "c = unat (h_slot (rh_consumer h))" "cn_active (consumer_at s c)" "c < length (ri_consumers s)"
    using c by (auto simp: impl_consumer_def Let_def fail_def split: sum.splits if_splits)
  then have "consumer_at s1 c = consumer_at s c" using added(2) by (auto simp: added(4) with_consumer_consumer)
  then show ?thesis using c i r cs unfolding impl_consumer_def
    by (simp add: Let_def fail_def added(4) with_consumer_simps split: if_splits)
qed (simp add: fail_def)

lemma staged_transfer_transfer:
  assumes inv: "result_inv pf s"
  shows "fst (rs_transfer h owner s) = fst (staged_transfer h owner s) \<and>
    unversioned (snd (rs_transfer h owner s)) = unversioned (snd (staged_transfer h owner s))"
proof (cases "impl_consumer s h")
  case (Inr c)
  obtain r s1 where add: "impl_add (rh_result h) owner s = (r, s1)" by fastforce
  let ?i = "unat (h_slot (rh_result h))"
  show ?thesis
  proof (cases r)
    case (Inr n)
    note c1 = still_valid_after_add [OF \<open>impl_consumer s h = Inr c\<close> add [unfolded Inr]]
    obtain i where i: "impl_result s (rh_result h) = Inr i" using \<open>impl_consumer s h = Inr c\<close> by (rule consumer_result)
    have inv1: "result_inv pf s1" by (rule impl_add_inv(1) [OF inv i add])
    from inv \<open>impl_consumer s h = Inr c\<close> obtain j where j: "j < length (ri_slots s)" "?i = j" "0 < sl_consumers (slot_at s j)"
      by (rule inv_consumer)
    from add have "sl_consumers (slot_at s1 ?i) = sl_consumers (slot_at s ?i) + 1"
      by (cases rule: impl_add_cases) (use j Inr in \<open>simp_all add: with_consumer_slot fail_def\<close>)
    then have "0 < sl_consumers (slot_at (drop_consumer c ?i s1) ?i) \<or> ?i \<ge> length (ri_slots s1)"
      using j by (simp add: drop_consumer_def slot_at_upd)
    then have "impl_collect ?i (drop_consumer c ?i s1) = drop_consumer c ?i s1 \<or> ?i \<ge> length (ri_slots s1)"
      by (auto simp: impl_collect_def Let_def)
    moreover from inv1 c1 obtain k where "k < length (ri_slots s1)" "?i = k" by (rule inv_consumer)
    ultimately have "impl_collect ?i (drop_consumer c ?i s1) = drop_consumer c ?i s1" by simp
    then show ?thesis using Inr \<open>impl_consumer s h = Inr c\<close> add c1
      by (simp add: rs_transfer_def staged_transfer_def rs_retain_def rs_release_def Let_def)
  qed (use Inr add in \<open>simp add: rs_transfer_def staged_transfer_def rs_retain_def\<close>)
qed (simp add: rs_transfer_def staged_transfer_def rs_retain_def)

lemma unversioned_inv: "unversioned x = unversioned y \<Longrightarrow> result_inv pf x = result_inv pf y"
proof -
  have same: "holders (unversioned s) i = holders s i" "result_handle_at (unversioned s) i = result_handle_at s i" for s i
    by (auto simp: holders_def result_handle_at_def unversioned_def)
  have "result_inv pf (unversioned s) = result_inv pf s" for s
    by (simp add: registry_inv_def slot_ok_def consumer_ok_def same) (simp add: unversioned_def)
  then show "unversioned x = unversioned y \<Longrightarrow> result_inv pf x = result_inv pf y" by metis
qed

lemma unversioned_advance: "unversioned x = unversioned y \<Longrightarrow> advance s x = advance s y"
proof -
  have "advance s (unversioned x) = advance s x" for x by (simp add: advance_def same_shape_def unversioned_def)
  then show "unversioned x = unversioned y \<Longrightarrow> advance s x = advance s y" by metis
qed

lemma staged_transfer_inv:
  assumes inv: "result_inv pf s"
  shows "result_inv pf (snd (staged_transfer h owner s)) \<and> advance s (snd (staged_transfer h owner s))"
proof -
  obtain r s1 where rt: "rs_retain h owner s = (r, s1)" by fastforce
  have 1: "result_inv pf s1" "advance s s1" using rs_retain_inv [OF inv, of h owner] advance_retain [OF inv, of h owner] rt by simp_all
  have "snd (rs_transfer h owner s) = s1 \<or> snd (rs_transfer h owner s) = snd (rs_release h s1)"
    by (auto simp: rs_transfer_def rt split: sum.splits prod.splits)
  then have "result_inv pf (snd (rs_transfer h owner s)) \<and> advance s (snd (rs_transfer h owner s))"
    using 1 rs_release_inv [OF 1(1), of h] advance_trans [OF 1(2) advance_release, of h] by auto
  then show ?thesis
    using unversioned_inv unversioned_advance staged_transfer_transfer [OF inv, of h owner] by metis
qed

lemma early_refusal: "staged_ok pf sz t w \<Longrightarrow> op_outcome pf sz f t w (Inl e, t, w)"
  by (simp add: op_outcome_def published_same_def shared_view)

lemma publish_in_refines: "op_refines pf sz (prepare_publish_in pf sz h v c) (rs_publish pf h v c)"
proof -
  have "op_refines pf sz (prepare_op pf sz n (rs_publish pf h v c)) (rs_publish pf h v c)" for n
    by (intro prepare_op_refines conjI rs_publish_inv advance_publish)
  then show ?thesis by (simp add: op_refines_def prepare_publish_in_def Let_def early_refusal fail_def)
qed

section \<open>Commit\<close>

lemma enqueue_events_ext: "enqueue_events es w = Some (es', w') \<Longrightarrow> w_ext w' = w_ext w"
  by (induction es w arbitrary: es' w' rule: enqueue_events.induct)
    (auto split: sum.splits option.splits prod.splits)

lemma cancel_events_ext: "cancel_events cs w = Some w' \<Longrightarrow> w_ext w' = w_ext w"
  by (induction cs w arbitrary: w' rule: cancel_events.induct) (auto split: sum.splits prod.splits)

lemma et_commit_cases:
  assumes "et_commit ops epoch t w = Some (Inr acts, t', w')"
  obtains w2 where "commit_check ops epoch t w = Inr ()" "w_ext w2 = w_ext w" "w' = fold (po_apply ops) (et_participants t) w2"
proof -
  obtain es w1 w2 where c: "commit_check ops epoch t w = Inr ()"
      "enqueue_events (et_events t) (apply_writes (et_writes t) w) = Some (es, w1)"
      "cancel_events (et_cancels t) w1 = Some w2" "w' = fold (po_apply ops) (et_participants t) w2"
    using assms by (auto simp: et_commit_def split: sum.splits option.splits prod.splits)
  show thesis using that c enqueue_events_ext [OF c(2)] cancel_events_ext [OF c(3)] by simp
qed

lemma po_apply_at:
  "participant_at a w = Some p \<Longrightarrow> po_apply (result_ops pf sz) a w = update_participant a (participant_apply p (store_of w)) w"
  by (simp add: result_ops_def)

text \<open>The copies swap in one after the other; the last one stays.\<close>

lemma apply_copies:
  assumes "distinct ps" "\<forall>a \<in> set ps. a < length (heap_of w) \<and> (\<exists>g. heap_of w ! a = Staged g)"
  shows "let w' = fold (po_apply (result_ops pf sz)) ps w; s = store_of w' in
    length (heap_of w') = length (heap_of w) \<and> (\<forall>a. a \<notin> set ps \<longrightarrow> heap_of w' ! a = heap_of w ! a) \<and>
    ri_next_result s = ri_next_result (store_of w) \<and> ri_next_consumer s = ri_next_consumer (store_of w) \<and>
    ri_version s = ri_version (store_of w) + of_nat (length ps) \<and>
    (ps \<noteq> [] \<longrightarrow> ri_slots s = ri_slots (snapshot_of (last ps) w) \<and> ri_consumers s = ri_consumers (snapshot_of (last ps) w))"
  using assms
proof (induction ps rule: rev_induct)
  case (snoc a ps)
  let ?w = "fold (po_apply (result_ops pf sz)) ps w"
  have ih: "length (heap_of ?w) = length (heap_of w)" "heap_of ?w ! a = heap_of w ! a"
      "\<forall>b. b \<notin> set ps \<longrightarrow> heap_of ?w ! b = heap_of w ! b"
      "ri_next_result (store_of ?w) = ri_next_result (store_of w)" "ri_next_consumer (store_of ?w) = ri_next_consumer (store_of w)"
      "ri_version (store_of ?w) = ri_version (store_of w) + of_nat (length ps)"
    using snoc by (simp_all add: Let_def)
  obtain g where g: "a < length (heap_of w)" "heap_of w ! a = Staged g" using snoc.prems by auto
  have "po_apply (result_ops pf sz) a ?w = update_participant a (participant_apply (Staged g) (store_of ?w)) ?w"
    by (rule po_apply_at) (use ih(1,2) g in \<open>simp add: participant_at_def\<close>)
  then show ?case using ih g
    by (auto simp: Let_def update_participant_def snapshot_of_def participant_at_def nth_list_update algebra_simps)
qed simp

lemma check_participants_valid:
  assumes "check_participants ops w ps bs = Inr u" "length bs = length ps" "p \<in> set ps"
  shows "po_validate ops p w = Inr ()"
  using assms by (induction ops w ps bs rule: check_participants.induct) (auto split: if_splits sum.splits simp: fail_def)

section \<open>Properties\<close>



section \<open>A small segment\<close>

text \<open>A segment retains the published result for another owner and commits.\<close>

definition demo_store_sizes :: result_sizes where
  "demo_store_sizes = \<lparr>sizeof_Staged = 48, sizeof_Impl = 120, sizeof_Slot = 160, sizeof_Consumer = 72, sizeof_Publish = 136\<rparr>"

definition demo_store_world :: "result_impl \<Rightarrow> result_participant list \<Rightarrow> rworld" where
  "demo_store_world s h = \<lparr>w_cells = \<lambda>_. \<lparr>vc_value = VUnit, vc_version = 0, vc_epoch = 0, vc_stable_bytes = False,
       vc_epoch_independent = False\<rparr>, w_queues = \<lambda>_. demo_new, w_ext = \<lparr>rx_this = 1, rx_store = s, rx_heap = h\<rparr>\<rparr>"

definition demo_store_ctx :: execution_context where
  "demo_store_ctx = \<lparr>ec_kind = CK_Timed, ec_domain = 0, ec_instance = 1, ec_connection = 0, ec_ready = ReadyKey 4 0,
     ec_owner = 3, ec_epoch = 1\<rparr>"

definition demo_store_segment :: event_txn where
  "demo_store_segment = EventTxn_new 9 \<lparr>sb_writes = 4, sb_actions = 0, sb_bytes = 4096, sb_events = 0\<rparr> demo_store_ctx"

definition demo_copy :: staged where
  "demo_copy = \<lparr>sg_snapshot = demo_retained, sg_version = 2, sg_done = False, sg_extra_bytes = 0\<rparr>"

definition demo_prepared_world :: rworld where
  "demo_prepared_world = demo_store_world (shared demo_retained demo_published) [Staged demo_copy]"

lemma demo_prepare_retain: "prepare_retain demo_pf demo_store_sizes (demo_consumer 0 1 8) 9 demo_store_segment (demo_store_world demo_published []) =
    (Inr (demo_consumer 1 2 9), with_participant 0 504 demo_store_segment, demo_prepared_world)"
proof -
  let ?w = "demo_store_world demo_published []"
  let ?c = "\<lparr>sg_snapshot = demo_published, sg_version = 2, sg_done = False, sg_extra_bytes = 0\<rparr>"
  have view: "txn_view demo_pf demo_store_sizes demo_store_segment ?w = demo_published"
    by (simp add: txn_view_def staged_last_def et_participant_def demo_store_segment_def EventTxn_new_def demo_store_world_def)
  have bytes: "required_bytes demo_pf demo_store_sizes demo_published = 504"
    by (simp add: required_bytes_def demo_store_sizes_def demo_pf_def demo_published_def demo_registry_def)
  have "rs_stage demo_pf demo_store_sizes 0 demo_store_segment ?w =
      (Inr 0, with_participant 0 504 demo_store_segment, demo_store_world demo_published [Staged ?c])"
    using bytes
    by (simp add: rs_stage_def view alloc_participant_def et_stage_participant_def result_ops_def participant_at_def with_participant_def
        et_remaining_bytes_def Let_def)
      (simp add: demo_store_world_def set_heap_def demo_store_segment_def EventTxn_new_def demo_published_def demo_registry_def demo_result_slot_def)
  moreover have "on_snapshot 0 (rs_retain (demo_consumer 0 1 8) 9) (demo_store_world demo_published [Staged ?c]) =
      (Inr (demo_consumer 1 2 9), demo_prepared_world)"
    using demo_retain
    by (simp add: on_snapshot_def participant_at_def demo_store_world_def demo_prepared_world_def set_store_def set_heap_def demo_copy_def)
  ultimately show ?thesis
    by (simp add: prepare_retain_def prepare_op_def et_checkpoint_def) (simp add: demo_store_segment_def EventTxn_new_def)
qed

lemma demo_store_commit: "\<exists>t' w'. et_commit (result_ops demo_pf demo_store_sizes) (ec_epoch demo_store_ctx) (with_participant 0 504 demo_store_segment) demo_prepared_world =
    Some (Inr \<lparr>ca_actions = [], ca_cursor = 0, ca_failed = False\<rparr>, t', w')"
  by (simp add: et_commit_def commit_check_def demo_store_segment_def EventTxn_new_def with_participant_def result_ops_def participant_at_def
      demo_prepared_world_def demo_store_world_def demo_copy_def demo_published_def demo_retained_def demo_registry_def
      required_bytes_def demo_store_sizes_def demo_pf_def Let_def shared_def apply_writes_def)


end
