(* ===== verification/Spec2Isabelle.thy ===== *)
theory Spec2Isabelle
  imports Event_Queue_Props Event_Txn_Props Numeric Memory Resource_Props Pipeline Register_Bank Timer_Props Protocol_Props Protocol_Lanes Interpreter_Txn Metadata_Props Cancel_Scope_Props Result_Txn_Props
begin

text \<open>
  The verification development of the LeanAT runtime.
\<close>

end
